(* ===== verification/Prelude.thy ===== *)
theory Prelude
  imports Main "HOL-Library.Word" "HOL-Library.Code_Target_Nat"
begin

text \<open>
  The prelude: the machine types of the program, the outcomes C++ has beside returning a value
  (undefined behaviour and exceptions), the object representation of fixed-width integers as
  bytes, the decimal text that \<^verbatim>\<open>operator<<\<close> of the standard streams prints, and the lemmas on
  lists and words the components share.

  \<^item> \<open>fault\<close> and \<open>fault + 'a\<close>: an operation that can leave the language's defined behaviour or
    throw returns \<open>Inl\<close> of what went wrong; \<open>and_then\<close> sequences two of them.
  \<^item> \<open>le_bytes\<close>, \<open>le_nat\<close>: \<^verbatim>\<open>std::memcpy\<close> of an integer to and from a byte buffer. The program
    never converts byte order, so both ends have to run on machines of the same order; the model
    fixes the little-endian one, the one of every platform of the client (\<^verbatim>\<open>windows.h\<close>).
\<close>

section \<open>Types and outcomes\<close>

type_synonym u8 = "8 word"
type_synonym u32 = "32 word"
type_synonym u64 = "64 word"
type_synonym bytes = "u8 list"

text \<open>The ways an operation of the program fails.\<close>

datatype fault =
    UndefinedBehaviour      \<comment> \<open>out-of-bounds access, null dereference, \<^verbatim>\<open>erase(end())\<close>, ...\<close>
  | OutOfRange              \<comment> \<open>\<^verbatim>\<open>std::out_of_range\<close>\<close>
  | LengthError             \<comment> \<open>\<^verbatim>\<open>std::length_error\<close>\<close>
  | InvalidArgument         \<comment> \<open>\<^verbatim>\<open>std::invalid_argument\<close>\<close>
  | SystemError             \<comment> \<open>\<^verbatim>\<open>std::system_error\<close>\<close>

fun and_then :: "fault + 'a \<Rightarrow> ('a \<Rightarrow> fault + 'b) \<Rightarrow> fault + 'b" where
  "and_then (Inl e) f = Inl e"
| "and_then (Inr x) f = f x"

named_theorems faults \<open>rules that take apart the outcome of a fallible operation\<close>
named_theorems wire \<open>lengths and round trips of byte encodings\<close>

lemma and_then_Inr_iff [faults]:
  "and_then r f = Inr y \<longleftrightarrow> (\<exists>x. r = Inr x \<and> f x = Inr y)"
  by (cases r) auto

lemma and_then_Inl_iff [faults]:
  "and_then r f = Inl e \<longleftrightarrow> r = Inl e \<or> (\<exists>x. r = Inr x \<and> f x = Inl e)"
  by (cases r) auto

lemma and_then_assoc: "and_then (and_then r f) g = and_then r (\<lambda>x. and_then (f x) g)"
  by (cases r) auto

section \<open>Integers as bytes\<close>

text \<open>The \<open>n\<close> bytes of \<open>x\<close>, the least significant first, and back.\<close>

fun le_bytes :: "nat \<Rightarrow> nat \<Rightarrow> bytes" where
  "le_bytes 0 x = []"
| "le_bytes (Suc n) x = of_nat (x mod 256) # le_bytes n (x div 256)"

fun le_nat :: "bytes \<Rightarrow> nat" where
  "le_nat [] = 0"
| "le_nat (b # bs) = unat b + 256 * le_nat bs"

lemma length_le_bytes [simp, wire]: "length (le_bytes n x) = n"
  by (induction n arbitrary: x) auto

lemma unat_of_nat_byte: "unat (of_nat (x mod 256) :: u8) = x mod 256"
  by (simp add: unat_of_nat)

lemma le_nat_le_bytes: "le_nat (le_bytes n x) = x mod 256 ^ n"
proof (induction n arbitrary: x)
  case 0
  then show ?case by simp
next
  case (Suc n)
  have "x mod 256 ^ Suc n = x mod 256 + 256 * (x div 256 mod 256 ^ n)"
    by (simp add: mod_mult2_eq mult.commute)
  then show ?case
    by (simp add: Suc.IH unat_of_nat_byte)
qed

lemma le_nat_bound: "le_nat bs < 256 ^ length bs"
proof (induction bs)
  case Nil
  then show ?case by simp
next
  case (Cons b bs)
  have "unat b < 256"
    using unsigned_less [of b, where ?'a = nat] by simp
  with Cons.IH show ?case by simp
qed

lemma le_bytes_le_nat: "le_bytes (length bs) (le_nat bs) = bs"
proof (induction bs)
  case Nil
  then show ?case by simp
next
  case (Cons b bs)
  have "unat b < 256"
    using unsigned_less [of b, where ?'a = nat] by simp
  then have "(unat b + 256 * le_nat bs) mod 256 = unat b"
    and "(unat b + 256 * le_nat bs) div 256 = le_nat bs"
    by simp_all
  with Cons.IH show ?case by simp
qed

text \<open>The object representation of a 32-bit and of a 64-bit integer.\<close>

definition le32 :: "u32 \<Rightarrow> bytes" where
  "le32 w = le_bytes 4 (unat w)"

definition un32 :: "bytes \<Rightarrow> u32" where
  "un32 bs = of_nat (le_nat bs)"

definition le64 :: "u64 \<Rightarrow> bytes" where
  "le64 w = le_bytes 8 (unat w)"

definition un64 :: "bytes \<Rightarrow> u64" where
  "un64 bs = of_nat (le_nat bs)"

lemma length_le32 [simp, wire]: "length (le32 w) = 4"
  by (simp add: le32_def)

lemma length_le64 [simp, wire]: "length (le64 w) = 8"
  by (simp add: le64_def)

lemma le32_not_Nil [simp]: "le32 w \<noteq> []"
  by (metis length_le32 list.size(3) zero_neq_numeral)

lemma le64_not_Nil [simp]: "le64 w \<noteq> []"
  by (metis length_le64 list.size(3) zero_neq_numeral)

lemma un32_le32 [simp, wire]: "un32 (le32 w) = w"
proof -
  have "unat w < 256 ^ 4"
    using unsigned_less [of w, where ?'a = nat] by simp
  then show ?thesis
    by (simp add: un32_def le32_def le_nat_le_bytes)
qed

lemma un64_le64 [simp, wire]: "un64 (le64 w) = w"
proof -
  have "unat w < 256 ^ 8"
    using unsigned_less [of w, where ?'a = nat] by simp
  then show ?thesis
    by (simp add: un64_def le64_def le_nat_le_bytes)
qed

lemma le32_un32: "length bs = 4 \<Longrightarrow> le32 (un32 bs) = bs"
proof -
  assume n: "length bs = 4"
  then have "le_nat bs < 2 ^ 32"
    using le_nat_bound [of bs] by simp
  then have "unat (un32 bs) = le_nat bs"
    by (simp add: un32_def unat_of_nat)
  then show ?thesis
    using le_bytes_le_nat [of bs] n by (simp add: le32_def)
qed

lemma le64_un64: "length bs = 8 \<Longrightarrow> le64 (un64 bs) = bs"
proof -
  assume n: "length bs = 8"
  then have "le_nat bs < 2 ^ 64"
    using le_nat_bound [of bs] by simp
  then have "unat (un64 bs) = le_nat bs"
    by (simp add: un64_def unat_of_nat)
  then show ?thesis
    using le_bytes_le_nat [of bs] n by (simp add: le64_def)
qed

lemma le32_inject [simp]: "le32 a = le32 b \<longleftrightarrow> a = b"
  by (metis un32_le32)

section \<open>Decimal text\<close>

definition digit_char :: "nat \<Rightarrow> char" where
  "digit_char d = char_of (48 + d)"

fun dec_nat :: "nat \<Rightarrow> string" where
  "dec_nat n = (if n < 10 then [digit_char n] else dec_nat (n div 10) @ [digit_char (n mod 10)])"

declare dec_nat.simps [simp del]

definition dec_int :: "int \<Rightarrow> string" where
  "dec_int i = (if i < 0 then CHR ''-'' # dec_nat (nat (- i)) else dec_nat (nat i))"

text \<open>\<^verbatim>\<open>out << x\<close> for an unsigned \<open>x\<close>; the newline character.\<close>

definition show_u32 :: "u32 \<Rightarrow> string" where
  "show_u32 w = dec_nat (unat w)"

definition nl :: string where
  "nl = [CHR 0x0A]"

section \<open>Lists\<close>

text \<open>\<^verbatim>\<open>c.erase(std::remove(c.begin(), c.end(), v), c.end())\<close>\<close>

lemma removeAll_filter_ne: "removeAll x xs = filter (\<lambda>y. y \<noteq> x) xs"
  by (induction xs) auto

lemma take_length_take: "take (length (take k xs)) xs = take k xs"
  by (simp add: min_def)

lemma prefix_lists_append:
  assumes "xs @ ys = zs @ ws" and "length xs \<le> length zs"
  shows "zs = xs @ take (length zs - length xs) ys"
proof -
  have "take (length zs) (xs @ ys) = zs"
    using assms(1) by simp
  with assms(2) show ?thesis by simp
qed

end
