(* ===== verification/Message.thy ===== *)
theory Message
  imports Prelude
begin

text \<open>
  \<^verbatim>\<open>Net_chat/net_message.h\<close> and the message types of \<^verbatim>\<open>ChatServer/Utilities.h\<close> and
  \<^verbatim>\<open>ChatClient/Utilities.h\<close>: the message of the wire protocol and the streaming operators
  \<^verbatim>\<open><<\<close> and \<^verbatim>\<open>>>\<close> that append a value to the end of its body and take one off the end.

  The operators are templates over the type of the value; the model is parametric in the object
  representation (\<open>repr\<close>), its inverse (\<open>unrepr\<close>) and its size. The locale \<open>pod\<close> states what
  the code relies on of a type in standard layout, and is interpreted for the two types the
  program streams.
\<close>

section \<open>Message types\<close>

datatype CustomMsgTypes =
    ServerAccept | ServerDeny | ServerPing | MessageAll | ServerMessage
  | ClientList | RequestToClient | TextClient | RequestAnswer | CloseClient

text \<open>The enumerators are numbered from 0; a header read off the wire can hold any other number.\<close>

fun msg_code :: "CustomMsgTypes \<Rightarrow> u32" where
  "msg_code ServerAccept = 0"
| "msg_code ServerDeny = 1"
| "msg_code ServerPing = 2"
| "msg_code MessageAll = 3"
| "msg_code ServerMessage = 4"
| "msg_code ClientList = 5"
| "msg_code RequestToClient = 6"
| "msg_code TextClient = 7"
| "msg_code RequestAnswer = 8"
| "msg_code CloseClient = 9"

definition msg_types :: "CustomMsgTypes list" where
  "msg_types = [ServerAccept, ServerDeny, ServerPing, MessageAll, ServerMessage,
     ClientList, RequestToClient, TextClient, RequestAnswer, CloseClient]"

definition msg_type :: "u32 \<Rightarrow> CustomMsgTypes option" where
  "msg_type c = find (\<lambda>t. msg_code t = c) msg_types"

lemma msg_type_code [simp]: "msg_type (msg_code t) = Some t"
  by (cases t) (simp_all add: msg_type_def msg_types_def)

lemma msg_code_inject [simp]: "msg_code s = msg_code t \<longleftrightarrow> s = t"
  by (metis msg_type_code option.inject)

lemma msg_type_Some: "msg_type c = Some t \<Longrightarrow> msg_code t = c"
  by (auto simp: msg_type_def find_Some_iff)

declare msg_code.simps [simp del]

section \<open>The message\<close>

record message_header =
  hdr_id :: u32
  hdr_size :: u32

record message =
  header :: message_header
  body :: bytes

text \<open>\<^verbatim>\<open>olc::net::message<CustomMsgTypes> msg; msg.header.id = t;\<close>\<close>

definition new_message :: "CustomMsgTypes \<Rightarrow> message" where
  "new_message t = \<lparr>header = \<lparr>hdr_id = msg_code t, hdr_size = 0\<rparr>, body = []\<rparr>"

definition message_size :: "message \<Rightarrow> nat" where
  "message_size msg = length (body msg)"

text \<open>\<^verbatim>\<open>msg.header.size = msg.size()\<close>: a \<^verbatim>\<open>size_t\<close> stored in 32 bits.\<close>

definition update_size :: "message \<Rightarrow> message" where
  "update_size msg = msg\<lparr>header := (header msg)\<lparr>hdr_size := of_nat (message_size msg)\<rparr>\<rparr>"

definition show_message :: "message \<Rightarrow> string" where
  "show_message msg =
     ''ID: '' @ dec_int (sint (hdr_id (header msg)))
       @ '' size: '' @ show_u32 (hdr_size (header msg)) @ nl"

section \<open>Streaming a value in standard layout\<close>

text \<open>\<^verbatim>\<open>resize\<close> and \<^verbatim>\<open>memcpy\<close> to the new end.\<close>

definition push_pod :: "('a \<Rightarrow> bytes) \<Rightarrow> message \<Rightarrow> 'a \<Rightarrow> message" where
  "push_pod repr msg data = update_size (msg\<lparr>body := body msg @ repr data\<rparr>)"

text \<open>
  \<^verbatim>\<open>size_t i = body.size() - sizeof(DataType)\<close> wraps around when the body is shorter than the
  value, and the \<^verbatim>\<open>memcpy\<close> that follows reads outside the body.
\<close>

definition pop_pod :: "nat \<Rightarrow> (bytes \<Rightarrow> 'a) \<Rightarrow> message \<Rightarrow> fault + 'a \<times> message" where
  "pop_pod sizeof unrepr msg =
     (if message_size msg < sizeof then Inl UndefinedBehaviour
      else let i = message_size msg - sizeof
           in Inr (unrepr (drop i (body msg)), update_size (msg\<lparr>body := take i (body msg)\<rparr>)))"

abbreviation push_u32 :: "message \<Rightarrow> u32 \<Rightarrow> message" where
  "push_u32 \<equiv> push_pod le32"

abbreviation pop_u32 :: "message \<Rightarrow> fault + u32 \<times> message" where
  "pop_u32 \<equiv> pop_pod 4 un32"

abbreviation push_u64 :: "message \<Rightarrow> u64 \<Rightarrow> message" where
  "push_u64 \<equiv> push_pod le64"

abbreviation pop_u64 :: "message \<Rightarrow> fault + u64 \<times> message" where
  "pop_u64 \<equiv> pop_pod 8 un64"

section \<open>Streaming a string\<close>

text \<open>The characters, then their number as a \<^verbatim>\<open>size_t\<close>.\<close>

definition push_string :: "message \<Rightarrow> bytes \<Rightarrow> message" where
  "push_string msg data =
     push_u64 (update_size (msg\<lparr>body := body msg @ data\<rparr>)) (of_nat (length data))"

text \<open>
  \<^verbatim>\<open>>>\<close> appends to the string it is given: \<open>data\<close> is its value before. \<open>max_size\<close> is the
  library's \<^verbatim>\<open>std::string::max_size()\<close>; a \<^verbatim>\<open>resize\<close> beyond it throws. The sum of the two
  lengths is a \<^verbatim>\<open>size_t\<close>, and a length that exceeds the rest of the body makes \<^verbatim>\<open>memcpy\<close>
  read outside it.
\<close>

definition pop_string :: "nat \<Rightarrow> message \<Rightarrow> bytes \<Rightarrow> fault + bytes \<times> message" where
  "pop_string max_size msg data =
     and_then (pop_u64 msg) (\<lambda>(length', msg').
       if max_size < unat (of_nat (length data) + length') then Inl LengthError
       else if message_size msg' < unat length' then Inl UndefinedBehaviour
       else let i = message_size msg' - unat length'
            in Inr (data @ drop i (body msg'),
                    update_size (msg'\<lparr>body := take i (body msg')\<rparr>)))"

section \<open>Well-formed messages\<close>

text \<open>What the operators maintain: the header's size is the body's.\<close>

definition wf_msg :: "message \<Rightarrow> bool" where
  "wf_msg msg \<longleftrightarrow> hdr_size (header msg) = of_nat (message_size msg)"

lemma message_fields: "(r :: message)\<lparr>header := header m, body := bs\<rparr> = m\<lparr>body := bs\<rparr>"
  by (cases r; cases m) simp

lemma message_eta [simp]: "(r :: message)\<lparr>header := header m, body := body m\<rparr> = m"
  by (cases r; cases m) simp

lemma body_update_size [simp]: "body (update_size msg) = body msg"
  by (simp add: update_size_def)

lemma id_update_size [simp]: "hdr_id (header (update_size msg)) = hdr_id (header msg)"
  by (simp add: update_size_def)

lemma wf_update_size [simp]: "wf_msg (update_size msg)"
  by (simp add: wf_msg_def update_size_def message_size_def)

lemma update_size_idem [simp]: "wf_msg msg \<Longrightarrow> update_size msg = msg"
  by (cases msg; cases "header msg") (auto simp: wf_msg_def update_size_def message_size_def)

lemma update_size_overwrite [simp]:
  "update_size ((update_size msg)\<lparr>body := bs\<rparr>) = update_size (msg\<lparr>body := bs\<rparr>)"
  by (simp add: update_size_def message_size_def)

lemma body_push_pod [simp]: "body (push_pod repr msg x) = body msg @ repr x"
  by (simp add: push_pod_def)

lemma id_push_pod [simp]: "hdr_id (header (push_pod repr msg x)) = hdr_id (header msg)"
  by (simp add: push_pod_def)

lemma wf_push_pod [simp]: "wf_msg (push_pod repr msg x)"
  by (simp add: push_pod_def)

lemma wf_new_message [simp]: "wf_msg (new_message t)"
  by (simp add: new_message_def wf_msg_def message_size_def)

lemma body_new_message [simp]: "body (new_message t) = []"
  by (simp add: new_message_def)

lemma id_new_message [simp]: "hdr_id (header (new_message t)) = msg_code t"
  by (simp add: new_message_def)

lemma body_push_string [simp]:
  "body (push_string msg s) = body msg @ s @ le64 (of_nat (length s))"
  by (simp add: push_string_def)

lemma wf_push_string [simp]: "wf_msg (push_string msg s)"
  by (simp add: push_string_def)

lemma id_push_string [simp]: "hdr_id (header (push_string msg s)) = hdr_id (header msg)"
  by (simp add: push_string_def)

lemma pop_pod_wf: "pop_pod n unrepr msg = Inr (x, msg') \<Longrightarrow> wf_msg msg'"
  by (auto simp: pop_pod_def Let_def split: if_splits)

lemma pop_pod_fault: "pop_pod n unrepr msg = Inl e \<longleftrightarrow> e = UndefinedBehaviour \<and> message_size msg < n"
  by (auto simp: pop_pod_def Let_def)

lemma pop_pod_id:
  "pop_pod n unrepr msg = Inr (x, msg') \<Longrightarrow> hdr_id (header msg') = hdr_id (header msg)"
  by (auto simp: pop_pod_def Let_def split: if_splits)

section \<open>The interface of a streamed type\<close>

text \<open>
  What \<^verbatim>\<open>memcpy\<close> out of and into an object of a type in standard layout relies on: the object
  occupies \<open>sizeof\<close> bytes and is determined by them.
\<close>

locale pod =
  fixes sizeof :: nat
    and repr :: "'a \<Rightarrow> bytes"
    and unrepr :: "bytes \<Rightarrow> 'a"
  assumes length_repr: "length (repr x) = sizeof"
    and unrepr_repr: "unrepr (repr x) = x"
begin

lemma pop_push: "wf_msg msg \<Longrightarrow> pop_pod sizeof unrepr (push_pod repr msg x) = Inr (x, msg)"
  by (simp add: pop_pod_def push_pod_def message_size_def length_repr unrepr_repr
     )

lemma body_pushes: "body (foldl (push_pod repr) msg xs) = body msg @ concat (map repr xs)"
  by (induction xs arbitrary: msg) simp_all

lemma id_pushes: "hdr_id (header (foldl (push_pod repr) msg xs)) = hdr_id (header msg)"
  by (induction xs arbitrary: msg) simp_all

lemma wf_pushes: "wf_msg msg \<Longrightarrow> wf_msg (foldl (push_pod repr) msg xs)"
  by (induction xs arbitrary: msg) simp_all

lemma length_body_pushes:
  "length (body (foldl (push_pod repr) msg xs)) = length (body msg) + sizeof * length xs"
  by (induction xs arbitrary: msg) (simp_all add: length_repr)

lemma pop_of_append:
  assumes "body msg = bs @ repr x"
  shows "pop_pod sizeof unrepr msg = Inr (x, update_size (msg\<lparr>body := bs\<rparr>))"
  using assms by (simp add: pop_pod_def message_size_def length_repr unrepr_repr)

end

interpretation pod32: pod 4 le32 un32
  by unfold_locales simp_all

interpretation pod64: pod 8 le64 un64
  by unfold_locales simp_all

text \<open>Taking \<open>n\<close> values off the end, the last one first.\<close>

fun pop_pods :: "nat \<Rightarrow> (bytes \<Rightarrow> 'a) \<Rightarrow> nat \<Rightarrow> message \<Rightarrow> fault + 'a list \<times> message" where
  "pop_pods sizeof unrepr 0 msg = Inr ([], msg)"
| "pop_pods sizeof unrepr (Suc n) msg =
     and_then (pop_pod sizeof unrepr msg) (\<lambda>(x, msg').
       and_then (pop_pods sizeof unrepr n msg') (\<lambda>(xs, msg''). Inr (x # xs, msg'')))"

context pod
begin

lemma pops_pushes:
  "wf_msg msg \<Longrightarrow>
   pop_pods sizeof unrepr (length xs) (foldl (push_pod repr) msg xs) = Inr (rev xs, msg)"
  by (induction xs rule: rev_induct) (simp_all add: pop_push wf_pushes)

end

section \<open>Properties of the streaming operators\<close>

text \<open>
  \<open>>>\<close> of a string succeeds exactly on what \<open><<\<close> of a string produced.
\<close>

lemma push_string_eqI:
  assumes "wf_msg msg" and "hdr_id (header msg') = hdr_id (header msg)"
    and "body msg = body msg' @ s @ le64 (of_nat (length s))"
  shows "msg = push_string msg' s"
proof -
  have "header msg = header (push_string msg' s)"
    using assms wf_push_string [of msg' s] by (auto simp: wf_msg_def message_size_def)
  with assms(3) show ?thesis by (auto intro: message.equality)
qed

lemma pop_string_push_string:
  assumes "wf_msg msg" and "length s < 2 ^ 64" and "length data + length s \<le> max_size"
    and "max_size < 2 ^ 64"
  shows "pop_string max_size (push_string msg s) data = Inr (data @ s, msg)"
proof -
  let ?m = "update_size (msg\<lparr>body := body msg @ s\<rparr>)"
  have "unat (of_nat (length data) + of_nat (length s) :: u64) = length data + length s"
    using assms(3,4) by (simp flip: of_nat_add add: unat_of_nat)
  moreover have "unat (of_nat (length s) :: u64) = length s"
    using assms(2) by (simp add: unat_of_nat)
  ultimately show ?thesis
    using assms(1,3)
    by (simp add: pop_string_def push_string_def pod64.pop_push message_size_def)
qed

text \<open>
  Values stream in and out like a stack: after \<open>n\<close> values have been pushed onto a
  message, popping \<open>n\<close> values returns them, the last one first, and the message as it was,
  header included. Stated for \<^verbatim>\<open>uint32_t\<close>, the type of the identifiers the protocol carries.
\<close>

theorem u32_stream_lifo:
  assumes "wf_msg msg"
  shows "pop_pods 4 un32 (length xs) (foldl push_u32 msg xs) = Inr (rev xs, msg)"
  by (rule pod32.pops_pushes [OF assms])

theorem u32_stream_lifo_witness:
  "wf_msg (new_message ClientList)
   \<and> pop_pods 4 un32 (length [10000 :: u32, 10001, 10007])
       (foldl push_u32 (new_message ClientList) [10000, 10001, 10007])
     = Inr (rev [10000, 10001, 10007], new_message ClientList)"
  using u32_stream_lifo [OF wf_new_message] wf_new_message by blast

text \<open>
  Taking a string off a message is the exact inverse of appending one: it succeeds on
  the messages \<open>push_string\<close> makes and on no other (a shorter body or a length field beyond it is
  undefined behaviour, a string beyond \<open>max_size\<close> throws), returns the string appended to what
  the variable held and restores the message.
\<close>

theorem pop_string_inverts_push_string:
  assumes "wf_msg msg" and "length data + message_size msg < 2 ^ 64" and "max_size < 2 ^ 64"
  shows "pop_string max_size msg data = Inr (r, msg') \<longleftrightarrow>
    wf_msg msg' \<and> (\<exists>s. r = data @ s \<and> msg = push_string msg' s \<and> length data + length s \<le> max_size)"
    (is "?L \<longleftrightarrow> ?R")
proof
  assume ?L
  then obtain n m where n: "pop_u64 msg = Inr (n, m)"
    and le: "unat n \<le> message_size m" "unat (of_nat (length data) + n) \<le> max_size"
    and r: "r = data @ drop (message_size m - unat n) (body m)"
    and m': "msg' = update_size (m\<lparr>body := take (message_size m - unat n) (body m)\<rparr>)"
    by (auto simp: pop_string_def faults Let_def split: if_splits)
  let ?s = "drop (message_size m - unat n) (body m)"
  have m: "8 \<le> message_size msg" "n = un64 (drop (message_size msg - 8) (body msg))"
    "body m = take (message_size msg - 8) (body msg)" "hdr_id (header m) = hdr_id (header msg)"
    using n by (auto simp: pop_pod_def Let_def split: if_splits)
  have s: "length ?s = unat n"
    using le(1) by (simp add: message_size_def)
  have "body msg = body m @ drop (message_size msg - 8) (body msg)"
    using m(3) by simp
  also have "drop (message_size msg - 8) (body msg) = le64 n"
    using m(1,2) by (simp add: le64_un64 message_size_def)
  finally have "body msg = body msg' @ ?s @ le64 (of_nat (length ?s))"
    using m' s by simp
  then have "msg = push_string msg' ?s"
    using assms(1) m(4) m' by (intro push_string_eqI) simp_all
  moreover have "length data + unat n < 2 ^ 64"
    using assms(2) le(1) m(3) by (simp add: message_size_def)
  then have "unat (of_nat (length data) + n) = length data + unat n"
    using unat_add_lem [of "of_nat (length data)" n] by (simp add: unat_of_nat)
  ultimately show ?R
    using r le(2) m' s by auto
next
  assume ?R
  then obtain s where s: "wf_msg msg'" "r = data @ s" "msg = push_string msg' s"
    "length data + length s \<le> max_size" by blast
  then show ?L
    using pop_string_push_string [of msg' s data max_size] assms(3) by simp
qed

theorem pop_string_inverts_push_string_witness:
  "\<exists>r. pop_string 100 (push_string (new_message TextClient) [104, 105]) [] = Inr (r, new_message TextClient)"
  using pop_string_inverts_push_string
    [of "push_string (new_message TextClient) [104, 105]" "[]" 100 _ "new_message TextClient"]
  by (auto simp: message_size_def)

end
