(* ===== verification/Tsqueue.thy ===== *)
theory Tsqueue
  imports Prelude
begin

text \<open>
  \<^verbatim>\<open>Net_chat/net_tsqueue.h\<close>, one call at a time: the operations of the thread-safe queue on the
  deque it guards. Each operation holds \<^verbatim>\<open>muxQueue\<close> for its whole body, so calls from several
  threads take effect one after the other; how the two mutexes and the condition variable
  interleave is the subject of the theory \<open>TsqueueThreads\<close>.

  The locale \<open>fifo\<close> is what the queue's clients rely on: \<open>push_back\<close> and \<open>pop_front\<close> at
  opposite ends of one sequence.
\<close>

type_synonym 'a tsqueue = "'a list"

definition q_front :: "'a tsqueue \<Rightarrow> fault + 'a" where
  "q_front q = (case q of [] \<Rightarrow> Inl UndefinedBehaviour | x # _ \<Rightarrow> Inr x)"

definition q_back :: "'a tsqueue \<Rightarrow> fault + 'a" where
  "q_back q = (if q = [] then Inl UndefinedBehaviour else Inr (last q))"

definition push_back :: "'a tsqueue \<Rightarrow> 'a \<Rightarrow> 'a tsqueue" where
  "push_back q msg = q @ [msg]"

definition push_front :: "'a tsqueue \<Rightarrow> 'a \<Rightarrow> 'a tsqueue" where
  "push_front q msg = msg # q"

definition q_empty :: "'a tsqueue \<Rightarrow> bool" where
  "q_empty q \<longleftrightarrow> q = []"

definition q_clear :: "'a tsqueue \<Rightarrow> 'a tsqueue" where
  "q_clear q = []"

definition q_count :: "'a tsqueue \<Rightarrow> nat" where
  "q_count q = length q"

definition pop_front :: "'a tsqueue \<Rightarrow> fault + 'a \<times> 'a tsqueue" where
  "pop_front q = (case q of [] \<Rightarrow> Inl UndefinedBehaviour | t # q' \<Rightarrow> Inr (t, q'))"

definition pop_back :: "'a tsqueue \<Rightarrow> fault + 'a \<times> 'a tsqueue" where
  "pop_back q = (if q = [] then Inl UndefinedBehaviour else Inr (last q, butlast q))"

lemmas tsqueue_defs = q_front_def q_back_def push_back_def push_front_def q_empty_def q_clear_def
  q_count_def pop_front_def pop_back_def

section \<open>The interface of a FIFO queue\<close>

locale fifo =
  fixes new :: 'q
    and push :: "'q \<Rightarrow> 'a \<Rightarrow> 'q"
    and pop :: "'q \<Rightarrow> fault + 'a \<times> 'q"
    and is_empty :: "'q \<Rightarrow> bool"
    and items :: "'q \<Rightarrow> 'a list"
  assumes items_new: "items new = []"
    and items_push: "items (push q x) = items q @ [x]"
    and is_empty_iff: "is_empty q \<longleftrightarrow> items q = []"
    and pop_fault: "items q = [] \<Longrightarrow> pop q = Inl UndefinedBehaviour"
    and pop_items: "items q = x # xs \<Longrightarrow> \<exists>q'. pop q = Inr (x, q') \<and> items q' = xs"
begin

lemma items_pushes: "items (foldl push q xs) = items q @ xs"
  by (induction xs arbitrary: q) (simp_all add: items_push)

lemma pop_defined_iff: "(\<exists>x q'. pop q = Inr (x, q')) \<longleftrightarrow> \<not> is_empty q"
  using pop_fault [of q] pop_items [of q] by (cases "items q") (auto simp: is_empty_iff)

lemma pop_push_new: "\<exists>q'. pop (push new x) = Inr (x, q') \<and> is_empty q'"
  using pop_items [of "push new x" x "[]"] by (simp add: items_push items_new is_empty_iff)

end

interpretation tsq: fifo "[]" push_back pop_front q_empty "\<lambda>q. q"
  by unfold_locales (auto simp: tsqueue_defs)

text \<open>The same operations from the other end: a queue filled with \<open>push_front\<close> is emptied in
  order by \<open>pop_back\<close>.\<close>

interpretation tsq_rev: fifo "[]" push_front pop_back q_empty rev
  by unfold_locales (auto simp: tsqueue_defs last_rev [symmetric] hd_rev)

end
