(* ===== verification/TsqueueThreads.thy ===== *)
theory TsqueueThreads
  imports Prelude
begin

text \<open>
  \<^verbatim>\<open>Net_chat/net_tsqueue.h\<close> under threads: the locking of \<^verbatim>\<open>push_back\<close>, \<^verbatim>\<open>wait\<close>, \<^verbatim>\<open>empty\<close> and
  \<^verbatim>\<open>pop_front\<close>, one mutex operation at a time, as the program calls them. Thread 0 is the
  consumer (the thread of \<^verbatim>\<open>server_interface::Update\<close>, which calls \<^verbatim>\<open>wait\<close> and then empties the
  queue, and of \<^verbatim>\<open>Custom_Client::ExecuteMessages\<close>, which polls it without waiting); the other
  threads are producers (the thread that runs the \<^verbatim>\<open>io_context\<close>). The step relation lets
  any thread move; \<open>pushed\<close> and \<open>taken\<close> record the order in which elements went in and came out.
\<close>

section \<open>Threads and the queue\<close>

datatype 'a pc =
    Idle
  | PushLockQ 'a        \<comment> \<open>about to lock \<^verbatim>\<open>muxQueue\<close>\<close>
  | PushInsert 'a       \<comment> \<open>holds \<^verbatim>\<open>muxQueue\<close>, about to \<^verbatim>\<open>emplace_back\<close>\<close>
  | PushLockW           \<comment> \<open>holds \<^verbatim>\<open>muxQueue\<close>, about to lock \<^verbatim>\<open>muxWait\<close>\<close>
  | PushNotify          \<comment> \<open>holds both, about to \<^verbatim>\<open>notify_one\<close>\<close>
  | PushUnlockW         \<comment> \<open>holds both, \<^verbatim>\<open>ul\<close> about to be destroyed\<close>
  | PushUnlockQ         \<comment> \<open>holds \<^verbatim>\<open>muxQueue\<close>, \<^verbatim>\<open>lock\<close> about to be destroyed\<close>
  | WaitLockW           \<comment> \<open>in \<^verbatim>\<open>wait\<close>, about to lock \<^verbatim>\<open>muxWait\<close>\<close>
  | WaitLockQ           \<comment> \<open>holds \<^verbatim>\<open>muxWait\<close>; in \<^verbatim>\<open>empty\<close>, about to lock \<^verbatim>\<open>muxQueue\<close>\<close>
  | WaitTest            \<comment> \<open>holds both, about to read the deque\<close>
  | WaitDecide bool     \<comment> \<open>holds \<^verbatim>\<open>muxWait\<close>; what \<^verbatim>\<open>empty\<close> returned\<close>
  | WaitSleep           \<comment> \<open>in \<^verbatim>\<open>cv.wait\<close>, \<^verbatim>\<open>muxWait\<close> released\<close>
  | WaitRelock          \<comment> \<open>woken, about to lock \<^verbatim>\<open>muxWait\<close> again\<close>
  | LoopLockQ           \<comment> \<open>the loop's \<^verbatim>\<open>empty\<close>, about to lock \<^verbatim>\<open>muxQueue\<close>\<close>
  | LoopTest            \<comment> \<open>holds \<^verbatim>\<open>muxQueue\<close>\<close>
  | LoopDecide bool     \<comment> \<open>what the loop's \<^verbatim>\<open>empty\<close> returned\<close>
  | PopLockQ            \<comment> \<open>in \<^verbatim>\<open>pop_front\<close>, about to lock \<^verbatim>\<open>muxQueue\<close>\<close>
  | PopTake             \<comment> \<open>holds \<^verbatim>\<open>muxQueue\<close>\<close>
  | Crashed             \<comment> \<open>\<^verbatim>\<open>front()\<close> of an empty deque\<close>

record 'a qsys =
  pcs :: "nat \<Rightarrow> 'a pc"
  muxQueue :: "nat option"
  muxWait :: "nat option"
  deqQueue :: "'a list"
  pushed :: "'a list"
  taken :: "'a list"

definition init_qsys :: "'a qsys" where
  "init_qsys = \<lparr>pcs = (\<lambda>_. Idle), muxQueue = None, muxWait = None, deqQueue = [],
     pushed = [], taken = []\<rparr>"

definition goto :: "'a qsys \<Rightarrow> nat \<Rightarrow> 'a pc \<Rightarrow> 'a qsys" where
  "goto s t p = s\<lparr>pcs := (pcs s)(t := p)\<rparr>"

text \<open>The start of a call, by a thread that is in none.\<close>

inductive qcall :: "'a qsys \<Rightarrow> 'a qsys \<Rightarrow> bool" where
  call_push: "0 < t \<Longrightarrow> pcs s t = Idle \<Longrightarrow> qcall s (goto s t (PushLockQ x))"
| call_wait: "pcs s 0 = Idle \<Longrightarrow> qcall s (goto s 0 WaitLockW)"
| call_poll: "pcs s 0 = Idle \<Longrightarrow> qcall s (goto s 0 LoopLockQ)"

text \<open>A step inside a call.\<close>

inductive qstep :: "'a qsys \<Rightarrow> 'a qsys \<Rightarrow> bool" where
  push_lock: "pcs s t = PushLockQ x \<Longrightarrow> muxQueue s = None \<Longrightarrow>
     qstep s ((goto s t (PushInsert x))\<lparr>muxQueue := Some t\<rparr>)"
| push_insert: "pcs s t = PushInsert x \<Longrightarrow>
     qstep s ((goto s t PushLockW)\<lparr>deqQueue := deqQueue s @ [x], pushed := pushed s @ [x]\<rparr>)"
| push_lock_wait: "pcs s t = PushLockW \<Longrightarrow> muxWait s = None \<Longrightarrow>
     qstep s ((goto s t PushNotify)\<lparr>muxWait := Some t\<rparr>)"
| push_notify_none: "pcs s t = PushNotify \<Longrightarrow> pcs s 0 \<noteq> WaitSleep \<Longrightarrow>
     qstep s (goto s t PushUnlockW)"
| push_notify_one: "pcs s t = PushNotify \<Longrightarrow> pcs s 0 = WaitSleep \<Longrightarrow>
     qstep s (goto (goto s t PushUnlockW) 0 WaitRelock)"
| push_unlock_wait: "pcs s t = PushUnlockW \<Longrightarrow>
     qstep s ((goto s t PushUnlockQ)\<lparr>muxWait := None\<rparr>)"
| push_unlock: "pcs s t = PushUnlockQ \<Longrightarrow>
     qstep s ((goto s t Idle)\<lparr>muxQueue := None\<rparr>)"
| wait_lock: "pcs s t = WaitLockW \<Longrightarrow> muxWait s = None \<Longrightarrow>
     qstep s ((goto s t WaitLockQ)\<lparr>muxWait := Some t\<rparr>)"
| wait_empty_lock: "pcs s t = WaitLockQ \<Longrightarrow> muxQueue s = None \<Longrightarrow>
     qstep s ((goto s t WaitTest)\<lparr>muxQueue := Some t\<rparr>)"
| wait_test: "pcs s t = WaitTest \<Longrightarrow>
     qstep s ((goto s t (WaitDecide (deqQueue s = [])))\<lparr>muxQueue := None\<rparr>)"
| wait_sleep: "pcs s t = WaitDecide True \<Longrightarrow>
     qstep s ((goto s t WaitSleep)\<lparr>muxWait := None\<rparr>)"
| wait_spurious: "pcs s t = WaitSleep \<Longrightarrow> qstep s (goto s t WaitRelock)"
| wait_relock: "pcs s t = WaitRelock \<Longrightarrow> muxWait s = None \<Longrightarrow>
     qstep s ((goto s t WaitLockQ)\<lparr>muxWait := Some t\<rparr>)"
| wait_return: "pcs s t = WaitDecide False \<Longrightarrow>
     qstep s ((goto s t LoopLockQ)\<lparr>muxWait := None\<rparr>)"
| loop_lock: "pcs s t = LoopLockQ \<Longrightarrow> muxQueue s = None \<Longrightarrow>
     qstep s ((goto s t LoopTest)\<lparr>muxQueue := Some t\<rparr>)"
| loop_test: "pcs s t = LoopTest \<Longrightarrow>
     qstep s ((goto s t (LoopDecide (deqQueue s = [])))\<lparr>muxQueue := None\<rparr>)"
| loop_end: "pcs s t = LoopDecide True \<Longrightarrow> qstep s (goto s t Idle)"
| loop_pop: "pcs s t = LoopDecide False \<Longrightarrow> qstep s (goto s t PopLockQ)"
| pop_lock: "pcs s t = PopLockQ \<Longrightarrow> muxQueue s = None \<Longrightarrow>
     qstep s ((goto s t PopTake)\<lparr>muxQueue := Some t\<rparr>)"
| pop_take: "pcs s t = PopTake \<Longrightarrow> deqQueue s = x # xs \<Longrightarrow>
     qstep s ((goto s t LoopLockQ)\<lparr>muxQueue := None, deqQueue := xs, taken := taken s @ [x]\<rparr>)"
| pop_crash: "pcs s t = PopTake \<Longrightarrow> deqQueue s = [] \<Longrightarrow> qstep s (goto s t Crashed)"

inductive qreachable :: "'a qsys \<Rightarrow> bool" where
  q_init: "qreachable init_qsys"
| q_call: "qreachable s \<Longrightarrow> qcall s s' \<Longrightarrow> qreachable s'"
| q_step: "qreachable s \<Longrightarrow> qstep s s' \<Longrightarrow> qreachable s'"

lemma goto_simps [simp]:
  "pcs (goto s t p) = (pcs s)(t := p)"
  "muxQueue (goto s t p) = muxQueue s"
  "muxWait (goto s t p) = muxWait s"
  "deqQueue (goto s t p) = deqQueue s"
  "pushed (goto s t p) = pushed s"
  "taken (goto s t p) = taken s"
  by (simp_all add: goto_def)

section \<open>The invariant\<close>

fun holds_queue :: "'a pc \<Rightarrow> bool" where
  "holds_queue (PushInsert x) = True"
| "holds_queue PushLockW = True"
| "holds_queue PushNotify = True"
| "holds_queue PushUnlockW = True"
| "holds_queue PushUnlockQ = True"
| "holds_queue WaitTest = True"
| "holds_queue LoopTest = True"
| "holds_queue PopTake = True"
| "holds_queue Crashed = True"
| "holds_queue _ = False"

fun holds_wait :: "'a pc \<Rightarrow> bool" where
  "holds_wait PushNotify = True"
| "holds_wait PushUnlockW = True"
| "holds_wait WaitLockQ = True"
| "holds_wait WaitTest = True"
| "holds_wait (WaitDecide b) = True"
| "holds_wait _ = False"

fun producing :: "'a pc \<Rightarrow> bool" where
  "producing (PushLockQ x) = True"
| "producing (PushInsert x) = True"
| "producing PushLockW = True"
| "producing PushNotify = True"
| "producing PushUnlockW = True"
| "producing PushUnlockQ = True"
| "producing _ = False"

fun found_nonempty :: "'a pc \<Rightarrow> bool" where
  "found_nonempty (WaitDecide b) = (\<not> b)"
| "found_nonempty (LoopDecide b) = (\<not> b)"
| "found_nonempty PopLockQ = True"
| "found_nonempty PopTake = True"
| "found_nonempty _ = False"

text \<open>A mutex is held by the thread whose program counter says so, and by no other.\<close>

definition lock_ok :: "('a pc \<Rightarrow> bool) \<Rightarrow> (nat \<Rightarrow> 'a pc) \<Rightarrow> nat option \<Rightarrow> bool" where
  "lock_ok holds f m \<longleftrightarrow> (\<forall>t. m = Some t \<longleftrightarrow> holds (f t))"

lemma lock_keep: "lock_ok h f m \<Longrightarrow> h p = h (f t) \<Longrightarrow> lock_ok h (f(t := p)) m"
  by (simp add: lock_ok_def)

lemma lock_take: "lock_ok h f None \<Longrightarrow> h p \<Longrightarrow> lock_ok h (f(t := p)) (Some t)"
  by (auto simp: lock_ok_def)

lemma lock_release: "lock_ok h f m \<Longrightarrow> h (f t) \<Longrightarrow> \<not> h p \<Longrightarrow> lock_ok h (f(t := p)) None"
  by (auto simp: lock_ok_def) (metis option.inject)

lemma lock_unique: "lock_ok h f m \<Longrightarrow> h (f t) \<Longrightarrow> h (f u) \<Longrightarrow> t = u"
  unfolding lock_ok_def by (metis option.inject)

lemma lock_held: "lock_ok h f (Some t) \<Longrightarrow> h (f t)"
  unfolding lock_ok_def by blast

lemma lock_holder: "lock_ok h f m \<Longrightarrow> h (f t) \<Longrightarrow> m = Some t"
  by (simp add: lock_ok_def)

text \<open>
  Only thread 0 consumes; what was taken is what was put in, in order; and a consumer that has
  seen the deque empty and goes to sleep will be notified of anything put in since.
\<close>

definition q_locks :: "'a qsys \<Rightarrow> bool" where
  "q_locks s \<longleftrightarrow> lock_ok holds_queue (pcs s) (muxQueue s) \<and> lock_ok holds_wait (pcs s) (muxWait s)"

definition q_roles :: "'a qsys \<Rightarrow> bool" where
  "q_roles s \<longleftrightarrow> (\<forall>t. if t = 0 then \<not> producing (pcs s t)
     else pcs s t = Idle \<or> producing (pcs s t))"

definition q_fifo :: "'a qsys \<Rightarrow> bool" where
  "q_fifo s \<longleftrightarrow> pushed s = taken s @ deqQueue s \<and> pcs s 0 \<noteq> Crashed
     \<and> (found_nonempty (pcs s 0) \<longrightarrow> deqQueue s \<noteq> [])"

definition notifying :: "'a pc \<Rightarrow> bool" where
  "notifying p \<longleftrightarrow> p = PushLockW \<or> p = PushNotify"

definition q_wakeup :: "'a qsys \<Rightarrow> bool" where
  "q_wakeup s \<longleftrightarrow>
     ((pcs s 0 = WaitDecide True \<or> pcs s 0 = WaitSleep) \<and> deqQueue s \<noteq> [] \<longrightarrow>
      (\<exists>p. notifying (pcs s p)))"

definition q_inv :: "'a qsys \<Rightarrow> bool" where
  "q_inv s \<longleftrightarrow> q_locks s \<and> q_roles s \<and> q_fifo s \<and> q_wakeup s"

lemma q_inv_init: "q_inv init_qsys"
  by (simp add: q_inv_def q_locks_def lock_ok_def q_roles_def q_fifo_def q_wakeup_def init_qsys_def)

lemma roles_update [simp]:
  "q_roles (s\<lparr>muxQueue := m\<rparr>) = q_roles s"
  "q_roles (s\<lparr>muxWait := m\<rparr>) = q_roles s"
  "q_roles (s\<lparr>deqQueue := d\<rparr>) = q_roles s"
  "q_roles (s\<lparr>pushed := d\<rparr>) = q_roles s"
  "q_roles (s\<lparr>taken := d\<rparr>) = q_roles s"
  by (simp_all add: q_roles_def)

lemma roles_goto:
  "q_roles s \<Longrightarrow> pcs s t \<noteq> Idle \<Longrightarrow> p' = Idle \<or> producing p' = producing (pcs s t) \<Longrightarrow>
   q_roles (goto s t p')"
  unfolding q_roles_def goto_simps by (metis fun_upd_apply producing.simps(7))

lemma roles_consumer:
  assumes "q_roles s" and "pcs s t \<noteq> Idle" and "\<not> producing (pcs s t)"
  shows "t = 0"
  using assms by (metis q_roles_def)

lemma roles_producer:
  assumes "q_roles s" and "producing (pcs s t)"
  shows "t \<noteq> 0"
  using assms by (metis q_roles_def)

lemma qcall_locks: "qcall s s' \<Longrightarrow> q_locks s \<Longrightarrow> q_locks s'"
  by (induction rule: qcall.induct) (simp_all add: q_locks_def lock_keep)

lemma qstep_locks: "qstep s s' \<Longrightarrow> q_locks s \<Longrightarrow> q_locks s'"
proof (induction rule: qstep.induct)
  case (push_notify_one s t)
  then have "t \<noteq> 0" by (cases t) auto
  with push_notify_one show ?case
    by (simp add: q_locks_def lock_keep)
qed (auto simp: q_locks_def lock_keep lock_take intro: lock_release)

lemma qcall_roles: "qcall s s' \<Longrightarrow> q_roles s \<Longrightarrow> q_roles s'"
  by (induction rule: qcall.induct) (simp_all add: q_roles_def)

lemma qstep_roles: "qstep s s' \<Longrightarrow> q_roles s \<Longrightarrow> q_roles s'"
proof (induction rule: qstep.induct)
  case (push_notify_one s t)
  then have "t \<noteq> 0" by (cases t) auto
  with push_notify_one show ?case
    by (auto intro!: roles_goto)
qed (auto intro!: roles_goto)

lemma qcall_fifo: "qcall s s' \<Longrightarrow> q_fifo s \<Longrightarrow> q_fifo s'"
  by (induction rule: qcall.induct) (auto simp: q_fifo_def)

lemma qstep_fifo: "qstep s s' \<Longrightarrow> q_roles s \<Longrightarrow> q_fifo s \<Longrightarrow> q_fifo s'"
proof (induction rule: qstep.induct)
  case (pop_take s t x xs)
  then have "t = 0" using roles_consumer [of s t] by simp
  with pop_take show ?case by (simp add: q_fifo_def)
next
  case (pop_crash s t)
  then have "t = 0" using roles_consumer [of s t] by simp
  with pop_crash show ?case by (simp add: q_fifo_def)
qed (auto simp: q_fifo_def dest: roles_producer)

lemma wakeup_other:
  assumes "q_wakeup s" and "t \<noteq> 0" and "\<not> notifying (pcs s t) \<or> notifying p"
  shows "q_wakeup (goto s t p)"
  using assms by (auto simp: q_wakeup_def)

lemma wakeup_update [simp]:
  "q_wakeup (s\<lparr>muxQueue := m\<rparr>) = q_wakeup s"
  "q_wakeup (s\<lparr>muxWait := m\<rparr>) = q_wakeup s"
  "q_wakeup (s\<lparr>taken := d\<rparr>) = q_wakeup s"
  by (simp_all add: q_wakeup_def)

lemma wakeup_awake: "p \<noteq> WaitDecide True \<Longrightarrow> p \<noteq> WaitSleep \<Longrightarrow> q_wakeup (goto s 0 p)"
  by (simp add: q_wakeup_def)

lemma wakeup_step:
  assumes "q_roles s" and "q_wakeup s" and "pcs s t \<noteq> Idle"
    and "if producing (pcs s t) then notifying (pcs s t) \<longrightarrow> notifying p
         else p \<noteq> WaitDecide True \<and> p \<noteq> WaitSleep"
  shows "q_wakeup (goto s t p)"
proof (cases "producing (pcs s t)")
  case True
  then have "t \<noteq> 0"
    using roles_producer [OF assms(1)] by simp
  with True assms show ?thesis
    by (intro wakeup_other) auto
next
  case False
  then have "t = 0"
    using roles_consumer [OF assms(1,3)] by simp
  with False assms show ?thesis
    by (simp add: wakeup_awake)
qed

lemma qcall_wakeup: "qcall s s' \<Longrightarrow> q_wakeup s \<Longrightarrow> q_wakeup s'"
  by (induction rule: qcall.induct) (simp_all add: wakeup_other wakeup_awake notifying_def)

lemma qstep_wakeup: "qstep s s' \<Longrightarrow> q_locks s \<Longrightarrow> q_roles s \<Longrightarrow> q_wakeup s \<Longrightarrow> q_wakeup s'"
proof (induction rule: qstep.induct)
  case (push_insert s t x)
  then show ?case by (auto simp: q_wakeup_def notifying_def)
next
  case (push_notify_none s t)
  have "pcs s 0 \<noteq> WaitDecide True"
  proof
    assume "pcs s 0 = WaitDecide True"
    with push_notify_none have "t = 0"
      using lock_unique [of holds_wait "pcs s" "muxWait s" t 0] by (simp add: q_locks_def)
    with push_notify_none \<open>pcs s 0 = WaitDecide True\<close> show False by simp
  qed
  with push_notify_none show ?case
    by (auto simp: q_wakeup_def)
next
  case (push_notify_one s t)
  then show ?case by (simp add: wakeup_awake)
next
  case (wait_test s t)
  then have "t = 0" using roles_consumer [of s t] by simp
  then show ?case by (simp add: q_wakeup_def)
next
  case (wait_sleep s t)
  then have "t = 0" using roles_consumer [of s t] by simp
  then have z: "pcs s 0 = WaitDecide True" using wait_sleep.hyps by simp
  have "\<exists>p. notifying (((pcs s)(0 := WaitSleep)) p)" if ne: "deqQueue s \<noteq> []"
  proof -
    obtain p where p: "notifying (pcs s p)"
      using ne wait_sleep.prems(3) z by (auto simp: q_wakeup_def)
    then have "p \<noteq> 0" by (cases p) (simp_all add: z notifying_def)
    with p show ?thesis by (intro exI [of _ p]) simp
  qed
  with \<open>t = 0\<close> show ?case by (simp add: q_wakeup_def)
next
  case (pop_take s t x xs)
  then have "t = 0" using roles_consumer [of s t] by simp
  then show ?case by (simp add: q_wakeup_def)
qed (simp_all add: wakeup_step notifying_def)

lemma qcall_inv: "qcall s s' \<Longrightarrow> q_inv s \<Longrightarrow> q_inv s'"
  by (simp add: q_inv_def qcall_locks qcall_roles qcall_fifo qcall_wakeup)

lemma qstep_inv: "qstep s s' \<Longrightarrow> q_inv s \<Longrightarrow> q_inv s'"
  by (simp add: q_inv_def qstep_locks qstep_roles qstep_fifo qstep_wakeup)

lemma qreachable_inv: "qreachable s \<Longrightarrow> q_inv s"
  by (induction rule: qreachable.induct) (auto intro: q_inv_init qcall_inv qstep_inv)

section \<open>Deadlock\<close>

text \<open>
  \<^verbatim>\<open>push_back\<close> takes \<^verbatim>\<open>muxQueue\<close> and then \<^verbatim>\<open>muxWait\<close>; \<^verbatim>\<open>wait\<close> takes \<^verbatim>\<open>muxWait\<close> and then, in
  \<^verbatim>\<open>empty\<close>, \<^verbatim>\<open>muxQueue\<close>. Each of the two threads can hold what the other one needs.
\<close>

definition deadlocked :: "'a qsys \<Rightarrow> nat \<Rightarrow> bool" where
  "deadlocked s p \<longleftrightarrow> pcs s p = PushLockW \<and> muxQueue s = Some p
     \<and> pcs s 0 = WaitLockQ \<and> muxWait s = Some 0"

definition qmove :: "'a qsys \<Rightarrow> 'a qsys \<Rightarrow> bool" where
  "qmove s s' \<longleftrightarrow> qcall s s' \<or> qstep s s'"

inductive_cases qcallE: "qcall s s'"
inductive_cases qstepE: "qstep s s'"

lemma deadlocked_locks:
  assumes "deadlocked s p" and "q_inv s"
  shows "holds_queue (pcs s t) \<Longrightarrow> t = p" and "holds_wait (pcs s t) \<Longrightarrow> t = 0"
  using assms by (auto simp: deadlocked_def q_inv_def q_locks_def lock_ok_def)

lemma qcall_deadlocked:
  "qcall s s' \<Longrightarrow> deadlocked s p \<Longrightarrow>
   deadlocked s' p \<and> deqQueue s' = deqQueue s \<and> taken s' = taken s"
  by (erule qcallE) (auto simp: deadlocked_def)

lemma qstep_deadlocked:
  assumes "qstep s s'" and "deadlocked s p" and "q_inv s"
  shows "deadlocked s' p \<and> deqQueue s' = deqQueue s \<and> taken s' = taken s"
proof -
  note unique = deadlocked_locks [OF assms(2,3)]
  have d: "pcs s p = PushLockW" "muxQueue s = Some p" "pcs s 0 = WaitLockQ" "muxWait s = Some 0"
    using assms(2) by (simp_all add: deadlocked_def)
  have stuck: "\<not> holds_queue (pcs s t) \<or> t = p" "\<not> holds_wait (pcs s t) \<or> t = 0" for t
    using unique by blast+
  have roles: "pcs s t = Idle \<or> producing (pcs s t) \<or> t = 0" for t
    using assms(3) by (metis q_inv_def q_roles_def)
  show ?thesis
    using assms(1)
  proof (cases rule: qstep.cases)
    case (push_insert t x)
    with stuck(1) [of t] d show ?thesis by auto
  next
    case (push_notify_none t)
    with stuck(2) [of t] d show ?thesis by auto
  next
    case (push_unlock_wait t)
    with stuck(2) [of t] d show ?thesis by auto
  next
    case (push_unlock t)
    with stuck(1) [of t] d show ?thesis by auto
  next
    case (loop_end t)
    with roles [of t] d show ?thesis by auto
  next
    case (loop_pop t)
    with roles [of t] d show ?thesis by auto
  next
    case (wait_spurious t)
    with roles [of t] d show ?thesis by auto
  next
    case (wait_sleep t)
    with stuck(2) [of t] d show ?thesis by auto
  next
    case (wait_return t)
    with stuck(2) [of t] d show ?thesis by auto
  next
    case (wait_test t)
    with stuck(1) [of t] d show ?thesis by auto
  next
    case (loop_test t)
    with stuck(1) [of t] d show ?thesis by auto
  next
    case (pop_take t x xs)
    with stuck(1) [of t] d show ?thesis by auto
  next
    case (pop_crash t)
    with stuck(1) [of t] d show ?thesis by auto
  qed (use d in auto)
qed

lemma qmove_inv: "qmove\<^sup>*\<^sup>* s s' \<Longrightarrow> q_inv s \<Longrightarrow> q_inv s'"
  by (induction rule: rtranclp_induct) (auto simp: qmove_def intro: qcall_inv qstep_inv)

lemma qmove_deadlocked:
  assumes "qmove\<^sup>*\<^sup>* s s'" and "deadlocked s p" and "q_inv s"
  shows "deadlocked s' p \<and> deqQueue s' = deqQueue s \<and> taken s' = taken s"
  using assms
proof (induction rule: rtranclp_induct)
  case base
  then show ?case by simp
next
  case (step u v)
  then have "q_inv u" by (blast intro: qmove_inv)
  with step show ?case
    unfolding qmove_def using qcall_deadlocked qstep_deadlocked by metis
qed

text \<open>A run of seven moves into the deadlock: thread 1 pushes while thread 0 enters \<^verbatim>\<open>wait\<close>.\<close>

definition deadlock_state :: "'a \<Rightarrow> 'a qsys" where
  "deadlock_state x = \<lparr>pcs = (\<lambda>_. Idle)(1 := PushLockW, 0 := WaitLockQ), muxQueue = Some 1,
     muxWait = Some 0, deqQueue = [x], pushed = [x], taken = []\<rparr>"

lemma qreachable_deadlock_state:
  fixes x :: 'a
  shows "qreachable (deadlock_state x)"
proof -
  let ?s1 = "goto (init_qsys :: 'a qsys) 1 (PushLockQ x)"
  let ?s2 = "(goto ?s1 1 (PushInsert x))\<lparr>muxQueue := Some 1\<rparr>"
  let ?s3 = "(goto ?s2 1 PushLockW)\<lparr>deqQueue := deqQueue ?s2 @ [x], pushed := pushed ?s2 @ [x]\<rparr>"
  let ?s4 = "goto ?s3 0 WaitLockW"
  let ?s5 = "(goto ?s4 0 WaitLockQ)\<lparr>muxWait := Some 0\<rparr>"
  have "qreachable ?s1"
    by (rule q_call [OF q_init call_push]) (simp_all add: init_qsys_def)
  then have "qreachable ?s2"
    by (rule q_step [OF _ push_lock]) (simp_all add: init_qsys_def)
  then have "qreachable ?s3"
    by (rule q_step [OF _ push_insert]) simp
  then have "qreachable ?s4"
    by (rule q_call [OF _ call_wait]) (simp add: init_qsys_def)
  then have "qreachable ?s5"
    by (rule q_step [OF _ wait_lock]) (simp_all add: init_qsys_def)
  moreover have "?s5 = deadlock_state x"
    by (simp add: deadlock_state_def init_qsys_def goto_def fun_upd_twist)
  ultimately show ?thesis by simp
qed

section \<open>Progress\<close>

lemma queue_holder_moves:
  assumes "q_inv s" and "muxQueue s = Some q"
  shows "(\<exists>s'. qstep s s') \<or> deadlocked s q"
proof -
  have q: "holds_queue (pcs s q)" and l: "lock_ok holds_wait (pcs s) (muxWait s)"
    "lock_ok holds_queue (pcs s) (muxQueue s)"
    using assms by (auto simp: q_inv_def q_locks_def lock_ok_def)
  have "pcs s q \<noteq> Crashed"
    using assms(1) unfolding q_inv_def q_fifo_def q_roles_def
    by (metis pc.distinct(35) producing.simps(19))
  show ?thesis
  proof (cases "pcs s q")
    case PushLockW
    show ?thesis
    proof (cases "muxWait s")
      case None
      with PushLockW show ?thesis by (auto intro: push_lock_wait)
    next
      case (Some w)
      then have w: "holds_wait (pcs s w)"
        using l(1) by (simp add: lock_held)
      then have "\<not> holds_queue (pcs s w)"
        using lock_unique [OF l(2), of q w] q PushLockW by auto
      with w consider "pcs s w = WaitLockQ" | b where "pcs s w = WaitDecide b"
        by (cases "pcs s w") auto
      then show ?thesis
      proof cases
        case 1
        then have "w = 0"
          using assms(1) roles_consumer [of s w] by (simp add: q_inv_def)
        with 1 Some PushLockW assms(2) show ?thesis by (simp add: deadlocked_def)
      next
        case 2
        then show ?thesis by (cases b) (auto intro: wait_sleep wait_return)
      qed
    qed
  next
    case PushNotify
    then show ?thesis by (metis push_notify_none push_notify_one)
  next
    case PopTake
    then show ?thesis by (cases "deqQueue s") (auto intro: pop_take pop_crash)
  qed (use q \<open>pcs s q \<noteq> Crashed\<close> in \<open>auto intro: qstep.intros\<close>)
qed

lemma queue_free_moves:
  assumes "q_inv s" and "muxQueue s = None" and "pcs s t \<noteq> Idle" and "pcs s t \<noteq> WaitSleep"
  shows "\<exists>s'. qstep s s'"
proof -
  have l: "lock_ok holds_wait (pcs s) (muxWait s)"
    and nq: "\<not> holds_queue (pcs s u)" for u
    using assms(1,2) by (auto simp: q_inv_def q_locks_def lock_ok_def)
  have wait: "\<exists>s'. qstep s s'" if "muxWait s = None \<Longrightarrow> \<exists>s'. qstep s s'"
  proof (cases "muxWait s")
    case None
    then show ?thesis by (rule that)
  next
    case (Some w)
    then have "holds_wait (pcs s w)" and "\<not> holds_queue (pcs s w)"
      using l nq by (simp_all add: lock_held)
    then consider "pcs s w = WaitLockQ" | b where "pcs s w = WaitDecide b"
      by (cases "pcs s w") auto
    then show ?thesis
    proof cases
      case 1
      with assms(2) show ?thesis by (auto intro: wait_empty_lock)
    next
      case 2
      then show ?thesis by (cases b) (auto intro: wait_sleep wait_return)
    qed
  qed
  show ?thesis
  proof (cases "pcs s t")
    case (LoopDecide b)
    then show ?thesis by (cases b) (auto intro: loop_end loop_pop)
  next
    case (WaitDecide b)
    then show ?thesis by (cases b) (auto intro: wait_sleep wait_return)
  next
    case WaitLockW
    show ?thesis by (rule wait) (use WaitLockW in \<open>blast intro: wait_lock\<close>)
  next
    case WaitRelock
    show ?thesis by (rule wait) (use WaitRelock in \<open>blast intro: wait_relock\<close>)
  next
    case (PushLockQ x)
    with assms(2) show ?thesis by (blast intro: push_lock)
  next
    case WaitLockQ
    with assms(2) show ?thesis by (blast intro: wait_empty_lock)
  next
    case LoopLockQ
    with assms(2) show ?thesis by (blast intro: loop_lock)
  next
    case PopLockQ
    with assms(2) show ?thesis by (blast intro: pop_lock)
  qed (use assms(3,4) nq [of t] in simp_all)
qed

section \<open>Properties\<close>

text \<open>
  Property C9. In every reachable state the queue is FIFO and safe to pop: the elements taken,
  followed by the elements still in the deque, are the elements pushed, in the order of the
  insertions; no \<^verbatim>\<open>pop_front\<close> has met an empty deque; and at most one thread is inside the part of
  an operation that owns the deque.
\<close>

theorem queue_fifo_and_exclusive:
  assumes "qreachable s"
  shows "pushed s = taken s @ deqQueue s \<and> pcs s 0 \<noteq> Crashed
    \<and> (holds_queue (pcs s t) \<and> holds_queue (pcs s u) \<longrightarrow> t = u)"
  using qreachable_inv [OF assms] lock_unique [of holds_queue "pcs s" "muxQueue s" t u]
  by (auto simp: q_inv_def q_fifo_def q_locks_def)

text \<open>
  Property C10. No wake-up is lost: when the consumer sleeps in \<^verbatim>\<open>cv.wait\<close> although the deque is not
  empty, some producer is about to notify it, and the mutex it still has to lock for that is
  free.
\<close>

theorem no_lost_wakeup:
  assumes "qreachable s" and "pcs s 0 = WaitSleep" and "deqQueue s \<noteq> []"
  shows "\<exists>p. (pcs s p = PushLockW \<and> muxWait s = None) \<or> pcs s p = PushNotify"
proof -
  have inv: "q_locks s" "q_roles s" "q_wakeup s"
    using qreachable_inv [OF assms(1)] by (simp_all add: q_inv_def)
  then obtain p where p: "pcs s p = PushLockW \<or> pcs s p = PushNotify"
    using assms(2,3) by (auto simp: q_wakeup_def notifying_def)
  have "muxWait s = None" if pw: "pcs s p = PushLockW"
  proof (rule ccontr)
    assume "muxWait s \<noteq> None"
    then obtain w where "muxWait s = Some w" by blast
    then have w: "holds_wait (pcs s w)"
      using inv(1) lock_held [of holds_wait "pcs s" w] by (simp add: q_locks_def)
    then have "pcs s w = PushNotify \<or> pcs s w = PushUnlockW"
      using roles_consumer [OF inv(2), of w] assms(2) by (cases "pcs s w") auto
    then show False
      using pw inv(1) lock_unique [of holds_queue "pcs s" "muxQueue s" p w]
      by (auto simp: q_locks_def)
  qed
  with p show ?thesis by blast
qed

text \<open>
  \<^verbatim>\<open>push_back\<close> and \<^verbatim>\<open>wait\<close> take the two mutexes in opposite orders, and a deadlock
  is reachable with one element pushed: the producer holds \<^verbatim>\<open>muxQueue\<close> and needs \<^verbatim>\<open>muxWait\<close>, the
  consumer holds \<^verbatim>\<open>muxWait\<close> and needs \<^verbatim>\<open>muxQueue\<close>.
\<close>

theorem deadlock_reachable:
  "\<exists>s p. qreachable s \<and> deadlocked s p \<and> deqQueue s = [x]"
  by (intro exI [of _ "deadlock_state x"] exI [of _ "1::nat"])
    (simp add: qreachable_deadlock_state deadlocked_def, simp add: deadlock_state_def)

text \<open>
  The deadlock is for ever: whatever the threads do afterwards, both stay where they
  are, nothing more is put into the deque and nothing is taken out of it.
\<close>

theorem deadlock_permanent:
  assumes "qreachable s" and "deadlocked s p" and "qmove\<^sup>*\<^sup>* s s'"
  shows "deadlocked s' p \<and> deqQueue s' = deqQueue s \<and> taken s' = taken s"
  using qmove_deadlocked [OF assms(3,2)] qreachable_inv [OF assms(1)] by blast

text \<open>
  Property C11. The deadlock of the two mutexes is the only way the queue's threads get stuck: if a
  thread is inside a call and not asleep in \<^verbatim>\<open>cv.wait\<close>, then some thread can take a step, or a
  producer and the consumer are deadlocked.
\<close>

theorem stuck_only_by_deadlock:
  assumes "qreachable s" and "pcs s t \<noteq> Idle" and "pcs s t \<noteq> WaitSleep"
  shows "(\<exists>s'. qstep s s') \<or> (\<exists>p. deadlocked s p)"
  using queue_holder_moves queue_free_moves [OF qreachable_inv [OF assms(1)] _ assms(2,3)]
    qreachable_inv [OF assms(1)] by (cases "muxQueue s") blast+

subsection \<open>Witnesses\<close>

lemma queue_fifo_and_exclusive_witness:
  "pushed (deadlock_state (7::nat)) = taken (deadlock_state 7) @ deqQueue (deadlock_state 7)
   \<and> pcs (deadlock_state (7::nat)) 0 \<noteq> Crashed"
  using queue_fifo_and_exclusive [OF qreachable_deadlock_state [of "7::nat"]] by blast

lemma deadlock_permanent_witness: "deadlocked (deadlock_state (7::nat)) 1"
  using deadlock_permanent [OF qreachable_deadlock_state, of 1 "7::nat" "deadlock_state 7"]
  by (simp add: deadlocked_def deadlock_state_def)

lemma stuck_only_by_deadlock_witness:
  "(\<exists>s'. qstep (deadlock_state (7::nat)) s') \<or> (\<exists>p. deadlocked (deadlock_state (7::nat)) p)"
  using stuck_only_by_deadlock [OF qreachable_deadlock_state [of "7::nat"], of 1]
  by (simp add: deadlock_state_def)

text \<open>A run to a state in which the consumer sleeps and a producer has inserted an element.\<close>

definition sleeping_state :: "'a \<Rightarrow> 'a qsys" where
  "sleeping_state x = \<lparr>pcs = (\<lambda>_. Idle)(0 := WaitSleep, 1 := PushLockW), muxQueue = Some 1,
     muxWait = None, deqQueue = [x], pushed = [x], taken = []\<rparr>"

lemma qreachable_sleeping_state:
  fixes x :: 'a
  shows "qreachable (sleeping_state x)"
proof -
  let ?s1 = "goto (init_qsys :: 'a qsys) 0 WaitLockW"
  let ?s2 = "(goto ?s1 0 WaitLockQ)\<lparr>muxWait := Some 0\<rparr>"
  let ?s3 = "(goto ?s2 0 WaitTest)\<lparr>muxQueue := Some 0\<rparr>"
  let ?s4 = "(goto ?s3 0 (WaitDecide (deqQueue ?s3 = [])))\<lparr>muxQueue := None\<rparr>"
  let ?s5 = "(goto ?s4 0 WaitSleep)\<lparr>muxWait := None\<rparr>"
  let ?s6 = "goto ?s5 1 (PushLockQ x)"
  let ?s7 = "(goto ?s6 1 (PushInsert x))\<lparr>muxQueue := Some 1\<rparr>"
  let ?s8 = "(goto ?s7 1 PushLockW)\<lparr>deqQueue := deqQueue ?s7 @ [x], pushed := pushed ?s7 @ [x]\<rparr>"
  have "qreachable ?s1"
    by (rule q_call [OF q_init call_wait]) (simp add: init_qsys_def)
  then have "qreachable ?s2"
    by (rule q_step [OF _ wait_lock]) (simp_all add: init_qsys_def)
  then have "qreachable ?s3"
    by (rule q_step [OF _ wait_empty_lock]) (simp_all add: init_qsys_def)
  then have "qreachable ?s4"
    by (rule q_step [OF _ wait_test]) simp
  then have "qreachable ?s5"
    by (rule q_step [OF _ wait_sleep]) (simp add: init_qsys_def)
  then have "qreachable ?s6"
    by (rule q_call [OF _ call_push]) (simp_all add: init_qsys_def)
  then have "qreachable ?s7"
    by (rule q_step [OF _ push_lock]) (simp_all add: init_qsys_def)
  then have "qreachable ?s8"
    by (rule q_step [OF _ push_insert]) simp
  moreover have "?s8 = sleeping_state x"
    by (simp add: sleeping_state_def init_qsys_def goto_def fun_upd_twist)
  ultimately show ?thesis by simp
qed

lemma no_lost_wakeup_witness:
  "\<exists>p. (pcs (sleeping_state (7::nat)) p = PushLockW \<and> muxWait (sleeping_state (7::nat)) = None)
     \<or> pcs (sleeping_state (7::nat)) p = PushNotify"
  using no_lost_wakeup [OF qreachable_sleeping_state [of "7::nat"]]
  by (simp add: sleeping_state_def)

end
