(* ===== verification/Connection.thy ===== *)
theory Connection
  imports Message Tsqueue
begin

text \<open>
  \<^verbatim>\<open>Net_chat/net_connection.h\<close>: one end of a TCP connection. The state is the members of the
  class and what Asio keeps for it: the asynchronous reads and writes in flight and the
  functions posted to the \<^verbatim>\<open>io_context\<close>. One function per member function and per completion
  handler; the handlers run one at a time, on the thread that runs the \<^verbatim>\<open>io_context\<close>.

  A write in flight is its handler and the bytes still to be written, a read in flight its
  handler, the bytes wanted and the bytes received. \<open>socket_wrote\<close>, \<open>socket_received\<close> and their
  failing variants are the completions of one operation of the socket; they follow the composed
  operations of Asio (\<^verbatim>\<open>async_write\<close> and \<^verbatim>\<open>async_read\<close> issue another socket operation for what is
  left, behind those already waiting) and then call the handler.
\<close>

section \<open>State\<close>

datatype owner = OwnerServer | OwnerClient

datatype write_op = WriteValidationOp | WriteHeaderOp | WriteBodyOp

datatype read_op = ReadValidationOp | ReadHeaderOp | ReadBodyOp

datatype task = SendTask message | CloseTask

record connection =
  m_nOwnerType :: owner
  conn_id :: u32
  sock_open :: bool
  m_msgBuff :: message
  m_qMessagesOut :: "message tsqueue"
  m_qMessagesIn :: "message list"   \<comment> \<open>what it has pushed onto its owner's queue\<close>
  Validaton_code_out :: u64
  Validaton_code_in :: u64
  Validaton_code_sum :: u64
  writes :: "(write_op \<times> bytes) list"
  reads :: "(read_op \<times> nat \<times> bytes) list"
  tasks :: "task list"
  OnClientValidated_calls :: nat
  conn_log :: "string list"

definition Scramble :: "u64 \<Rightarrow> u64" where
  "Scramble input_val = xor input_val 0xdfca"

text \<open>
  The constructor. \<open>now\<close> is the system clock's reading; a server's socket is the one
  \<^verbatim>\<open>async_accept\<close> hands over, already open.
\<close>

definition make_connection :: "owner \<Rightarrow> u64 \<Rightarrow> bool \<Rightarrow> connection" where
  "make_connection parent now is_open =
     \<lparr>m_nOwnerType = parent, conn_id = 0, sock_open = is_open,
      m_msgBuff = \<lparr>header = \<lparr>hdr_id = 0, hdr_size = 0\<rparr>, body = []\<rparr>,
      m_qMessagesOut = [], m_qMessagesIn = [],
      Validaton_code_out = (if parent = OwnerServer then now else 0),
      Validaton_code_in = 0,
      Validaton_code_sum = (if parent = OwnerServer then Scramble now else 0),
      writes = [], reads = [], tasks = [], OnClientValidated_calls = 0, conn_log = []\<rparr>"

definition IsConnected :: "connection \<Rightarrow> bool" where
  "IsConnected c = sock_open c"

definition GetID :: "connection \<Rightarrow> u32" where
  "GetID c = conn_id c"

definition close_socket :: "connection \<Rightarrow> connection" where
  "close_socket c = c\<lparr>sock_open := False\<rparr>"

definition print :: "string \<Rightarrow> connection \<Rightarrow> connection" where
  "print s c = c\<lparr>conn_log := conn_log c @ [s]\<rparr>"

definition start_write :: "write_op \<Rightarrow> bytes \<Rightarrow> connection \<Rightarrow> connection" where
  "start_write op bs c = c\<lparr>writes := writes c @ [(op, bs)]\<rparr>"

definition start_read :: "read_op \<Rightarrow> nat \<Rightarrow> connection \<Rightarrow> connection" where
  "start_read op n c = c\<lparr>reads := reads c @ [(op, n, [])]\<rparr>"

text \<open>The fields \<open>print\<close>, \<open>close_socket\<close> and the start of an operation leave alone.\<close>

lemma print_simps [simp]:
  "m_nOwnerType (print s c) = m_nOwnerType c"
  "conn_id (print s c) = conn_id c"
  "sock_open (print s c) = sock_open c"
  "m_msgBuff (print s c) = m_msgBuff c"
  "m_qMessagesOut (print s c) = m_qMessagesOut c"
  "m_qMessagesIn (print s c) = m_qMessagesIn c"
  "Validaton_code_out (print s c) = Validaton_code_out c"
  "Validaton_code_in (print s c) = Validaton_code_in c"
  "Validaton_code_sum (print s c) = Validaton_code_sum c"
  "writes (print s c) = writes c"
  "reads (print s c) = reads c"
  "tasks (print s c) = tasks c"
  "OnClientValidated_calls (print s c) = OnClientValidated_calls c"
  by (simp_all add: print_def)

lemma close_socket_simps [simp]:
  "m_nOwnerType (close_socket c) = m_nOwnerType c"
  "conn_id (close_socket c) = conn_id c"
  "sock_open (close_socket c) = False"
  "m_msgBuff (close_socket c) = m_msgBuff c"
  "m_qMessagesOut (close_socket c) = m_qMessagesOut c"
  "m_qMessagesIn (close_socket c) = m_qMessagesIn c"
  "Validaton_code_out (close_socket c) = Validaton_code_out c"
  "Validaton_code_in (close_socket c) = Validaton_code_in c"
  "Validaton_code_sum (close_socket c) = Validaton_code_sum c"
  "writes (close_socket c) = writes c"
  "reads (close_socket c) = reads c"
  "tasks (close_socket c) = tasks c"
  "OnClientValidated_calls (close_socket c) = OnClientValidated_calls c"
  by (simp_all add: close_socket_def)

lemma start_read_simps [simp]:
  "m_nOwnerType (start_read op n c) = m_nOwnerType c"
  "conn_id (start_read op n c) = conn_id c"
  "sock_open (start_read op n c) = sock_open c"
  "m_msgBuff (start_read op n c) = m_msgBuff c"
  "m_qMessagesOut (start_read op n c) = m_qMessagesOut c"
  "m_qMessagesIn (start_read op n c) = m_qMessagesIn c"
  "Validaton_code_out (start_read op n c) = Validaton_code_out c"
  "Validaton_code_in (start_read op n c) = Validaton_code_in c"
  "Validaton_code_sum (start_read op n c) = Validaton_code_sum c"
  "writes (start_read op n c) = writes c"
  "reads (start_read op n c) = reads c @ [(op, n, [])]"
  "tasks (start_read op n c) = tasks c"
  "OnClientValidated_calls (start_read op n c) = OnClientValidated_calls c"
  by (simp_all add: start_read_def)

lemma start_write_simps [simp]:
  "m_nOwnerType (start_write op bs c) = m_nOwnerType c"
  "conn_id (start_write op bs c) = conn_id c"
  "sock_open (start_write op bs c) = sock_open c"
  "m_msgBuff (start_write op bs c) = m_msgBuff c"
  "m_qMessagesOut (start_write op bs c) = m_qMessagesOut c"
  "m_qMessagesIn (start_write op bs c) = m_qMessagesIn c"
  "Validaton_code_out (start_write op bs c) = Validaton_code_out c"
  "Validaton_code_in (start_write op bs c) = Validaton_code_in c"
  "Validaton_code_sum (start_write op bs c) = Validaton_code_sum c"
  "writes (start_write op bs c) = writes c @ [(op, bs)]"
  "reads (start_write op bs c) = reads c"
  "tasks (start_write op bs c) = tasks c"
  "OnClientValidated_calls (start_write op bs c) = OnClientValidated_calls c"
  by (simp_all add: start_write_def)

section \<open>Headers on the wire\<close>

text \<open>\<^verbatim>\<open>asio::buffer(&header, sizeof(message_header<T>))\<close>: the two 32-bit members.\<close>

definition encode_header :: "message_header \<Rightarrow> bytes" where
  "encode_header h = le32 (hdr_id h) @ le32 (hdr_size h)"

definition decode_header :: "bytes \<Rightarrow> message_header" where
  "decode_header bs = \<lparr>hdr_id = un32 (take 4 bs), hdr_size = un32 (drop 4 bs)\<rparr>"

definition sizeof_header :: nat where
  "sizeof_header = 8"

lemma length_encode_header [simp, wire]: "length (encode_header h) = 8"
  by (simp add: encode_header_def)

lemma decode_encode_header [simp, wire]: "decode_header (encode_header h) = h"
  by (simp add: decode_header_def encode_header_def)

lemma encode_decode_header: "length bs = 8 \<Longrightarrow> encode_header (decode_header bs) = bs"
  by (simp add: decode_header_def encode_header_def le32_un32)

section \<open>The handshake\<close>

definition WriteValidation :: "connection \<Rightarrow> connection" where
  "WriteValidation c = start_write WriteValidationOp (le64 (Validaton_code_out c)) c"

definition ReadValidation :: "connection \<Rightarrow> connection" where
  "ReadValidation c = start_read ReadValidationOp 8 c"

definition ReadHeader :: "connection \<Rightarrow> connection" where
  "ReadHeader c = start_read ReadHeaderOp sizeof_header c"

definition validation_written :: "bool \<Rightarrow> connection \<Rightarrow> connection" where
  "validation_written error c =
     (if \<not> error then if m_nOwnerType c = OwnerClient then ReadHeader c else c
      else close_socket c)"

definition validation_read :: "bool \<Rightarrow> connection \<Rightarrow> connection" where
  "validation_read error c =
     (if \<not> error then
        if m_nOwnerType c = OwnerServer then
          if Validaton_code_in c = Validaton_code_sum c
          then ReadHeader (print (''Client Validation success'' @ nl) c)
          else (close_socket (print (''Client disconnect. Wrong validation code'' @ nl) c))
                 \<lparr>OnClientValidated_calls := Suc (OnClientValidated_calls c)\<rparr>
        else WriteValidation (c\<lparr>Validaton_code_out := Scramble (Validaton_code_in c)\<rparr>)
      else close_socket (print (''Client disconnect. Validation read fail'' @ nl) c))"

definition ConnectToClient :: "u32 \<Rightarrow> connection \<Rightarrow> connection" where
  "ConnectToClient uid c =
     (if m_nOwnerType c = OwnerServer then
        if sock_open c then ReadValidation (WriteValidation (c\<lparr>conn_id := uid\<rparr>)) else c
      else c)"

text \<open>The handler of \<^verbatim>\<open>async_connect\<close>, which has opened the socket when there is no error.\<close>

definition connected_to_server :: "bool \<Rightarrow> connection \<Rightarrow> connection" where
  "connected_to_server error c =
     (if \<not> error then ReadValidation (c\<lparr>sock_open := True\<rparr>) else c)"

section \<open>Writing messages\<close>

definition WriteHeader :: "connection \<Rightarrow> fault + connection" where
  "WriteHeader c =
     and_then (q_front (m_qMessagesOut c)) (\<lambda>msg.
       Inr (start_write WriteHeaderOp (encode_header (header msg)) c))"

definition WriteBody :: "connection \<Rightarrow> fault + connection" where
  "WriteBody c =
     and_then (q_front (m_qMessagesOut c)) (\<lambda>msg. Inr (start_write WriteBodyOp (body msg) c))"

text \<open>\<^verbatim>\<open>m_qMessagesOut.pop_front(); if (!m_qMessagesOut.empty()) WriteHeader();\<close>\<close>

definition next_message :: "connection \<Rightarrow> fault + connection" where
  "next_message c =
     and_then (pop_front (m_qMessagesOut c)) (\<lambda>(msg, q).
       let c' = c\<lparr>m_qMessagesOut := q\<rparr>
       in if \<not> q_empty q then WriteHeader c' else Inr c')"

definition header_written :: "bool \<Rightarrow> connection \<Rightarrow> fault + connection" where
  "header_written error c =
     (if \<not> error then
        and_then (q_front (m_qMessagesOut c)) (\<lambda>msg.
          if message_size msg > 0 then WriteBody c else next_message c)
      else Inr (close_socket (print (''['' @ show_u32 (conn_id c) @ ''] Head write fail'' @ nl) c)))"

definition body_written :: "bool \<Rightarrow> connection \<Rightarrow> fault + connection" where
  "body_written error c =
     (if \<not> error then next_message c
      else Inr (close_socket (print (''['' @ show_u32 (conn_id c) @ ''] Body write fail'' @ nl) c)))"

text \<open>The function \<^verbatim>\<open>Send\<close> posts, and \<^verbatim>\<open>Send\<close> itself.\<close>

definition send_posted :: "message \<Rightarrow> connection \<Rightarrow> fault + connection" where
  "send_posted msg c =
     (let bWritingMessage = \<not> q_empty (m_qMessagesOut c);
          c' = c\<lparr>m_qMessagesOut := push_back (m_qMessagesOut c) msg\<rparr>
      in if \<not> bWritingMessage then WriteHeader c' else Inr c')"

definition Send :: "message \<Rightarrow> connection \<Rightarrow> connection" where
  "Send msg c = c\<lparr>tasks := tasks c @ [SendTask msg]\<rparr>"

definition Disconnect :: "connection \<Rightarrow> connection" where
  "Disconnect c = (if IsConnected c then c\<lparr>tasks := tasks c @ [CloseTask]\<rparr> else c)"

section \<open>Reading messages\<close>

definition ReadBody :: "connection \<Rightarrow> connection" where
  "ReadBody c = start_read ReadBodyOp (length (body (m_msgBuff c))) c"

definition AddToIncomimgMessageQueue :: "connection \<Rightarrow> connection" where
  "AddToIncomimgMessageQueue c =
     ReadHeader (c\<lparr>m_qMessagesIn := push_back (m_qMessagesIn c) (m_msgBuff c)\<rparr>)"

text \<open>\<^verbatim>\<open>std::vector::resize\<close>: cut off, or filled up with zeros.\<close>

definition resize :: "nat \<Rightarrow> bytes \<Rightarrow> bytes" where
  "resize n bs = take n bs @ replicate (n - length bs) 0"

definition header_read :: "bool \<Rightarrow> connection \<Rightarrow> connection" where
  "header_read error c =
     (if \<not> error then
        if hdr_size (header (m_msgBuff c)) > 0
        then ReadBody (c\<lparr>m_msgBuff := (m_msgBuff c)
               \<lparr>body := resize (unat (hdr_size (header (m_msgBuff c)))) (body (m_msgBuff c))\<rparr>\<rparr>)
        else AddToIncomimgMessageQueue c
      else close_socket (print (''['' @ show_u32 (conn_id c) @ ''] Header read fail id: ''
             @ show_u32 (conn_id c) @ nl) c))"

definition body_read :: "bool \<Rightarrow> connection \<Rightarrow> connection" where
  "body_read error c =
     (if \<not> error then AddToIncomimgMessageQueue c
      else close_socket (print (''['' @ show_u32 (conn_id c) @ ''] Body read fail id: ''
             @ show_u32 (conn_id c) @ nl) c))"

lemma length_resize [simp]: "length (resize n bs) = n"
  by (simp add: resize_def)

section \<open>Completions\<close>

fun write_done :: "write_op \<Rightarrow> bool \<Rightarrow> connection \<Rightarrow> fault + connection" where
  "write_done WriteValidationOp error c = Inr (validation_written error c)"
| "write_done WriteHeaderOp error c = header_written error c"
| "write_done WriteBodyOp error c = body_written error c"

text \<open>
  The socket has taken \<open>n\<close> bytes of the first write in flight. \<^verbatim>\<open>async_write\<close> issues the next
  socket operation for the rest, which queues behind the other writes in flight.
\<close>

definition socket_wrote :: "nat \<Rightarrow> connection \<Rightarrow> fault + bytes \<times> connection" where
  "socket_wrote n c =
     (if \<not> sock_open c then Inr ([], c)
      else case writes c of
        [] \<Rightarrow> Inr ([], c)
      | (op, bs) # ws \<Rightarrow>
          if n < length bs
          then Inr (take n bs, c\<lparr>writes := ws @ [(op, drop n bs)]\<rparr>)
          else and_then (write_done op False (c\<lparr>writes := ws\<rparr>)) (\<lambda>c'. Inr (bs, c')))"

text \<open>The first write in flight fails, or is aborted because the socket was closed.\<close>

definition socket_write_failed :: "connection \<Rightarrow> fault + connection" where
  "socket_write_failed c =
     (case writes c of
        [] \<Rightarrow> Inr c
      | (op, bs) # ws \<Rightarrow> write_done op True (c\<lparr>writes := ws\<rparr>))"

text \<open>
  A read in flight is complete: the bytes are in its buffer when the handler runs. The
  validation code is read with \<^verbatim>\<open>async_read_some\<close>, which may have filled only the front of it.
\<close>

fun read_done :: "read_op \<Rightarrow> bytes \<Rightarrow> connection \<Rightarrow> connection" where
  "read_done ReadValidationOp bs c =
     validation_read False
       (c\<lparr>Validaton_code_in := un64 (bs @ drop (length bs) (le64 (Validaton_code_in c)))\<rparr>)"
| "read_done ReadHeaderOp bs c =
     header_read False (c\<lparr>m_msgBuff := (m_msgBuff c)\<lparr>header := decode_header bs\<rparr>\<rparr>)"
| "read_done ReadBodyOp bs c =
     body_read False (c\<lparr>m_msgBuff := (m_msgBuff c)\<lparr>body := bs\<rparr>\<rparr>)"

text \<open>
  The peer's next bytes \<open>bs\<close> have arrived: how many of them the read in flight takes, and the
  connection after it.
\<close>

definition socket_received :: "bytes \<Rightarrow> connection \<Rightarrow> nat \<times> connection" where
  "socket_received bs c =
     (if \<not> sock_open c \<or> bs = [] then (0, c)
      else case reads c of
        [] \<Rightarrow> (0, c)
      | (op, n, acc) # rs \<Rightarrow>
          let new = take (n - length acc) bs;
              got = acc @ new;
              c' = c\<lparr>reads := rs\<rparr>
          in (length new,
              if op = ReadValidationOp \<or> length got = n then read_done op got c'
              else c\<lparr>reads := (op, n, got) # rs\<rparr>))"

definition socket_read_failed :: "connection \<Rightarrow> connection" where
  "socket_read_failed c =
     (case reads c of
        [] \<Rightarrow> c
      | (ReadValidationOp, n, acc) # rs \<Rightarrow> validation_read True (c\<lparr>reads := rs\<rparr>)
      | (ReadHeaderOp, n, acc) # rs \<Rightarrow> header_read True (c\<lparr>reads := rs\<rparr>)
      | (ReadBodyOp, n, acc) # rs \<Rightarrow> body_read True (c\<lparr>reads := rs\<rparr>))"

text \<open>The \<^verbatim>\<open>io_context\<close> runs the oldest function posted for this connection.\<close>

definition run_task :: "connection \<Rightarrow> fault + connection" where
  "run_task c =
     (case tasks c of
        [] \<Rightarrow> Inr c
      | SendTask msg # ts \<Rightarrow> send_posted msg (c\<lparr>tasks := ts\<rparr>)
      | CloseTask # ts \<Rightarrow> Inr (close_socket (c\<lparr>tasks := ts\<rparr>)))"

lemmas handler_defs = IsConnected_def GetID_def WriteValidation_def ReadValidation_def
  ReadHeader_def validation_written_def validation_read_def ConnectToClient_def
  connected_to_server_def WriteHeader_def WriteBody_def next_message_def header_written_def
  body_written_def send_posted_def Send_def Disconnect_def ReadBody_def
  AddToIncomimgMessageQueue_def header_read_def body_read_def

lemmas socket_defs = socket_wrote_def socket_write_failed_def socket_received_def
  socket_read_failed_def run_task_def

lemmas connection_defs = handler_defs socket_defs close_socket_def print_def start_write_def
  start_read_def

section \<open>The queue of outgoing messages\<close>

text \<open>What a posted \<open>Send\<close> does, and the completion of a message's header or body.\<close>

lemma send_posted_eq:
  "send_posted m c =
     (if m_qMessagesOut c = []
      then Inr (c\<lparr>m_qMessagesOut := [m],
                  writes := writes c @ [(WriteHeaderOp, encode_header (header m))]\<rparr>)
      else Inr (c\<lparr>m_qMessagesOut := m_qMessagesOut c @ [m]\<rparr>))"
  by (simp add: connection_defs tsqueue_defs split: list.split)

lemma next_message_eq:
  "m_qMessagesOut c = m # q \<Longrightarrow>
   next_message c =
     Inr (c\<lparr>m_qMessagesOut := q,
            writes := writes c @ (case q of [] \<Rightarrow> []
              | m' # _ \<Rightarrow> [(WriteHeaderOp, encode_header (header m'))])\<rparr>)"
  by (cases q) (simp_all add: connection_defs tsqueue_defs)

lemma header_written_eq:
  "m_qMessagesOut c = m # q \<Longrightarrow>
   header_written False c =
     (if body m \<noteq> [] then Inr (c\<lparr>writes := writes c @ [(WriteBodyOp, body m)]\<rparr>)
      else next_message c)"
  by (simp add: connection_defs tsqueue_defs message_size_def)

end
