(* ===== verification/Channel.thy ===== *)
theory Channel
  imports Connection "HOL-Library.Sublist"
begin

text \<open>
  A connection as a message channel: runs of one end over any sequence of calls, completions
  and failures, with the history of what was sent, written and received; the byte stream one
  end writes, the messages the other end reads from it, and the two put together.

  \<open>frame\<close> is a message on the wire. \<open>deliver\<close> is what a receiver makes of a sequence of
  messages: the body of a message without one is whatever the read buffer last held.
\<close>

section \<open>Runs\<close>

datatype event =
    AppSend message      \<comment> \<open>the application calls \<^verbatim>\<open>Send\<close>\<close>
  | AppDisconnect        \<comment> \<open>the application calls \<^verbatim>\<open>Disconnect\<close>\<close>
  | RunTask              \<comment> \<open>a posted function runs\<close>
  | Wrote nat            \<comment> \<open>the socket takes this many bytes of the first write\<close>
  | WriteFails
  | Receives bytes       \<comment> \<open>these bytes are the next ones from the peer\<close>
  | ReadFails

record history =
  hconn :: connection
  sent :: "message list"
  wrote :: bytes
  got :: bytes

fun hist_step :: "event \<Rightarrow> history \<Rightarrow> fault + history" where
  "hist_step (AppSend msg) h = Inr (h\<lparr>hconn := Send msg (hconn h), sent := sent h @ [msg]\<rparr>)"
| "hist_step AppDisconnect h = Inr (h\<lparr>hconn := Disconnect (hconn h)\<rparr>)"
| "hist_step RunTask h = and_then (run_task (hconn h)) (\<lambda>c. Inr (h\<lparr>hconn := c\<rparr>))"
| "hist_step (Wrote n) h =
     and_then (socket_wrote n (hconn h)) (\<lambda>(bs, c). Inr (h\<lparr>hconn := c, wrote := wrote h @ bs\<rparr>))"
| "hist_step WriteFails h = and_then (socket_write_failed (hconn h)) (\<lambda>c. Inr (h\<lparr>hconn := c\<rparr>))"
| "hist_step (Receives bs) h =
     (case socket_received bs (hconn h) of (n, c) \<Rightarrow>
        Inr (h\<lparr>hconn := c, got := got h @ take n bs\<rparr>))"
| "hist_step ReadFails h = Inr (h\<lparr>hconn := socket_read_failed (hconn h)\<rparr>)"

fun hist_run :: "event list \<Rightarrow> history \<Rightarrow> fault + history" where
  "hist_run [] h = Inr h"
| "hist_run (e # es) h = and_then (hist_step e h) (hist_run es)"

definition new_history :: "connection \<Rightarrow> history" where
  "new_history c = \<lparr>hconn = c, sent = [], wrote = [], got = []\<rparr>"

text \<open>
  The socket takes the eight bytes of the validation code in one go. The event \<open>Wrote n\<close> with
  a smaller \<open>n\<close> while the code is at the head of the writes is the short write that breaks it.
\<close>

fun whole_validation :: "event \<Rightarrow> connection \<Rightarrow> bool" where
  "whole_validation (Wrote n) c \<longleftrightarrow>
     (case writes c of (WriteValidationOp, bs) # ws \<Rightarrow> length bs \<le> n | _ \<Rightarrow> True)"
| "whole_validation e c \<longleftrightarrow> True"

fun whole_run :: "event list \<Rightarrow> history \<Rightarrow> bool" where
  "whole_run [] h \<longleftrightarrow> True"
| "whole_run (e # es) h \<longleftrightarrow> whole_validation e (hconn h)
     \<and> (case hist_step e h of Inl f \<Rightarrow> True | Inr h' \<Rightarrow> whole_run es h')"

section \<open>Frames\<close>

definition frame :: "message \<Rightarrow> bytes" where
  "frame msg = encode_header (header msg) @ body msg"

definition frames :: "message list \<Rightarrow> bytes" where
  "frames msgs = concat (map frame msgs)"

lemma frames_simps [simp]:
  "frames [] = []"
  "frames (m # ms) = encode_header (header m) @ body m @ frames ms"
  "frames (ms @ ms') = frames ms @ frames ms'"
  by (simp_all add: frames_def frame_def)

fun pending_sends :: "task list \<Rightarrow> message list" where
  "pending_sends [] = []"
| "pending_sends (SendTask m # ts) = m # pending_sends ts"
| "pending_sends (CloseTask # ts) = pending_sends ts"

lemma pending_sends_append [simp]:
  "pending_sends (ts @ ts') = pending_sends ts @ pending_sends ts'"
  by (induction ts rule: pending_sends.induct) simp_all

section \<open>What is written\<close>

text \<open>
  The writes in flight for messages: nothing, the header of the first queued message, or its
  body; \<open>ms\<close> are the messages written completely and \<open>x\<close> the bytes written so far.
\<close>

definition msg_writes ::
    "message list \<Rightarrow> bytes \<Rightarrow> (write_op \<times> bytes) list \<Rightarrow> message list \<Rightarrow> bool" where
  "msg_writes ms x ws q \<longleftrightarrow>
     (ws = [] \<and> q = [] \<and> x = frames ms)
   \<or> (\<exists>r m q'. ws = [(WriteHeaderOp, r)] \<and> q = m # q'
        \<and> x @ r = frames ms @ encode_header (header m))
   \<or> (\<exists>r m q'. ws = [(WriteBodyOp, r)] \<and> q = m # q'
        \<and> x @ r = frames ms @ encode_header (header m) @ body m)"

definition no_validation_read :: "connection \<Rightarrow> bool" where
  "no_validation_read c \<longleftrightarrow>
     m_nOwnerType c = OwnerServer \<or> ReadValidationOp \<notin> fst ` set (reads c)"

definition writer_at ::
    "bytes \<Rightarrow> message list \<Rightarrow> bytes \<Rightarrow> (write_op \<times> bytes) list \<Rightarrow> (write_op \<times> bytes) list \<Rightarrow> history \<Rightarrow> bool"
where
  "writer_at code ms x vs ws h \<longleftrightarrow>
     sent h = ms @ m_qMessagesOut (hconn h) @ pending_sends (tasks (hconn h))
   \<and> writes (hconn h) = vs @ ws
   \<and> (vs = [] \<and> wrote h = code @ x
      \<or> vs = [(WriteValidationOp, code)] \<and> wrote h = [] \<and> x = []
        \<and> m_nOwnerType (hconn h) = OwnerServer)
   \<and> msg_writes ms x ws (m_qMessagesOut (hconn h))"

definition writer_live :: "bytes \<Rightarrow> history \<Rightarrow> bool" where
  "writer_live code h \<longleftrightarrow> sock_open (hconn h) \<and> no_validation_read (hconn h)
     \<and> (\<exists>ms x vs ws. writer_at code ms x vs ws h)"

lemma writer_liveI:
  "writer_at code ms x vs ws h \<Longrightarrow> sock_open (hconn h) \<Longrightarrow> no_validation_read (hconn h) \<Longrightarrow>
   writer_live code h"
  by (auto simp: writer_live_def)

definition writer_dead :: "bytes \<Rightarrow> history \<Rightarrow> bool" where
  "writer_dead code h \<longleftrightarrow> \<not> sock_open (hconn h) \<and> prefix (wrote h) (code @ frames (sent h))"

definition writer_inv :: "bytes \<Rightarrow> history \<Rightarrow> bool" where
  "writer_inv code h \<longleftrightarrow> writer_live code h \<or> writer_dead code h"

lemma msg_writes_prefix: "msg_writes ms x ws q \<Longrightarrow> prefix x (frames (ms @ q))"
  by (auto simp: msg_writes_def prefix_def) (metis append.assoc)+

lemma writer_live_prefix:
  assumes "writer_live code h"
  shows "prefix (wrote h) (code @ frames (sent h))"
proof -
  obtain ms x vs ws where w: "writer_at code ms x vs ws h"
    using assms by (auto simp: writer_live_def)
  then have "prefix x (frames (ms @ m_qMessagesOut (hconn h)))"
    by (auto simp: writer_at_def dest: msg_writes_prefix)
  then have "prefix x (frames (sent h))"
    using w by (simp add: writer_at_def) (metis append.assoc prefix_prefix)
  with w show ?thesis by (auto simp: writer_at_def)
qed

lemma writer_inv_prefix: "writer_inv code h \<Longrightarrow> prefix (wrote h) (code @ frames (sent h))"
  using writer_live_prefix by (auto simp: writer_inv_def writer_dead_def)

text \<open>A live writer whose socket gets closed is dead, whatever else changes.\<close>

lemma writer_closed:
  assumes "writer_inv code h" and "\<not> sock_open (hconn h')"
    and "wrote h' = wrote h" and "sent h' = sent h"
  shows "writer_inv code h'"
  using writer_inv_prefix [OF assms(1)] assms(2-) by (simp add: writer_inv_def writer_dead_def)

lemma run_task_closed:
  "\<not> sock_open c \<Longrightarrow> \<exists>c'. run_task c = Inr c' \<and> \<not> sock_open c'"
  by (auto simp: run_task_def send_posted_eq close_socket_def split: list.split task.split)

lemma write_failed_closes:
  "writes c = w # ws \<Longrightarrow> \<exists>c'. socket_write_failed c = Inr c' \<and> \<not> sock_open c'"
  by (cases w; cases "fst w") (simp_all add: connection_defs)

lemma read_failed_closes: "reads c = r # rs \<Longrightarrow> \<not> sock_open (socket_read_failed c)"
  by (cases r; cases "fst r") (simp_all add: connection_defs)

lemma closed_step:
  assumes "\<not> sock_open (hconn h)"
  shows "\<exists>h'. hist_step e h = Inr h' \<and> \<not> sock_open (hconn h') \<and> wrote h' = wrote h
    \<and> got h' = got h \<and> (\<exists>ms. sent h' = sent h @ ms)"
proof (cases e)
  case RunTask
  then show ?thesis
    using run_task_closed [OF assms] by (auto simp: faults)
next
  case WriteFails
  then show ?thesis
    using write_failed_closes assms by (cases "writes (hconn h)") (fastforce simp: connection_defs)+
next
  case ReadFails
  then show ?thesis
    using read_failed_closes assms by (cases "reads (hconn h)") (auto simp: connection_defs)
qed (use assms in \<open>auto simp: connection_defs\<close>)

lemma dead_step:
  assumes "writer_dead code h"
  shows "\<exists>h'. hist_step e h = Inr h' \<and> writer_dead code h'"
proof -
  obtain h' ms where h': "hist_step e h = Inr h'" "\<not> sock_open (hconn h')" "wrote h' = wrote h"
      "sent h' = sent h @ ms"
    using assms closed_step [of h e] by (auto simp: writer_dead_def)
  moreover have "prefix (wrote h) (code @ frames (sent h @ ms))"
    using assms prefix_prefix [of "wrote h" "code @ frames (sent h)" "frames ms"]
    by (simp add: writer_dead_def)
  ultimately show ?thesis by (auto simp: writer_dead_def)
qed

lemma close_dead:
  assumes "writer_live code h" and "\<not> sock_open c"
  shows "writer_dead code (h\<lparr>hconn := c\<rparr>)"
  using writer_live_prefix [OF assms(1)] assms(2) by (simp add: writer_dead_def)

subsection \<open>The live writer\<close>

lemma msg_writes_push:
  "msg_writes ms x ws q \<Longrightarrow>
   msg_writes ms x (if q = [] then [(WriteHeaderOp, encode_header (header m))] else ws) (q @ [m])"
  by (auto simp: msg_writes_def)

lemma live_run_task:
  assumes "writer_live code h"
  shows "\<exists>h'. hist_step RunTask h = Inr h' \<and> writer_inv code h'"
proof (cases "tasks (hconn h)")
  case Nil
  with assms show ?thesis by (simp add: run_task_def writer_inv_def)
next
  case (Cons t ts)
  show ?thesis
  proof (cases t)
    case CloseTask
    with Cons show ?thesis
      using close_dead [OF assms, of "close_socket ((hconn h)\<lparr>tasks := ts\<rparr>)"]
      by (simp add: run_task_def writer_inv_def)
  next
    case (SendTask m)
    let ?c = "hconn h"
    let ?ws = "if m_qMessagesOut ?c = [] then writes ?c @ [(WriteHeaderOp, encode_header (header m))]
      else writes ?c"
    let ?c' = "?c\<lparr>tasks := ts, m_qMessagesOut := m_qMessagesOut ?c @ [m], writes := ?ws\<rparr>"
    have run: "hist_step RunTask h = Inr (h\<lparr>hconn := ?c'\<rparr>)"
      using Cons SendTask by (simp add: run_task_def send_posted_eq)
    obtain ms x vs ws where w: "writer_at code ms x vs ws h"
      using assms by (auto simp: writer_live_def)
    let ?ws' = "if m_qMessagesOut ?c = [] then [(WriteHeaderOp, encode_header (header m))] else ws"
    have "msg_writes ms x ws (m_qMessagesOut ?c)" and "writes ?c = vs @ ws"
      using w by (simp_all add: writer_at_def)
    then have "?ws = vs @ ?ws'" and "msg_writes ms x ?ws' (m_qMessagesOut ?c @ [m])"
      using msg_writes_push by (auto simp: msg_writes_def)
    then have "writer_at code ms x vs ?ws' (h\<lparr>hconn := ?c'\<rparr>)"
      using w Cons SendTask by (auto simp: writer_at_def)
    then have "writer_live code (h\<lparr>hconn := ?c'\<rparr>)"
      by (rule writer_liveI) (use assms in \<open>simp_all add: writer_live_def no_validation_read_def\<close>)
    with run show ?thesis by (simp add: writer_inv_def)
  qed
qed

text \<open>The writes after message \<open>m\<close> is out and \<open>q\<close> is left.\<close>

lemma msg_writes_next:
  "x = frames (ms @ [m]) \<Longrightarrow>
   msg_writes (ms @ [m]) x
     (case q of [] \<Rightarrow> [] | m' # _ \<Rightarrow> [(WriteHeaderOp, encode_header (header m'))]) q"
  by (cases q) (simp_all add: msg_writes_def)

lemma live_wrote_message:
  assumes "writer_at code ms x [] ((op, bs) # ws) h" and "\<not> n < length bs"
    and "sock_open (hconn h)"
  shows "\<exists>c ms' ws'. socket_wrote n (hconn h) = Inr (bs, c) \<and> sock_open c
    \<and> m_nOwnerType c = m_nOwnerType (hconn h) \<and> reads c = reads (hconn h)
    \<and> writer_at code ms' (x @ bs) [] ws' (h\<lparr>hconn := c, wrote := wrote h @ bs\<rparr>)"
proof -
  let ?c = "hconn h" and ?c' = "(hconn h)\<lparr>writes := ws\<rparr>"
  have s: "sent h = ms @ m_qMessagesOut ?c @ pending_sends (tasks ?c)"
    and w: "writes ?c = (op, bs) # ws" "wrote h = code @ x"
    and m: "msg_writes ms x ((op, bs) # ws) (m_qMessagesOut ?c)"
    using assms(1) by (auto simp: writer_at_def)
  have run: "socket_wrote n ?c = and_then (write_done op False ?c') (\<lambda>c'. Inr (bs, c'))"
    using assms(2,3) w by (simp add: socket_wrote_def)
  from m obtain m' q where q: "m_qMessagesOut ?c = m' # q" and ws: "ws = []"
    and op: "op = WriteHeaderOp \<and> x @ bs = frames ms @ encode_header (header m')
      \<or> op = WriteBodyOp \<and> x @ bs = frames ms @ encode_header (header m') @ body m'"
    by (auto simp: msg_writes_def)
  let ?next = "?c'\<lparr>m_qMessagesOut := q, writes := ws @ (case q of [] \<Rightarrow> []
              | m'' # _ \<Rightarrow> [(WriteHeaderOp, encode_header (header m''))])\<rparr>"
  show ?thesis
  proof (cases "op = WriteHeaderOp \<and> body m' \<noteq> []")
    case True
    let ?c'' = "?c'\<lparr>writes := [(WriteBodyOp, body m')]\<rparr>"
    have "socket_wrote n ?c = Inr (bs, ?c'')"
      using run True q ws by (simp add: header_written_eq)
    moreover have "writer_at code ms (x @ bs) [] [(WriteBodyOp, body m')]
        (h\<lparr>hconn := ?c'', wrote := wrote h @ bs\<rparr>)"
      using s w q op True by (auto simp: writer_at_def msg_writes_def)
    ultimately show ?thesis
      using assms(3) by (intro exI conjI) (assumption | simp)+
  next
    case False
    then have "socket_wrote n ?c = Inr (bs, ?next)"
      using run op q ws by (auto simp: header_written_eq next_message_eq body_written_def)
    moreover have "x @ bs = frames (ms @ [m'])"
      using op False by auto
    then have "writer_at code (ms @ [m']) (x @ bs) [] (case q of [] \<Rightarrow> []
              | m'' # _ \<Rightarrow> [(WriteHeaderOp, encode_header (header m''))])
        (h\<lparr>hconn := ?next, wrote := wrote h @ bs\<rparr>)"
      using s w q ws msg_writes_next by (simp add: writer_at_def)
    ultimately show ?thesis
      using assms(3) by (intro exI conjI) (assumption | simp)+
  qed
qed

lemma live_wrote:
  assumes "writer_live code h" and "whole_validation (Wrote n) (hconn h)"
  shows "\<exists>h'. hist_step (Wrote n) h = Inr h' \<and> writer_live code h'"
proof -
  let ?c = "hconn h"
  obtain ms x vs ws where w: "writer_at code ms x vs ws h"
    and o: "sock_open ?c" and nv: "no_validation_read ?c"
    using assms(1) by (auto simp: writer_live_def)
  show ?thesis
  proof (cases "vs = []")
    case False
    with w have vs: "vs = [(WriteValidationOp, code)]" "wrote h = []" "x = []"
        "m_nOwnerType ?c = OwnerServer" "writes ?c = (WriteValidationOp, code) # ws"
      by (auto simp: writer_at_def)
    let ?h' = "h\<lparr>hconn := ?c\<lparr>writes := ws\<rparr>, wrote := code\<rparr>"
    have "hist_step (Wrote n) h = Inr ?h'"
      using assms(2) vs o by (simp add: socket_wrote_def validation_written_def)
    moreover have "writer_at code ms x [] ws ?h'"
      using w vs by (simp add: writer_at_def)
    then have "writer_live code ?h'"
      by (rule writer_liveI) (use o nv in \<open>simp_all add: no_validation_read_def\<close>)
    ultimately show ?thesis by blast
  next
    case vs: True
    show ?thesis
    proof (cases ws)
      case Nil
      with vs w have "writes ?c = []" by (simp add: writer_at_def)
      then show ?thesis using assms(1) o by (simp add: socket_wrote_def)
    next
      case (Cons b ws')
      obtain op bs where b: "b = (op, bs)" by (cases b)
      show ?thesis
      proof (cases "n < length bs")
        case True
        have m: "msg_writes ms x ((op, bs) # ws') (m_qMessagesOut ?c)"
          using w vs Cons b by (simp add: writer_at_def)
        then have ws': "ws' = []" by (auto simp: msg_writes_def)
        let ?h' = "h\<lparr>hconn := ?c\<lparr>writes := [(op, drop n bs)]\<rparr>, wrote := wrote h @ take n bs\<rparr>"
        have "hist_step (Wrote n) h = Inr ?h'"
          using w vs Cons b True o ws' by (simp add: writer_at_def socket_wrote_def)
        moreover have "msg_writes ms (x @ take n bs) [(op, drop n bs)] (m_qMessagesOut ?c)"
          using m ws' by (auto simp: msg_writes_def)
        then have "writer_at code ms (x @ take n bs) [] [(op, drop n bs)] ?h'"
          using w vs by (auto simp: writer_at_def)
        then have "writer_live code ?h'"
          by (rule writer_liveI) (use o nv in \<open>simp_all add: no_validation_read_def\<close>)
        ultimately show ?thesis by blast
      next
        case False
        then obtain c ms' ws'' where c: "socket_wrote n ?c = Inr (bs, c)" "sock_open c"
          "m_nOwnerType c = m_nOwnerType ?c" "reads c = reads ?c"
          "writer_at code ms' (x @ bs) [] ws'' (h\<lparr>hconn := c, wrote := wrote h @ bs\<rparr>)"
          using live_wrote_message [of code ms x op bs ws' h n] w vs Cons b o by auto
        then have "writer_live code (h\<lparr>hconn := c, wrote := wrote h @ bs\<rparr>)"
          by (intro writer_liveI) (use nv in \<open>auto simp: no_validation_read_def\<close>)
        with c(1) show ?thesis by simp
      qed
    qed
  qed
qed

text \<open>Reading changes nothing of what is being written, unless it closes the socket.\<close>

lemma read_done_writer:
  assumes "m_nOwnerType c = OwnerServer \<or> op \<noteq> ReadValidationOp" and "sock_open (read_done op bs c)"
  shows "sock_open c \<and> writes (read_done op bs c) = writes c
    \<and> m_qMessagesOut (read_done op bs c) = m_qMessagesOut c
    \<and> tasks (read_done op bs c) = tasks c \<and> m_nOwnerType (read_done op bs c) = m_nOwnerType c
    \<and> (ReadValidationOp \<in> fst ` set (reads (read_done op bs c)) \<longrightarrow>
         ReadValidationOp \<in> fst ` set (reads c))"
  using assms by (cases op) (simp_all add: handler_defs split: if_splits)

lemma received_writer:
  assumes "socket_received bs c = (n, c')" and "no_validation_read c" and "sock_open c'"
  shows "no_validation_read c' \<and> writes c' = writes c \<and> m_qMessagesOut c' = m_qMessagesOut c
    \<and> tasks c' = tasks c \<and> m_nOwnerType c' = m_nOwnerType c"
proof (cases "sock_open c \<and> bs \<noteq> [] \<and> reads c \<noteq> []")
  case False
  with assms show ?thesis by (auto simp: socket_received_def split: list.splits)
next
  case True
  then obtain op k acc rs where r: "reads c = (op, k, acc) # rs"
    by (metis neq_Nil_conv prod_cases3)
  let ?got = "acc @ take (k - length acc) bs"
  show ?thesis
  proof (cases "op = ReadValidationOp \<or> length ?got = k")
    case True
    then have c': "c' = read_done op ?got (c\<lparr>reads := rs\<rparr>)"
      using assms(1) r \<open>sock_open c \<and> _\<close> by (auto simp: socket_received_def Let_def split: if_splits)
    have "m_nOwnerType c = OwnerServer \<or> op \<noteq> ReadValidationOp"
      using assms(2) r by (auto simp: no_validation_read_def)
    then show ?thesis
      using read_done_writer [of "c\<lparr>reads := rs\<rparr>" op ?got] assms(2,3) r
      by (auto simp: c' no_validation_read_def)
  next
    case False
    then have "c' = c\<lparr>reads := (op, k, ?got) # rs\<rparr>"
      using assms(1) r \<open>sock_open c \<and> _\<close> by (auto simp: socket_received_def Let_def split: if_splits)
    then show ?thesis
      using assms(2) r by (simp add: no_validation_read_def)
  qed
qed

lemma live_receives:
  assumes "writer_live code h"
  shows "\<exists>h'. hist_step (Receives bs) h = Inr h' \<and> writer_inv code h'"
proof -
  obtain n c where r: "socket_received bs (hconn h) = (n, c)"
    by (cases "socket_received bs (hconn h)")
  let ?h' = "h\<lparr>hconn := c, got := got h @ take n bs\<rparr>"
  have "writer_inv code ?h'"
  proof (cases "sock_open c")
    case False
    show ?thesis
      by (rule writer_closed [of code h]) (use assms False in \<open>simp_all add: writer_inv_def\<close>)
  next
    case True
    have "no_validation_read (hconn h)"
      using assms by (simp add: writer_live_def)
    from received_writer [OF r this True]
    have c: "no_validation_read c" "writes c = writes (hconn h)"
        "m_qMessagesOut c = m_qMessagesOut (hconn h)" "tasks c = tasks (hconn h)"
        "m_nOwnerType c = m_nOwnerType (hconn h)"
      by blast+
    obtain ms x vs ws where "writer_at code ms x vs ws h"
      using assms by (auto simp: writer_live_def)
    with c have "writer_at code ms x vs ws ?h'"
      by (simp add: writer_at_def)
    then have "writer_live code ?h'"
      by (rule writer_liveI) (use True c in simp_all)
    then show ?thesis by (simp add: writer_inv_def)
  qed
  with r show ?thesis by simp
qed

lemma live_update_tasks:
  assumes "writer_live code h" and "pending_sends ts = []"
  shows "writer_live code (h\<lparr>hconn := (hconn h)\<lparr>tasks := tasks (hconn h) @ ts\<rparr>\<rparr>)"
  using assms by (auto simp: writer_live_def writer_at_def no_validation_read_def)

lemma live_send:
  assumes "writer_live code h"
  shows "\<exists>h'. hist_step (AppSend m) h = Inr h' \<and> writer_live code h'"
  using assms by (fastforce simp: writer_live_def writer_at_def no_validation_read_def Send_def)

lemma writer_step:
  assumes "writer_inv code h" and "whole_validation e (hconn h)"
  shows "\<exists>h'. hist_step e h = Inr h' \<and> writer_inv code h'"
proof (cases "writer_live code h")
  case False
  with assms(1) show ?thesis
    using dead_step [of code h e] by (auto simp: writer_inv_def)
next
  case True
  show ?thesis
  proof (cases e)
    case (AppSend m)
    then show ?thesis using live_send [OF True] by (auto simp: writer_inv_def)
  next
    case AppDisconnect
    have "writer_live code (h\<lparr>hconn := Disconnect (hconn h)\<rparr>)"
      using live_update_tasks [OF True, of "[CloseTask]"] True
      by (simp add: Disconnect_def)
    with AppDisconnect show ?thesis by (simp add: writer_inv_def)
  next
    case RunTask
    then show ?thesis using live_run_task [OF True] by simp
  next
    case (Wrote n)
    then show ?thesis using live_wrote [OF True, of n] assms(2) by (auto simp: writer_inv_def)
  next
    case WriteFails
    show ?thesis
    proof (cases "writes (hconn h)")
      case Nil
      with WriteFails assms(1) show ?thesis by (simp add: socket_write_failed_def)
    next
      case (Cons w ws)
      then obtain c where "socket_write_failed (hconn h) = Inr c" "\<not> sock_open c"
        using write_failed_closes by blast
      with WriteFails show ?thesis
        using close_dead [OF True, of c] by (simp add: writer_inv_def)
    qed
  next
    case (Receives bs)
    then show ?thesis using live_receives [OF True] by simp
  next
    case ReadFails
    show ?thesis
    proof (cases "reads (hconn h)")
      case Nil
      with ReadFails assms(1) show ?thesis by (simp add: socket_read_failed_def)
    next
      case (Cons r rs)
      with ReadFails show ?thesis
        using close_dead [OF True read_failed_closes [OF Cons]] by (simp add: writer_inv_def)
    qed
  qed
qed

lemma writer_run:
  assumes "writer_inv code h" and "whole_run es h"
  shows "\<exists>h'. hist_run es h = Inr h' \<and> writer_inv code h'"
  using assms
proof (induction es arbitrary: h)
  case Nil
  then show ?case by simp
next
  case (Cons e es)
  then obtain h' where "hist_step e h = Inr h'" and "writer_inv code h'"
    using writer_step by fastforce
  with Cons show ?case by auto
qed

section \<open>What is read\<close>

text \<open>The bytes of a message as the reader took them off the wire.\<close>

definition wire_of :: "message \<Rightarrow> bytes" where
  "wire_of msg = encode_header (header msg) @ (if hdr_size (header msg) = 0 then [] else body msg)"

text \<open>
  The messages a reader has delivered, given the body \<open>b\<close> its buffer held before: a message
  whose header announces no body carries the body of its predecessor.
\<close>

fun stale_chain :: "bytes \<Rightarrow> message list \<Rightarrow> bool" where
  "stale_chain b [] \<longleftrightarrow> True"
| "stale_chain b (d # ds) \<longleftrightarrow>
     (if hdr_size (header d) = 0 then body d = b
      else length (body d) = unat (hdr_size (header d)))
     \<and> stale_chain (body d) ds"

definition last_body :: "bytes \<Rightarrow> message list \<Rightarrow> bytes" where
  "last_body b ds = (if ds = [] then b else body (last ds))"

lemma stale_chain_append:
  "stale_chain b (ds @ [d]) \<longleftrightarrow> stale_chain b ds
     \<and> (if hdr_size (header d) = 0 then body d = last_body b ds
        else length (body d) = unat (hdr_size (header d)))"
  by (induction ds arbitrary: b) (auto simp: last_body_def)

lemma last_body_append [simp]: "last_body b (ds @ [d]) = body d"
  by (simp add: last_body_def)

text \<open>
  A live reader is between messages, with part of the next header, or inside a body; the bytes
  it has taken are those of the messages delivered and of the part.
\<close>

definition no_validation_write :: "connection \<Rightarrow> bool" where
  "no_validation_write c \<longleftrightarrow>
     m_nOwnerType c = OwnerServer \<or> WriteValidationOp \<notin> fst ` set (writes c)"

definition reader_at :: "bytes \<Rightarrow> connection \<Rightarrow> bytes \<Rightarrow> bytes \<Rightarrow> bool" where
  "reader_at b c taken part \<longleftrightarrow>
     no_validation_write c \<and> stale_chain b (m_qMessagesIn c)
   \<and> taken = concat (map wire_of (m_qMessagesIn c)) @ part
   \<and> ((reads c = [(ReadHeaderOp, 8, part)] \<and> length part < 8
        \<and> body (m_msgBuff c) = last_body b (m_qMessagesIn c))
      \<or> (\<exists>acc. part = encode_header (header (m_msgBuff c)) @ acc
        \<and> hdr_size (header (m_msgBuff c)) > 0
        \<and> length acc < unat (hdr_size (header (m_msgBuff c)))
        \<and> reads c = [(ReadBodyOp, unat (hdr_size (header (m_msgBuff c))), acc)]))"

definition reader_inv :: "bytes \<Rightarrow> history \<Rightarrow> bool" where
  "reader_inv b h \<longleftrightarrow>
     (if sock_open (hconn h) then \<exists>part. reader_at b (hconn h) (got h) part
      else stale_chain b (m_qMessagesIn (hconn h))
        \<and> prefix (concat (map wire_of (m_qMessagesIn (hconn h)))) (got h))"

lemma reader_at_prefix:
  "reader_at b c taken part \<Longrightarrow>
   stale_chain b (m_qMessagesIn c) \<and> prefix (concat (map wire_of (m_qMessagesIn c))) taken"
  by (auto simp: reader_at_def)

lemma reader_inv_prefix:
  "reader_inv b h \<Longrightarrow> stale_chain b (m_qMessagesIn (hconn h))
     \<and> prefix (concat (map wire_of (m_qMessagesIn (hconn h)))) (got h)"
  by (auto simp: reader_inv_def dest: reader_at_prefix split: if_splits)

lemma reader_same:
  assumes "reader_inv b h" and "got h' = got h"
    and "m_qMessagesIn (hconn h') = m_qMessagesIn (hconn h)"
    and "sock_open (hconn h') \<Longrightarrow> sock_open (hconn h)
      \<and> reads (hconn h') = reads (hconn h) \<and> m_msgBuff (hconn h') = m_msgBuff (hconn h)
      \<and> (no_validation_write (hconn h) \<longrightarrow> no_validation_write (hconn h'))"
  shows "reader_inv b h'"
proof (cases "sock_open (hconn h')")
  case True
  then have "reader_at b (hconn h) (got h) part \<Longrightarrow> reader_at b (hconn h') (got h') part" for part
    using assms by (simp add: reader_at_def)
  with assms(1,4) True show ?thesis by (auto simp: reader_inv_def)
next
  case False
  with assms reader_inv_prefix [OF assms(1)] show ?thesis by (auto simp: reader_inv_def)
qed

text \<open>One arrival of bytes.\<close>

lemma header_complete:
  assumes "reader_at b c taken part" and "reads c = [(ReadHeaderOp, 8, part)]"
    and "length (part @ new) = 8" and "sock_open c"
  shows "\<exists>part'. reader_at b (read_done ReadHeaderOp (part @ new) (c\<lparr>reads := []\<rparr>))
    (taken @ new) part'"
proof -
  have h: "encode_header (decode_header (part @ new)) = part @ new"
    using assms(3) by (rule encode_decode_header)
  have p: "body (m_msgBuff c) = last_body b (m_qMessagesIn c)" "stale_chain b (m_qMessagesIn c)"
      "no_validation_write c"
      "taken = concat (map wire_of (m_qMessagesIn c)) @ part"
    using assms(1,2) by (auto simp: reader_at_def)
  show ?thesis
  proof (cases "hdr_size (decode_header (part @ new)) > 0")
    case True
    then have "0 < unat (hdr_size (decode_header (part @ new)))"
      by (simp add: unat_gt_0)
    with True p h show ?thesis
      by (intro exI [of _ "part @ new"]) (simp add: reader_at_def no_validation_write_def handler_defs)
  next
    case False
    then have "hdr_size (decode_header (part @ new)) = 0"
      by (simp add: word_gt_0)
    with p h show ?thesis
      by (intro exI [of _ "[]"])
        (simp add: reader_at_def no_validation_write_def handler_defs push_back_def stale_chain_append wire_of_def
          sizeof_header_def)
  qed
qed

lemma body_complete:
  assumes "reader_at b c taken (encode_header (header (m_msgBuff c)) @ acc)"
    and "reads c = [(ReadBodyOp, n, acc)]" and "length (acc @ new) = n"
  shows "\<exists>part'. reader_at b (read_done ReadBodyOp (acc @ new) (c\<lparr>reads := []\<rparr>))
    (taken @ new) part'"
  using assms
  by (intro exI [of _ "[]"])
    (auto simp: reader_at_def no_validation_write_def handler_defs push_back_def stale_chain_append wire_of_def
      sizeof_header_def)

lemma reader_received:
  assumes "reader_inv b h" and "socket_received bs (hconn h) = (n, c)"
  shows "reader_inv b (h\<lparr>hconn := c, got := got h @ take n bs\<rparr>)"
proof (cases "sock_open (hconn h) \<and> bs \<noteq> []")
  case False
  then have "n = 0" and "c = hconn h"
    using assms(2) by (auto simp: socket_received_def)
  with assms(1) show ?thesis by simp
next
  case True
  let ?c = "hconn h"
  obtain part where r: "reader_at b ?c (got h) part"
    using assms(1) True by (auto simp: reader_inv_def)
  consider (header) "reads ?c = [(ReadHeaderOp, 8, part)]" "length part < 8"
    | (body) acc where "part = encode_header (header (m_msgBuff ?c)) @ acc"
        "reads ?c = [(ReadBodyOp, unat (hdr_size (header (m_msgBuff ?c))), acc)]"
        "length acc < unat (hdr_size (header (m_msgBuff ?c)))"
    using r unfolding reader_at_def by blast
  then show ?thesis
  proof cases
    case header
    let ?new = "take (8 - length part) bs"
    have n: "n = length ?new" and c: "c = (if length (part @ ?new) = 8
        then read_done ReadHeaderOp (part @ ?new) (?c\<lparr>reads := []\<rparr>)
        else ?c\<lparr>reads := [(ReadHeaderOp, 8, part @ ?new)]\<rparr>)"
      using assms(2) True header by (auto simp: socket_received_def Let_def)
    have t: "take n bs = ?new" by (simp only: n take_length_take)
    show ?thesis
    proof (cases "length (part @ ?new) = 8")
      case True
      moreover have "sock_open (read_done ReadHeaderOp (part @ ?new) (?c\<lparr>reads := []\<rparr>))"
        using \<open>sock_open ?c \<and> _\<close> by (simp add: handler_defs)
      ultimately show ?thesis
        using header_complete [OF r header(1)] \<open>sock_open ?c \<and> _\<close> unfolding t
        by (simp add: c reader_inv_def)
    next
      case False
      then have "reader_at b c (got h @ ?new) (part @ ?new)"
        using r header c by (auto simp: reader_at_def no_validation_write_def)
      then show ?thesis
        unfolding t using \<open>sock_open ?c \<and> _\<close> False by (auto simp: reader_inv_def c)
    qed
  next
    case body
    let ?k = "unat (hdr_size (header (m_msgBuff ?c)))"
    let ?new = "take (?k - length acc) bs"
    have n: "n = length ?new" and c: "c = (if length (acc @ ?new) = ?k
        then read_done ReadBodyOp (acc @ ?new) (?c\<lparr>reads := []\<rparr>)
        else ?c\<lparr>reads := [(ReadBodyOp, ?k, acc @ ?new)]\<rparr>)"
      using assms(2) True body by (auto simp: socket_received_def Let_def)
    have t: "take n bs = ?new" by (simp only: n take_length_take)
    show ?thesis
    proof (cases "length (acc @ ?new) = ?k")
      case True
      moreover have "sock_open (read_done ReadBodyOp (acc @ ?new) (?c\<lparr>reads := []\<rparr>))"
        using \<open>sock_open ?c \<and> _\<close> by (simp add: handler_defs)
      ultimately show ?thesis
        using body_complete [OF r [unfolded body(1)] body(2)] \<open>sock_open ?c \<and> _\<close> unfolding t
        by (simp add: c reader_inv_def)
    next
      case False
      then have "length (acc @ ?new) < ?k"
        using body(3) by simp
      then have "reader_at b c (got h @ ?new) (part @ ?new)"
        using r body c by (auto simp: reader_at_def no_validation_write_def)
      then show ?thesis
        unfolding t using \<open>sock_open ?c \<and> _\<close> False by (auto simp: reader_inv_def c)
    qed
  qed
qed

text \<open>Writing changes nothing of what is being read.\<close>

lemma next_message_Nil: "m_qMessagesOut c = [] \<Longrightarrow> next_message c = Inl UndefinedBehaviour"
  by (simp add: next_message_def pop_front_def)

lemma next_message_reader:
  assumes "next_message c = Inr c'"
  shows "reads c' = reads c \<and> m_msgBuff c' = m_msgBuff c
     \<and> m_qMessagesIn c' = m_qMessagesIn c \<and> sock_open c' = sock_open c
     \<and> (no_validation_write c \<longrightarrow> no_validation_write c')"
proof (cases "m_qMessagesOut c")
  case Nil
  with assms show ?thesis by (simp add: next_message_Nil)
next
  case (Cons m q)
  with assms show ?thesis
    by (cases q) (auto simp: next_message_eq [OF Cons] no_validation_write_def)
qed

lemma header_written_Nil:
  "m_qMessagesOut c = [] \<Longrightarrow> header_written False c = Inl UndefinedBehaviour"
  by (simp add: header_written_def q_front_def)

lemma write_done_reader:
  assumes "write_done op error c = Inr c'"
    and "m_nOwnerType c = OwnerServer \<or> op \<noteq> WriteValidationOp"
  shows "reads c' = reads c \<and> m_msgBuff c' = m_msgBuff c \<and> m_qMessagesIn c' = m_qMessagesIn c
    \<and> (sock_open c' \<longrightarrow> sock_open c) \<and> (no_validation_write c \<longrightarrow> no_validation_write c')"
proof (cases op)
  case WriteValidationOp
  with assms show ?thesis
    by (cases error) (auto simp: validation_written_def no_validation_write_def)
next
  case WriteHeaderOp
  show ?thesis
  proof (cases error)
    case True
    with assms WriteHeaderOp show ?thesis
      by (auto simp: header_written_def no_validation_write_def)
  next
    case False
    with assms WriteHeaderOp have r: "header_written False c = Inr c'" by simp
    show ?thesis
    proof (cases "m_qMessagesOut c")
      case Nil
      with r show ?thesis by (simp add: header_written_Nil)
    next
      case (Cons m q)
      with r show ?thesis
        using next_message_reader [of c c']
        by (auto simp: header_written_eq [OF Cons] no_validation_write_def split: if_splits)
    qed
  qed
next
  case WriteBodyOp
  with assms show ?thesis
    using next_message_reader [of c c']
    by (cases error) (auto simp: body_written_def no_validation_write_def)
qed

lemma send_posted_reader:
  assumes "send_posted m c = Inr c'"
  shows "reads c' = reads c \<and> m_msgBuff c' = m_msgBuff c \<and> m_qMessagesIn c' = m_qMessagesIn c
    \<and> sock_open c' = sock_open c \<and> (no_validation_write c \<longrightarrow> no_validation_write c')"
  using assms by (auto simp: send_posted_eq no_validation_write_def split: if_splits)

lemma wrote_reader:
  assumes "socket_wrote n c = Inr (bs, c')" and "sock_open c \<longrightarrow> no_validation_write c"
  shows "reads c' = reads c \<and> m_msgBuff c' = m_msgBuff c \<and> m_qMessagesIn c' = m_qMessagesIn c
    \<and> (sock_open c' \<longrightarrow> sock_open c \<and> no_validation_write c')"
proof (cases "sock_open c \<and> writes c \<noteq> []")
  case False
  with assms show ?thesis by (auto simp: socket_wrote_def split: list.splits)
next
  case True
  then obtain op b ws where w: "writes c = (op, b) # ws" by (cases "writes c") auto
  have nv: "no_validation_write c" using assms(2) True by simp
  show ?thesis
  proof (cases "n < length b")
    case less: True
    with assms(1) True w have "c' = c\<lparr>writes := ws @ [(op, drop n b)]\<rparr>"
      by (auto simp: socket_wrote_def)
    with nv w True show ?thesis by (auto simp: no_validation_write_def)
  next
    case False
    with assms(1) True w have "write_done op False (c\<lparr>writes := ws\<rparr>) = Inr c'"
      by (auto simp: socket_wrote_def faults)
    from write_done_reader [OF this] nv w True show ?thesis
      by (auto simp: no_validation_write_def)
  qed
qed

lemma reader_step:
  assumes "reader_inv b h" and "hist_step e h = Inr h'"
  shows "reader_inv b h'"
proof -
  let ?c = "hconn h"
  have nv: "sock_open ?c \<longrightarrow> no_validation_write ?c"
    using assms(1) by (auto simp: reader_inv_def reader_at_def)
  show ?thesis
  proof (cases e)
    case (Receives bs)
    with assms show ?thesis
      using reader_received [OF assms(1)] by (auto split: prod.splits)
  next
    case (AppSend m)
    with assms show ?thesis
      by (intro reader_same [OF assms(1)]) (auto simp: Send_def no_validation_write_def)
  next
    case AppDisconnect
    with assms show ?thesis
      by (cases "IsConnected ?c"; intro reader_same [OF assms(1)])
        (auto simp: Disconnect_def no_validation_write_def)
  next
    case (Wrote n)
    with assms(2) obtain bs c where c: "socket_wrote n ?c = Inr (bs, c)"
      "h' = h\<lparr>hconn := c, wrote := wrote h @ bs\<rparr>"
      by (auto simp: faults)
    with wrote_reader [OF c(1) nv] show ?thesis
      by (intro reader_same [OF assms(1)]) auto
  next
    case RunTask
    with assms(2) obtain c where c: "run_task ?c = Inr c" "h' = h\<lparr>hconn := c\<rparr>"
      by (auto simp: faults)
    show ?thesis
    proof (cases "tasks ?c")
      case Nil
      with c(1) have "c = ?c" by (simp add: run_task_def)
      then have "h' = h" unfolding c(2) by simp
      with assms(1) show ?thesis by simp
    next
      case (Cons t ts)
      with c show ?thesis
        by (cases t; intro reader_same [OF assms(1)])
          (auto simp: run_task_def no_validation_write_def dest!: send_posted_reader)
    qed
  next
    case WriteFails
    with assms(2) obtain c where c: "socket_write_failed ?c = Inr c" "h' = h\<lparr>hconn := c\<rparr>"
      by (auto simp: faults)
    show ?thesis
    proof (cases "writes ?c")
      case Nil
      with c(1) have "c = ?c" by (simp add: socket_write_failed_def)
      then have "h' = h" unfolding c(2) by simp
      with assms(1) show ?thesis by simp
    next
      case (Cons w ws)
      have "\<not> sock_open c" using write_failed_closes [OF Cons] c(1) by auto
      moreover have "m_qMessagesIn c = m_qMessagesIn ?c"
        using c(1) Cons by (cases w; cases "fst w")
          (auto simp: socket_write_failed_def validation_written_def header_written_def body_written_def)
      ultimately show ?thesis
        using c(2) by (intro reader_same [OF assms(1)]) auto
    qed
  next
    case ReadFails
    show ?thesis
    proof (cases "reads ?c")
      case Nil
      with ReadFails assms show ?thesis by (simp add: socket_read_failed_def)
    next
      case (Cons r rs)
      have "\<not> sock_open (socket_read_failed ?c)" by (rule read_failed_closes [OF Cons])
      moreover have "m_qMessagesIn (socket_read_failed ?c) = m_qMessagesIn ?c"
        using Cons by (cases r; cases "fst r")
          (auto simp: socket_read_failed_def validation_read_def header_read_def body_read_def)
      ultimately show ?thesis
        using ReadFails assms(2) by (intro reader_same [OF assms(1)]) auto
    qed
  qed
qed

lemma reader_run:
  assumes "reader_inv b h" and "hist_run es h = Inr h'"
  shows "reader_inv b h'"
  using assms
proof (induction es arbitrary: h)
  case Nil
  then show ?case by simp
next
  case (Cons e es)
  then show ?case by (auto simp: faults intro: reader_step)
qed

section \<open>From one end to the other\<close>

fun deliver :: "bytes \<Rightarrow> message list \<Rightarrow> message list" where
  "deliver b [] = []"
| "deliver b (m # ms) =
     (let d = (if hdr_size (header m) = 0 then m\<lparr>body := b\<rparr> else m) in d # deliver (body d) ms)"

definition sendable :: "message \<Rightarrow> bool" where
  "sendable m \<longleftrightarrow> wf_msg m \<and> message_size m < 2 ^ 32"

lemma sendable_size: "sendable m \<Longrightarrow> unat (hdr_size (header m)) = length (body m)"
  by (simp add: sendable_def wf_msg_def message_size_def unat_of_nat)

lemma sendable_empty: "sendable m \<Longrightarrow> hdr_size (header m) = 0 \<longleftrightarrow> body m = []"
  using sendable_size [of m] by (metis length_0_conv unat_0 unat_eq_zero)

lemma length_deliver [simp]: "length (deliver b ms) = length ms"
  by (induction ms arbitrary: b) (simp_all add: Let_def)

lemma deliver_with_bodies: "(\<And>m. m \<in> set ms \<Longrightarrow> hdr_size (header m) \<noteq> 0) \<Longrightarrow> deliver b ms = ms"
  by (induction ms arbitrary: b) simp_all

lemma first_message:
  assumes "wire_of d @ y = frame m @ z" and "sendable m"
    and "if hdr_size (header d) = 0 then body d = b else length (body d) = unat (hdr_size (header d))"
  shows "d = (if hdr_size (header m) = 0 then m\<lparr>body := b\<rparr> else m) \<and> y = z"
proof -
  have "encode_header (header d) = encode_header (header m)"
    using arg_cong [OF assms(1), of "take 8"] by (simp add: wire_of_def frame_def)
  then have h: "header d = header m"
    by (metis decode_encode_header)
  then have rest: "(if hdr_size (header m) = 0 then [] else body d) @ y = body m @ z"
    using assms(1) by (simp add: wire_of_def frame_def)
  show ?thesis
  proof (cases "hdr_size (header m) = 0")
    case True
    then have "body d = b" and "y = z"
      using rest assms(3) h sendable_empty [OF assms(2)] by simp_all
    with True h show ?thesis by simp
  next
    case False
    then have "length (body d) = length (body m)"
      using assms(3) h sendable_size [OF assms(2)] by simp
    with False rest have "body d = body m" and "y = z" by simp_all
    with False h show ?thesis by (cases d; cases m) simp
  qed
qed

lemma stale_chain_deliver:
  assumes "stale_chain b ds" and "prefix (concat (map wire_of ds)) (frames ms)"
    and "\<And>m. m \<in> set ms \<Longrightarrow> sendable m"
  shows "length ds \<le> length ms \<and> ds = deliver b (take (length ds) ms)
    \<and> (\<exists>rest. frames ms = concat (map wire_of ds) @ rest
          \<and> rest = frames (drop (length ds) ms))"
  using assms
proof (induction ds arbitrary: b ms)
  case Nil
  then show ?case by simp
next
  case (Cons d ds)
  have len: "length (wire_of d) \<ge> 8" by (simp add: wire_of_def)
  show ?case
  proof (cases ms)
    case Nil
    with Cons.prems(2) len show ?thesis by (auto simp: prefix_def)
  next
    case ms: (Cons m ms')
    obtain z where z: "frames ms = wire_of d @ concat (map wire_of ds) @ z"
      using Cons.prems(2) by (auto simp: prefix_def)
    then have "wire_of d @ concat (map wire_of ds) @ z = frame m @ frames ms'"
      by (simp add: ms frame_def)
    moreover have "sendable m"
      using Cons.prems(3) ms by simp
    moreover have "if hdr_size (header d) = 0 then body d = b
        else length (body d) = unat (hdr_size (header d))"
      using Cons.prems(1) by simp
    ultimately have "d = (if hdr_size (header m) = 0 then m\<lparr>body := b\<rparr> else m)
        \<and> concat (map wire_of ds) @ z = frames ms'"
      by (rule first_message)
    then have d: "d = (if hdr_size (header m) = 0 then m\<lparr>body := b\<rparr> else m)"
      and tl: "concat (map wire_of ds) @ z = frames ms'"
      by simp_all
    have "prefix (concat (map wire_of ds)) (frames ms')"
      using tl by (metis prefixI)
    then have IH: "length ds \<le> length ms' \<and> ds = deliver (body d) (take (length ds) ms')
        \<and> (\<exists>rest. frames ms' = concat (map wire_of ds) @ rest
          \<and> rest = frames (drop (length ds) ms'))"
      using Cons.IH [of "body d" ms'] Cons.prems(1,3) ms by simp
    then have "concat (map wire_of ds) @ z = concat (map wire_of ds) @ frames (drop (length ds) ms')"
      using tl by auto
    then show ?thesis
      using IH d z ms by (simp add: Let_def)
  qed
qed

text \<open>An end that is about to read the first message, and has none of it.\<close>

definition reading :: "connection \<Rightarrow> bool" where
  "reading c \<longleftrightarrow> sock_open c \<and> reads c = [(ReadHeaderOp, 8, [])] \<and> m_qMessagesIn c = []
     \<and> no_validation_write c"

lemma reading_inv: "reading c \<Longrightarrow> reader_inv (body (m_msgBuff c)) (new_history c)"
  unfolding reader_inv_def new_history_def reading_def
  by simp (intro exI [of _ "[]"], simp add: reader_at_def last_body_def)

text \<open>A client's end after the handshake, with nothing sent.\<close>

definition client_ready :: "connection \<Rightarrow> bool" where
  "client_ready c \<longleftrightarrow> reading c \<and> m_nOwnerType c = OwnerClient \<and> writes c = []
     \<and> m_qMessagesOut c = [] \<and> tasks c = []"

text \<open>A server's end as \<^verbatim>\<open>WaitForClientConnection\<close> leaves it, but for what \<^verbatim>\<open>OnClientConnect\<close> sent.\<close>

definition accepted :: "u32 \<Rightarrow> u64 \<Rightarrow> connection" where
  "accepted uid now = ConnectToClient uid (make_connection OwnerServer now True)"

lemma client_ready_live: "client_ready c \<Longrightarrow> writer_live [] (new_history c)"
  by (rule writer_liveI [of "[]" "[]" "[]" "[]" "[]"])
    (auto simp: client_ready_def reading_def writer_at_def new_history_def msg_writes_def
      no_validation_read_def)

lemma accepted_live: "writer_live (le64 now) (new_history (accepted uid now))"
  by (rule writer_liveI [of "le64 now" "[]" "[]" "[(WriteValidationOp, le64 now)]" "[]"])
    (auto simp: accepted_def writer_at_def new_history_def msg_writes_def no_validation_read_def
      make_connection_def handler_defs)

text \<open>What \<^verbatim>\<open>OnClientConnect\<close> sends before the handshake is as if sent right after it began.\<close>

lemma accepted_send:
  "ConnectToClient uid (Send m (make_connection OwnerServer now True)) = Send m (accepted uid now)"
  by (simp add: accepted_def ConnectToClient_def Send_def make_connection_def WriteValidation_def
      ReadValidation_def start_write_def start_read_def)

section \<open>A client never has a validation code to write after the handshake\<close>

lemma write_done_owner:
  "write_done op error c = Inr c' \<Longrightarrow> m_nOwnerType c' = m_nOwnerType c"
proof (cases op)
  case WriteValidationOp
  assume "write_done op error c = Inr c'"
  with WriteValidationOp show ?thesis
    by (cases error) (auto simp: validation_written_def ReadHeader_def)
next
  case WriteHeaderOp
  assume w: "write_done op error c = Inr c'"
  show ?thesis
  proof (cases error)
    case True
    with w WriteHeaderOp show ?thesis by (auto simp: header_written_def)
  next
    case False
    with w WriteHeaderOp have r: "header_written False c = Inr c'" by simp
    then obtain m q where q: "m_qMessagesOut c = m # q"
      by (cases "m_qMessagesOut c") (auto simp: header_written_Nil)
    with r show ?thesis
      by (auto simp: header_written_eq [OF q] next_message_eq [OF q] split: if_splits)
  qed
next
  case WriteBodyOp
  assume w: "write_done op error c = Inr c'"
  show ?thesis
  proof (cases error)
    case True
    with w WriteBodyOp show ?thesis by (auto simp: body_written_def)
  next
    case False
    with w WriteBodyOp have r: "next_message c = Inr c'" by (simp add: body_written_def)
    then obtain m q where q: "m_qMessagesOut c = m # q"
      by (cases "m_qMessagesOut c") (auto simp: next_message_Nil)
    with r show ?thesis by (auto simp: next_message_eq [OF q])
  qed
qed

lemma read_done_owner: "m_nOwnerType (read_done op bs c) = m_nOwnerType c"
  by (cases op) (simp_all add: handler_defs)

lemma received_owner: "m_nOwnerType (snd (socket_received bs c)) = m_nOwnerType c"
  by (auto simp: socket_received_def Let_def read_done_owner simp del: read_done.simps
      split: list.split)

lemma hist_step_owner:
  assumes "hist_step e h = Inr h'"
  shows "m_nOwnerType (hconn h') = m_nOwnerType (hconn h)"
proof (cases e)
  case (AppSend m)
  with assms show ?thesis by (auto simp: Send_def)
next
  case AppDisconnect
  with assms show ?thesis by (auto simp: Disconnect_def)
next
  case RunTask
  with assms show ?thesis
    by (auto simp: faults run_task_def send_posted_eq split: list.splits task.splits if_splits)
next
  case (Wrote n)
  then obtain bs c where c: "socket_wrote n (hconn h) = Inr (bs, c)" "hconn h' = c"
    using assms by (auto simp: faults)
  have "m_nOwnerType c = m_nOwnerType (hconn h)"
  proof (cases "sock_open (hconn h) \<and> writes (hconn h) \<noteq> []")
    case True
    then obtain op b ws where "writes (hconn h) = (op, b) # ws" by (cases "writes (hconn h)") auto
    with c(1) True show ?thesis
      by (cases "n < length b") (auto simp: socket_wrote_def faults dest!: write_done_owner)
  qed (use c(1) in \<open>auto simp: socket_wrote_def split: list.splits\<close>)
  with c(2) show ?thesis by simp
next
  case WriteFails
  then obtain c where "socket_write_failed (hconn h) = Inr c" "hconn h' = c"
    using assms by (auto simp: faults)
  then show ?thesis
    by (auto simp: socket_write_failed_def split: list.splits dest: write_done_owner)
next
  case (Receives bs)
  then obtain n c where "socket_received bs (hconn h) = (n, c)" "hconn h' = c"
    using assms by (auto split: prod.splits)
  then show ?thesis
    using received_owner [of bs "hconn h"] by simp
next
  case ReadFails
  with assms show ?thesis
    by (auto simp: socket_read_failed_def handler_defs split: list.splits read_op.splits)
qed

lemma client_run:
  assumes "writer_inv code h" and "m_nOwnerType (hconn h) = OwnerClient"
  shows "\<exists>h'. hist_run es h = Inr h' \<and> writer_inv code h'"
  using assms
proof (induction es arbitrary: h)
  case Nil
  then show ?case by simp
next
  case (Cons e es)
  have "\<exists>h'. hist_step e h = Inr h' \<and> writer_inv code h'"
  proof (cases "writer_live code h")
    case True
    then obtain ms x ws where "writer_at code ms x [] ws h"
      using Cons.prems(2) by (auto simp: writer_live_def writer_at_def)
    then have "whole_validation e (hconn h)"
      by (cases e) (auto simp: writer_at_def msg_writes_def)
    with Cons.prems(1) show ?thesis by (rule writer_step)
  next
    case False
    with Cons.prems(1) show ?thesis
      using dead_step [of code h e] by (auto simp: writer_inv_def)
  qed
  then obtain h' where "hist_step e h = Inr h'" "writer_inv code h'" by blast
  with Cons show ?case using hist_step_owner by fastforce
qed

lemma prefix_drop_head:
  assumes "prefix w (c @ x)" and "length c = n"
  shows "prefix (drop n w) x"
proof (cases "length w < n")
  case False
  obtain z where "c @ x = w @ z" using assms(1) by (auto simp: prefix_def)
  from arg_cong [OF this, of "drop n"] False assms(2) have "x = drop n w @ z" by simp
  then show ?thesis by simp
qed simp

lemma reader_prefix:
  assumes "reading c" and "hist_run es (new_history c) = Inr h"
    and "prefix (got h) (frames ms)" and "\<forall>m \<in> set ms. sendable m"
  shows "\<exists>n \<le> length ms. m_qMessagesIn (hconn h) = deliver (body (m_msgBuff c)) (take n ms)"
proof -
  let ?ds = "m_qMessagesIn (hconn h)"
  have "reader_inv (body (m_msgBuff c)) h"
    using reader_run [OF reading_inv [OF assms(1)] assms(2)] .
  from reader_inv_prefix [OF this]
  have "stale_chain (body (m_msgBuff c)) ?ds" and "prefix (concat (map wire_of ?ds)) (frames ms)"
    using assms(3) prefix_order.trans by auto
  then show ?thesis
    using stale_chain_deliver [of "body (m_msgBuff c)" ?ds ms] assms(4) by blast
qed

lemma hist_run_append: "hist_run (es @ es') h = and_then (hist_run es h) (hist_run es')"
proof (induction es arbitrary: h)
  case (Cons e es)
  then show ?case by (cases "hist_step e h") simp_all
qed simp

lemma closed_run:
  assumes "\<not> sock_open (hconn h)"
  shows "\<exists>h'. hist_run es h = Inr h' \<and> \<not> sock_open (hconn h') \<and> wrote h' = wrote h \<and> got h' = got h"
  using assms
proof (induction es arbitrary: h)
  case Nil
  then show ?case by simp
next
  case (Cons e es)
  then show ?case using closed_step [OF Cons.prems, of e] by fastforce
qed

section \<open>What is written when the code is taken in parts\<close>

text \<open>
  Without the condition on the validation code, the bytes of the code and those of the messages may
  be mixed: the two writes in flight take turns, each in its own order.
\<close>

lemma shuffles_append1: "zs \<in> shuffles xs ys \<Longrightarrow> zs @ us \<in> shuffles (xs @ us) ys"
proof (induction xs ys arbitrary: zs rule: shuffles.induct)
  case (1 ys)
  have "ys @ us \<in> shuffles us ys"
    by (induction ys) (auto intro: Cons_in_shuffles_rightI simp: shuffles_commutes)
  with 1 show ?case by simp
next
  case (2 xs)
  then show ?case by simp
next
  case (3 x xs y ys)
  then consider (left) zs' where "zs = x # zs'" "zs' \<in> shuffles xs (y # ys)"
    | (right) zs' where "zs = y # zs'" "zs' \<in> shuffles (x # xs) ys"
    by auto
  then show ?case
  proof cases
    case left
    with 3(1) show ?thesis by (auto intro: Cons_in_shuffles_leftI)
  next
    case right
    with 3(2) show ?thesis by (auto intro: Cons_in_shuffles_rightI)
  qed
qed

lemma shuffles_append2: "zs \<in> shuffles xs ys \<Longrightarrow> zs @ us \<in> shuffles xs (ys @ us)"
  using shuffles_append1 [of zs ys xs us] by (simp add: shuffles_commutes)

definition mixed_at ::
    "bytes \<Rightarrow> message list \<Rightarrow> bytes \<Rightarrow> bytes \<Rightarrow> (write_op \<times> bytes) list \<Rightarrow> (write_op \<times> bytes) list
      \<Rightarrow> history \<Rightarrow> bool"
where
  "mixed_at code ms a x vs ws h \<longleftrightarrow>
     sent h = ms @ m_qMessagesOut (hconn h) @ pending_sends (tasks (hconn h))
   \<and> (writes (hconn h) = vs @ ws \<or> writes (hconn h) = ws @ vs)
   \<and> (vs = [] \<and> a = code \<or> (\<exists>v. vs = [(WriteValidationOp, v)] \<and> a @ v = code))
   \<and> wrote h \<in> shuffles a x
   \<and> msg_writes ms x ws (m_qMessagesOut (hconn h))"

definition mixed_live :: "bytes \<Rightarrow> history \<Rightarrow> bool" where
  "mixed_live code h \<longleftrightarrow> sock_open (hconn h) \<and> m_nOwnerType (hconn h) = OwnerServer
     \<and> (\<exists>ms a x vs ws. mixed_at code ms a x vs ws h)"

lemma mixed_liveI:
  "mixed_at code ms a x vs ws h \<Longrightarrow> sock_open (hconn h) \<Longrightarrow> m_nOwnerType (hconn h) = OwnerServer \<Longrightarrow>
   mixed_live code h"
  unfolding mixed_live_def by blast

definition mixed_wrote :: "bytes \<Rightarrow> history \<Rightarrow> bool" where
  "mixed_wrote code h \<longleftrightarrow>
     (\<exists>a b. prefix a code \<and> prefix b (frames (sent h)) \<and> wrote h \<in> shuffles a b)"

definition mixed_inv :: "bytes \<Rightarrow> history \<Rightarrow> bool" where
  "mixed_inv code h \<longleftrightarrow> mixed_live code h \<or> \<not> sock_open (hconn h) \<and> mixed_wrote code h"

lemma mixed_live_wrote: "mixed_live code h \<Longrightarrow> mixed_wrote code h"
proof -
  assume "mixed_live code h"
  then obtain ms a x vs ws where m: "mixed_at code ms a x vs ws h"
    by (auto simp: mixed_live_def)
  then have "prefix x (frames (ms @ m_qMessagesOut (hconn h)))"
    by (auto simp: mixed_at_def dest: msg_writes_prefix)
  then have "prefix x (frames (sent h))"
    using m by (simp add: mixed_at_def) (metis append.assoc prefix_prefix)
  moreover have "prefix a code" using m by (auto simp: mixed_at_def)
  ultimately show ?thesis using m by (auto simp: mixed_wrote_def mixed_at_def)
qed

lemma mixed_inv_wrote: "mixed_inv code h \<Longrightarrow> mixed_wrote code h"
  using mixed_live_wrote by (auto simp: mixed_inv_def)

lemma mixed_closed:
  assumes "mixed_wrote code h" and "\<not> sock_open (hconn h')"
    and "wrote h' = wrote h" and "sent h' = sent h @ ms"
  shows "mixed_inv code h'"
proof -
  obtain a b where "prefix a code" "prefix b (frames (sent h))" "wrote h \<in> shuffles a b"
    using assms(1) by (auto simp: mixed_wrote_def)
  moreover from this(2) have "prefix b (frames (sent h'))"
    using assms(4) by (simp add: prefix_prefix)
  ultimately show ?thesis using assms(2,3) by (auto simp: mixed_inv_def mixed_wrote_def)
qed

lemma mixed_run_task:
  assumes "mixed_live code h"
  shows "\<exists>h'. hist_step RunTask h = Inr h' \<and> mixed_inv code h'"
proof (cases "tasks (hconn h)")
  case Nil
  with assms show ?thesis by (simp add: run_task_def mixed_inv_def)
next
  case (Cons t ts)
  show ?thesis
  proof (cases t)
    case CloseTask
    let ?h' = "h\<lparr>hconn := close_socket ((hconn h)\<lparr>tasks := ts\<rparr>)\<rparr>"
    have "mixed_inv code ?h'"
      by (rule mixed_closed [OF mixed_live_wrote [OF assms], of _ "[]"]) simp_all
    with Cons CloseTask show ?thesis by (simp add: run_task_def)
  next
    case (SendTask m)
    let ?c = "hconn h"
    obtain ms a x vs ws where w: "mixed_at code ms a x vs ws h"
      using assms by (auto simp: mixed_live_def)
    let ?ws = "if m_qMessagesOut ?c = [] then writes ?c @ [(WriteHeaderOp, encode_header (header m))]
      else writes ?c"
    let ?ws' = "if m_qMessagesOut ?c = [] then [(WriteHeaderOp, encode_header (header m))] else ws"
    let ?c' = "?c\<lparr>tasks := ts, m_qMessagesOut := m_qMessagesOut ?c @ [m], writes := ?ws\<rparr>"
    have run: "hist_step RunTask h = Inr (h\<lparr>hconn := ?c'\<rparr>)"
      using Cons SendTask by (simp add: run_task_def send_posted_eq)
    have mw: "msg_writes ms x ws (m_qMessagesOut ?c)" and "writes ?c = vs @ ws \<or> writes ?c = ws @ vs"
      using w by (simp_all add: mixed_at_def)
    then have "?ws = vs @ ?ws' \<or> ?ws = ?ws' @ vs" by (auto simp: msg_writes_def)
    moreover have "msg_writes ms x ?ws' (m_qMessagesOut ?c @ [m])"
      using msg_writes_push [OF mw] by simp
    ultimately have "mixed_at code ms a x vs ?ws' (h\<lparr>hconn := ?c'\<rparr>)"
      using w Cons SendTask by (auto simp: mixed_at_def)
    then have "mixed_live code (h\<lparr>hconn := ?c'\<rparr>)"
      by (rule mixed_liveI) (use assms in \<open>simp_all add: mixed_live_def\<close>)
    with run show ?thesis by (simp add: mixed_inv_def)
  qed
qed

text \<open>The write of the code is at the head.\<close>

lemma mixed_wrote_code:
  assumes "mixed_at code ms a x [(WriteValidationOp, v)] ws h"
    and "writes (hconn h) = (WriteValidationOp, v) # ws"
    and "sock_open (hconn h)" and "m_nOwnerType (hconn h) = OwnerServer"
  shows "\<exists>h'. hist_step (Wrote n) h = Inr h' \<and> mixed_live code h'"
proof -
  let ?c = "hconn h"
  have m: "sent h = ms @ m_qMessagesOut ?c @ pending_sends (tasks ?c)" "a @ v = code"
      "wrote h \<in> shuffles a x" "msg_writes ms x ws (m_qMessagesOut ?c)"
    using assms(1) by (auto simp: mixed_at_def)
  show ?thesis
  proof (cases "n < length v")
    case True
    let ?h' = "h\<lparr>hconn := ?c\<lparr>writes := ws @ [(WriteValidationOp, drop n v)]\<rparr>, wrote := wrote h @ take n v\<rparr>"
    have "hist_step (Wrote n) h = Inr ?h'"
      using assms(2,3) True by (simp add: socket_wrote_def)
    moreover have "mixed_at code ms (a @ take n v) x [(WriteValidationOp, drop n v)] ws ?h'"
      using m shuffles_append1 by (simp add: mixed_at_def)
    then have "mixed_live code ?h'" by (rule mixed_liveI) (use assms in simp_all)
    ultimately show ?thesis by blast
  next
    case False
    let ?h' = "h\<lparr>hconn := ?c\<lparr>writes := ws\<rparr>, wrote := wrote h @ v\<rparr>"
    have "hist_step (Wrote n) h = Inr ?h'"
      using assms(2-4) False by (simp add: socket_wrote_def validation_written_def)
    moreover have "mixed_at code ms (a @ v) x [] ws ?h'"
      using m shuffles_append1 [OF m(3), of v] by (simp add: mixed_at_def)
    then have "mixed_live code ?h'" by (rule mixed_liveI) (use assms in simp_all)
    ultimately show ?thesis by blast
  qed
qed

text \<open>The write of a header or a body is at the head, the one of the code (\<open>vs\<close>) maybe behind it.\<close>

lemma mixed_wrote_message:
  assumes "mixed_at code ms a x vs [(op, bs)] h" and "writes (hconn h) = (op, bs) # vs"
    and "sock_open (hconn h)" and "m_nOwnerType (hconn h) = OwnerServer"
  shows "\<exists>h'. hist_step (Wrote n) h = Inr h' \<and> mixed_live code h'"
proof -
  let ?c = "hconn h" and ?c' = "(hconn h)\<lparr>writes := vs\<rparr>"
  have s: "sent h = ms @ m_qMessagesOut ?c @ pending_sends (tasks ?c)"
    and v: "vs = [] \<and> a = code \<or> (\<exists>v. vs = [(WriteValidationOp, v)] \<and> a @ v = code)"
    and sh: "wrote h \<in> shuffles a x" and m: "msg_writes ms x [(op, bs)] (m_qMessagesOut ?c)"
    using assms(1) by (simp_all add: mixed_at_def)
  from m obtain m' q where q: "m_qMessagesOut ?c = m' # q"
    and op: "op = WriteHeaderOp \<and> x @ bs = frames ms @ encode_header (header m')
      \<or> op = WriteBodyOp \<and> x @ bs = frames ms @ encode_header (header m') @ body m'"
    by (auto simp: msg_writes_def)
  show ?thesis
  proof (cases "n < length bs")
    case True
    let ?h' = "h\<lparr>hconn := ?c\<lparr>writes := vs @ [(op, drop n bs)]\<rparr>, wrote := wrote h @ take n bs\<rparr>"
    have "hist_step (Wrote n) h = Inr ?h'"
      using assms(2,3) True by (simp add: socket_wrote_def)
    moreover have "msg_writes ms (x @ take n bs) [(op, drop n bs)] (m_qMessagesOut ?c)"
      using m by (auto simp: msg_writes_def)
    then have "mixed_at code ms a (x @ take n bs) vs [(op, drop n bs)] ?h'"
      using s v sh shuffles_append2 by (simp add: mixed_at_def)
    then have "mixed_live code ?h'" by (rule mixed_liveI) (use assms in simp_all)
    ultimately show ?thesis by blast
  next
    case False
    then have run: "socket_wrote n ?c = and_then (write_done op False ?c') (\<lambda>c'. Inr (bs, c'))"
      using assms(2,3) by (simp add: socket_wrote_def)
    have sh': "wrote h @ bs \<in> shuffles a (x @ bs)" by (rule shuffles_append2 [OF sh])
    show ?thesis
    proof (cases "op = WriteHeaderOp \<and> body m' \<noteq> []")
      case True
      let ?h' = "h\<lparr>hconn := ?c'\<lparr>writes := vs @ [(WriteBodyOp, body m')]\<rparr>, wrote := wrote h @ bs\<rparr>"
      have "hist_step (Wrote n) h = Inr ?h'"
        using run True q by (simp add: header_written_eq)
      moreover have "mixed_at code ms a (x @ bs) vs [(WriteBodyOp, body m')] ?h'"
        using s v sh' q op True by (auto simp: mixed_at_def msg_writes_def)
      then have "mixed_live code ?h'" by (rule mixed_liveI) (use assms in simp_all)
      ultimately show ?thesis by blast
    next
      case False
      let ?ws = "case q of [] \<Rightarrow> [] | m'' # _ \<Rightarrow> [(WriteHeaderOp, encode_header (header m''))]"
      let ?h' = "h\<lparr>hconn := ?c'\<lparr>m_qMessagesOut := q, writes := vs @ ?ws\<rparr>, wrote := wrote h @ bs\<rparr>"
      have "hist_step (Wrote n) h = Inr ?h'"
        using run op q False by (auto simp: header_written_eq next_message_eq body_written_def)
      moreover have "x @ bs = frames (ms @ [m'])" using op False by auto
      then have "msg_writes (ms @ [m']) (x @ bs) ?ws q" by (rule msg_writes_next)
      then have "mixed_at code (ms @ [m']) a (x @ bs) vs ?ws ?h'"
        using s v sh' q by (simp add: mixed_at_def)
      then have "mixed_live code ?h'" by (rule mixed_liveI) (use assms in simp_all)
      ultimately show ?thesis by blast
    qed
  qed
qed

lemma mixed_step_wrote:
  assumes "mixed_live code h"
  shows "\<exists>h'. hist_step (Wrote n) h = Inr h' \<and> mixed_live code h'"
proof -
  let ?c = "hconn h"
  obtain ms a x vs ws where w: "mixed_at code ms a x vs ws h"
    and o: "sock_open ?c" "m_nOwnerType ?c = OwnerServer"
    using assms by (auto simp: mixed_live_def)
  have ws: "ws = [] \<or> (\<exists>op bs. ws = [(op, bs)])"
    using w by (auto simp: mixed_at_def msg_writes_def)
  have wr: "writes ?c = vs @ ws \<or> writes ?c = ws @ vs"
    and vs: "vs = [] \<or> (\<exists>v. vs = [(WriteValidationOp, v)])"
    using w by (auto simp: mixed_at_def)
  consider (none) "writes ?c = []"
    | (code) v where "vs = [(WriteValidationOp, v)]" "writes ?c = (WriteValidationOp, v) # ws"
    | (message) op bs where "ws = [(op, bs)]" "writes ?c = (op, bs) # vs"
  proof (cases "vs = []")
    case True
    with ws wr none message show thesis by auto
  next
    case False
    then obtain v where v: "vs = [(WriteValidationOp, v)]" using vs by blast
    show thesis
    proof (cases "writes ?c = vs @ ws")
      case True
      with v code show thesis by simp
    next
      case False
      with wr v have "ws \<noteq> []" "writes ?c = ws @ vs" by auto
      with ws message show thesis by auto
    qed
  qed
  then show ?thesis
  proof cases
    case none
    with assms o show ?thesis by (simp add: socket_wrote_def)
  next
    case code
    with mixed_wrote_code [of code ms a x v ws h n] w o show ?thesis by simp
  next
    case message
    with mixed_wrote_message [of code ms a x vs op bs h n] w o show ?thesis by simp
  qed
qed

lemma mixed_receives:
  assumes "mixed_live code h"
  shows "\<exists>h'. hist_step (Receives bs) h = Inr h' \<and> mixed_inv code h'"
proof -
  obtain n c where r: "socket_received bs (hconn h) = (n, c)"
    by (cases "socket_received bs (hconn h)")
  let ?h' = "h\<lparr>hconn := c, got := got h @ take n bs\<rparr>"
  have "mixed_inv code ?h'"
  proof (cases "sock_open c")
    case False
    then show ?thesis
      by (intro mixed_closed [OF mixed_live_wrote [OF assms], of _ "[]"]) simp_all
  next
    case True
    have "no_validation_read (hconn h)"
      using assms by (simp add: mixed_live_def no_validation_read_def)
    from received_writer [OF r this True]
    have c: "writes c = writes (hconn h)" "m_qMessagesOut c = m_qMessagesOut (hconn h)"
        "tasks c = tasks (hconn h)" "m_nOwnerType c = m_nOwnerType (hconn h)"
      by blast+
    obtain ms a x vs ws where "mixed_at code ms a x vs ws h"
      using assms by (auto simp: mixed_live_def)
    with c have "mixed_at code ms a x vs ws ?h'" by (simp add: mixed_at_def)
    then have "mixed_live code ?h'"
      by (rule mixed_liveI) (use True c assms in \<open>simp_all add: mixed_live_def\<close>)
    then show ?thesis by (simp add: mixed_inv_def)
  qed
  with r show ?thesis by simp
qed

lemma mixed_step:
  assumes "mixed_inv code h"
  shows "\<exists>h'. hist_step e h = Inr h' \<and> mixed_inv code h'"
proof (cases "sock_open (hconn h)")
  case False
  then obtain h' ms where "hist_step e h = Inr h'" "\<not> sock_open (hconn h')" "wrote h' = wrote h"
      "sent h' = sent h @ ms"
    using closed_step [of h e] by blast
  then show ?thesis using mixed_closed [OF mixed_inv_wrote [OF assms]] by blast
next
  case True
  then have live: "mixed_live code h" using assms by (simp add: mixed_inv_def)
  note closes = mixed_closed [OF mixed_live_wrote [OF live], of _ "[]"]
  obtain ms a x vs ws where w: "mixed_at code ms a x vs ws h"
    using live by (auto simp: mixed_live_def)
  show ?thesis
  proof (cases e)
    case (AppSend m)
    have "mixed_at code ms a x vs ws (h\<lparr>hconn := Send m (hconn h), sent := sent h @ [m]\<rparr>)"
      using w by (auto simp: mixed_at_def Send_def)
    then have "mixed_live code (h\<lparr>hconn := Send m (hconn h), sent := sent h @ [m]\<rparr>)"
      by (rule mixed_liveI) (use live in \<open>simp_all add: mixed_live_def Send_def\<close>)
    with AppSend show ?thesis by (simp add: mixed_inv_def)
  next
    case AppDisconnect
    have "mixed_at code ms a x vs ws (h\<lparr>hconn := Disconnect (hconn h)\<rparr>)"
      using w by (auto simp: mixed_at_def Disconnect_def)
    then have "mixed_live code (h\<lparr>hconn := Disconnect (hconn h)\<rparr>)"
      by (rule mixed_liveI) (use live in \<open>simp_all add: mixed_live_def Disconnect_def\<close>)
    with AppDisconnect show ?thesis by (simp add: mixed_inv_def)
  next
    case RunTask
    then show ?thesis using mixed_run_task [OF live] by simp
  next
    case (Wrote n)
    then show ?thesis using mixed_step_wrote [OF live, of n] by (auto simp: mixed_inv_def)
  next
    case WriteFails
    show ?thesis
    proof (cases "writes (hconn h)")
      case Nil
      with WriteFails assms show ?thesis by (simp add: socket_write_failed_def)
    next
      case (Cons b bs)
      then obtain c where c: "socket_write_failed (hconn h) = Inr c" "\<not> sock_open c"
        using write_failed_closes by blast
      with WriteFails closes [of "h\<lparr>hconn := c\<rparr>"] show ?thesis by simp
    qed
  next
    case (Receives bs)
    then show ?thesis using mixed_receives [OF live] by simp
  next
    case ReadFails
    show ?thesis
    proof (cases "reads (hconn h)")
      case Nil
      with ReadFails assms show ?thesis by (simp add: socket_read_failed_def)
    next
      case (Cons r rs)
      have "\<not> sock_open (socket_read_failed (hconn h))" by (rule read_failed_closes [OF Cons])
      with ReadFails closes [of "h\<lparr>hconn := socket_read_failed (hconn h)\<rparr>"] show ?thesis by simp
    qed
  qed
qed

lemma mixed_run:
  assumes "mixed_inv code h"
  shows "\<exists>h'. hist_run es h = Inr h' \<and> mixed_inv code h'"
  using assms
proof (induction es arbitrary: h)
  case Nil
  then show ?case by simp
next
  case (Cons e es)
  then obtain h' where "hist_step e h = Inr h'" "mixed_inv code h'"
    using mixed_step by blast
  with Cons.IH [of h'] show ?case by simp
qed

lemma accepted_mixed: "mixed_inv (le64 now) (new_history (accepted uid now))"
proof -
  have "mixed_at (le64 now) [] [] [] [(WriteValidationOp, le64 now)] [] (new_history (accepted uid now))"
    by (simp add: accepted_def mixed_at_def new_history_def msg_writes_def make_connection_def handler_defs)
  then have "mixed_live (le64 now) (new_history (accepted uid now))"
    by (rule mixed_liveI) (simp_all add: accepted_def new_history_def make_connection_def handler_defs)
  then show ?thesis by (simp add: mixed_inv_def)
qed

section \<open>The answer to the validation code\<close>

text \<open>
  Until the first bytes arrive, an open server's end waits for the answer, whatever is sent and
  written meanwhile.
\<close>

definition awaiting :: "u64 \<Rightarrow> connection \<Rightarrow> bool" where
  "awaiting now c \<longleftrightarrow> m_nOwnerType c = OwnerServer \<and> reads c = [(ReadValidationOp, 8, [])]
     \<and> Validaton_code_in c = 0 \<and> Validaton_code_sum c = Scramble now
     \<and> m_qMessagesIn c = [] \<and> OnClientValidated_calls c = 0"

lemma first_taken:
  "awaiting now c \<Longrightarrow> sock_open c \<Longrightarrow> v \<noteq> [] \<Longrightarrow>
   socket_received v c = (length (take 8 v), read_done ReadValidationOp (take 8 v) (c\<lparr>reads := []\<rparr>))"
  by (simp add: awaiting_def socket_received_def)

definition code_fields :: "connection \<Rightarrow> u64 \<times> u64 \<times> nat" where
  "code_fields c = (Validaton_code_in c, Validaton_code_sum c, OnClientValidated_calls c)"

lemma next_message_code: "next_message c = Inr c' \<Longrightarrow> code_fields c' = code_fields c"
  by (cases "m_qMessagesOut c") (auto simp: next_message_Nil next_message_eq code_fields_def)

lemma write_done_code:
  assumes "write_done op error c = Inr c'"
  shows "code_fields c' = code_fields c"
proof (cases op)
  case WriteValidationOp
  with assms show ?thesis
    by (cases error) (auto simp: validation_written_def ReadHeader_def code_fields_def)
next
  case WriteHeaderOp
  show ?thesis
  proof (cases error)
    case True
    with assms WriteHeaderOp show ?thesis by (auto simp: header_written_def code_fields_def)
  next
    case False
    with assms WriteHeaderOp have r: "header_written False c = Inr c'" by simp
    then obtain m q where q: "m_qMessagesOut c = m # q"
      by (cases "m_qMessagesOut c") (auto simp: header_written_Nil)
    with r next_message_code [of c c'] show ?thesis
      by (auto simp: header_written_eq [OF q] code_fields_def split: if_splits)
  qed
next
  case WriteBodyOp
  with assms next_message_code [of c c'] show ?thesis
    by (cases error) (auto simp: body_written_def code_fields_def)
qed

lemma wrote_awaiting:
  assumes "socket_wrote n c = Inr (bs, c')" and "awaiting now c"
  shows "awaiting now c'"
proof (cases "sock_open c \<and> writes c \<noteq> []")
  case False
  with assms show ?thesis by (auto simp: socket_wrote_def split: list.splits)
next
  case True
  then obtain op b ws where w: "writes c = (op, b) # ws" by (cases "writes c") auto
  show ?thesis
  proof (cases "n < length b")
    case less: True
    with assms(1) True w have "c' = c\<lparr>writes := ws @ [(op, drop n b)]\<rparr>"
      by (auto simp: socket_wrote_def)
    with assms(2) show ?thesis by (simp add: awaiting_def)
  next
    case False
    with assms(1) True w have d: "write_done op False (c\<lparr>writes := ws\<rparr>) = Inr c'"
      by (auto simp: socket_wrote_def faults)
    have "m_nOwnerType (c\<lparr>writes := ws\<rparr>) = OwnerServer" using assms(2) by (simp add: awaiting_def)
    with write_done_code [OF d] write_done_reader [OF d] write_done_owner [OF d] assms(2)
    show ?thesis by (simp add: awaiting_def code_fields_def)
  qed
qed

lemma awaiting_step:
  assumes "hist_step e h = Inr h'" and "sock_open (hconn h')" and "got h' = []"
    and "awaiting now (hconn h)"
  shows "awaiting now (hconn h')"
proof -
  let ?c = "hconn h"
  have o: "sock_open ?c" using closed_step [of h e] assms(1,2) by auto
  show ?thesis
  proof (cases e)
    case (AppSend m)
    with assms show ?thesis by (auto simp: Send_def awaiting_def)
  next
    case AppDisconnect
    with assms show ?thesis by (auto simp: Disconnect_def awaiting_def)
  next
    case RunTask
    with assms show ?thesis
      by (auto simp: faults run_task_def send_posted_eq awaiting_def
          split: list.splits task.splits if_splits)
  next
    case (Wrote n)
    then obtain bs c where "socket_wrote n ?c = Inr (bs, c)" "hconn h' = c"
      using assms(1) by (auto simp: faults)
    with wrote_awaiting assms(4) show ?thesis by blast
  next
    case WriteFails
    then have "writes ?c = []"
      using write_failed_closes assms(1,2) by (cases "writes ?c") (fastforce simp: faults)+
    with WriteFails assms show ?thesis by (auto simp: socket_write_failed_def)
  next
    case (Receives bs)
    have "bs = []"
    proof (rule ccontr)
      assume bs: "bs \<noteq> []"
      obtain n c where nc: "socket_received bs ?c = (n, c)" by (cases "socket_received bs ?c")
      have "n = length (take 8 bs)"
        using first_taken [OF assms(4) o bs] nc by simp
      moreover have "take n bs = []" using Receives assms(1,3) nc by auto
      ultimately show False using bs by (cases bs) auto
    qed
    with Receives assms show ?thesis by (auto simp: socket_received_def)
  next
    case ReadFails
    then have "\<not> sock_open (hconn h')"
      using read_failed_closes [of ?c] assms(1,4) by (auto simp: awaiting_def)
    with assms(2) show ?thesis by simp
  qed
qed

lemma got_grows: "hist_step e h = Inr h' \<Longrightarrow> prefix (got h) (got h')"
  by (cases e) (auto simp: faults split: prod.splits)

lemma awaiting_run:
  assumes "hist_run es h = Inr h'" and "sock_open (hconn h')" and "got h' = []"
    and "awaiting now (hconn h)"
  shows "awaiting now (hconn h')"
  using assms
proof (induction es arbitrary: h)
  case Nil
  then show ?case by simp
next
  case (Cons e es)
  then obtain h1 where h1: "hist_step e h = Inr h1" "hist_run es h1 = Inr h'"
    by (auto simp: faults)
  have "sock_open (hconn h1)"
    using closed_run [of h1 es] h1(2) Cons.prems(2) by auto
  moreover have "prefix (got h1) (got h')"
    using h1(2)
  proof (induction es arbitrary: h1)
    case (Cons e' es')
    then obtain h2 where "hist_step e' h1 = Inr h2" "hist_run es' h2 = Inr h'"
      by (auto simp: faults)
    with Cons.IH [of h2] got_grows show ?case using prefix_order.trans by blast
  qed simp
  ultimately have "awaiting now (hconn h1)"
    using awaiting_step [OF h1(1)] Cons.prems(3,4) by simp
  with Cons.IH [OF h1(2)] Cons.prems show ?case by simp
qed

lemma accepted_awaiting: "awaiting now (accepted uid now)"
  by (simp add: awaiting_def accepted_def make_connection_def handler_defs)

text \<open>On a closed socket nothing is delivered any more.\<close>

lemma closed_step_in:
  assumes "\<not> sock_open (hconn h)" and "hist_step e h = Inr h'"
  shows "m_qMessagesIn (hconn h') = m_qMessagesIn (hconn h)
    \<and> OnClientValidated_calls (hconn h') = OnClientValidated_calls (hconn h)"
proof (cases e)
  case WriteFails
  then obtain c where c: "socket_write_failed (hconn h) = Inr c" "hconn h' = c"
    using assms(2) by (auto simp: faults)
  then show ?thesis
    by (auto simp: socket_write_failed_def validation_written_def header_written_def body_written_def
        split: list.splits write_op.splits elim!: write_done.elims)
qed (use assms in \<open>auto simp: faults run_task_def send_posted_eq Send_def Disconnect_def socket_wrote_def
    socket_received_def socket_read_failed_def validation_read_def header_read_def body_read_def
    split: list.splits task.splits if_splits read_op.splits\<close>)

lemma closed_run_in:
  assumes "\<not> sock_open (hconn h)" and "hist_run es h = Inr h'"
  shows "m_qMessagesIn (hconn h') = m_qMessagesIn (hconn h)
    \<and> OnClientValidated_calls (hconn h') = OnClientValidated_calls (hconn h)"
  using assms
proof (induction es arbitrary: h)
  case (Cons e es)
  then obtain h1 where h1: "hist_step e h = Inr h1" "hist_run es h1 = Inr h'"
    by (auto simp: faults)
  moreover have "\<not> sock_open (hconn h1)"
    using closed_step [OF Cons.prems(1), of e] h1(1) by auto
  ultimately show ?case
    using Cons.IH [of h1] closed_step_in [OF Cons.prems(1) h1(1)] by simp
qed simp

text \<open>What the server makes of the first bytes of the answer.\<close>

definition answer_of :: "bytes \<Rightarrow> bytes" where
  "answer_of v = take 8 v @ replicate (8 - length v) 0"

lemma le64_zero [simp]: "le64 0 = replicate 8 0"
  by code_simp

lemma length_answer_of [simp]: "length (answer_of v) = 8"
  by (simp add: answer_of_def)

lemma first_answer:
  assumes "awaiting now c" and "sock_open c" and "v \<noteq> []"
  shows "fst (socket_received v c) = length (take 8 v)"
    and "answer_of v \<noteq> le64 (Scramble now) \<Longrightarrow> \<not> sock_open (snd (socket_received v c))
      \<and> m_qMessagesIn (snd (socket_received v c)) = []
      \<and> OnClientValidated_calls (snd (socket_received v c)) = 1"
    and "answer_of v = le64 (Scramble now) \<Longrightarrow> sock_open (snd (socket_received v c))
      \<and> reads (snd (socket_received v c)) = [(ReadHeaderOp, 8, [])]
      \<and> m_qMessagesIn (snd (socket_received v c)) = []
      \<and> OnClientValidated_calls (snd (socket_received v c)) = 0"
proof -
  have "take 8 v @ drop (length (take 8 v)) (le64 0) = answer_of v"
    by (simp add: answer_of_def min_def)
  then have a: "un64 (take 8 v @ drop (length (take 8 v)) (le64 (Validaton_code_in c))) = un64 (answer_of v)"
    using assms(1) by (simp add: awaiting_def)
  note r = first_taken [OF assms]
  show "fst (socket_received v c) = length (take 8 v)" by (simp add: r)
  have i: "un64 (answer_of v) = Scramble now \<longleftrightarrow> answer_of v = le64 (Scramble now)"
    by (metis le64_un64 un64_le64 length_answer_of)
  show "answer_of v \<noteq> le64 (Scramble now) \<Longrightarrow> \<not> sock_open (snd (socket_received v c))
      \<and> m_qMessagesIn (snd (socket_received v c)) = []
      \<and> OnClientValidated_calls (snd (socket_received v c)) = 1"
    using assms(1) i a by (simp add: r validation_read_def awaiting_def)
  show "answer_of v = le64 (Scramble now) \<Longrightarrow> sock_open (snd (socket_received v c))
      \<and> reads (snd (socket_received v c)) = [(ReadHeaderOp, 8, [])]
      \<and> m_qMessagesIn (snd (socket_received v c)) = []
      \<and> OnClientValidated_calls (snd (socket_received v c)) = 0"
    using assms i a
    by (simp add: r validation_read_def awaiting_def ReadHeader_def sizeof_header_def)
qed

section \<open>Properties\<close>

text \<open>
  Property C6. For every sequence of calls, short and failing writes, arrivals and failing reads, a
  server's end never leaves defined behaviour, and what it has written to the socket is a mixture of
  the first bytes of the validation code and the first bytes of the messages sent, whole and in the
  order of the calls to \<^verbatim>\<open>Send\<close>, each kept in its order. When the socket takes the eight bytes of the
  code in one go, the code comes first.
\<close>

theorem server_writes_frames_in_order:
  "\<exists>h. hist_run es (new_history (accepted uid now)) = Inr h
    \<and> (\<exists>a b. prefix a (le64 now) \<and> prefix b (frames (sent h)) \<and> wrote h \<in> shuffles a b)
    \<and> (whole_run es (new_history (accepted uid now)) \<longrightarrow> prefix (wrote h) (le64 now @ frames (sent h)))"
proof -
  obtain h where h: "hist_run es (new_history (accepted uid now)) = Inr h" "mixed_inv (le64 now) h"
    using mixed_run [OF accepted_mixed] by blast
  moreover have "prefix (wrote h) (le64 now @ frames (sent h))"
    if "whole_run es (new_history (accepted uid now))"
    using writer_run [OF _ that, of "le64 now"] accepted_live writer_inv_prefix h(1)
    by (auto simp: writer_inv_def)
  ultimately show ?thesis
    using mixed_inv_wrote [OF h(2)] by (auto simp: mixed_wrote_def)
qed

text \<open>
  The same of a client's end after the handshake, whatever the writes do: the bytes
  written are a prefix of the messages sent.
\<close>

theorem client_writes_frames_in_order:
  assumes "client_ready c"
  shows "\<exists>h. hist_run es (new_history c) = Inr h \<and> prefix (wrote h) (frames (sent h))"
proof -
  have "writer_inv [] (new_history c)"
    using client_ready_live [OF assms] by (simp add: writer_inv_def)
  moreover have "m_nOwnerType (hconn (new_history c)) = OwnerClient"
    using assms by (simp add: client_ready_def new_history_def)
  ultimately obtain h where "hist_run es (new_history c) = Inr h" and "writer_inv [] h"
    using client_run by blast
  then show ?thesis using writer_inv_prefix by fastforce
qed

text \<open>
  Nothing stays behind: when an open client's end has no posted function and no write
  in flight left, every message sent has been written, to the last byte.
\<close>

theorem client_writes_everything:
  assumes "client_ready c" and "hist_run es (new_history c) = Inr h"
    and "sock_open (hconn h)" and "tasks (hconn h) = []" and "writes (hconn h) = []"
  shows "wrote h = frames (sent h)"
proof -
  have "writer_inv [] (new_history c)"
    using client_ready_live [OF assms(1)] by (simp add: writer_inv_def)
  moreover have "m_nOwnerType (hconn (new_history c)) = OwnerClient"
    using assms(1) by (simp add: client_ready_def new_history_def)
  ultimately have "writer_inv [] h"
    using client_run [of "[]" "new_history c" es] assms(2) by auto
  then obtain ms x vs ws where "writer_at [] ms x vs ws h"
    using assms(3) by (auto simp: writer_inv_def writer_live_def writer_dead_def)
  with assms(4,5) show ?thesis
    by (auto simp: writer_at_def msg_writes_def)
qed

text \<open>
  A reader that takes a prefix of the frames of messages whose header states their
  size delivers the first of those messages, each once and in order, however the bytes are split
  into arrivals; only a message without a body is delivered with the body of the message before
  it (\<open>deliver\<close>).
\<close>

theorem reader_delivers_prefix:
  assumes "reading c" and "hist_run es (new_history c) = Inr h"
    and "prefix (got h) (frames ms)" and "\<forall>m \<in> set ms. sendable m"
  shows "\<exists>n \<le> length ms. m_qMessagesIn (hconn h) = deliver (body (m_msgBuff c)) (take n ms)"
  by (rule reader_prefix [OF assms])

text \<open>
  A reader that has taken all the bytes of the messages, and is still open, has
  delivered all of them.
\<close>

theorem reader_delivers_all:
  assumes "reading c" and "hist_run es (new_history c) = Inr h"
    and "got h = frames ms" and "\<forall>m \<in> set ms. sendable m" and "sock_open (hconn h)"
  shows "m_qMessagesIn (hconn h) = deliver (body (m_msgBuff c)) ms"
proof -
  let ?ds = "m_qMessagesIn (hconn h)" and ?b = "body (m_msgBuff c)"
  have "reader_inv ?b h"
    using reader_run [OF reading_inv [OF assms(1)] assms(2)] .
  then obtain part where r: "reader_at ?b (hconn h) (got h) part"
    using assms(5) by (auto simp: reader_inv_def)
  then have d: "length ?ds \<le> length ms" "?ds = deliver ?b (take (length ?ds) ms)"
      "part = frames (drop (length ?ds) ms)"
    using stale_chain_deliver [of ?b ?ds ms] assms(3,4) by (auto simp: reader_at_def)
  have "drop (length ?ds) ms = []"
  proof (cases "drop (length ?ds) ms")
    case (Cons m ms')
    then have m: "m \<in> set ms" by (metis in_set_dropD list.set_intros(1))
    have p: "part = encode_header (header m) @ body m @ frames ms'"
      using d(3) Cons by simp
    then have "\<not> length part < 8" by simp
    then obtain acc where a: "part = encode_header (header (m_msgBuff (hconn h))) @ acc"
        "length acc < unat (hdr_size (header (m_msgBuff (hconn h))))"
      using r by (auto simp: reader_at_def)
    have "header (m_msgBuff (hconn h)) = header m"
      using arg_cong [OF a(1), of "\<lambda>p. decode_header (take 8 p)"] p by simp
    then have "acc = body m @ frames ms'" and "length acc < length (body m)"
      using a p sendable_size assms(4) m by auto
    then show ?thesis by simp
  qed simp
  with d show ?thesis by simp
qed

text \<open>
  Property C5. From the server to a client that has shaken hands: whatever the two ends and the
  network do, if the server's socket took the eight bytes of the validation code in one go, the
  messages sent state the size of their bodies and the bytes the client takes after the code are a
  prefix of those the server wrote after it (TCP), then what the client delivers are the first of the
  messages the server's application sent, in order, each once; a message without a body is delivered
  with the body of the one before it (\<open>deliver\<close>), and when all have bodies the messages are exactly
  those sent.
\<close>

theorem server_to_client_delivery:
  assumes "whole_run es (new_history (accepted uid now))"
    and "hist_run es (new_history (accepted uid now)) = Inr hs"
    and "reading c" and "hist_run es' (new_history c) = Inr hc"
    and "prefix (got hc) (drop 8 (wrote hs))" and "\<forall>m \<in> set (sent hs). sendable m"
  shows "\<exists>n \<le> length (sent hs).
    m_qMessagesIn (hconn hc) = deliver (body (m_msgBuff c)) (take n (sent hs))
    \<and> ((\<forall>m \<in> set (sent hs). body m \<noteq> []) \<longrightarrow> m_qMessagesIn (hconn hc) = take n (sent hs))"
proof -
  have "prefix (wrote hs) (le64 now @ frames (sent hs))"
    using writer_run [OF _ assms(1), of "le64 now"] accepted_live writer_inv_prefix assms(2)
    by (auto simp: writer_inv_def)
  then have "prefix (drop 8 (wrote hs)) (frames (sent hs))"
    by (rule prefix_drop_head) simp
  then have "prefix (got hc) (frames (sent hs))"
    using assms(5) prefix_order.trans by blast
  from reader_prefix [OF assms(3,4) this assms(6)]
  obtain n where n: "n \<le> length (sent hs)"
    "m_qMessagesIn (hconn hc) = deliver (body (m_msgBuff c)) (take n (sent hs))" by blast
  moreover have "deliver (body (m_msgBuff c)) (take n (sent hs)) = take n (sent hs)"
    if "\<forall>m \<in> set (sent hs). body m \<noteq> []"
    using that assms(6) sendable_empty by (intro deliver_with_bodies) (meson in_set_takeD)
  ultimately show ?thesis by auto
qed

text \<open>
  The handshake: a client that gets the server's eight bytes answers with
  \<open>Scramble\<close> of the code, and is then ready to read and write messages; a server that gets this
  answer accepts it and is ready to read messages.
\<close>

theorem handshake_completes:
  "\<exists>hc hs. hist_run [Receives (le64 now), Wrote 8]
        (new_history (connected_to_server False (make_connection OwnerClient t False))) = Inr hc
    \<and> wrote hc = le64 (Scramble now) \<and> client_ready (hconn hc)
    \<and> hist_run [Wrote 8, Receives (wrote hc)] (new_history (accepted uid now)) = Inr hs
    \<and> reading (hconn hs) \<and> wrote hs = le64 now \<and> OnClientValidated_calls (hconn hs) = 0"
  by (simp add: new_history_def accepted_def make_connection_def handler_defs
      socket_received_def socket_wrote_def start_read_def start_write_def print_def
      client_ready_def reading_def no_validation_write_def sizeof_header_def)

text \<open>
  Property C13. The first bytes to arrive decide, after any run of the server's end that has taken
  none, with messages posted, written and failing meanwhile. At most eight are taken, and what is
  missing to eight counts as zeros (\<^verbatim>\<open>async_read_some\<close> into a buffer of zeros). If that is the scrambled
  code the server goes on to read the first header. Otherwise it closes the socket, calls the virtual
  function \<^verbatim>\<open>OnClientValidated\<close> (a name for the opposite case), and whatever happens then delivers
  nothing, and never reads or writes again.
\<close>

theorem handshake_rejects:
  assumes "hist_run es (new_history (accepted uid now)) = Inr h"
    and "sock_open (hconn h)" and "got h = []" and "v \<noteq> []"
  shows "\<exists>h1. hist_step (Receives v) h = Inr h1
    \<and> (if take 8 v @ replicate (8 - length v) 0 = le64 (Scramble now)
       then sock_open (hconn h1) \<and> reads (hconn h1) = [(ReadHeaderOp, 8, [])]
         \<and> m_qMessagesIn (hconn h1) = [] \<and> OnClientValidated_calls (hconn h1) = 0
       else \<forall>es'. \<exists>h'. hist_run es' h1 = Inr h' \<and> \<not> sock_open (hconn h')
         \<and> m_qMessagesIn (hconn h') = [] \<and> OnClientValidated_calls (hconn h') = 1
         \<and> wrote h' = wrote h \<and> got h' = take 8 v)"
proof -
  have w: "awaiting now (hconn h)"
    using awaiting_run [OF assms(1-3)] accepted_awaiting by (simp add: new_history_def)
  note f = first_answer [OF w assms(2,4)]
  let ?c = "snd (socket_received v (hconn h))"
  let ?h1 = "h\<lparr>hconn := ?c, got := take 8 v\<rparr>"
  have s: "hist_step (Receives v) h = Inr ?h1"
    using f(1) assms(3) by (cases "socket_received v (hconn h)") (simp add: take_length_take del: length_take)
  show ?thesis
  proof (cases "answer_of v = le64 (Scramble now)")
    case True
    with f(3) s show ?thesis by (simp add: answer_of_def)
  next
    case False
    have "\<exists>h'. hist_run es' ?h1 = Inr h' \<and> \<not> sock_open (hconn h') \<and> m_qMessagesIn (hconn h') = []
        \<and> OnClientValidated_calls (hconn h') = 1 \<and> wrote h' = wrote h \<and> got h' = take 8 v" for es'
    proof -
      have c: "\<not> sock_open (hconn ?h1)" using f(2) [OF False] by simp
      from closed_run [OF c, of es'] obtain h' where h': "hist_run es' ?h1 = Inr h'"
        "\<not> sock_open (hconn h')" "wrote h' = wrote h" "got h' = take 8 v" by auto
      with closed_run_in [OF c h'(1)] f(2) [OF False] show ?thesis by auto
    qed
    with s False show ?thesis by (auto simp: answer_of_def)
  qed
qed

text \<open>
  A message without a body is delivered with the body of the message before it: the
  read buffer is not cleared between messages.
\<close>

theorem stale_body_delivered:
  assumes "reading c" and "sendable m" and "body m \<noteq> []" and "sendable m'" and "body m' = []"
  shows "\<exists>h. hist_run [Receives (encode_header (header m)), Receives (body m),
        Receives (encode_header (header m'))] (new_history c) = Inr h
    \<and> m_qMessagesIn (hconn h) = [m, m'\<lparr>body := body m\<rparr>]"
proof -
  have sz: "unat (hdr_size (header m)) = length (body m)" "hdr_size (header m) > 0"
      "hdr_size (header m') = 0"
    using assms(2-5) sendable_size sendable_empty by (auto simp: word_gt_0)
  have "encode_header (header m) \<noteq> []" and "encode_header (header m') \<noteq> []"
    by (simp_all add: encode_header_def)
  with sz assms(1,3,5) show ?thesis
    by (simp add: new_history_def reading_def socket_received_def handler_defs start_read_def
        sizeof_header_def push_back_def Let_def message_fields)
qed

text \<open>
  The message \<open>OnClientConnect\<close> sends is posted before the write of the validation code
  starts, so its header can be written while the code is: when the socket takes the code in two
  parts, the header goes between them, and the client reads neither.
\<close>

theorem split_validation_corrupts:
  "\<exists>h. hist_run [AppSend m, RunTask, Wrote 4, Wrote 8, Wrote 4] (new_history (accepted uid now)) = Inr h
    \<and> wrote h = take 4 (le64 now) @ encode_header (header m) @ drop 4 (le64 now)"
  by (simp add: new_history_def accepted_def make_connection_def handler_defs tsqueue_defs
      socket_wrote_def run_task_def start_write_def start_read_def message_size_def)

section \<open>Witnesses\<close>

text \<open>Concrete messages and ends at which the properties with hypotheses are applied.\<close>

definition ping :: message where
  "ping = push_u64 (new_message ServerPing) 7"

definition list_request :: message where
  "list_request = new_message ClientList"

definition example_client :: connection where
  "example_client = ReadHeader (make_connection OwnerClient 0 True)"

definition outcome :: "('a \<Rightarrow> bool) \<Rightarrow> fault + 'a \<Rightarrow> bool" where
  "outcome P r \<longleftrightarrow> (case r of Inl f \<Rightarrow> False | Inr h \<Rightarrow> P h)"

lemma outcomeD: "outcome P r \<Longrightarrow> \<exists>h. r = Inr h \<and> P h"
  by (cases r) (simp_all add: outcome_def)

lemma example_client_ready: "client_ready example_client"
  by code_simp

lemma example_reading: "reading example_client"
  by code_simp

lemma example_sendable: "\<forall>m \<in> set [ping, list_request]. sendable m"
  by (simp add: sendable_def ping_def list_request_def message_size_def)

theorem server_writes_frames_in_order_witness:
  "\<exists>h. hist_run [AppSend ping, Wrote 8, RunTask, Wrote 3, Wrote 5, Wrote 8]
        (new_history (accepted 10000 99)) = Inr h
      \<and> prefix (wrote h) (le64 99 @ frames (sent h))"
proof -
  have "whole_run [AppSend ping, Wrote 8, RunTask, Wrote 3, Wrote 5, Wrote 8]
      (new_history (accepted 10000 99))" by code_simp
  then show ?thesis using server_writes_frames_in_order by blast
qed

theorem client_writes_frames_in_order_witness:
  "client_ready example_client
   \<and> (\<exists>h. hist_run [AppSend ping, RunTask, Wrote 3] (new_history example_client) = Inr h
      \<and> prefix (wrote h) (frames (sent h)))"
  using client_writes_frames_in_order [OF example_client_ready] example_client_ready by blast

theorem client_writes_everything_witness:
  "\<exists>h. hist_run [AppSend ping, AppSend list_request, RunTask, RunTask, Wrote 3, Wrote 5, Wrote 8,
          Wrote 8] (new_history example_client) = Inr h
      \<and> sock_open (hconn h) \<and> tasks (hconn h) = [] \<and> writes (hconn h) = []
      \<and> wrote h = frames (sent h)"
    (is "\<exists>h. ?R = Inr h \<and> _")
proof -
  have "outcome (\<lambda>h. sock_open (hconn h) \<and> tasks (hconn h) = [] \<and> writes (hconn h) = []) ?R"
    by code_simp
  from outcomeD [OF this] show ?thesis
    using client_writes_everything [OF example_client_ready] by blast
qed

theorem reader_delivers_prefix_witness:
  "\<exists>h n. hist_run [Receives (take 11 (frames [ping, list_request])),
        Receives (drop 8 (frame ping))] (new_history example_client) = Inr h
     \<and> n \<le> length [ping, list_request] \<and> m_qMessagesIn (hconn h)
         = deliver (body (m_msgBuff example_client)) (take n [ping, list_request])"
    (is "\<exists>h n. ?R = Inr h \<and> _")
proof -
  have "outcome (\<lambda>h. prefix (got h) (frames [ping, list_request])) ?R"
    by code_simp
  from outcomeD [OF this] obtain h
    where h: "?R = Inr h" "prefix (got h) (frames [ping, list_request])" by blast
  with reader_delivers_prefix [OF example_reading h example_sendable] show ?thesis by blast
qed

theorem reader_delivers_all_witness:
  "\<exists>h. hist_run [Receives (take 8 (frame ping)), Receives (drop 8 (frame ping)),
        Receives (frame list_request)] (new_history example_client) = Inr h
     \<and> m_qMessagesIn (hconn h)
         = deliver (body (m_msgBuff example_client)) [ping, list_request]"
    (is "\<exists>h. ?R = Inr h \<and> _")
proof -
  have "outcome (\<lambda>h. got h = frames [ping, list_request] \<and> sock_open (hconn h)) ?R"
    by code_simp
  from outcomeD [OF this] obtain h
    where h: "?R = Inr h" "got h = frames [ping, list_request]" "sock_open (hconn h)" by blast
  with reader_delivers_all [OF example_reading h(1,2) example_sendable h(3)] show ?thesis
    by blast
qed

theorem server_to_client_delivery_witness:
  "\<exists>hs hc n. hist_run [AppSend ping, Wrote 8, RunTask, Wrote 8, Wrote 4, Wrote 4]
        (new_history (accepted 10000 99)) = Inr hs
     \<and> hist_run [Receives (take 8 (frame ping)), Receives (drop 8 (frame ping))]
        (new_history example_client) = Inr hc
     \<and> n \<le> length (sent hs)
     \<and> m_qMessagesIn (hconn hc) = deliver (body (m_msgBuff example_client)) (take n (sent hs))"
    (is "\<exists>hs hc n. ?S = Inr hs \<and> ?C = Inr hc \<and> _")
proof -
  have w: "whole_run [AppSend ping, Wrote 8, RunTask, Wrote 8, Wrote 4, Wrote 4]
        (new_history (accepted 10000 99))" by code_simp
  have "outcome (\<lambda>hs. sent hs = [ping] \<and> drop 8 (wrote hs) = frame ping) ?S" by code_simp
  from outcomeD [OF this] obtain hs
    where s: "?S = Inr hs" "sent hs = [ping]" "drop 8 (wrote hs) = frame ping" by blast
  have "outcome (\<lambda>hc. got hc = frame ping) ?C" by code_simp
  from outcomeD [OF this] obtain hc where c: "?C = Inr hc" "got hc = frame ping" by blast
  have p: "prefix (got hc) (drop 8 (wrote hs))" and "\<forall>m \<in> set (sent hs). sendable m"
    using s c example_sendable by simp_all
  from server_to_client_delivery [OF w s(1) example_reading c(1) this] s(1) c(1) show ?thesis
    by blast
qed

theorem handshake_rejects_witness:
  "\<exists>h h'. hist_run [AppSend ping, RunTask, Wrote 8] (new_history (accepted 10000 99)) = Inr h
     \<and> hist_run [Receives [1, 2, 3], RunTask, Wrote 8] h = Inr h'
     \<and> \<not> sock_open (hconn h') \<and> m_qMessagesIn (hconn h') = [] \<and> wrote h' = le64 99"
    (is "\<exists>h h'. ?R = Inr h \<and> _")
proof -
  have "outcome (\<lambda>h. sock_open (hconn h) \<and> got h = [] \<and> wrote h = le64 99) ?R" by code_simp
  from outcomeD [OF this] obtain h
    where h: "?R = Inr h" "sock_open (hconn h)" "got h = []" "wrote h = le64 99" by blast
  have "take 8 [1, 2, 3] @ replicate (8 - length [1, 2, 3 :: u8]) 0 \<noteq> le64 (Scramble 99)"
    by code_simp
  then obtain h1 where h1: "hist_step (Receives [1, 2, 3]) h = Inr h1"
    "\<forall>es'. \<exists>h'. hist_run es' h1 = Inr h' \<and> \<not> sock_open (hconn h')
         \<and> m_qMessagesIn (hconn h') = [] \<and> OnClientValidated_calls (hconn h') = 1
         \<and> wrote h' = wrote h \<and> got h' = take 8 [1, 2, 3]"
    using handshake_rejects [OF h(1-3), of "[1, 2, 3]"] by auto
  have e: "hist_run ([Receives [1, 2, 3]] @ es) h = hist_run es h1" for es
    using h1(1) by (simp only: hist_run_append) simp
  obtain h' where h': "hist_run [RunTask, Wrote 8] h1 = Inr h'" "\<not> sock_open (hconn h')"
    "m_qMessagesIn (hconn h') = []" "wrote h' = wrote h"
    using h1(2) by blast
  have "hist_run [Receives [1, 2, 3], RunTask, Wrote 8] h = Inr h'"
    using e [of "[RunTask, Wrote 8]"] h'(1) by (simp only: append.simps)
  with h(1,4) h'(2-4) show ?thesis by metis
qed

theorem stale_body_delivered_witness:
  "\<exists>h. hist_run [Receives (encode_header (header ping)), Receives (body ping),
        Receives (encode_header (header list_request))] (new_history example_client) = Inr h
    \<and> m_qMessagesIn (hconn h) = [ping, list_request\<lparr>body := body ping\<rparr>]"
proof -
  have "body ping \<noteq> []" "body list_request = []" by code_simp+
  with stale_body_delivered [OF example_reading, of ping list_request] example_sendable
  show ?thesis by simp
qed

end
