(* ===== verification/Server.thy ===== *)
theory Server
  imports Connection
begin

text \<open>
  \<^verbatim>\<open>Net_chat/net_server.h\<close> and \<^verbatim>\<open>ChatServer/Server.cpp\<close>: the server. Connections are shared
  objects: \<open>conns\<close> is the store of all that were made, a reference is an index into it, and the
  deque holds references or null pointers (\<open>nat option\<close>); \<open>alive\<close> says whether a pointer to one is
  left, and a step on one that is destroyed fails. Messages that a connection has read
  go to the one queue \<open>qMessagesIn\<close> with a reference to their connection (never null on a server:
  \<^verbatim>\<open>AddToIncomimgMessageQueue\<close> passes \<^verbatim>\<open>shared_from_this()\<close>).

  \<open>sstep\<close> is one step of the whole: the handler of \<^verbatim>\<open>async_accept\<close>, a completion of one of the
  connections, or one turn of the loop in \<^verbatim>\<open>Update\<close>. The program runs the handlers on one thread
  and \<^verbatim>\<open>Update\<close> on another; each step is taken here as atomic.
\<close>

section \<open>State\<close>

record owned_message =
  remote :: nat
  owned_msg :: message

record server =
  conns :: "nat \<Rightarrow> connection"
  next_ref :: nat
  m_dequeConnections :: "nat option list"
  nIDCounter :: u32
  ClientConnections :: "u32 \<Rightarrow> u32 option"
  qMessagesIn :: "owned_message tsqueue"
  accepts :: nat                 \<comment> \<open>\<^verbatim>\<open>async_accept\<close> operations outstanding\<close>
  context_running :: bool        \<comment> \<open>the thread of \<^verbatim>\<open>m_context.run()\<close>\<close>
  cout :: "string list"

definition new_server :: server where
  "new_server = \<lparr>conns = (\<lambda>_. make_connection OwnerServer 0 False), next_ref = 0,
     m_dequeConnections = [], nIDCounter = 10000, ClientConnections = (\<lambda>_. None),
     qMessagesIn = [], accepts = 0, context_running = False, cout = []\<rparr>"

definition say :: "string \<Rightarrow> server \<Rightarrow> server" where
  "say str s = s\<lparr>cout := cout s @ [str]\<rparr>"

definition set_conn :: "nat \<Rightarrow> connection \<Rightarrow> server \<Rightarrow> server" where
  "set_conn r c s = s\<lparr>conns := (conns s)(r := c)\<rparr>"

text \<open>\<^verbatim>\<open>client->Send(msg)\<close>, \<^verbatim>\<open>client->GetID()\<close>, \<^verbatim>\<open>client && client->IsConnected()\<close>\<close>

definition send_to :: "nat \<Rightarrow> message \<Rightarrow> server \<Rightarrow> server" where
  "send_to r msg s = set_conn r (Send msg (conns s r)) s"

definition client_id :: "server \<Rightarrow> nat \<Rightarrow> u32" where
  "client_id s r = GetID (conns s r)"

fun client_connected :: "server \<Rightarrow> nat option \<Rightarrow> bool" where
  "client_connected s None \<longleftrightarrow> False"
| "client_connected s (Some r) \<longleftrightarrow> IsConnected (conns s r)"

definition id_tag :: "u32 \<Rightarrow> string" where
  "id_tag i = ''['' @ show_u32 i @ '']''"

section \<open>Accepting connections\<close>

definition WaitForClientConnection :: "server \<Rightarrow> server" where
  "WaitForClientConnection s = s\<lparr>accepts := Suc (accepts s)\<rparr>"

definition OnClientConnect :: "nat \<Rightarrow> server \<Rightarrow> bool \<times> server" where
  "OnClientConnect client s =
     (True, send_to client (push_u32 (new_message ServerAccept) (nIDCounter s)) s)"

text \<open>The exception \<^verbatim>\<open>std::thread\<close>'s constructor may throw is \<open>exn\<close>, its \<^verbatim>\<open>what()\<close>.\<close>

definition Start :: "string option \<Rightarrow> server \<Rightarrow> bool \<times> server" where
  "Start exn s =
     (let s' = WaitForClientConnection s
      in case exn of
           None \<Rightarrow> (True, say (''[SERVER] started'' @ nl) (s'\<lparr>context_running := True\<rparr>))
         | Some what \<Rightarrow> (False, say (''[SERVER] exception: '' @ what @ nl) s'))"

definition Stop :: "server \<Rightarrow> server" where
  "Stop s = say (''[SERVER] stopped:'' @ nl) (s\<lparr>context_running := False\<rparr>)"

text \<open>
  The handler. \<open>error\<close> is \<^verbatim>\<open>ec.message()\<close> when there is an error, \<open>endpoint\<close> the text of the peer's
  address: \<^verbatim>\<open>remote_endpoint()\<close> throws when the peer is gone again. \<open>now\<close> is the clock.
\<close>

definition accept_done :: "string option \<Rightarrow> string option \<Rightarrow> u64 \<Rightarrow> server \<Rightarrow> fault + server" where
  "accept_done error endpoint now s0 =
     (let s = s0\<lparr>accepts := accepts s0 - 1\<rparr>
      in and_then
        (case error of
           Some what \<Rightarrow> Inr (say (''[SERVER] New connection error:'' @ what @ nl) s)
         | None \<Rightarrow>
            (case endpoint of
               None \<Rightarrow> Inl SystemError
             | Some addr \<Rightarrow>
                (let s1 = say (''[SERVER] New connection: '' @ addr @ nl) s;
                     newconn = next_ref s1;
                     s2 = set_conn newconn (make_connection OwnerServer now True)
                            (s1\<lparr>next_ref := Suc newconn\<rparr>);
                     (approved, s3) = OnClientConnect newconn s2
                 in if approved then
                      let s4 = s3\<lparr>m_dequeConnections := m_dequeConnections s3 @ [Some newconn],
                                 nIDCounter := nIDCounter s3 + 1\<rparr>;
                          s5 = set_conn newconn
                                 (ConnectToClient (nIDCounter s3) (conns s4 newconn)) s4
                      in Inr (say (id_tag (client_id s5 newconn) @ '' Connection approved'' @ nl) s5)
                    else Inr (say (''[----] Connection denied'' @ nl) s3))))
        (\<lambda>s'. Inr (WaitForClientConnection s')))"

section \<open>Sending to clients\<close>

definition OnClientDisconnect :: "nat option \<Rightarrow> server \<Rightarrow> fault + server" where
  "OnClientDisconnect client s =
     (case client of
        None \<Rightarrow> Inl UndefinedBehaviour
      | Some r \<Rightarrow> Inr (say (''Removing client '' @ id_tag (client_id s r) @ nl) s))"

text \<open>
  \<^verbatim>\<open>std::remove(begin(), begin(), client)\<close> is \<^verbatim>\<open>begin()\<close>, so the \<^verbatim>\<open>erase\<close> removes everything.
\<close>

definition MessageClient :: "nat option \<Rightarrow> message \<Rightarrow> server \<Rightarrow> fault + server" where
  "MessageClient client msg s =
     (case client of
        Some r \<Rightarrow>
          if IsConnected (conns s r) then Inr (send_to r msg s)
          else and_then (OnClientDisconnect client s) (\<lambda>s'. Inr (s'\<lparr>m_dequeConnections := []\<rparr>))
      | None \<Rightarrow>
          and_then (OnClientDisconnect client s) (\<lambda>s'. Inr (s'\<lparr>m_dequeConnections := []\<rparr>)))"

text \<open>
  The loops over the deque return the flag \<^verbatim>\<open>InvalidClientExists\<close> and the deque with the
  pointers that were reset; \<open>erase_null\<close> is the \<^verbatim>\<open>erase(remove(begin(), end(), nullptr), end())\<close>.
\<close>

definition erase_null :: "bool \<Rightarrow> nat option list \<Rightarrow> nat option list" where
  "erase_null InvalidClientExists clients =
     (if InvalidClientExists then removeAll None clients else clients)"

fun message_all_loop ::
    "message \<Rightarrow> nat option \<Rightarrow> nat option list \<Rightarrow> server \<Rightarrow> fault + bool \<times> nat option list \<times> server" where
  "message_all_loop msg pIgnoreClient [] s = Inr (False, [], s)"
| "message_all_loop msg pIgnoreClient (client # clients) s =
     (if client_connected s client then
        let s' = if client \<noteq> pIgnoreClient
                 then (case client of Some r \<Rightarrow> send_to r msg s | None \<Rightarrow> s) else s
        in and_then (message_all_loop msg pIgnoreClient clients s') (\<lambda>(inv, clients', s'').
             Inr (inv, client # clients', s''))
      else
        and_then (OnClientDisconnect client s) (\<lambda>s'.
          and_then (message_all_loop msg pIgnoreClient clients s') (\<lambda>(inv, clients', s'').
            Inr (True, None # clients', s''))))"

definition MessageAllClient :: "message \<Rightarrow> nat option \<Rightarrow> server \<Rightarrow> fault + server" where
  "MessageAllClient msg pIgnoreClient s =
     and_then (message_all_loop msg pIgnoreClient (m_dequeConnections s) s) (\<lambda>(inv, clients, s').
       Inr (s'\<lparr>m_dequeConnections := erase_null inv clients\<rparr>))"

fun client_list_loop ::
    "nat option list \<Rightarrow> server \<Rightarrow> fault + bool \<times> nat option list \<times> u32 list \<times> server" where
  "client_list_loop [] s = Inr (False, [], [], s)"
| "client_list_loop (client # clients) s =
     (if client_connected s client then
        and_then (client_list_loop clients s) (\<lambda>(inv, clients', ids, s').
          Inr (inv, client # clients',
               (case client of Some r \<Rightarrow> [client_id s r] | None \<Rightarrow> []) @ ids, s'))
      else
        and_then (OnClientDisconnect client s) (\<lambda>s1.
          and_then (client_list_loop clients s1) (\<lambda>(inv, clients', ids, s').
            Inr (True, None # clients', ids, s'))))"

definition GetClientList :: "server \<Rightarrow> fault + u32 list \<times> server" where
  "GetClientList s =
     and_then (client_list_loop (m_dequeConnections s) s) (\<lambda>(inv, clients, ids, s').
       Inr (ids, s'\<lparr>m_dequeConnections := erase_null inv clients\<rparr>))"

section \<open>Pairs of clients\<close>

definition ConnectClients :: "u32 \<Rightarrow> u32 \<Rightarrow> server \<Rightarrow> bool \<times> server" where
  "ConnectClients ClientA ClientB s =
     (if ClientConnections s ClientA = None \<and> ClientConnections s ClientB = None
         \<and> ClientA \<noteq> ClientB
      then (True, s\<lparr>ClientConnections := (ClientConnections s)(ClientA \<mapsto> ClientB, ClientB \<mapsto> ClientA)\<rparr>)
      else (False, s))"

text \<open>\<^verbatim>\<open>erase(find(key))\<close>: \<^verbatim>\<open>erase(end())\<close> when the key is not there.\<close>

definition erase_found :: "u32 \<Rightarrow> server \<Rightarrow> fault + server" where
  "erase_found key s =
     (case ClientConnections s key of
        None \<Rightarrow> Inl UndefinedBehaviour
      | Some _ \<Rightarrow> Inr (s\<lparr>ClientConnections := (ClientConnections s)(key := None)\<rparr>))"

definition DisconnectClients :: "u32 \<Rightarrow> u32 \<Rightarrow> server \<Rightarrow> fault + server" where
  "DisconnectClients ClientA ClientB s = and_then (erase_found ClientA s) (erase_found ClientB)"

text \<open>\<^verbatim>\<open>ClientConnections.at(id)\<close>\<close>

definition partner_at :: "server \<Rightarrow> u32 \<Rightarrow> fault + u32" where
  "partner_at s i = (case ClientConnections s i of None \<Rightarrow> Inl OutOfRange | Some j \<Rightarrow> Inr j)"

section \<open>Messages\<close>

text \<open>
  The loops over the deque that look for an identifier; \<^verbatim>\<open>client_->GetID()\<close> dereferences every
  pointer it passes.
\<close>

fun find_client :: "u32 \<Rightarrow> nat option list \<Rightarrow> server \<Rightarrow> fault + nat option" where
  "find_client i [] s = Inr None"
| "find_client i (None # clients) s = Inl UndefinedBehaviour"
| "find_client i (Some r # clients) s =
     (if client_id s r = i then Inr (Some r) else find_client i clients s)"

definition on_ServerPing :: "nat \<Rightarrow> message \<Rightarrow> server \<Rightarrow> fault + server" where
  "on_ServerPing client msg s =
     Inr (send_to client msg (say (id_tag (client_id s client) @ '': Server Ping'' @ nl) s))"

definition on_MessageAll :: "nat \<Rightarrow> server \<Rightarrow> fault + server" where
  "on_MessageAll client s =
     (let s' = say (id_tag (client_id s client) @ '': Message All'' @ nl) s;
          outMsg = push_u32 (new_message ServerMessage) (client_id s' client)
      in MessageAllClient outMsg (Some client) s')"

definition on_ClientList :: "nat \<Rightarrow> server \<Rightarrow> fault + server" where
  "on_ClientList client s =
     and_then (GetClientList (say (id_tag (client_id s client) @ '': Client List'' @ nl) s))
       (\<lambda>(ids, s'). Inr (send_to client (foldl push_u32 (new_message ClientList) ids) s'))"

definition on_RequestToClient :: "nat \<Rightarrow> message \<Rightarrow> server \<Rightarrow> fault + server" where
  "on_RequestToClient client msg s0 =
     and_then (pop_u32 msg) (\<lambda>(ID, msg').
       let s = say (id_tag (client_id s0 client) @ '': Connection request to '' @ show_u32 ID @ nl) s0;
           ResponseMsg = new_message RequestToClient
       in and_then (find_client ID (m_dequeConnections s) s) (\<lambda>found.
            case found of
              Some client' \<Rightarrow>
                (case ConnectClients (client_id s client) ID s of (connected, s') \<Rightarrow>
                  if connected
                  then Inr (send_to client' (push_u32 (new_message RequestToClient)
                              (client_id s' client)) s')
                  else Inr (send_to client (push_u32 ResponseMsg 1) s'))
            | None \<Rightarrow> Inr (send_to client (push_u32 ResponseMsg 0) s)))"

text \<open>
  The loop of \<^verbatim>\<open>TextClient\<close>: it goes on after a partner that is not connected.
\<close>

fun text_loop :: "nat \<Rightarrow> message \<Rightarrow> u32 \<Rightarrow> nat option list \<Rightarrow> server \<Rightarrow> fault + server" where
  "text_loop client msg ID [] s = Inr s"
| "text_loop client msg ID (None # clients) s = Inl UndefinedBehaviour"
| "text_loop client msg ID (Some client' # clients) s =
     (if client_id s client' = ID then
        if ClientConnections s (client_id s client) \<noteq> None \<and> IsConnected (conns s client')
        then Inr (send_to client' msg s)
        else and_then (DisconnectClients ID (client_id s client) s) (\<lambda>s'.
               text_loop client msg ID clients (send_to client (new_message CloseClient) s'))
      else text_loop client msg ID clients s)"

definition on_TextClient :: "nat \<Rightarrow> message \<Rightarrow> server \<Rightarrow> fault + server" where
  "on_TextClient client msg s =
     (let s' = say (id_tag (client_id s client) @ '': Text Client'' @ nl) s
      in and_then (partner_at s' (client_id s' client)) (\<lambda>ID.
           text_loop client msg ID (m_dequeConnections s') s'))"

definition on_RequestAnswer :: "nat \<Rightarrow> message \<Rightarrow> server \<Rightarrow> fault + server" where
  "on_RequestAnswer client msg s =
     (let s' = say (id_tag (client_id s client) @ '': Request Answer'' @ nl) s
      in and_then (partner_at s' (client_id s' client)) (\<lambda>ID.
         and_then (find_client ID (m_dequeConnections s') s') (\<lambda>found.
           Inr (case found of Some client' \<Rightarrow> send_to client' msg s' | None \<Rightarrow> s'))))"

definition on_CloseClient :: "nat \<Rightarrow> server \<Rightarrow> fault + server" where
  "on_CloseClient client s =
     (let s' = say (id_tag (client_id s client) @ '': Close client'' @ nl) s;
          outMsg = new_message CloseClient
      in and_then (partner_at s' (client_id s' client)) (\<lambda>ID.
         and_then (find_client ID (m_dequeConnections s') s') (\<lambda>found.
           let s'' = (case found of Some client' \<Rightarrow> send_to client' outMsg s' | None \<Rightarrow> s')
           in DisconnectClients (client_id s'' client) ID s'')))"

definition OnMessage :: "nat \<Rightarrow> message \<Rightarrow> server \<Rightarrow> fault + server" where
  "OnMessage client msg s =
     (case msg_type (hdr_id (header msg)) of
        Some ServerAccept \<Rightarrow> Inr (say (''Server Accepted Connection'' @ nl) s)
      | Some ServerPing \<Rightarrow> on_ServerPing client msg s
      | Some MessageAll \<Rightarrow> on_MessageAll client s
      | Some ClientList \<Rightarrow> on_ClientList client s
      | Some RequestToClient \<Rightarrow> on_RequestToClient client msg s
      | Some TextClient \<Rightarrow> on_TextClient client msg s
      | Some RequestAnswer \<Rightarrow> on_RequestAnswer client msg s
      | Some CloseClient \<Rightarrow> on_CloseClient client s
      | _ \<Rightarrow> Inr s)"

section \<open>The loop of the server\<close>

text \<open>One turn of the loop in \<^verbatim>\<open>Update\<close>, when the queue is not empty.\<close>

definition process_message :: "server \<Rightarrow> fault + server" where
  "process_message s =
     and_then (pop_front (qMessagesIn s)) (\<lambda>(msg, q).
       OnMessage (remote msg) (owned_msg msg) (s\<lparr>qMessagesIn := q\<rparr>))"

text \<open>
  The connection behind a reference has made a step to \<open>c\<close>: the messages it read go to the
  server's queue, what it printed to the console.
\<close>

definition absorb :: "nat \<Rightarrow> connection \<Rightarrow> server \<Rightarrow> server" where
  "absorb r c s =
     (set_conn r (c\<lparr>m_qMessagesIn := [], conn_log := []\<rparr>) s)
       \<lparr>qMessagesIn := foldl push_back (qMessagesIn s)
          (map (\<lambda>m. \<lparr>remote = r, owned_msg = m\<rparr>) (m_qMessagesIn c)),
        cout := cout s @ conn_log c\<rparr>"

datatype sevent =
    Accepted "string option" "string option" u64
  | ConnTask nat
  | ConnWrote nat nat
  | ConnWriteFails nat
  | ConnReceives nat bytes
  | ConnReadFails nat
  | ProcessMessage

text \<open>
  The \<^verbatim>\<open>shared_ptr\<close>s to a connection: its entry in the deque and the messages in the queue that came
  from it. When the last of them is gone the object is destroyed, but the handlers of its socket
  and the functions it posted hold a raw \<^verbatim>\<open>this\<close>, and the \<^verbatim>\<open>io_context\<close> still runs them: a step on such
  a connection is a use after free. (While \<^verbatim>\<open>OnMessage\<close> runs, the popped message holds a pointer too.)
\<close>

definition alive :: "server \<Rightarrow> nat \<Rightarrow> bool" where
  "alive s r \<longleftrightarrow> Some r \<in> set (m_dequeConnections s) \<or> r \<in> remote ` set (qMessagesIn s)"

definition step_conn ::
    "nat \<Rightarrow> bool \<Rightarrow> (connection \<Rightarrow> fault + connection) \<Rightarrow> server \<Rightarrow> fault + server" where
  "step_conn r pending handler s =
     (if r < next_ref s then
        if alive s r then and_then (handler (conns s r)) (\<lambda>c. Inr (absorb r c s))
        else if pending then Inl UndefinedBehaviour else Inr s
      else Inr s)"

text \<open>Steps on references that no connection has yet do nothing.\<close>

fun sstep :: "sevent \<Rightarrow> server \<Rightarrow> fault + server" where
  "sstep (Accepted error endpoint now) s =
     (if accepts s > 0 then accept_done error endpoint now s else Inr s)"
| "sstep (ConnTask r) s = step_conn r (tasks (conns s r) \<noteq> []) run_task s"
| "sstep (ConnWrote r n) s =
     step_conn r (writes (conns s r) \<noteq> [])
       (\<lambda>c. and_then (socket_wrote n c) (\<lambda>(bs, c'). Inr c')) s"
| "sstep (ConnWriteFails r) s = step_conn r (writes (conns s r) \<noteq> []) socket_write_failed s"
| "sstep (ConnReceives r bs) s =
     step_conn r (reads (conns s r) \<noteq> []) (\<lambda>c. Inr (snd (socket_received bs c))) s"
| "sstep (ConnReadFails r) s =
     step_conn r (reads (conns s r) \<noteq> []) (\<lambda>c. Inr (socket_read_failed c)) s"
| "sstep ProcessMessage s = (if q_empty (qMessagesIn s) then Inr s else process_message s)"

fun srun :: "sevent list \<Rightarrow> server \<Rightarrow> fault + server" where
  "srun [] s = Inr s"
| "srun (e # es) s = and_then (sstep e s) (srun es)"

text \<open>
  The loop, \<open>n\<close> being \<^verbatim>\<open>nMaxMessages - MsgCount\<close>. The thread of the \<^verbatim>\<open>io_context\<close> runs beside it: the
  \<open>k\<close>-th element of \<open>io\<close> is what it does before the queue is looked at the \<open>k\<close>-th time, so that messages
  arrive and connections go while the loop runs.
\<close>

fun update_loop :: "nat \<Rightarrow> sevent list list \<Rightarrow> server \<Rightarrow> fault + server" where
  "update_loop 0 io s = Inr s"
| "update_loop (Suc n) io s =
     and_then (srun (case io of [] \<Rightarrow> [] | es # _ \<Rightarrow> es) s) (\<lambda>s'.
       if \<not> q_empty (qMessagesIn s') then and_then (process_message s') (update_loop n (drop 1 io))
       else Inr s')"

text \<open>
  \<open>None\<close>: it sleeps in \<^verbatim>\<open>m_qMessagesIn.wait()\<close>; what happens there, the deadlock with a producer
  included, is the subject of the theory \<^verbatim>\<open>TsqueueThreads\<close>.
\<close>

definition Update :: "u64 \<Rightarrow> bool \<Rightarrow> sevent list list \<Rightarrow> server \<Rightarrow> (fault + server) option" where
  "Update nMaxMessages lowcpu io s =
     (if lowcpu \<and> q_empty (qMessagesIn s) then None
      else Some (update_loop (unat nMaxMessages) io s))"

inductive sreachable :: "server \<Rightarrow> bool" where
  s_start: "sreachable (snd (Start None new_server))"
| s_step: "sreachable s \<Longrightarrow> sstep e s = Inr s' \<Longrightarrow> sreachable s'"

end
