(* ===== verification/ServerInvariant.thy ===== *)
theory ServerInvariant
  imports Server
begin

text \<open>
  What holds of the server in every reachable state: the connections' ends are healthy (the
  writes in flight match the queue of outgoing messages), the identifiers are the numbers the
  counter gave out, the deque holds each connection at most once and no null pointer, and the
  table of chats pairs clients both ways. From it the outcome of every step is determined, errors
  included.
\<close>

section \<open>Frame lemmas\<close>

lemma say_simps [simp]:
  "conns (say x s) = conns s" "next_ref (say x s) = next_ref s"
  "m_dequeConnections (say x s) = m_dequeConnections s" "nIDCounter (say x s) = nIDCounter s"
  "ClientConnections (say x s) = ClientConnections s" "qMessagesIn (say x s) = qMessagesIn s"
  "accepts (say x s) = accepts s" "context_running (say x s) = context_running s"
  by (simp_all add: say_def)

lemma set_conn_simps [simp]:
  "conns (set_conn r c s) = (conns s)(r := c)" "next_ref (set_conn r c s) = next_ref s"
  "m_dequeConnections (set_conn r c s) = m_dequeConnections s"
  "nIDCounter (set_conn r c s) = nIDCounter s"
  "ClientConnections (set_conn r c s) = ClientConnections s"
  "qMessagesIn (set_conn r c s) = qMessagesIn s"
  "accepts (set_conn r c s) = accepts s" "context_running (set_conn r c s) = context_running s"
  "cout (set_conn r c s) = cout s"
  by (simp_all add: set_conn_def)

lemma send_to_simps [simp]:
  "next_ref (send_to r m s) = next_ref s"
  "m_dequeConnections (send_to r m s) = m_dequeConnections s"
  "nIDCounter (send_to r m s) = nIDCounter s"
  "ClientConnections (send_to r m s) = ClientConnections s"
  "qMessagesIn (send_to r m s) = qMessagesIn s"
  "accepts (send_to r m s) = accepts s" "context_running (send_to r m s) = context_running s"
  "cout (send_to r m s) = cout s"
  by (simp_all add: send_to_def)

lemma conns_send_to:
  "conns (send_to r m s) r' =
     (if r' = r then (conns s r)\<lparr>tasks := tasks (conns s r) @ [SendTask m]\<rparr> else conns s r')"
  by (simp add: send_to_def Send_def)

lemma client_id_simps [simp]:
  "client_id (say x s) r = client_id s r"
  "client_id (send_to r' m s) r = client_id s r"
  "client_id (s\<lparr>m_dequeConnections := d\<rparr>) r = client_id s r"
  "client_id (s\<lparr>ClientConnections := cc\<rparr>) r = client_id s r"
  "client_id (s\<lparr>qMessagesIn := q\<rparr>) r = client_id s r"
  by (simp_all add: client_id_def GetID_def conns_send_to)

lemma connected_simps [simp]:
  "client_connected (say x s) k = client_connected s k"
  "client_connected (send_to r' m s) k = client_connected s k"
  by (cases k; simp add: IsConnected_def conns_send_to)+

text \<open>A step whose only effect on the connections is to send messages on them.\<close>

definition only_sends :: "server \<Rightarrow> server \<Rightarrow> bool" where
  "only_sends s s' \<longleftrightarrow> next_ref s' = next_ref s \<and> nIDCounter s' = nIDCounter s
     \<and> accepts s' = accepts s \<and> qMessagesIn s' = qMessagesIn s
     \<and> (\<forall>r. \<exists>ms. conns s' r = (conns s r)\<lparr>tasks := tasks (conns s r) @ map SendTask ms\<rparr>)"

lemma only_sends_refl [simp]: "only_sends s s"
  by (auto simp: only_sends_def intro: exI [of _ "[]"])

lemma only_sends_trans: "only_sends s s' \<Longrightarrow> only_sends s' s'' \<Longrightarrow> only_sends s s''"
proof -
  assume 1: "only_sends s s'" and 2: "only_sends s' s''"
  have "\<exists>ms. conns s'' r = (conns s r)\<lparr>tasks := tasks (conns s r) @ map SendTask ms\<rparr>" for r
  proof -
    obtain ms where ms: "conns s' r = (conns s r)\<lparr>tasks := tasks (conns s r) @ map SendTask ms\<rparr>"
      using 1 by (auto simp: only_sends_def)
    moreover obtain ms' where "conns s'' r = (conns s' r)\<lparr>tasks := tasks (conns s' r) @ map SendTask ms'\<rparr>"
      using 2 unfolding only_sends_def by blast
    ultimately show ?thesis by (auto intro: exI [of _ "ms @ ms'"])
  qed
  with 1 2 show ?thesis by (simp add: only_sends_def)
qed

lemma only_sends_say [simp]: "only_sends s (say x s') = only_sends s s'"
  by (simp add: only_sends_def)

lemma only_sends_deque [simp]:
  "only_sends s (s'\<lparr>m_dequeConnections := d\<rparr>) = only_sends s s'"
  "only_sends s (s'\<lparr>ClientConnections := cc\<rparr>) = only_sends s s'"
  by (simp_all add: only_sends_def)

lemma only_sends_send: "only_sends s (send_to r m s)"
  by (auto simp: only_sends_def conns_send_to intro: exI [of _ "[]"] exI [of _ "[m]"])

lemma only_sends_send_to: "only_sends s s' \<Longrightarrow> only_sends s (send_to r m s')"
  by (rule only_sends_trans [OF _ only_sends_send])

lemma only_sends_conn:
  "only_sends s s' \<Longrightarrow> client_id s' r = client_id s r \<and> client_connected s' k = client_connected s k"
proof -
  assume "only_sends s s'"
  then have "\<exists>ms. conns s' r = (conns s r)\<lparr>tasks := tasks (conns s r) @ map SendTask ms\<rparr>" for r
    by (simp add: only_sends_def)
  then have "conn_id (conns s' r) = conn_id (conns s r)" "sock_open (conns s' r) = sock_open (conns s r)"
    for r by (metis connection.ext_inject connection.surjective connection.update_convs(12))+
  then show ?thesis by (cases k) (simp_all add: client_id_def GetID_def IsConnected_def)
qed

declare client_connected.simps(2) [simp del]

section \<open>The ends of the connections\<close>

definition message_ops :: "(write_op \<times> bytes) list \<Rightarrow> (write_op \<times> bytes) list" where
  "message_ops ws = filter (\<lambda>w. fst w \<noteq> WriteValidationOp) ws"

text \<open>While the socket is open, exactly one write of a message is in flight when one is queued.\<close>

definition conn_ok :: "connection \<Rightarrow> bool" where
  "conn_ok c \<longleftrightarrow> m_nOwnerType c = OwnerServer
     \<and> (sock_open c \<longrightarrow> length (message_ops (writes c)) = (if m_qMessagesOut c = [] then 0 else 1))"

definition conn_step :: "connection \<Rightarrow> connection \<Rightarrow> bool" where
  "conn_step c c' \<longleftrightarrow> conn_ok c' \<and> conn_id c' = conn_id c \<and> (sock_open c' \<longrightarrow> sock_open c)"

lemma message_ops_simps [simp]:
  "message_ops [] = []"
  "message_ops ((op, bs) # ws) =
     (if op = WriteValidationOp then message_ops ws else (op, bs) # message_ops ws)"
  "message_ops (ws @ ws') = message_ops ws @ message_ops ws'"
  by (simp_all add: message_ops_def)

lemma run_task_ok:
  assumes "conn_ok c"
  shows "\<exists>c'. run_task c = Inr c' \<and> conn_step c c'"
proof (cases "tasks c")
  case Nil
  with assms show ?thesis by (simp add: run_task_def conn_step_def)
next
  case (Cons t ts)
  show ?thesis
  proof (cases t)
    case (SendTask m)
    with Cons assms show ?thesis
      by (cases "m_qMessagesOut c = []")
        (auto simp: run_task_def conn_ok_def conn_step_def send_posted_eq)
  next
    case CloseTask
    with Cons assms show ?thesis by (simp add: run_task_def conn_ok_def conn_step_def)
  qed
qed

lemma socket_write_failed_ok: "conn_ok c \<Longrightarrow> \<exists>c'. socket_write_failed c = Inr c' \<and> conn_step c c'"
proof (cases "writes c")
  case (Cons w ws)
  assume "conn_ok c"
  with Cons show ?thesis
    by (cases w; cases "fst w")
      (auto simp: socket_write_failed_def conn_ok_def conn_step_def handler_defs)
qed (simp add: socket_write_failed_def conn_step_def)

lemma socket_read_failed_ok: "conn_ok c \<Longrightarrow> conn_step c (socket_read_failed c)"
  by (auto simp: socket_read_failed_def conn_ok_def conn_step_def handler_defs
      split: list.split read_op.split)

lemma read_done_ok: "conn_ok c \<Longrightarrow> conn_step c (read_done op bs c)"
  by (cases op) (auto simp: conn_ok_def conn_step_def handler_defs)

lemma socket_received_ok:
  assumes "conn_ok c"
  shows "conn_step c (snd (socket_received bs c))"
proof -
  have "conn_step c (read_done op got (c\<lparr>reads := rs\<rparr>))" for op got rs
    using assms read_done_ok [of "c\<lparr>reads := rs\<rparr>" op got] by (simp add: conn_ok_def conn_step_def)
  moreover have "conn_step c (c\<lparr>reads := rs\<rparr>)" for rs
    using assms by (simp add: conn_ok_def conn_step_def)
  moreover have "conn_step c c"
    using assms by (simp add: conn_step_def)
  ultimately show ?thesis
    by (simp add: socket_received_def Let_def del: read_done.simps split: list.split)
qed

lemma next_message_ok:
  assumes "m_nOwnerType c = OwnerServer" and "message_ops (writes c) = []" and "m_qMessagesOut c \<noteq> []"
  shows "\<exists>c'. next_message c = Inr c' \<and> conn_step c c'"
  using assms by (cases "m_qMessagesOut c")
    (auto simp: next_message_def conn_ok_def conn_step_def WriteHeader_def tsqueue_defs Let_def
      split: list.split)

lemma socket_wrote_ok:
  assumes "conn_ok c"
  shows "\<exists>bs c'. socket_wrote n c = Inr (bs, c') \<and> conn_step c c'"
proof (cases "sock_open c \<and> writes c \<noteq> []")
  case True
  then obtain op bs ws where w: "writes c = (op, bs) # ws" by (cases "writes c") auto
  show ?thesis
  proof (cases "n < length bs")
    case True
    with assms w show ?thesis
      by (auto simp: socket_wrote_def conn_ok_def conn_step_def)
  next
    case False
    let ?c = "c\<lparr>writes := ws\<rparr>"
    have "\<exists>c'. write_done op False ?c = Inr c' \<and> conn_step c c'"
    proof (cases op)
      case WriteValidationOp
      with assms w show ?thesis
        by (auto simp: conn_ok_def conn_step_def validation_written_def)
    next
      case WriteHeaderOp
      with assms w True have q: "m_qMessagesOut ?c \<noteq> []" "message_ops (writes ?c) = []"
        "m_nOwnerType ?c = OwnerServer"
        by (auto simp: conn_ok_def split: if_splits)
      then obtain m q' where "m_qMessagesOut ?c = m # q'" by (cases "m_qMessagesOut ?c") auto
      then show ?thesis
        using WriteHeaderOp q True next_message_ok [OF q(3,2,1)]
        by (auto simp: header_written_def WriteBody_def tsqueue_defs conn_ok_def conn_step_def
            message_size_def)
    next
      case WriteBodyOp
      with assms w True have q: "m_qMessagesOut ?c \<noteq> []" "message_ops (writes ?c) = []"
        "m_nOwnerType ?c = OwnerServer"
        by (auto simp: conn_ok_def split: if_splits)
      then show ?thesis
        using WriteBodyOp next_message_ok [OF q(3,2,1)] by (auto simp: body_written_def conn_step_def)
    qed
    with False True w show ?thesis by (auto simp: socket_wrote_def)
  qed
qed (use assms in \<open>auto simp: socket_wrote_def conn_step_def split: list.split\<close>)

section \<open>The loops over the deque\<close>

definition live :: "server \<Rightarrow> nat list \<Rightarrow> nat list" where
  "live s rs = filter (\<lambda>r. client_connected s (Some r)) rs"

lemma erase_null_map:
  "erase_null (\<exists>r \<in> set rs. \<not> P r) (map (\<lambda>r. if P r then Some r else None) rs) = map Some (filter P rs)"
proof -
  have "removeAll None (map (\<lambda>r. if P r then Some r else None) rs) = map Some (filter P rs)"
    by (induction rs) simp_all
  moreover have "\<forall>r \<in> set rs. P r \<Longrightarrow>
      map (\<lambda>r. if P r then Some r else None) rs = map Some (filter P rs)"
    by (induction rs) simp_all
  ultimately show ?thesis by (auto simp: erase_null_def)
qed

lemma find_client_map:
  "find_client i (map Some rs) s = Inr (find (\<lambda>r. client_id s r = i) rs)"
  by (induction rs) simp_all

lemma message_all_loop_spec:
  "\<exists>s'. message_all_loop msg ign (map Some rs) s =
       Inr (\<exists>r \<in> set rs. \<not> client_connected s (Some r),
            map (\<lambda>r. if client_connected s (Some r) then Some r else None) rs, s')
   \<and> only_sends s s' \<and> ClientConnections s' = ClientConnections s
   \<and> (distinct rs \<longrightarrow> (\<forall>r. tasks (conns s' r) = tasks (conns s r) @
        (if r \<in> set (live s rs) \<and> Some r \<noteq> ign then [SendTask msg] else [])))"
proof (induction rs arbitrary: s)
  case Nil
  then show ?case by (simp add: live_def)
next
  case (Cons r rs)
  show ?case
  proof (cases "client_connected s (Some r)")
    case True
    define s1 where "s1 = (if Some r \<noteq> ign then send_to r msg s else s)"
    have s1: "only_sends s s1" "ClientConnections s1 = ClientConnections s"
      "\<And>k. client_connected s1 k = client_connected s k"
      by (simp_all add: s1_def only_sends_send)
    obtain s' where s': "message_all_loop msg ign (map Some rs) s1 =
        Inr (\<exists>r \<in> set rs. \<not> client_connected s (Some r),
            map (\<lambda>r. if client_connected s (Some r) then Some r else None) rs, s')"
        "only_sends s1 s'" "ClientConnections s' = ClientConnections s1"
        "distinct rs \<Longrightarrow> \<forall>r. tasks (conns s' r) = tasks (conns s1 r) @
          (if r \<in> set (live s rs) \<and> Some r \<noteq> ign then [SendTask msg] else [])"
      using Cons.IH [of s1] s1(3) by (auto simp: live_def)
    have "tasks (conns s1 q) = tasks (conns s q) @ (if q = r \<and> Some r \<noteq> ign then [SendTask msg] else [])"
      for q by (simp add: s1_def conns_send_to)
    moreover have "message_all_loop msg ign (map Some (r # rs)) s =
        and_then (message_all_loop msg ign (map Some rs) s1) (\<lambda>(inv, clients', s'').
          Inr (inv, Some r # clients', s''))"
      using True by (simp add: s1_def)
    ultimately show ?thesis
      using s' True s1 only_sends_trans [OF s1(1) s'(2)]
      by (intro exI [of _ s']) (auto simp: live_def)
  next
    case False
    define s1 where "s1 = say (''Removing client '' @ id_tag (client_id s r) @ nl) s"
    have "OnClientDisconnect (Some r) s = Inr s1"
      by (simp add: OnClientDisconnect_def s1_def)
    moreover have "only_sends s s1" "ClientConnections s1 = ClientConnections s" "conns s1 = conns s"
      "\<And>k. client_connected s1 k = client_connected s k"
      by (simp_all add: s1_def)
    moreover from this obtain s' where "message_all_loop msg ign (map Some rs) s1 =
        Inr (\<exists>r \<in> set rs. \<not> client_connected s (Some r),
            map (\<lambda>r. if client_connected s (Some r) then Some r else None) rs, s')"
        "only_sends s1 s'" "ClientConnections s' = ClientConnections s1"
        "distinct rs \<Longrightarrow> \<forall>r. tasks (conns s' r) = tasks (conns s r) @
          (if r \<in> set (live s rs) \<and> Some r \<noteq> ign then [SendTask msg] else [])"
      using Cons.IH [of s1] by (auto simp: live_def)
    ultimately show ?thesis
      using False only_sends_trans [of s s1 s'] by (auto simp: live_def)
  qed
qed

lemma client_list_loop_spec:
  "\<exists>s'. client_list_loop (map Some rs) s =
       Inr (\<exists>r \<in> set rs. \<not> client_connected s (Some r),
            map (\<lambda>r. if client_connected s (Some r) then Some r else None) rs,
            map (client_id s) (live s rs), s')
   \<and> only_sends s s' \<and> ClientConnections s' = ClientConnections s \<and> conns s' = conns s"
proof (induction rs arbitrary: s)
  case Nil
  then show ?case by (simp add: live_def)
next
  case (Cons r rs)
  show ?case
  proof (cases "client_connected s (Some r)")
    case True
    with Cons.IH [of s] show ?thesis by (auto simp: live_def)
  next
    case False
    define s1 where "s1 = say (''Removing client '' @ id_tag (client_id s r) @ nl) s"
    have "OnClientDisconnect (Some r) s = Inr s1"
      by (simp add: OnClientDisconnect_def s1_def)
    moreover have s1: "only_sends s s1" "ClientConnections s1 = ClientConnections s" "conns s1 = conns s"
      "\<And>k. client_connected s1 k = client_connected s k" "client_id s1 = client_id s"
      by (simp_all add: s1_def fun_eq_iff)
    ultimately show ?thesis
      using False Cons.IH [of s1] only_sends_trans [OF s1(1)] by (auto simp: live_def)
  qed
qed

lemma MessageAllClient_spec:
  assumes "m_dequeConnections s = map Some rs" and "distinct rs"
  shows "\<exists>s'. MessageAllClient msg ign s = Inr s' \<and> only_sends s s'
    \<and> ClientConnections s' = ClientConnections s \<and> m_dequeConnections s' = map Some (live s rs)
    \<and> (\<forall>r. tasks (conns s' r) = tasks (conns s r) @
        (if r \<in> set (live s rs) \<and> Some r \<noteq> ign then [SendTask msg] else []))"
  using message_all_loop_spec [of msg ign rs s] assms
  by (auto simp: MessageAllClient_def erase_null_map live_def)

lemma GetClientList_spec:
  assumes "m_dequeConnections s = map Some rs"
  shows "\<exists>s'. GetClientList s = Inr (map (client_id s) (live s rs), s') \<and> only_sends s s'
    \<and> ClientConnections s' = ClientConnections s \<and> m_dequeConnections s' = map Some (live s rs)
    \<and> conns s' = conns s"
  using client_list_loop_spec [of rs s] assms
  by (auto simp: GetClientList_def erase_null_map live_def)

lemma text_loop_absent:
  "ID \<notin> client_id s ` set rs \<Longrightarrow> text_loop client msg ID (map Some rs) s = Inr s"
  by (induction rs) auto

definition text_close :: "nat \<Rightarrow> u32 \<Rightarrow> server \<Rightarrow> fault + server" where
  "text_close client ID s =
     and_then (DisconnectClients ID (client_id s client) s) (\<lambda>s'.
       Inr (send_to client (new_message CloseClient) s'))"

lemma DisconnectClients_frame:
  "DisconnectClients a b s = Inr s' \<Longrightarrow>
   s' = s\<lparr>ClientConnections := (ClientConnections s)(a := None, b := None)\<rparr>"
  by (auto simp: DisconnectClients_def erase_found_def faults split: option.splits)

lemma text_loop_unique:
  assumes "inj_on (client_id s) (set rs)" and "distinct rs"
  shows "text_loop client msg ID (map Some rs) s =
    (case find (\<lambda>r. client_id s r = ID) rs of
       None \<Rightarrow> Inr s
     | Some r \<Rightarrow> if ClientConnections s (client_id s client) \<noteq> None \<and> client_connected s (Some r)
                then Inr (send_to r msg s) else text_close client ID s)"
  using assms
proof (induction rs)
  case Nil
  then show ?case by simp
next
  case (Cons r rs)
  show ?case
  proof (cases "client_id s r = ID")
    case True
    then have absent: "ID \<notin> client_id s ` set rs"
      using Cons.prems by auto
    have "text_loop client msg ID (map Some rs) (send_to client (new_message CloseClient) s')
        = Inr (send_to client (new_message CloseClient) s')"
      if "DisconnectClients ID (client_id s client) s = Inr s'" for s'
      using DisconnectClients_frame [OF that] absent by (intro text_loop_absent) simp
    then have "and_then (DisconnectClients ID (client_id s client) s) (\<lambda>s'.
        text_loop client msg ID (map Some rs) (send_to client (new_message CloseClient) s'))
      = text_close client ID s"
      by (cases "DisconnectClients ID (client_id s client) s") (simp_all add: text_close_def)
    with True show ?thesis by (simp add: client_connected.simps(2))
  next
    case False
    with Cons show ?thesis by simp
  qed
qed

section \<open>The invariant\<close>

text \<open>
  The identifiers stay apart, and clear of the codes 0 and 1 of the answers to a request, as long
  as the counter has not wrapped around.
\<close>

definition max_clients :: nat where
  "max_clients = 2 ^ 32 - 10000"

definition pairs_ok :: "(u32 \<Rightarrow> u32 option) \<Rightarrow> u32 set \<Rightarrow> bool" where
  "pairs_ok m ids \<longleftrightarrow> (\<forall>a b. m a = Some b \<longrightarrow> m b = Some a \<and> a \<noteq> b \<and> a \<in> ids)"

definition client_ids :: "server \<Rightarrow> u32 set" where
  "client_ids s = client_id s ` {..<next_ref s}"

definition conns_ok :: "server \<Rightarrow> bool" where
  "conns_ok s \<longleftrightarrow> (\<forall>r < next_ref s. conn_ok (conns s r) \<and> client_id s r = 10000 + of_nat r)"

definition deque_ok :: "server \<Rightarrow> nat list \<Rightarrow> bool" where
  "deque_ok s rs \<longleftrightarrow> m_dequeConnections s = map Some rs \<and> sorted_wrt (<) rs
     \<and> set rs \<subseteq> {..<next_ref s}
     \<and> (\<forall>r < next_ref s. client_connected s (Some r) \<longrightarrow> r \<in> set rs)"

definition server_ok :: "server \<Rightarrow> bool" where
  "server_ok s \<longleftrightarrow> conns_ok s \<and> (\<exists>rs. deque_ok s rs)
     \<and> nIDCounter s = 10000 + of_nat (next_ref s)
     \<and> pairs_ok (ClientConnections s) (client_ids s)
     \<and> (\<forall>m \<in> set (qMessagesIn s). remote m < next_ref s) \<and> accepts s = 1"

lemma deque_okD:
  "deque_ok s rs \<Longrightarrow> m_dequeConnections s = map Some rs"
  "deque_ok s rs \<Longrightarrow> distinct rs"
  "deque_ok s rs \<Longrightarrow> r \<in> set rs \<Longrightarrow> r < next_ref s"
  by (auto simp: deque_ok_def strict_sorted_iff)

lemma client_id_nat:
  assumes "conns_ok s" and "next_ref s \<le> max_clients" and "r < next_ref s"
  shows "unat (client_id s r) = 10000 + r"
proof -
  have "10000 + r < 2 ^ 32"
    using assms(2,3) by (simp add: max_clients_def)
  then have "unat (of_nat (10000 + r) :: u32) = 10000 + r"
    by (simp add: unat_of_nat del: of_nat_add)
  with assms show ?thesis by (simp add: conns_ok_def)
qed

lemma client_id_inj:
  assumes "conns_ok s" and "next_ref s \<le> max_clients" and "q < next_ref s" and "r < next_ref s"
  shows "client_id s q = client_id s r \<longleftrightarrow> q = r"
  using client_id_nat [OF assms(1,2,3)] client_id_nat [OF assms(1,2,4)] by (metis add_left_cancel)

lemma client_id_inj_on:
  "conns_ok s \<Longrightarrow> next_ref s \<le> max_clients \<Longrightarrow> set rs \<subseteq> {..<next_ref s} \<Longrightarrow> inj_on (client_id s) (set rs)"
  unfolding inj_on_def using client_id_inj by blast

lemma pairs_okI:
  assumes "\<And>a b. m a = Some b \<Longrightarrow> m b = Some a \<and> a \<noteq> b \<and> a \<in> ids"
  shows "pairs_ok m ids"
  using assms unfolding pairs_ok_def by blast

lemma pairs_okD:
  assumes "pairs_ok m ids" and "m a = Some b"
  shows "m b = Some a" and "a \<noteq> b" and "a \<in> ids" and "b \<in> ids"
  using assms unfolding pairs_ok_def by blast+

lemma pairs_ok_mono: "pairs_ok m ids \<Longrightarrow> ids \<subseteq> ids' \<Longrightarrow> pairs_ok m ids'"
  unfolding pairs_ok_def by blast

lemma pairs_ok_connect:
  assumes "pairs_ok m ids" and "m a = None" and "m b = None" and "a \<noteq> b" and "a \<in> ids" and "b \<in> ids"
  shows "pairs_ok (m(a \<mapsto> b, b \<mapsto> a)) ids"
proof (rule pairs_okI)
  fix x y assume xy: "(m(a \<mapsto> b, b \<mapsto> a)) x = Some y"
  show "(m(a \<mapsto> b, b \<mapsto> a)) y = Some x \<and> x \<noteq> y \<and> x \<in> ids"
  proof (cases "x = a \<or> x = b")
    case True
    with xy assms(4-6) show ?thesis by auto
  next
    case False
    with xy have "m x = Some y" by simp
    from pairs_okD [OF assms(1) this] assms(2,3) False show ?thesis by auto
  qed
qed

lemma pairs_ok_disconnect:
  assumes "pairs_ok m ids" and "m a = Some b"
  shows "pairs_ok (m(a := None, b := None)) ids"
proof (rule pairs_okI)
  fix x y assume xy: "(m(a := None, b := None)) x = Some y"
  then have "m x = Some y" "x \<noteq> a" "x \<noteq> b" by (auto split: if_splits)
  with pairs_okD [OF assms(1) this(1)] pairs_okD(1) [OF assms] assms(2)
  show "(m(a := None, b := None)) y = Some x \<and> x \<noteq> y \<and> x \<in> ids" by auto
qed

lemma DisconnectClients_pair:
  assumes "pairs_ok (ClientConnections s) ids" and "ClientConnections s a = Some b"
  shows "DisconnectClients a b s = Inr (s\<lparr>ClientConnections := (ClientConnections s)(a := None, b := None)\<rparr>)"
    and "DisconnectClients b a s = Inr (s\<lparr>ClientConnections := (ClientConnections s)(a := None, b := None)\<rparr>)"
  using pairs_okD(1,2) [OF assms] assms(2)
  by (simp_all add: DisconnectClients_def erase_found_def fun_upd_twist)

section \<open>What each message does\<close>

lemma find_client_some:
  "find (\<lambda>r. client_id s r = i) rs = Some r \<Longrightarrow> r \<in> set rs \<and> client_id s r = i"
  by (auto simp: find_Some_iff)

lemma on_RequestToClient_spec:
  fixes client :: nat
  assumes "deque_ok s rs" and "pop_u32 msg = Inr (ID, msg')"
  defines "s0 \<equiv> say (id_tag (client_id s client) @ '': Connection request to '' @ show_u32 ID @ nl) s"
    and "a \<equiv> client_id s client"
  shows "on_RequestToClient client msg s = Inr
    (case find (\<lambda>r. client_id s r = ID) rs of
       None \<Rightarrow> send_to client (push_u32 (new_message RequestToClient) 0) s0
     | Some r \<Rightarrow>
         if ClientConnections s a = None \<and> ClientConnections s ID = None \<and> a \<noteq> ID
         then send_to r (push_u32 (new_message RequestToClient) a)
                (s0\<lparr>ClientConnections := (ClientConnections s)(a \<mapsto> ID, ID \<mapsto> a)\<rparr>)
         else send_to client (push_u32 (new_message RequestToClient) 1) s0)"
  using assms(1,2) find_client_map [of ID rs s0]
  by (auto simp: on_RequestToClient_def Let_def deque_okD ConnectClients_def s0_def a_def
      split: option.split)

lemma on_TextClient_spec:
  assumes "conns_ok s" and "next_ref s \<le> max_clients" and "deque_ok s rs"
    and "pairs_ok (ClientConnections s) (client_ids s)"
    and "ClientConnections s (client_id s client) = Some ID"
  defines "s0 \<equiv> say (id_tag (client_id s client) @ '': Text Client'' @ nl) s"
  shows "on_TextClient client msg s = Inr
    (case find (\<lambda>r. client_id s r = ID) rs of
       None \<Rightarrow> s0
     | Some r \<Rightarrow>
         if client_connected s (Some r) then send_to r msg s0
         else send_to client (new_message CloseClient)
                (s0\<lparr>ClientConnections := (ClientConnections s)(client_id s client := None, ID := None)\<rparr>))"
proof -
  have s0: "conns_ok s0 = conns_ok s" "next_ref s0 = next_ref s" "client_id s0 = client_id s"
    "ClientConnections s0 = ClientConnections s" "m_dequeConnections s0 = map Some rs"
    "\<And>k. client_connected s0 k = client_connected s k"
    using deque_okD(1) [OF assms(3)] by (simp_all add: s0_def conns_ok_def fun_eq_iff)
  have "set rs \<subseteq> {..<next_ref s}"
    using assms(3) by (simp add: deque_ok_def)
  then have "text_loop client msg ID (map Some rs) s0 =
    (case find (\<lambda>r. client_id s r = ID) rs of
       None \<Rightarrow> Inr s0
     | Some r \<Rightarrow> if client_connected s (Some r)
                then Inr (send_to r msg s0) else text_close client ID s0)"
    using text_loop_unique [of s0 rs client msg ID] client_id_inj_on [OF assms(1,2), of rs]
      deque_okD(2) [OF assms(3)] assms(5)
    by (simp add: s0 split: option.split)
  moreover have "text_close client ID s0 = Inr (send_to client (new_message CloseClient)
        (s0\<lparr>ClientConnections := (ClientConnections s)(client_id s client := None, ID := None)\<rparr>))"
    using DisconnectClients_pair(2) [of s0 "client_ids s" "client_id s client" ID] assms(4,5)
    by (simp add: text_close_def s0)
  moreover have "on_TextClient client msg s = text_loop client msg ID (map Some rs) s0"
    unfolding on_TextClient_def Let_def s0_def [symmetric] using assms(5)
    by (simp add: partner_at_def s0)
  ultimately show ?thesis
    by (simp split: option.split)
qed

lemma on_RequestAnswer_spec:
  assumes "deque_ok s rs" and "ClientConnections s (client_id s client) = Some ID"
  defines "s0 \<equiv> say (id_tag (client_id s client) @ '': Request Answer'' @ nl) s"
  shows "on_RequestAnswer client msg s = Inr
    (case find (\<lambda>r. client_id s r = ID) rs of None \<Rightarrow> s0 | Some r \<Rightarrow> send_to r msg s0)"
  using assms(1,2) find_client_map [of ID rs s0]
  by (auto simp: on_RequestAnswer_def Let_def partner_at_def deque_okD s0_def split: option.split)

lemma on_CloseClient_spec:
  assumes "deque_ok s rs" and "pairs_ok (ClientConnections s) (client_ids s)"
    and "ClientConnections s (client_id s client) = Some ID"
  defines "s0 \<equiv> say (id_tag (client_id s client) @ '': Close client'' @ nl) s"
  shows "on_CloseClient client s = Inr
    ((case find (\<lambda>r. client_id s r = ID) rs of None \<Rightarrow> s0 | Some r \<Rightarrow> send_to r (new_message CloseClient) s0)
       \<lparr>ClientConnections := (ClientConnections s)(client_id s client := None, ID := None)\<rparr>)"
proof -
  let ?s = "case find (\<lambda>r. client_id s r = ID) rs of None \<Rightarrow> s0
    | Some r \<Rightarrow> send_to r (new_message CloseClient) s0"
  have "ClientConnections ?s = ClientConnections s" "client_id ?s client = client_id s client"
    by (simp_all add: s0_def split: option.split)
  then have "DisconnectClients (client_id s client) ID ?s =
      Inr (?s\<lparr>ClientConnections := (ClientConnections s)(client_id s client := None, ID := None)\<rparr>)"
    using DisconnectClients_pair(1) [of ?s "client_ids s" "client_id s client" ID] assms(2,3) by simp
  then show ?thesis
    using assms(1,3) find_client_map [of ID rs s0]
    by (auto simp: on_CloseClient_def Let_def partner_at_def deque_okD s0_def split: option.split)
qed

text \<open>When \<open>OnMessage\<close> fails, and with what; when it does not, what it keeps.\<close>

definition message_fault :: "server \<Rightarrow> nat \<Rightarrow> message \<Rightarrow> fault option" where
  "message_fault s client msg =
     (case msg_type (hdr_id (header msg)) of
        Some RequestToClient \<Rightarrow> if message_size msg < 4 then Some UndefinedBehaviour else None
      | Some TextClient \<Rightarrow>
          if ClientConnections s (client_id s client) = None then Some OutOfRange else None
      | Some RequestAnswer \<Rightarrow>
          if ClientConnections s (client_id s client) = None then Some OutOfRange else None
      | Some CloseClient \<Rightarrow>
          if ClientConnections s (client_id s client) = None then Some OutOfRange else None
      | _ \<Rightarrow> None)"

definition msg_effect :: "server \<Rightarrow> nat list \<Rightarrow> server \<Rightarrow> bool" where
  "msg_effect s rs s' \<longleftrightarrow> only_sends s s'
     \<and> (m_dequeConnections s' = map Some rs \<or> m_dequeConnections s' = map Some (live s rs))
     \<and> pairs_ok (ClientConnections s') (client_ids s)"

lemma msg_effect_refl:
  "deque_ok s rs \<Longrightarrow> pairs_ok (ClientConnections s) (client_ids s) \<Longrightarrow> msg_effect s rs s"
  by (simp add: msg_effect_def deque_okD)

lemma msg_effect_say [simp]: "msg_effect s rs (say x s') = msg_effect s rs s'"
  by (simp add: msg_effect_def)

lemma msg_effect_say_from [simp]: "msg_effect (say x s) rs s' = msg_effect s rs s'"
proof -
  have "only_sends (say x s) s' = only_sends s s'" by (simp add: only_sends_def)
  moreover have "client_ids (say x s) = client_ids s" by (simp add: client_ids_def)
  ultimately show ?thesis by (simp add: msg_effect_def live_def)
qed

lemma msg_effect_send: "msg_effect s rs s' \<Longrightarrow> msg_effect s rs (send_to r m s')"
  by (simp add: msg_effect_def only_sends_send_to)

lemma msg_effect_pairs:
  "msg_effect s rs s' \<Longrightarrow> pairs_ok cc (client_ids s) \<Longrightarrow> msg_effect s rs (s'\<lparr>ClientConnections := cc\<rparr>)"
  by (simp add: msg_effect_def)

lemma msg_effect_send_pairs:
  "msg_effect s rs s' \<Longrightarrow> pairs_ok cc (client_ids s) \<Longrightarrow>
   msg_effect s rs (send_to r m (s'\<lparr>ClientConnections := cc\<rparr>))"
  by (intro msg_effect_send msg_effect_pairs)

lemma find_client_id_in:
  assumes "deque_ok s rs" and "find (\<lambda>r. client_id s r = i) rs = Some r"
  shows "i \<in> client_ids s"
proof -
  have "r \<in> set rs" and "client_id s r = i"
    using find_client_some [OF assms(2)] by simp_all
  with deque_okD(3) [OF assms(1)] show ?thesis unfolding client_ids_def by blast
qed

lemma pop_u32_short: "message_size msg < 4 \<Longrightarrow> pop_u32 msg = Inl UndefinedBehaviour"
  by (simp add: pop_pod_def)

lemma partner_at_say [simp]: "partner_at (say x s) i = partner_at s i"
  by (simp add: partner_at_def)

lemma OnMessage_fault:
  assumes "message_fault s client msg = Some f"
  shows "OnMessage client msg s = Inl f"
proof (cases "msg_type (hdr_id (header msg))")
  case None
  with assms show ?thesis by (simp add: message_fault_def)
next
  case (Some t)
  have "partner_at s (client_id s client) = Inl OutOfRange"
    if "ClientConnections s (client_id s client) = None"
    using that by (simp add: partner_at_def)
  with Some assms show ?thesis
    by (cases t) (simp_all add: message_fault_def OnMessage_def on_RequestToClient_def
        on_TextClient_def on_RequestAnswer_def on_CloseClient_def Let_def pop_u32_short
        split: if_splits)
qed

lemma on_RequestToClient_effect:
  assumes "server_ok s" and "deque_ok s rs" and "client < next_ref s" and "\<not> message_size msg < 4"
  shows "\<exists>s'. on_RequestToClient client msg s = Inr s' \<and> msg_effect s rs s'"
proof -
  obtain ID msg' where p: "pop_u32 msg = Inr (ID, msg')"
    using assms(4) by (auto simp: pop_pod_def Let_def)
  have ok: "pairs_ok (ClientConnections s) (client_ids s)" and c: "client_id s client \<in> client_ids s"
    using assms(1,3) by (auto simp: server_ok_def client_ids_def)
  have "msg_effect s rs s"
    by (rule msg_effect_refl [OF assms(2) ok])
  moreover have "pairs_ok ((ClientConnections s)(client_id s client \<mapsto> ID, ID \<mapsto> client_id s client))
      (client_ids s)"
    if "ClientConnections s (client_id s client) = None \<and> ClientConnections s ID = None
        \<and> client_id s client \<noteq> ID" and "find (\<lambda>r. client_id s r = ID) rs = Some r" for r
    using that find_client_id_in [OF assms(2) that(2)] pairs_ok_connect [OF ok _ _ _ c] by blast
  ultimately show ?thesis
    by (simp only: on_RequestToClient_spec [OF assms(2) p])
      (auto simp: msg_effect_send msg_effect_send_pairs split: option.split)
qed

lemma on_TextClient_effect:
  assumes "server_ok s" and "deque_ok s rs" and "next_ref s \<le> max_clients"
    and "ClientConnections s (client_id s client) = Some ID"
  shows "\<exists>s'. on_TextClient client msg s = Inr s' \<and> msg_effect s rs s'"
proof -
  have ok: "conns_ok s" "pairs_ok (ClientConnections s) (client_ids s)"
    using assms(1) by (auto simp: server_ok_def)
  have "msg_effect s rs s"
    by (rule msg_effect_refl [OF assms(2) ok(2)])
  then show ?thesis
    by (simp only: on_TextClient_spec [OF ok(1) assms(3,2) ok(2) assms(4)])
      (auto simp: msg_effect_send msg_effect_send_pairs pairs_ok_disconnect [OF ok(2) assms(4)]
        split: option.split)
qed

lemma on_RequestAnswer_effect:
  assumes "server_ok s" and "deque_ok s rs" and "ClientConnections s (client_id s client) = Some ID"
  shows "\<exists>s'. on_RequestAnswer client msg s = Inr s' \<and> msg_effect s rs s'"
proof -
  have "msg_effect s rs s"
    using msg_effect_refl [OF assms(2)] assms(1) by (simp add: server_ok_def)
  then show ?thesis
    by (simp only: on_RequestAnswer_spec [OF assms(2,3)])
      (auto simp: msg_effect_send split: option.split)
qed

lemma on_CloseClient_effect:
  assumes "server_ok s" and "deque_ok s rs" and "ClientConnections s (client_id s client) = Some ID"
  shows "\<exists>s'. on_CloseClient client s = Inr s' \<and> msg_effect s rs s'"
proof -
  have ok: "pairs_ok (ClientConnections s) (client_ids s)"
    using assms(1) by (simp add: server_ok_def)
  have "msg_effect s rs s"
    by (rule msg_effect_refl [OF assms(2) ok])
  then show ?thesis
    by (simp only: on_CloseClient_spec [OF assms(2) ok assms(3)])
      (auto simp: msg_effect_send intro!: msg_effect_pairs pairs_ok_disconnect [OF ok assms(3)]
        split: option.split)
qed

lemma on_MessageAll_effect:
  assumes "server_ok s" and "deque_ok s rs"
  shows "\<exists>s'. on_MessageAll client s = Inr s' \<and> msg_effect s rs s'"
proof -
  let ?s = "say (id_tag (client_id s client) @ '': Message All'' @ nl) s"
  let ?m = "push_u32 (new_message ServerMessage) (client_id ?s client)"
  have "m_dequeConnections ?s = map Some rs" and "distinct rs"
    using deque_okD [OF assms(2)] by simp_all
  from MessageAllClient_spec [OF this, of ?m "Some client"]
  obtain s' where s': "MessageAllClient ?m (Some client) ?s = Inr s'" "only_sends ?s s'"
      "ClientConnections s' = ClientConnections ?s" "m_dequeConnections s' = map Some (live ?s rs)"
    by blast
  moreover have "msg_effect ?s rs s'"
    using s' assms(1) by (simp add: msg_effect_def server_ok_def client_ids_def)
  ultimately show ?thesis by (simp add: on_MessageAll_def Let_def)
qed

lemma on_ClientList_effect:
  assumes "server_ok s" and "deque_ok s rs"
  shows "\<exists>s'. on_ClientList client s = Inr s' \<and> msg_effect s rs s'"
proof -
  let ?s = "say (id_tag (client_id s client) @ '': Client List'' @ nl) s"
  have "m_dequeConnections ?s = map Some rs"
    using deque_okD [OF assms(2)] by simp
  from GetClientList_spec [OF this]
  obtain s' where s': "GetClientList ?s = Inr (map (client_id ?s) (live ?s rs), s')" "only_sends ?s s'"
      "ClientConnections s' = ClientConnections ?s" "m_dequeConnections s' = map Some (live ?s rs)"
    by blast
  moreover have "msg_effect ?s rs s'"
    using s' assms(1) by (simp add: msg_effect_def server_ok_def client_ids_def)
  ultimately show ?thesis by (simp add: on_ClientList_def msg_effect_send)
qed

lemma OnMessage_effect:
  assumes "server_ok s" and "deque_ok s rs" and "next_ref s \<le> max_clients" and "client < next_ref s"
    and "message_fault s client msg = None"
  shows "\<exists>s'. OnMessage client msg s = Inr s' \<and> msg_effect s rs s'"
proof -
  have e: "msg_effect s rs s"
    using msg_effect_refl [OF assms(2)] assms(1) by (simp add: server_ok_def)
  show ?thesis
  proof (cases "msg_type (hdr_id (header msg))")
    case None
    with e show ?thesis by (simp add: OnMessage_def)
  next
    case (Some t)
    with assms(5) e show ?thesis
      using on_RequestToClient_effect [OF assms(1,2,4)] on_TextClient_effect [OF assms(1,2,3)]
        on_RequestAnswer_effect [OF assms(1,2)] on_CloseClient_effect [OF assms(1,2)]
        on_MessageAll_effect [OF assms(1,2)] on_ClientList_effect [OF assms(1,2)]
      by (cases t)
        (auto simp: OnMessage_def message_fault_def on_ServerPing_def msg_effect_send
          simp del: not_None_eq split: if_splits)
  qed
qed

section \<open>Steps\<close>

text \<open>\<open>OnMessage\<close> makes no connection, whatever the state.\<close>

lemma OnClientDisconnect_next_ref: "OnClientDisconnect k s = Inr s' \<Longrightarrow> next_ref s' = next_ref s"
  by (auto simp: OnClientDisconnect_def split: option.splits)

lemma message_all_loop_next_ref:
  "message_all_loop msg ign ks s = Inr (b, ks', s') \<Longrightarrow> next_ref s' = next_ref s"
proof (induction ks arbitrary: s b ks' s')
  case (Cons k ks)
  show ?case
  proof (cases "client_connected s k")
    case True
    define s1 where "s1 = (if k \<noteq> ign then case k of Some r \<Rightarrow> send_to r msg s | None \<Rightarrow> s else s)"
    have "next_ref s1 = next_ref s" by (simp add: s1_def split: option.split)
    moreover have "\<exists>b ks'. message_all_loop msg ign ks s1 = Inr (b, ks', s')"
      using Cons.prems True unfolding message_all_loop.simps Let_def s1_def [symmetric]
      by (auto simp: faults)
    ultimately show ?thesis using Cons.IH by fastforce
  next
    case False
    then obtain s1 b ks' where "OnClientDisconnect k s = Inr s1"
      "message_all_loop msg ign ks s1 = Inr (b, ks', s')"
      using Cons.prems by (auto simp: faults)
    then show ?thesis using Cons.IH OnClientDisconnect_next_ref by fastforce
  qed
qed simp

lemma client_list_loop_next_ref:
  "client_list_loop ks s = Inr (b, ks', ids, s') \<Longrightarrow> next_ref s' = next_ref s"
proof (induction ks s arbitrary: b ks' ids s' rule: client_list_loop.induct)
  case (2 k ks s)
  then show ?case
    by (cases "client_connected s k") (auto simp: faults dest!: OnClientDisconnect_next_ref)
qed simp

lemma text_loop_next_ref: "text_loop c msg ID ks s = Inr s' \<Longrightarrow> next_ref s' = next_ref s"
  by (induction c msg ID ks s rule: text_loop.induct)
    (auto simp: faults split: if_splits dest!: DisconnectClients_frame)

lemma ConnectClients_next_ref [simp]: "next_ref (snd (ConnectClients a b s)) = next_ref s"
  by (simp add: ConnectClients_def)

lemma OnMessage_next_ref:
  assumes "OnMessage client msg s = Inr s'"
  shows "next_ref s' = next_ref s"
proof (cases "msg_type (hdr_id (header msg))")
  case None
  with assms show ?thesis by (simp add: OnMessage_def)
next
  case (Some t)
  then show ?thesis
  proof (cases t)
    case RequestToClient
    with Some assms show ?thesis
      by (auto simp: OnMessage_def on_RequestToClient_def ConnectClients_def faults Let_def
          split: option.splits if_splits)
  next
    case TextClient
    with Some assms show ?thesis
      by (auto simp: OnMessage_def on_TextClient_def faults Let_def dest!: text_loop_next_ref)
  next
    case RequestAnswer
    with Some assms show ?thesis
      by (auto simp: OnMessage_def on_RequestAnswer_def faults Let_def split: option.splits)
  next
    case CloseClient
    with Some assms show ?thesis
      by (auto simp: OnMessage_def on_CloseClient_def faults Let_def
          dest!: DisconnectClients_frame split: option.splits)
  next
    case MessageAll
    with Some assms show ?thesis
      by (auto simp: OnMessage_def on_MessageAll_def MessageAllClient_def faults Let_def
          dest!: message_all_loop_next_ref)
  next
    case ClientList
    with Some assms show ?thesis
      by (auto simp: OnMessage_def on_ClientList_def GetClientList_def faults Let_def
          dest!: client_list_loop_next_ref)
  qed (use Some assms in \<open>auto simp: OnMessage_def on_ServerPing_def\<close>)
qed

lemma only_sends_conns_ok: "only_sends s s' \<Longrightarrow> conns_ok s' = conns_ok s"
proof -
  assume o: "only_sends s s'"
  have "conn_ok (conns s' r) = conn_ok (conns s r)" for r
  proof -
    obtain ms where "conns s' r = (conns s r)\<lparr>tasks := tasks (conns s r) @ map SendTask ms\<rparr>"
      using o unfolding only_sends_def by blast
    then show ?thesis by (simp add: conn_ok_def)
  qed
  with o only_sends_conn [OF o] show ?thesis by (simp add: conns_ok_def only_sends_def)
qed

lemma msg_effect_ok:
  assumes "server_ok s" and "deque_ok s rs" and "msg_effect s rs s'"
  shows "server_ok s'"
proof -
  have o: "only_sends s s'" and p: "pairs_ok (ClientConnections s') (client_ids s)"
    and d: "m_dequeConnections s' = map Some rs \<or> m_dequeConnections s' = map Some (live s rs)"
    using assms(3) by (auto simp: msg_effect_def)
  have f: "next_ref s' = next_ref s" "nIDCounter s' = nIDCounter s" "accepts s' = accepts s"
      "qMessagesIn s' = qMessagesIn s"
    using o by (auto simp: only_sends_def)
  have ids: "client_ids s' = client_ids s"
    using only_sends_conn [OF o] f(1) by (simp add: client_ids_def)
  have sorted: "sorted_wrt (<) rs" "set rs \<subseteq> {..<next_ref s}"
      "\<And>r. r < next_ref s \<Longrightarrow> client_connected s (Some r) \<Longrightarrow> r \<in> set rs"
    using assms(2) by (auto simp: deque_ok_def)
  have c: "\<And>k. client_connected s' k = client_connected s k"
    using only_sends_conn [OF o] by blast
  have l: "sorted_wrt (<) (live s rs)" "set (live s rs) \<subseteq> {..<next_ref s}"
      "\<And>r. r < next_ref s \<Longrightarrow> client_connected s (Some r) \<Longrightarrow> r \<in> set (live s rs)"
    using sorted by (auto simp: live_def sorted_wrt_filter)
  have "deque_ok s' rs \<or> deque_ok s' (live s rs)"
    using d
  proof
    assume "m_dequeConnections s' = map Some rs"
    with sorted f(1) c show ?thesis by (simp add: deque_ok_def)
  next
    assume "m_dequeConnections s' = map Some (live s rs)"
    with l f(1) c show ?thesis by (simp add: deque_ok_def)
  qed
  with assms(1) only_sends_conns_ok [OF o] f p ids show ?thesis
    by (auto simp: server_ok_def)
qed

lemma absorb_simps [simp]:
  "next_ref (absorb r c s) = next_ref s" "nIDCounter (absorb r c s) = nIDCounter s"
  "m_dequeConnections (absorb r c s) = m_dequeConnections s"
  "ClientConnections (absorb r c s) = ClientConnections s" "accepts (absorb r c s) = accepts s"
  "conns (absorb r c s) = (conns s)(r := c\<lparr>m_qMessagesIn := [], conn_log := []\<rparr>)"
  "qMessagesIn (absorb r c s) =
     qMessagesIn s @ map (\<lambda>m. \<lparr>remote = r, owned_msg = m\<rparr>) (m_qMessagesIn c)"
  by (simp_all add: absorb_def tsq.items_pushes)

lemma absorb_ok:
  assumes "server_ok s" and "r < next_ref s" and "conn_step (conns s r) c"
  shows "server_ok (absorb r c s)"
proof -
  let ?s = "absorb r c s"
  have ids: "client_id ?s q = client_id s q" for q
    using assms(3) by (simp add: client_id_def GetID_def conn_step_def)
  moreover have "conn_ok (conns ?s q) = conn_ok (if q = r then c else conns s q)" for q
    by (simp add: conn_ok_def)
  ultimately have "conns_ok ?s"
    using assms by (simp add: server_ok_def conns_ok_def conn_step_def)
  moreover have "client_connected ?s (Some q) \<Longrightarrow> client_connected s (Some q)" for q
    using assms(3) by (auto simp: client_connected.simps IsConnected_def conn_step_def split: if_splits)
  then have "deque_ok s rs \<Longrightarrow> deque_ok ?s rs" for rs
    by (auto simp: deque_ok_def)
  moreover have "client_ids ?s = client_ids s"
    by (simp add: client_ids_def ids)
  ultimately show ?thesis
    using assms(1,2) by (auto simp: server_ok_def)
qed

text \<open>The connection that a successful accept makes, as the handler leaves it.\<close>

definition new_client :: "server \<Rightarrow> u64 \<Rightarrow> connection" where
  "new_client s now =
     ConnectToClient (nIDCounter s)
       (Send (push_u32 (new_message ServerAccept) (nIDCounter s)) (make_connection OwnerServer now True))"

lemma accept_done_spec:
  assumes "accept_done None (Some addr) now s = Inr s'"
  shows "next_ref s' = Suc (next_ref s) \<and> nIDCounter s' = nIDCounter s + 1
    \<and> m_dequeConnections s' = m_dequeConnections s @ [Some (next_ref s)]
    \<and> conns s' = (conns s)(next_ref s := new_client s now)
    \<and> ClientConnections s' = ClientConnections s \<and> qMessagesIn s' = qMessagesIn s
    \<and> accepts s' = Suc (accepts s - 1)"
  using assms
  by (auto simp: accept_done_def OnClientConnect_def WaitForClientConnection_def Let_def
      send_to_def new_client_def)

lemma accept_done_error:
  "accept_done (Some what) endpoint now s = Inr s' \<Longrightarrow>
   conns s' = conns s \<and> next_ref s' = next_ref s \<and> m_dequeConnections s' = m_dequeConnections s
   \<and> nIDCounter s' = nIDCounter s \<and> ClientConnections s' = ClientConnections s
   \<and> qMessagesIn s' = qMessagesIn s \<and> accepts s' = Suc (accepts s - 1)"
  by (auto simp: accept_done_def WaitForClientConnection_def)

lemma accept_done_outcome:
  "accept_done error endpoint now s = Inl f \<longleftrightarrow> error = None \<and> endpoint = None \<and> f = SystemError"
  by (cases error; cases endpoint)
    (auto simp: accept_done_def OnClientConnect_def Let_def)

lemma new_client_ok:
  "conn_ok (new_client s now)" "GetID (new_client s now) = nIDCounter s" "IsConnected (new_client s now)"
  by (simp_all add: new_client_def conn_ok_def make_connection_def handler_defs)

lemma client_id_upd:
  "conns s' = (conns s)(r := c) \<Longrightarrow> client_id s' q = (if q = r then GetID c else client_id s q)"
  by (simp add: client_id_def)

lemma client_connected_upd:
  "conns s' = (conns s)(r := c) \<Longrightarrow>
   client_connected s' (Some q) = (if q = r then IsConnected c else client_connected s (Some q))"
  by (simp add: client_connected.simps)

lemma accepted_ok:
  assumes "server_ok s" and "accept_done None (Some addr) now s = Inr s'"
  shows "server_ok s'"
proof -
  note a = accept_done_spec [OF assms(2)]
  let ?r = "next_ref s"
  have c: "conns s' = (conns s)(?r := new_client s now)" and n: "next_ref s' = Suc ?r"
    using a by simp_all
  have id: "client_id s' q = (if q = ?r then 10000 + of_nat ?r else client_id s q)" for q
    using client_id_upd [OF c] new_client_ok(2) assms(1) by (simp add: server_ok_def)
  have "conns_ok s'"
    using assms(1) id n c new_client_ok(1)
    by (auto simp: server_ok_def conns_ok_def less_Suc_eq)
  moreover obtain rs where "deque_ok s rs"
    using assms(1) by (auto simp: server_ok_def)
  then have "deque_ok s' (rs @ [?r])"
    using a n client_connected_upd [OF c]
    by (auto simp: deque_ok_def sorted_wrt_append less_Suc_eq split: if_splits)
  moreover have sub: "client_ids s \<subseteq> client_ids s'"
    using id n by (auto simp: client_ids_def image_iff less_Suc_eq)
  have "pairs_ok (ClientConnections s) (client_ids s)"
    using assms(1) by (simp add: server_ok_def)
  then have "pairs_ok (ClientConnections s') (client_ids s')"
    using pairs_ok_mono [OF _ sub] a by simp
  moreover have "\<forall>m \<in> set (qMessagesIn s'). remote m < next_ref s'"
    using assms(1) a by (auto simp: server_ok_def less_Suc_eq)
  moreover have "nIDCounter s' = 10000 + of_nat (next_ref s')" "accepts s' = 1"
    using assms(1) a by (simp_all add: server_ok_def)
  ultimately show ?thesis
    unfolding server_ok_def by blast
qed

lemma accept_error_ok:
  assumes "server_ok s" and "accept_done (Some what) endpoint now s = Inr s'"
  shows "server_ok s' \<and> next_ref s' = next_ref s"
proof -
  note a = accept_done_error [OF assms(2)]
  have "client_id s' = client_id s" "\<And>k. client_connected s' (Some k) = client_connected s (Some k)"
    using a by (auto simp: client_id_def client_connected.simps)
  with a assms(1) show ?thesis
    by (auto simp: server_ok_def conns_ok_def deque_ok_def client_ids_def)
qed

lemma process_message_eq:
  "qMessagesIn s = m # q \<Longrightarrow>
   process_message s = OnMessage (remote m) (owned_msg m) (s\<lparr>qMessagesIn := q\<rparr>)"
  by (simp add: process_message_def pop_front_def)

text \<open>Taking the first message off the queue changes nothing else.\<close>

lemma pop_ok:
  assumes "server_ok s" and "qMessagesIn s = m # q"
  shows "server_ok (s\<lparr>qMessagesIn := q\<rparr>)" and "deque_ok s rs \<Longrightarrow> deque_ok (s\<lparr>qMessagesIn := q\<rparr>) rs"
    and "message_fault (s\<lparr>qMessagesIn := q\<rparr>) c msg = message_fault s c msg"
proof -
  let ?s = "s\<lparr>qMessagesIn := q\<rparr>"
  have c: "client_connected ?s k = client_connected s k" for k
    by (cases k) (simp_all add: client_connected.simps)
  then show "deque_ok s rs \<Longrightarrow> deque_ok ?s rs" for rs by (simp add: deque_ok_def)
  with assms show "server_ok ?s"
    by (auto simp: server_ok_def conns_ok_def client_ids_def)
  show "message_fault ?s c msg = message_fault s c msg"
    by (simp add: message_fault_def split: option.split CustomMsgTypes.split)
qed

lemma sstep_next_ref:
  assumes "sstep e s = Inr s'"
  shows "next_ref s \<le> next_ref s'"
proof (cases e)
  case (Accepted error endpoint now)
  show ?thesis
  proof (cases "accepts s > 0")
    case True
    then have a: "accept_done error endpoint now s = Inr s'"
      using assms Accepted by simp
    show ?thesis
    proof (cases error)
      case (Some what)
      with a show ?thesis using accept_done_error [of what endpoint now s s'] by simp
    next
      case None
      with a obtain addr where "endpoint = Some addr"
        by (cases endpoint) (auto simp: accept_done_def)
      with a None show ?thesis using accept_done_spec [of addr now s s'] by simp
    qed
  qed (use assms Accepted in simp)
next
  case ProcessMessage
  with assms show ?thesis
    by (auto simp: process_message_def faults q_empty_def pop_front_def dest!: OnMessage_next_ref
        split: if_splits list.splits)
qed (use assms in \<open>auto simp: faults step_conn_def split: if_splits\<close>)

lemma process_message_ok:
  assumes "server_ok s" and "next_ref s \<le> max_clients" and "qMessagesIn s = m # q"
    and "message_fault s (remote m) (owned_msg m) = None"
  shows "\<exists>s' rs. process_message s = Inr s' \<and> server_ok s' \<and> deque_ok s rs
    \<and> msg_effect (s\<lparr>qMessagesIn := q\<rparr>) rs s'"
proof -
  let ?s = "s\<lparr>qMessagesIn := q\<rparr>"
  obtain rs where rs: "deque_ok s rs" using assms(1) by (auto simp: server_ok_def)
  have "remote m < next_ref ?s" and "next_ref ?s \<le> max_clients"
    and "message_fault ?s (remote m) (owned_msg m) = None"
    using assms(1-4) pop_ok(3) [OF assms(1,3)] by (simp_all add: server_ok_def)
  then obtain s' where "OnMessage (remote m) (owned_msg m) ?s = Inr s'" "msg_effect ?s rs s'"
    using OnMessage_effect [OF pop_ok(1) [OF assms(1,3)] pop_ok(2) [OF assms(1,3) rs]] by blast
  moreover from this(2) have "server_ok s'"
    by (rule msg_effect_ok [OF pop_ok(1) [OF assms(1,3)] pop_ok(2) [OF assms(1,3) rs]])
  ultimately show ?thesis using process_message_eq [OF assms(3)] rs by auto
qed

text \<open>What makes a step fail, and with what.\<close>

definition uses_freed :: "sevent \<Rightarrow> server \<Rightarrow> bool" where
  "uses_freed e s \<longleftrightarrow> (\<exists>r < next_ref s. \<not> alive s r \<and>
     (e = ConnTask r \<and> tasks (conns s r) \<noteq> []
      \<or> (e = ConnWriteFails r \<or> (\<exists>n. e = ConnWrote r n)) \<and> writes (conns s r) \<noteq> []
      \<or> (e = ConnReadFails r \<or> (\<exists>bs. e = ConnReceives r bs)) \<and> reads (conns s r) \<noteq> []))"

definition step_fault :: "sevent \<Rightarrow> server \<Rightarrow> fault option" where
  "step_fault e s =
     (if uses_freed e s then Some UndefinedBehaviour
      else case e of
        Accepted None None now \<Rightarrow> Some SystemError
      | ProcessMessage \<Rightarrow>
          (case qMessagesIn s of [] \<Rightarrow> None | m # q \<Rightarrow> message_fault s (remote m) (owned_msg m))
      | _ \<Rightarrow> None)"

lemma uses_freed_simps [simp]:
  "\<not> uses_freed (Accepted error endpoint now) s"
  "\<not> uses_freed ProcessMessage s"
  "uses_freed (ConnTask r) s \<longleftrightarrow> r < next_ref s \<and> \<not> alive s r \<and> tasks (conns s r) \<noteq> []"
  "uses_freed (ConnWrote r n) s \<longleftrightarrow> r < next_ref s \<and> \<not> alive s r \<and> writes (conns s r) \<noteq> []"
  "uses_freed (ConnWriteFails r) s \<longleftrightarrow> r < next_ref s \<and> \<not> alive s r \<and> writes (conns s r) \<noteq> []"
  "uses_freed (ConnReceives r bs) s \<longleftrightarrow> r < next_ref s \<and> \<not> alive s r \<and> reads (conns s r) \<noteq> []"
  "uses_freed (ConnReadFails r) s \<longleftrightarrow> r < next_ref s \<and> \<not> alive s r \<and> reads (conns s r) \<noteq> []"
  by (auto simp: uses_freed_def)

lemma step_conn_outcome:
  assumes "server_ok s" and "r < next_ref s \<Longrightarrow> \<exists>c. handler (conns s r) = Inr c \<and> server_ok (absorb r c s)"
  shows "if r < next_ref s \<and> \<not> alive s r \<and> pending
    then step_conn r pending handler s = Inl UndefinedBehaviour
    else \<exists>s'. step_conn r pending handler s = Inr s' \<and> server_ok s'"
  using assms by (auto simp: step_conn_def)

lemma sstep_outcome:
  assumes "server_ok s" and "next_ref s \<le> max_clients"
  shows "case step_fault e s of Some f \<Rightarrow> sstep e s = Inl f
    | None \<Rightarrow> \<exists>s'. sstep e s = Inr s' \<and> server_ok s'"
proof -
  have c: "conn_ok (conns s r)" if "r < next_ref s" for r
    using assms(1) that by (simp add: server_ok_def conns_ok_def)
  note ab = absorb_ok [OF assms(1)]
  show ?thesis
  proof (cases e)
    case (Accepted error endpoint now)
    have a: "accepts s > 0" using assms(1) by (simp add: server_ok_def)
    show ?thesis
    proof (cases "error = None \<and> endpoint = None")
      case True
      then show ?thesis
        using Accepted a accept_done_outcome [of error endpoint now s SystemError]
        by (simp add: step_fault_def)
    next
      case False
      then obtain s' where s': "accept_done error endpoint now s = Inr s'"
        using accept_done_outcome [of error endpoint now s] by (cases "accept_done error endpoint now s") auto
      have "server_ok s'"
      proof (cases error)
        case (Some what)
        with s' accept_error_ok [OF assms(1), of what endpoint now s'] show ?thesis by simp
      next
        case None
        with False obtain addr where "endpoint = Some addr" by auto
        with None s' accepted_ok [OF assms(1), of addr now s'] show ?thesis by simp
      qed
      with Accepted a s' False show ?thesis
        by (auto simp: step_fault_def split: option.split)
    qed
  next
    case (ConnTask r)
    have "\<exists>c. run_task (conns s r) = Inr c \<and> server_ok (absorb r c s)" if "r < next_ref s"
      using run_task_ok [OF c [OF that]] ab that by fastforce
    with step_conn_outcome [OF assms(1), of r "run_task"] ConnTask show ?thesis
      by (auto simp: step_fault_def)
  next
    case (ConnWrote r n)
    have "\<exists>c. and_then (socket_wrote n (conns s r)) (\<lambda>(bs, c'). Inr c') = Inr c
        \<and> server_ok (absorb r c s)" if "r < next_ref s"
      using socket_wrote_ok [OF c [OF that], of n] ab that by fastforce
    with step_conn_outcome [OF assms(1), of r "\<lambda>c. and_then (socket_wrote n c) (\<lambda>(bs, c'). Inr c')"] ConnWrote show ?thesis
      by (auto simp: step_fault_def)
  next
    case (ConnWriteFails r)
    have "\<exists>c. socket_write_failed (conns s r) = Inr c \<and> server_ok (absorb r c s)" if "r < next_ref s"
      using socket_write_failed_ok [OF c [OF that]] ab that by fastforce
    with step_conn_outcome [OF assms(1), of r "socket_write_failed"] ConnWriteFails show ?thesis
      by (auto simp: step_fault_def)
  next
    case (ConnReceives r bs)
    have "\<exists>c. Inr (snd (socket_received bs (conns s r))) = (Inr c :: fault + connection)
        \<and> server_ok (absorb r c s)" if "r < next_ref s"
      using socket_received_ok [OF c [OF that], of bs] ab that by auto
    with step_conn_outcome [OF assms(1), of r "\<lambda>c. Inr (snd (socket_received bs c))"] ConnReceives show ?thesis
      by (auto simp: step_fault_def)
  next
    case (ConnReadFails r)
    have "\<exists>c. Inr (socket_read_failed (conns s r)) = (Inr c :: fault + connection)
        \<and> server_ok (absorb r c s)" if "r < next_ref s"
      using socket_read_failed_ok [OF c [OF that]] ab that by auto
    with step_conn_outcome [OF assms(1), of r "\<lambda>c. Inr (socket_read_failed c)"] ConnReadFails show ?thesis
      by (auto simp: step_fault_def)
  next
    case ProcessMessage
    show ?thesis
    proof (cases "qMessagesIn s")
      case Nil
      with ProcessMessage assms(1) show ?thesis by (simp add: step_fault_def q_empty_def)
    next
      case (Cons m q)
      show ?thesis
      proof (cases "message_fault s (remote m) (owned_msg m)")
        case None
        with ProcessMessage Cons process_message_ok [OF assms Cons] show ?thesis
          by (auto simp: step_fault_def q_empty_def)
      next
        case (Some f)
        then have "OnMessage (remote m) (owned_msg m) (s\<lparr>qMessagesIn := q\<rparr>) = Inl f"
          using pop_ok(3) [OF assms(1) Cons] by (intro OnMessage_fault) simp
        with Some ProcessMessage Cons process_message_eq [OF Cons] show ?thesis
          by (simp add: step_fault_def q_empty_def)
      qed
    qed
  qed
qed

lemma started_ok: "server_ok (snd (Start None new_server))"
  by (auto simp: Start_def Let_def WaitForClientConnection_def new_server_def server_ok_def
      conns_ok_def deque_ok_def pairs_ok_def intro: exI [of _ "[]"])

lemma sreachable_ok: "sreachable s \<Longrightarrow> next_ref s \<le> max_clients \<Longrightarrow> server_ok s"
proof (induction rule: sreachable.induct)
  case s_start
  show ?case by (rule started_ok)
next
  case (s_step s e s')
  have "next_ref s \<le> max_clients"
    using sstep_next_ref [OF s_step.hyps(2)] s_step.prems by simp
  with sstep_outcome [OF s_step.IH this, of e] s_step.hyps(2) show ?case
    by (auto split: option.splits)
qed

end
