(* ===== verification/ServerProperties.thy ===== *)
theory ServerProperties
  imports ServerInvariant Channel
begin

text \<open>
  The properties of the server: in every state it can reach, what each message does to the table
  of chats and what it sends to whom, that the table stays consistent, and which inputs make it
  fail.
\<close>

lemma srun_reachable: "sreachable s \<Longrightarrow> srun es s = Inr s' \<Longrightarrow> sreachable s'"
  by (induction es arbitrary: s) (auto simp: faults intro: s_step)

text \<open>A state of the running server, before the counter of identifiers wraps around.\<close>

definition serving :: "server \<Rightarrow> bool" where
  "serving s \<longleftrightarrow> sreachable s \<and> next_ref s \<le> max_clients"

definition healthy :: "server \<Rightarrow> bool" where
  "healthy s \<longleftrightarrow> server_ok s \<and> next_ref s \<le> max_clients"

lemma serving_healthy: "serving s \<Longrightarrow> healthy s"
  by (simp add: serving_def healthy_def sreachable_ok)

lemma serving_ok: "serving s \<Longrightarrow> server_ok s \<and> next_ref s \<le> max_clients"
  using serving_healthy by (simp add: healthy_def)

text \<open>What a step from \<open>s\<close> to \<open>s'\<close> posted on each connection.\<close>

definition posted :: "server \<Rightarrow> server \<Rightarrow> nat \<Rightarrow> task list" where
  "posted s s' r = drop (length (tasks (conns s r))) (tasks (conns s' r))"

lemma posted_refl: "conns s' = conns s \<Longrightarrow> posted s s' = (\<lambda>_. [])"
  by (simp add: posted_def fun_eq_iff)

lemma posted_send:
  "conns s0 = conns s \<Longrightarrow> posted s (send_to r m s0) = (\<lambda>q. if q = r then [SendTask m] else [])"
  by (auto simp: posted_def fun_eq_iff conns_send_to)

text \<open>The connected clients, in the order of the deque.\<close>

definition connected_refs :: "server \<Rightarrow> nat list" where
  "connected_refs s = filter (\<lambda>r. client_connected s (Some r)) (map the (m_dequeConnections s))"

definition deque_ids :: "server \<Rightarrow> u32 set" where
  "deque_ids s = client_id s ` {r. Some r \<in> set (m_dequeConnections s)}"

lemma find_in_deque:
  assumes "server_ok s" and "next_ref s \<le> max_clients" and "deque_ok s rs" and "r \<in> set rs"
  shows "find (\<lambda>q. client_id s q = client_id s r) rs = Some r"
proof -
  have c: "conns_ok s" using assms(1) by (simp add: server_ok_def)
  obtain q where q: "find (\<lambda>q. client_id s q = client_id s r) rs = Some q"
    using assms(4) by (cases "find (\<lambda>q. client_id s q = client_id s r) rs") (auto simp: find_None_iff)
  then have "q \<in> set rs" "client_id s q = client_id s r"
    using find_client_some [OF q] by simp_all
  then have "q = r"
    using client_id_inj [OF c assms(2) deque_okD(3) [OF assms(3)] deque_okD(3) [OF assms(3,4)]] by blast
  with q show ?thesis by simp
qed

lemma find_not_in_deque:
  "deque_ok s rs \<Longrightarrow> ID \<notin> deque_ids s \<Longrightarrow> find (\<lambda>q. client_id s q = ID) rs = None"
  by (auto simp: find_None_iff deque_ids_def deque_okD)

lemma in_deque: "deque_ok s rs \<Longrightarrow> Some r \<in> set (m_dequeConnections s) \<longleftrightarrow> r \<in> set rs"
  by (auto simp: deque_okD)

lemma connected_refs_live: "deque_ok s rs \<Longrightarrow> connected_refs s = live s rs"
  by (simp add: connected_refs_def live_def deque_okD)

lemma pop_u32_suffix:
  "body msg = bs @ le32 ID \<Longrightarrow> pop_u32 msg = Inr (ID, update_size (msg\<lparr>body := bs\<rparr>))"
  by (rule pod32.pop_of_append)

lemma OnMessage_type:
  assumes "hdr_id (header msg) = msg_code t"
  shows "t = RequestToClient \<Longrightarrow> OnMessage client msg s = on_RequestToClient client msg s"
    and "t = TextClient \<Longrightarrow> OnMessage client msg s = on_TextClient client msg s"
    and "t = RequestAnswer \<Longrightarrow> OnMessage client msg s = on_RequestAnswer client msg s"
    and "t = CloseClient \<Longrightarrow> OnMessage client msg s = on_CloseClient client s"
    and "t = MessageAll \<Longrightarrow> OnMessage client msg s = on_MessageAll client s"
    and "t = ClientList \<Longrightarrow> OnMessage client msg s = on_ClientList client s"
    and "t = ServerPing \<Longrightarrow> OnMessage client msg s = on_ServerPing client msg s"
  using assms by (simp_all add: OnMessage_def)

text \<open>A partner in the deque is found, one that is not there is not.\<close>

lemma partner_cases:
  assumes "healthy s"
  obtains rs where "deque_ok s rs"
    and "\<And>ID. ID \<notin> deque_ids s \<Longrightarrow> find (\<lambda>q. client_id s q = ID) rs = None"
    and "\<And>ID. ID \<in> deque_ids s \<Longrightarrow>
      \<exists>r. client_id s r = ID \<and> r < next_ref s \<and> find (\<lambda>q. client_id s q = ID) rs = Some r"
proof -
  obtain rs where rs: "deque_ok s rs"
    using assms[unfolded healthy_def] by (auto simp: server_ok_def)
  have "\<exists>r. client_id s r = ID \<and> r < next_ref s \<and> find (\<lambda>q. client_id s q = ID) rs = Some r"
    if "ID \<in> deque_ids s" for ID
  proof -
    obtain r where "r \<in> set rs" "client_id s r = ID"
      using \<open>ID \<in> deque_ids s\<close> by (auto simp: deque_ids_def in_deque [OF rs])
    then show ?thesis
      using find_in_deque [OF _ _ rs] assms[unfolded healthy_def] deque_okD(3) [OF rs] by blast
  qed
  with rs find_not_in_deque [OF rs] that show ?thesis by blast
qed

lemma healthy_pairs: "healthy s \<Longrightarrow> pairs_ok (ClientConnections s) (client_ids s)"
  by (simp add: healthy_def server_ok_def)

text \<open>The task a message to one connection posts.\<close>

definition only_to :: "nat \<Rightarrow> message \<Rightarrow> nat \<Rightarrow> task list" where
  "only_to r m = (\<lambda>q. if q = r then [SendTask m] else [])"

lemma request_cases:
  assumes "healthy s" and "client < next_ref s"
    and "hdr_id (header msg) = msg_code RequestToClient" and "body msg = bs @ le32 ID"
  shows "\<exists>s'. OnMessage client msg s = Inr s' \<and> m_dequeConnections s' = m_dequeConnections s \<and>
    (let a = client_id s client;
         answer = (\<lambda>r i. only_to r (push_u32 (new_message RequestToClient) i))
     in if ID \<notin> deque_ids s
        then posted s s' = answer client 0 \<and> ClientConnections s' = ClientConnections s
        else if ClientConnections s a \<noteq> None \<or> ClientConnections s ID \<noteq> None \<or> a = ID
        then posted s s' = answer client 1 \<and> ClientConnections s' = ClientConnections s
        else \<exists>r. client_id s r = ID \<and> r < next_ref s \<and> posted s s' = answer r a
          \<and> ClientConnections s' = (ClientConnections s)(a \<mapsto> ID, ID \<mapsto> a))"
proof -
  obtain rs where rs: "deque_ok s rs"
    and absent: "\<And>ID. ID \<notin> deque_ids s \<Longrightarrow> find (\<lambda>q. client_id s q = ID) rs = None"
    and present: "\<And>ID. ID \<in> deque_ids s \<Longrightarrow>
      \<exists>r. client_id s r = ID \<and> r < next_ref s \<and> find (\<lambda>q. client_id s q = ID) rs = Some r"
    using partner_cases [OF assms(1)] by blast
  note spec = OnMessage_type(1) [OF assms(3) refl]
    on_RequestToClient_spec [OF rs pop_u32_suffix [OF assms(4)], of client]
  show ?thesis
  proof (cases "ID \<in> deque_ids s")
    case False
    with absent show ?thesis
      unfolding spec by (simp add: posted_send only_to_def)
  next
    case True
    with present obtain r where "client_id s r = ID" "r < next_ref s"
      "find (\<lambda>q. client_id s q = ID) rs = Some r"
      by blast
    with True show ?thesis
      unfolding spec by (auto simp: posted_send only_to_def Let_def)
  qed
qed

lemma text_cases:
  assumes "healthy s" and "hdr_id (header msg) = msg_code TextClient"
    and "ClientConnections s (client_id s client) = Some ID"
  shows "\<exists>s'. OnMessage client msg s = Inr s' \<and>
    (if ID \<notin> deque_ids s
     then posted s s' = (\<lambda>_. []) \<and> ClientConnections s' = ClientConnections s
     else \<exists>r. client_id s r = ID \<and> r < next_ref s \<and>
       (if client_connected s (Some r)
        then posted s s' = only_to r msg \<and> ClientConnections s' = ClientConnections s
        else posted s s' = only_to client (new_message CloseClient)
          \<and> ClientConnections s' = (ClientConnections s)(client_id s client := None, ID := None)))"
proof -
  obtain rs where rs: "deque_ok s rs"
    and absent: "\<And>ID. ID \<notin> deque_ids s \<Longrightarrow> find (\<lambda>q. client_id s q = ID) rs = None"
    and present: "\<And>ID. ID \<in> deque_ids s \<Longrightarrow>
      \<exists>r. client_id s r = ID \<and> r < next_ref s \<and> find (\<lambda>q. client_id s q = ID) rs = Some r"
    using partner_cases [OF assms(1)] by blast
  have c: "conns_ok s" "next_ref s \<le> max_clients"
    using assms(1)[unfolded healthy_def] by (auto simp: server_ok_def)
  note spec = OnMessage_type(2) [OF assms(2) refl]
    on_TextClient_spec [OF c rs healthy_pairs [OF assms(1)] assms(3)]
  show ?thesis
  proof (cases "ID \<in> deque_ids s")
    case False
    with absent show ?thesis unfolding spec by (simp add: posted_refl)
  next
    case True
    with present obtain r where "client_id s r = ID" "r < next_ref s"
      "find (\<lambda>q. client_id s q = ID) rs = Some r"
      by blast
    with True show ?thesis
      unfolding spec by (auto simp: posted_send only_to_def)
  qed
qed

lemma answer_cases:
  assumes "healthy s" and "hdr_id (header msg) = msg_code RequestAnswer"
    and "ClientConnections s (client_id s client) = Some ID"
  shows "\<exists>s'. OnMessage client msg s = Inr s' \<and> ClientConnections s' = ClientConnections s
    \<and> (if ID \<notin> deque_ids s then posted s s' = (\<lambda>_. [])
       else \<exists>r. client_id s r = ID \<and> r < next_ref s \<and> posted s s' = only_to r msg)"
proof -
  obtain rs where rs: "deque_ok s rs"
    and absent: "\<And>ID. ID \<notin> deque_ids s \<Longrightarrow> find (\<lambda>q. client_id s q = ID) rs = None"
    and present: "\<And>ID. ID \<in> deque_ids s \<Longrightarrow>
      \<exists>r. client_id s r = ID \<and> r < next_ref s \<and> find (\<lambda>q. client_id s q = ID) rs = Some r"
    using partner_cases [OF assms(1)] by blast
  note spec = OnMessage_type(3) [OF assms(2) refl] on_RequestAnswer_spec [OF rs assms(3)]
  show ?thesis
  proof (cases "ID \<in> deque_ids s")
    case False
    with absent show ?thesis unfolding spec by (simp add: posted_refl)
  next
    case True
    with present obtain r where "client_id s r = ID" "r < next_ref s"
      "find (\<lambda>q. client_id s q = ID) rs = Some r"
      by blast
    with True show ?thesis
      unfolding spec by (auto simp: posted_send only_to_def)
  qed
qed

lemma close_cases:
  assumes "healthy s" and "hdr_id (header msg) = msg_code CloseClient"
    and "ClientConnections s (client_id s client) = Some ID"
  shows "\<exists>s'. OnMessage client msg s = Inr s'
    \<and> ClientConnections s' = (ClientConnections s)(client_id s client := None, ID := None)
    \<and> (if ID \<notin> deque_ids s then posted s s' = (\<lambda>_. [])
       else \<exists>r. client_id s r = ID \<and> r < next_ref s \<and> posted s s' = only_to r (new_message CloseClient))"
proof -
  obtain rs where rs: "deque_ok s rs"
    and absent: "\<And>ID. ID \<notin> deque_ids s \<Longrightarrow> find (\<lambda>q. client_id s q = ID) rs = None"
    and present: "\<And>ID. ID \<in> deque_ids s \<Longrightarrow>
      \<exists>r. client_id s r = ID \<and> r < next_ref s \<and> find (\<lambda>q. client_id s q = ID) rs = Some r"
    using partner_cases [OF assms(1)] by blast
  note spec = OnMessage_type(4) [OF assms(2) refl]
    on_CloseClient_spec [OF rs healthy_pairs [OF assms(1)] assms(3)]
  show ?thesis
  proof (cases "ID \<in> deque_ids s")
    case False
    with absent show ?thesis unfolding spec by (simp add: posted_refl)
  next
    case True
    with present obtain r where "client_id s r = ID" "r < next_ref s"
      "find (\<lambda>q. client_id s q = ID) rs = Some r"
      by blast
    with True show ?thesis
      unfolding spec by (auto simp: posted_def conns_send_to only_to_def fun_eq_iff)
  qed
qed

text \<open>A healthy server stays so, and its clients keep their numbers.\<close>

lemma OnMessage_healthy:
  assumes "healthy s" and "client < next_ref s" and "OnMessage client msg s = Inr s'"
  shows "healthy s' \<and> next_ref s' = next_ref s \<and> (\<forall>r. client_id s' r = client_id s r)"
proof -
  have ok: "server_ok s" "next_ref s \<le> max_clients"
    using assms(1) by (auto simp: healthy_def)
  then obtain rs where rs: "deque_ok s rs" by (auto simp: server_ok_def)
  have "message_fault s client msg = None"
    using OnMessage_fault [of s client msg] assms(3) by (cases "message_fault s client msg") auto
  then have e: "msg_effect s rs s'"
    using OnMessage_effect [OF ok(1) rs ok(2) assms(2), of msg] assms(3) by simp
  then have "only_sends s s'" by (simp add: msg_effect_def)
  then show ?thesis
    using msg_effect_ok [OF ok(1) rs e] only_sends_conn [of s s'] ok(2)
    by (auto simp: healthy_def only_sends_def)
qed

text \<open>What a message does to a pair in the table.\<close>

lemma pair_removed:
  assumes "pairs_ok m ids" and "m x = Some y" and "m a = Some b"
  shows "(m(x := None, y := None)) a = Some b \<or> (m(x := None, y := None)) a = None \<and> x \<in> {a, b}"
  using pairs_okD(1) [OF assms(1,2)] pairs_okD(1) [OF assms(1,3)] assms(2,3) by auto

lemma OnMessage_pairs:
  assumes "server_ok s" and "next_ref s \<le> max_clients" and "OnMessage client msg s = Inr s'"
    and "ClientConnections s a = Some b"
  shows "ClientConnections s' a = Some b \<or> ClientConnections s' a = None \<and> client_id s client \<in> {a, b}
    \<and> (\<exists>t \<in> {TextClient, CloseClient}. hdr_id (header msg) = msg_code t)"
proof (cases "msg_type (hdr_id (header msg))")
  case None
  with assms(3,4) show ?thesis by (simp add: OnMessage_def)
next
  case (Some t)
  then have h: "hdr_id (header msg) = msg_code t" by (simp add: msg_type_Some)
  obtain rs where rs: "deque_ok s rs" and c: "conns_ok s" and p: "pairs_ok (ClientConnections s) (client_ids s)"
    using assms(1) by (auto simp: server_ok_def)
  have none: "message_fault s client msg = None"
    using OnMessage_fault [of s client msg] assms(3) by (cases "message_fault s client msg") auto
  show ?thesis
  proof (cases t)
    case RequestToClient
    then obtain ID m' where "pop_u32 msg = Inr (ID, m')"
      using none Some by (auto simp: message_fault_def pop_pod_def Let_def split: if_splits)
    with assms(3,4) RequestToClient show ?thesis
      by (auto simp: OnMessage_type(1) [OF h] on_RequestToClient_spec [OF rs] split: option.splits if_splits)
  next
    case TextClient
    then obtain ID where ID: "ClientConnections s (client_id s client) = Some ID"
      using none Some by (auto simp: message_fault_def split: if_splits)
    have "ClientConnections s' = ClientConnections s
        \<or> ClientConnections s' = (ClientConnections s)(client_id s client := None, ID := None)"
      using assms(3) unfolding OnMessage_type(2) [OF h TextClient] on_TextClient_spec [OF c assms(2) rs p ID]
      by (auto split: option.splits if_splits)
    with pair_removed [OF p ID assms(4)] assms(4) h TextClient show ?thesis by auto
  next
    case CloseClient
    then obtain ID where ID: "ClientConnections s (client_id s client) = Some ID"
      using none Some by (auto simp: message_fault_def split: if_splits)
    have "ClientConnections s' = (ClientConnections s)(client_id s client := None, ID := None)"
      using assms(3) unfolding OnMessage_type(4) [OF h CloseClient] on_CloseClient_spec [OF rs p ID]
      by auto
    with pair_removed [OF p ID assms(4)] h CloseClient show ?thesis by auto
  next
    case RequestAnswer
    then obtain ID where ID: "ClientConnections s (client_id s client) = Some ID"
      using none Some by (auto simp: message_fault_def split: if_splits)
    show ?thesis
      using assms(3,4) unfolding OnMessage_type(3) [OF h RequestAnswer] on_RequestAnswer_spec [OF rs ID]
      by (auto split: option.splits)
  next
    case MessageAll
    obtain s1 where "MessageAllClient (push_u32 (new_message ServerMessage) (client_id s client)) (Some client)
        (say (id_tag (client_id s client) @ '': Message All'' @ nl) s) = Inr s1"
        "ClientConnections s1 = ClientConnections s"
      using MessageAllClient_spec [of "say (id_tag (client_id s client) @ '': Message All'' @ nl) s" rs]
        deque_okD [OF rs] by fastforce
    with assms(3,4) show ?thesis
      unfolding OnMessage_type(5) [OF h MessageAll] by (simp add: on_MessageAll_def Let_def)
  next
    case ClientList
    obtain ids s1 where "GetClientList (say (id_tag (client_id s client) @ '': Client List'' @ nl) s) = Inr (ids, s1)"
        "ClientConnections s1 = ClientConnections s"
      using GetClientList_spec [of "say (id_tag (client_id s client) @ '': Client List'' @ nl) s" rs]
        deque_okD [OF rs] by fastforce
    with assms(3,4) show ?thesis
      unfolding OnMessage_type(6) [OF h ClientList] by (auto simp: on_ClientList_def)
  qed (use assms(3,4) Some in \<open>auto simp: OnMessage_def on_ServerPing_def\<close>)
qed

text \<open>A message changes neither the queue nor the number of connections.\<close>

lemma process_message_queue:
  assumes "serving s" and "process_message s = Inr s'"
  shows "serving s' \<and> qMessagesIn s' = tl (qMessagesIn s)"
proof -
  obtain m q where q: "qMessagesIn s = m # q"
    using assms(2) by (cases "qMessagesIn s") (auto simp: process_message_def pop_front_def)
  then have on: "OnMessage (remote m) (owned_msg m) (s\<lparr>qMessagesIn := q\<rparr>) = Inr s'"
    using assms(2) process_message_eq by simp
  have ok: "server_ok s" "next_ref s \<le> max_clients" using serving_ok [OF assms(1)] by auto
  have "message_fault s (remote m) (owned_msg m) = None"
    using OnMessage_fault [of "s\<lparr>qMessagesIn := q\<rparr>" "remote m" "owned_msg m"] on
      pop_ok(3) [OF ok(1) q] by (cases "message_fault s (remote m) (owned_msg m)") auto
  from process_message_ok [OF ok q this] assms(2)
  have "only_sends (s\<lparr>qMessagesIn := q\<rparr>) s'" by (auto simp: msg_effect_def)
  then have "qMessagesIn s' = q" "next_ref s' = next_ref s" by (simp_all add: only_sends_def)
  moreover have "sstep ProcessMessage s = Inr s'"
    using q assms(2) by (simp add: q_empty_def)
  ultimately show ?thesis
    using assms(1) q s_step [of s ProcessMessage s'] by (simp add: serving_def)
qed

section \<open>Properties\<close>

text \<open>
  Property C1. As long as the identifiers have not wrapped around, the server fails on exactly these
  inputs: a connection whose peer is gone before \<^verbatim>\<open>remote_endpoint()\<close> is asked for
  (\<^verbatim>\<open>std::system_error\<close>), a request with less than four bytes of body (out-of-bounds read), a text, an
  answer or a close from a client in no chat (\<^verbatim>\<open>std::out_of_range\<close> from \<^verbatim>\<open>at\<close>), and a function posted
  by, or a handler of, a connection that was destroyed when the deque and the queue let go of it (use
  after free). In particular no handler of a living connection fails, \<^verbatim>\<open>erase\<close> never gets \<^verbatim>\<open>end()\<close> and
  no null pointer in the deque is followed.
\<close>

theorem server_fails_exactly_when:
  assumes "serving s"
  shows "sstep e s = Inl f \<longleftrightarrow>
     (\<exists>now. e = Accepted None None now \<and> f = SystemError)
   \<or> (\<exists>r < next_ref s. Some r \<notin> set (m_dequeConnections s) \<and> r \<notin> remote ` set (qMessagesIn s)
        \<and> (e = ConnTask r \<and> tasks (conns s r) \<noteq> []
          \<or> (e = ConnWriteFails r \<or> (\<exists>n. e = ConnWrote r n)) \<and> writes (conns s r) \<noteq> []
          \<or> (e = ConnReadFails r \<or> (\<exists>bs. e = ConnReceives r bs)) \<and> reads (conns s r) \<noteq> [])
        \<and> f = UndefinedBehaviour)
   \<or> (\<exists>m q. e = ProcessMessage \<and> qMessagesIn s = m # q
        \<and> (hdr_id (header (owned_msg m)) = msg_code RequestToClient
             \<and> message_size (owned_msg m) < 4 \<and> f = UndefinedBehaviour
           \<or> (\<exists>t \<in> {TextClient, RequestAnswer, CloseClient}. hdr_id (header (owned_msg m)) = msg_code t)
             \<and> ClientConnections s (client_id s (remote m)) = None \<and> f = OutOfRange))"
    (is "_ \<longleftrightarrow> ?R")
proof -
  have mf: "message_fault s c msg = Some f \<longleftrightarrow>
      hdr_id (header msg) = msg_code RequestToClient \<and> message_size msg < 4 \<and> f = UndefinedBehaviour
    \<or> (\<exists>t \<in> {TextClient, RequestAnswer, CloseClient}. hdr_id (header msg) = msg_code t)
        \<and> ClientConnections s (client_id s c) = None \<and> f = OutOfRange" for c msg
  proof (cases "msg_type (hdr_id (header msg))")
    case None
    then have "\<And>t. hdr_id (header msg) \<noteq> msg_code t" by (metis msg_type_code option.simps(3))
    with None show ?thesis by (simp add: message_fault_def)
  next
    case (Some t)
    then have "\<And>t'. hdr_id (header msg) = msg_code t' \<longleftrightarrow> t = t'"
      by (metis msg_type_Some msg_code_inject)
    with Some show ?thesis by (cases t) (auto simp: message_fault_def)
  qed
  have "step_fault e s = Some f \<longleftrightarrow> ?R"
  proof (cases e)
    case (Accepted error endpoint now)
    then show ?thesis by (auto simp: step_fault_def split: option.splits)
  next
    case ProcessMessage
    then show ?thesis by (auto simp: step_fault_def mf split: list.splits)
  qed (auto simp: step_fault_def alive_def)
  moreover have "sstep e s = Inl f \<longleftrightarrow> step_fault e s = Some f"
    using sstep_outcome [of s e] serving_ok [OF assms] by (auto split: option.splits)
  ultimately show ?thesis by simp
qed

text \<open>
  Property C12. The table of chats is consistent in every reachable state: it pairs clients both ways,
  nobody with himself, and only clients the server has accepted.
\<close>

theorem chats_are_pairs:
  assumes "serving s" and "ClientConnections s a = Some b"
  shows "ClientConnections s b = Some a \<and> a \<noteq> b \<and> (\<exists>r < next_ref s. client_id s r = a)"
proof -
  have "pairs_ok (ClientConnections s) (client_ids s)"
    using serving_ok [OF assms(1)] by (simp add: server_ok_def)
  from pairs_okD [OF this assms(2)] show ?thesis by (auto simp: client_ids_def)
qed

text \<open>
  Identifiers are unique and never the codes 0 and 1 of an answer: the \<open>r\<close>-th
  connection has the number \<open>10000 + r\<close>, and the deque holds each connection at most once, no null
  pointer, and every connected client.
\<close>

theorem client_ids_unique:
  assumes "serving s" and "r < next_ref s"
  shows "unat (client_id s r) = 10000 + r \<and> None \<notin> set (m_dequeConnections s)
    \<and> distinct (m_dequeConnections s)
    \<and> (client_connected s (Some r) \<longrightarrow> Some r \<in> set (m_dequeConnections s))"
proof -
  obtain rs where rs: "deque_ok s rs" and c: "conns_ok s"
    using serving_ok [OF assms(1)] by (auto simp: server_ok_def)
  have "next_ref s \<le> max_clients" using assms(1) by (simp add: serving_def)
  from client_id_nat [OF c this assms(2)] deque_okD(1,2) [OF rs] show ?thesis
    using rs assms(2) by (simp add: deque_ok_def distinct_map)
qed

text \<open>
  A new client gets the next number, is told it in the first message posted on its
  connection, and its end is then the one of the theory of channels (\<open>accepted\<close>) with that one
  \<open>Send\<close>.
\<close>

theorem accept_announces_id:
  assumes "serving s" and "sstep (Accepted None (Some addr) now) s = Inr s'"
  shows "client_id s' (next_ref s) = nIDCounter s
    \<and> conns s' (next_ref s) = Send (push_u32 (new_message ServerAccept) (nIDCounter s))
        (accepted (nIDCounter s) now)
    \<and> m_dequeConnections s' = m_dequeConnections s @ [Some (next_ref s)]
    \<and> (\<forall>r < next_ref s. conns s' r = conns s r)"
proof -
  have "accept_done None (Some addr) now s = Inr s'"
    using assms serving_ok by (auto simp: server_ok_def)
  from accept_done_spec [OF this] new_client_ok(2) [of s now] show ?thesis
    by (auto simp: client_id_def new_client_def accepted_def make_connection_def handler_defs
        start_write_def start_read_def)
qed

text \<open>
  Property C7. The answer to a request for a chat: 0 to the requester when no connection has the
  number; 1 when one of the two is in a chat or the number is the requester's own; otherwise the
  two are paired and the other client, only, is sent the requester's number.
\<close>

theorem request_outcomes:
  assumes "serving s" and "client < next_ref s"
    and "hdr_id (header msg) = msg_code RequestToClient" and "body msg = bs @ le32 ID"
  shows "\<exists>s'. OnMessage client msg s = Inr s' \<and> m_dequeConnections s' = m_dequeConnections s \<and>
    (let a = client_id s client;
         answer = (\<lambda>r i. only_to r (push_u32 (new_message RequestToClient) i))
     in if ID \<notin> deque_ids s
        then posted s s' = answer client 0 \<and> ClientConnections s' = ClientConnections s
        else if ClientConnections s a \<noteq> None \<or> ClientConnections s ID \<noteq> None \<or> a = ID
        then posted s s' = answer client 1 \<and> ClientConnections s' = ClientConnections s
        else \<exists>r. client_id s r = ID \<and> r < next_ref s \<and> posted s s' = answer r a
          \<and> ClientConnections s' = (ClientConnections s)(a \<mapsto> ID, ID \<mapsto> a))"
  by (rule request_cases [OF serving_healthy [OF assms(1)] assms(2) assms(3) assms(4)])

text \<open>
  Property C8. A text goes to the partner in the chat and to nobody else, unchanged. When the
  partner's socket is closed the chat ends and the sender is told; when the partner has been
  removed from the deque, the text is dropped in silence and the chat goes on.
\<close>

theorem text_goes_to_partner:
  assumes "serving s" and "hdr_id (header msg) = msg_code TextClient"
    and "ClientConnections s (client_id s client) = Some ID"
  shows "\<exists>s'. OnMessage client msg s = Inr s' \<and>
    (if ID \<notin> deque_ids s
     then posted s s' = (\<lambda>_. []) \<and> ClientConnections s' = ClientConnections s
     else \<exists>r. client_id s r = ID \<and> r < next_ref s \<and>
       (if client_connected s (Some r)
        then posted s s' = only_to r msg \<and> ClientConnections s' = ClientConnections s
        else posted s s' = only_to client (new_message CloseClient)
          \<and> ClientConnections s' = (ClientConnections s)(client_id s client := None, ID := None)))"
  by (rule text_cases [OF serving_healthy [OF assms(1)] assms(2) assms(3)])

text \<open>
  The answer to a request is forwarded to the other client of the pair as it is, and
  the pair stays, also when the answer is no: both clients remain in a chat until one of them
  sends a close.
\<close>

theorem answer_keeps_the_pair:
  assumes "serving s" and "hdr_id (header msg) = msg_code RequestAnswer"
    and "ClientConnections s (client_id s client) = Some ID"
  shows "\<exists>s'. OnMessage client msg s = Inr s' \<and> ClientConnections s' = ClientConnections s
    \<and> (if ID \<notin> deque_ids s then posted s s' = (\<lambda>_. [])
       else \<exists>r. client_id s r = ID \<and> r < next_ref s \<and> posted s s' = only_to r msg)"
  by (rule answer_cases [OF serving_healthy [OF assms(1)] assms(2) assms(3)])

text \<open>
  A close ends the chat for both clients and is passed on to the partner, if it is
  still in the deque, and to nobody else.
\<close>

theorem close_ends_the_chat:
  assumes "serving s" and "hdr_id (header msg) = msg_code CloseClient"
    and "ClientConnections s (client_id s client) = Some ID"
  shows "\<exists>s'. OnMessage client msg s = Inr s'
    \<and> ClientConnections s' = (ClientConnections s)(client_id s client := None, ID := None)
    \<and> (if ID \<notin> deque_ids s then posted s s' = (\<lambda>_. [])
       else \<exists>r. client_id s r = ID \<and> r < next_ref s \<and> posted s s' = only_to r (new_message CloseClient))"
  by (rule close_cases [OF serving_healthy [OF assms(1)] assms(2) assms(3)])

text \<open>
  \<^verbatim>\<open>MessageAll\<close>: every connected client but the sender is sent one message with the
  sender's number, nobody else anything, and the clients that are not connected leave the deque.
\<close>

theorem message_all_reaches_the_others:
  assumes "serving s" and "hdr_id (header msg) = msg_code MessageAll"
  shows "\<exists>s'. OnMessage client msg s = Inr s'
    \<and> m_dequeConnections s' = map Some (connected_refs s)
    \<and> ClientConnections s' = ClientConnections s
    \<and> (\<forall>r. posted s s' r =
         (if r \<in> set (connected_refs s) \<and> r \<noteq> client
          then [SendTask (push_u32 (new_message ServerMessage) (client_id s client))] else []))"
proof -
  obtain rs where rs: "deque_ok s rs" using partner_cases [OF serving_healthy [OF assms(1)]] by blast
  let ?s = "say (id_tag (client_id s client) @ '': Message All'' @ nl) s"
  let ?m = "push_u32 (new_message ServerMessage) (client_id s client)"
  have "m_dequeConnections ?s = map Some rs" and "distinct rs"
    using deque_okD [OF rs] by simp_all
  from MessageAllClient_spec [OF this, of ?m "Some client"]
  obtain s' where s': "MessageAllClient ?m (Some client) ?s = Inr s'"
      "ClientConnections s' = ClientConnections s" "m_dequeConnections s' = map Some (live ?s rs)"
      "\<forall>r. tasks (conns s' r) = tasks (conns s r) @
        (if r \<in> set (live ?s rs) \<and> Some r \<noteq> Some client then [SendTask ?m] else [])"
    by (auto simp del: connected_simps)
  moreover have "live ?s rs = connected_refs s"
    using connected_refs_live [OF rs] by (simp add: live_def)
  ultimately show ?thesis
    using OnMessage_type(5) [OF assms(2) refl]
    by (auto simp: on_MessageAll_def Let_def posted_def)
qed

text \<open>
  \<^verbatim>\<open>ClientList\<close>: only the sender is answered, with a message from whose body the numbers
  of the connected clients, one each, are streamed out by as many reads of a \<^verbatim>\<open>uint32_t\<close> as the
  client does, the last one first.
\<close>

theorem client_list_answer:
  assumes "serving s" and "hdr_id (header msg) = msg_code ClientList"
  shows "\<exists>s' m. OnMessage client msg s = Inr s' \<and> posted s s' = only_to client m
    \<and> wf_msg m \<and> message_size m = 4 * length (connected_refs s)
    \<and> pop_pods 4 un32 (message_size m div 4) m
        = Inr (rev (map (client_id s) (connected_refs s)), new_message ClientList)
    \<and> m_dequeConnections s' = map Some (connected_refs s)"
proof -
  obtain rs where rs: "deque_ok s rs" using partner_cases [OF serving_healthy [OF assms(1)]] by blast
  let ?s = "say (id_tag (client_id s client) @ '': Client List'' @ nl) s"
  let ?ids = "map (client_id s) (connected_refs s)"
  let ?m = "foldl push_u32 (new_message ClientList) ?ids"
  have "m_dequeConnections ?s = map Some rs"
    using deque_okD [OF rs] by simp
  from GetClientList_spec [OF this]
  obtain s' where s': "GetClientList ?s = Inr (?ids, s')" "conns s' = conns s"
      "m_dequeConnections s' = map Some (connected_refs s)"
    using connected_refs_live [OF rs] by (auto simp: live_def)
  have "OnMessage client msg s = Inr (send_to client ?m s')"
    using OnMessage_type(6) [OF assms(2) refl] s'(1) by (simp add: on_ClientList_def)
  moreover have "message_size ?m = 4 * length ?ids"
    using pod32.length_body_pushes [of "new_message ClientList" ?ids] by (simp add: message_size_def)
  moreover have "wf_msg ?m"
    by (rule pod32.wf_pushes) simp
  ultimately show ?thesis
    using pod32.pops_pushes [of "new_message ClientList" ?ids] s'
    by (intro exI [of _ "send_to client ?m s'"] exI [of _ ?m])
      (simp add: posted_send only_to_def)
qed

text \<open>
  Property C2. Nobody is pulled out of a chat by a third client: whatever step the server makes, a
  pair stays in the table until it processes a close or a text (whose partner is gone) from one
  of the two, and then the client is in no chat, never in another one.
\<close>

theorem chats_end_only_by_their_members:
  assumes "serving s" and "sstep e s = Inr s'" and "ClientConnections s a = Some b"
  shows "ClientConnections s' a = Some b \<or>
    (ClientConnections s' a = None \<and> (\<exists>m q. e = ProcessMessage \<and> qMessagesIn s = m # q
      \<and> client_id s (remote m) \<in> {a, b}
      \<and> (\<exists>t \<in> {TextClient, CloseClient}. hdr_id (header (owned_msg m)) = msg_code t)))"
proof (cases e)
  case (Accepted error endpoint now)
  then have "ClientConnections s' = ClientConnections s"
    using assms(2) accept_done_error [of _ endpoint now s s'] accept_done_spec [of _ now s s']
    by (cases error; cases endpoint)
      (auto simp: accept_done_outcome split: if_splits, auto simp: accept_done_def)
  with assms(3) show ?thesis by simp
next
  case ProcessMessage
  have ok: "server_ok s" "next_ref s \<le> max_clients" using serving_ok [OF assms(1)] by auto
  show ?thesis
  proof (cases "qMessagesIn s")
    case Nil
    with ProcessMessage assms(2,3) show ?thesis by (simp add: q_empty_def)
  next
    case (Cons m q)
    then have "OnMessage (remote m) (owned_msg m) (s\<lparr>qMessagesIn := q\<rparr>) = Inr s'"
      using assms(2) ProcessMessage process_message_eq [OF Cons] by (simp add: q_empty_def)
    from OnMessage_pairs [OF pop_ok(1) [OF ok(1) Cons] _ this, of a b] ok(2) assms(3)
      ProcessMessage Cons
    show ?thesis by auto
  qed
qed (use assms(2,3) in \<open>auto simp: faults step_conn_def split: if_splits\<close>)

text \<open>
  \<^verbatim>\<open>Update\<close> is a sequence of single steps of the server, those of the other thread among them, at most
  \<^verbatim>\<open>nMaxMessages\<close> of which handle a message; when nothing arrives meanwhile it handles the messages in
  the order in which the connections read them.
\<close>

lemma srun_append: "srun (es @ es') s = and_then (srun es s) (srun es')"
proof (induction es arbitrary: s)
  case (Cons e es)
  then show ?case by (cases "sstep e s") auto
qed simp

lemma update_is_a_run:
  assumes "\<forall>es \<in> set io. ProcessMessage \<notin> set es"
  shows "\<exists>es. update_loop n io s = srun es s \<and> length (filter ((=) ProcessMessage) es) \<le> n"
  using assms
proof (induction n arbitrary: io s)
  case 0
  show ?case by (rule exI [of _ "[]"]) simp
next
  case (Suc n)
  let ?es = "case io of [] \<Rightarrow> [] | es # _ \<Rightarrow> es"
  have f: "filter ((=) ProcessMessage) ?es = []"
    using Suc.prems by (cases io) (auto simp: filter_empty_conv)
  show ?case
  proof (cases "srun ?es s")
    case (Inl fault)
    then show ?thesis using f by (intro exI [of _ ?es]) simp
  next
    case (Inr s1)
    show ?thesis
    proof (cases "q_empty (qMessagesIn s1)")
      case True
      with Inr f show ?thesis by (intro exI [of _ ?es]) simp
    next
      case False
      show ?thesis
      proof (cases "process_message s1")
        case (Inl fault)
        with Inr f False show ?thesis
          by (intro exI [of _ "?es @ [ProcessMessage]"]) (simp add: srun_append)
      next
        case (Inr s2)
        have "\<forall>es \<in> set (drop 1 io). ProcessMessage \<notin> set es"
          using Suc.prems by (cases io) auto
        from Suc.IH [OF this, of s2] obtain es where
          "update_loop n (drop 1 io) s2 = srun es s2" "length (filter ((=) ProcessMessage) es) \<le> n"
          by blast
        with Inr \<open>srun ?es s = Inr s1\<close> f False show ?thesis
          by (intro exI [of _ "?es @ ProcessMessage # es"]) (simp add: srun_append)
      qed
    qed
  qed
qed

lemma update_handles_queue_in_order:
  assumes "serving s"
  shows "update_loop n [] s = srun (replicate (min n (length (qMessagesIn s))) ProcessMessage) s
    \<and> (\<forall>s'. update_loop n [] s = Inr s' \<longrightarrow> serving s' \<and> qMessagesIn s' = drop n (qMessagesIn s))"
  using assms
proof (induction n arbitrary: s)
  case 0
  then show ?case by simp
next
  case (Suc n)
  show ?case
  proof (cases "qMessagesIn s")
    case Nil
    with Suc.prems show ?thesis by (simp add: q_empty_def)
  next
    case (Cons m q)
    show ?thesis
    proof (cases "process_message s")
      case (Inl f)
      with Cons show ?thesis by (simp add: q_empty_def)
    next
      case (Inr s1)
      with process_message_queue [OF Suc.prems Inr] Suc.IH [of s1] Cons show ?thesis
        by (simp add: q_empty_def)
    qed
  qed
qed

section \<open>Witnesses\<close>

text \<open>
  Runs of the whole server: two clients connect and pass the handshake; one of them sends a text
  with no chat, or asks for a chat with the other, and the server handles the request.
\<close>

declare fun_upd_apply [code]

definition receives_message :: "nat \<Rightarrow> message \<Rightarrow> sevent list" where
  "receives_message r m = [ConnReceives r (encode_header (header m)), ConnReceives r (body m)]"

definition two_clients :: "sevent list" where
  "two_clients =
     [Accepted None (Some ''A'') 1, Accepted None (Some ''B'') 2,
      ConnWrote 0 8, ConnReceives 0 (le64 (Scramble 1)),
      ConnWrote 1 8, ConnReceives 1 (le64 (Scramble 2))]"

definition request_message :: message where
  "request_message = push_u32 (new_message RequestToClient) 10001"

definition text_message :: message where
  "text_message = push_string (new_message TextClient) [104, 105]"

definition run_to :: "sevent list \<Rightarrow> server" where
  "run_to es = (case srun es (snd (Start None new_server)) of Inr s \<Rightarrow> s | Inl f \<Rightarrow> new_server)"

definition lost_text_server :: server where
  "lost_text_server = run_to (two_clients @ receives_message 0 text_message)"

definition asking_server :: server where
  "asking_server = run_to (two_clients @ receives_message 0 request_message)"

definition chat_server :: server where
  "chat_server = run_to (two_clients @ receives_message 0 request_message @ [ProcessMessage])"

lemma run_toD:
  assumes "outcome P (srun es (snd (Start None new_server)))" and "\<And>s. P s \<Longrightarrow> next_ref s = 2"
  shows "serving (run_to es) \<and> P (run_to es)"
proof -
  obtain s where s: "srun es (snd (Start None new_server)) = Inr s" "P s"
    using outcomeD [OF assms(1)] by blast
  then show ?thesis
    using srun_reachable [OF s_start s(1)] assms(2) by (simp add: serving_def run_to_def max_clients_def)
qed

lemma lost_text_facts:
  "serving lost_text_server \<and> next_ref lost_text_server = 2
   \<and> qMessagesIn lost_text_server = [\<lparr>remote = 0, owned_msg = text_message\<rparr>]
   \<and> ClientConnections lost_text_server (client_id lost_text_server 0) = None"
  unfolding lost_text_server_def by (rule run_toD) (code_simp, simp)

lemma asking_facts:
  "serving asking_server \<and> next_ref asking_server = 2
   \<and> qMessagesIn asking_server = [\<lparr>remote = 0, owned_msg = request_message\<rparr>]
   \<and> m_dequeConnections asking_server = [Some 0, Some 1]
   \<and> client_id asking_server 0 = 10000 \<and> client_id asking_server 1 = 10001
   \<and> ClientConnections asking_server 10000 = None \<and> ClientConnections asking_server 10001 = None"
  unfolding asking_server_def by (rule run_toD) (code_simp, simp)

lemma chat_facts:
  "serving chat_server \<and> next_ref chat_server = 2
   \<and> ClientConnections chat_server (client_id chat_server 0) = Some 10001
   \<and> connected_refs chat_server = [0, 1]
   \<and> m_dequeConnections chat_server = [Some 0, Some 1] \<and> client_id chat_server 1 = 10001
   \<and> client_connected chat_server (Some 1)"
  unfolding chat_server_def by (rule run_toD) (code_simp, simp)

theorem server_fails_exactly_when_witness:
  "serving lost_text_server \<and> sstep ProcessMessage lost_text_server = Inl OutOfRange"
  using lost_text_facts server_fails_exactly_when [of lost_text_server ProcessMessage OutOfRange]
  by (simp add: text_message_def)

text \<open>
  The use after free is reached: the second client's socket is closed by a failing read while the
  number the server announced is still to be sent, and the first client's \<^verbatim>\<open>MessageAll\<close> makes the
  server drop its connection.
\<close>

definition dropping_server :: server where
  "dropping_server = run_to (two_clients @ [ConnReadFails 1]
     @ receives_message 0 (new_message MessageAll) @ [ProcessMessage])"

lemma dropping_facts:
  "serving dropping_server \<and> next_ref dropping_server = 2
   \<and> m_dequeConnections dropping_server = [Some 0] \<and> qMessagesIn dropping_server = []
   \<and> tasks (conns dropping_server 1) \<noteq> []"
  unfolding dropping_server_def by (rule run_toD) (code_simp, simp)

lemma dropped_connection_is_used:
  "serving dropping_server \<and> sstep (ConnTask 1) dropping_server = Inl UndefinedBehaviour"
  using dropping_facts by (simp add: step_conn_def alive_def)

theorem chats_are_pairs_witness:
  "serving chat_server \<and> ClientConnections chat_server 10001 = Some (client_id chat_server 0)"
  using chat_facts chats_are_pairs [of chat_server "client_id chat_server 0" 10001] by blast

theorem client_ids_unique_witness:
  "serving chat_server \<and> unat (client_id chat_server 1) = 10000 + 1
    \<and> distinct (m_dequeConnections chat_server)"
  using chat_facts client_ids_unique [of chat_server 1] by simp

theorem accept_announces_id_witness:
  "\<exists>s s'. serving s \<and> sstep (Accepted None (Some ''A'') 1) s = Inr s'
    \<and> client_id s' (next_ref s) = nIDCounter s"
proof -
  let ?s = "snd (Start None new_server)"
  have s: "serving ?s"
    using s_start by (simp add: serving_def Start_def new_server_def WaitForClientConnection_def Let_def)
  moreover have "step_fault (Accepted None (Some ''A'') 1) ?s = None"
    by (simp add: step_fault_def)
  ultimately obtain s' where "sstep (Accepted None (Some ''A'') 1) ?s = Inr s'"
    using sstep_outcome [of ?s "Accepted None (Some ''A'') 1"] serving_ok [OF s] by auto
  with s accept_announces_id [OF s this] show ?thesis by blast
qed

theorem request_outcomes_witness:
  "\<exists>s'. serving asking_server \<and> OnMessage 0 request_message asking_server = Inr s'
    \<and> posted asking_server s' = only_to 1 (push_u32 (new_message RequestToClient) 10000)
    \<and> ClientConnections s' 10000 = Some 10001 \<and> ClientConnections s' 10001 = Some 10000"
proof -
  have b: "body request_message = [] @ le32 10001" and i: "hdr_id (header request_message) = msg_code RequestToClient"
    by (simp_all add: request_message_def)
  have s: "serving asking_server" "0 < next_ref asking_server"
    "m_dequeConnections asking_server = [Some 0, Some 1]"
    "client_id asking_server 0 = 10000" "client_id asking_server 1 = 10001"
    "ClientConnections asking_server 10000 = None" "ClientConnections asking_server 10001 = None"
    using asking_facts by auto
  have "10001 \<in> deque_ids asking_server"
    using s(3,5) by (force simp: deque_ids_def)
  moreover obtain s' where o: "OnMessage 0 request_message asking_server = Inr s'"
    and out: "let a = client_id asking_server 0;
         answer = (\<lambda>r i. only_to r (push_u32 (new_message RequestToClient) i))
     in if 10001 \<notin> deque_ids asking_server
        then posted asking_server s' = answer 0 0 \<and> ClientConnections s' = ClientConnections asking_server
        else if ClientConnections asking_server a \<noteq> None \<or> ClientConnections asking_server 10001 \<noteq> None
          \<or> a = 10001
        then posted asking_server s' = answer 0 1 \<and> ClientConnections s' = ClientConnections asking_server
        else \<exists>r. client_id asking_server r = 10001 \<and> r < next_ref asking_server
          \<and> posted asking_server s' = answer r a
          \<and> ClientConnections s' = (ClientConnections asking_server)(a \<mapsto> 10001, 10001 \<mapsto> a)"
    using request_outcomes [OF s(1,2) i b] by metis
  ultimately obtain r where r: "client_id asking_server r = 10001" "r < next_ref asking_server"
    "posted asking_server s' = only_to r (push_u32 (new_message RequestToClient) 10000)"
    "ClientConnections s' = (ClientConnections asking_server)(10000 \<mapsto> 10001, 10001 \<mapsto> 10000)"
    using s(4,6,7) by (auto simp: Let_def)
  have "r = 1"
    using r(1,2) s(4) asking_facts by (cases r) auto
  with s(1) o r show ?thesis by simp
qed

theorem text_goes_to_partner_witness:
  "\<exists>s'. serving chat_server \<and> OnMessage 0 text_message chat_server = Inr s'"
  using chat_facts text_goes_to_partner [of chat_server text_message 0 10001]
  by (auto simp: text_message_def)

theorem answer_keeps_the_pair_witness:
  "\<exists>s'. serving chat_server
    \<and> OnMessage 0 (push_u32 (new_message RequestAnswer) 0) chat_server = Inr s'
    \<and> ClientConnections s' = ClientConnections chat_server"
  using chat_facts answer_keeps_the_pair [of chat_server "push_u32 (new_message RequestAnswer) 0" 0 10001]
  by auto

theorem close_ends_the_chat_witness:
  "\<exists>s'. serving chat_server \<and> OnMessage 0 (new_message CloseClient) chat_server = Inr s'
    \<and> ClientConnections s' 10001 = None"
  using chat_facts close_ends_the_chat [of chat_server "new_message CloseClient" 0 10001]
  by auto

theorem message_all_reaches_the_others_witness:
  "\<exists>s'. serving chat_server \<and> OnMessage 0 (new_message MessageAll) chat_server = Inr s'
    \<and> posted chat_server s' 0 = [] \<and> length (posted chat_server s' 1) = 1"
  using chat_facts message_all_reaches_the_others [of chat_server "new_message MessageAll" 0]
  by auto

theorem client_list_answer_witness:
  "\<exists>s' m. serving chat_server \<and> OnMessage 1 (new_message ClientList) chat_server = Inr s'
    \<and> posted chat_server s' = only_to 1 m \<and> message_size m = 4 * length (connected_refs chat_server)"
  using chat_facts client_list_answer [of chat_server "new_message ClientList" 1] by auto

theorem chats_end_only_by_their_members_witness:
  "\<exists>s'. serving chat_server \<and> sstep (ConnTask 1) chat_server = Inr s'
    \<and> (ClientConnections s' (client_id chat_server 0) = Some 10001
       \<or> ClientConnections s' (client_id chat_server 0) = None)"
proof -
  have s: "serving chat_server" "ClientConnections chat_server (client_id chat_server 0) = Some 10001"
    using chat_facts by simp_all
  have "step_fault (ConnTask 1) chat_server = None"
    using chat_facts by (simp add: step_fault_def alive_def)
  then obtain s' where s': "sstep (ConnTask 1) chat_server = Inr s'"
    using sstep_outcome [of chat_server "ConnTask 1"] serving_ok [OF s(1)] by auto
  with chats_end_only_by_their_members [OF s(1) s' s(2)] s(1) show ?thesis by blast
qed

end
