(* ===== verification/Commands.thy ===== *)
theory Commands
  imports Prelude
begin

text \<open>
  \<^verbatim>\<open>ChatClient/Utilities.h\<close>: the commands of the client and the function that reads one from a
  line of input, with the parts of the standard library it uses: \<^verbatim>\<open>find_first_of\<close>, \<^verbatim>\<open>substr\<close> and
  \<^verbatim>\<open>std::stoul\<close>. \<open>ulong_max\<close> is the platform's \<^verbatim>\<open>ULONG_MAX\<close> (\<open>2 ^ 32 - 1\<close> on Windows, \<open>2 ^ 64 - 1\<close>
  elsewhere).
\<close>

section \<open>Commands\<close>

datatype CommandPrefix =
    ServerPingCommand | ClientListCommand | HelloAll | ConnectTo | RequestAccept
  | RequestDecline | CloseClientCommand | Help | Blank

record Command =
  cmd_prefix :: CommandPrefix
  cmd_id :: u32

definition SimpleCommands :: "(string \<times> CommandPrefix) list" where
  "SimpleCommands =
     [(''Ping'', ServerPingCommand), (''Clients'', ClientListCommand), (''HelloAll'', HelloAll),
      (''Accept'', RequestAccept), (''Decline'', RequestDecline), (''Help'', Help)]"

definition CommandsWithID :: "(string \<times> CommandPrefix) list" where
  "CommandsWithID = [(''ConnectTo'', ConnectTo)]"

section \<open>Numbers in text\<close>

definition is_digit :: "char \<Rightarrow> bool" where
  "is_digit c \<longleftrightarrow> 48 \<le> (of_char c :: nat) \<and> (of_char c :: nat) \<le> 57"

definition digit_value :: "char \<Rightarrow> nat" where
  "digit_value c = of_char c - 48"

definition is_space :: "char \<Rightarrow> bool" where
  "is_space c \<longleftrightarrow> c = CHR '' '' \<or> (9 \<le> (of_char c :: nat) \<and> (of_char c :: nat) \<le> 13)"

definition decimal_value :: "string \<Rightarrow> nat" where
  "decimal_value ds = foldl (\<lambda>n c. 10 * n + digit_value c) 0 ds"

text \<open>
  \<^verbatim>\<open>std::stoul\<close> in base ten: spaces, a sign, digits, and whatever follows. A minus sign negates the
  value in \<^verbatim>\<open>unsigned long\<close>.
\<close>

definition stoul :: "nat \<Rightarrow> string \<Rightarrow> fault + nat" where
  "stoul ulong_max str =
     (let rest = dropWhile is_space str;
          negative = (case rest of c # _ \<Rightarrow> c = CHR ''-'' | [] \<Rightarrow> False);
          digits = takeWhile is_digit
            (case rest of c # cs \<Rightarrow> if c = CHR ''-'' \<or> c = CHR ''+'' then cs else rest | [] \<Rightarrow> [])
      in if digits = [] then Inl InvalidArgument
         else if ulong_max < decimal_value digits then Inl OutOfRange
         else Inr (if negative then (ulong_max + 1 - decimal_value digits) mod (ulong_max + 1)
                   else decimal_value digits))"

section \<open>Reading a command\<close>

text \<open>\<^verbatim>\<open>string.find_first_of(" ")\<close>; \<open>None\<close> is \<^verbatim>\<open>npos\<close>.\<close>

fun find_space :: "string \<Rightarrow> nat option" where
  "find_space [] = None"
| "find_space (c # cs) = (if c = CHR '' '' then Some 0 else map_option Suc (find_space cs))"

text \<open>
  \<^verbatim>\<open>pos + 1\<close> wraps to 0 when there is no space, so the argument is then the whole line. Returns
  the command and what is printed.
\<close>

definition StrToCommand :: "nat \<Rightarrow> string \<Rightarrow> Command \<times> string list" where
  "StrToCommand ulong_max line =
     (let pos = find_space line;
          word = (case pos of Some p \<Rightarrow> take p line | None \<Rightarrow> line);
          argument = (case pos of Some p \<Rightarrow> drop (p + 1) line | None \<Rightarrow> line)
      in case map_of SimpleCommands word of
           Some c \<Rightarrow> (\<lparr>cmd_prefix = c, cmd_id = 0\<rparr>, [])
         | None \<Rightarrow>
            (case map_of CommandsWithID word of
               Some c \<Rightarrow>
                 (case stoul ulong_max argument of
                    Inr n \<Rightarrow> (\<lparr>cmd_prefix = c, cmd_id = of_nat n\<rparr>, [])
                  | Inl e \<Rightarrow> (\<lparr>cmd_prefix = Blank, cmd_id = 0\<rparr>, [''Invalid ID'' @ nl]))
             | None \<Rightarrow> (\<lparr>cmd_prefix = Blank, cmd_id = 0\<rparr>, [])))"

section \<open>Decimal text is read back\<close>

lemma of_char_digit: "d < 10 \<Longrightarrow> of_char (digit_char d) = 48 + d"
  by (simp add: digit_char_def)

lemma digit_value_char [simp]: "d < 10 \<Longrightarrow> digit_value (digit_char d) = d"
  by (simp add: digit_value_def of_char_digit)

lemma is_digit_char [simp]: "d < 10 \<Longrightarrow> is_digit (digit_char d)"
  by (simp add: is_digit_def of_char_digit)

lemma not_digit [simp]:
  "is_digit c \<Longrightarrow> \<not> is_space c" "is_digit c \<Longrightarrow> c \<noteq> CHR ''-''" "is_digit c \<Longrightarrow> c \<noteq> CHR ''+''"
  "is_digit c \<Longrightarrow> c \<noteq> CHR '' ''"
  by (auto simp: is_digit_def is_space_def)

lemma digits_dec_nat: "\<forall>c \<in> set (dec_nat n). is_digit c"
proof (induction n rule: dec_nat.induct)
  case (1 n)
  then show ?case by (subst dec_nat.simps) (auto split: if_splits)
qed

lemma dec_nat_not_Nil [simp]: "dec_nat n \<noteq> []"
  by (subst dec_nat.simps) simp

lemma decimal_value_dec_nat [simp]: "decimal_value (dec_nat n) = n"
proof (induction n rule: dec_nat.induct)
  case (1 n)
  then show ?case by (subst dec_nat.simps) (auto simp: decimal_value_def)
qed

lemma takeWhile_digits: "\<forall>c \<in> set ds. is_digit c \<Longrightarrow> takeWhile is_digit ds = ds"
  by (simp add: takeWhile_eq_all_conv)

lemma stoul_digits:
  assumes "\<forall>c \<in> set ds. is_digit c" and "ds \<noteq> []"
  shows "stoul ulong_max ds =
    (if ulong_max < decimal_value ds then Inl OutOfRange else Inr (decimal_value ds))"
proof -
  obtain d ds' where "ds = d # ds'" using assms(2) by (cases ds) auto
  with assms(1) show ?thesis
    by (simp add: stoul_def Let_def takeWhile_digits)
qed

lemma find_space_append: "CHR '' '' \<notin> set w \<Longrightarrow> find_space (w @ CHR '' '' # r) = Some (length w)"
  by (induction w) auto

lemma find_space_None: "CHR '' '' \<notin> set w \<Longrightarrow> find_space w = None"
  by (induction w) auto

section \<open>Properties\<close>

text \<open>
  A request is read back from its text: the line \<^verbatim>\<open>ConnectTo\<close>, a space and the decimal
  digits of \<open>n\<close> is the command with the number \<open>n\<close>, reduced to 32 bits, as long as \<open>n\<close> fits
  \<^verbatim>\<open>unsigned long\<close>; beyond it, the line is refused.
\<close>

theorem connect_command_roundtrip:
  "StrToCommand ulong_max (''ConnectTo '' @ dec_nat n) =
     (if n \<le> ulong_max then (\<lparr>cmd_prefix = ConnectTo, cmd_id = of_nat n\<rparr>, [])
      else (\<lparr>cmd_prefix = Blank, cmd_id = 0\<rparr>, [''Invalid ID'' @ nl]))"
proof -
  have "find_space (''ConnectTo'' @ CHR '' '' # dec_nat n) = Some (length ''ConnectTo'')"
    by (rule find_space_append) simp
  then have "find_space (''ConnectTo '' @ dec_nat n) = Some 9" by simp
  with stoul_digits [OF digits_dec_nat dec_nat_not_Nil, of ulong_max n] show ?thesis
    by (simp add: StrToCommand_def SimpleCommands_def CommandsWithID_def)
qed

end
