(* ===== verification/Client.thy ===== *)
theory Client
  imports Connection Commands
begin

text \<open>
  \<^verbatim>\<open>Net_chat/net_client.h\<close>, \<^verbatim>\<open>ChatClient/Client.cpp\<close> and \<^verbatim>\<open>ChatClient/main.cpp\<close>: the client. Three
  threads share it: the one that runs the \<^verbatim>\<open>io_context\<close>, the one of \<^verbatim>\<open>ExecuteMessages\<close>, and the
  main one, which reads lines and executes commands. \<open>cstep\<close> is one step of one of them.

  Where the main thread blocks is its mode \<open>ui\<close>: in \<^verbatim>\<open>main\<close>'s \<^verbatim>\<open>getline\<close>, in the wait of \<^verbatim>\<open>ConnectTo\<close>
  for an answer, or in the \<^verbatim>\<open>getline\<close> of \<^verbatim>\<open>OpenChatWithClient\<close>. \<open>notified\<close> says that \<^verbatim>\<open>cvConnect\<close>
  was notified since the main thread went to sleep on it.

  Parameters: \<open>show_seconds then now\<close> is the text of the difference of two clock readings as a
  \<^verbatim>\<open>double\<close>, \<open>max_size\<close> is \<^verbatim>\<open>std::string::max_size()\<close>.
\<close>

section \<open>State\<close>

datatype ui_mode = Prompt | Requesting u32 | Chatting

record client =
  m_connection :: "connection option"
  Incoming :: "message tsqueue"
  ConnectedToId :: u32
  ConnectionRequestId :: u32
  connecting :: bool             \<comment> \<open>an \<^verbatim>\<open>async_connect\<close> is in flight\<close>
  client_context_running :: bool
  ui :: ui_mode
  notified :: bool
  screen :: "string list"

definition new_client_object :: client where
  "new_client_object = \<lparr>m_connection = None, Incoming = [], ConnectedToId = 0,
     ConnectionRequestId = 0, connecting = False, client_context_running = False, ui = Prompt,
     notified = False, screen = []\<rparr>"

definition display :: "string \<Rightarrow> client \<Rightarrow> client" where
  "display str c = c\<lparr>screen := screen c @ [str]\<rparr>"

section \<open>The base class\<close>

definition client_IsConnected :: "client \<Rightarrow> bool" where
  "client_IsConnected c = (case m_connection c of Some k \<Rightarrow> IsConnected k | None \<Rightarrow> False)"

text \<open>
  \<^verbatim>\<open>connection::ConnectToServer\<close>: the operation opens the socket for the first of the endpoints
  before it returns, so \<^verbatim>\<open>is_open()\<close> holds from then on.
\<close>

definition ConnectToServer :: "nat \<Rightarrow> connection \<Rightarrow> bool \<times> connection" where
  "ConnectToServer endpoints k =
     (if m_nOwnerType k = OwnerClient then (True, k\<lparr>sock_open := endpoints > 0\<rparr>) else (False, k))"

text \<open>
  \<open>resolved\<close> is what \<^verbatim>\<open>resolve\<close> gives, the number of endpoints or the text of its exception;
  \<open>exn\<close> the text of the exception of the thread's constructor.
\<close>

definition Connect :: "string + nat \<Rightarrow> string option \<Rightarrow> client \<Rightarrow> bool \<times> client" where
  "Connect resolved exn c =
     (case resolved of
        Inl what \<Rightarrow> (False, display (''Client exception: '' @ what @ nl) c)
      | Inr endpoints \<Rightarrow>
          (case ConnectToServer endpoints (make_connection OwnerClient 0 False) of (started, k) \<Rightarrow>
             let c' = c\<lparr>m_connection := Some k, connecting := started\<rparr>
             in case exn of
                  Some what \<Rightarrow> (False, display (''Client exception: '' @ what @ nl) c')
                | None \<Rightarrow> (True, c'\<lparr>client_context_running := True\<rparr>)))"

text \<open>
  \<^verbatim>\<open>m_connection.release()\<close> gives up the pointer without destroying the connection; the close
  that was posted may never run, since the \<^verbatim>\<open>io_context\<close> is stopped.
\<close>

definition client_Disconnect :: "client \<Rightarrow> client" where
  "client_Disconnect c =
     (let c' = (if client_IsConnected c
                then c\<lparr>m_connection := map_option Disconnect (m_connection c)\<rparr> else c)
      in c'\<lparr>client_context_running := False, m_connection := None\<rparr>)"

definition client_Send :: "message \<Rightarrow> client \<Rightarrow> client" where
  "client_Send msg c =
     (if client_IsConnected c then c\<lparr>m_connection := map_option (Send msg) (m_connection c)\<rparr> else c)"

definition ChangeConnectedToId :: "u32 \<Rightarrow> client \<Rightarrow> client" where
  "ChangeConnectedToId newid c = c\<lparr>ConnectedToId := newid\<rparr>"

section \<open>Requests\<close>

definition PingServer :: "u64 \<Rightarrow> client \<Rightarrow> client" where
  "PingServer now c = client_Send (push_u64 (new_message ServerPing) now) c"

definition client_MessageAll :: "client \<Rightarrow> client" where
  "client_MessageAll c = client_Send (new_message MessageAll) c"

definition client_GetClientList :: "client \<Rightarrow> client" where
  "client_GetClientList c = client_Send (new_message ClientList) c"

definition ConnectRequest :: "u32 \<Rightarrow> client \<Rightarrow> client" where
  "ConnectRequest i c = client_Send (push_u32 (new_message RequestToClient) i) c"

text \<open>A line of input as bytes, and bytes on the screen.\<close>

definition to_bytes :: "string \<Rightarrow> bytes" where
  "to_bytes str = map of_char str"

definition of_bytes :: "bytes \<Rightarrow> string" where
  "of_bytes bs = map (\<lambda>b. char_of (unat b)) bs"

definition SendToClient :: "string \<Rightarrow> client \<Rightarrow> client" where
  "SendToClient str c = client_Send (push_string (new_message TextClient) (to_bytes str)) c"

section \<open>Commands\<close>

definition close_command :: "client \<Rightarrow> client" where
  "close_command c =
     display (''Client closed. Press enter to continue'' @ nl)
       ((ChangeConnectedToId 0 (client_Send (new_message CloseClient) c))\<lparr>ConnectionRequestId := 0\<rparr>)"

text \<open>\<^verbatim>\<open>OpenChatWithClient\<close> up to its first \<^verbatim>\<open>getline\<close>, and each line it reads after that.\<close>

definition open_chat :: "client \<Rightarrow> client" where
  "open_chat c =
     (display (''Connected with '' @ show_u32 (ConnectedToId c) @ ''. Type -close to exit'' @ nl @ ''>>'') c)
       \<lparr>ui := Chatting\<rparr>"

definition chat_line :: "string \<Rightarrow> client \<Rightarrow> client" where
  "chat_line DataToClient c =
     (if ConnectedToId c \<noteq> 0
      then if DataToClient = ''-close'' then close_command c
           else display ''>>'' (SendToClient DataToClient c)
      else (display (nl @ ''>'') c)\<lparr>ui := Prompt\<rparr>)"

definition connect_command :: "u32 \<Rightarrow> client \<Rightarrow> client" where
  "connect_command i c =
     (let c1 = display (''Connecting to '' @ show_u32 i @ ''. Press ESC key to abort request'' @ nl) c;
          c2 = (ConnectRequest i c1)\<lparr>ConnectionRequestId := i\<rparr>
      in c2\<lparr>ui := Requesting i, notified := False\<rparr>)"

text \<open>The main thread wakes up in \<^verbatim>\<open>cvConnect.wait(ul)\<close> and tests the loop's condition.\<close>

definition wake_up :: "client \<Rightarrow> client" where
  "wake_up c =
     (case ui c of
        Requesting i \<Rightarrow>
          let c' = c\<lparr>notified := False\<rparr>
          in if ConnectionRequestId c = i then c'
             else if ConnectedToId c \<ge> 10000 then open_chat c' else c'\<lparr>ui := Prompt\<rparr>
      | _ \<Rightarrow> c)"

text \<open>
  The escape key is seen by the thread of \<^verbatim>\<open>std::async\<close>, which is there as long as the request's
  number is the one asked for; the key press that \<^verbatim>\<open>std::cin.get()\<close> waits for is part of it.
\<close>

definition escape_key :: "client \<Rightarrow> client" where
  "escape_key c =
     (case ui c of
        Requesting i \<Rightarrow>
          if ConnectionRequestId c = i then display ''>'' ((close_command c)\<lparr>notified := True\<rparr>) else c
      | _ \<Rightarrow> c)"

definition help_text :: string where
  "help_text =
     ''List of commands:'' @ nl
     @ ''Ping - ping server, round trip time in ms'' @ nl
     @ ''Clients - get list of clients connected to the host'' @ nl
     @ ''HelloAll - send hello message to all clients connected to the host'' @ nl
     @ ''Accept - accept incoming request if available'' @ nl
     @ ''Decline - delcilne incoming request if available'' @ nl
     @ ''Help  - help information'' @ nl
     @ ''ConnectTo '' @ [CHR 0x27] @ ''client ID'' @ [CHR 0x27]
     @ '' - Request connection to the client with the specific ID'' @ nl @ ''>''"

definition run_command :: "u64 \<Rightarrow> Command \<Rightarrow> client \<Rightarrow> client" where
  "run_command now cmd oc =
     (case cmd_prefix cmd of
        ServerPingCommand \<Rightarrow> PingServer now oc
      | ClientListCommand \<Rightarrow> client_GetClientList oc
      | HelloAll \<Rightarrow> display (''Hello sent to every client'' @ nl @ ''>'') (client_MessageAll oc)
      | ConnectTo \<Rightarrow> connect_command (cmd_id cmd) oc
      | RequestAccept \<Rightarrow>
          if ConnectionRequestId oc \<ge> 10000 then
            let oc1 = client_Send (push_u32 (new_message RequestAnswer) 1) oc;
                oc2 = display (''Accept sent'' @ nl) oc1
            in open_chat (ChangeConnectedToId (ConnectionRequestId oc2) oc2)
          else display (''Nothing to accept'' @ nl @ ''>'') oc
      | RequestDecline \<Rightarrow>
          if ConnectionRequestId oc \<ge> 10000 then
            display (''Decline sent'' @ nl) (client_Send (push_u32 (new_message RequestAnswer) 0) oc)
          else display (''Nothing to decline'' @ nl @ ''>'') oc
      | CloseClientCommand \<Rightarrow> close_command oc
      | Help \<Rightarrow> display help_text oc
      | Blank \<Rightarrow> display (''Unknown command'' @ nl @ ''>'') oc)"

text \<open>A line of input, in whichever \<^verbatim>\<open>getline\<close> the main thread is; none while it waits.\<close>

definition input_line :: "nat \<Rightarrow> u64 \<Rightarrow> string \<Rightarrow> client \<Rightarrow> client" where
  "input_line ulong_max now line c =
     (case ui c of
        Prompt \<Rightarrow>
          if line \<noteq> [] then
            (case StrToCommand ulong_max line of (cmd, out) \<Rightarrow>
               run_command now cmd (c\<lparr>screen := screen c @ out\<rparr>))
          else display ''>'' c
      | Requesting i \<Rightarrow> c
      | Chatting \<Rightarrow> chat_line line c)"

section \<open>Messages\<close>

text \<open>The loop over the list of clients, \<open>i\<close> down to 1.\<close>

fun list_clients :: "nat \<Rightarrow> message \<Rightarrow> client \<Rightarrow> fault + client" where
  "list_clients 0 msg c = Inr c"
| "list_clients (Suc i) msg c =
     and_then (pop_u32 msg) (\<lambda>(n, msg').
       list_clients i msg'
         (display (''Client id #:'' @ dec_nat (Suc i) @ '' is '' @ show_u32 n @ nl) c))"

text \<open>\<^verbatim>\<open>ConnectionRequestId = 0; cvConnect.notify_one();\<close> under the lock.\<close>

definition end_request :: "client \<Rightarrow> client" where
  "end_request c = c\<lparr>ConnectionRequestId := 0, notified := True\<rparr>"

definition on_request :: "message \<Rightarrow> client \<Rightarrow> fault + client" where
  "on_request msg c =
     and_then (pop_u32 msg) (\<lambda>(n, msg').
       Inr (if n = 0 then display (''No such client exist'' @ nl @ ''>'') (end_request c)
            else if n = 1 then display (''client busy'' @ nl @ ''>'') (end_request c)
            else (display (''Request to chat from '' @ show_u32 n
                    @ ''. Type Accept or Decline to answer'' @ nl @ ''>'') c)
                   \<lparr>ConnectionRequestId := n\<rparr>))"

definition on_answer :: "message \<Rightarrow> client \<Rightarrow> fault + client" where
  "on_answer msg c =
     and_then (pop_u32 msg) (\<lambda>(code, msg').
       let c' = display (''Request Answer'' @ nl) c
       in Inr (if code \<noteq> 0
               then display (''Client accepted'' @ nl)
                      (end_request (ChangeConnectedToId (ConnectionRequestId c') c'))
               else display (''Declined'' @ nl @ ''>'') (end_request c')))"

definition on_text :: "nat \<Rightarrow> message \<Rightarrow> client \<Rightarrow> fault + client" where
  "on_text max_size msg c =
     (let c' = display (show_u32 (ConnectedToId c) @ '' says: '') c
      in and_then (pop_string max_size msg []) (\<lambda>(str, msg').
           Inr (display (of_bytes str @ nl @ ''>>'') c')))"

definition handle_message ::
    "(u64 \<Rightarrow> u64 \<Rightarrow> string) \<Rightarrow> nat \<Rightarrow> u64 \<Rightarrow> message \<Rightarrow> client \<Rightarrow> fault + client" where
  "handle_message show_seconds max_size now msg c =
     (case msg_type (hdr_id (header msg)) of
        Some ServerPing \<Rightarrow>
          and_then (pop_u64 msg) (\<lambda>(timeThen, msg').
            Inr (display (''Ping: '' @ show_seconds timeThen now @ nl @ ''>'') c))
      | Some ServerMessage \<Rightarrow>
          and_then (pop_u32 msg) (\<lambda>(clientID, msg').
            Inr (display (''Hello from ['' @ show_u32 clientID @ '']'' @ nl @ ''>'') c))
      | Some ServerAccept \<Rightarrow>
          (let c' = display (''Server Accepted Connection'' @ nl) c
           in and_then (pop_u32 msg) (\<lambda>(ID, msg').
                Inr (display (''Your ID is '' @ show_u32 ID @ nl @ ''>'') c')))
      | Some ClientList \<Rightarrow>
          and_then (list_clients (message_size msg div 4) msg (display (''Client List:'' @ nl) c))
            (\<lambda>c'. Inr (display ''>'' c'))
      | Some RequestToClient \<Rightarrow> on_request msg c
      | Some TextClient \<Rightarrow> on_text max_size msg c
      | Some RequestAnswer \<Rightarrow> on_answer msg c
      | Some CloseClient \<Rightarrow>
          Inr (display (''Connection with client is closed. Press enter to continue'' @ nl)
                 ((ChangeConnectedToId 0 c)\<lparr>ConnectionRequestId := 0\<rparr>))
      | _ \<Rightarrow> Inr (display (''Unknown message'' @ nl @ ''>'') c))"

text \<open>One turn of the loop of \<^verbatim>\<open>ExecuteMessages\<close>.\<close>

definition ExecuteMessages ::
    "(u64 \<Rightarrow> u64 \<Rightarrow> string) \<Rightarrow> nat \<Rightarrow> u64 \<Rightarrow> client \<Rightarrow> fault + client" where
  "ExecuteMessages show_seconds max_size now c =
     (if client_IsConnected c \<and> \<not> q_empty (Incoming c) then
        and_then (pop_front (Incoming c)) (\<lambda>(msg, q).
          handle_message show_seconds max_size now msg (display nl (c\<lparr>Incoming := q\<rparr>)))
      else Inr c)"

section \<open>Steps\<close>

definition client_absorb :: "connection \<Rightarrow> client \<Rightarrow> client" where
  "client_absorb k c =
     c\<lparr>m_connection := Some (k\<lparr>m_qMessagesIn := [], conn_log := []\<rparr>),
       Incoming := foldl push_back (Incoming c) (m_qMessagesIn k),
       screen := screen c @ conn_log k\<rparr>"

datatype cevent =
    ConnectDone bool         \<comment> \<open>the handler of \<^verbatim>\<open>async_connect\<close>, with its error\<close>
  | ClientTask | ClientWrote nat | ClientWriteFails | ClientReceives bytes | ClientReadFails
  | ExecuteOne u64
  | InputLine u64 string
  | WakeUp                   \<comment> \<open>after a notification\<close>
  | SpuriousWakeUp
  | EscapeKey

definition on_connection :: "(connection \<Rightarrow> fault + connection) \<Rightarrow> client \<Rightarrow> fault + client" where
  "on_connection f c =
     (case m_connection c of
        None \<Rightarrow> Inr c
      | Some k \<Rightarrow> if client_context_running c
                 then and_then (f k) (\<lambda>k'. Inr (client_absorb k' c)) else Inr c)"

definition cstep ::
    "(u64 \<Rightarrow> u64 \<Rightarrow> string) \<Rightarrow> nat \<Rightarrow> nat \<Rightarrow> cevent \<Rightarrow> client \<Rightarrow> fault + client" where
  "cstep show_seconds max_size ulong_max e c =
     (case e of
        ConnectDone error \<Rightarrow>
          if connecting c
          then on_connection (\<lambda>k. Inr (connected_to_server error k)) (c\<lparr>connecting := False\<rparr>)
          else Inr c
      | ClientTask \<Rightarrow> on_connection run_task c
      | ClientWrote n \<Rightarrow> on_connection (\<lambda>k. and_then (socket_wrote n k) (\<lambda>(bs, k'). Inr k')) c
      | ClientWriteFails \<Rightarrow> on_connection socket_write_failed c
      | ClientReceives bs \<Rightarrow> on_connection (\<lambda>k. Inr (snd (socket_received bs k))) c
      | ClientReadFails \<Rightarrow> on_connection (\<lambda>k. Inr (socket_read_failed k)) c
      | ExecuteOne now \<Rightarrow> ExecuteMessages show_seconds max_size now c
      | InputLine now line \<Rightarrow> Inr (input_line ulong_max now line c)
      | WakeUp \<Rightarrow> Inr (if notified c then wake_up c else c)
      | SpuriousWakeUp \<Rightarrow> Inr (wake_up c)
      | EscapeKey \<Rightarrow> Inr (escape_key c))"

text \<open>\<^verbatim>\<open>main\<close> up to its loop, and the destructor.\<close>

definition client_main :: "string + nat \<Rightarrow> string option \<Rightarrow> client" where
  "client_main resolved exn =
     (case Connect resolved exn new_client_object of (ok, c) \<Rightarrow>
        if client_IsConnected c then display ''Connected to the host. Type Help for info'' c else c)"

definition destroy_client :: "client \<Rightarrow> client" where
  "destroy_client c = client_Disconnect (close_command c)"

end
