(* ===== verification/Chat.thy ===== *)
theory Chat
  imports Client ServerProperties
begin

text \<open>
  The client's own properties, and client and server together: a chat asked for, accepted and
  used. What travels between the two is the message posted on a connection at one end and
  handled at the other; that it gets there, unchanged and in order, is the theory \<open>Channel\<close>.
\<close>

section \<open>The client's steps\<close>

lemma display_simps [simp]:
  "m_connection (display x c) = m_connection c" "Incoming (display x c) = Incoming c"
  "ConnectedToId (display x c) = ConnectedToId c"
  "ConnectionRequestId (display x c) = ConnectionRequestId c"
  "connecting (display x c) = connecting c" "ui (display x c) = ui c"
  "notified (display x c) = notified c" "screen (display x c) = screen c @ [x]"
  "client_context_running (display x c) = client_context_running c"
  by (simp_all add: display_def)

lemma client_Send_simps [simp]:
  "Incoming (client_Send m c) = Incoming c"
  "ConnectedToId (client_Send m c) = ConnectedToId c"
  "ConnectionRequestId (client_Send m c) = ConnectionRequestId c"
  "connecting (client_Send m c) = connecting c" "ui (client_Send m c) = ui c"
  "notified (client_Send m c) = notified c" "screen (client_Send m c) = screen c"
  by (simp_all add: client_Send_def)

text \<open>What a step from \<open>c\<close> to \<open>c'\<close> posted on the client's connection.\<close>

definition client_tasks :: "client \<Rightarrow> task list" where
  "client_tasks c = (case m_connection c of Some k \<Rightarrow> tasks k | None \<Rightarrow> [])"

lemma client_tasks_simps [simp]:
  "client_tasks (display x c) = client_tasks c"
  "client_tasks (c\<lparr>ConnectedToId := i\<rparr>) = client_tasks c"
  "client_tasks (c\<lparr>ConnectionRequestId := i\<rparr>) = client_tasks c"
  "client_tasks (c\<lparr>ui := u\<rparr>) = client_tasks c"
  "client_tasks (c\<lparr>notified := n\<rparr>) = client_tasks c"
  "client_tasks (c\<lparr>screen := xs\<rparr>) = client_tasks c"
  by (simp_all add: client_tasks_def display_def)

lemma client_tasks_send [simp]:
  "client_IsConnected c \<Longrightarrow> client_tasks (client_Send m c) = client_tasks c @ [SendTask m]"
  by (auto simp: client_tasks_def client_Send_def client_IsConnected_def Send_def split: option.splits)

lemma client_IsConnected_simps [simp]:
  "client_IsConnected (display x c) = client_IsConnected c"
  "client_IsConnected (client_Send m c) = client_IsConnected c"
  by (auto simp: client_IsConnected_def client_Send_def IsConnected_def Send_def split: option.split)

lemma of_bytes_to_bytes [simp]: "of_bytes (to_bytes str) = str"
proof -
  have "char_of (unat (of_char c :: u8)) = c" for c
  proof -
    have "(of_char c :: u8) = of_nat (of_char c :: nat)" by (rule of_nat_of_char [symmetric])
    then have "unat (of_char c :: u8) = of_char c mod 256" by (simp only: unat_of_nat) simp
    then show ?thesis by simp
  qed
  then show ?thesis by (simp add: of_bytes_def to_bytes_def map_idI)
qed

lemma length_to_bytes [simp]: "length (to_bytes str) = length str"
  by (simp add: to_bytes_def)

lemma handle_type:
  assumes "hdr_id (header msg) = msg_code t"
  shows "t = RequestToClient \<Longrightarrow> handle_message ss mx now msg c = on_request msg c"
    and "t = RequestAnswer \<Longrightarrow> handle_message ss mx now msg c = on_answer msg c"
    and "t = TextClient \<Longrightarrow> handle_message ss mx now msg c = on_text mx msg c"
  using assms by (simp_all add: handle_message_def)

lemma pop_push_u32 [simp]:
  "pop_u32 (push_u32 (new_message t) x) = Inr (x, new_message t)"
  by (rule pod32.pop_push) simp

lemma list_clients_total:
  "4 * n \<le> message_size msg \<Longrightarrow> \<exists>c'. list_clients n msg c = Inr c'"
proof (induction n arbitrary: msg c)
  case (Suc n)
  then obtain i msg' where p: "pop_u32 msg = Inr (i, msg')"
    and "message_size msg' = message_size msg - 4"
    by (auto simp: pop_pod_def Let_def message_size_def)
  with Suc show ?case by simp
qed simp

lemma list_clients_size_div: "\<exists>c'. list_clients (message_size msg div 4) msg c = Inr c'"
  by (rule list_clients_total) simp

section \<open>Properties\<close>

text \<open>
  Property C14. A message makes the client fail exactly when its body is shorter than the value the
  handler reads off it, or when a text's length field does not fit; the list of clients never
  does, whatever its size.
\<close>

theorem client_fails_exactly_when:
  "handle_message show_seconds max_size now msg c = Inl f \<longleftrightarrow>
     (\<exists>t. hdr_id (header msg) = msg_code t \<and>
       (t = ServerPing \<and> message_size msg < 8 \<and> f = UndefinedBehaviour
        \<or> t \<in> {ServerMessage, ServerAccept, RequestToClient, RequestAnswer}
          \<and> message_size msg < 4 \<and> f = UndefinedBehaviour
        \<or> t = TextClient \<and> pop_string max_size msg [] = Inl f))"
proof (cases "msg_type (hdr_id (header msg))")
  case None
  then have "\<And>t. hdr_id (header msg) \<noteq> msg_code t" by (metis msg_type_code option.simps(3))
  with None show ?thesis by (simp add: handle_message_def)
next
  case (Some t)
  then have t: "\<And>t'. hdr_id (header msg) = msg_code t' \<longleftrightarrow> t' = t"
    by (metis msg_type_Some msg_code_inject)
  have l: "list_clients (message_size msg div 4) msg c' \<noteq> Inl f" for c'
    using list_clients_size_div [of msg c'] by auto
  show ?thesis
    using Some by (cases t)
      (auto simp: t handle_message_def on_request_def on_answer_def on_text_def Let_def faults
        pop_pod_fault l split: prod.splits)
qed

text \<open>
  Property C3. A chat comes about. When client \<open>A\<close>, at the prompt, asks for \<open>B\<close>'s number, and neither
  is in a chat, the server passes the request on to \<open>B\<close> only; when \<open>B\<close> then accepts, the server
  passes the answer to \<open>A\<close> only; in the end each holds the other's number, both are in the chat
  loop, and the server's table has the pair.
\<close>

theorem chat_is_established:
  assumes "serving s" and "ra < next_ref s" and "rb < next_ref s" and "ra \<noteq> rb"
    and "Some ra \<in> set (m_dequeConnections s)" and "Some rb \<in> set (m_dequeConnections s)"
    and "ClientConnections s (client_id s ra) = None" and "ClientConnections s (client_id s rb) = None"
    and "client_IsConnected A" and "client_IsConnected B"
  shows "\<exists>m1 s1 m2 B1 m3 s2 A2.
    client_tasks (run_command t \<lparr>cmd_prefix = ConnectTo, cmd_id = client_id s rb\<rparr> A)
      = client_tasks A @ [SendTask m1]
  \<and> OnMessage ra m1 s = Inr s1 \<and> posted s s1 = only_to rb m2
  \<and> handle_message show_seconds max_size t m2 B = Inr B1
  \<and> client_tasks (run_command t \<lparr>cmd_prefix = RequestAccept, cmd_id = 0\<rparr> B1)
      = client_tasks B1 @ [SendTask m3]
  \<and> OnMessage rb m3 s1 = Inr s2 \<and> posted s1 s2 = only_to ra m3
  \<and> handle_message show_seconds max_size t m3
      (run_command t \<lparr>cmd_prefix = ConnectTo, cmd_id = client_id s rb\<rparr> A) = Inr A2
  \<and> ConnectedToId (wake_up A2) = client_id s rb \<and> ui (wake_up A2) = Chatting
  \<and> ConnectedToId (run_command t \<lparr>cmd_prefix = RequestAccept, cmd_id = 0\<rparr> B1) = client_id s ra
  \<and> ui (run_command t \<lparr>cmd_prefix = RequestAccept, cmd_id = 0\<rparr> B1) = Chatting
  \<and> ClientConnections s2 (client_id s ra) = Some (client_id s rb)
  \<and> ClientConnections s2 (client_id s rb) = Some (client_id s ra)"
proof -
  let ?a = "client_id s ra" and ?b = "client_id s rb"
  let ?m1 = "push_u32 (new_message RequestToClient) ?b"
  let ?m2 = "push_u32 (new_message RequestToClient) ?a"
  let ?m3 = "push_u32 (new_message RequestAnswer) 1"
  have h: "healthy s" and c: "conns_ok s" and mx: "next_ref s \<le> max_clients"
    using serving_healthy [OF assms(1)] by (auto simp: healthy_def server_ok_def)
  have a: "unat ?a = 10000 + ra" and b: "unat ?b = 10000 + rb"
    by (rule client_id_nat [OF c mx], fact)+
  have ab: "?a \<noteq> ?b" and inj: "\<And>r. r < next_ref s \<Longrightarrow> client_id s r = ?b \<Longrightarrow> r = rb"
    "\<And>r. r < next_ref s \<Longrightarrow> client_id s r = ?a \<Longrightarrow> r = ra"
    using client_id_inj [OF c mx] assms(2-4) by auto
  have small: "?a \<ge> 10000" "?b \<ge> 10000" "?a \<noteq> 0" "?a \<noteq> 1" "?b \<noteq> 0"
    using a b by (auto simp: word_le_nat_alt)
  have "?b \<in> deque_ids s" "?a \<in> deque_ids s"
    using assms(5,6) by (auto simp: deque_ids_def)
  then obtain s1 where s1: "OnMessage ra ?m1 s = Inr s1" "posted s s1 = only_to rb ?m2"
      "ClientConnections s1 = (ClientConnections s)(?a \<mapsto> ?b, ?b \<mapsto> ?a)"
      "m_dequeConnections s1 = m_dequeConnections s"
    using request_cases [OF h assms(2), of ?m1 "[]" ?b] assms(7,8) ab inj(1)
    by (auto simp: Let_def)
  have s1': "healthy s1" "next_ref s1 = next_ref s" "client_id s1 = client_id s"
    using OnMessage_healthy [OF h assms(2) s1(1)] by (auto simp: fun_eq_iff)
  have "deque_ids s1 = deque_ids s"
    using s1(4) s1'(3) by (simp add: deque_ids_def)
  then obtain s2 r where s2: "OnMessage rb ?m3 s1 = Inr s2" "ClientConnections s2 = ClientConnections s1"
      "client_id s1 r = ?a" "posted s1 s2 = only_to r ?m3" "r < next_ref s1"
    using answer_cases [OF s1'(1), of ?m3 rb ?a] s1(3) s1'(3) \<open>?a \<in> deque_ids s\<close> ab
    by auto
  have r: "r = ra"
    using s2(3,5) s1' inj(2) by simp
  let ?A = "run_command t \<lparr>cmd_prefix = ConnectTo, cmd_id = ?b\<rparr> A"
  have A: "client_tasks ?A = client_tasks A @ [SendTask ?m1]" "ConnectionRequestId ?A = ?b"
      "ui ?A = Requesting ?b"
    using assms(9) by (simp_all add: run_command_def connect_command_def Let_def ConnectRequest_def)
  obtain B1 where B1: "handle_message show_seconds max_size t ?m2 B = Inr B1"
      "ConnectionRequestId B1 = ?a" "client_IsConnected B1"
    using small(3,4) assms(10)
    by (auto simp: handle_type(1) [OF _ refl] on_request_def client_IsConnected_def)
  let ?B = "run_command t \<lparr>cmd_prefix = RequestAccept, cmd_id = 0\<rparr> B1"
  have B: "client_tasks ?B = client_tasks B1 @ [SendTask ?m3]" "ConnectedToId ?B = ?a"
      "ui ?B = Chatting"
    using B1(2,3) small(1) by (simp_all add: run_command_def Let_def open_chat_def ChangeConnectedToId_def)
  obtain A2 where A2: "handle_message show_seconds max_size t ?m3 ?A = Inr A2"
      "ConnectedToId A2 = ?b" "ConnectionRequestId A2 = 0" "ui A2 = Requesting ?b"
    using A(2,3) by (auto simp: handle_type(2) [OF _ refl] on_answer_def Let_def end_request_def
        ChangeConnectedToId_def)
  have "ConnectedToId (wake_up A2) = ?b" "ui (wake_up A2) = Chatting"
    using A2(2-4) small(2,5) by (simp_all add: wake_up_def Let_def open_chat_def)
  with s1 s2 A(1) B1(1) B A2(1) r ab show ?thesis
    by (intro exI [of _ ?m1] exI [of _ s1] exI [of _ ?m2] exI [of _ B1] exI [of _ ?m3] exI [of _ s2]
        exI [of _ A2]) simp
qed

text \<open>
  Property C4. A line typed in a chat appears on the partner's screen, character by character: the
  client sends it as a text, the server passes it to the partner only, and the partner's client
  prints it after the number it is connected to.
\<close>

theorem chat_line_appears:
  assumes "serving s" and "ClientConnections s (client_id s ra) = Some (client_id s rb)"
    and "rb < next_ref s" and "client_connected s (Some rb)" and "Some rb \<in> set (m_dequeConnections s)"
    and "client_IsConnected A" and "ConnectedToId A \<noteq> 0" and "line \<noteq> ''-close''"
    and "length line \<le> max_size" and "max_size < 2 ^ 64"
  shows "\<exists>m s' B'. client_tasks (chat_line line A) = client_tasks A @ [SendTask m]
    \<and> OnMessage ra m s = Inr s' \<and> posted s s' = only_to rb m
    \<and> handle_message show_seconds max_size t m B = Inr B'
    \<and> screen B' = screen B @ [show_u32 (ConnectedToId B) @ '' says: '', line @ nl @ ''>>'']"
proof -
  let ?m = "push_string (new_message TextClient) (to_bytes line)"
  have h: "healthy s" and c: "conns_ok s" and mx: "next_ref s \<le> max_clients"
    using serving_healthy [OF assms(1)] by (auto simp: healthy_def server_ok_def)
  have A: "client_tasks (chat_line line A) = client_tasks A @ [SendTask ?m]"
    using assms(6-8) by (simp add: chat_line_def SendToClient_def)
  have "client_id s rb \<in> deque_ids s"
    using assms(5) by (auto simp: deque_ids_def)
  then obtain s' r where s': "OnMessage ra ?m s = Inr s'" "client_id s r = client_id s rb" "r < next_ref s"
      "client_connected s (Some r) \<Longrightarrow> posted s s' = only_to r ?m"
    using text_cases [OF h _ assms(2), of ?m] by auto
  then have "r = rb"
    using client_id_inj [OF c mx _ assms(3)] by blast
  moreover have "pop_string max_size ?m [] = Inr ([] @ to_bytes line, new_message TextClient)"
    by (rule pop_string_push_string) (use assms(9,10) in simp_all)
  then obtain B' where "handle_message show_seconds max_size t ?m B = Inr B'"
      "screen B' = screen B @ [show_u32 (ConnectedToId B) @ '' says: '', line @ nl @ ''>>'']"
    by (auto simp: handle_type(3) [OF _ refl] on_text_def Let_def)
  ultimately show ?thesis
    using A s' assms(4) by blast
qed

text \<open>
  \<^verbatim>\<open>ConnectTo 0\<close> never comes back: the wait is for the request's number to differ from 0,
  and neither an answer, nor a close, nor the escape key, nor a wake-up makes it differ. Only a
  request of another client does.
\<close>

theorem connect_to_zero_hangs:
  assumes "ui c = Requesting 0" and "ConnectionRequestId c = 0"
    and "cstep show_seconds max_size ulong_max e c = Inr c'"
    and "\<And>m. m \<in> set (Incoming c) \<Longrightarrow> hdr_id (header m) = msg_code RequestToClient \<Longrightarrow>
           \<exists>i \<in> {0, 1}. \<exists>m'. pop_u32 m = Inr (i, m')"
  shows "ui c' = Requesting 0 \<and> ConnectionRequestId c' = 0"
proof -
  have lc: "list_clients n msg d = Inr d' \<Longrightarrow> ui d' = ui d \<and> ConnectionRequestId d' = ConnectionRequestId d"
    for n msg d d'
    by (induction n arbitrary: msg d) (fastforce simp: faults)+
  have oc: "on_connection g d = Inr d' \<Longrightarrow> ui d' = ui d \<and> ConnectionRequestId d' = ConnectionRequestId d"
    for g d d'
    by (auto simp: on_connection_def client_absorb_def faults split: option.splits if_splits)
  show ?thesis
  proof (cases e)
    case (ExecuteOne now)
    show ?thesis
    proof (cases "client_IsConnected c \<and> Incoming c \<noteq> []")
      case False
      with ExecuteOne assms(1-3) show ?thesis
        by (auto simp: cstep_def ExecuteMessages_def q_empty_def)
    next
      case True
      then obtain m q where q: "Incoming c = m # q" by (cases "Incoming c") auto
      let ?c = "display nl (c\<lparr>Incoming := q\<rparr>)"
      have hm: "handle_message show_seconds max_size now m ?c = Inr c'"
        using assms(3) True q ExecuteOne
        by (simp add: cstep_def ExecuteMessages_def q_empty_def pop_front_def)
      show ?thesis
      proof (cases "msg_type (hdr_id (header m))")
        case None
        with hm assms(1,2) show ?thesis by (auto simp: handle_message_def)
      next
        case (Some ty)
        then have ty: "hdr_id (header m) = msg_code ty" by (simp add: msg_type_Some)
        show ?thesis
        proof (cases ty)
          case RequestToClient
          then obtain i m' where "i \<in> {0, 1}" "pop_u32 m = Inr (i, m')"
            using assms(4) [of m] q ty by auto
          with hm assms(1) show ?thesis
            unfolding handle_type(1) [OF ty RequestToClient]
            by (auto simp: on_request_def end_request_def)
        next
          case RequestAnswer
          with hm assms(1) show ?thesis
            unfolding handle_type(2) [OF ty RequestAnswer]
            by (auto simp: on_answer_def end_request_def ChangeConnectedToId_def Let_def faults
                split: if_splits)
        next
          case TextClient
          with hm assms(1,2) show ?thesis
            unfolding handle_type(3) [OF ty TextClient] by (auto simp: on_text_def Let_def faults)
        next
          case ClientList
          with hm assms(1,2) Some show ?thesis
            by (auto simp: handle_message_def faults dest!: lc)
        qed (use hm assms(1,2) Some in
            \<open>auto simp: handle_message_def Let_def faults ChangeConnectedToId_def\<close>)
      qed
    qed
  next
    case (ConnectDone b)
    with assms(1-3) show ?thesis by (auto simp: cstep_def split: if_splits dest!: oc)
  qed (use assms(1-3) in \<open>auto simp: cstep_def input_line_def wake_up_def escape_key_def Let_def
      close_command_def ChangeConnectedToId_def dest!: oc\<close>)
qed

section \<open>Witnesses\<close>

definition online :: client where
  "online = new_client_object\<lparr>m_connection := Some example_client\<rparr>"

lemma online_connected: "client_IsConnected online"
  by (simp add: online_def new_client_object_def client_IsConnected_def example_client_def
      make_connection_def handler_defs)

theorem chat_is_established_witness:
  "\<exists>m1 s1 B1. serving asking_server
    \<and> client_tasks (run_command 7 \<lparr>cmd_prefix = ConnectTo, cmd_id = client_id asking_server 1\<rparr> online)
        = client_tasks online @ [SendTask m1]
    \<and> OnMessage 0 m1 asking_server = Inr s1
    \<and> ui (run_command 7 \<lparr>cmd_prefix = RequestAccept, cmd_id = 0\<rparr> B1) = Chatting"
proof -
  have s: "serving asking_server" "0 < next_ref asking_server" "1 < next_ref asking_server"
    "Some 0 \<in> set (m_dequeConnections asking_server)" "Some 1 \<in> set (m_dequeConnections asking_server)"
    "ClientConnections asking_server (client_id asking_server 0) = None"
    "ClientConnections asking_server (client_id asking_server 1) = None"
    using asking_facts by auto
  from chat_is_established [OF s(1-3) zero_neq_one s(4-7) online_connected online_connected,
      of 7 "\<lambda>_ _. []" 100] s(1)
  show ?thesis by blast
qed

theorem chat_line_appears_witness:
  "\<exists>m s'. serving chat_server
    \<and> client_tasks (chat_line ''hi'' (online\<lparr>ConnectedToId := 10001\<rparr>))
        = client_tasks (online\<lparr>ConnectedToId := 10001\<rparr>) @ [SendTask m]
    \<and> OnMessage 0 m chat_server = Inr s' \<and> posted chat_server s' = only_to 1 m"
proof -
  have s: "serving chat_server"
    "ClientConnections chat_server (client_id chat_server 0) = Some (client_id chat_server 1)"
    "1 < next_ref chat_server" "client_connected chat_server (Some 1)"
    "Some 1 \<in> set (m_dequeConnections chat_server)"
    using chat_facts by auto
  have "client_IsConnected (online\<lparr>ConnectedToId := 10001\<rparr>)"
    using online_connected by (simp add: client_IsConnected_def)
  from chat_line_appears [OF s this, of "''hi''" 100] s(1) show ?thesis
    by simp blast
qed

theorem connect_to_zero_hangs_witness:
  "ui (connect_command 0 online) = Requesting 0
   \<and> (\<exists>c'. cstep (\<lambda>_ _. []) 100 (2 ^ 32 - 1) SpuriousWakeUp (connect_command 0 online) = Inr c'
       \<and> ui c' = Requesting 0)"
proof -
  let ?c = "connect_command 0 online"
  have "ui ?c = Requesting 0" "ConnectionRequestId ?c = 0" "Incoming ?c = []"
    by (simp_all add: connect_command_def ConnectRequest_def Let_def online_def new_client_object_def)
  moreover have "cstep (\<lambda>_ _. []) 100 (2 ^ 32 - 1) SpuriousWakeUp ?c = Inr (wake_up ?c)"
    by (simp add: cstep_def)
  ultimately show ?thesis
    using connect_to_zero_hangs [of ?c "\<lambda>_ _. []" 100 "2 ^ 32 - 1" SpuriousWakeUp] by auto
qed

end
