(* ===== verification/OpQueue.thy ===== *)
theory OpQueue
  imports Prelude
begin

text \<open>
  \<^verbatim>\<open>asio/detail/op_queue.hpp\<close>: the intrusive singly linked queue in which Asio keeps the operations
  ready to run, those of a reactor's descriptor, and those a thread has finished. The operations
  are addresses; their \<^verbatim>\<open>next_\<close> fields are the heap \<open>links\<close>. The queue is two pointers.

  \<open>oq_list\<close> relates heap and queue to the list of the operations in it. Under it every operation
  is the one of lists; what is needed of the caller (an operation pushed is in no queue) is a
  hypothesis of the lemmas.
\<close>

type_synonym op = nat
type_synonym links = "op \<Rightarrow> op option"

record op_queue =
  front_ptr :: "op option"
  back_ptr :: "op option"

definition new_op_queue :: op_queue where
  "new_op_queue = \<lparr>front_ptr = None, back_ptr = None\<rparr>"

definition oq_front :: "op_queue \<Rightarrow> op option" where
  "oq_front q = front_ptr q"

definition oq_empty :: "op_queue \<Rightarrow> bool" where
  "oq_empty q \<longleftrightarrow> front_ptr q = None"

definition oq_pop :: "links \<times> op_queue \<Rightarrow> links \<times> op_queue" where
  "oq_pop = (\<lambda>(next, q).
     case front_ptr q of
       Some tmp \<Rightarrow>
         let q' = q\<lparr>front_ptr := next tmp\<rparr>;
             q'' = (if front_ptr q' = None then q'\<lparr>back_ptr := None\<rparr> else q')
         in (next(tmp := None), q'')
     | None \<Rightarrow> (next, q))"

definition oq_push :: "op \<Rightarrow> links \<times> op_queue \<Rightarrow> links \<times> op_queue" where
  "oq_push h = (\<lambda>(next, q).
     let next' = next(h := None)
     in case back_ptr q of
          Some b \<Rightarrow> (next'(b := Some h), q\<lparr>back_ptr := Some h\<rparr>)
        | None \<Rightarrow> (next', q\<lparr>front_ptr := Some h, back_ptr := Some h\<rparr>))"

text \<open>The push of another queue: the heap, this queue and the other one after it.\<close>

definition oq_push_queue ::
    "op_queue \<Rightarrow> links \<times> op_queue \<Rightarrow> links \<times> op_queue \<times> op_queue" where
  "oq_push_queue other = (\<lambda>(next, q).
     case front_ptr other of
       Some other_front \<Rightarrow>
         (case back_ptr q of
            Some b \<Rightarrow> (next(b := Some other_front), q\<lparr>back_ptr := back_ptr other\<rparr>, new_op_queue)
          | None \<Rightarrow>
              (next, q\<lparr>front_ptr := Some other_front, back_ptr := back_ptr other\<rparr>, new_op_queue))
     | None \<Rightarrow> (next, q, other))"

definition oq_is_enqueued :: "op \<Rightarrow> links \<times> op_queue \<Rightarrow> bool" where
  "oq_is_enqueued h = (\<lambda>(next, q). next h \<noteq> None \<or> back_ptr q = Some h)"

text \<open>
  The destructor: the operations it destroys, in order. On a cyclic list it would not end.
\<close>

partial_function (option) oq_destroy :: "links \<times> op_queue \<Rightarrow> op list option" where
  "oq_destroy s =
     (case front_ptr (snd s) of
        None \<Rightarrow> Some []
      | Some h \<Rightarrow> Option.bind (oq_destroy (oq_pop s)) (\<lambda>ds. Some (h # ds)))"

section \<open>The list in the heap\<close>

fun linked :: "links \<Rightarrow> op option \<Rightarrow> op list \<Rightarrow> bool" where
  "linked next p [] \<longleftrightarrow> p = None"
| "linked next p (x # xs) \<longleftrightarrow> p = Some x \<and> linked next (next x) xs"

definition oq_list :: "links \<times> op_queue \<Rightarrow> op list \<Rightarrow> bool" where
  "oq_list = (\<lambda>(next, q) xs. linked next (front_ptr q) xs \<and> distinct xs
     \<and> back_ptr q = (if xs = [] then None else Some (last xs)))"

lemma linked_upd [simp]: "x \<notin> set xs \<Longrightarrow> linked (next(x := p)) q xs = linked next q xs"
  by (induction xs arbitrary: q) auto

lemma linked_snoc:
  "linked next p xs \<Longrightarrow> distinct xs \<Longrightarrow> xs \<noteq> [] \<Longrightarrow> y \<notin> set xs \<Longrightarrow> next y = None \<Longrightarrow>
   linked (next(last xs := Some y)) p (xs @ [y])"
proof (induction xs arbitrary: p)
  case (Cons x xs)
  then show ?case by (cases "xs = []") (auto dest: last_in_set)
qed simp

lemma linked_last: "linked next p xs \<Longrightarrow> xs \<noteq> [] \<Longrightarrow> next (last xs) = None"
  by (induction xs arbitrary: p) (auto split: if_splits)

lemma linked_inner:
  "linked next p xs \<Longrightarrow> distinct xs \<Longrightarrow> x \<in> set xs \<Longrightarrow> x \<noteq> last xs \<Longrightarrow> next x \<noteq> None"
proof (induction xs arbitrary: p)
  case (Cons y ys)
  then show ?case by (cases ys) auto
qed simp

lemma linked_concat:
  "linked next p xs \<Longrightarrow> linked next r ys \<Longrightarrow> distinct (xs @ ys) \<Longrightarrow> xs \<noteq> [] \<Longrightarrow>
   linked (next(last xs := r)) p (xs @ ys)"
proof (induction xs arbitrary: p)
  case (Cons x xs)
  show ?case
  proof (cases "xs = []")
    case True
    with Cons.prems linked_upd [of x ys "next" r r] show ?thesis by (simp add: fun_upd_def)
  next
    case False
    then have "linked (next(last xs := r)) (next x) (xs @ ys)"
      by (intro Cons.IH) (use Cons.prems False in auto)
    moreover have "x \<noteq> last xs"
      using Cons.prems False by auto
    ultimately show ?thesis using Cons.prems False by (simp add: fun_upd_def)
  qed
qed simp

section \<open>The operations on lists\<close>

lemma oq_list_new: "oq_list (next, new_op_queue) []"
  by (simp add: oq_list_def new_op_queue_def)

lemma oq_front_list: "oq_list (next, q) xs \<Longrightarrow> oq_front q = (if xs = [] then None else Some (hd xs))"
  by (cases xs) (auto simp: oq_list_def oq_front_def)

lemma oq_empty_list: "oq_list (next, q) xs \<Longrightarrow> oq_empty q \<longleftrightarrow> xs = []"
  by (cases xs) (auto simp: oq_list_def oq_empty_def)

lemma oq_pop_list: "oq_list s xs \<Longrightarrow> oq_list (oq_pop s) (tl xs)"
  by (cases s; cases xs; cases "tl xs") (auto simp: oq_list_def oq_pop_def Let_def)

lemma oq_push_list:
  assumes "oq_list s xs" and "h \<notin> set xs"
  shows "oq_list (oq_push h s) (xs @ [h])"
proof (cases s)
  case (Pair "next" q)
  show ?thesis
  proof (cases "xs = []")
    case True
    with assms Pair show ?thesis by (auto simp: oq_list_def oq_push_def Let_def)
  next
    case False
    have "linked (next(h := None)) (front_ptr q) xs"
      using assms Pair by (simp add: oq_list_def)
    then have "linked ((next(h := None))(last xs := Some h)) (front_ptr q) (xs @ [h])"
      using assms Pair False by (intro linked_snoc) (auto simp: oq_list_def)
    with assms Pair False show ?thesis
      by (auto simp: oq_list_def oq_push_def Let_def)
  qed
qed

lemma oq_push_queue_list:
  assumes "oq_list (next, q) xs" and "oq_list (next, other) ys" and "set xs \<inter> set ys = {}"
  shows "case oq_push_queue other (next, q) of (next', q', other') \<Rightarrow>
    oq_list (next', q') (xs @ ys) \<and> oq_list (next', other') []"
proof (cases ys)
  case Nil
  with assms show ?thesis by (auto simp: oq_list_def oq_push_queue_def)
next
  case (Cons y ys')
  show ?thesis
  proof (cases "xs = []")
    case True
    with assms Cons show ?thesis
      by (auto simp: oq_list_def oq_push_queue_def new_op_queue_def)
  next
    case False
    have "linked (next(last xs := Some y)) (front_ptr q) (xs @ ys)"
      using assms Cons False by (intro linked_concat) (auto simp: oq_list_def)
    with assms Cons False show ?thesis
      by (auto simp: oq_list_def oq_push_queue_def new_op_queue_def)
  qed
qed

lemma oq_pop_unlinks:
  assumes "oq_list s (x # xs)"
  shows "fst (oq_pop s) x = None \<and> back_ptr (snd (oq_pop s)) \<noteq> Some x"
  using assms
  by (cases s; cases xs) (auto simp: oq_list_def oq_pop_def Let_def)

section \<open>Properties\<close>

text \<open>
  Property C30. The linked queue implements a list: pushing appends, popping removes the first, the
  push of a whole queue concatenates and empties the other one, and the test for membership is
  right for an operation that is in no other queue (whose link is null unless it is in this one).
\<close>

theorem op_queue_refines_list:
  assumes "oq_list (next, q) xs" and "oq_list (next, other) ys" and "distinct (h # xs @ ys)"
  shows "oq_list (oq_push h (next, q)) (xs @ [h]) \<and> oq_list (oq_pop (next, q)) (tl xs)
    \<and> oq_front q = (if xs = [] then None else Some (hd xs))
    \<and> (case oq_push_queue other (next, q) of (next', q', other') \<Rightarrow>
         oq_list (next', q') (xs @ ys) \<and> oq_list (next', other') [])
    \<and> (\<forall>x. x \<in> set xs \<or> next x = None \<longrightarrow> (oq_is_enqueued x (next, q) \<longleftrightarrow> x \<in> set xs))"
proof -
  have "oq_is_enqueued x (next, q) \<longleftrightarrow> x \<in> set xs" if "x \<in> set xs \<or> next x = None" for x
    using that assms(1) linked_inner [of "next" "front_ptr q" xs x]
    by (auto simp: oq_list_def oq_is_enqueued_def split: if_splits)
  then show ?thesis
    using oq_push_list [OF assms(1), of h] oq_pop_list [OF assms(1)] oq_front_list [OF assms(1)]
      oq_push_queue_list [OF assms(1,2)] assms(3)
    by auto
qed

lemma oq_destroy_list: "oq_list s xs \<Longrightarrow> oq_destroy s = Some xs"
proof (induction xs arbitrary: s)
  case Nil
  then show ?case by (cases s) (subst oq_destroy.simps, simp add: oq_list_def)
next
  case (Cons x xs)
  have "front_ptr (snd s) = Some x"
    using Cons.prems by (cases s) (simp add: oq_list_def)
  moreover have "oq_destroy (oq_pop s) = Some xs"
    using Cons.IH oq_pop_list [OF Cons.prems] by simp
  ultimately show ?case by (subst oq_destroy.simps) simp
qed

text \<open>
  The destructor ends and destroys each operation of the queue exactly once, in order.
\<close>

theorem op_queue_destructor_ends:
  assumes "oq_list s xs"
  shows "oq_destroy s = Some xs \<and> distinct xs"
  using oq_destroy_list [OF assms] assms by (cases s) (simp add: oq_list_def)

section \<open>Witnesses\<close>

definition two_ops :: "links \<times> op_queue" where
  "two_ops = oq_push 2 (oq_push 1 (\<lambda>_. None, new_op_queue))"

lemma two_ops_list: "oq_list two_ops [1, 2]"
  using oq_push_list [OF oq_push_list [OF oq_list_new]] by (fastforce simp: two_ops_def)

theorem op_queue_refines_list_witness:
  "oq_list (oq_push 3 two_ops) [1, 2, 3] \<and> oq_list (oq_pop two_ops) [2]"
proof -
  have "oq_list (fst two_ops, snd two_ops) [1, 2]" using two_ops_list by simp
  from op_queue_refines_list [OF this oq_list_new, of 3] show ?thesis by simp
qed

theorem op_queue_destructor_ends_witness: "oq_destroy two_ops = Some [1, 2]"
  using op_queue_destructor_ends [OF two_ops_list] by simp

end
