(* ===== verification/Buffers.thy ===== *)
theory Buffers
  imports Prelude
begin

text \<open>
  \<^verbatim>\<open>asio/buffer.hpp\<close>: a buffer is a range of memory, a pointer and a number of bytes; a sequence of
  buffers is a list of them. The operations that cut a buffer, the size of a sequence, and the
  copy from one sequence into another, which the synchronous and asynchronous operations share.

  An address is a number; the memory maps addresses to bytes. \<open>span\<close> and \<open>spans\<close> are the addresses
  of a buffer and of a sequence, in order: the lemmas say what an operation does to these lists.
  The checks of \<^verbatim>\<open>ASIO_ENABLE_BUFFER_DEBUGGING\<close> are not modelled.
\<close>

type_synonym addr = nat
type_synonym memory = "addr \<Rightarrow> u8"

section \<open>Buffers\<close>

record buffer =
  bdata :: addr
  bsize :: nat

text \<open>
  \<^verbatim>\<open>mutable_buffer\<close> and \<^verbatim>\<open>const_buffer\<close> differ in the pointer's type only, and one converts to the
  other; the operators exist once for each.
\<close>

type_synonym mutable_buffer = buffer
type_synonym const_buffer = buffer

definition make_buffer :: "addr \<Rightarrow> nat \<Rightarrow> buffer" where
  "make_buffer p n = \<lparr>bdata = p, bsize = n\<rparr>"

definition empty_buffer :: buffer where
  "empty_buffer = \<lparr>bdata = 0, bsize = 0\<rparr>"

definition as_const :: "mutable_buffer \<Rightarrow> const_buffer" where
  "as_const b = \<lparr>bdata = bdata b, bsize = bsize b\<rparr>"

text \<open>\<^verbatim>\<open>operator+=\<close> and \<^verbatim>\<open>operator+\<close>: the start moves, at most to the end.\<close>

definition mutable_advance :: "nat \<Rightarrow> mutable_buffer \<Rightarrow> mutable_buffer" where
  "mutable_advance n b =
     (let offset = (if n < bsize b then n else bsize b)
      in b\<lparr>bdata := bdata b + offset, bsize := bsize b - offset\<rparr>)"

definition const_advance :: "nat \<Rightarrow> const_buffer \<Rightarrow> const_buffer" where
  "const_advance n b =
     (let offset = (if n < bsize b then n else bsize b)
      in b\<lparr>bdata := bdata b + offset, bsize := bsize b - offset\<rparr>)"

definition mutable_plus :: "mutable_buffer \<Rightarrow> nat \<Rightarrow> mutable_buffer" where
  "mutable_plus b n =
     (let offset = (if n < bsize b then n else bsize b);
          new_data = bdata b + offset;
          new_size = bsize b - offset
      in make_buffer new_data new_size)"

definition const_plus :: "const_buffer \<Rightarrow> nat \<Rightarrow> const_buffer" where
  "const_plus b n =
     (let offset = (if n < bsize b then n else bsize b);
          new_data = bdata b + offset;
          new_size = bsize b - offset
      in make_buffer new_data new_size)"

text \<open>\<^verbatim>\<open>buffer(b, max_size_in_bytes)\<close>: the first bytes of a buffer.\<close>

definition mutable_limit :: "mutable_buffer \<Rightarrow> nat \<Rightarrow> mutable_buffer" where
  "mutable_limit b max_size_in_bytes =
     make_buffer (bdata b) (if bsize b < max_size_in_bytes then bsize b else max_size_in_bytes)"

definition const_limit :: "const_buffer \<Rightarrow> nat \<Rightarrow> const_buffer" where
  "const_limit b max_size_in_bytes =
     make_buffer (bdata b) (if bsize b < max_size_in_bytes then bsize b else max_size_in_bytes)"

text \<open>
  The buffer over a container, whose elements are at \<open>p\<close>: an array, a vector, a string. The empty
  vector has no element to take the address of.
\<close>

definition buffer_array :: "addr \<Rightarrow> nat \<Rightarrow> nat \<Rightarrow> buffer" where
  "buffer_array p n sizeof = make_buffer p (n * sizeof)"

definition buffer_array_max :: "addr \<Rightarrow> nat \<Rightarrow> nat \<Rightarrow> nat \<Rightarrow> buffer" where
  "buffer_array_max p n sizeof max_size_in_bytes =
     make_buffer p (if n * sizeof < max_size_in_bytes then n * sizeof else max_size_in_bytes)"

definition buffer_vector :: "addr \<Rightarrow> 'a list \<Rightarrow> nat \<Rightarrow> buffer" where
  "buffer_vector p v sizeof = make_buffer (if length v \<noteq> 0 then p else 0) (length v * sizeof)"

definition buffer_vector_max :: "addr \<Rightarrow> 'a list \<Rightarrow> nat \<Rightarrow> nat \<Rightarrow> buffer" where
  "buffer_vector_max p v sizeof max_size_in_bytes =
     make_buffer (if length v \<noteq> 0 then p else 0)
       (if length v * sizeof < max_size_in_bytes then length v * sizeof else max_size_in_bytes)"

definition buffer_string :: "addr \<Rightarrow> 'a list \<Rightarrow> nat \<Rightarrow> buffer" where
  "buffer_string p s sizeof = make_buffer (if length s \<noteq> 0 then p else 0) (length s * sizeof)"

definition buffer_string_max :: "addr \<Rightarrow> 'a list \<Rightarrow> nat \<Rightarrow> nat \<Rightarrow> buffer" where
  "buffer_string_max p s sizeof max_size_in_bytes =
     make_buffer (if length s \<noteq> 0 then p else 0)
       (if length s * sizeof < max_size_in_bytes then length s * sizeof else max_size_in_bytes)"

text \<open>The number of bytes of a sequence.\<close>

fun buffer_size_from :: "nat \<Rightarrow> buffer list \<Rightarrow> nat" where
  "buffer_size_from total_buffer_size [] = total_buffer_size"
| "buffer_size_from total_buffer_size (b # bs) = buffer_size_from (total_buffer_size + bsize b) bs"

definition buffer_size :: "buffer list \<Rightarrow> nat" where
  "buffer_size bs = buffer_size_from 0 bs"

section \<open>Copying\<close>

text \<open>
  \<^verbatim>\<open>std::memcpy\<close> on ranges that do not overlap: the bytes of the source as they were before. (On
  overlapping ranges it is undefined; the theorems assume there is no overlap.)
\<close>

fun store :: "memory \<Rightarrow> addr list \<Rightarrow> bytes \<Rightarrow> memory" where
  "store m (a # as) (b # bs) = store (m(a := b)) as bs"
| "store m _ _ = m"

definition memcpy :: "memory \<Rightarrow> addr \<Rightarrow> addr \<Rightarrow> nat \<Rightarrow> memory" where
  "memcpy m target source n = store m [target ..< target + n] (map m [source ..< source + n])"

definition buffer_copy_1 :: "mutable_buffer \<Rightarrow> const_buffer \<Rightarrow> memory \<Rightarrow> nat \<times> memory" where
  "buffer_copy_1 target source m =
     (let target_size = bsize target;
          source_size = bsize source;
          n = (if target_size < source_size then target_size else source_size)
      in (n, if n > 0 then memcpy m (bdata target) (bdata source) n else m))"

definition buffer_copy_one_one :: "mutable_buffer \<Rightarrow> const_buffer \<Rightarrow> memory \<Rightarrow> nat \<times> memory" where
  "buffer_copy_one_one target source m = buffer_copy_1 target source m"

definition buffer_copy_one_one_max ::
    "mutable_buffer \<Rightarrow> const_buffer \<Rightarrow> nat \<Rightarrow> memory \<Rightarrow> nat \<times> memory" where
  "buffer_copy_one_one_max target source max_bytes_to_copy m =
     buffer_copy_1 target (const_limit source max_bytes_to_copy) m"

text \<open>From a sequence into one buffer, and from one buffer into a sequence.\<close>

fun copy_into_one ::
    "mutable_buffer \<Rightarrow> const_buffer list \<Rightarrow> nat \<Rightarrow> memory \<Rightarrow> nat \<times> memory" where
  "copy_into_one target_buffer [] copied m = (copied, m)"
| "copy_into_one target_buffer (source_buffer # sources) copied m =
     (if bsize target_buffer \<noteq> 0 then
        let (bytes_copied, m') = buffer_copy_1 target_buffer source_buffer m
        in copy_into_one (mutable_advance bytes_copied target_buffer) sources
             (copied + bytes_copied) m'
      else (copied, m))"

definition buffer_copy_one_many ::
    "mutable_buffer \<Rightarrow> const_buffer list \<Rightarrow> nat \<Rightarrow> memory \<Rightarrow> nat \<times> memory" where
  "buffer_copy_one_many target sources max_bytes_to_copy m =
     copy_into_one (mutable_limit target max_bytes_to_copy) sources 0 m"

fun copy_from_one ::
    "mutable_buffer list \<Rightarrow> const_buffer \<Rightarrow> nat \<Rightarrow> memory \<Rightarrow> nat \<times> memory" where
  "copy_from_one [] source_buffer copied m = (copied, m)"
| "copy_from_one (target_buffer # targets) source_buffer copied m =
     (if bsize source_buffer \<noteq> 0 then
        let (bytes_copied, m') = buffer_copy_1 target_buffer source_buffer m
        in copy_from_one targets (const_advance bytes_copied source_buffer)
             (copied + bytes_copied) m'
      else (copied, m))"

definition buffer_copy_many_one ::
    "mutable_buffer list \<Rightarrow> const_buffer \<Rightarrow> nat \<Rightarrow> memory \<Rightarrow> nat \<times> memory" where
  "buffer_copy_many_one targets source max_bytes_to_copy m =
     copy_from_one targets (const_limit source max_bytes_to_copy) 0 m"

text \<open>
  From a sequence into a sequence: the two positions are an iterator and an offset each. An
  iteration moves at least one of them to its next buffer.
\<close>

lemma copy_1_count: "fst (buffer_copy_1 t s m) = min (bsize t) (bsize s)"
  by (simp add: buffer_copy_1_def Let_def min_def)

function copy_many ::
    "mutable_buffer list \<Rightarrow> nat \<Rightarrow> const_buffer list \<Rightarrow> nat \<Rightarrow> nat \<Rightarrow> memory \<Rightarrow> nat \<times> memory" where
  "copy_many [] toff ss soff copied m = (copied, m)"
| "copy_many (t # ts) toff [] soff copied m = (copied, m)"
| "copy_many (t # ts) toff (s # ss) soff copied m =
     (let target_buffer = mutable_plus t toff;
          source_buffer = const_plus s soff;
          r = buffer_copy_1 target_buffer source_buffer m;
          bytes_copied = fst r;
          t_done = (bytes_copied = bsize target_buffer);
          s_done = (bytes_copied = bsize source_buffer)
      in copy_many (if t_done then ts else t # ts) (if t_done then 0 else toff + bytes_copied)
           (if s_done then ss else s # ss) (if s_done then 0 else soff + bytes_copied)
           (copied + bytes_copied) (snd r))"
  by pat_completeness auto
termination
  by (relation "measure (\<lambda>(ts, _, ss, _). length ts + length ss)")
    (auto simp: copy_1_count min_def)

definition buffer_copy_many_many ::
    "mutable_buffer list \<Rightarrow> const_buffer list \<Rightarrow> memory \<Rightarrow> nat \<times> memory" where
  "buffer_copy_many_many targets sources m = copy_many targets 0 sources 0 0 m"

text \<open>
  The same with a limit. Here an iteration that moves neither position has reached the
  limit. What is copied never exceeds the limit, so the loop's \<^verbatim>\<open>!=\<close> is \<open><\<close> (\<open>copy_many_max_eq\<close>).
\<close>

function copy_many_max ::
    "nat \<Rightarrow> mutable_buffer list \<Rightarrow> nat \<Rightarrow> const_buffer list \<Rightarrow> nat \<Rightarrow> nat \<Rightarrow> memory
     \<Rightarrow> nat \<times> memory" where
  "copy_many_max mx ts toff ss soff copied m =
     (if copied < mx \<and> ts \<noteq> [] \<and> ss \<noteq> [] then
        let target_buffer = mutable_plus (hd ts) toff;
            source_buffer = const_plus (hd ss) soff;
            r = buffer_copy_1 target_buffer (const_limit source_buffer (mx - copied)) m;
            bytes_copied = fst r;
            t_done = (bytes_copied = bsize target_buffer);
            s_done = (bytes_copied = bsize source_buffer)
        in copy_many_max mx (if t_done then tl ts else ts) (if t_done then 0 else toff + bytes_copied)
             (if s_done then tl ss else ss) (if s_done then 0 else soff + bytes_copied)
             (copied + bytes_copied) (snd r)
      else (copied, m))"
  by pat_completeness auto
termination
  by (relation "measure (\<lambda>(mx, ts, _, ss, _, copied, _).
        length ts + length ss + (if copied < mx then 1 else 0))")
    (auto simp: copy_1_count min_def const_limit_def make_buffer_def neq_Nil_conv split: if_splits)

declare copy_many_max.simps [simp del]

definition buffer_copy_many_many_max ::
    "mutable_buffer list \<Rightarrow> const_buffer list \<Rightarrow> nat \<Rightarrow> memory \<Rightarrow> nat \<times> memory" where
  "buffer_copy_many_many_max targets sources max_bytes_to_copy m =
     copy_many_max max_bytes_to_copy targets 0 sources 0 0 m"

text \<open>
  A buffer sequence is one buffer or many; the entry points choose the copy by that. Where the code
  leaves the limit out, its default is the largest \<^verbatim>\<open>std::size_t\<close>.
\<close>

datatype buffer_sequence = One buffer | Many "buffer list"

fun sequence_list :: "buffer_sequence \<Rightarrow> buffer list" where
  "sequence_list (One b) = [b]"
| "sequence_list (Many bs) = bs"

definition size_max :: nat where
  "size_max = 2 ^ 64 - 1"

fun buffer_copy :: "buffer_sequence \<Rightarrow> buffer_sequence \<Rightarrow> memory \<Rightarrow> nat \<times> memory" where
  "buffer_copy (One t) (One s) m = buffer_copy_one_one t s m"
| "buffer_copy (One t) (Many ss) m = buffer_copy_one_many t ss size_max m"
| "buffer_copy (Many ts) (One s) m = buffer_copy_many_one ts s size_max m"
| "buffer_copy (Many ts) (Many ss) m = buffer_copy_many_many ts ss m"

fun buffer_copy_max ::
    "buffer_sequence \<Rightarrow> buffer_sequence \<Rightarrow> nat \<Rightarrow> memory \<Rightarrow> nat \<times> memory" where
  "buffer_copy_max (One t) (One s) mx m = buffer_copy_one_one_max t s mx m"
| "buffer_copy_max (One t) (Many ss) mx m = buffer_copy_one_many t ss mx m"
| "buffer_copy_max (Many ts) (One s) mx m = buffer_copy_many_one ts s mx m"
| "buffer_copy_max (Many ts) (Many ss) mx m = buffer_copy_many_many_max ts ss mx m"

section \<open>The addresses of a buffer\<close>

named_theorems buffers \<open>definitions of the operations on buffers\<close>

definition span :: "buffer \<Rightarrow> addr list" where
  "span b = [bdata b ..< bdata b + bsize b]"

fun spans :: "buffer list \<Rightarrow> addr list" where
  "spans [] = []"
| "spans (b # bs) = span b @ spans bs"

declare make_buffer_def [buffers] empty_buffer_def [buffers] mutable_advance_def [buffers]
  const_advance_def [buffers] mutable_plus_def [buffers] const_plus_def [buffers]
  mutable_limit_def [buffers] const_limit_def [buffers] Let_def [buffers]

lemma length_span [simp]: "length (span b) = bsize b"
  by (simp add: span_def)

lemma span_Nil [simp]: "span b = [] \<longleftrightarrow> bsize b = 0"
  by (auto simp: span_def)

lemma span_mutable_plus [simp]: "span (mutable_plus b n) = drop n (span b)"
  by (auto simp: span_def buffers)

lemma span_const_plus [simp]: "span (const_plus b n) = drop n (span b)"
  by (auto simp: span_def buffers)

lemma span_mutable_advance [simp]: "span (mutable_advance n b) = drop n (span b)"
  by (auto simp: span_def buffers)

lemma span_const_advance [simp]: "span (const_advance n b) = drop n (span b)"
  by (auto simp: span_def buffers)

lemma take_upt_min: "take n [a..<b] = [a..<min b (a + n)]"
  by (cases "a + n \<le> b") (auto simp: min_def)

lemma span_mutable_limit [simp]: "span (mutable_limit b n) = take n (span b)"
  by (auto simp: span_def buffers take_upt_min min_def)

lemma span_const_limit [simp]: "span (const_limit b n) = take n (span b)"
  by (auto simp: span_def buffers take_upt_min min_def)

lemma bsize_span: "bsize b = length (span b)"
  by simp

lemma bsize_simps [simp]:
  "bsize (mutable_plus b n) = bsize b - n"
  "bsize (const_plus b n) = bsize b - n"
  "bsize (mutable_advance n b) = bsize b - n"
  "bsize (const_advance n b) = bsize b - n"
  "bsize (mutable_limit b n) = min (bsize b) n"
  "bsize (const_limit b n) = min (bsize b) n"
  by (auto simp: buffers min_def)

lemma span_as_const [simp]: "span (as_const b) = span b"
  by (simp add: span_def as_const_def)

lemma span_empty [simp]: "span empty_buffer = []"
  by (simp add: empty_buffer_def)

lemma spans_append [simp]: "spans (bs @ cs) = spans bs @ spans cs"
  by (induction bs) auto

lemma buffer_size_from_spans: "buffer_size_from n bs = n + length (spans bs)"
  by (induction bs arbitrary: n) auto

lemma buffer_size_spans: "buffer_size bs = length (spans bs)"
  by (simp add: buffer_size_def buffer_size_from_spans)

section \<open>What a copy does\<close>

lemma store_Nil [simp]: "store m as [] = m"
  by (cases as) auto

lemma store_append:
  "length as = length bs \<Longrightarrow> store m (as @ as') (bs @ bs') = store (store m as bs) as' bs'"
  by (induction m as bs rule: store.induct) auto

lemma store_other: "a \<notin> set as \<Longrightarrow> store m as bs a = m a"
  by (induction m as bs rule: store.induct) auto

lemma map_store_other: "set xs \<inter> set as = {} \<Longrightarrow> map (store m as bs) xs = map m xs"
  by (induction xs) (auto simp: store_other)

lemma map_store_same:
  "distinct as \<Longrightarrow> length as = length bs \<Longrightarrow> map (store m as bs) as = bs"
  by (induction m as bs rule: store.induct) (auto simp: store_other)

text \<open>
  Every copy is this one, on the addresses of the two sequences: as many bytes as fit are stored
  at the first addresses of the target.
\<close>

definition copied_from :: "memory \<Rightarrow> nat \<Rightarrow> addr list \<Rightarrow> addr list \<Rightarrow> memory" where
  "copied_from m n target source = store m (take n target) (map m (take n source))"

lemma copied_from_0 [simp]: "copied_from m 0 target source = m"
  by (simp add: copied_from_def)

lemma copied_from_add:
  assumes "n \<le> length target" and "n \<le> length source" and "set target \<inter> set source = {}"
  shows "copied_from (copied_from m n target source) k (drop n target) (drop n source) =
    copied_from m (n + k) target source"
proof -
  have "set (take k (drop n source)) \<inter> set (take n target) = {}"
    using assms(3) by (meson disjoint_iff in_set_dropD in_set_takeD)
  then have "map (store m (take n target) (map m (take n source))) (take k (drop n source)) =
      map m (take k (drop n source))"
    by (rule map_store_other)
  with assms(1,2) show ?thesis
    unfolding copied_from_def take_add map_append
    by (simp add: store_append del: map_eq_conv)
qed

lemma buffer_copy_1_spec:
  "buffer_copy_1 t s m = (min (bsize t) (bsize s), copied_from m (min (bsize t) (bsize s)) (span t) (span s))"
proof -
  define n where "n = min (bsize t) (bsize s)"
  have "memcpy m (bdata t) (bdata s) n = copied_from m n (span t) (span s)"
    by (simp add: memcpy_def copied_from_def span_def n_def)
  then show ?thesis
    by (auto simp: buffer_copy_1_def Let_def n_def min_def)
qed

text \<open>The addresses from an iterator and an offset on, and how an iteration moves them.\<close>

fun addrs_at :: "buffer list \<Rightarrow> nat \<Rightarrow> addr list" where
  "addrs_at [] off = []"
| "addrs_at (b # bs) off = drop off (span b) @ spans bs"

lemma addrs_at_0: "addrs_at bs 0 = spans bs"
  by (cases bs) auto

lemma addrs_at_advance:
  assumes "n \<le> bsize b - off"
  shows "addrs_at (if n = bsize b - off then bs else b # bs)
      (if n = bsize b - off then 0 else off + n) = drop n (addrs_at (b # bs) off)"
  using assms by (auto simp: addrs_at_0 add.commute)

lemma disjoint_drop:
  "set xs \<inter> set ys = {} \<Longrightarrow> set (drop n xs) \<inter> set (drop k ys) = {}"
  by (meson disjoint_iff in_set_dropD)

lemma copied_from_append:
  "n \<le> length xs \<Longrightarrow> n \<le> length ys \<Longrightarrow> copied_from m n (xs @ xs') (ys @ ys') = copied_from m n xs ys"
  by (simp add: copied_from_def)

lemma copy_many_spec:
  assumes "set (addrs_at ts toff) \<inter> set (addrs_at ss soff) = {}"
  shows "copy_many ts toff ss soff copied m =
    (let k = min (length (addrs_at ts toff)) (length (addrs_at ss soff))
     in (copied + k, copied_from m k (addrs_at ts toff) (addrs_at ss soff)))"
  using assms
proof (induction ts toff ss soff copied m rule: copy_many.induct)
  case (3 t ts toff s ss soff copied m)
  define T where "T = addrs_at (t # ts) toff"
  define S where "S = addrs_at (s # ss) soff"
  define n where "n = min (bsize t - toff) (bsize s - soff)"
  have n: "n \<le> length T" "n \<le> length S"
    by (auto simp: T_def S_def n_def)
  let ?ts = "if n = bsize t - toff then ts else t # ts"
  let ?toff = "if n = bsize t - toff then 0 else toff + n"
  let ?ss = "if n = bsize s - soff then ss else s # ss"
  let ?soff = "if n = bsize s - soff then 0 else soff + n"
  have T: "addrs_at ?ts ?toff = drop n T" and S: "addrs_at ?ss ?soff = drop n S"
    unfolding T_def S_def by (intro addrs_at_advance; simp add: n_def)+
  have first: "buffer_copy_1 (mutable_plus t toff) (const_plus s soff) m = (n, copied_from m n T S)"
    by (simp add: buffer_copy_1_spec n_def T_def S_def copied_from_append)
  have "copy_many (t # ts) toff (s # ss) soff copied m =
      copy_many ?ts ?toff ?ss ?soff (copied + n) (copied_from m n T S)"
    by (simp add: Let_def first)
  also have "\<dots> = (let k = min (length (drop n T)) (length (drop n S))
     in (copied + n + k, copied_from (copied_from m n T S) k (drop n T) (drop n S)))"
    using "3.IH" [OF refl refl refl refl refl refl, unfolded first fst_conv snd_conv bsize_simps T S]
      disjoint_drop [OF "3.prems" [folded T_def S_def], of n n]
    by simp
  also have "\<dots> = (let k = min (length T) (length S) in (copied + k, copied_from m k T S))"
  proof -
    have "n + min (length T - n) (length S - n) = min (length T) (length S)"
      using n by arith
    moreover note copied_from_add [OF n "3.prems" [folded T_def S_def]]
    ultimately show ?thesis
      by (simp only: Let_def add.assoc length_drop)
  qed
  finally show ?case by (simp add: T_def S_def)
qed auto

lemma addrs_at_Cons: "bs \<noteq> [] \<Longrightarrow> addrs_at bs off = drop off (span (hd bs)) @ spans (tl bs)"
  by (cases bs) auto

lemma addrs_at_next:
  assumes "bs \<noteq> []" and "n \<le> bsize (hd bs) - off"
  shows "addrs_at (if n = bsize (hd bs) - off then tl bs else bs)
      (if n = bsize (hd bs) - off then 0 else off + n) = drop n (addrs_at bs off)"
  using assms addrs_at_advance [of n "hd bs" off "tl bs"] by (cases bs) auto

lemma copy_many_max_spec:
  assumes "set (addrs_at ts toff) \<inter> set (addrs_at ss soff) = {}" and "copied \<le> mx"
  shows "copy_many_max mx ts toff ss soff copied m =
    (let k = min (mx - copied) (min (length (addrs_at ts toff)) (length (addrs_at ss soff)))
     in (copied + k, copied_from m k (addrs_at ts toff) (addrs_at ss soff)))"
  using assms
proof (induction mx ts toff ss soff copied m rule: copy_many_max.induct)
  case (1 mx ts toff ss soff copied m)
  show ?case
  proof (cases "copied < mx \<and> ts \<noteq> [] \<and> ss \<noteq> []")
    case False
    then show ?thesis
      using "1.prems" by (subst copy_many_max.simps) auto
  next
    case True
    define T where "T = addrs_at ts toff"
    define S where "S = addrs_at ss soff"
    define n where "n = min (bsize (hd ts) - toff) (min (bsize (hd ss) - soff) (mx - copied))"
    have n: "n \<le> length T" "n \<le> length S" and "copied + n \<le> mx"
      using True by (auto simp: T_def S_def n_def addrs_at_Cons)
    let ?ts = "if n = bsize (hd ts) - toff then tl ts else ts"
    let ?toff = "if n = bsize (hd ts) - toff then 0 else toff + n"
    let ?ss = "if n = bsize (hd ss) - soff then tl ss else ss"
    let ?soff = "if n = bsize (hd ss) - soff then 0 else soff + n"
    have T: "addrs_at ?ts ?toff = drop n T" and S: "addrs_at ?ss ?soff = drop n S"
      unfolding T_def S_def using True by (intro addrs_at_next; simp add: n_def)+
    have first: "buffer_copy_1 (mutable_plus (hd ts) toff)
        (const_limit (const_plus (hd ss) soff) (mx - copied)) m = (n, copied_from m n T S)"
      using True by (simp add: buffer_copy_1_spec n_def T_def S_def addrs_at_Cons copied_from_def)
    have "copy_many_max mx ts toff ss soff copied m =
        copy_many_max mx ?ts ?toff ?ss ?soff (copied + n) (copied_from m n T S)"
      by (subst copy_many_max.simps)
        (simp only: if_P [OF True] Let_def first fst_conv snd_conv bsize_simps)
    also have "\<dots> = (let k = min (mx - (copied + n)) (min (length (drop n T)) (length (drop n S)))
       in (copied + n + k, copied_from (copied_from m n T S) k (drop n T) (drop n S)))"
      using "1.IH" [OF True refl refl refl refl refl refl, unfolded first fst_conv snd_conv bsize_simps T S]
        disjoint_drop [OF "1.prems"(1) [folded T_def S_def], of n n] \<open>copied + n \<le> mx\<close>
      by blast
    also have "\<dots> = (let k = min (mx - copied) (min (length T) (length S))
       in (copied + k, copied_from m k T S))"
    proof -
      have "n + min (mx - (copied + n)) (min (length T - n) (length S - n)) =
          min (mx - copied) (min (length T) (length S))"
        using n \<open>copied + n \<le> mx\<close> by arith
      moreover note copied_from_add [OF n "1.prems"(1) [folded T_def S_def]]
      ultimately show ?thesis
        by (simp only: Let_def add.assoc length_drop)
    qed
    finally show ?thesis by (simp add: T_def S_def)
  qed
qed

lemma copied_from_next:
  assumes "n = min (length T) (length U)" and "set T \<inter> set (U @ V) = {}"
  shows "(let k = min (length T - n) (length V)
      in (copied + n + k, copied_from (copied_from m n T U) k (drop n T) V)) =
    (let k = min (length T) (length (U @ V)) in (copied + k, copied_from m k T (U @ V)))"
proof (cases "n = length U")
  case True
  then have "copied_from (copied_from m n T U) k (drop n T) V = copied_from m (n + k) T (U @ V)" for k
    using copied_from_add [of n T "U @ V" m k] assms by (simp add: copied_from_def)
  moreover have "n + min (length T - n) (length V) = min (length T) (length (U @ V))"
    using True assms(1) by simp
  ultimately show ?thesis
    by (simp add: Let_def add.assoc)
next
  case False
  then have "n = length T" using assms(1) by (simp add: min_def split: if_splits)
  then show ?thesis
    using False assms(1) by (simp add: Let_def copied_from_def min_def split: if_splits)
qed

lemma copied_into_next:
  assumes "n = min (length T) (length U)" and "set (T @ V) \<inter> set U = {}"
  shows "(let k = min (length V) (length U - n)
      in (copied + n + k, copied_from (copied_from m n T U) k V (drop n U))) =
    (let k = min (length (T @ V)) (length U) in (copied + k, copied_from m k (T @ V) U))"
proof (cases "n = length T")
  case True
  then have "copied_from (copied_from m n T U) k V (drop n U) = copied_from m (n + k) (T @ V) U" for k
    using copied_from_add [of n "T @ V" U m k] assms by (simp add: copied_from_def)
  moreover have "n + min (length V) (length U - n) = min (length (T @ V)) (length U)"
    using True assms(1) by simp
  ultimately show ?thesis
    by (simp add: Let_def add.assoc)
next
  case False
  then have "n = length U" using assms(1) by (simp add: min_def split: if_splits)
  then show ?thesis
    using False assms(1) by (simp add: Let_def copied_from_def min_def split: if_splits)
qed

lemma copy_into_one_spec:
  assumes "set (span t) \<inter> set (spans ss) = {}"
  shows "copy_into_one t ss copied m =
    (let k = min (bsize t) (length (spans ss)) in (copied + k, copied_from m k (span t) (spans ss)))"
  using assms
proof (induction t ss copied m rule: copy_into_one.induct)
  case (2 t s ss copied m)
  show ?case
  proof (cases "bsize t = 0")
    case False
    define n where "n = min (bsize t) (bsize s)"
    have first: "buffer_copy_1 t s m = (n, copied_from m n (span t) (span s))"
      by (simp add: buffer_copy_1_spec n_def)
    have "set (drop n (span t)) \<inter> set (spans ss) = {}"
      using disjoint_drop [OF "2.prems", of n "bsize s"] by simp
    then show ?thesis
      using "2.IH" [OF False first [symmetric] refl] "2.prems" False
        copied_from_next [of n "span t" "span s" "spans ss" copied m]
      by (simp add: first n_def [symmetric])
  qed simp
qed simp

lemma copy_from_one_spec:
  assumes "set (spans ts) \<inter> set (span s) = {}"
  shows "copy_from_one ts s copied m =
    (let k = min (length (spans ts)) (bsize s) in (copied + k, copied_from m k (spans ts) (span s)))"
  using assms
proof (induction ts s copied m rule: copy_from_one.induct)
  case (2 t ts s copied m)
  show ?case
  proof (cases "bsize s = 0")
    case False
    define n where "n = min (bsize t) (bsize s)"
    have first: "buffer_copy_1 t s m = (n, copied_from m n (span t) (span s))"
      by (simp add: buffer_copy_1_spec n_def)
    have "set (spans ts) \<inter> set (drop n (span s)) = {}"
      using disjoint_drop [OF "2.prems", of "bsize t" n] by simp
    then show ?thesis
      using "2.IH" [OF False first [symmetric] refl] "2.prems" False
        copied_into_next [of n "span t" "span s" "spans ts" copied m]
      by (simp add: first n_def [symmetric])
  qed simp
qed simp

abbreviation sequence_addrs :: "buffer_sequence \<Rightarrow> addr list" where
  "sequence_addrs s \<equiv> spans (sequence_list s)"

lemma buffer_copy_max_spec:
  assumes "set (sequence_addrs t) \<inter> set (sequence_addrs s) = {}"
  shows "buffer_copy_max t s mx m =
    (let k = min mx (min (length (sequence_addrs t)) (length (sequence_addrs s)))
     in (k, copied_from m k (sequence_addrs t) (sequence_addrs s)))"
proof -
  have one: "set (take n xs) \<inter> set ys = {}" "set xs \<inter> set (take n ys) = {}"
    if "set xs \<inter> set ys = {}" for n and xs ys :: "addr list"
    using that by (meson disjoint_iff in_set_takeD)+
  have take: "copied_from m k (take mx xs) ys = copied_from m k xs ys"
      "copied_from m k xs (take mx ys) = copied_from m k xs ys"
    if "k \<le> mx" for k and xs ys :: "addr list"
    using that by (simp_all add: copied_from_def min_def)
  show ?thesis
  proof (cases t; cases s)
    fix a b assume "t = One a" and "s = One b"
    then show ?thesis
      by (simp add: buffer_copy_one_one_max_def buffer_copy_1_spec Let_def take min.commute min.left_commute)
  next
    fix a bs assume "t = One a" and "s = Many bs"
    then show ?thesis
      using assms by (simp add: buffer_copy_one_many_def copy_into_one_spec one Let_def take
          min.commute min.left_commute)
  next
    fix as b assume "t = Many as" and "s = One b"
    then show ?thesis
      using assms by (simp add: buffer_copy_many_one_def copy_from_one_spec one Let_def take
          min.commute min.left_commute)
  next
    fix as bs assume "t = Many as" and "s = Many bs"
    then show ?thesis
      using assms by (simp add: buffer_copy_many_many_max_def copy_many_max_spec addrs_at_0)
  qed
qed

lemma buffer_copy_spec:
  assumes "set (sequence_addrs t) \<inter> set (sequence_addrs s) = {}"
    and "length (sequence_addrs t) \<le> size_max"
  shows "buffer_copy t s m = buffer_copy_max t s size_max m"
proof (cases t; cases s)
  fix a b assume "t = One a" and "s = One b"
  then show ?thesis
    using assms by (simp add: buffer_copy_one_one_def buffer_copy_one_one_max_def buffer_copy_1_spec
        min.assoc [symmetric] copied_from_def)
next
  fix as bs assume "t = Many as" and "s = Many bs"
  then show ?thesis
    using assms by (simp add: buffer_copy_many_many_def copy_many_spec buffer_copy_many_many_max_def
        copy_many_max_spec addrs_at_0 Let_def min.absorb2)
qed auto

section \<open>Properties\<close>

text \<open>
  A copy between two buffer sequences, whatever their shapes, copies as many bytes as
  the smaller of source, target and limit holds, in order across the borders of the buffers, and
  writes nowhere else; without a limit it does the same with the largest one. (Source and target
  must not overlap.)
\<close>

theorem buffer_copy_copies:
  assumes "set (sequence_addrs t) \<inter> set (sequence_addrs s) = {}" and "distinct (sequence_addrs t)"
    and "length (sequence_addrs t) \<le> size_max"
  shows "(case buffer_copy_max t s mx m of (k, m') \<Rightarrow>
      k = min mx (min (length (sequence_addrs t)) (length (sequence_addrs s)))
      \<and> map m' (take k (sequence_addrs t)) = map m (take k (sequence_addrs s))
      \<and> (\<forall>a. a \<notin> set (take k (sequence_addrs t)) \<longrightarrow> m' a = m a))
    \<and> buffer_copy t s m = buffer_copy_max t s size_max m"
proof -
  let ?k = "min mx (min (length (sequence_addrs t)) (length (sequence_addrs s)))"
  have "map (copied_from m ?k (sequence_addrs t) (sequence_addrs s)) (take ?k (sequence_addrs t)) =
      map m (take ?k (sequence_addrs s))"
    unfolding copied_from_def using assms(2) by (intro map_store_same) auto
  moreover have "copied_from m ?k (sequence_addrs t) (sequence_addrs s) a = m a"
    if "a \<notin> set (take ?k (sequence_addrs t))" for a
    unfolding copied_from_def using that by (rule store_other)
  ultimately show ?thesis
    using buffer_copy_max_spec [OF assms(1)] buffer_copy_spec [OF assms(1,3)] by (simp add: Let_def)
qed

theorem buffer_copy_copies_witness:
  "map (snd (buffer_copy_max (Many [make_buffer 0 2, make_buffer 4 3])
      (Many [make_buffer 10 1, make_buffer 20 5]) 4 of_nat)) [0, 1, 4, 5, 6] = [10, 20, 21, 22, 6]"
  using buffer_copy_copies [of "Many [make_buffer 0 2, make_buffer 4 3]"
      "Many [make_buffer 10 1, make_buffer 20 5]" 4 of_nat]
  by (simp add: size_max_def make_buffer_def span_def upt_rec split: prod.splits)

end
