(* ===== verification/Consuming.thy ===== *)
theory Consuming
  imports Buffers
begin

text \<open>
  \<^verbatim>\<open>asio/detail/consuming_buffers.hpp\<close>: what is left of a buffer sequence while a composed operation
  transfers it piece by piece. \<open>prepare\<close> gives the buffers for the next transfer, \<open>consume\<close> takes
  off what was transferred. The code has a general version, which keeps an iterator and an offset,
  and specialisations for one buffer, for two and for \<^verbatim>\<open>null_buffers\<close>, which keep the count only.

  The locale \<open>consuming\<close> is what the composed operations rely on; the general version and those for
  one and for two buffers are instances of it. (The one for \<^verbatim>\<open>null_buffers\<close> is not, on purpose: it is
  never empty and prepares no bytes.)
\<close>

section \<open>The general version\<close>

record consuming_buffers =
  cb_buffers :: "buffer list"
  cb_total_size :: nat
  cb_total_consumed :: nat
  cb_next_elem :: nat
  cb_next_elem_offset :: nat

definition new_consuming :: "buffer list \<Rightarrow> consuming_buffers" where
  "new_consuming bs = \<lparr>cb_buffers = bs, cb_total_size = buffer_size bs, cb_total_consumed = 0,
     cb_next_elem = 0, cb_next_elem_offset = 0\<rparr>"

definition cb_empty :: "consuming_buffers \<Rightarrow> bool" where
  "cb_empty c \<longleftrightarrow> cb_total_consumed c \<ge> cb_total_size c"

text \<open>
  \<^verbatim>\<open>prepared_buffers\<close>: its elements up to \<^verbatim>\<open>count\<close>; it holds at most 16, or the number of elements of
  an array if that is smaller.
\<close>

type_synonym prepared_buffers = "buffer list"

definition max_buffers :: "nat \<Rightarrow> nat" where
  "max_buffers MaxBuffers = (if MaxBuffers < 16 then MaxBuffers else 16)"

fun prepare_loop ::
    "nat \<Rightarrow> buffer list \<Rightarrow> nat \<Rightarrow> nat \<Rightarrow> prepared_buffers \<Rightarrow> prepared_buffers" where
  "prepare_loop mb [] elem_offset max_size result = result"
| "prepare_loop mb (b # bs) elem_offset max_size result =
     (if max_size > 0 \<and> length result < mb then
        let next_buf = const_plus b elem_offset;
            elem = const_limit next_buf max_size;
            result' = (if bsize elem > 0 then result @ [elem] else result)
        in prepare_loop mb bs 0 (max_size - bsize elem) result'
      else result)"

definition cb_prepare :: "nat \<Rightarrow> consuming_buffers \<Rightarrow> nat \<Rightarrow> prepared_buffers" where
  "cb_prepare MaxBuffers c max_size =
     prepare_loop (max_buffers MaxBuffers) (drop (cb_next_elem c) (cb_buffers c))
       (cb_next_elem_offset c) max_size []"

fun consume_loop :: "buffer list \<Rightarrow> nat \<Rightarrow> consuming_buffers \<Rightarrow> consuming_buffers" where
  "consume_loop [] n c = c"
| "consume_loop (b # bs) n c =
     (if n > 0 then
        let next_buf = const_plus b (cb_next_elem_offset c)
        in if n < bsize next_buf then c\<lparr>cb_next_elem_offset := cb_next_elem_offset c + n\<rparr>
           else consume_loop bs (n - bsize next_buf)
                  (c\<lparr>cb_next_elem_offset := 0, cb_next_elem := cb_next_elem c + 1\<rparr>)
      else c)"

definition cb_consume :: "consuming_buffers \<Rightarrow> nat \<Rightarrow> consuming_buffers" where
  "cb_consume c n =
     consume_loop (drop (cb_next_elem c) (cb_buffers c)) n
       (c\<lparr>cb_total_consumed := cb_total_consumed c + n\<rparr>)"

section \<open>One buffer, two buffers, null buffers\<close>

record consuming_single =
  cs_buffer :: buffer
  cs_total_consumed :: nat

definition new_consuming_single :: "buffer \<Rightarrow> consuming_single" where
  "new_consuming_single b = \<lparr>cs_buffer = b, cs_total_consumed = 0\<rparr>"

definition cs_empty :: "consuming_single \<Rightarrow> bool" where
  "cs_empty c \<longleftrightarrow> cs_total_consumed c \<ge> bsize (cs_buffer c)"

definition cs_prepare :: "consuming_single \<Rightarrow> nat \<Rightarrow> buffer" where
  "cs_prepare c max_size = const_limit (const_plus (cs_buffer c) (cs_total_consumed c)) max_size"

definition cs_consume :: "consuming_single \<Rightarrow> nat \<Rightarrow> consuming_single" where
  "cs_consume c n = c\<lparr>cs_total_consumed := cs_total_consumed c + n\<rparr>"

record consuming_two =
  c2_buffers :: "buffer \<times> buffer"
  c2_total_consumed :: nat

definition new_consuming_two :: "buffer \<times> buffer \<Rightarrow> consuming_two" where
  "new_consuming_two bs = \<lparr>c2_buffers = bs, c2_total_consumed = 0\<rparr>"

definition c2_empty :: "consuming_two \<Rightarrow> bool" where
  "c2_empty c \<longleftrightarrow> c2_total_consumed c \<ge> bsize (fst (c2_buffers c)) + bsize (snd (c2_buffers c))"

definition c2_prepare :: "consuming_two \<Rightarrow> nat \<Rightarrow> buffer \<times> buffer" where
  "c2_prepare c max_size =
     (let result0 = fst (c2_buffers c);
          result1 = snd (c2_buffers c);
          buffer0_size = bsize result0;
          result0' = const_limit (const_plus result0 (c2_total_consumed c)) max_size;
          result1' = const_limit
            (const_plus result1 (if c2_total_consumed c < buffer0_size then 0
                                 else c2_total_consumed c - buffer0_size))
            (max_size - bsize result0')
      in (result0', result1'))"

definition c2_consume :: "consuming_two \<Rightarrow> nat \<Rightarrow> consuming_two" where
  "c2_consume c n = c\<lparr>c2_total_consumed := c2_total_consumed c + n\<rparr>"

definition null_empty :: "unit \<Rightarrow> bool" where
  "null_empty _ \<longleftrightarrow> False"

definition null_prepare :: "unit \<Rightarrow> nat \<Rightarrow> buffer list" where
  "null_prepare _ max_size = []"

definition null_consume :: "unit \<Rightarrow> nat \<Rightarrow> unit" where
  "null_consume c n = c"

definition null_total_consumed :: "unit \<Rightarrow> nat" where
  "null_total_consumed _ = 0"

section \<open>The interface\<close>

text \<open>The operations a composed operation calls, as the template argument provides them.\<close>

record 'c consuming_ops =
  co_empty :: "'c \<Rightarrow> bool"
  co_prepare :: "'c \<Rightarrow> nat \<Rightarrow> buffer list"
  co_consume :: "'c \<Rightarrow> nat \<Rightarrow> 'c"
  co_total_consumed :: "'c \<Rightarrow> nat"

definition general_ops :: "nat \<Rightarrow> consuming_buffers consuming_ops" where
  "general_ops MaxBuffers = \<lparr>co_empty = cb_empty, co_prepare = cb_prepare MaxBuffers,
     co_consume = cb_consume, co_total_consumed = cb_total_consumed\<rparr>"

definition single_ops :: "consuming_single consuming_ops" where
  "single_ops = \<lparr>co_empty = cs_empty, co_prepare = (\<lambda>c n. [cs_prepare c n]),
     co_consume = cs_consume, co_total_consumed = cs_total_consumed\<rparr>"

definition array2_ops :: "consuming_two consuming_ops" where
  "array2_ops = \<lparr>co_empty = c2_empty, co_prepare = (\<lambda>c n. [fst (c2_prepare c n), snd (c2_prepare c n)]),
     co_consume = c2_consume, co_total_consumed = c2_total_consumed\<rparr>"

definition null_ops :: "unit consuming_ops" where
  "null_ops = \<lparr>co_empty = null_empty, co_prepare = null_prepare,
     co_consume = null_consume, co_total_consumed = null_total_consumed\<rparr>"

text \<open>
  The contract: \<open>left c\<close> are the addresses not transferred yet. What is prepared is a piece of their
  beginning, of at most the size asked for, and not empty unless it has to be.
\<close>

locale consuming =
  fixes ops :: "'c consuming_ops"
    and left :: "'c \<Rightarrow> addr list"
    and ok :: "'c \<Rightarrow> bool"
  assumes empty_left: "ok c \<Longrightarrow> co_empty ops c \<longleftrightarrow> left c = []"
    and prepare_left: "ok c \<Longrightarrow> \<exists>k \<le> n. spans (co_prepare ops c n) = take k (left c)"
    and prepare_some: "ok c \<Longrightarrow> left c \<noteq> [] \<Longrightarrow> 0 < n \<Longrightarrow> spans (co_prepare ops c n) \<noteq> []"
    and consume_left: "ok c \<Longrightarrow> n \<le> length (left c) \<Longrightarrow> left (co_consume ops c n) = drop n (left c)"
    and consume_ok: "ok c \<Longrightarrow> n \<le> length (left c) \<Longrightarrow> ok (co_consume ops c n)"
    and consume_total: "co_total_consumed ops (co_consume ops c n) = co_total_consumed ops c + n"
begin

lemma prepare_length: "ok c \<Longrightarrow> length (spans (co_prepare ops c n)) \<le> min n (length (left c))"
  using prepare_left [of c n] by auto

lemma prepare_take:
  "ok c \<Longrightarrow> spans (co_prepare ops c n) = take (length (spans (co_prepare ops c n))) (left c)"
  using prepare_left [of c n] take_length_take [of _ "left c"] by auto

lemma take_prepare:
  assumes "ok c" and "k \<le> length (spans (co_prepare ops c n))"
  shows "take k (spans (co_prepare ops c n)) = take k (left c)"
  using prepare_take [OF assms(1), of n] assms(2) by (metis min.absorb1 take_take)

end

section \<open>The instances\<close>

definition cb_left :: "consuming_buffers \<Rightarrow> addr list" where
  "cb_left c = addrs_at (drop (cb_next_elem c) (cb_buffers c)) (cb_next_elem_offset c)"

definition cb_ok :: "nat \<Rightarrow> consuming_buffers \<Rightarrow> bool" where
  "cb_ok MaxBuffers c \<longleftrightarrow> 0 < MaxBuffers
     \<and> cb_total_size c = cb_total_consumed c + length (cb_left c)"

lemma prepare_loop_prefix:
  "\<exists>k \<le> n. spans (prepare_loop mb bs off n res) = spans res @ take k (addrs_at bs off)"
proof (induction mb bs off n res rule: prepare_loop.induct)
  case (2 mb b bs off n res)
  show ?case
  proof (cases "n > 0 \<and> length res < mb")
    case False
    then show ?thesis by (intro exI [of _ 0]) auto
  next
    case True
    define elem where "elem = const_limit (const_plus b off) n"
    let ?res = "if bsize elem > 0 then res @ [elem] else res"
    obtain k where k: "k \<le> n - bsize elem"
        "spans (prepare_loop mb bs 0 (n - bsize elem) ?res) = spans ?res @ take k (addrs_at bs 0)"
      using "2.IH" [OF True refl refl refl] unfolding elem_def by blast
    have "spans ?res = spans res @ span elem"
      by (cases "bsize elem = 0") auto
    moreover have "span elem @ take k (spans bs) = take (bsize elem + k) (drop off (span b) @ spans bs)"
    proof (cases "bsize b - off \<le> n")
      case True
      then show ?thesis by (simp add: elem_def)
    next
      case False
      then have "k = 0" using k(1) by (simp add: elem_def)
      with False show ?thesis by (simp add: elem_def)
    qed
    moreover have "prepare_loop mb (b # bs) off n res = prepare_loop mb bs 0 (n - bsize elem) ?res"
      unfolding elem_def by (simp only: prepare_loop.simps if_P [OF True] Let_def)
    ultimately have "spans (prepare_loop mb (b # bs) off n res) =
        spans res @ take (bsize elem + k) (addrs_at (b # bs) off)"
      by (simp only: k(2) addrs_at_0 addrs_at.simps append_assoc)
    moreover have "bsize elem + k \<le> n"
      using k(1) by (simp add: elem_def)
    ultimately show ?thesis by blast
  qed
qed auto

lemma prepare_loop_grows: "\<exists>ys. prepare_loop mb bs off n res = res @ ys"
proof (induction bs arbitrary: off n res)
  case (Cons b bs)
  define elem where "elem = const_limit (const_plus b off) n"
  obtain ys where "prepare_loop mb bs 0 (n - bsize elem) (if bsize elem > 0 then res @ [elem] else res) =
      (if bsize elem > 0 then res @ [elem] else res) @ ys"
    using Cons by blast
  then show ?case
    by (simp only: prepare_loop.simps Let_def flip: elem_def) (simp split: if_splits)
qed simp

lemma prepare_loop_some:
  "0 < n \<Longrightarrow> length res < mb \<Longrightarrow> addrs_at bs off \<noteq> [] \<Longrightarrow>
   length (spans (prepare_loop mb bs off n res)) > length (spans res)"
proof (induction mb bs off n res rule: prepare_loop.induct)
  case (2 mb b bs off n res)
  define elem where "elem = const_limit (const_plus b off) n"
  show ?case
  proof (cases "bsize elem > 0")
    case True
    obtain ys where "prepare_loop mb bs 0 (n - bsize elem) (res @ [elem]) = (res @ [elem]) @ ys"
      using prepare_loop_grows by blast
    with True "2.prems" show ?thesis
      by (simp add: Let_def elem_def)
  next
    case False
    then have "bsize b \<le> off" using "2.prems" by (simp add: elem_def)
    with False "2.prems" "2.IH" show ?thesis
      by (simp add: Let_def elem_def addrs_at_0)
  qed
qed auto

lemma consume_loop_left:
  assumes "bs = drop (cb_next_elem c) (cb_buffers c)"
    and "n \<le> length (addrs_at bs (cb_next_elem_offset c))"
  shows "cb_left (consume_loop bs n c) = drop n (addrs_at bs (cb_next_elem_offset c))
    \<and> cb_total_consumed (consume_loop bs n c) = cb_total_consumed c
    \<and> cb_total_size (consume_loop bs n c) = cb_total_size c"
  using assms
proof (induction bs n c rule: consume_loop.induct)
  case (1 n c)
  then show ?case by (simp add: cb_left_def)
next
  case (2 b bs n c)
  have bs: "drop (Suc (cb_next_elem c)) (cb_buffers c) = bs"
    using "2.prems"(1) by (metis drop_Suc list.sel(3) tl_drop)
  have n: "n \<le> (bsize b - cb_next_elem_offset c) + length (spans bs)"
    using "2.prems"(2) by simp
  show ?case
  proof (cases "0 < n \<and> \<not> n < bsize b - cb_next_elem_offset c")
    case True
    with "2.IH" [OF _ refl] n bs show ?thesis
      by (auto simp: addrs_at_0)
  next
    case False
    with n "2.prems"(1) [symmetric] show ?thesis
      by (auto simp: cb_left_def add.commute)
  qed
qed

lemma consume_total_simps:
  "cb_total_consumed (consume_loop bs n c) = cb_total_consumed c"
  by (induction bs n c rule: consume_loop.induct) (auto simp: Let_def)

interpretation general: consuming "general_ops MaxBuffers" cb_left "cb_ok MaxBuffers"
proof
  fix c n assume ok: "cb_ok MaxBuffers c"
  then show "co_empty (general_ops MaxBuffers) c \<longleftrightarrow> cb_left c = []"
    by (simp add: general_ops_def cb_empty_def cb_ok_def)
  show "\<exists>k \<le> n. spans (co_prepare (general_ops MaxBuffers) c n) = take k (cb_left c)"
    using prepare_loop_prefix [of n "max_buffers MaxBuffers" _ _ "[]"]
    by (simp add: general_ops_def cb_prepare_def cb_left_def)
  show "spans (co_prepare (general_ops MaxBuffers) c n) \<noteq> []" if "cb_left c \<noteq> []" "0 < n"
    using prepare_loop_some [of n "[]" "max_buffers MaxBuffers"] that ok
    by (fastforce simp: general_ops_def cb_prepare_def cb_left_def cb_ok_def max_buffers_def)
  assume n: "n \<le> length (cb_left c)"
  let ?c = "c\<lparr>cb_total_consumed := cb_total_consumed c + n\<rparr>"
  from n consume_loop_left [of "drop (cb_next_elem c) (cb_buffers c)" ?c n]
  show left: "cb_left (co_consume (general_ops MaxBuffers) c n) = drop n (cb_left c)"
    by (simp add: general_ops_def cb_consume_def cb_left_def [of c])
  from n left ok consume_loop_left [of "drop (cb_next_elem c) (cb_buffers c)" ?c n]
  show "cb_ok MaxBuffers (co_consume (general_ops MaxBuffers) c n)"
    by (simp add: cb_ok_def general_ops_def cb_consume_def cb_left_def [of c])
next
  fix c n
  show "co_total_consumed (general_ops MaxBuffers) (co_consume (general_ops MaxBuffers) c n) =
      co_total_consumed (general_ops MaxBuffers) c + n"
    by (simp add: general_ops_def cb_consume_def consume_total_simps)
qed

definition cs_left :: "consuming_single \<Rightarrow> addr list" where
  "cs_left c = drop (cs_total_consumed c) (span (cs_buffer c))"

interpretation single: consuming single_ops cs_left "\<lambda>_. True"
proof
  show "\<exists>k \<le> n. spans (co_prepare single_ops c n) = take k (cs_left c)" for c n
    by (intro exI [of _ n]) (simp add: single_ops_def cs_prepare_def cs_left_def)
qed (auto simp: single_ops_def cs_empty_def cs_prepare_def cs_consume_def cs_left_def add.commute)

definition c2_left :: "consuming_two \<Rightarrow> addr list" where
  "c2_left c = drop (c2_total_consumed c) (span (fst (c2_buffers c)) @ span (snd (c2_buffers c)))"

lemma c2_prepare_spans:
  "spans [fst (c2_prepare c n), snd (c2_prepare c n)] = take n (c2_left c)"
  by (auto simp: c2_prepare_def Let_def c2_left_def min_def)

interpretation two: consuming array2_ops c2_left "\<lambda>_. True"
proof
  show "\<exists>k \<le> n. spans (co_prepare array2_ops c n) = take k (c2_left c)" for c n
    by (intro exI [of _ n]) (simp add: array2_ops_def c2_prepare_spans del: spans.simps)
  show "c2_left c \<noteq> [] \<Longrightarrow> 0 < n \<Longrightarrow> spans (co_prepare array2_ops c n) \<noteq> []" for c n
    by (simp add: array2_ops_def c2_prepare_spans del: spans.simps)
qed (auto simp: array2_ops_def c2_empty_def c2_consume_def c2_left_def add.commute drop_drop simp del: drop_append)

end
