(* ===== verification/ComposedOps.thy ===== *)
theory ComposedOps
  imports Consuming
begin

text \<open>
  \<^verbatim>\<open>asio/completion_condition.hpp\<close>, \<^verbatim>\<open>asio/impl/write.hpp\<close> and \<^verbatim>\<open>asio/impl/read.hpp\<close>: the composed
  operations \<^verbatim>\<open>write\<close>, \<^verbatim>\<open>read\<close>, \<^verbatim>\<open>async_write\<close> and \<^verbatim>\<open>async_read\<close> on a buffer sequence, with which the
  chat writes and reads every header and body. They call \<^verbatim>\<open>write_some\<close> or \<^verbatim>\<open>read_some\<close> of the stream,
  which may transfer less than it was given, until the completion condition says stop.

  The stream is a parameter: for the synchronous operations a function on its state, for the
  asynchronous ones the list of the results its operations complete with. The dispatch through
  executors, handlers and cancellation slots is not modelled, apart from whether a cancellation has
  been requested when a result arrives.
\<close>

section \<open>Completion conditions\<close>

datatype ecode = NoError | OperationAborted | EndOfFile | NotFound | OtherError nat

definition default_max_transfer_size :: nat where
  "default_max_transfer_size = 65536"

text \<open>The two overloads of \<^verbatim>\<open>adapt_completion_condition_result\<close>.\<close>

definition adapt_bool :: "bool \<Rightarrow> nat" where
  "adapt_bool result = (if result then 0 else default_max_transfer_size)"

definition adapt_size :: "nat \<Rightarrow> nat" where
  "adapt_size result = result"

type_synonym condition = "ecode \<Rightarrow> nat \<Rightarrow> nat"

definition transfer_all :: condition where
  "transfer_all err bytes_transferred = (if err \<noteq> NoError then 0 else default_max_transfer_size)"

definition transfer_at_least :: "nat \<Rightarrow> condition" where
  "transfer_at_least minimum err bytes_transferred =
     (if err \<noteq> NoError \<or> bytes_transferred \<ge> minimum then 0 else default_max_transfer_size)"

definition transfer_exactly :: "nat \<Rightarrow> condition" where
  "transfer_exactly n err bytes_transferred =
     (if err \<noteq> NoError \<or> bytes_transferred \<ge> n then 0
      else if n - bytes_transferred < default_max_transfer_size then n - bytes_transferred
      else default_max_transfer_size)"

definition check_for_completion :: "condition \<Rightarrow> ecode \<Rightarrow> nat \<Rightarrow> nat" where
  "check_for_completion completion_condition ec total_transferred =
     adapt_size (completion_condition ec total_transferred)"

definition check_for_completion_all :: "ecode \<Rightarrow> nat \<Rightarrow> nat" where
  "check_for_completion_all ec total_transferred = transfer_all ec total_transferred"

section \<open>The synchronous operations\<close>

text \<open>
  A stream that returns zero bytes without an error is asked again: the loop may not end.
\<close>

partial_function (option) write_loop ::
    "('s \<Rightarrow> buffer list \<Rightarrow> 's \<times> nat \<times> ecode) \<Rightarrow> 'c consuming_ops \<Rightarrow> condition \<Rightarrow> 'c \<Rightarrow> ecode \<Rightarrow> 's
     \<Rightarrow> ('s \<times> nat \<times> ecode) option" where
  "write_loop write_some ops completion_condition tmp ec s =
     (if \<not> co_empty ops tmp then
        let max_size = adapt_size (completion_condition ec (co_total_consumed ops tmp))
        in if max_size \<noteq> 0 then
             case write_some s (co_prepare ops tmp max_size) of (s', n, ec') \<Rightarrow>
               write_loop write_some ops completion_condition (co_consume ops tmp n) ec' s'
           else Some (s, co_total_consumed ops tmp, ec)
      else Some (s, co_total_consumed ops tmp, ec))"

definition write_buffer_sequence ::
    "('s \<Rightarrow> buffer list \<Rightarrow> 's \<times> nat \<times> ecode) \<Rightarrow> 'c consuming_ops \<Rightarrow> condition \<Rightarrow> 'c \<Rightarrow> 's
     \<Rightarrow> ('s \<times> nat \<times> ecode) option" where
  "write_buffer_sequence write_some ops completion_condition tmp s =
     write_loop write_some ops completion_condition tmp NoError s"

partial_function (option) read_loop ::
    "('s \<Rightarrow> buffer list \<Rightarrow> 's \<times> nat \<times> ecode) \<Rightarrow> 'c consuming_ops \<Rightarrow> condition \<Rightarrow> 'c \<Rightarrow> ecode \<Rightarrow> 's
     \<Rightarrow> ('s \<times> nat \<times> ecode) option" where
  "read_loop read_some ops completion_condition tmp ec s =
     (if \<not> co_empty ops tmp then
        let max_size = adapt_size (completion_condition ec (co_total_consumed ops tmp))
        in if max_size \<noteq> 0 then
             case read_some s (co_prepare ops tmp max_size) of (s', n, ec') \<Rightarrow>
               read_loop read_some ops completion_condition (co_consume ops tmp n) ec' s'
           else Some (s, co_total_consumed ops tmp, ec)
      else Some (s, co_total_consumed ops tmp, ec))"

definition read_buffer_sequence ::
    "('s \<Rightarrow> buffer list \<Rightarrow> 's \<times> nat \<times> ecode) \<Rightarrow> 'c consuming_ops \<Rightarrow> condition \<Rightarrow> 'c \<Rightarrow> 's
     \<Rightarrow> ('s \<times> nat \<times> ecode) option" where
  "read_buffer_sequence read_some ops completion_condition tmp s =
     read_loop read_some ops completion_condition tmp NoError s"

text \<open>
  The overloads: the condition left out is \<^verbatim>\<open>transfer_all\<close>; those without an \<^verbatim>\<open>error_code\<close> argument
  throw it.
\<close>

definition throw_error :: "ecode \<Rightarrow> 'a \<Rightarrow> fault + 'a" where
  "throw_error ec x = (if ec \<noteq> NoError then Inl SystemError else Inr x)"

definition write_cond_throws where
  "write_cond_throws write_some ops completion_condition tmp s =
     map_option (\<lambda>(s', bytes_transferred, ec). (s', throw_error ec bytes_transferred))
       (write_buffer_sequence write_some ops completion_condition tmp s)"

definition write_all where
  "write_all write_some ops tmp s = write_buffer_sequence write_some ops transfer_all tmp s"

definition write_all_throws where
  "write_all_throws write_some ops tmp s =
     map_option (\<lambda>(s', bytes_transferred, ec). (s', throw_error ec bytes_transferred))
       (write_buffer_sequence write_some ops transfer_all tmp s)"

definition read_cond_throws where
  "read_cond_throws read_some ops completion_condition tmp s =
     map_option (\<lambda>(s', bytes_transferred, ec). (s', throw_error ec bytes_transferred))
       (read_buffer_sequence read_some ops completion_condition tmp s)"

definition read_all where
  "read_all read_some ops tmp s = read_buffer_sequence read_some ops transfer_all tmp s"

definition read_all_throws where
  "read_all_throws read_some ops tmp s =
     map_option (\<lambda>(s', bytes_transferred, ec). (s', throw_error ec bytes_transferred))
       (read_buffer_sequence read_some ops transfer_all tmp s)"

section \<open>The asynchronous operations\<close>

text \<open>
  What a call of \<^verbatim>\<open>write_op::operator()\<close> or \<^verbatim>\<open>read_op::operator()\<close> ends in: it starts the next
  operation of the stream with itself as the handler, or it calls the handler.
\<close>

datatype op_action =
    TransferSome "buffer list"
  | CallHandler ecode nat

record 'c transfer_op =
  op_buffers :: 'c
  op_start :: int

definition new_write_op :: "'c \<Rightarrow> 'c transfer_op" where
  "new_write_op buffers = \<lparr>op_buffers = buffers, op_start = 0\<rparr>"

definition new_read_op :: "'c \<Rightarrow> 'c transfer_op" where
  "new_read_op buffers = \<lparr>op_buffers = buffers, op_start = 0\<rparr>"

text \<open>
  The body of the switch: case 1 enters the loop at its top, any other value after the return in
  its middle.
\<close>

definition write_op_call ::
    "'c consuming_ops \<Rightarrow> condition \<Rightarrow> bool \<Rightarrow> ecode \<Rightarrow> nat \<Rightarrow> int \<Rightarrow> 'c transfer_op
     \<Rightarrow> 'c transfer_op \<times> op_action" where
  "write_op_call ops cond cancelled ec bytes_transferred start op =
     (let op = op\<lparr>op_start := start\<rparr>
      in if start = 1 then
           (op, TransferSome (co_prepare ops (op_buffers op)
              (check_for_completion cond ec (co_total_consumed ops (op_buffers op)))))
         else
           let buffers = co_consume ops (op_buffers op) bytes_transferred;
               op = op\<lparr>op_buffers := buffers\<rparr>;
               max_size = check_for_completion cond ec (co_total_consumed ops buffers)
           in if ec = NoError \<and> bytes_transferred = 0 \<or> co_empty ops buffers then
                (op, CallHandler ec (co_total_consumed ops buffers))
              else if max_size = 0 then
                (op, CallHandler ec (co_total_consumed ops buffers))
              else if cancelled then
                (op, CallHandler OperationAborted (co_total_consumed ops buffers))
              else
                (op, TransferSome (co_prepare ops buffers max_size)))"

definition read_op_call ::
    "'c consuming_ops \<Rightarrow> condition \<Rightarrow> bool \<Rightarrow> ecode \<Rightarrow> nat \<Rightarrow> int \<Rightarrow> 'c transfer_op
     \<Rightarrow> 'c transfer_op \<times> op_action" where
  "read_op_call ops cond cancelled ec bytes_transferred start op =
     (let op = op\<lparr>op_start := start\<rparr>
      in if start = 1 then
           (op, TransferSome (co_prepare ops (op_buffers op)
              (check_for_completion cond ec (co_total_consumed ops (op_buffers op)))))
         else
           let buffers = co_consume ops (op_buffers op) bytes_transferred;
               op = op\<lparr>op_buffers := buffers\<rparr>;
               max_size = check_for_completion cond ec (co_total_consumed ops buffers)
           in if ec = NoError \<and> bytes_transferred = 0 \<or> co_empty ops buffers then
                (op, CallHandler ec (co_total_consumed ops buffers))
              else if max_size = 0 then
                (op, CallHandler ec (co_total_consumed ops buffers))
              else if cancelled then
                (op, CallHandler OperationAborted (co_total_consumed ops buffers))
              else
                (op, TransferSome (co_prepare ops buffers max_size)))"

text \<open>
  \<^verbatim>\<open>initiate_async_write\<close>, then one call per result \<open>(bytes, error, cancelled)\<close> of the stream. The
  outcome: the addresses transferred, in order, and what the handler was called with, if it was.
\<close>

type_synonym stream_result = "nat \<times> ecode \<times> bool"

fun transfer_run ::
    "(bool \<Rightarrow> ecode \<Rightarrow> nat \<Rightarrow> int \<Rightarrow> 'c transfer_op \<Rightarrow> 'c transfer_op \<times> op_action)
     \<Rightarrow> 'c transfer_op \<times> op_action \<Rightarrow> stream_result list \<Rightarrow> addr list \<times> (ecode \<times> nat) option" where
  "transfer_run call (op, CallHandler ec n) rs = ([], Some (ec, n))"
| "transfer_run call (op, TransferSome bufs) [] = ([], None)"
| "transfer_run call (op, TransferSome bufs) ((n, ec, cancelled) # rs) =
     (let (moved, result) = transfer_run call (call cancelled ec n 0 op) rs
      in (take n (spans bufs) @ moved, result))"

definition async_write ::
    "'c consuming_ops \<Rightarrow> condition \<Rightarrow> 'c \<Rightarrow> stream_result list \<Rightarrow> addr list \<times> (ecode \<times> nat) option" where
  "async_write ops cond buffers rs =
     transfer_run (write_op_call ops cond) (write_op_call ops cond False NoError 0 1 (new_write_op buffers)) rs"

definition async_read ::
    "'c consuming_ops \<Rightarrow> condition \<Rightarrow> 'c \<Rightarrow> stream_result list \<Rightarrow> addr list \<times> (ecode \<times> nat) option" where
  "async_read ops cond buffers rs =
     transfer_run (read_op_call ops cond) (read_op_call ops cond False NoError 0 1 (new_read_op buffers)) rs"

text \<open>The results a stream may give: at most as many bytes as it was asked for.\<close>

fun stream_results_ok ::
    "(bool \<Rightarrow> ecode \<Rightarrow> nat \<Rightarrow> int \<Rightarrow> 'c transfer_op \<Rightarrow> 'c transfer_op \<times> op_action)
     \<Rightarrow> 'c transfer_op \<times> op_action \<Rightarrow> stream_result list \<Rightarrow> bool" where
  "stream_results_ok call (op, TransferSome bufs) ((n, ec, cancelled) # rs) \<longleftrightarrow>
     n \<le> length (spans bufs) \<and> stream_results_ok call (call cancelled ec n 0 op) rs"
| "stream_results_ok call x rs \<longleftrightarrow> True"

lemma read_op_call_write: "read_op_call = write_op_call"
  by (intro ext) (simp add: read_op_call_def write_op_call_def)

lemma async_read_write: "async_read = async_write"
  by (intro ext) (simp add: async_read_def async_write_def read_op_call_write new_read_op_def
      new_write_op_def)

section \<open>What a composed operation does\<close>

context consuming
begin

text \<open>One result of the stream, while the operation is under way.\<close>

lemma call_cases:
  assumes "ok (op_buffers op)" and "n \<le> length (left (op_buffers op))"
  obtains (handler) op' where
      "write_op_call ops cond cancelled ec n 0 op =
        (op', CallHandler ec (co_total_consumed ops (op_buffers op) + n))"
      "ec = NoError \<and> n = 0 \<or> length (left (op_buffers op)) = n
        \<or> cond ec (co_total_consumed ops (op_buffers op) + n) = 0"
  | (aborted) op' where
      "write_op_call ops cond cancelled ec n 0 op =
        (op', CallHandler OperationAborted (co_total_consumed ops (op_buffers op) + n))"
      "cancelled"
  | (again) op' mx where
      "write_op_call ops cond cancelled ec n 0 op = (op', TransferSome (co_prepare ops (op_buffers op') mx))"
      "0 < mx" "op_buffers op' = co_consume ops (op_buffers op) n" "n < length (left (op_buffers op))"
proof -
  have e: "co_empty ops (co_consume ops (op_buffers op) n) \<longleftrightarrow> length (left (op_buffers op)) = n"
    using empty_left [OF consume_ok [OF assms]] consume_left [OF assms] assms(2) by auto
  define op' where "op' = op\<lparr>op_start := 0, op_buffers := co_consume ops (op_buffers op) n\<rparr>"
  let ?total = "co_total_consumed ops (op_buffers op) + n"
  let ?stop = "ec = NoError \<and> n = 0 \<or> length (left (op_buffers op)) = n \<or> cond ec ?total = 0"
  have call: "write_op_call ops cond cancelled ec n 0 op =
      (op', if ?stop then CallHandler ec ?total
            else if cancelled then CallHandler OperationAborted ?total
            else TransferSome (co_prepare ops (op_buffers op') (cond ec ?total)))"
    by (simp add: write_op_call_def op'_def Let_def check_for_completion_def adapt_size_def
        consume_total e)
  consider ?stop | "\<not> ?stop" cancelled | "\<not> ?stop" "\<not> cancelled"
    by (cases ?stop; cases cancelled) simp_all
  then show ?thesis
  proof cases
    case 1
    then show ?thesis using call by (intro handler [of op']) auto
  next
    case 2
    then show ?thesis using call by (intro aborted [of op']) auto
  next
    case 3
    then show ?thesis using call assms(2)
      by (intro again [of op' "cond ec ?total"]) (auto simp: op'_def)
  qed
qed

text \<open>The step of the inductions below: what the first result moves, and how it goes on.\<close>

lemma run_step:
  assumes "ok (op_buffers op)"
    and "stream_results_ok (write_op_call ops cond)
      (op, TransferSome (co_prepare ops (op_buffers op) mx)) ((n, ec, cancelled) # rs)"
    and "transfer_run (write_op_call ops cond)
      (op, TransferSome (co_prepare ops (op_buffers op) mx)) ((n, ec, cancelled) # rs) = (moved, result)"
  obtains (handler) "moved = take n (left (op_buffers op))" "n \<le> length (left (op_buffers op))"
      "result = Some (ec, co_total_consumed ops (op_buffers op) + n)"
      "ec = NoError \<and> n = 0 \<or> length (left (op_buffers op)) = n
        \<or> cond ec (co_total_consumed ops (op_buffers op) + n) = 0"
  | (aborted) "moved = take n (left (op_buffers op))" "n \<le> length (left (op_buffers op))"
      "result = Some (OperationAborted, co_total_consumed ops (op_buffers op) + n)" "cancelled"
  | (again) op' mx' moved' where "moved = take n (left (op_buffers op)) @ moved'"
      "n < length (left (op_buffers op))" "0 < mx'" "ok (op_buffers op')"
      "left (op_buffers op') = drop n (left (op_buffers op))"
      "co_total_consumed ops (op_buffers op') = co_total_consumed ops (op_buffers op) + n"
      "stream_results_ok (write_op_call ops cond) (op', TransferSome (co_prepare ops (op_buffers op') mx')) rs"
      "transfer_run (write_op_call ops cond) (op', TransferSome (co_prepare ops (op_buffers op') mx')) rs =
        (moved', result)"
proof -
  let ?b = "op_buffers op"
  have n: "n \<le> length (spans (co_prepare ops ?b mx))"
    using assms(2) by simp
  then have le: "n \<le> length (left ?b)"
    using prepare_length [OF assms(1), of mx] by simp
  have first: "take n (spans (co_prepare ops ?b mx)) = take n (left ?b)"
    by (rule take_prepare [OF assms(1) n])
  from assms(1) le show ?thesis
  proof (cases rule: call_cases [where cond = cond and cancelled = cancelled and ec = ec])
    case (handler op')
    with assms(3) first have "moved = take n (left ?b)"
        "result = Some (ec, co_total_consumed ops ?b + n)" by auto
    with handler le show ?thesis by (intro that(1)) auto
  next
    case (aborted op')
    with assms(3) first have "moved = take n (left ?b)"
        "result = Some (OperationAborted, co_total_consumed ops ?b + n)" by auto
    with aborted le show ?thesis by (intro that(2)) auto
  next
    case (again op' mx')
    obtain moved' where m: "transfer_run (write_op_call ops cond)
        (op', TransferSome (co_prepare ops (op_buffers op') mx')) rs = (moved', result)"
      and moved: "moved = take n (left ?b) @ moved'"
      using assms(3) again(1) first by (auto split: prod.splits)
    show ?thesis
      using that(3) [OF moved again(4,2) _ _ _ _ m] again(3) consume_ok [OF assms(1) le]
        consume_left [OF assms(1) le] assms(2) again(1) by (simp add: consume_total)
  qed
qed

lemma run_prefix:
  assumes "ok (op_buffers op)"
    and "stream_results_ok (write_op_call ops cond) (op, TransferSome (co_prepare ops (op_buffers op) mx)) rs"
    and "transfer_run (write_op_call ops cond) (op, TransferSome (co_prepare ops (op_buffers op) mx)) rs =
      (moved, result)"
  shows "\<exists>k \<le> length (left (op_buffers op)). moved = take k (left (op_buffers op))
    \<and> (\<forall>ec n. result = Some (ec, n) \<longrightarrow> n = co_total_consumed ops (op_buffers op) + k)"
  using assms
proof (induction rs arbitrary: op mx moved)
  case (Cons r rs)
  obtain n ec cancelled where r: "r = (n, ec, cancelled)" by (cases r)
  from Cons.prems [unfolded r] show ?case
  proof (cases rule: run_step)
    case (again op' mx' moved')
    from Cons.IH [OF again(4,7,8)] obtain k where
      k: "k \<le> length (left (op_buffers op'))" "moved' = take k (left (op_buffers op'))"
        "\<forall>ec n. result = Some (ec, n) \<longrightarrow> n = co_total_consumed ops (op_buffers op') + k"
      by blast
    with again show ?thesis
      by (intro exI [of _ "n + k"]) (auto simp: take_add)
  qed blast+
qed auto

lemma run_success:
  assumes "ok (op_buffers op)"
    and "stream_results_ok (write_op_call ops transfer_all)
      (op, TransferSome (co_prepare ops (op_buffers op) mx)) rs"
    and "transfer_run (write_op_call ops transfer_all)
      (op, TransferSome (co_prepare ops (op_buffers op) mx)) rs = (moved, Some (NoError, k))"
    and "\<forall>r \<in> set rs. fst r = 0 \<longrightarrow> fst (snd r) \<noteq> NoError"
  shows "moved = left (op_buffers op)"
  using assms
proof (induction rs arbitrary: op mx moved)
  case (Cons r rs)
  obtain n ec cancelled where r: "r = (n, ec, cancelled)" by (cases r)
  from Cons.prems(1-3) [unfolded r] show ?case
  proof (cases rule: run_step)
    case handler
    with Cons.prems(4) r show ?thesis
      by (auto simp: transfer_all_def default_max_transfer_size_def)
  next
    case (again op' mx' moved')
    with Cons.IH [OF again(4,7,8)] Cons.prems(4) show ?thesis by simp
  qed simp
qed simp

lemma run_all:
  assumes "ok (op_buffers op)"
    and "stream_results_ok (write_op_call ops transfer_all)
      (op, TransferSome (co_prepare ops (op_buffers op) mx)) rs"
    and "transfer_run (write_op_call ops transfer_all)
      (op, TransferSome (co_prepare ops (op_buffers op) mx)) rs = (moved, result)"
    and "\<forall>r \<in> set rs. 0 < fst r \<and> snd r = (NoError, False)"
    and "length (left (op_buffers op)) \<le> length rs" and "left (op_buffers op) \<noteq> []"
  shows "moved = left (op_buffers op) \<and>
     result = Some (NoError, co_total_consumed ops (op_buffers op) + length (left (op_buffers op)))"
  using assms
proof (induction rs arbitrary: op mx moved)
  case (Cons r rs)
  obtain n where r: "r = (n, NoError, False)" and "0 < n"
    using Cons.prems(4) by (cases r) auto
  from Cons.prems(1-3) [unfolded r] show ?case
  proof (cases rule: run_step)
    case handler
    with \<open>0 < n\<close> show ?thesis
      by (auto simp: transfer_all_def default_max_transfer_size_def)
  next
    case (again op' mx' moved')
    with Cons.IH [OF again(4,7,8)] Cons.prems(4,5) \<open>0 < n\<close> show ?thesis by simp
  qed simp
qed simp

lemma async_write_start:
  "async_write ops cond b rs = transfer_run (write_op_call ops cond)
     (\<lparr>op_buffers = b, op_start = 1\<rparr>, TransferSome (co_prepare ops b (cond NoError (co_total_consumed ops b)))) rs"
  by (simp add: async_write_def write_op_call_def new_write_op_def check_for_completion_def adapt_size_def)

end

text \<open>
  The contract of the asynchronous operations, on buffers with the addresses \<open>as\<close>: whatever the
  stream does within the sizes it is given, the bytes transferred are the first of the buffers, in
  order, each once, and the handler learns how many; with \<^verbatim>\<open>transfer_all\<close>, success means that all are,
  unless the stream has transferred zero bytes without an error, and a stream that makes progress
  without error or cancellation transfers all.
\<close>

definition transfers_in_order :: "'c consuming_ops \<Rightarrow> 'c \<Rightarrow> addr list \<Rightarrow> bool" where
  "transfers_in_order ops b as \<longleftrightarrow>
     (\<forall>cond rs moved result.
        stream_results_ok (write_op_call ops cond) (write_op_call ops cond False NoError 0 1 (new_write_op b)) rs
        \<and> async_write ops cond b rs = (moved, result) \<longrightarrow>
          (\<exists>k \<le> length as. moved = take k as \<and> (\<forall>ec n. result = Some (ec, n) \<longrightarrow> n = k))
          \<and> (cond = transfer_all \<and> (\<forall>r \<in> set rs. fst r = 0 \<longrightarrow> fst (snd r) \<noteq> NoError) \<longrightarrow>
               (\<forall>n. result = Some (NoError, n) \<longrightarrow> moved = as))
          \<and> (cond = transfer_all \<and> (\<forall>r \<in> set rs. 0 < fst r \<and> snd r = (NoError, False))
               \<and> as \<noteq> [] \<and> length as \<le> length rs \<longrightarrow>
               moved = as \<and> result = Some (NoError, length as)))"

context consuming
begin

lemma async_write_transfers:
  assumes b: "ok b" and z: "co_total_consumed ops b = 0"
  shows "transfers_in_order ops b (left b)"
  unfolding transfers_in_order_def
proof (intro allI impI; elim conjE)
  fix cond :: condition and rs moved result
  define op where "op = \<lparr>op_buffers = b, op_start = 1 :: int\<rparr>"
  have op: "op_buffers op = b" by (simp add: op_def)
  let ?mx = "cond NoError (co_total_consumed ops b)"
  assume "stream_results_ok (write_op_call ops cond)
      (write_op_call ops cond False NoError 0 1 (new_write_op b)) rs"
    and "async_write ops cond b rs = (moved, result)"
  then have ok: "stream_results_ok (write_op_call ops cond)
      (op, TransferSome (co_prepare ops (op_buffers op) ?mx)) rs"
    and run: "transfer_run (write_op_call ops cond)
      (op, TransferSome (co_prepare ops (op_buffers op) ?mx)) rs = (moved, result)"
    by (simp_all add: op_def async_write_start write_op_call_def new_write_op_def
        check_for_completion_def adapt_size_def)
  note start = b [folded op] ok run
  have "\<exists>k \<le> length (left b). moved = take k (left b) \<and> (\<forall>ec n. result = Some (ec, n) \<longrightarrow> n = k)"
    using run_prefix [OF start] op z by simp
  moreover have "moved = left b"
    if "cond = transfer_all" "\<forall>r \<in> set rs. fst r = 0 \<longrightarrow> fst (snd r) \<noteq> NoError" "result = Some (NoError, n)" for n
    using run_success [of op ?mx rs moved n] start that op by simp
  moreover have "moved = left b \<and> result = Some (NoError, length (left b))"
    if "cond = transfer_all" "\<forall>r \<in> set rs. 0 < fst r \<and> snd r = (NoError, False)" "left b \<noteq> []"
      "length (left b) \<le> length rs"
    using run_all [of op ?mx rs moved result] start that op z by simp
  ultimately show "(\<exists>k \<le> length (left b). moved = take k (left b) \<and> (\<forall>ec n. result = Some (ec, n) \<longrightarrow> n = k))
      \<and> (cond = transfer_all \<and> (\<forall>r \<in> set rs. fst r = 0 \<longrightarrow> fst (snd r) \<noteq> NoError) \<longrightarrow>
           (\<forall>n. result = Some (NoError, n) \<longrightarrow> moved = left b))
      \<and> (cond = transfer_all \<and> (\<forall>r \<in> set rs. 0 < fst r \<and> snd r = (NoError, False))
           \<and> left b \<noteq> [] \<and> length (left b) \<le> length rs \<longrightarrow>
           moved = left b \<and> result = Some (NoError, length (left b)))"
    by blast
qed

text \<open>The synchronous loops, with \<^verbatim>\<open>transfer_all\<close>.\<close>

lemma write_loop_returns:
  assumes stream: "\<And>s bufs s' n ec. write_some s bufs = (s', n, ec) \<Longrightarrow>
      n \<le> length (spans bufs) \<and> out s' = out s @ take n (spans bufs)
      \<and> (ec = NoError \<and> spans bufs \<noteq> [] \<longrightarrow> 0 < n)"
    and "ok c"
  shows "\<exists>s' k ec'. write_loop write_some ops transfer_all c ec s = Some (s', co_total_consumed ops c + k, ec')
    \<and> k \<le> length (left c) \<and> out s' = out s @ take k (left c) \<and> (ec' = NoError \<longrightarrow> k = length (left c))"
  using assms(2)
proof (induction "length (left c)" arbitrary: c ec s rule: less_induct)
  case less
  show ?case
  proof (cases "left c = [] \<or> ec \<noteq> NoError")
    case True
    then show ?thesis
      by (subst write_loop.simps)
        (intro exI [of _ s] exI [of _ 0] exI [of _ ec],
          auto simp: empty_left [OF less.prems] transfer_all_def adapt_size_def)
  next
    case False
    let ?bufs = "co_prepare ops c default_max_transfer_size"
    obtain s' n ec' where w: "write_some s ?bufs = (s', n, ec')" by (cases "write_some s ?bufs")
    have n: "n \<le> length (spans ?bufs)" and out: "out s' = out s @ take n (spans ?bufs)"
      and progress: "ec' = NoError \<longrightarrow> 0 < n"
      using stream [OF w] prepare_some [OF less.prems, of default_max_transfer_size] False
      by (auto simp: default_max_transfer_size_def)
    then have le: "n \<le> length (left c)"
      using prepare_length [OF less.prems, of default_max_transfer_size] by simp
    have "write_loop write_some ops transfer_all c ec s =
        write_loop write_some ops transfer_all (co_consume ops c n) ec' s'"
      using False w by (subst write_loop.simps)
        (simp add: empty_left [OF less.prems] transfer_all_def adapt_size_def default_max_transfer_size_def)
    moreover have "\<exists>s'' k ec''. write_loop write_some ops transfer_all (co_consume ops c n) ec' s' =
        Some (s'', co_total_consumed ops (co_consume ops c n) + k, ec'')
        \<and> k \<le> length (left c) - n \<and> out s'' = out s' @ take k (drop n (left c))
        \<and> (ec'' = NoError \<longrightarrow> k = length (left c) - n)"
    proof (cases "n = 0")
      case True
      with progress have "ec' \<noteq> NoError" by simp
      with True consume_left [OF less.prems le] show ?thesis
        by (subst write_loop.simps)
          (intro exI [of _ s'] exI [of _ 0] exI [of _ ec'],
            auto simp: empty_left [OF consume_ok [OF less.prems le]] transfer_all_def adapt_size_def False)
    next
      case False
      with less.hyps [of "co_consume ops c n" ec' s'] consume_ok [OF less.prems le]
        consume_left [OF less.prems le] le show ?thesis
        by (cases "left c") auto
    qed
    ultimately obtain s'' k ec'' where
      "write_loop write_some ops transfer_all c ec s = Some (s'', co_total_consumed ops c + n + k, ec'')"
      "k \<le> length (left c) - n" "out s'' = out s' @ take k (drop n (left c))"
      "ec'' = NoError \<longrightarrow> k = length (left c) - n"
      by (auto simp: consume_total)
    with le out take_prepare [OF less.prems n] show ?thesis
      by (intro exI [of _ s''] exI [of _ "n + k"] exI [of _ ec'']) (auto simp: take_add add.assoc)
  qed
qed

lemma write_loop_stuck:
  assumes "\<And>s bufs. write_some s bufs = (s, 0, NoError)" and "ok c" and "left c \<noteq> []"
  shows "write_loop write_some ops transfer_all c NoError s = None"
proof (rule ccontr)
  assume "write_loop write_some ops transfer_all c NoError s \<noteq> None"
  then obtain r where r: "write_loop write_some ops transfer_all c NoError s = Some r" by auto
  let ?P = "\<lambda>ws os cond c ec s r. ws = write_some \<and> os = ops \<and> cond = transfer_all \<and> ec = NoError
    \<and> ok c \<longrightarrow> left c = []"
  have "?P write_some ops transfer_all c NoError s r"
  proof (rule write_loop.raw_induct [where P = ?P, OF _ r], intro impI, elim conjE)
    fix loop ws os cond c ec s r
    assume IH: "\<And>ws os cond c ec s r. loop ws os cond c ec s = Some r \<Longrightarrow> ?P ws os cond c ec s r"
      and eq: "(if \<not> co_empty os c then
          let max_size = adapt_size (cond ec (co_total_consumed os c))
          in if max_size \<noteq> 0 then
               case ws s (co_prepare os c max_size) of (s', n, ec') \<Rightarrow>
                 loop ws os cond (co_consume os c n) ec' s'
             else Some (s, co_total_consumed os c, ec)
        else Some (s, co_total_consumed os c, ec)) = Some r"
      and args: "ws = write_some" "os = ops" "cond = transfer_all" "ec = NoError" "ok c"
    show "left c = []"
    proof (rule ccontr)
      assume "left c \<noteq> []"
      with eq args have "loop write_some ops transfer_all (co_consume ops c 0) NoError s = Some r"
        by (simp add: empty_left assms(1) transfer_all_def adapt_size_def default_max_transfer_size_def)
      with IH [OF this] consume_ok [of c 0] consume_left [of c 0] args \<open>left c \<noteq> []\<close>
      show False by simp
    qed
  qed
  with assms(2,3) show False by blast
qed

end

section \<open>Properties\<close>

lemma single_start [simp]: "cs_left (new_consuming_single b) = span b"
  "co_total_consumed single_ops (new_consuming_single b) = 0"
  by (simp_all add: cs_left_def new_consuming_single_def single_ops_def)

lemma two_start [simp]: "c2_left (new_consuming_two (b0, b1)) = span b0 @ span b1"
  "co_total_consumed array2_ops (new_consuming_two bs) = 0"
  by (simp_all add: c2_left_def new_consuming_two_def array2_ops_def)

lemma general_start [simp]: "cb_left (new_consuming bs) = spans bs"
  "co_total_consumed (general_ops MaxBuffers) (new_consuming bs) = 0"
  "cb_ok MaxBuffers (new_consuming bs) \<longleftrightarrow> 0 < MaxBuffers"
  by (simp_all add: cb_ok_def cb_left_def new_consuming_def general_ops_def addrs_at_0 buffer_size_spans)

lemma read_loop_write_loop: "read_loop = write_loop"
proof (intro ext)
  fix ws :: "'s \<Rightarrow> buffer list \<Rightarrow> 's \<times> nat \<times> ecode" and os :: "'c consuming_ops" and cond c ec s
  have "read_loop ws os cond c ec s = Some r" if "write_loop ws os cond c ec s = Some r" for r
    by (rule write_loop.raw_induct
        [where P = "\<lambda>ws os cond c ec s r. read_loop ws os cond c ec s = Some r", OF _ that])
      (subst read_loop.simps, auto simp: Let_def split: if_splits prod.splits)
  moreover have "write_loop ws os cond c ec s = Some r" if "read_loop ws os cond c ec s = Some r" for r
    by (rule read_loop.raw_induct
        [where P = "\<lambda>ws os cond c ec s r. write_loop ws os cond c ec s = Some r", OF _ that])
      (subst write_loop.simps, auto simp: Let_def split: if_splits prod.splits)
  ultimately show "read_loop ws os cond c ec s = write_loop ws os cond c ec s"
    by (cases "write_loop ws os cond c ec s"; cases "read_loop ws os cond c ec s") auto
qed

text \<open>
  Property C33. \<^verbatim>\<open>async_write\<close> and \<^verbatim>\<open>async_read\<close>, on one buffer, on two and on any sequence of buffers,
  transfer the bytes of the buffers in order, each once, whatever pieces the stream takes; the
  handler learns the number; success with \<^verbatim>\<open>transfer_all\<close> means all bytes, and all bytes are
  transferred when the stream makes progress without an error.
\<close>

theorem async_transfers_in_order:
  "transfers_in_order single_ops (new_consuming_single b) (span b)
   \<and> transfers_in_order array2_ops (new_consuming_two (b0, b1)) (span b0 @ span b1)
   \<and> (0 < MaxBuffers \<longrightarrow> transfers_in_order (general_ops MaxBuffers) (new_consuming bs) (spans bs))
   \<and> async_read ops cond c rs = async_write ops cond c rs"
  using single.async_write_transfers [of "new_consuming_single b"]
    two.async_write_transfers [of "new_consuming_two (b0, b1)"]
    general.async_write_transfers [of MaxBuffers "new_consuming bs"]
  by (simp add: async_read_write)

text \<open>
  Property C34. \<^verbatim>\<open>write\<close> and \<^verbatim>\<open>read\<close> with \<^verbatim>\<open>transfer_all\<close> return, on every stream that transfers at least
  one byte or reports an error, after transferring the first bytes of the buffers in order, and all
  of them unless they report an error.
\<close>

theorem sync_transfer_returns:
  assumes "\<And>s bufs s' n ec. some s bufs = (s', n, ec) \<Longrightarrow>
      n \<le> length (spans bufs) \<and> out s' = out s @ take n (spans bufs)
      \<and> (ec = NoError \<and> spans bufs \<noteq> [] \<longrightarrow> 0 < n)"
    and "0 < MaxBuffers"
  shows "\<exists>s' k ec. write_all some (general_ops MaxBuffers) (new_consuming bs) s = Some (s', k, ec)
      \<and> read_all some (general_ops MaxBuffers) (new_consuming bs) s = Some (s', k, ec)
      \<and> k \<le> length (spans bs) \<and> out s' = out s @ take k (spans bs)
      \<and> (ec = NoError \<longrightarrow> k = length (spans bs))"
  using general.write_loop_returns [where write_some = some and out = out and MaxBuffers = MaxBuffers
      and c = "new_consuming bs" and ec = NoError and s = s] assms
  by (auto simp: write_all_def read_all_def write_buffer_sequence_def read_buffer_sequence_def
      read_loop_write_loop)

text \<open>
  A stream that transfers nothing and reports no error keeps the synchronous
  operations in their loop for ever, while the asynchronous ones call the handler with success and
  zero bytes.
\<close>

theorem zero_transfer_hangs_sync:
  assumes "\<And>s bufs. some s bufs = (s, 0, NoError)" and "bsize b \<noteq> 0"
  shows "write_all some single_ops (new_consuming_single b) s = None
    \<and> read_all some single_ops (new_consuming_single b) s = None
    \<and> async_write single_ops transfer_all (new_consuming_single b) [(0, NoError, False)] = ([], Some (NoError, 0))"
proof -
  have "write_loop some single_ops transfer_all (new_consuming_single b) NoError s = None"
    using assms by (intro single.write_loop_stuck) simp_all
  then show ?thesis
    by (simp add: write_all_def read_all_def write_buffer_sequence_def read_buffer_sequence_def
        read_loop_write_loop)
      (simp add: async_write_def write_op_call_def Let_def check_for_completion_def adapt_size_def
        single_ops_def cs_consume_def new_consuming_single_def new_write_op_def)
qed

section \<open>Witnesses\<close>

text \<open>A stream that takes one byte at a time and one that takes none.\<close>

definition one_byte_stream :: "addr list \<Rightarrow> buffer list \<Rightarrow> addr list \<times> nat \<times> ecode" where
  "one_byte_stream s bufs = (s @ take 1 (spans bufs), min 1 (length (spans bufs)), NoError)"

definition deaf_stream :: "addr list \<Rightarrow> buffer list \<Rightarrow> addr list \<times> nat \<times> ecode" where
  "deaf_stream s bufs = (s, 0, NoError)"

theorem async_transfers_in_order_witness:
  "transfers_in_order (general_ops 64) (new_consuming [make_buffer 10 2, make_buffer 20 1]) [10, 11, 20]"
proof -
  have "transfers_in_order (general_ops 64) (new_consuming [make_buffer 10 2, make_buffer 20 1])
      (spans [make_buffer 10 2, make_buffer 20 1])"
    by (rule async_transfers_in_order [THEN conjunct2, THEN conjunct2, THEN conjunct1, THEN mp]) simp
  then show ?thesis by (simp add: make_buffer_def span_def upt_rec)
qed

theorem sync_transfer_returns_witness:
  "\<exists>s' k ec. write_all one_byte_stream (general_ops 64) (new_consuming [make_buffer 10 2]) [] =
      Some (s', k, ec) \<and> s' = take k [10, 11] \<and> (ec = NoError \<longrightarrow> k = 2)"
proof -
  have "\<exists>s' k ec. write_all one_byte_stream (general_ops 64) (new_consuming [make_buffer 10 2]) [] = Some (s', k, ec)
      \<and> read_all one_byte_stream (general_ops 64) (new_consuming [make_buffer 10 2]) [] = Some (s', k, ec)
      \<and> k \<le> length (spans [make_buffer 10 2]) \<and> s' = [] @ take k (spans [make_buffer 10 2])
      \<and> (ec = NoError \<longrightarrow> k = length (spans [make_buffer 10 2]))"
    by (rule sync_transfer_returns) (auto simp: one_byte_stream_def min_def Suc_le_eq)
  then show ?thesis by (auto simp: make_buffer_def span_def upt_rec)
qed

theorem zero_transfer_hangs_sync_witness:
  "write_all deaf_stream single_ops (new_consuming_single (make_buffer 10 2)) [] = None"
  using zero_transfer_hangs_sync [of deaf_stream "make_buffer 10 2" "[]"]
  by (simp add: deaf_stream_def make_buffer_def)

end
