(* ===== verification/DynBuffers.thy ===== *)
theory DynBuffers
  imports Buffers
begin

text \<open>
  The dynamic buffers of \<^verbatim>\<open>asio/buffer.hpp\<close>: a string or a vector of bytes that a read makes grow.
  Each class has two interfaces in one: the first version (\<^verbatim>\<open>prepare\<close>, \<^verbatim>\<open>commit\<close>) keeps the number of
  readable bytes in \<^verbatim>\<open>size_\<close>, the second (\<^verbatim>\<open>grow\<close>, \<^verbatim>\<open>shrink\<close>) takes it from the container; the largest
  \<^verbatim>\<open>std::size_t\<close> in \<^verbatim>\<open>size_\<close> says that the first version is not in use.

  The elements are bytes. The buffers returned point into the container's storage, whose addresses
  count from its first element. The new capacity after a growth is the standard library's choice, at
  least the size needed: the parameter \<open>policy\<close>, of the old capacity and that size.
\<close>

record container =
  elems :: bytes
  elems_capacity :: nat

text \<open>
  \<^verbatim>\<open>resize\<close> fills with zero bytes. Of the sizes the container cannot have, the one the code can ask
  for is the largest number; it throws.
\<close>

definition resize :: "(nat \<Rightarrow> nat \<Rightarrow> nat) \<Rightarrow> nat \<Rightarrow> container \<Rightarrow> fault + container" where
  "resize policy n c =
     (if n \<ge> size_max then Inl LengthError
      else Inr (c\<lparr>elems := take n (elems c) @ replicate (n - length (elems c)) 0,
             elems_capacity := (if n \<le> elems_capacity c then elems_capacity c
                                else max n (policy (elems_capacity c) n))\<rparr>))"

section \<open>The string\<close>

record dynamic_string_buffer =
  ds_string :: container
  ds_size_field :: nat
  ds_max_size :: nat

definition dynamic_string :: "container \<Rightarrow> nat \<Rightarrow> dynamic_string_buffer" where
  "dynamic_string s maximum_size =
     \<lparr>ds_string = s, ds_size_field = size_max, ds_max_size = maximum_size\<rparr>"

definition ds_size :: "dynamic_string_buffer \<Rightarrow> nat" where
  "ds_size d =
     (if ds_size_field d \<noteq> size_max then ds_size_field d
      else min (length (elems (ds_string d))) (ds_max_size d))"

definition ds_capacity :: "dynamic_string_buffer \<Rightarrow> nat" where
  "ds_capacity d = min (elems_capacity (ds_string d)) (ds_max_size d)"

definition ds_data :: "dynamic_string_buffer \<Rightarrow> buffer" where
  "ds_data d = buffer_string_max 0 (elems (ds_string d)) 1 (ds_size_field d)"

definition ds_data_at :: "dynamic_string_buffer \<Rightarrow> nat \<Rightarrow> nat \<Rightarrow> buffer" where
  "ds_data_at d pos n =
     mutable_limit (mutable_plus (buffer_string_max 0 (elems (ds_string d)) 1 (ds_max_size d)) pos) n"

definition ds_prepare ::
    "(nat \<Rightarrow> nat \<Rightarrow> nat) \<Rightarrow> nat \<Rightarrow> dynamic_string_buffer \<Rightarrow> fault + (dynamic_string_buffer \<times> buffer)" where
  "ds_prepare policy n d =
     (if ds_size d > ds_max_size d \<or> ds_max_size d - ds_size d < n then Inl LengthError
      else
        let d' = (if ds_size_field d = size_max
                  then d\<lparr>ds_size_field := length (elems (ds_string d))\<rparr> else d)
        in and_then (resize policy (ds_size_field d' + n) (ds_string d')) (\<lambda>s.
             Inr (d'\<lparr>ds_string := s\<rparr>,
                  mutable_limit (mutable_plus (buffer_string 0 (elems s) 1) (ds_size_field d')) n)))"

text \<open>The subtraction and the addition of \<^verbatim>\<open>commit\<close> wrap around when \<^verbatim>\<open>size_\<close> is not in use.\<close>

definition ds_commit ::
    "(nat \<Rightarrow> nat \<Rightarrow> nat) \<Rightarrow> nat \<Rightarrow> dynamic_string_buffer \<Rightarrow> fault + dynamic_string_buffer" where
  "ds_commit policy n d =
     (let room = (length (elems (ds_string d)) + 2 ^ 64 - ds_size_field d) mod 2 ^ 64;
          new_size = (ds_size_field d + min n room) mod 2 ^ 64
      in and_then (resize policy new_size (ds_string d)) (\<lambda>s.
           Inr (d\<lparr>ds_size_field := new_size, ds_string := s\<rparr>)))"

definition ds_grow ::
    "(nat \<Rightarrow> nat \<Rightarrow> nat) \<Rightarrow> nat \<Rightarrow> dynamic_string_buffer \<Rightarrow> fault + dynamic_string_buffer" where
  "ds_grow policy n d =
     (if ds_size d > ds_max_size d \<or> ds_max_size d - ds_size d < n then Inl LengthError
      else and_then (resize policy (ds_size d + n) (ds_string d)) (\<lambda>s. Inr (d\<lparr>ds_string := s\<rparr>)))"

definition ds_shrink ::
    "(nat \<Rightarrow> nat \<Rightarrow> nat) \<Rightarrow> nat \<Rightarrow> dynamic_string_buffer \<Rightarrow> fault + dynamic_string_buffer" where
  "ds_shrink policy n d =
     and_then (resize policy (if n > ds_size d then 0 else ds_size d - n) (ds_string d)) (\<lambda>s.
       Inr (d\<lparr>ds_string := s\<rparr>))"

text \<open>\<^verbatim>\<open>erase(0, n)\<close> of a string takes off at most what there is.\<close>

definition ds_consume :: "nat \<Rightarrow> dynamic_string_buffer \<Rightarrow> dynamic_string_buffer" where
  "ds_consume n d =
     (if ds_size_field d \<noteq> size_max then
        let consume_length = min n (ds_size_field d)
        in d\<lparr>ds_string := (ds_string d)\<lparr>elems := drop consume_length (elems (ds_string d))\<rparr>,
             ds_size_field := ds_size_field d - consume_length\<rparr>
      else d\<lparr>ds_string := (ds_string d)\<lparr>elems := drop n (elems (ds_string d))\<rparr>\<rparr>)"

section \<open>The vector\<close>

record dynamic_vector_buffer =
  dv_vector :: container
  dv_size_field :: nat
  dv_max_size :: nat

definition dynamic_vector :: "container \<Rightarrow> nat \<Rightarrow> dynamic_vector_buffer" where
  "dynamic_vector v maximum_size =
     \<lparr>dv_vector = v, dv_size_field = size_max, dv_max_size = maximum_size\<rparr>"

definition dv_size :: "dynamic_vector_buffer \<Rightarrow> nat" where
  "dv_size d =
     (if dv_size_field d \<noteq> size_max then dv_size_field d
      else min (length (elems (dv_vector d))) (dv_max_size d))"

definition dv_capacity :: "dynamic_vector_buffer \<Rightarrow> nat" where
  "dv_capacity d = min (elems_capacity (dv_vector d)) (dv_max_size d)"

definition dv_data :: "dynamic_vector_buffer \<Rightarrow> buffer" where
  "dv_data d = buffer_vector_max 0 (elems (dv_vector d)) 1 (dv_size_field d)"

definition dv_data_at :: "dynamic_vector_buffer \<Rightarrow> nat \<Rightarrow> nat \<Rightarrow> buffer" where
  "dv_data_at d pos n =
     mutable_limit (mutable_plus (buffer_vector_max 0 (elems (dv_vector d)) 1 (dv_max_size d)) pos) n"

definition dv_prepare ::
    "(nat \<Rightarrow> nat \<Rightarrow> nat) \<Rightarrow> nat \<Rightarrow> dynamic_vector_buffer \<Rightarrow> fault + (dynamic_vector_buffer \<times> buffer)" where
  "dv_prepare policy n d =
     (if dv_size d > dv_max_size d \<or> dv_max_size d - dv_size d < n then Inl LengthError
      else
        let d' = (if dv_size_field d = size_max
                  then d\<lparr>dv_size_field := length (elems (dv_vector d))\<rparr> else d)
        in and_then (resize policy (dv_size_field d' + n) (dv_vector d')) (\<lambda>v.
             Inr (d'\<lparr>dv_vector := v\<rparr>,
                  mutable_limit (mutable_plus (buffer_vector 0 (elems v) 1) (dv_size_field d')) n)))"

definition dv_commit ::
    "(nat \<Rightarrow> nat \<Rightarrow> nat) \<Rightarrow> nat \<Rightarrow> dynamic_vector_buffer \<Rightarrow> fault + dynamic_vector_buffer" where
  "dv_commit policy n d =
     (let room = (length (elems (dv_vector d)) + 2 ^ 64 - dv_size_field d) mod 2 ^ 64;
          new_size = (dv_size_field d + min n room) mod 2 ^ 64
      in and_then (resize policy new_size (dv_vector d)) (\<lambda>v.
           Inr (d\<lparr>dv_size_field := new_size, dv_vector := v\<rparr>)))"

definition dv_grow ::
    "(nat \<Rightarrow> nat \<Rightarrow> nat) \<Rightarrow> nat \<Rightarrow> dynamic_vector_buffer \<Rightarrow> fault + dynamic_vector_buffer" where
  "dv_grow policy n d =
     (if dv_size d > dv_max_size d \<or> dv_max_size d - dv_size d < n then Inl LengthError
      else and_then (resize policy (dv_size d + n) (dv_vector d)) (\<lambda>v. Inr (d\<lparr>dv_vector := v\<rparr>)))"

definition dv_shrink ::
    "(nat \<Rightarrow> nat \<Rightarrow> nat) \<Rightarrow> nat \<Rightarrow> dynamic_vector_buffer \<Rightarrow> fault + dynamic_vector_buffer" where
  "dv_shrink policy n d =
     and_then (resize policy (if n > dv_size d then 0 else dv_size d - n) (dv_vector d)) (\<lambda>v.
       Inr (d\<lparr>dv_vector := v\<rparr>))"

definition dv_consume :: "nat \<Rightarrow> dynamic_vector_buffer \<Rightarrow> dynamic_vector_buffer" where
  "dv_consume n d =
     (if dv_size_field d \<noteq> size_max then
        let consume_length = min n (dv_size_field d)
        in d\<lparr>dv_vector := (dv_vector d)\<lparr>elems := drop consume_length (elems (dv_vector d))\<rparr>,
             dv_size_field := dv_size_field d - consume_length\<rparr>
      else d\<lparr>dv_vector := (dv_vector d)\<lparr>elems := drop (min (dv_size d) n) (elems (dv_vector d))\<rparr>\<rparr>)"

section \<open>The interfaces\<close>

text \<open>
  The operations a read into a dynamic buffer calls, as the template argument provides them, and
  \<open>fill\<close>, what the system does to the storage the buffer returned by \<^verbatim>\<open>data\<close> or \<^verbatim>\<open>prepare\<close> points to.
\<close>

record 'b dynamic_ops =
  op_size :: "'b \<Rightarrow> nat"
  op_max_size :: "'b \<Rightarrow> nat"
  op_capacity :: "'b \<Rightarrow> nat"
  op_data_at :: "'b \<Rightarrow> nat \<Rightarrow> nat \<Rightarrow> buffer"
  op_grow :: "nat \<Rightarrow> 'b \<Rightarrow> fault + 'b"
  op_shrink :: "nat \<Rightarrow> 'b \<Rightarrow> fault + 'b"
  op_prepare :: "nat \<Rightarrow> 'b \<Rightarrow> fault + ('b \<times> buffer)"
  op_commit :: "nat \<Rightarrow> 'b \<Rightarrow> fault + 'b"
  op_consume :: "nat \<Rightarrow> 'b \<Rightarrow> 'b"
  op_fill :: "buffer \<Rightarrow> bytes \<Rightarrow> 'b \<Rightarrow> 'b"

definition fill_elems :: "buffer \<Rightarrow> bytes \<Rightarrow> bytes \<Rightarrow> bytes" where
  "fill_elems b bs xs =
     (let n = min (length bs) (bsize b)
      in take (bdata b) xs @ take n bs @ drop (bdata b + n) xs)"

definition string_ops :: "(nat \<Rightarrow> nat \<Rightarrow> nat) \<Rightarrow> dynamic_string_buffer dynamic_ops" where
  "string_ops policy = \<lparr>op_size = ds_size, op_max_size = ds_max_size, op_capacity = ds_capacity,
     op_data_at = ds_data_at, op_grow = ds_grow policy, op_shrink = ds_shrink policy,
     op_prepare = ds_prepare policy, op_commit = ds_commit policy, op_consume = ds_consume,
     op_fill = (\<lambda>b bs d. d\<lparr>ds_string := (ds_string d)\<lparr>elems := fill_elems b bs (elems (ds_string d))\<rparr>\<rparr>)\<rparr>"

definition vector_ops :: "(nat \<Rightarrow> nat \<Rightarrow> nat) \<Rightarrow> dynamic_vector_buffer dynamic_ops" where
  "vector_ops policy = \<lparr>op_size = dv_size, op_max_size = dv_max_size, op_capacity = dv_capacity,
     op_data_at = dv_data_at, op_grow = dv_grow policy, op_shrink = dv_shrink policy,
     op_prepare = dv_prepare policy, op_commit = dv_commit policy, op_consume = dv_consume,
     op_fill = (\<lambda>b bs d. d\<lparr>dv_vector := (dv_vector d)\<lparr>elems := fill_elems b bs (elems (dv_vector d))\<rparr>\<rparr>)\<rparr>"

text \<open>
  The two contracts, of a buffer that holds \<open>contents b\<close>: a piece of at most the size left is made
  room for, filled with what arrives, and cut to that; then the contents are the old ones and the
  bytes that arrived.
\<close>

locale dynamic_buffer =
  fixes ops :: "'b dynamic_ops"
    and contents :: "'b \<Rightarrow> bytes"
    and ok :: "'b \<Rightarrow> bool"
  assumes size_contents: "ok b \<Longrightarrow> op_size ops b = length (contents b)"
    and size_max_size: "ok b \<Longrightarrow> length (contents b) \<le> op_max_size ops b"
    and size_capacity: "ok b \<Longrightarrow> length (contents b) \<le> op_capacity ops b"
    and consume_contents: "ok b \<Longrightarrow> contents (op_consume ops n b) = drop n (contents b)"
    and consume_ok: "ok b \<Longrightarrow> ok (op_consume ops n b)"

locale dynamic_v1 = dynamic_buffer +
  assumes prepare_commit: "ok b \<Longrightarrow> n \<le> op_max_size ops b - op_size ops b \<Longrightarrow>
    op_size ops b + n < size_max \<Longrightarrow>
    \<exists>b1 buf. op_prepare ops n b = Inr (b1, buf) \<and> bsize buf = n
      \<and> (\<forall>bs. length bs \<le> n \<longrightarrow> (\<exists>b2. op_commit ops (length bs) (op_fill ops buf bs b1) = Inr b2
            \<and> ok b2 \<and> contents b2 = contents b @ bs \<and> op_max_size ops b2 = op_max_size ops b))"

locale dynamic_v2 = dynamic_buffer +
  assumes grow_shrink: "ok b \<Longrightarrow> n \<le> op_max_size ops b - op_size ops b \<Longrightarrow>
    op_size ops b + n < size_max \<Longrightarrow>
    \<exists>b1. op_grow ops n b = Inr b1 \<and> bsize (op_data_at ops b1 (op_size ops b) n) = n
      \<and> (\<forall>bs. length bs \<le> n \<longrightarrow> (\<exists>b2.
            op_shrink ops (n - length bs) (op_fill ops (op_data_at ops b1 (op_size ops b) n) bs b1) = Inr b2
            \<and> ok b2 \<and> contents b2 = contents b @ bs \<and> op_max_size ops b2 = op_max_size ops b))"

section \<open>The string and the vector are such buffers\<close>

lemma resize_Inr:
  "n < size_max \<Longrightarrow> resize policy n c = Inr \<lparr>elems = take n (elems c) @ replicate (n - length (elems c)) 0,
     elems_capacity = (if n \<le> elems_capacity c then elems_capacity c else max n (policy (elems_capacity c) n))\<rparr>"
  by (simp add: resize_def)

lemma fill_elems_room:
  assumes "length bs \<le> n"
  shows "take (length xs + length bs) (fill_elems (make_buffer (length xs) n) bs (xs @ replicate n 0)) = xs @ bs"
    and "length (fill_elems (make_buffer (length xs) n) bs (xs @ replicate n 0)) = length xs + n"
  using assms by (auto simp: fill_elems_def make_buffer_def Let_def)

definition container_ok :: "container \<Rightarrow> nat \<Rightarrow> bool" where
  "container_ok c mx \<longleftrightarrow> length (elems c) \<le> mx \<and> length (elems c) \<le> elems_capacity c
     \<and> length (elems c) < size_max"

definition ds_ok :: "dynamic_string_buffer \<Rightarrow> bool" where
  "ds_ok d \<longleftrightarrow> container_ok (ds_string d) (ds_max_size d) \<and> ds_size_field d = size_max"

definition ds_ok_v1 :: "dynamic_string_buffer \<Rightarrow> bool" where
  "ds_ok_v1 d \<longleftrightarrow> container_ok (ds_string d) (ds_max_size d)
     \<and> (ds_size_field d = size_max \<or> ds_size_field d = length (elems (ds_string d)))"

definition dv_ok :: "dynamic_vector_buffer \<Rightarrow> bool" where
  "dv_ok d \<longleftrightarrow> container_ok (dv_vector d) (dv_max_size d) \<and> dv_size_field d = size_max"

definition dv_ok_v1 :: "dynamic_vector_buffer \<Rightarrow> bool" where
  "dv_ok_v1 d \<longleftrightarrow> container_ok (dv_vector d) (dv_max_size d)
     \<and> (dv_size_field d = size_max \<or> dv_size_field d = length (elems (dv_vector d)))"

named_theorems dynamic \<open>definitions of the dynamic buffers' operations\<close>

declare string_ops_def [dynamic] ds_size_def [dynamic] ds_capacity_def [dynamic]
  ds_data_at_def [dynamic] ds_prepare_def [dynamic] ds_commit_def [dynamic] ds_grow_def [dynamic]
  ds_shrink_def [dynamic] ds_consume_def [dynamic] ds_ok_def [dynamic] ds_ok_v1_def [dynamic]
  vector_ops_def [dynamic] dv_size_def [dynamic] dv_capacity_def [dynamic]
  dv_data_at_def [dynamic] dv_prepare_def [dynamic] dv_commit_def [dynamic] dv_grow_def [dynamic]
  dv_shrink_def [dynamic] dv_consume_def [dynamic] dv_ok_def [dynamic] dv_ok_v1_def [dynamic]
  container_ok_def [dynamic]

lemma data_after_growth:
  "length xs + n \<le> mx \<Longrightarrow>
   mutable_limit (mutable_plus (buffer_string_max 0 (xs @ replicate n 0) 1 mx) (length xs)) n =
     make_buffer (length xs) n"
  "length xs + n \<le> mx \<Longrightarrow>
   mutable_limit (mutable_plus (buffer_vector_max 0 (xs @ replicate n 0) 1 mx) (length xs)) n =
     make_buffer (length xs) n"
  "mutable_limit (mutable_plus (buffer_string 0 (xs @ replicate n 0) 1) (length xs)) n =
     make_buffer (length xs) n"
  "mutable_limit (mutable_plus (buffer_vector 0 (xs @ replicate n 0) 1) (length xs)) n =
     make_buffer (length xs) n"
  by (auto simp: buffers buffer_string_max_def buffer_vector_max_def buffer_string_def buffer_vector_def)

lemma resize_grown:
  assumes "elems c = xs" and "length xs + n < size_max"
  obtains cap where "resize policy (length xs + n) c = Inr \<lparr>elems = xs @ replicate n 0, elems_capacity = cap\<rparr>"
    "length xs + n \<le> cap"
  using assms that by (auto simp: resize_Inr)

lemma drop_min [dynamic]:
  "drop (min n (length xs)) xs = drop n xs" "drop (min (length xs) n) xs = drop n xs"
  by (auto simp: min_def)

text \<open>Cutting the container back to what has arrived.\<close>

lemma resize_filled:
  assumes "length bs \<le> n" and "length xs + n < size_max" and "length xs + n \<le> cap"
  shows "resize policy (length xs + length bs)
      \<lparr>elems = fill_elems (make_buffer (length xs) n) bs (xs @ replicate n 0), elems_capacity = cap\<rparr> =
    Inr \<lparr>elems = xs @ bs, elems_capacity = cap\<rparr>"
  using assms fill_elems_room [OF assms(1), of xs] by (simp add: resize_Inr)

interpretation string_v2: dynamic_v2 "string_ops policy" "\<lambda>d. elems (ds_string d)" ds_ok
proof
  fix d :: dynamic_string_buffer and n
  let ?xs = "elems (ds_string d)"
  assume "ds_ok d" "n \<le> op_max_size (string_ops policy) d - op_size (string_ops policy) d"
    "op_size (string_ops policy) d + n < size_max"
  then have d: "ds_size_field d = size_max" "length ?xs + n \<le> ds_max_size d" "length ?xs + n < size_max"
      "ds_size d = length ?xs"
    by (auto simp: dynamic)
  obtain cap where grown: "resize policy (length ?xs + n) (ds_string d) =
      Inr \<lparr>elems = ?xs @ replicate n 0, elems_capacity = cap\<rparr>" "length ?xs + n \<le> cap"
    using resize_grown [OF refl d(3)] .
  let ?b1 = "d\<lparr>ds_string := \<lparr>elems = ?xs @ replicate n 0, elems_capacity = cap\<rparr>\<rparr>"
  have "op_grow (string_ops policy) n d = Inr ?b1"
    using d grown by (simp add: string_ops_def ds_grow_def)
  moreover have data: "op_data_at (string_ops policy) ?b1 (op_size (string_ops policy) d) n = make_buffer (length ?xs) n"
    using d data_after_growth(1) [of ?xs n] by (simp add: string_ops_def ds_data_at_def)
  moreover have "\<exists>b2. op_shrink (string_ops policy) (n - length bs)
        (op_fill (string_ops policy) (make_buffer (length ?xs) n) bs ?b1) = Inr b2
      \<and> ds_ok b2 \<and> elems (ds_string b2) = ?xs @ bs
      \<and> op_max_size (string_ops policy) b2 = op_max_size (string_ops policy) d"
    if bs: "length bs \<le> n" for bs
    using d bs grown(2) fill_elems_room(2) [OF bs, of ?xs] resize_filled [OF bs d(3) grown(2), of policy]
    by (auto simp: string_ops_def ds_shrink_def ds_size_def ds_ok_def container_ok_def)
  ultimately show "\<exists>b1. op_grow (string_ops policy) n d = Inr b1 \<and>
      bsize (op_data_at (string_ops policy) b1 (op_size (string_ops policy) d) n) = n \<and>
      (\<forall>bs. length bs \<le> n \<longrightarrow> (\<exists>b2. op_shrink (string_ops policy) (n - length bs)
          (op_fill (string_ops policy) (op_data_at (string_ops policy) b1 (op_size (string_ops policy) d) n) bs b1) = Inr b2
        \<and> ds_ok b2 \<and> elems (ds_string b2) = ?xs @ bs \<and>
        op_max_size (string_ops policy) b2 = op_max_size (string_ops policy) d))"
    by (intro exI [of _ ?b1]) (simp add: make_buffer_def)
qed (auto simp: dynamic Let_def)

interpretation vector_v2: dynamic_v2 "vector_ops policy" "\<lambda>d. elems (dv_vector d)" dv_ok
proof
  fix d :: dynamic_vector_buffer and n
  let ?xs = "elems (dv_vector d)"
  assume "dv_ok d" "n \<le> op_max_size (vector_ops policy) d - op_size (vector_ops policy) d"
    "op_size (vector_ops policy) d + n < size_max"
  then have d: "dv_size_field d = size_max" "length ?xs + n \<le> dv_max_size d" "length ?xs + n < size_max"
      "dv_size d = length ?xs"
    by (auto simp: dynamic)
  obtain cap where grown: "resize policy (length ?xs + n) (dv_vector d) =
      Inr \<lparr>elems = ?xs @ replicate n 0, elems_capacity = cap\<rparr>" "length ?xs + n \<le> cap"
    using resize_grown [OF refl d(3)] .
  let ?b1 = "d\<lparr>dv_vector := \<lparr>elems = ?xs @ replicate n 0, elems_capacity = cap\<rparr>\<rparr>"
  have "op_grow (vector_ops policy) n d = Inr ?b1"
    using d grown by (simp add: vector_ops_def dv_grow_def)
  moreover have data: "op_data_at (vector_ops policy) ?b1 (op_size (vector_ops policy) d) n = make_buffer (length ?xs) n"
    using d data_after_growth(2) [of ?xs n] by (simp add: vector_ops_def dv_data_at_def)
  moreover have "\<exists>b2. op_shrink (vector_ops policy) (n - length bs)
        (op_fill (vector_ops policy) (make_buffer (length ?xs) n) bs ?b1) = Inr b2
      \<and> dv_ok b2 \<and> elems (dv_vector b2) = ?xs @ bs
      \<and> op_max_size (vector_ops policy) b2 = op_max_size (vector_ops policy) d"
    if bs: "length bs \<le> n" for bs
    using d bs grown(2) fill_elems_room(2) [OF bs, of ?xs] resize_filled [OF bs d(3) grown(2), of policy]
    by (auto simp: vector_ops_def dv_shrink_def dv_size_def dv_ok_def container_ok_def)
  ultimately show "\<exists>b1. op_grow (vector_ops policy) n d = Inr b1 \<and>
      bsize (op_data_at (vector_ops policy) b1 (op_size (vector_ops policy) d) n) = n \<and>
      (\<forall>bs. length bs \<le> n \<longrightarrow> (\<exists>b2. op_shrink (vector_ops policy) (n - length bs)
          (op_fill (vector_ops policy) (op_data_at (vector_ops policy) b1 (op_size (vector_ops policy) d) n) bs b1) = Inr b2
        \<and> dv_ok b2 \<and> elems (dv_vector b2) = ?xs @ bs \<and>
        op_max_size (vector_ops policy) b2 = op_max_size (vector_ops policy) d))"
    by (intro exI [of _ ?b1]) (simp add: make_buffer_def)
qed (auto simp: dynamic Let_def)

lemma commit_size:
  assumes "length bs \<le> n" and "length xs + n < size_max"
  shows "(length xs + min (length bs) ((length xs + n + 2 ^ 64 - length xs) mod 2 ^ 64)) mod 2 ^ 64 =
    length xs + length bs"
  using assms by (simp add: size_max_def mod_if)

interpretation string_v1: dynamic_v1 "string_ops policy" "\<lambda>d. elems (ds_string d)" ds_ok_v1
proof
  fix d :: dynamic_string_buffer and n
  let ?xs = "elems (ds_string d)"
  assume "ds_ok_v1 d" "n \<le> op_max_size (string_ops policy) d - op_size (string_ops policy) d"
    "op_size (string_ops policy) d + n < size_max"
  then have d: "ds_size_field d = size_max \<or> ds_size_field d = length ?xs"
      "length ?xs + n \<le> ds_max_size d" "length ?xs + n < size_max" "ds_size d = length ?xs"
    by (auto simp: dynamic)
  obtain cap where grown: "resize policy (length ?xs + n) (ds_string d) =
      Inr \<lparr>elems = ?xs @ replicate n 0, elems_capacity = cap\<rparr>" "length ?xs + n \<le> cap"
    using resize_grown [OF refl d(3)] .
  let ?b1 = "d\<lparr>ds_size_field := length ?xs, ds_string := \<lparr>elems = ?xs @ replicate n 0, elems_capacity = cap\<rparr>\<rparr>"
  have "op_prepare (string_ops policy) n d = Inr (?b1, make_buffer (length ?xs) n)"
    using d grown data_after_growth(3) [of ?xs n] by (auto simp: string_ops_def ds_prepare_def)
  moreover have "\<exists>b2. op_commit (string_ops policy) (length bs)
        (op_fill (string_ops policy) (make_buffer (length ?xs) n) bs ?b1) = Inr b2
      \<and> ds_ok_v1 b2 \<and> elems (ds_string b2) = ?xs @ bs
      \<and> op_max_size (string_ops policy) b2 = op_max_size (string_ops policy) d"
    if bs: "length bs \<le> n" for bs
    using d(2-) bs grown(2) fill_elems_room(2) [OF bs, of ?xs] resize_filled [OF bs d(3) grown(2), of policy]
      commit_size [OF bs d(3)]
    by (auto simp: string_ops_def ds_commit_def ds_ok_v1_def container_ok_def Let_def)
  ultimately show "\<exists>b1 buf. op_prepare (string_ops policy) n d = Inr (b1, buf) \<and> bsize buf = n \<and>
      (\<forall>bs. length bs \<le> n \<longrightarrow> (\<exists>b2. op_commit (string_ops policy) (length bs)
          (op_fill (string_ops policy) buf bs b1) = Inr b2
        \<and> ds_ok_v1 b2 \<and> elems (ds_string b2) = ?xs @ bs \<and>
        op_max_size (string_ops policy) b2 = op_max_size (string_ops policy) d))"
    by (intro exI [of _ ?b1] exI [of _ "make_buffer (length ?xs) n"]) (simp add: make_buffer_def)
qed (auto simp: dynamic Let_def)

interpretation vector_v1: dynamic_v1 "vector_ops policy" "\<lambda>d. elems (dv_vector d)" dv_ok_v1
proof
  fix d :: dynamic_vector_buffer and n
  let ?xs = "elems (dv_vector d)"
  assume "dv_ok_v1 d" "n \<le> op_max_size (vector_ops policy) d - op_size (vector_ops policy) d"
    "op_size (vector_ops policy) d + n < size_max"
  then have d: "dv_size_field d = size_max \<or> dv_size_field d = length ?xs"
      "length ?xs + n \<le> dv_max_size d" "length ?xs + n < size_max" "dv_size d = length ?xs"
    by (auto simp: dynamic)
  obtain cap where grown: "resize policy (length ?xs + n) (dv_vector d) =
      Inr \<lparr>elems = ?xs @ replicate n 0, elems_capacity = cap\<rparr>" "length ?xs + n \<le> cap"
    using resize_grown [OF refl d(3)] .
  let ?b1 = "d\<lparr>dv_size_field := length ?xs, dv_vector := \<lparr>elems = ?xs @ replicate n 0, elems_capacity = cap\<rparr>\<rparr>"
  have "op_prepare (vector_ops policy) n d = Inr (?b1, make_buffer (length ?xs) n)"
    using d grown data_after_growth(4) [of ?xs n] by (auto simp: vector_ops_def dv_prepare_def)
  moreover have "\<exists>b2. op_commit (vector_ops policy) (length bs)
        (op_fill (vector_ops policy) (make_buffer (length ?xs) n) bs ?b1) = Inr b2
      \<and> dv_ok_v1 b2 \<and> elems (dv_vector b2) = ?xs @ bs
      \<and> op_max_size (vector_ops policy) b2 = op_max_size (vector_ops policy) d"
    if bs: "length bs \<le> n" for bs
    using d(2-) bs grown(2) fill_elems_room(2) [OF bs, of ?xs] resize_filled [OF bs d(3) grown(2), of policy]
      commit_size [OF bs d(3)]
    by (auto simp: vector_ops_def dv_commit_def dv_ok_v1_def container_ok_def Let_def)
  ultimately show "\<exists>b1 buf. op_prepare (vector_ops policy) n d = Inr (b1, buf) \<and> bsize buf = n \<and>
      (\<forall>bs. length bs \<le> n \<longrightarrow> (\<exists>b2. op_commit (vector_ops policy) (length bs)
          (op_fill (vector_ops policy) buf bs b1) = Inr b2
        \<and> dv_ok_v1 b2 \<and> elems (dv_vector b2) = ?xs @ bs \<and>
        op_max_size (vector_ops policy) b2 = op_max_size (vector_ops policy) d))"
    by (intro exI [of _ ?b1] exI [of _ "make_buffer (length ?xs) n"]) (simp add: make_buffer_def)
qed (auto simp: dynamic Let_def)

end
