(* ===== verification/DynRead.thy ===== *)
theory DynRead
  imports ComposedOps DynBuffers
begin

text \<open>
  The reads into a dynamic buffer and the writes from one of \<^verbatim>\<open>asio/impl/read.hpp\<close> and
  \<^verbatim>\<open>asio/impl/write.hpp\<close>, in both versions of the interface, synchronous and asynchronous.

  A stream's \<^verbatim>\<open>read_some\<close> is given the size of the buffer and returns the bytes it puts there.
  An exception (\<^verbatim>\<open>std::length_error\<close>) ends the operation with \<open>Inl\<close>.
\<close>

section \<open>The synchronous reads\<close>

text \<open>The expression for the size of the next read, which each of the operations repeats.\<close>

definition bytes_available :: "'b dynamic_ops \<Rightarrow> condition \<Rightarrow> ecode \<Rightarrow> nat \<Rightarrow> 'b \<Rightarrow> nat" where
  "bytes_available ops cond ec total_transferred b =
     (let max_size = adapt_size (cond ec total_transferred)
      in min (max 512 (op_capacity ops b - op_size ops b)) (min max_size (op_max_size ops b - op_size ops b)))"

type_synonym ('b, 's) read_outcome = "fault + ('b \<times> 's \<times> nat \<times> ecode)"

partial_function (option) read_v1_loop ::
    "('s \<Rightarrow> nat \<Rightarrow> 's \<times> bytes \<times> ecode) \<Rightarrow> 'b dynamic_ops \<Rightarrow> condition
     \<Rightarrow> 'b \<Rightarrow> nat \<Rightarrow> nat \<Rightarrow> ecode \<Rightarrow> 's \<Rightarrow> ('b, 's) read_outcome option" where
  "read_v1_loop read_some ops cond b total_transferred available ec s =
     (if available > 0 then
        case op_prepare ops available b of
          Inl e \<Rightarrow> Some (Inl e)
        | Inr (b, buf) \<Rightarrow>
            (case read_some s (bsize buf) of (s, bs, ec) \<Rightarrow>
               (case op_commit ops (length bs) (op_fill ops buf bs b) of
                  Inl e \<Rightarrow> Some (Inl e)
                | Inr b \<Rightarrow>
                    let total_transferred = total_transferred + length bs
                    in read_v1_loop read_some ops cond b total_transferred
                         (bytes_available ops cond ec total_transferred b) ec s))
      else Some (Inr (b, s, total_transferred, ec)))"

definition read_v1 ::
    "('s \<Rightarrow> nat \<Rightarrow> 's \<times> bytes \<times> ecode) \<Rightarrow> 'b dynamic_ops \<Rightarrow> condition
     \<Rightarrow> 'b \<Rightarrow> 's \<Rightarrow> ('b, 's) read_outcome option" where
  "read_v1 read_some ops cond b s =
     read_v1_loop read_some ops cond b 0 (bytes_available ops cond NoError 0 b) NoError s"

partial_function (option) read_v2_loop ::
    "('s \<Rightarrow> nat \<Rightarrow> 's \<times> bytes \<times> ecode) \<Rightarrow> 'b dynamic_ops \<Rightarrow> condition
     \<Rightarrow> 'b \<Rightarrow> nat \<Rightarrow> nat \<Rightarrow> ecode \<Rightarrow> 's \<Rightarrow> ('b, 's) read_outcome option" where
  "read_v2_loop read_some ops cond b total_transferred available ec s =
     (if available > 0 then
        let pos = op_size ops b
        in case op_grow ops available b of
             Inl e \<Rightarrow> Some (Inl e)
           | Inr b \<Rightarrow>
               let buf = op_data_at ops b pos available
               in (case read_some s (bsize buf) of (s, bs, ec) \<Rightarrow>
                     (case op_shrink ops (available - length bs) (op_fill ops buf bs b) of
                        Inl e \<Rightarrow> Some (Inl e)
                      | Inr b \<Rightarrow>
                          let total_transferred = total_transferred + length bs
                          in read_v2_loop read_some ops cond b total_transferred
                               (bytes_available ops cond ec total_transferred b) ec s))
      else Some (Inr (b, s, total_transferred, ec)))"

definition read_v2 ::
    "('s \<Rightarrow> nat \<Rightarrow> 's \<times> bytes \<times> ecode) \<Rightarrow> 'b dynamic_ops \<Rightarrow> condition
     \<Rightarrow> 'b \<Rightarrow> 's \<Rightarrow> ('b, 's) read_outcome option" where
  "read_v2 read_some ops cond b s =
     read_v2_loop read_some ops cond b 0 (bytes_available ops cond NoError 0 b) NoError s"

text \<open>The overloads without a condition or without an \<^verbatim>\<open>error_code\<close>.\<close>

fun throw_read_error :: "('b, 's) read_outcome \<Rightarrow> ('b, 's) read_outcome" where
  "throw_read_error (Inl e) = Inl e"
| "throw_read_error (Inr (b, s, n, ec)) = throw_error ec (b, s, n, ec)"

definition read_v1_all where
  "read_v1_all read_some ops b s = read_v1 read_some ops transfer_all b s"

definition read_v1_all_throws where
  "read_v1_all_throws read_some ops b s =
     map_option throw_read_error (read_v1 read_some ops transfer_all b s)"

definition read_v1_throws where
  "read_v1_throws read_some ops cond b s = map_option throw_read_error (read_v1 read_some ops cond b s)"

definition read_v2_all where
  "read_v2_all read_some ops b s = read_v2 read_some ops transfer_all b s"

definition read_v2_all_throws where
  "read_v2_all_throws read_some ops b s =
     map_option throw_read_error (read_v2 read_some ops transfer_all b s)"

definition read_v2_throws where
  "read_v2_throws read_some ops cond b s = map_option throw_read_error (read_v2 read_some ops cond b s)"

section \<open>The asynchronous reads\<close>

datatype dyn_action =
    ReadSome buffer
  | CallReadHandler ecode nat

record 'b read_dynbuf_op =
  dy_buffers :: 'b
  dy_start :: int
  dy_total_transferred :: nat
  dy_bytes_available :: nat

definition new_read_dynbuf_op :: "'b \<Rightarrow> 'b read_dynbuf_op" where
  "new_read_dynbuf_op b =
     \<lparr>dy_buffers = b, dy_start = 0, dy_total_transferred = 0, dy_bytes_available = 0\<rparr>"

text \<open>
  The first version keeps the size asked for in a local variable; here it goes into the field that
  only the second one has.
\<close>

definition prepare_next ::
    "'b dynamic_ops \<Rightarrow> 'b read_dynbuf_op \<Rightarrow> fault + ('b read_dynbuf_op \<times> dyn_action)" where
  "prepare_next ops op =
     and_then (op_prepare ops (dy_bytes_available op) (dy_buffers op)) (\<lambda>(b, buf).
       Inr (op\<lparr>dy_buffers := b\<rparr>, ReadSome buf))"

definition read_dynbuf_v1_call ::
    "'b dynamic_ops \<Rightarrow> condition \<Rightarrow> bool \<Rightarrow> ecode \<Rightarrow> nat \<Rightarrow> int \<Rightarrow> 'b read_dynbuf_op
     \<Rightarrow> fault + ('b read_dynbuf_op \<times> dyn_action)" where
  "read_dynbuf_v1_call ops cond cancelled ec bytes_transferred start op =
     (let op = op\<lparr>dy_start := start\<rparr>
      in if start = 1 then
           prepare_next ops
             (op\<lparr>dy_bytes_available := bytes_available ops cond ec (dy_total_transferred op) (dy_buffers op)\<rparr>)
         else
           let op = op\<lparr>dy_total_transferred := dy_total_transferred op + bytes_transferred\<rparr>
           in and_then (op_commit ops bytes_transferred (dy_buffers op)) (\<lambda>b.
                let available = bytes_available ops cond ec (dy_total_transferred op) b;
                    op = op\<lparr>dy_buffers := b, dy_bytes_available := available\<rparr>
                in if ec = NoError \<and> bytes_transferred = 0 \<or> available = 0 then
                     Inr (op, CallReadHandler ec (dy_total_transferred op))
                   else if cancelled then
                     Inr (op, CallReadHandler OperationAborted (dy_total_transferred op))
                   else prepare_next ops op))"

definition grow_next ::
    "'b dynamic_ops \<Rightarrow> 'b read_dynbuf_op \<Rightarrow> fault + ('b read_dynbuf_op \<times> dyn_action)" where
  "grow_next ops op =
     (let pos = op_size ops (dy_buffers op)
      in and_then (op_grow ops (dy_bytes_available op) (dy_buffers op)) (\<lambda>b.
           Inr (op\<lparr>dy_buffers := b\<rparr>, ReadSome (op_data_at ops b pos (dy_bytes_available op)))))"

definition read_dynbuf_v2_call ::
    "'b dynamic_ops \<Rightarrow> condition \<Rightarrow> bool \<Rightarrow> ecode \<Rightarrow> nat \<Rightarrow> int \<Rightarrow> 'b read_dynbuf_op
     \<Rightarrow> fault + ('b read_dynbuf_op \<times> dyn_action)" where
  "read_dynbuf_v2_call ops cond cancelled ec bytes_transferred start op =
     (let op = op\<lparr>dy_start := start\<rparr>
      in if start = 1 then
           grow_next ops
             (op\<lparr>dy_bytes_available := bytes_available ops cond ec (dy_total_transferred op) (dy_buffers op)\<rparr>)
         else
           let op = op\<lparr>dy_total_transferred := dy_total_transferred op + bytes_transferred\<rparr>
           in and_then (op_shrink ops (dy_bytes_available op - bytes_transferred) (dy_buffers op)) (\<lambda>b.
                let available = bytes_available ops cond ec (dy_total_transferred op) b;
                    op = op\<lparr>dy_buffers := b, dy_bytes_available := available\<rparr>
                in if ec = NoError \<and> bytes_transferred = 0 \<or> available = 0 then
                     Inr (op, CallReadHandler ec (dy_total_transferred op))
                   else if cancelled then
                     Inr (op, CallReadHandler OperationAborted (dy_total_transferred op))
                   else grow_next ops op))"

text \<open>
  The operation driven by what the stream delivers: \<open>(bytes, error, cancelled)\<close> per read. The
  outcome: the buffer, the bytes that arrived, and what the handler was called with, if it was.
\<close>

type_synonym delivery = "bytes \<times> ecode \<times> bool"

fun dyn_run ::
    "'b dynamic_ops
     \<Rightarrow> (bool \<Rightarrow> ecode \<Rightarrow> nat \<Rightarrow> int \<Rightarrow> 'b read_dynbuf_op \<Rightarrow> fault + ('b read_dynbuf_op \<times> dyn_action))
     \<Rightarrow> fault + ('b read_dynbuf_op \<times> dyn_action) \<Rightarrow> delivery list
     \<Rightarrow> fault + ('b \<times> bytes \<times> (ecode \<times> nat) option)" where
  "dyn_run ops call (Inl e) ds = Inl e"
| "dyn_run ops call (Inr (op, CallReadHandler ec n)) ds = Inr (dy_buffers op, [], Some (ec, n))"
| "dyn_run ops call (Inr (op, ReadSome buf)) [] = Inr (dy_buffers op, [], None)"
| "dyn_run ops call (Inr (op, ReadSome buf)) ((bs, ec, cancelled) # ds) =
     (let bs = take (bsize buf) bs
      in and_then (dyn_run ops call
             (call cancelled ec (length bs) 0 (op\<lparr>dy_buffers := op_fill ops buf bs (dy_buffers op)\<rparr>)) ds)
           (\<lambda>(b, received, result). Inr (b, bs @ received, result)))"

definition async_read_v1 ::
    "'b dynamic_ops \<Rightarrow> condition \<Rightarrow> 'b \<Rightarrow> delivery list \<Rightarrow> fault + ('b \<times> bytes \<times> (ecode \<times> nat) option)" where
  "async_read_v1 ops cond b ds =
     dyn_run ops (read_dynbuf_v1_call ops cond)
       (read_dynbuf_v1_call ops cond False NoError 0 1 (new_read_dynbuf_op b)) ds"

definition async_read_v2 ::
    "'b dynamic_ops \<Rightarrow> condition \<Rightarrow> 'b \<Rightarrow> delivery list \<Rightarrow> fault + ('b \<times> bytes \<times> (ecode \<times> nat) option)" where
  "async_read_v2 ops cond b ds =
     dyn_run ops (read_dynbuf_v2_call ops cond)
       (read_dynbuf_v2_call ops cond False NoError 0 1 (new_read_dynbuf_op b)) ds"

section \<open>The writes from a dynamic buffer\<close>

text \<open>
  The bytes readable are written like any buffer, and those written are consumed; the first
  version takes \<^verbatim>\<open>data()\<close>, the second \<^verbatim>\<open>data(0, size())\<close>.
\<close>

definition write_v1 ::
    "('s \<Rightarrow> buffer list \<Rightarrow> 's \<times> nat \<times> ecode) \<Rightarrow> ('b \<Rightarrow> buffer) \<Rightarrow> 'b dynamic_ops \<Rightarrow> condition
     \<Rightarrow> 'b \<Rightarrow> 's \<Rightarrow> ('b \<times> 's \<times> nat \<times> ecode) option" where
  "write_v1 write_some data ops cond b s =
     map_option (\<lambda>(s, bytes_transferred, ec). (op_consume ops bytes_transferred b, s, bytes_transferred, ec))
       (write_buffer_sequence write_some single_ops cond (new_consuming_single (data b)) s)"

definition write_v2 ::
    "('s \<Rightarrow> buffer list \<Rightarrow> 's \<times> nat \<times> ecode) \<Rightarrow> 'b dynamic_ops \<Rightarrow> condition
     \<Rightarrow> 'b \<Rightarrow> 's \<Rightarrow> ('b \<times> 's \<times> nat \<times> ecode) option" where
  "write_v2 write_some ops cond b s =
     map_option (\<lambda>(s, bytes_transferred, ec). (op_consume ops bytes_transferred b, s, bytes_transferred, ec))
       (write_buffer_sequence write_some single_ops cond
          (new_consuming_single (op_data_at ops b 0 (op_size ops b))) s)"

text \<open>The overloads without a condition or without an \<^verbatim>\<open>error_code\<close>.\<close>

fun throw_write_error :: "'b \<times> 's \<times> nat \<times> ecode \<Rightarrow> 'b \<times> 's \<times> (fault + nat)" where
  "throw_write_error (b, s, n, ec) = (b, s, throw_error ec n)"

definition write_v1_all where
  "write_v1_all write_some data ops b s = write_v1 write_some data ops transfer_all b s"

definition write_v1_all_throws where
  "write_v1_all_throws write_some data ops b s =
     map_option throw_write_error (write_v1 write_some data ops transfer_all b s)"

definition write_v1_throws where
  "write_v1_throws write_some data ops cond b s =
     map_option throw_write_error (write_v1 write_some data ops cond b s)"

definition write_v2_all where
  "write_v2_all write_some ops b s = write_v2 write_some ops transfer_all b s"

definition write_v2_all_throws where
  "write_v2_all_throws write_some ops b s =
     map_option throw_write_error (write_v2 write_some ops transfer_all b s)"

definition write_v2_throws where
  "write_v2_throws write_some ops cond b s =
     map_option throw_write_error (write_v2 write_some ops cond b s)"

text \<open>
  The asynchronous writes: the first call starts an \<^verbatim>\<open>async_write\<close> of the readable bytes, the second,
  with its result, consumes them and calls the handler.
\<close>

datatype dyn_write_action =
    AsyncWrite buffer
  | CallWriteHandler ecode nat

definition write_dynbuf_v1_call ::
    "('b \<Rightarrow> buffer) \<Rightarrow> 'b dynamic_ops \<Rightarrow> ecode \<Rightarrow> nat \<Rightarrow> int \<Rightarrow> 'b \<Rightarrow> 'b \<times> dyn_write_action" where
  "write_dynbuf_v1_call data ops ec bytes_transferred start b =
     (if start = 1 then (b, AsyncWrite (data b))
      else (op_consume ops bytes_transferred b, CallWriteHandler ec bytes_transferred))"

definition write_dynbuf_v2_call ::
    "'b dynamic_ops \<Rightarrow> ecode \<Rightarrow> nat \<Rightarrow> int \<Rightarrow> 'b \<Rightarrow> 'b \<times> dyn_write_action" where
  "write_dynbuf_v2_call ops ec bytes_transferred start b =
     (if start = 1 then (b, AsyncWrite (op_data_at ops b 0 (op_size ops b)))
      else (op_consume ops bytes_transferred b, CallWriteHandler ec bytes_transferred))"

definition async_write_v2 ::
    "'b dynamic_ops \<Rightarrow> condition \<Rightarrow> 'b \<Rightarrow> stream_result list \<Rightarrow> addr list \<times> ('b \<times> ecode \<times> nat) option" where
  "async_write_v2 ops cond b rs =
     (case write_dynbuf_v2_call ops NoError 0 1 b of
        (b, AsyncWrite buf) \<Rightarrow>
          (case async_write single_ops cond (new_consuming_single buf) rs of
             (moved, None) \<Rightarrow> (moved, None)
           | (moved, Some (ec, n)) \<Rightarrow>
               (case write_dynbuf_v2_call ops ec n 0 b of
                  (b, CallWriteHandler ec n) \<Rightarrow> (moved, Some (b, ec, n))
                | (b, AsyncWrite _) \<Rightarrow> (moved, None)))
      | (b, CallWriteHandler ec n) \<Rightarrow> ([], Some (b, ec, n)))"

section \<open>What the reads do\<close>

text \<open>
  A stream for the synchronous reads: what it delivers, with the errors, then end of file; its
  state keeps the bytes it has handed over.
\<close>

type_synonym script = "(bytes \<times> ecode) list \<times> bytes"

fun script_read :: "script \<Rightarrow> nat \<Rightarrow> script \<times> bytes \<times> ecode" where
  "script_read ([], log) n = (([], log), [], EndOfFile)"
| "script_read ((bs, ec) # rs, log) n = ((rs, log @ take n bs), take n bs, ec)"

context dynamic_buffer
begin

lemma available_room:
  "bytes_available ops cond ec n b \<le> op_max_size ops b - op_size ops b"
  by (simp add: bytes_available_def Let_def)

lemma available_fits:
  "ok b \<Longrightarrow> op_max_size ops b < size_max \<Longrightarrow> op_size ops b + bytes_available ops cond ec n b < size_max"
  using available_room [of cond ec n b] size_contents [of b] size_max_size [of b] by linarith

lemma available_error: "ec \<noteq> NoError \<Longrightarrow> bytes_available ops transfer_all ec n b = 0"
  by (simp add: bytes_available_def transfer_all_def adapt_size_def)

lemma available_full:
  "ok b \<Longrightarrow> bytes_available ops transfer_all NoError n b = 0 \<Longrightarrow> length (contents b) = op_max_size ops b"
  using size_max_size [of b]
  by (simp add: bytes_available_def transfer_all_def adapt_size_def default_max_transfer_size_def
      size_contents Let_def)

text \<open>
  Both versions run alike: \<open>next\<close> makes room and starts a read, \<open>call\<close> takes its result, cuts the buffer
  and goes on or ends.
\<close>

definition dyn_after :: "condition \<Rightarrow> ('b read_dynbuf_op \<Rightarrow> fault + ('b read_dynbuf_op \<times> dyn_action)) \<Rightarrow>
    bool \<Rightarrow> ecode \<Rightarrow> bytes \<Rightarrow> 'b \<Rightarrow> 'b read_dynbuf_op \<Rightarrow> fault + ('b read_dynbuf_op \<times> dyn_action)" where
  "dyn_after cond nxt cancelled ec bs b2 op =
     (let n = dy_total_transferred op + length bs;
          op2 = op\<lparr>dy_start := 0, dy_total_transferred := n, dy_buffers := b2,
            dy_bytes_available := bytes_available ops cond ec n b2\<rparr>
      in if ec = NoError \<and> bs = [] \<or> dy_bytes_available op2 = 0 then Inr (op2, CallReadHandler ec n)
         else if cancelled then Inr (op2, CallReadHandler OperationAborted n)
         else nxt op2)"

definition dyn_round where
  "dyn_round cond nxt call \<longleftrightarrow>
     (\<forall>op. ok (dy_buffers op) \<and> op_max_size ops (dy_buffers op) < size_max
        \<and> dy_bytes_available op \<le> op_max_size ops (dy_buffers op) - op_size ops (dy_buffers op) \<longrightarrow>
        (\<exists>b1 buf. nxt op = Inr (op\<lparr>dy_buffers := b1\<rparr>, ReadSome buf) \<and> bsize buf = dy_bytes_available op
          \<and> (\<forall>bs. length bs \<le> dy_bytes_available op \<longrightarrow> (\<exists>b2. ok b2
                \<and> contents b2 = contents (dy_buffers op) @ bs
                \<and> op_max_size ops b2 = op_max_size ops (dy_buffers op)
                \<and> (\<forall>cancelled ec. call cancelled ec (length bs) 0 (op\<lparr>dy_buffers := op_fill ops buf bs b1\<rparr>) =
                      dyn_after cond nxt cancelled ec bs b2 op)))))"

lemma dyn_run_appends:
  assumes round: "dyn_round cond nxt call"
    and "ok (dy_buffers op)" and "op_max_size ops (dy_buffers op) < size_max"
    and "dy_bytes_available op \<le> op_max_size ops (dy_buffers op) - op_size ops (dy_buffers op)"
  shows "\<exists>b' received result. dyn_run ops call (nxt op) ds = Inr (b', received, result)
    \<and> (\<forall>ec n. result = Some (ec, n) \<longrightarrow>
        ok b' \<and> contents b' = contents (dy_buffers op) @ received \<and> n = dy_total_transferred op + length received)"
  using assms(2-)
proof (induction ds arbitrary: op)
  case Nil
  with round show ?case unfolding dyn_round_def by fastforce
next
  case (Cons d ds)
  obtain bs0 ec cancelled where d: "d = (bs0, ec, cancelled)" by (cases d)
  define bs where "bs = take (dy_bytes_available op) bs0"
  have "length bs \<le> dy_bytes_available op" by (simp add: bs_def)
  with round Cons.prems obtain b1 buf b2 where
    n: "nxt op = Inr (op\<lparr>dy_buffers := b1\<rparr>, ReadSome buf)" "bsize buf = dy_bytes_available op" and
    b2: "ok b2" "contents b2 = contents (dy_buffers op) @ bs" "op_max_size ops b2 = op_max_size ops (dy_buffers op)" and
    call: "call cancelled ec (length bs) 0 (op\<lparr>dy_buffers := op_fill ops buf bs b1\<rparr>) =
      dyn_after cond nxt cancelled ec bs b2 op"
    unfolding dyn_round_def by meson
  have step: "dyn_run ops call (nxt op) (d # ds) =
      and_then (dyn_run ops call (dyn_after cond nxt cancelled ec bs b2 op) ds)
        (\<lambda>(b, received, result). Inr (b, bs @ received, result))"
    by (simp add: n d call bs_def [symmetric])
  define op2 where "op2 = op\<lparr>dy_start := 0, dy_total_transferred := dy_total_transferred op + length bs,
      dy_buffers := b2, dy_bytes_available := bytes_available ops cond ec (dy_total_transferred op + length bs) b2\<rparr>"
  have op2: "dy_buffers op2 = b2" "dy_total_transferred op2 = dy_total_transferred op + length bs"
    by (simp_all add: op2_def)
  have IH: "\<exists>b' received result. dyn_run ops call (nxt op2) ds = Inr (b', received, result)
    \<and> (\<forall>ec n. result = Some (ec, n) \<longrightarrow>
        ok b' \<and> contents b' = contents b2 @ received \<and> n = dy_total_transferred op2 + length received)"
    using Cons.IH [of op2] b2 Cons.prems(2) op2 available_room [of cond ec _ b2] by (simp add: op2_def)
  have after: "dyn_after cond nxt cancelled ec bs b2 op =
      (if ec = NoError \<and> bs = [] \<or> dy_bytes_available op2 = 0
       then Inr (op2, CallReadHandler ec (dy_total_transferred op2))
       else if cancelled then Inr (op2, CallReadHandler OperationAborted (dy_total_transferred op2))
       else nxt op2)"
    by (simp add: dyn_after_def Let_def op2_def)
  show ?case
    unfolding step after using IH b2 op2 by auto
qed

end

context dynamic_v2
begin

lemma round_v2: "dyn_round cond (grow_next ops) (read_dynbuf_v2_call ops cond)"
  unfolding dyn_round_def
proof (intro allI impI; elim conjE)
  fix op :: "'a read_dynbuf_op"
  assume op: "ok (dy_buffers op)" "op_max_size ops (dy_buffers op) < size_max"
    "dy_bytes_available op \<le> op_max_size ops (dy_buffers op) - op_size ops (dy_buffers op)"
  let ?b = "dy_buffers op" and ?n = "dy_bytes_available op"
  have "op_size ops ?b + ?n < size_max"
    using size_contents [OF op(1)] size_max_size [OF op(1)] op(2,3) by linarith
  then obtain b1 where grow: "op_grow ops ?n ?b = Inr b1"
      "bsize (op_data_at ops b1 (op_size ops ?b) ?n) = ?n"
    and fill: "\<forall>bs. length bs \<le> ?n \<longrightarrow> (\<exists>b2.
        op_shrink ops (?n - length bs) (op_fill ops (op_data_at ops b1 (op_size ops ?b) ?n) bs b1) = Inr b2
        \<and> ok b2 \<and> contents b2 = contents ?b @ bs \<and> op_max_size ops b2 = op_max_size ops ?b)"
    using grow_shrink [OF op(1,3)] by blast
  show "\<exists>b1 buf. grow_next ops op = Inr (op\<lparr>dy_buffers := b1\<rparr>, ReadSome buf) \<and> bsize buf = ?n
      \<and> (\<forall>bs. length bs \<le> ?n \<longrightarrow> (\<exists>b2. ok b2 \<and> contents b2 = contents ?b @ bs
            \<and> op_max_size ops b2 = op_max_size ops ?b
            \<and> (\<forall>cancelled ec. read_dynbuf_v2_call ops cond cancelled ec (length bs) 0
                  (op\<lparr>dy_buffers := op_fill ops buf bs b1\<rparr>) =
                  dyn_after cond (grow_next ops) cancelled ec bs b2 op)))"
  proof (rule exI [of _ b1], rule exI [of _ "op_data_at ops b1 (op_size ops ?b) ?n"], intro conjI allI impI)
    fix bs :: bytes assume "length bs \<le> ?n"
    with fill obtain b2 where b2: "op_shrink ops (?n - length bs)
          (op_fill ops (op_data_at ops b1 (op_size ops ?b) ?n) bs b1) = Inr b2"
        "ok b2" "contents b2 = contents ?b @ bs" "op_max_size ops b2 = op_max_size ops ?b"
      by blast
    then show "\<exists>b2. ok b2 \<and> contents b2 = contents ?b @ bs \<and> op_max_size ops b2 = op_max_size ops ?b
        \<and> (\<forall>cancelled ec. read_dynbuf_v2_call ops cond cancelled ec (length bs) 0
              (op\<lparr>dy_buffers := op_fill ops (op_data_at ops b1 (op_size ops ?b) ?n) bs b1\<rparr>) =
              dyn_after cond (grow_next ops) cancelled ec bs b2 op)"
      by (intro exI [of _ b2]) (simp add: read_dynbuf_v2_call_def dyn_after_def Let_def)
  qed (simp_all add: grow_next_def Let_def grow)
qed

lemma async_read_v2_appends:
  assumes "ok b" and "op_max_size ops b < size_max"
  shows "\<exists>b' received result. async_read_v2 ops cond b ds = Inr (b', received, result)
    \<and> (\<forall>ec n. result = Some (ec, n) \<longrightarrow>
        ok b' \<and> contents b' = contents b @ received \<and> n = length received)"
  using dyn_run_appends [OF round_v2, of "\<lparr>dy_buffers = b, dy_start = 1, dy_total_transferred = 0,
      dy_bytes_available = bytes_available ops cond NoError 0 b\<rparr>" cond ds] assms available_room
  by (simp add: async_read_v2_def read_dynbuf_v2_call_def new_read_dynbuf_op_def)

text \<open>The synchronous read: it returns, because the stream delivers finitely often.\<close>

lemma read_v2_loop_returns:
  assumes "ok b" and "op_max_size ops b < size_max" and "available = bytes_available ops transfer_all ec n b"
  shows "\<exists>b' rs' new ec'. read_v2_loop script_read ops transfer_all b n available ec (rs, log) =
      Some (Inr (b', (rs', log @ new), n + length new, ec'))
    \<and> ok b' \<and> contents b' = contents b @ new
    \<and> (ec' = NoError \<longrightarrow> length (contents b') = op_max_size ops b)"
  using assms
proof (induction rs arbitrary: b n available ec log)
  case Nil
  show ?case
  proof (cases "available = 0")
    case True
    with Nil available_full [of b n] show ?thesis
      by (subst read_v2_loop.simps) (cases "ec = NoError"; auto)
  next
    case False
    obtain b1 where b1: "op_grow ops available b = Inr b1"
        "bsize (op_data_at ops b1 (op_size ops b) available) = available"
      "\<forall>bs. length bs \<le> available \<longrightarrow> (\<exists>b2.
        op_shrink ops (available - length bs) (op_fill ops (op_data_at ops b1 (op_size ops b) available) bs b1) = Inr b2
        \<and> ok b2 \<and> contents b2 = contents b @ bs \<and> op_max_size ops b2 = op_max_size ops b)"
      using grow_shrink [OF Nil(1), of available] Nil available_room available_fits by metis
    from b1(3) [rule_format, of "[]"] obtain b2 where b2:
      "op_shrink ops available (op_fill ops (op_data_at ops b1 (op_size ops b) available) [] b1) = Inr b2"
      "ok b2" "contents b2 = contents b"
      by auto
    have "read_v2_loop script_read ops transfer_all b n available ec ([], log) =
        Some (Inr (b2, ([], log), n, EndOfFile))"
      using False b1(1,2) b2(1)
      by (subst read_v2_loop.simps) (simp add: Let_def, subst read_v2_loop.simps, simp add: available_error)
    with b2 show ?thesis by auto
  qed
next
  case (Cons r rs)
  obtain bs0 ec0 where r: "r = (bs0, ec0)" by (cases r)
  show ?case
  proof (cases "available = 0")
    case True
    with Cons.prems available_full [of b n] show ?thesis
      by (subst read_v2_loop.simps) (cases "ec = NoError"; auto)
  next
    case False
    define bs where "bs = take available bs0"
    obtain b1 where b1: "op_grow ops available b = Inr b1"
        "bsize (op_data_at ops b1 (op_size ops b) available) = available"
      "\<forall>bs. length bs \<le> available \<longrightarrow> (\<exists>b2.
        op_shrink ops (available - length bs) (op_fill ops (op_data_at ops b1 (op_size ops b) available) bs b1) = Inr b2
        \<and> ok b2 \<and> contents b2 = contents b @ bs \<and> op_max_size ops b2 = op_max_size ops b)"
      using grow_shrink [OF Cons.prems(1), of available] Cons.prems available_room available_fits by metis
    have script: "script_read (r # rs, log) available = ((rs, log @ bs), bs, ec0)"
      by (simp add: r bs_def)
    have "length bs \<le> available" by (simp add: bs_def)
    with b1(3) obtain b2 where b2:
      "op_shrink ops (available - length bs) (op_fill ops (op_data_at ops b1 (op_size ops b) available) bs b1) = Inr b2"
      "ok b2" "contents b2 = contents b @ bs" "op_max_size ops b2 = op_max_size ops b"
      by blast
    have "read_v2_loop script_read ops transfer_all b n available ec (r # rs, log) =
        read_v2_loop script_read ops transfer_all b2 (n + length bs)
          (bytes_available ops transfer_all ec0 (n + length bs) b2) ec0 (rs, log @ bs)"
      using False b1(1,2) b2(1) script by (subst read_v2_loop.simps) (simp add: Let_def del: script_read.simps)
    moreover note Cons.IH [OF b2(2) _ refl, of "n + length bs" ec0 "log @ bs"]
    ultimately show ?thesis
      using b2 Cons.prems(2) by (fastforce simp: add.assoc)
  qed
qed

end

context dynamic_v1
begin

lemma round_v1: "dyn_round cond (prepare_next ops) (read_dynbuf_v1_call ops cond)"
  unfolding dyn_round_def
proof (intro allI impI; elim conjE)
  fix op :: "'a read_dynbuf_op"
  assume op: "ok (dy_buffers op)" "op_max_size ops (dy_buffers op) < size_max"
    "dy_bytes_available op \<le> op_max_size ops (dy_buffers op) - op_size ops (dy_buffers op)"
  let ?b = "dy_buffers op" and ?n = "dy_bytes_available op"
  have "op_size ops ?b + ?n < size_max"
    using size_contents [OF op(1)] size_max_size [OF op(1)] op(2,3) by linarith
  then obtain b1 buf where prepare: "op_prepare ops ?n ?b = Inr (b1, buf)" "bsize buf = ?n"
    and fill: "\<forall>bs. length bs \<le> ?n \<longrightarrow> (\<exists>b2. op_commit ops (length bs) (op_fill ops buf bs b1) = Inr b2
        \<and> ok b2 \<and> contents b2 = contents ?b @ bs \<and> op_max_size ops b2 = op_max_size ops ?b)"
    using prepare_commit [OF op(1,3)] by blast
  show "\<exists>b1 buf. prepare_next ops op = Inr (op\<lparr>dy_buffers := b1\<rparr>, ReadSome buf) \<and> bsize buf = ?n
      \<and> (\<forall>bs. length bs \<le> ?n \<longrightarrow> (\<exists>b2. ok b2 \<and> contents b2 = contents ?b @ bs
            \<and> op_max_size ops b2 = op_max_size ops ?b
            \<and> (\<forall>cancelled ec. read_dynbuf_v1_call ops cond cancelled ec (length bs) 0
                  (op\<lparr>dy_buffers := op_fill ops buf bs b1\<rparr>) =
                  dyn_after cond (prepare_next ops) cancelled ec bs b2 op)))"
  proof (rule exI [of _ b1], rule exI [of _ buf], intro conjI allI impI)
    fix bs :: bytes assume "length bs \<le> ?n"
    with fill obtain b2 where b2: "op_commit ops (length bs) (op_fill ops buf bs b1) = Inr b2"
        "ok b2" "contents b2 = contents ?b @ bs" "op_max_size ops b2 = op_max_size ops ?b"
      by blast
    then show "\<exists>b2. ok b2 \<and> contents b2 = contents ?b @ bs \<and> op_max_size ops b2 = op_max_size ops ?b
        \<and> (\<forall>cancelled ec. read_dynbuf_v1_call ops cond cancelled ec (length bs) 0
              (op\<lparr>dy_buffers := op_fill ops buf bs b1\<rparr>) =
              dyn_after cond (prepare_next ops) cancelled ec bs b2 op)"
      by (intro exI [of _ b2]) (simp add: read_dynbuf_v1_call_def dyn_after_def Let_def)
  qed (simp_all add: prepare_next_def prepare)
qed

lemma async_read_v1_appends:
  assumes "ok b" and "op_max_size ops b < size_max"
  shows "\<exists>b' received result. async_read_v1 ops cond b ds = Inr (b', received, result)
    \<and> (\<forall>ec n. result = Some (ec, n) \<longrightarrow>
        ok b' \<and> contents b' = contents b @ received \<and> n = length received)"
  using dyn_run_appends [OF round_v1, of "\<lparr>dy_buffers = b, dy_start = 1, dy_total_transferred = 0,
      dy_bytes_available = bytes_available ops cond NoError 0 b\<rparr>" cond ds] assms available_room
  by (simp add: async_read_v1_def read_dynbuf_v1_call_def new_read_dynbuf_op_def)

end

section \<open>Properties\<close>

text \<open>What an asynchronous read into a dynamic buffer promises.\<close>

definition appends_received ::
    "'b dynamic_ops \<Rightarrow> ('b \<Rightarrow> bytes) \<Rightarrow> 'b \<Rightarrow> fault + ('b \<times> bytes \<times> (ecode \<times> nat) option) \<Rightarrow> bool" where
  "appends_received ops contents b outcome \<longleftrightarrow>
     (case outcome of
        Inl e \<Rightarrow> False
      | Inr (b', received, result) \<Rightarrow>
          (case result of
             None \<Rightarrow> True
           | Some (ec, n) \<Rightarrow> contents b' = contents b @ received \<and> n = length received
               \<and> length (contents b') \<le> op_max_size ops b'))"

text \<open>
  An asynchronous read into a string or a vector, in either version of the interface,
  never throws, and when it calls its handler the container holds what it held before followed by
  exactly the bytes that arrived, whose number the handler gets; the container never exceeds its
  maximum. (The maximum is one the machine can represent, not the default for no limit.)
\<close>

theorem async_dynamic_read_appends:
  assumes "ds_max_size d < size_max" and "dv_max_size v < size_max"
  shows "(ds_ok d \<longrightarrow> appends_received (string_ops policy) (\<lambda>d. elems (ds_string d)) d
           (async_read_v2 (string_ops policy) cond d ds))
    \<and> (ds_ok_v1 d \<longrightarrow> appends_received (string_ops policy) (\<lambda>d. elems (ds_string d)) d
           (async_read_v1 (string_ops policy) cond d ds))
    \<and> (dv_ok v \<longrightarrow> appends_received (vector_ops policy) (\<lambda>d. elems (dv_vector d)) v
           (async_read_v2 (vector_ops policy) cond v ds))
    \<and> (dv_ok_v1 v \<longrightarrow> appends_received (vector_ops policy) (\<lambda>d. elems (dv_vector d)) v
           (async_read_v1 (vector_ops policy) cond v ds))"
proof (intro conjI impI)
  have mx: "op_max_size (string_ops policy) d < size_max" "op_max_size (vector_ops policy) v < size_max"
    using assms by (simp_all add: string_ops_def vector_ops_def)
  show "appends_received (string_ops policy) (\<lambda>d. elems (ds_string d)) d
      (async_read_v2 (string_ops policy) cond d ds)" if "ds_ok d"
    using string_v2.async_read_v2_appends [OF that, of policy cond ds] mx string_v2.size_max_size
    by (fastforce simp: appends_received_def split: option.splits)
  show "appends_received (string_ops policy) (\<lambda>d. elems (ds_string d)) d
      (async_read_v1 (string_ops policy) cond d ds)" if "ds_ok_v1 d"
    using string_v1.async_read_v1_appends [OF that, of policy cond ds] mx string_v1.size_max_size
    by (fastforce simp: appends_received_def split: option.splits)
  show "appends_received (vector_ops policy) (\<lambda>d. elems (dv_vector d)) v
      (async_read_v2 (vector_ops policy) cond v ds)" if "dv_ok v"
    using vector_v2.async_read_v2_appends [OF that, of policy cond ds] mx vector_v2.size_max_size
    by (fastforce simp: appends_received_def split: option.splits)
  show "appends_received (vector_ops policy) (\<lambda>d. elems (dv_vector d)) v
      (async_read_v1 (vector_ops policy) cond v ds)" if "dv_ok_v1 v"
    using vector_v1.async_read_v1_appends [OF that, of policy cond ds] mx vector_v1.size_max_size
    by (fastforce simp: appends_received_def split: option.splits)
qed

text \<open>
  The synchronous read into a string with \<^verbatim>\<open>transfer_all\<close>, from a stream that delivers
  finitely many pieces before its end of file or an error, returns without an exception; the string
  holds what it held before and the bytes that were taken off the stream; without an error it is
  full.
\<close>

theorem sync_dynamic_read_returns:
  assumes "ds_ok d" and "ds_max_size d < size_max"
  shows "\<exists>d' rest received ec. read_v2_all script_read (string_ops policy) d (script, []) =
      Some (Inr (d', (rest, received), length received, ec))
    \<and> elems (ds_string d') = elems (ds_string d) @ received
    \<and> (ec = NoError \<longrightarrow> length (elems (ds_string d')) = ds_max_size d)"
  using string_v2.read_v2_loop_returns [OF assms(1) _ refl, of policy 0 NoError script "[]"] assms(2)
  by (auto simp: read_v2_all_def read_v2_def string_ops_def)

section \<open>Witnesses\<close>

definition hello :: dynamic_string_buffer where
  "hello = dynamic_string \<lparr>elems = [104, 105], elems_capacity = 15\<rparr> 100"

theorem sync_dynamic_read_returns_witness:
  "\<exists>d' rest received ec. read_v2_all script_read (string_ops (\<lambda>c n. 2 * c)) hello ([([33], NoError)], []) =
      Some (Inr (d', (rest, received), length received, ec))
    \<and> elems (ds_string d') = [104, 105] @ received"
  using sync_dynamic_read_returns [of hello "\<lambda>c n. 2 * c" "[([33], NoError)]"]
  by (fastforce simp: hello_def dynamic_string_def ds_ok_def container_ok_def size_max_def)

theorem async_dynamic_read_appends_witness:
  "appends_received (string_ops (\<lambda>c n. 2 * c)) (\<lambda>d. elems (ds_string d)) hello
     (async_read_v2 (string_ops (\<lambda>c n. 2 * c)) transfer_all hello [([33], NoError, False), ([], EndOfFile, False)])"
  by (rule async_dynamic_read_appends [of hello "dynamic_vector \<lparr>elems = [], elems_capacity = 0\<rparr> 0",
        THEN conjunct1, THEN mp])
    (simp_all add: hello_def dynamic_string_def dynamic_vector_def ds_ok_def container_ok_def size_max_def)

end
