(* ===== verification/Scheduler.thy ===== *)
theory Scheduler
  imports Prelude "HOL-Library.Multiset"
begin

unbundle bit_operations_syntax

text \<open>
  \<^verbatim>\<open>asio/detail/scheduler.hpp\<close> and \<^verbatim>\<open>impl/scheduler.ipp\<close>: the event loop behind \<^verbatim>\<open>io_context\<close>, in which
  the handlers of the chat run. Threads inside \<^verbatim>\<open>run\<close> and its variants take operations off a queue
  under a mutex and complete them outside it; one of the entries of the queue stands for the task
  (the reactor), which at most one thread runs at a time.

  A thread's program counter is where it is outside the mutex; a definition below is what happens
  from there to the next such place, so the steps of \<open>SchedulerInvariant\<close> are the interleavings of
  the critical sections; an update of the atomic count of work belongs to the critical section that
  follows it. The operations in a queue are a list (\<open>OpQueue\<close> shows that the linked queue
  is one). The locking mode is assumed (\<^verbatim>\<open>mutex_.enabled_\<close>), handlers and the task do not throw, and
  a handler does not call \<^verbatim>\<open>run\<close> itself.
\<close>

section \<open>The state\<close>

datatype operation = TaskOperation | Operation nat

text \<open>Which function the thread is in, and where.\<close>

datatype run_mode = Run | RunOne | WaitOne | Poll | PollOne

datatype pc =
    Outside                   \<comment> \<open>in none of them\<close>
  | AtLoop                    \<comment> \<open>about to enter, with the mutex, \<^verbatim>\<open>do_run_one\<close>, \<^verbatim>\<open>do_wait_one\<close>, \<^verbatim>\<open>do_poll_one\<close>\<close>
  | Waiting bool              \<comment> \<open>in \<^verbatim>\<open>pthread_cond_wait\<close>; whether it has been signalled\<close>
  | WaitingTimed bool         \<comment> \<open>in \<^verbatim>\<open>pthread_cond_timedwait\<close>\<close>
  | InTask                    \<comment> \<open>in \<^verbatim>\<open>task_->run\<close>\<close>
  | InOp nat                  \<comment> \<open>in \<^verbatim>\<open>o->complete\<close>\<close>
  | Cleanup                   \<comment> \<open>in the destructor of \<^verbatim>\<open>work_cleanup\<close>, before its lock\<close>

record thread_info =
  mode :: run_mode
  pc :: pc
  done_count :: nat
  private_work :: int
  private_queue :: "nat list"

text \<open>
  \<open>signalled\<close> and \<open>waiters\<close> are the two parts of the event's \<^verbatim>\<open>state_\<close>; \<open>interrupts\<close> counts the calls
  of \<^verbatim>\<open>task_->interrupt\<close>, \<open>completed\<close> lists the operations completed, in order.
\<close>

record scheduler =
  one_thread :: bool
  task :: bool
  task_interrupted :: bool
  outstanding_work :: int
  op_queue :: "operation list"
  stopped :: bool
  shut_down :: bool
  concurrency_hint :: "32 word"
  own_thread :: bool
  signalled :: bool
  waiters :: nat
  interrupts :: nat
  completed :: "nat list"
  threads :: "thread_info list"

definition new_thread :: thread_info where
  "new_thread = \<lparr>mode = Run, pc = Outside, done_count = 0, private_work = 0, private_queue = []\<rparr>"

text \<open>\<^verbatim>\<open>ASIO_CONCURRENCY_HINT_IS_LOCKING\<close> for the facilities \<^verbatim>\<open>SCHEDULER\<close> (1) and \<^verbatim>\<open>REACTOR_IO\<close> (4).\<close>

definition hint_is_locking :: "32 word \<Rightarrow> 32 word \<Rightarrow> bool" where
  "hint_is_locking facility hint \<longleftrightarrow>
     ((hint AND (0xFFFF0000 OR facility)) XOR 0xA5100000) \<noteq> 0"

definition new_scheduler :: "32 word \<Rightarrow> bool \<Rightarrow> nat \<Rightarrow> scheduler" where
  "new_scheduler hint own n =
     \<lparr>one_thread = (hint = 1 \<or> \<not> hint_is_locking 1 hint \<or> \<not> hint_is_locking 4 hint),
      task = False, task_interrupted = True, outstanding_work = (if own then 1 else 0),
      op_queue = [], stopped = False, shut_down = False, concurrency_hint = hint, own_thread = own,
      signalled = False, waiters = 0, interrupts = 0, completed = [],
      threads = replicate n new_thread\<rparr>"

definition update_thread :: "nat \<Rightarrow> (thread_info \<Rightarrow> thread_info) \<Rightarrow> scheduler \<Rightarrow> scheduler" where
  "update_thread t f s = s\<lparr>threads := (threads s)[t := f (threads s ! t)]\<rparr>"

definition set_pc :: "nat \<Rightarrow> pc \<Rightarrow> scheduler \<Rightarrow> scheduler" where
  "set_pc t p s = update_thread t (\<lambda>th. th\<lparr>pc := p\<rparr>) s"

section \<open>The event\<close>

text \<open>A broadcast reaches every thread in a wait.\<close>

fun notify :: "pc \<Rightarrow> pc" where
  "notify (Waiting b) = Waiting True"
| "notify (WaitingTimed b) = WaitingTimed True"
| "notify p = p"

fun unnotified :: "pc \<Rightarrow> bool" where
  "unnotified (Waiting b) \<longleftrightarrow> \<not> b"
| "unnotified (WaitingTimed b) \<longleftrightarrow> \<not> b"
| "unnotified p \<longleftrightarrow> False"

definition event_signal_all :: "scheduler \<Rightarrow> scheduler" where
  "event_signal_all s = s\<lparr>signalled := True,
     threads := map (\<lambda>th. th\<lparr>pc := notify (pc th)\<rparr>) (threads s)\<rparr>"

text \<open>\<^verbatim>\<open>pthread_cond_signal\<close> wakes one of the threads waiting; \<open>pick\<close> says which.\<close>

definition cond_signal :: "nat \<Rightarrow> scheduler \<Rightarrow> scheduler" where
  "cond_signal pick s =
     (let candidates = filter (\<lambda>t. unnotified (pc (threads s ! t))) [0 ..< length (threads s)]
      in if candidates = [] then s
         else update_thread (candidates ! (pick mod length candidates)) (\<lambda>th. th\<lparr>pc := notify (pc th)\<rparr>) s)"

definition event_unlock_and_signal_one :: "nat \<Rightarrow> scheduler \<Rightarrow> scheduler" where
  "event_unlock_and_signal_one pick s =
     (let s = s\<lparr>signalled := True\<rparr>;
          have_waiters = (waiters s > 0)
      in if have_waiters then cond_signal pick s else s)"

definition event_maybe_unlock_and_signal_one :: "nat \<Rightarrow> scheduler \<Rightarrow> scheduler \<times> bool" where
  "event_maybe_unlock_and_signal_one pick s =
     (let s = s\<lparr>signalled := True\<rparr>
      in if waiters s > 0 then (cond_signal pick s, True) else (s, False))"

definition event_clear :: "scheduler \<Rightarrow> scheduler" where
  "event_clear s = s\<lparr>signalled := False\<rparr>"

text \<open>
  A pass of the loop in \<^verbatim>\<open>wait\<close> on an event that is not signalled; the timed wait waits at most once.
\<close>

definition event_wait :: "nat \<Rightarrow> scheduler \<Rightarrow> scheduler" where
  "event_wait t s = set_pc t (Waiting False) (s\<lparr>waiters := waiters s + 1\<rparr>)"

definition event_wait_for_usec :: "nat \<Rightarrow> scheduler \<Rightarrow> scheduler" where
  "event_wait_for_usec t s = set_pc t (WaitingTimed False) (s\<lparr>waiters := waiters s + 1\<rparr>)"

section \<open>Stopping and waking\<close>

definition interrupt_task :: "scheduler \<Rightarrow> scheduler" where
  "interrupt_task s =
     (if \<not> task_interrupted s \<and> task s
      then s\<lparr>task_interrupted := True, interrupts := interrupts s + 1\<rparr> else s)"

definition stop_all_threads :: "scheduler \<Rightarrow> scheduler" where
  "stop_all_threads s = interrupt_task (event_signal_all (s\<lparr>stopped := True\<rparr>))"

definition wake_one_thread_and_unlock :: "nat \<Rightarrow> scheduler \<Rightarrow> scheduler" where
  "wake_one_thread_and_unlock pick s =
     (case event_maybe_unlock_and_signal_one pick s of
        (s, woken) \<Rightarrow> if \<not> woken then interrupt_task s else s)"

definition stop :: "scheduler \<Rightarrow> scheduler" where
  "stop s = stop_all_threads s"

definition restart :: "scheduler \<Rightarrow> scheduler" where
  "restart s = s\<lparr>stopped := False\<rparr>"

definition work_started :: "scheduler \<Rightarrow> scheduler" where
  "work_started s = s\<lparr>outstanding_work := outstanding_work s + 1\<rparr>"

definition work_finished :: "scheduler \<Rightarrow> scheduler" where
  "work_finished s =
     (let s = s\<lparr>outstanding_work := outstanding_work s - 1\<rparr>
      in if outstanding_work s = 0 then stop s else s)"

definition init_task :: "nat \<Rightarrow> scheduler \<Rightarrow> scheduler" where
  "init_task pick s =
     (if \<not> shut_down s \<and> \<not> task s then
        wake_one_thread_and_unlock pick (s\<lparr>task := True, op_queue := op_queue s @ [TaskOperation]\<rparr>)
      else s)"

text \<open>
  \<^verbatim>\<open>shutdown\<close> after the scheduler's own thread has ended: the operations destroyed, in order.
\<close>

definition shutdown :: "scheduler \<Rightarrow> scheduler \<times> nat list" where
  "shutdown s =
     (let s = s\<lparr>shut_down := True\<rparr>;
          s = (if own_thread s then stop_all_threads s else s);
          s = s\<lparr>own_thread := False\<rparr>;
          destroyed = concat (map (\<lambda>x. case x of TaskOperation \<Rightarrow> [] | Operation op \<Rightarrow> [op]) (op_queue s))
      in (s\<lparr>op_queue := [], task := False\<rparr>, destroyed))"

section \<open>Posting\<close>

text \<open>
  \<open>caller\<close> is the thread inside the scheduler that calls, \<^verbatim>\<open>thread_call_stack::contains(this)\<close>.
\<close>

definition add_private :: "int \<Rightarrow> nat list \<Rightarrow> nat \<Rightarrow> scheduler \<Rightarrow> scheduler" where
  "add_private w ops t s =
     update_thread t (\<lambda>th. th\<lparr>private_work := private_work th + w, private_queue := private_queue th @ ops\<rparr>) s"

definition post_immediate_completion ::
    "nat \<Rightarrow> nat option \<Rightarrow> nat \<Rightarrow> bool \<Rightarrow> scheduler \<Rightarrow> scheduler" where
  "post_immediate_completion pick caller op is_continuation s =
     (case (one_thread s \<or> is_continuation, caller) of
        (True, Some t) \<Rightarrow> add_private 1 [op] t s
      | _ \<Rightarrow>
          let s = work_started s
          in wake_one_thread_and_unlock pick (s\<lparr>op_queue := op_queue s @ [Operation op]\<rparr>))"

definition post_immediate_completions ::
    "nat \<Rightarrow> nat option \<Rightarrow> nat \<Rightarrow> nat list \<Rightarrow> bool \<Rightarrow> scheduler \<Rightarrow> scheduler" where
  "post_immediate_completions pick caller n ops is_continuation s =
     (case (one_thread s \<or> is_continuation, caller) of
        (True, Some t) \<Rightarrow> add_private (int n) ops t s
      | _ \<Rightarrow>
          let s = s\<lparr>outstanding_work := outstanding_work s + int n\<rparr>
          in wake_one_thread_and_unlock pick (s\<lparr>op_queue := op_queue s @ map Operation ops\<rparr>))"

definition post_deferred_completion :: "nat \<Rightarrow> nat option \<Rightarrow> nat \<Rightarrow> scheduler \<Rightarrow> scheduler" where
  "post_deferred_completion pick caller op s =
     (case (one_thread s, caller) of
        (True, Some t) \<Rightarrow> add_private 0 [op] t s
      | _ \<Rightarrow> wake_one_thread_and_unlock pick (s\<lparr>op_queue := op_queue s @ [Operation op]\<rparr>))"

definition post_deferred_completions :: "nat \<Rightarrow> nat option \<Rightarrow> nat list \<Rightarrow> scheduler \<Rightarrow> scheduler" where
  "post_deferred_completions pick caller ops s =
     (if ops \<noteq> [] then
        case (one_thread s, caller) of
          (True, Some t) \<Rightarrow> add_private 0 ops t s
        | _ \<Rightarrow> wake_one_thread_and_unlock pick (s\<lparr>op_queue := op_queue s @ map Operation ops\<rparr>)
      else s)"

definition do_dispatch :: "nat \<Rightarrow> nat \<Rightarrow> scheduler \<Rightarrow> scheduler" where
  "do_dispatch pick op s =
     (let s = work_started s
      in wake_one_thread_and_unlock pick (s\<lparr>op_queue := op_queue s @ [Operation op]\<rparr>))"

definition compensating_work_started :: "nat \<Rightarrow> scheduler \<Rightarrow> scheduler" where
  "compensating_work_started t s = add_private 1 [] t s"

definition can_dispatch :: "nat option \<Rightarrow> bool" where
  "can_dispatch caller \<longleftrightarrow> caller \<noteq> None"

text \<open>The operations given are destroyed with the local queue they are moved to.\<close>

definition abandon_operations :: "nat list \<Rightarrow> scheduler \<Rightarrow> scheduler \<times> nat list" where
  "abandon_operations ops s = (s, ops)"

section \<open>The loops\<close>

text \<open>An operation taken off the queue is completed; the task taken off the queue is run.\<close>

definition start_op :: "nat \<Rightarrow> nat \<Rightarrow> operation list \<Rightarrow> nat \<Rightarrow> scheduler \<Rightarrow> scheduler" where
  "start_op pick op rest t s =
     (let s = s\<lparr>op_queue := rest\<rparr>;
          more_handlers = (op_queue s \<noteq> []);
          s = (if more_handlers \<and> \<not> one_thread s then wake_one_thread_and_unlock pick s else s)
      in set_pc t (InOp op) (s\<lparr>completed := completed s @ [op]\<rparr>))"

definition start_task :: "nat \<Rightarrow> operation list \<Rightarrow> nat \<Rightarrow> scheduler \<Rightarrow> scheduler" where
  "start_task pick rest t s =
     (let s = s\<lparr>op_queue := rest\<rparr>;
          more_handlers = (op_queue s \<noteq> []);
          s = s\<lparr>task_interrupted := more_handlers\<rparr>;
          s = (if more_handlers \<and> \<not> one_thread s then event_unlock_and_signal_one pick s else s)
      in set_pc t InTask s)"

definition do_run_one :: "nat \<Rightarrow> nat \<Rightarrow> scheduler \<Rightarrow> scheduler" where
  "do_run_one pick t s =
     (if \<not> stopped s then
        case op_queue s of
          TaskOperation # rest \<Rightarrow> start_task pick rest t s
        | Operation op # rest \<Rightarrow> start_op pick op rest t s
        | [] \<Rightarrow> event_wait t (event_clear s)
      else set_pc t Outside s)"

text \<open>
  After \<^verbatim>\<open>pthread_cond_wait\<close>, with the lock: \<^verbatim>\<open>wait\<close> waits again unless the event is signalled; then the
  loop of \<^verbatim>\<open>do_run_one\<close> goes on.
\<close>

definition event_wakeup :: "nat \<Rightarrow> nat \<Rightarrow> scheduler \<Rightarrow> scheduler" where
  "event_wakeup pick t s =
     (let s = set_pc t AtLoop (s\<lparr>waiters := waiters s - 1\<rparr>)
      in if \<not> signalled s then event_wait t s else do_run_one pick t s)"

definition do_wait_one_front :: "nat \<Rightarrow> nat \<Rightarrow> scheduler \<Rightarrow> scheduler" where
  "do_wait_one_front pick t s =
     (case op_queue s of
        TaskOperation # rest \<Rightarrow> start_task pick rest t s
      | Operation op # rest \<Rightarrow> start_op pick op rest t s
      | [] \<Rightarrow> set_pc t Outside s)"

definition do_wait_one :: "nat \<Rightarrow> nat \<Rightarrow> scheduler \<Rightarrow> scheduler" where
  "do_wait_one pick t s =
     (if stopped s then set_pc t Outside s
      else if op_queue s = [] then event_wait_for_usec t (event_clear s)
      else do_wait_one_front pick t s)"

definition do_wait_one_wakeup :: "nat \<Rightarrow> nat \<Rightarrow> scheduler \<Rightarrow> scheduler" where
  "do_wait_one_wakeup pick t s = do_wait_one_front pick t (set_pc t AtLoop (s\<lparr>waiters := waiters s - 1\<rparr>))"

text \<open>The poll does not note whether more handlers are ready: it never blocks in the task.\<close>

definition do_poll_one :: "nat \<Rightarrow> nat \<Rightarrow> scheduler \<Rightarrow> scheduler" where
  "do_poll_one pick t s =
     (if stopped s then set_pc t Outside s
      else case op_queue s of
             TaskOperation # rest \<Rightarrow> set_pc t InTask (s\<lparr>op_queue := rest\<rparr>)
           | Operation op # rest \<Rightarrow> start_op pick op rest t s
           | [] \<Rightarrow> set_pc t Outside s)"

definition do_one :: "nat \<Rightarrow> nat \<Rightarrow> scheduler \<Rightarrow> scheduler" where
  "do_one pick t s =
     (case mode (threads s ! t) of
        Run \<Rightarrow> do_run_one pick t s
      | RunOne \<Rightarrow> do_run_one pick t s
      | WaitOne \<Rightarrow> do_wait_one pick t s
      | Poll \<Rightarrow> do_poll_one pick t s
      | PollOne \<Rightarrow> do_poll_one pick t s)"

text \<open>\<^verbatim>\<open>~task_cleanup\<close>, and what each loop does after the task has run.\<close>

definition task_cleanup :: "nat \<Rightarrow> scheduler \<Rightarrow> scheduler" where
  "task_cleanup t s =
     (let th = threads s ! t;
          s = (if private_work th > 0 then s\<lparr>outstanding_work := outstanding_work s + private_work th\<rparr> else s);
          s = s\<lparr>task_interrupted := True\<rparr>;
          s = s\<lparr>op_queue := op_queue s @ map Operation (private_queue th)\<rparr>;
          s = s\<lparr>op_queue := op_queue s @ [TaskOperation]\<rparr>
      in update_thread t (\<lambda>th. th\<lparr>pc := AtLoop, private_work := 0, private_queue := []\<rparr>) s)"

definition after_task :: "bool \<Rightarrow> nat \<Rightarrow> nat \<Rightarrow> scheduler \<Rightarrow> scheduler" where
  "after_task may_signal pick t s =
     (case op_queue s of
        TaskOperation # rest \<Rightarrow>
          set_pc t Outside (if may_signal then fst (event_maybe_unlock_and_signal_one pick s) else s)
      | Operation op # rest \<Rightarrow> start_op pick op rest t s
      | [] \<Rightarrow> set_pc t Outside s)"

definition task_returns :: "nat \<Rightarrow> nat \<Rightarrow> scheduler \<Rightarrow> scheduler" where
  "task_returns pick t s =
     (let m = mode (threads s ! t);
          s = task_cleanup t s
      in case m of
           Run \<Rightarrow> do_run_one pick t s
         | RunOne \<Rightarrow> do_run_one pick t s
         | WaitOne \<Rightarrow> after_task (\<not> one_thread s) pick t s
         | Poll \<Rightarrow> after_task True pick t s
         | PollOne \<Rightarrow> after_task True pick t s)"

text \<open>
  \<^verbatim>\<open>~work_cleanup\<close>: the count first, then, under the lock, the operations. \<^verbatim>\<open>run\<close> and \<^verbatim>\<open>poll\<close> go on with
  the lock if it is held, and lock it otherwise.
\<close>

definition work_cleanup_count :: "nat \<Rightarrow> scheduler \<Rightarrow> scheduler" where
  "work_cleanup_count t s =
     (let w = private_work (threads s ! t);
          s = (if w > 1 then s\<lparr>outstanding_work := outstanding_work s + (w - 1)\<rparr>
               else if w < 1 then work_finished s
               else s)
      in update_thread t (\<lambda>th. th\<lparr>private_work := 0, pc := Cleanup\<rparr>) s)"

definition work_cleanup_queue :: "nat \<Rightarrow> nat \<Rightarrow> scheduler \<Rightarrow> scheduler" where
  "work_cleanup_queue pick t s =
     (let th = threads s ! t;
          n = (if done_count th \<noteq> 2 ^ 64 - 1 then done_count th + 1 else done_count th);
          loops = (mode th = Run \<or> mode th = Poll);
          s = update_thread t (\<lambda>th. th\<lparr>pc := AtLoop, private_queue := [], done_count := n\<rparr>) s
      in if private_queue th \<noteq> [] then
           let s = s\<lparr>op_queue := op_queue s @ map Operation (private_queue th)\<rparr>
           in if loops then do_one pick t s else set_pc t Outside s
         else set_pc t (if loops then AtLoop else Outside) s)"

text \<open>The entry points: without outstanding work they stop the scheduler and return.\<close>

definition enter :: "run_mode \<Rightarrow> nat \<Rightarrow> scheduler \<Rightarrow> scheduler" where
  "enter m t s =
     (if outstanding_work s = 0 then stop (update_thread t (\<lambda>th. th\<lparr>done_count := 0\<rparr>) s)
      else update_thread t (\<lambda>th. \<lparr>mode = m, pc = AtLoop, done_count = 0, private_work = 0, private_queue = []\<rparr>) s)"

definition run :: "nat \<Rightarrow> scheduler \<Rightarrow> scheduler" where
  "run t s = enter Run t s"

definition run_one :: "nat \<Rightarrow> scheduler \<Rightarrow> scheduler" where
  "run_one t s = enter RunOne t s"

definition wait_one :: "nat \<Rightarrow> scheduler \<Rightarrow> scheduler" where
  "wait_one t s = enter WaitOne t s"

definition poll :: "nat \<Rightarrow> scheduler \<Rightarrow> scheduler" where
  "poll t s = enter Poll t s"

definition poll_one :: "nat \<Rightarrow> scheduler \<Rightarrow> scheduler" where
  "poll_one t s = enter PollOne t s"

end
