(* ===== verification/SchedulerInvariant.thy ===== *)
theory SchedulerInvariant
  imports Scheduler
begin

text \<open>
  The interleavings of the threads inside a scheduler with the posts, stops and restarts from outside
  it, and what they keep: every operation posted is in a queue or completed, once; one thread at most
  runs the task; the count of work is the work there is; in a scheduler whose threads call \<^verbatim>\<open>run\<close>
  alone, no wakeup is lost and every thread leaves when the work ends.
\<close>

section \<open>The steps\<close>

text \<open>
  \<open>pending\<close> counts the work outside the scheduler: the asynchronous operations that will be posted
  with \<^verbatim>\<open>post_deferred_completion\<close> or completed by the task, the work guards, and the work of the
  scheduler's own thread. \<open>posted\<close> collects the operations the scheduler was given.
\<close>

record world =
  sched :: scheduler
  pending :: nat
  posted :: "nat multiset"

definition new_world :: "32 word \<Rightarrow> bool \<Rightarrow> nat \<Rightarrow> world" where
  "new_world hint own n = \<lparr>sched = new_scheduler hint own n, pending = (if own then 1 else 0), posted = {#}\<rparr>"

definition at_pc :: "nat \<Rightarrow> scheduler \<Rightarrow> pc \<Rightarrow> bool" where
  "at_pc t s p \<longleftrightarrow> t < length (threads s) \<and> pc (threads s ! t) = p"

text \<open>A call comes from outside or from a handler.\<close>

definition calls :: "nat option \<Rightarrow> scheduler \<Rightarrow> bool" where
  "calls caller s \<longleftrightarrow> (\<forall>t. caller = Some t \<longrightarrow> (\<exists>op. at_pc t s (InOp op)))"

definition hand_over :: "nat list \<Rightarrow> nat \<Rightarrow> scheduler \<Rightarrow> world \<Rightarrow> world" where
  "hand_over ops p s w = \<lparr>sched = s, pending = p, posted = posted w + mset ops\<rparr>"

text \<open>\<open>M\<close> is the set of the functions the threads call.\<close>

inductive sched_step :: "run_mode set \<Rightarrow> world \<Rightarrow> world \<Rightarrow> bool" for M where
  step_enter: "\<lbrakk>m \<in> M; at_pc t (sched w) Outside\<rbrakk> \<Longrightarrow>
     sched_step M w (w\<lparr>sched := enter m t (sched w)\<rparr>)"
| step_one: "at_pc t (sched w) AtLoop \<Longrightarrow>
     sched_step M w (w\<lparr>sched := do_one pick t (sched w)\<rparr>)"
| step_wakeup: "at_pc t (sched w) (Waiting b) \<Longrightarrow>
     sched_step M w (w\<lparr>sched := event_wakeup pick t (sched w)\<rparr>)"
| step_timed_wakeup: "at_pc t (sched w) (WaitingTimed b) \<Longrightarrow>
     sched_step M w (w\<lparr>sched := do_wait_one_wakeup pick t (sched w)\<rparr>)"
| step_task_completes: "\<lbrakk>at_pc t (sched w) InTask; pending w > 0\<rbrakk> \<Longrightarrow>
     sched_step M w (hand_over [op] (pending w - 1) (add_private 0 [op] t (sched w)) w)"
| step_task_returns: "at_pc t (sched w) InTask \<Longrightarrow>
     sched_step M w (w\<lparr>sched := task_returns pick t (sched w)\<rparr>)"
| step_op_returns: "at_pc t (sched w) (InOp op) \<Longrightarrow>
     sched_step M w (w\<lparr>sched := work_cleanup_count t (sched w)\<rparr>)"
| step_cleanup: "at_pc t (sched w) Cleanup \<Longrightarrow>
     sched_step M w (w\<lparr>sched := work_cleanup_queue pick t (sched w)\<rparr>)"
| step_post: "calls caller (sched w) \<Longrightarrow>
     sched_step M w (hand_over [op] (pending w) (post_immediate_completion pick caller op cont (sched w)) w)"
| step_posts: "calls caller (sched w) \<Longrightarrow>
     sched_step M w (hand_over ops (pending w)
       (post_immediate_completions pick caller (length ops) ops cont (sched w)) w)"
| step_deferred: "\<lbrakk>calls caller (sched w); pending w > 0\<rbrakk> \<Longrightarrow>
     sched_step M w (hand_over [op] (pending w - 1) (post_deferred_completion pick caller op (sched w)) w)"
| step_deferreds: "\<lbrakk>calls caller (sched w); length ops \<le> pending w\<rbrakk> \<Longrightarrow>
     sched_step M w (hand_over ops (pending w - length ops)
       (post_deferred_completions pick caller ops (sched w)) w)"
| step_dispatch: "sched_step M w (hand_over [op] (pending w) (do_dispatch pick op (sched w)) w)"
| step_work: "sched_step M w (w\<lparr>sched := work_started (sched w), pending := pending w + 1\<rparr>)"
| step_work_ends: "pending w > 0 \<Longrightarrow>
     sched_step M w (w\<lparr>sched := work_finished (sched w), pending := pending w - 1\<rparr>)"
| step_stop: "sched_step M w (w\<lparr>sched := stop (sched w)\<rparr>)"
| step_restart: "\<forall>th \<in> set (threads (sched w)). pc th = Outside \<Longrightarrow>
     sched_step M w (w\<lparr>sched := restart (sched w)\<rparr>)"
| step_init: "sched_step M w (w\<lparr>sched := init_task pick (sched w)\<rparr>)"

definition sched_reach :: "run_mode set \<Rightarrow> 32 word \<Rightarrow> bool \<Rightarrow> nat \<Rightarrow> world \<Rightarrow> bool" where
  "sched_reach M hint own n w \<longleftrightarrow> (sched_step M)\<^sup>*\<^sup>* (new_world hint own n) w"

section \<open>What the wakeups leave as it is\<close>

definition still :: "thread_info \<Rightarrow> thread_info" where
  "still th = th\<lparr>pc := notify (pc th)\<rparr>"

lemma notify_notify [simp]: "notify (notify p) = notify p"
  by (cases p) auto

lemma still_still [simp]: "still (th\<lparr>pc := notify (pc th)\<rparr>) = still th"
  by (simp add: still_def)

text \<open>\<open>s'\<close> differs from \<open>s\<close> in what wakes and interrupts only.\<close>

definition nudge :: "scheduler \<Rightarrow> scheduler \<Rightarrow> bool" where
  "nudge s s' \<longleftrightarrow> map still (threads s') = map still (threads s) \<and> one_thread s' = one_thread s
     \<and> task s' = task s \<and> outstanding_work s' = outstanding_work s \<and> op_queue s' = op_queue s
     \<and> waiters s' = waiters s \<and> completed s' = completed s
     \<and> (task_interrupted s \<longrightarrow> task_interrupted s') \<and> (signalled s \<longrightarrow> signalled s')"

lemma nudge_refl [simp]: "nudge s s"
  by (simp add: nudge_def)

lemma nudge_trans: "nudge s s' \<Longrightarrow> nudge s' s'' \<Longrightarrow> nudge s s''"
  by (simp add: nudge_def)

lemma nudge_length: "nudge s s' \<Longrightarrow> length (threads s') = length (threads s)"
  by (metis nudge_def length_map)

lemma nudge_nth: "nudge s s' \<Longrightarrow> still (threads s' ! t) = still (threads s ! t)" if "t < length (threads s)"
proof -
  assume n: "nudge s s'"
  then have "map still (threads s') ! t = map still (threads s) ! t"
    by (simp add: nudge_def)
  then show ?thesis using that nudge_length [OF n] by simp
qed

lemma nudge_update:
  assumes "\<And>th. still (f th) = still th" and "t < length (threads s)"
  shows "nudge s (update_thread t f s)"
  using assms by (simp add: nudge_def update_thread_def map_update list_update_same_conv)

lemma nudge_cond_signal [simp]: "nudge s (cond_signal pick s)"
proof -
  let ?c = "filter (\<lambda>t. unnotified (pc (threads s ! t))) [0 ..< length (threads s)]"
  have "?c \<noteq> [] \<Longrightarrow> ?c ! (pick mod length ?c) \<in> set ?c"
    by (intro nth_mem) simp
  then have "?c \<noteq> [] \<Longrightarrow> ?c ! (pick mod length ?c) < length (threads s)"
    by simp
  then show ?thesis
    by (auto simp: cond_signal_def Let_def intro: nudge_update)
qed


lemma nudge_interrupt_task [simp]: "nudge s (interrupt_task s)"
  by (simp add: interrupt_task_def nudge_def)

lemma nudge_signal_all [simp]: "nudge s (event_signal_all s)"
  by (simp add: event_signal_all_def nudge_def)

lemma nudge_signalled: "nudge s (s\<lparr>signalled := True\<rparr>)"
  by (simp add: nudge_def)

lemma nudge_signal_one [simp]: "nudge s (event_unlock_and_signal_one pick s)"
  using nudge_trans [OF nudge_signalled nudge_cond_signal]
  by (simp add: event_unlock_and_signal_one_def Let_def nudge_signalled)

lemma nudge_maybe_signal_one [simp]: "nudge s (fst (event_maybe_unlock_and_signal_one pick s))"
  using nudge_trans [OF nudge_signalled nudge_cond_signal]
  by (simp add: event_maybe_unlock_and_signal_one_def Let_def nudge_signalled)

lemma nudge_wake_one [simp]: "nudge s (wake_one_thread_and_unlock pick s)"
proof (cases "event_maybe_unlock_and_signal_one pick s")
  case (Pair s' woken)
  then have "nudge s s'"
    by (metis fst_conv nudge_maybe_signal_one)
  then show ?thesis
    using Pair by (simp add: wake_one_thread_and_unlock_def nudge_trans [OF _ nudge_interrupt_task])
qed

lemma nudge_stopped: "nudge s (s\<lparr>stopped := True\<rparr>)"
  by (simp add: nudge_def)

lemma nudge_stop [simp]: "nudge s (stop s)"
  unfolding stop_def stop_all_threads_def
  by (rule nudge_trans [OF nudge_trans [OF nudge_stopped nudge_signal_all] nudge_interrupt_task])

section \<open>The invariant of the counts\<close>

definition queued :: "operation list \<Rightarrow> nat list" where
  "queued q = concat (map (\<lambda>x. case x of TaskOperation \<Rightarrow> [] | Operation op \<Rightarrow> [op]) q)"

definition tasks :: "operation list \<Rightarrow> nat" where
  "tasks q = length (filter (\<lambda>x. x = TaskOperation) q)"

lemma queued_simps [simp]: "queued [] = []" "queued (TaskOperation # q) = queued q"
  "queued (Operation op # q) = op # queued q" "queued (q @ r) = queued q @ queued r"
  by (simp_all add: queued_def)

lemma queued_map_Operation [simp]: "queued (map Operation ops) = ops"
  by (induction ops) auto

lemma tasks_simps [simp]: "tasks [] = 0" "tasks (TaskOperation # q) = Suc (tasks q)"
  "tasks (Operation op # q) = tasks q" "tasks (q @ r) = tasks q + tasks r"
  by (simp_all add: tasks_def)

lemma tasks_map_Operation [simp]: "tasks (map Operation ops) = 0"
  by (induction ops) auto

fun waiting :: "pc \<Rightarrow> bool" where
  "waiting (Waiting b) = True"
| "waiting (WaitingTimed b) = True"
| "waiting p = False"

fun in_op :: "pc \<Rightarrow> bool" where
  "in_op (InOp op) = True"
| "in_op p = False"

definition total_of :: "(thread_info \<Rightarrow> 'a::comm_monoid_add) \<Rightarrow> scheduler \<Rightarrow> 'a" where
  "total_of f s = sum_list (map f (threads s))"

definition thread_ok :: "thread_info \<Rightarrow> bool" where
  "thread_ok th \<longleftrightarrow> 0 \<le> private_work th \<and> private_work th \<le> int (length (private_queue th))
     \<and> (private_work th \<noteq> 0 \<longrightarrow> in_op (pc th))
     \<and> (private_queue th \<noteq> [] \<longrightarrow> in_op (pc th) \<or> pc th = InTask \<or> pc th = Cleanup)"

definition counted :: "scheduler \<Rightarrow> nat \<Rightarrow> nat multiset \<Rightarrow> bool" where
  "counted s p m \<longleftrightarrow>
     waiters s = total_of (\<lambda>th. of_bool (waiting (pc th))) s
     \<and> total_of (\<lambda>th. of_bool (pc th = InTask)) s + tasks (op_queue s) = of_bool (task s)
     \<and> mset (queued (op_queue s)) + total_of (\<lambda>th. mset (private_queue th)) s + mset (completed s) = m
     \<and> outstanding_work s + total_of private_work s
       = int p + int (length (queued (op_queue s)))
         + total_of (\<lambda>th. int (length (private_queue th)) + of_bool (in_op (pc th))) s
     \<and> (\<forall>th \<in> set (threads s). thread_ok th)"

lemma waiting_notify [simp]: "waiting (notify p) = waiting p"
  and in_op_notify [simp]: "in_op (notify p) = in_op p"
  and InTask_notify [simp]: "notify p = InTask \<longleftrightarrow> p = InTask"
  and Cleanup_notify [simp]: "notify p = Cleanup \<longleftrightarrow> p = Cleanup"
  by (cases p; simp)+

lemma still_views:
  "waiting (pc (still th)) = waiting (pc th)" "in_op (pc (still th)) = in_op (pc th)"
  "pc (still th) = InTask \<longleftrightarrow> pc th = InTask" "private_work (still th) = private_work th"
  "private_queue (still th) = private_queue th" "thread_ok (still th) = thread_ok th"
  by (simp_all add: still_def thread_ok_def)

lemma thread_ok_still: "still x = still y \<Longrightarrow> thread_ok x = thread_ok y"
  by (metis still_views(6))

lemma total_still:
  assumes "\<And>th. f (still th) = f th"
  shows "total_of f s = sum_list (map f (map still (threads s)))"
proof -
  have "map f (threads s) = map f (map still (threads s))"
    using assms by simp
  then show ?thesis by (simp only: total_of_def)
qed

lemma sum_list_swap:
  fixes f :: "'a \<Rightarrow> 'b::comm_monoid_add"
  assumes "t < length xs"
  shows "sum_list (map f (xs[t := x])) + f (xs ! t) = sum_list (map f xs) + f x"
  using assms by (induction xs arbitrary: t) (auto simp: ac_simps split: nat.splits)

text \<open>A step of the thread \<open>t\<close>: what the global counts gain is what the thread's own lose.\<close>

lemma total_step:
  fixes f :: "thread_info \<Rightarrow> 'b::comm_monoid_add"
  assumes "map still (threads s') = (map still (threads s))[t := still th']"
    and "t < length (threads s)" and f: "\<And>th. f (still th) = f th"
  shows "total_of f s' + f (threads s ! t) = total_of f s + f th'"
proof -
  have "f (map still (threads s) ! t) = f (threads s ! t)"
    using assms(2) f by simp
  then show ?thesis
    using sum_list_swap [of t "map still (threads s)" f "still th'"] assms(2)
    by (simp only: total_still [where f = f, OF f] assms(1) length_map f)
qed

lemma counted_step:
  assumes inv: "counted s p m" and t: "t < length (threads s)"
    and th: "map still (threads s') = (map still (threads s))[t := still th']" and ok: "thread_ok th'"
    and task: "task s' = task s"
    and w: "waiters s' + of_bool (waiting (pc (threads s ! t))) = waiters s + of_bool (waiting (pc th'))"
    and q: "tasks (op_queue s') + of_bool (pc th' = InTask)
      = tasks (op_queue s) + of_bool (pc (threads s ! t) = InTask)"
    and ops: "mset (queued (op_queue s')) + mset (private_queue th') + mset (completed s') + m
      = mset (queued (op_queue s)) + mset (private_queue (threads s ! t)) + mset (completed s) + m'"
    and work: "outstanding_work s' + private_work th' - int p' - int (length (queued (op_queue s')))
        - int (length (private_queue th')) - of_bool (in_op (pc th'))
      = outstanding_work s + private_work (threads s ! t) - int p - int (length (queued (op_queue s)))
        - int (length (private_queue (threads s ! t))) - of_bool (in_op (pc (threads s ! t)))"
  shows "counted s' p' m'"
proof -
  note step = total_step [OF th t]
  have "waiters s' = total_of (\<lambda>th. of_bool (waiting (pc th))) s'"
    using step [of "\<lambda>th. of_bool (waiting (pc th)) :: nat"] inv w by (simp add: counted_def still_views)
  moreover have "total_of (\<lambda>th. of_bool (pc th = InTask)) s' + tasks (op_queue s') = (of_bool (task s') :: nat)"
    using step [of "\<lambda>th. of_bool (pc th = InTask) :: nat"] inv q task by (simp add: counted_def still_views)
  moreover have "mset (queued (op_queue s')) + total_of (\<lambda>th. mset (private_queue th)) s' + mset (completed s') = m'"
  proof -
    have 1: "total_of (\<lambda>th. mset (private_queue th)) s' + mset (private_queue (threads s ! t))
      = total_of (\<lambda>th. mset (private_queue th)) s + mset (private_queue th')"
      by (rule step) (simp add: still_views)
    have 2: "mset (queued (op_queue s)) + total_of (\<lambda>th. mset (private_queue th)) s + mset (completed s) = m"
      using inv by (simp add: counted_def)
    show ?thesis
    proof (rule multiset_eqI)
      fix x
      show "count (mset (queued (op_queue s')) + total_of (\<lambda>th. mset (private_queue th)) s' + mset (completed s')) x
          = count m' x"
        using arg_cong [OF 1, of "\<lambda>M. count M x"] arg_cong [OF 2, of "\<lambda>M. count M x"]
          arg_cong [OF ops, of "\<lambda>M. count M x"] by simp
    qed
  qed
  moreover have "outstanding_work s' + total_of private_work s'
       = int p' + int (length (queued (op_queue s')))
         + total_of (\<lambda>th. int (length (private_queue th)) + of_bool (in_op (pc th))) s'"
    using step [of private_work] inv work
      step [of "\<lambda>th. int (length (private_queue th)) + of_bool (in_op (pc th))"]
    by (simp add: counted_def still_views)
  moreover have "\<forall>th \<in> set (threads s'). thread_ok th"
  proof -
    have sub: "set (map still (threads s')) \<subseteq> insert (still th') (set (map still (threads s)))"
      unfolding th by (rule set_update_subset_insert)
    have "thread_ok (still x)" if "x \<in> set (threads s')" for x
    proof -
      have "still x \<in> insert (still th') (set (map still (threads s)))"
        using sub that by auto
      then show ?thesis
        using inv ok by (auto simp: counted_def still_views dest: thread_ok_still)
    qed
    then show ?thesis by (simp add: still_views)
  qed
  ultimately show ?thesis by (simp add: counted_def)
qed


lemma counted_nudge:
  assumes "nudge s s'" and "counted s p m"
  shows "counted s' p m"
proof -
  have t: "total_of f s' = total_of f s" if "\<And>th. f (still th) = f th" for f :: "thread_info \<Rightarrow> 'b::comm_monoid_add"
    using assms(1) by (simp only: total_still [where f = f, OF that] nudge_def)
  have sets: "still ` set (threads s') = still ` set (threads s)"
    using arg_cong [of _ _ set] assms(1) by (simp add: nudge_def flip: set_map)
  have "thread_ok x" if "x \<in> set (threads s')" for x
  proof -
    have "still x \<in> still ` set (threads s)"
      using that sets by blast
    then obtain y where "still x = still y" "y \<in> set (threads s)" by blast
    moreover from this have "thread_ok y"
      using assms(2) unfolding counted_def by blast
    ultimately show ?thesis by (simp only: thread_ok_still [of x y])
  qed
  then have ok: "\<forall>th \<in> set (threads s'). thread_ok th" by blast
  have same: "total_of (\<lambda>th. of_bool (waiting (pc th)) :: nat) s' = total_of (\<lambda>th. of_bool (waiting (pc th))) s"
    "total_of (\<lambda>th. of_bool (pc th = InTask) :: nat) s' = total_of (\<lambda>th. of_bool (pc th = InTask)) s"
    "total_of (\<lambda>th. mset (private_queue th)) s' = total_of (\<lambda>th. mset (private_queue th)) s"
    "total_of private_work s' = total_of private_work s"
    "total_of (\<lambda>th. int (length (private_queue th)) + of_bool (in_op (pc th))) s'
      = total_of (\<lambda>th. int (length (private_queue th)) + of_bool (in_op (pc th))) s"
    by (rule t, simp add: still_views)+
  have n: "task s' = task s" "outstanding_work s' = outstanding_work s" "op_queue s' = op_queue s"
    "waiters s' = waiters s" "completed s' = completed s"
    using assms(1) by (simp_all add: nudge_def)
  show ?thesis
    using assms(2) ok unfolding counted_def same n by blast
qed


text \<open>A thread with nothing private moves, on a state whose threads were only nudged.\<close>

lemma still_pc: "still x = still y \<Longrightarrow> still (x\<lparr>pc := p\<rparr>) = still (y\<lparr>pc := p\<rparr>)"
  by (cases x; cases y) (simp add: still_def)

lemma map_still_set_pc:
  assumes "map still (threads s1) = map still (threads s)" and "t < length (threads s)"
  shows "map still (threads (set_pc t p s1)) = (map still (threads s))[t := still ((threads s ! t)\<lparr>pc := p\<rparr>)]"
proof -
  have "length (threads s1) = length (threads s)"
    using assms(1) by (metis length_map)
  then have "still (threads s1 ! t) = still (threads s ! t)"
    using assms by (metis nth_map)
  then have "still ((threads s1 ! t)\<lparr>pc := p\<rparr>) = still ((threads s ! t)\<lparr>pc := p\<rparr>)"
    by (rule still_pc)
  then show ?thesis
    using assms(1) by (simp add: set_pc_def update_thread_def map_update)
qed

lemma idle:
  assumes "counted s p m" and "at_pc t s AtLoop"
  shows "t < length (threads s)" "pc (threads s ! t) = AtLoop" "private_work (threads s ! t) = 0"
    "private_queue (threads s ! t) = []"
proof -
  show t: "t < length (threads s)" and l: "pc (threads s ! t) = AtLoop"
    using assms(2) by (simp_all add: at_pc_def)
  have "thread_ok (threads s ! t)"
    using assms(1) t by (simp add: counted_def)
  then show "private_work (threads s ! t) = 0" "private_queue (threads s ! t) = []"
    using l by (auto simp: thread_ok_def)
qed

lemma set_pc_fields [simp]:
  "task (set_pc t q s) = task s" "waiters (set_pc t q s) = waiters s" "op_queue (set_pc t q s) = op_queue s"
  "completed (set_pc t q s) = completed s" "outstanding_work (set_pc t q s) = outstanding_work s"
  "task_interrupted (set_pc t q s) = task_interrupted s" "signalled (set_pc t q s) = signalled s"
  "stopped (set_pc t q s) = stopped s" "one_thread (set_pc t q s) = one_thread s"
  by (simp_all add: set_pc_def update_thread_def)

lemma counted_set_pc:
  assumes inv: "counted s p m" and at: "at_pc t s AtLoop"
    and th: "map still (threads s2) = map still (threads s)" and task: "task s2 = task s"
    and w: "waiters s2 = waiters s + of_bool (waiting q)"
    and q: "tasks (op_queue s2) + of_bool (q = InTask) = tasks (op_queue s)"
    and ops: "mset (queued (op_queue s2)) + mset (completed s2) = mset (queued (op_queue s)) + mset (completed s)"
    and work: "outstanding_work s2 = outstanding_work s" 
      "length (queued (op_queue s2)) + of_bool (in_op q) = length (queued (op_queue s))"
  shows "counted (set_pc t q s2) p m"
proof (rule counted_step [OF inv, where t = t and th' = "(threads s ! t)\<lparr>pc := q\<rparr>"])
  note i = idle [OF inv at]
  show "map still (threads (set_pc t q s2)) = (map still (threads s))[t := still ((threads s ! t)\<lparr>pc := q\<rparr>)]"
    using th i by (simp add: map_still_set_pc)
  show "t < length (threads s)" by (rule i)
  show "thread_ok ((threads s ! t)\<lparr>pc := q\<rparr>)"
    using i by (simp add: thread_ok_def)
  show "task (set_pc t q s2) = task s" using task by simp
  show "waiters (set_pc t q s2) + of_bool (waiting (pc (threads s ! t)))
      = waiters s + of_bool (waiting (pc ((threads s ! t)\<lparr>pc := q\<rparr>)))"
    using w i by simp
  show "tasks (op_queue (set_pc t q s2)) + of_bool (pc ((threads s ! t)\<lparr>pc := q\<rparr>) = InTask)
      = tasks (op_queue s) + of_bool (pc (threads s ! t) = InTask)"
    using q i by simp
  show "mset (queued (op_queue (set_pc t q s2))) + mset (private_queue ((threads s ! t)\<lparr>pc := q\<rparr>))
       + mset (completed (set_pc t q s2)) + m
     = mset (queued (op_queue s)) + mset (private_queue (threads s ! t)) + mset (completed s) + m"
    using ops i by simp
  show "outstanding_work (set_pc t q s2) + private_work ((threads s ! t)\<lparr>pc := q\<rparr>) - int p
       - int (length (queued (op_queue (set_pc t q s2))))
       - int (length (private_queue ((threads s ! t)\<lparr>pc := q\<rparr>))) - of_bool (in_op (pc ((threads s ! t)\<lparr>pc := q\<rparr>)))
     = outstanding_work s + private_work (threads s ! t) - int p - int (length (queued (op_queue s)))
       - int (length (private_queue (threads s ! t))) - of_bool (in_op (pc (threads s ! t)))"
    using work i by (cases "in_op q") auto
qed

lemma nudgeD:
  assumes "nudge s s'"
  shows "map still (threads s') = map still (threads s)" "task s' = task s"
    "outstanding_work s' = outstanding_work s" "op_queue s' = op_queue s" "waiters s' = waiters s"
    "completed s' = completed s" "one_thread s' = one_thread s"
  using assms by (simp_all add: nudge_def)

lemma counted_start_op:
  assumes "counted s p m" and "at_pc t s AtLoop" and "op_queue s = Operation op # rest"
  shows "counted (start_op pick op rest t s) p m"
proof -
  define s1 where "s1 = s\<lparr>op_queue := rest\<rparr>"
  define s2 where "s2 = (if rest \<noteq> [] \<and> \<not> one_thread s then wake_one_thread_and_unlock pick s1 else s1)"
  have s2: "nudge s1 s2" "start_op pick op rest t s = set_pc t (InOp op) (s2\<lparr>completed := completed s2 @ [op]\<rparr>)"
    by (simp_all add: s2_def start_op_def s1_def Let_def)
  show ?thesis
    unfolding s2(2) by (rule counted_set_pc [OF assms(1,2)]) (use nudgeD [OF s2(1)] assms(3) in \<open>auto simp: s1_def\<close>)
qed

lemma counted_start_task:
  assumes "counted s p m" and "at_pc t s AtLoop" and "op_queue s = TaskOperation # rest"
  shows "counted (start_task pick rest t s) p m"
proof -
  define s1 where "s1 = s\<lparr>op_queue := rest, task_interrupted := (rest \<noteq> [])\<rparr>"
  define s2 where "s2 = (if rest \<noteq> [] \<and> \<not> one_thread s then event_unlock_and_signal_one pick s1 else s1)"
  have s2: "nudge s1 s2" "start_task pick rest t s = set_pc t InTask s2"
    by (simp_all add: s2_def start_task_def s1_def Let_def)
  show ?thesis
    unfolding s2(2) by (rule counted_set_pc [OF assms(1,2)]) (use nudgeD [OF s2(1)] assms(3) in \<open>auto simp: s1_def\<close>)
qed

lemma counted_set_pc_plain:
  assumes "counted s p m" and "at_pc t s AtLoop" and "\<not> waiting q" "q \<noteq> InTask" "\<not> in_op q"
  shows "counted (set_pc t q s) p m"
  by (rule counted_set_pc [OF assms(1,2)]) (use assms in auto)

lemma counted_event_wait:
  assumes "counted s p m" and "at_pc t s AtLoop"
  shows "counted (event_wait t s) p m" "counted (event_wait_for_usec t s) p m"
    "counted (event_wait t (event_clear s)) p m" "counted (event_wait_for_usec t (event_clear s)) p m"
  unfolding event_wait_def event_wait_for_usec_def event_clear_def
  by (rule counted_set_pc [OF assms]; simp)+

lemma counted_do_run_one:
  assumes "counted s p m" and "at_pc t s AtLoop"
  shows "counted (do_run_one pick t s) p m"
  using assms by (auto simp: do_run_one_def counted_start_op counted_start_task counted_event_wait
    counted_set_pc_plain split: list.splits operation.splits)

lemma counted_do_wait_one_front:
  assumes "counted s p m" and "at_pc t s AtLoop"
  shows "counted (do_wait_one_front pick t s) p m"
  using assms by (auto simp: do_wait_one_front_def counted_start_op counted_start_task
    counted_set_pc_plain split: list.splits operation.splits)

lemma counted_do_poll_one:
  assumes "counted s p m" and "at_pc t s AtLoop"
  shows "counted (do_poll_one pick t s) p m"
proof (cases "\<not> stopped s \<and> (\<exists>rest. op_queue s = TaskOperation # rest)")
  case True
  then obtain rest where q: "op_queue s = TaskOperation # rest" by blast
  then have "do_poll_one pick t s = set_pc t InTask (s\<lparr>op_queue := rest\<rparr>)"
    using True by (simp add: do_poll_one_def)
  then show ?thesis
    by (simp only:) (rule counted_set_pc [OF assms], simp_all add: q)
next
  case False
  then show ?thesis
    using assms by (auto simp: do_poll_one_def counted_start_op counted_set_pc_plain
      split: list.splits operation.splits)
qed

lemma counted_do_one:
  assumes "counted s p m" and "at_pc t s AtLoop"
  shows "counted (do_one pick t s) p m"
  using assms by (simp add: do_one_def do_wait_one_def counted_do_run_one counted_do_wait_one_front
    counted_do_poll_one counted_event_wait counted_set_pc_plain split: run_mode.split)


lemma update_thread_fields [simp]:
  "task (update_thread t f s) = task s" "waiters (update_thread t f s) = waiters s"
  "op_queue (update_thread t f s) = op_queue s" "completed (update_thread t f s) = completed s"
  "outstanding_work (update_thread t f s) = outstanding_work s" "stopped (update_thread t f s) = stopped s"
  "signalled (update_thread t f s) = signalled s" "one_thread (update_thread t f s) = one_thread s"
  "task_interrupted (update_thread t f s) = task_interrupted s"
  "length (threads (update_thread t f s)) = length (threads s)"
  by (simp_all add: update_thread_def)

lemma update_thread_queue: "update_thread t f s\<lparr>op_queue := op_queue s\<rparr> = update_thread t f s"
  by (simp add: update_thread_def)

lemma map_still_update_thread:
  "map still (threads (update_thread t f s)) = (map still (threads s))[t := still (f (threads s ! t))]"
  by (simp add: update_thread_def map_update)

lemma at_pc_set [simp]: "at_pc t (set_pc t p s) q \<longleftrightarrow> t < length (threads s) \<and> p = q"
  by (auto simp: at_pc_def set_pc_def update_thread_def)

lemma at_pcD:
  assumes "counted s p m" and "at_pc t s q"
  shows "t < length (threads s)" "pc (threads s ! t) = q" "thread_ok (threads s ! t)"
  using assms by (auto simp: at_pc_def counted_def)

lemma waiters_pos:
  assumes "counted s p m" and "at_pc t s q" and "waiting q"
  shows "waiters s > 0"
proof -
  have "of_bool (waiting (pc (threads s ! t))) \<in> set (map (\<lambda>th. of_bool (waiting (pc th)) :: nat) (threads s))"
    using assms(2) by (auto simp: at_pc_def)
  then have "(1::nat) \<in> set (map (\<lambda>th. of_bool (waiting (pc th))) (threads s))"
    using assms(2,3) by (simp add: at_pc_def)
  then have "(1::nat) \<le> total_of (\<lambda>th. of_bool (waiting (pc th))) s"
    unfolding total_of_def by (intro member_le_sum_list) auto
  then show ?thesis using assms(1) by (simp add: counted_def)
qed

lemma counted_wakes:
  assumes inv: "counted s p m" and at: "at_pc t s q" and q: "waiting q"
  shows "counted (set_pc t AtLoop (s\<lparr>waiters := waiters s - 1\<rparr>)) p m"
    and "at_pc t (set_pc t AtLoop (s\<lparr>waiters := waiters s - 1\<rparr>)) AtLoop"
proof -
  note a = at_pcD [OF inv at]
  have idle: "private_work (threads s ! t) = 0" "private_queue (threads s ! t) = []"
    using a q by (auto simp: thread_ok_def elim: waiting.elims)
  have "\<not> in_op q" "q \<noteq> InTask"
    using q by (auto elim: waiting.elims)
  then show "counted (set_pc t AtLoop (s\<lparr>waiters := waiters s - 1\<rparr>)) p m"
    by (intro counted_step [OF inv, where t = t and th' = "(threads s ! t)\<lparr>pc := AtLoop\<rparr>"])
      (use a q idle waiters_pos [OF assms] in \<open>auto simp: map_still_set_pc thread_ok_def\<close>)
  show "at_pc t (set_pc t AtLoop (s\<lparr>waiters := waiters s - 1\<rparr>)) AtLoop"
    using a by simp
qed

lemma counted_event_wakeup:
  assumes "counted s p m" and "at_pc t s (Waiting b)"
  shows "counted (event_wakeup pick t s) p m"
  using counted_wakes [OF assms]
  by (simp add: event_wakeup_def Let_def counted_event_wait counted_do_run_one)

lemma counted_do_wait_one_wakeup:
  assumes "counted s p m" and "at_pc t s (WaitingTimed b)"
  shows "counted (do_wait_one_wakeup pick t s) p m"
  using counted_wakes [OF assms] by (simp add: do_wait_one_wakeup_def counted_do_wait_one_front)

lemma counted_enter:
  assumes "counted s p m" and "at_pc t s Outside"
  shows "counted (enter f t s) p m"
proof -
  note a = at_pcD [OF assms]
  have idle: "private_work (threads s ! t) = 0" "private_queue (threads s ! t) = []"
    using a by (auto simp: thread_ok_def)
  have "counted (update_thread t (\<lambda>th. th\<lparr>done_count := 0\<rparr>) s) p m"
    by (rule counted_step [OF assms(1), where t = t and th' = "(threads s ! t)\<lparr>done_count := 0\<rparr>"])
      (use a in \<open>auto simp: map_still_update_thread thread_ok_def\<close>)
  then have "counted (stop (update_thread t (\<lambda>th. th\<lparr>done_count := 0\<rparr>) s)) p m"
    by (rule counted_nudge [OF nudge_stop])
  moreover have "counted (update_thread t (\<lambda>th. \<lparr>mode = f, pc = AtLoop, done_count = 0,
      private_work = 0, private_queue = []\<rparr>) s) p m"
    by (rule counted_step [OF assms(1), where t = t and th' = "\<lparr>mode = f, pc = AtLoop, done_count = 0,
      private_work = 0, private_queue = []\<rparr>"])
      (use a idle in \<open>auto simp: map_still_update_thread thread_ok_def\<close>)
  ultimately show ?thesis by (simp add: enter_def)
qed

lemma task_cleanup_fields:
  "stopped (task_cleanup t s) = stopped s" "one_thread (task_cleanup t s) = one_thread s"
  "task (task_cleanup t s) = task s" "waiters (task_cleanup t s) = waiters s"
  "signalled (task_cleanup t s) = signalled s" "completed (task_cleanup t s) = completed s"
  "op_queue (task_cleanup t s) = op_queue s @ map Operation (private_queue (threads s ! t)) @ [TaskOperation]"
  "task_interrupted (task_cleanup t s)"
  by (simp_all add: task_cleanup_def Let_def)

lemma counted_task_cleanup:
  assumes "counted s p m" and "at_pc t s InTask"
  shows "counted (task_cleanup t s) p m" and "at_pc t (task_cleanup t s) AtLoop"
proof -
  note a = at_pcD [OF assms]
  have idle: "private_work (threads s ! t) = 0"
    using a by (auto simp: thread_ok_def)
  let ?th = "(threads s ! t)\<lparr>pc := AtLoop, private_work := 0, private_queue := []\<rparr>"
  show "counted (task_cleanup t s) p m"
  proof (rule counted_step [OF assms(1), where t = t and th' = ?th])
    show "map still (threads (task_cleanup t s)) = (map still (threads s))[t := still ?th]"
      by (simp add: task_cleanup_def Let_def map_still_update_thread)
    show "outstanding_work (task_cleanup t s) + private_work ?th - int p
        - int (length (queued (op_queue (task_cleanup t s)))) - int (length (private_queue ?th)) - of_bool (in_op (pc ?th))
      = outstanding_work s + private_work (threads s ! t) - int p - int (length (queued (op_queue s)))
        - int (length (private_queue (threads s ! t))) - of_bool (in_op (pc (threads s ! t)))"
      using a idle by (simp add: task_cleanup_def Let_def)
  qed (use a in \<open>auto simp: task_cleanup_fields thread_ok_def\<close>)
  show "at_pc t (task_cleanup t s) AtLoop"
    using a by (simp add: task_cleanup_def Let_def at_pc_def update_thread_def)
qed

lemma counted_after_task:
  assumes "counted s p m" and "at_pc t s AtLoop"
  shows "counted (after_task b pick t s) p m"
proof -
  let ?s = "fst (event_maybe_unlock_and_signal_one pick s)"
  have "counted (set_pc t Outside ?s) p m"
    by (rule counted_set_pc [OF assms]) (use nudgeD [OF nudge_maybe_signal_one [of s pick]] in auto)
  then show ?thesis
    using assms by (auto simp: after_task_def counted_start_op counted_set_pc_plain
      split: list.splits operation.splits)
qed

lemma counted_task_returns:
  assumes "counted s p m" and "at_pc t s InTask"
  shows "counted (task_returns pick t s) p m"
  using counted_task_cleanup [OF assms]
  by (simp add: task_returns_def Let_def counted_do_run_one counted_after_task split: run_mode.split)


text \<open>A step that leaves the threads alone.\<close>

lemma counted_global:
  assumes "counted s p m" and "threads s' = threads s" "task s' = task s" "waiters s' = waiters s"
    and "tasks (op_queue s') = tasks (op_queue s)"
    and "mset (queued (op_queue s')) + mset (completed s') + m = mset (queued (op_queue s)) + mset (completed s) + m'"
    and "outstanding_work s' - int (length (queued (op_queue s'))) - int p'
      = outstanding_work s - int (length (queued (op_queue s))) - int p"
  shows "counted s' p' m'"
proof -
  have "mset (queued (op_queue s')) + total_of (\<lambda>th. mset (private_queue th)) s' + mset (completed s') = m'"
  proof (rule multiset_eqI)
    fix x
    have 2: "mset (queued (op_queue s)) + total_of (\<lambda>th. mset (private_queue th)) s + mset (completed s) = m"
      using assms(1) by (simp add: counted_def)
    show "count (mset (queued (op_queue s')) + total_of (\<lambda>th. mset (private_queue th)) s' + mset (completed s')) x
        = count m' x"
      using arg_cong [OF 2, of "\<lambda>M. count M x"] arg_cong [OF assms(6), of "\<lambda>M. count M x"] assms(2)
      by (simp add: total_of_def)
  qed
  then show ?thesis
    using assms by (simp add: counted_def total_of_def)
qed

lemma nudge_work_finished: "nudge (s\<lparr>outstanding_work := outstanding_work s - 1\<rparr>) (work_finished s)"
  by (simp add: work_finished_def Let_def)

lemma counted_work_finished:
  assumes "counted s p m" and "p > 0"
  shows "counted (work_finished s) (p - 1) m"
proof -
  have 1: "counted (s\<lparr>outstanding_work := outstanding_work s - 1\<rparr>) (p - 1) m"
    using assms by (intro counted_global [OF assms(1)]) auto
  show ?thesis
    by (rule counted_nudge [OF nudge_work_finished 1])
qed

lemma nudge_fields_work_finished [simp]:
  "task (work_finished s) = task s" "waiters (work_finished s) = waiters s"
  "op_queue (work_finished s) = op_queue s" "completed (work_finished s) = completed s"
  "outstanding_work (work_finished s) = outstanding_work s - 1"
  "map still (threads (work_finished s)) = map still (threads s)"
  using nudgeD [OF nudge_work_finished [of s]] by simp_all

lemma map_still_cleanup:
  assumes "map still (threads s1) = map still (threads s)" and "t < length (threads s)"
  shows "map still (threads (update_thread t (\<lambda>th. th\<lparr>private_work := w, pc := q\<rparr>) s1))
    = (map still (threads s))[t := still ((threads s ! t)\<lparr>private_work := w, pc := q\<rparr>)]"
proof -
  have "length (threads s1) = length (threads s)"
    using assms(1) by (metis length_map)
  then have "still (threads s1 ! t) = still (threads s ! t)"
    using assms by (metis nth_map)
  then have "still ((threads s1 ! t)\<lparr>private_work := w, pc := q\<rparr>)
      = still ((threads s ! t)\<lparr>private_work := w, pc := q\<rparr>)"
    by (cases "threads s1 ! t"; cases "threads s ! t") (simp add: still_def)
  then show ?thesis
    using assms(1) by (simp add: map_still_update_thread)
qed

lemma counted_work_cleanup_count:
  assumes "counted s p m" and "at_pc t s (InOp op)"
  shows "counted (work_cleanup_count t s) p m"
proof -
  note a = at_pcD [OF assms]
  define w where "w = private_work (threads s ! t)"
  define s1 where "s1 = (if w > 1 then s\<lparr>outstanding_work := outstanding_work s + (w - 1)\<rparr>
    else if w < 1 then work_finished s else s)"
  have s1: "work_cleanup_count t s = update_thread t (\<lambda>th. th\<lparr>private_work := 0, pc := Cleanup\<rparr>) s1"
    by (simp add: work_cleanup_count_def s1_def w_def Let_def)
  have f: "task s1 = task s" "waiters s1 = waiters s" "op_queue s1 = op_queue s" "completed s1 = completed s"
    "map still (threads s1) = map still (threads s)"
    by (simp_all add: s1_def)
  have w: "outstanding_work s1 = outstanding_work s + w - 1"
    using a by (auto simp: s1_def w_def thread_ok_def)
  show ?thesis
    unfolding s1
    by (rule counted_step [OF assms(1) a(1) map_still_cleanup [OF f(5) a(1)]])
      (use a f w in \<open>auto simp: thread_ok_def w_def\<close>)
qed

lemma counted_work_cleanup_queue:
  assumes "counted s p m" and "at_pc t s Cleanup"
  shows "counted (work_cleanup_queue pick t s) p m"
proof -
  note a = at_pcD [OF assms]
  define n where "n = (if done_count (threads s ! t) \<noteq> 2 ^ 64 - 1 then done_count (threads s ! t) + 1
    else done_count (threads s ! t))"
  define s1 where "s1 = update_thread t (\<lambda>th. th\<lparr>pc := AtLoop, private_queue := [], done_count := n\<rparr>) s"
  define s2 where "s2 = s1\<lparr>op_queue := op_queue s1 @ map Operation (private_queue (threads s ! t))\<rparr>"
  have eq: "work_cleanup_queue pick t s =
      (let loops = (mode (threads s ! t) = Run \<or> mode (threads s ! t) = Poll) in
       if private_queue (threads s ! t) \<noteq> [] then if loops then do_one pick t s2 else set_pc t Outside s2
       else set_pc t (if loops then AtLoop else Outside) s2)"
    by (simp add: work_cleanup_queue_def s2_def s1_def n_def Let_def update_thread_queue)
  let ?th = "(threads s ! t)\<lparr>pc := AtLoop, private_queue := [], done_count := n\<rparr>"
  have s2: "counted s2 p m"
  proof (rule counted_step [OF assms(1) a(1), where th' = ?th])
    show "map still (threads s2) = (map still (threads s))[t := still ?th]"
      by (simp add: s2_def s1_def map_still_update_thread)
  qed (use a in \<open>auto simp: s2_def s1_def thread_ok_def\<close>)
  moreover have "at_pc t s2 AtLoop"
    using a by (simp add: s2_def s1_def at_pc_def update_thread_def)
  ultimately show ?thesis
    by (simp add: eq Let_def counted_do_one counted_set_pc_plain)
qed

lemma counted_add_private:
  assumes "counted s p m" and "at_pc t s q" and "q = InTask \<and> k = 0 \<or> in_op q"
    and "int p' = int p + k - int (length ops)" and "0 \<le> k" "k \<le> int (length ops)"
  shows "counted (add_private k ops t s) p' (m + mset ops)"
proof -
  note a = at_pcD [OF assms(1,2)]
  let ?th = "(threads s ! t)\<lparr>private_work := private_work (threads s ! t) + k,
    private_queue := private_queue (threads s ! t) @ ops\<rparr>"
  have "thread_ok ?th"
    using a assms by (auto simp: thread_ok_def)
  then show ?thesis
    by (intro counted_step [OF assms(1) a(1), where th' = ?th])
      (use a assms(3,4) in \<open>auto simp: add_private_def map_still_update_thread\<close>)
qed

lemma counted_push:
  assumes "counted s p m" and "int p' = int p + k - int (length ops)"
  shows "counted (wake_one_thread_and_unlock pick
    (s\<lparr>outstanding_work := outstanding_work s + k, op_queue := op_queue s @ map Operation ops\<rparr>)) p' (m + mset ops)"
  by (rule counted_nudge [OF nudge_wake_one], rule counted_global [OF assms(1)]) (use assms(2) in auto)


lemma calls_at: "calls (Some t) s \<Longrightarrow> \<exists>op. at_pc t s (InOp op)"
  by (simp add: calls_def)

lemma counted_post:
  assumes "counted s p m" and "calls caller s"
  shows "counted (post_immediate_completion pick caller op c s) p (m + {#op#})"
    and "counted (post_immediate_completions pick caller (length ops) ops c s) p (m + mset ops)"
    and "p > 0 \<Longrightarrow> counted (post_deferred_completion pick caller op s) (p - 1) (m + {#op#})"
    and "length ops \<le> p \<Longrightarrow> counted (post_deferred_completions pick caller ops s) (p - length ops) (m + mset ops)"
    and "counted (do_dispatch pick op s) p (m + {#op#})"
proof -
  have own: "counted (add_private k ops' t s) p' (m + mset ops')"
    if "caller = Some t" "int p' = int p + k - int (length ops')" "0 \<le> k" "k \<le> int (length ops')" for k ops' t p'
  proof -
    have "calls (Some t) s"
      using assms(2) that(1) by simp
    then obtain op' where "at_pc t s (InOp op')"
      using calls_at by blast
    then show ?thesis
      by (rule counted_add_private [OF assms(1)]) (use that in auto)
  qed
  have push: "counted (wake_one_thread_and_unlock pick (s\<lparr>outstanding_work := outstanding_work s + k,
      op_queue := op_queue s @ map Operation ops'\<rparr>)) p' (m + mset ops')"
    if "int p' = int p + k - int (length ops')" for k ops' p'
    using counted_push [OF assms(1) that] .
  show "counted (post_immediate_completion pick caller op c s) p (m + {#op#})"
    using own [of _ p 1 "[op]"] push [of p 1 "[op]"]
    by (auto simp: post_immediate_completion_def work_started_def Let_def split: option.split bool.split)
  show "counted (post_immediate_completions pick caller (length ops) ops c s) p (m + mset ops)"
    using own [of _ p "int (length ops)" ops] push [of p "int (length ops)" ops]
    by (auto simp: post_immediate_completions_def Let_def split: option.split bool.split)
  show "counted (post_deferred_completion pick caller op s) (p - 1) (m + {#op#})" if "p > 0"
    using own [of _ "p - 1" 0 "[op]"] push [of "p - 1" 0 "[op]"] that
    by (auto simp: post_deferred_completion_def split: option.split bool.split)
  show "counted (post_deferred_completions pick caller ops s) (p - length ops) (m + mset ops)" if "length ops \<le> p"
    using own [of _ "p - length ops" 0 ops] push [of "p - length ops" 0 ops] that assms(1)
    by (auto simp: post_deferred_completions_def of_nat_diff split: option.split bool.split)
  show "counted (do_dispatch pick op s) p (m + {#op#})"
    using push [of p 1 "[op]"] by (simp add: do_dispatch_def work_started_def Let_def)
qed

lemma counted_init_task:
  assumes "counted s p m"
  shows "counted (init_task pick s) p m"
proof (cases "task s")
  case False
  then have "counted (s\<lparr>task := True, op_queue := op_queue s @ [TaskOperation]\<rparr>) p m"
    using assms by (simp add: counted_def total_of_def)
  then show ?thesis
    using assms counted_nudge [OF nudge_wake_one] by (simp add: init_task_def)
qed (use assms in \<open>simp add: init_task_def\<close>)

lemma counted_sched_step:
  assumes "sched_step M w w'" and "counted (sched w) (pending w) (posted w)"
  shows "counted (sched w') (pending w') (posted w')"
  using assms(1)
proof cases
  case (step_enter m t)
  then show ?thesis
    using counted_enter [OF assms(2)] by (simp add: hand_over_def)
next
  case (step_one t pick)
  then show ?thesis
    using counted_do_one [OF assms(2)] by (simp add: hand_over_def)
next
  case (step_wakeup t b pick)
  then show ?thesis
    using counted_event_wakeup [OF assms(2)] by (simp add: hand_over_def)
next
  case (step_timed_wakeup t b pick)
  then show ?thesis
    using counted_do_wait_one_wakeup [OF assms(2)] by (simp add: hand_over_def)
next
  case (step_task_completes t op)
  then show ?thesis
    using counted_add_private [OF assms(2), of t InTask 0 "pending w - 1" "[op]"] by (simp add: hand_over_def of_nat_diff)
next
  case (step_task_returns t pick)
  then show ?thesis
    using counted_task_returns [OF assms(2)] by (simp add: hand_over_def)
next
  case (step_op_returns t op)
  then show ?thesis
    using counted_work_cleanup_count [OF assms(2)] by (simp add: hand_over_def)
next
  case (step_cleanup t pick)
  then show ?thesis
    using counted_work_cleanup_queue [OF assms(2)] by (simp add: hand_over_def)
next
  case (step_post caller op pick cont)
  then show ?thesis
    using counted_post(1) [OF assms(2)] by (simp add: hand_over_def)
next
  case (step_posts caller ops pick cont)
  then show ?thesis
    using counted_post(2) [OF assms(2)] by (simp add: hand_over_def)
next
  case (step_deferred caller op pick)
  then show ?thesis
    using counted_post(3) [OF assms(2)] by (simp add: hand_over_def)
next
  case (step_deferreds caller ops pick)
  then show ?thesis
    using counted_post(4) [OF assms(2)] by (simp add: hand_over_def)
next
  case (step_dispatch op pick)
  then show ?thesis
    using counted_post(5) [OF assms(2), of None] by (simp add: hand_over_def calls_def)
next
  case step_work
  then show ?thesis
    by (simp add: work_started_def) (rule counted_global [OF assms(2)]; simp)
next
  case step_work_ends
  then show ?thesis
    using counted_work_finished [OF assms(2)] by (simp add: hand_over_def)
next
  case step_stop
  then show ?thesis
    using counted_nudge [OF nudge_stop assms(2)] by (simp add: hand_over_def)
next
  case step_restart
  then show ?thesis
    by (simp add: restart_def) (rule counted_global [OF assms(2)]; simp)
next
  case (step_init pick)
  then show ?thesis
    using counted_init_task [OF assms(2)] by (simp add: hand_over_def)
qed

lemma counted_new: "counted (new_scheduler hint own n) (if own then 1 else 0) {#}"
proof -
  have "sum_list (replicate n ({#} :: nat multiset)) = {#}"
    by (induction n) auto
  then show ?thesis
    by (simp add: counted_def new_scheduler_def total_of_def sum_list_replicate new_thread_def thread_ok_def)
qed

lemma counted_reach:
  assumes "sched_reach M hint own n w"
  shows "counted (sched w) (pending w) (posted w)"
  using assms unfolding sched_reach_def
  by (induction rule: rtranclp_induct) (auto simp: new_world_def counted_new intro: counted_sched_step)


section \<open>What the counts say\<close>

lemma total_of_bool: "total_of (\<lambda>th. of_bool (P th)) s = length (filter P (threads s))"
proof -
  have "sum_list (map (\<lambda>th. of_bool (P th)) xs) = length (filter P xs)" for xs
    by (induction xs) auto
  then show ?thesis by (simp add: total_of_def)
qed

text \<open>
  Property C15. Whatever the interleaving of the threads in run, run_one, wait_one, poll and poll_one with posts,
  dispatches, stops and restarts: every operation given to the scheduler is in the queue, in a thread's
  private queue or completed, and in one of them once; the task is in the queue or run by a thread, and
  by one at most.
\<close>

theorem every_operation_runs_once:
  assumes "sched_reach M hint own n w"
  shows "mset (queued (op_queue (sched w))) + (\<Sum>th\<leftarrow>threads (sched w). mset (private_queue th))
      + mset (completed (sched w)) = posted w
    \<and> length (filter (\<lambda>th. pc th = InTask) (threads (sched w))) + tasks (op_queue (sched w))
      = (if task (sched w) then 1 else 0)"
  using counted_reach [OF assms] unfolding counted_def total_of_bool total_of_def by simp

lemma work_bound:
  assumes "counted s p m"
  shows "outstanding_work s \<ge> int p + int (length (queued (op_queue s)))
    + int (length (filter (\<lambda>th. in_op (pc th)) (threads s)))
    \<and> outstanding_work s - (int p + int (length (queued (op_queue s)))
      + int (length (filter (\<lambda>th. in_op (pc th)) (threads s))))
      = (\<Sum>th\<leftarrow>threads s. int (length (private_queue th)) - private_work th)"
proof -
  have "(\<Sum>th\<leftarrow>xs. int (length (private_queue th)) + of_bool (in_op (pc th))) - sum_list (map private_work xs)
    = (\<Sum>th\<leftarrow>xs. int (length (private_queue th)) - private_work th)
      + int (length (filter (\<lambda>th. in_op (pc th)) xs))" for xs
    by (induction xs) simp_all
  then have split: "total_of (\<lambda>th. int (length (private_queue th)) + of_bool (in_op (pc th))) s - total_of private_work s
    = (\<Sum>th\<leftarrow>threads s. int (length (private_queue th)) - private_work th)
      + int (length (filter (\<lambda>th. in_op (pc th)) (threads s)))"
    by (simp only: total_of_def)
  have "0 \<le> (\<Sum>th\<leftarrow>threads s. int (length (private_queue th)) - private_work th)"
    using assms by (intro sum_list_nonneg) (auto simp: counted_def thread_ok_def)
  moreover have "outstanding_work s + total_of private_work s = int p + int (length (queued (op_queue s)))
      + total_of (\<lambda>th. int (length (private_queue th)) + of_bool (in_op (pc th))) s"
    using assms by (simp add: counted_def)
  ultimately show ?thesis using split by linarith
qed


lemma no_work:
  assumes "counted s p m" and "outstanding_work s = 0"
  shows "p = 0" "queued (op_queue s) = []" "m = mset (completed s)"
    "\<And>th. th \<in> set (threads s) \<Longrightarrow> \<not> in_op (pc th) \<and> private_queue th = []"
proof -
  note b = work_bound [OF assms(1)]
  have "p = 0 \<and> length (queued (op_queue s)) = 0 \<and> length (filter (\<lambda>th. in_op (pc th)) (threads s)) = 0"
    using b assms(2) by linarith
  then have z: "p = 0" "queued (op_queue s) = []" "filter (\<lambda>th. in_op (pc th)) (threads s) = []"
    by simp_all
  then have "(\<Sum>th\<leftarrow>threads s. int (length (private_queue th)) - private_work th) = 0"
    using b assms(2) by simp
  then have "\<forall>x \<in> set (map (\<lambda>th. int (length (private_queue th)) - private_work th) (threads s)). x = 0"
    using assms(1) by (subst (asm) sum_list_nonneg_eq_0_iff) (auto simp: counted_def thread_ok_def)
  then show each: "\<And>th. th \<in> set (threads s) \<Longrightarrow> \<not> in_op (pc th) \<and> private_queue th = []"
    using z(3) assms(1) by (fastforce simp: counted_def thread_ok_def filter_empty_conv)
  have "sum_list (map f xs) = {#}" if "\<And>th. th \<in> set xs \<Longrightarrow> f th = {#}" for f :: "thread_info \<Rightarrow> nat multiset" and xs
    using that by (induction xs) auto
  then have "total_of (\<lambda>th. mset (private_queue th)) s = {#}"
    unfolding total_of_def using each by fastforce
  then show "m = mset (completed s)"
    using assms(1) z(2) by (simp add: counted_def)
  show "p = 0" "queued (op_queue s) = []" by (rule z)+
qed

text \<open>
  Property C16. The count of outstanding work is never below the work there is: the operations in
  progress elsewhere, the operations queued and the handlers running. It is zero, which ends the
  threads in run, only when nothing is in progress, every operation posted has been completed and no
  handler runs.
\<close>

theorem no_work_left_when_the_count_is_zero:
  assumes "sched_reach M hint own n w"
  shows "outstanding_work (sched w) \<ge> int (pending w) + int (length (queued (op_queue (sched w))))
      + int (length (filter (\<lambda>th. in_op (pc th)) (threads (sched w))))
    \<and> (outstanding_work (sched w) = 0 \<longrightarrow> pending w = 0 \<and> posted w = mset (completed (sched w))
         \<and> (\<forall>th \<in> set (threads (sched w)). \<not> in_op (pc th) \<and> private_queue th = []))"
  using work_bound [OF counted_reach [OF assms]] no_work [OF counted_reach [OF assms]] by blast

section \<open>An execution\<close>

text \<open>An operation posted from outside, taken by the one thread in \<^verbatim>\<open>run\<close>, completed, and the end of the run.\<close>

lemmas sched_eval = new_world_def new_scheduler_def new_thread_def hint_is_locking_def
  post_immediate_completion_def work_started_def wake_one_thread_and_unlock_def
  event_maybe_unlock_and_signal_one_def interrupt_task_def enter_def update_thread_def
  do_one_def do_run_one_def start_op_def set_pc_def work_cleanup_count_def work_finished_def
  stop_def stop_all_threads_def event_signal_all_def work_cleanup_queue_def hand_over_def Let_def at_pc_def calls_def

definition demo_sched :: "pc \<Rightarrow> nat list \<Rightarrow> operation list \<Rightarrow> int \<Rightarrow> bool \<Rightarrow> nat \<Rightarrow> scheduler" where
  "demo_sched p ls q k stp d = \<lparr>one_thread = False, task = False, task_interrupted = True,
     outstanding_work = k, op_queue = q, stopped = stp, shut_down = False, concurrency_hint = - 1,
     own_thread = False, signalled = True, waiters = 0, interrupts = 0, completed = ls,
     threads = [\<lparr>mode = Run, pc = p, done_count = d, private_work = 0, private_queue = []\<rparr>]\<rparr>"

definition demo_world :: "pc \<Rightarrow> nat list \<Rightarrow> operation list \<Rightarrow> int \<Rightarrow> bool \<Rightarrow> nat \<Rightarrow> world" where
  "demo_world p ls q k stp d = \<lparr>sched = demo_sched p ls q k stp d, pending = 0, posted = {#7#}\<rparr>"

lemma demo_reach:
  assumes "Run \<in> M"
  shows "sched_reach M (- 1) False 1 (demo_world Outside [] [Operation 7] 1 False 0)"
    "sched_reach M (- 1) False 1 (demo_world AtLoop [] [Operation 7] 1 False 0)"
    "sched_reach M (- 1) False 1 (demo_world (InOp 7) [7] [] 1 False 0)"
    "sched_reach M (- 1) False 1 (demo_world Cleanup [7] [] 0 True 0)"
    "sched_reach M (- 1) False 1 (demo_world AtLoop [7] [] 0 True 1)"
proof -
  have ext: "sched_reach M h o' n w'" if "sched_reach M h o' n w" "sched_step M w w'" for h o' n w w'
    using that by (auto simp: sched_reach_def)
  have 0: "sched_reach M (- 1) False 1 (new_world (- 1) False 1)"
    by (simp add: sched_reach_def)
  show 1: "sched_reach M (- 1) False 1 (demo_world Outside [] [Operation 7] 1 False 0)"
    using ext [OF 0 step_post [of None _ M 7 0 False]]
    by (simp add: sched_eval demo_world_def demo_sched_def)
  show 2: "sched_reach M (- 1) False 1 (demo_world AtLoop [] [Operation 7] 1 False 0)"
    using ext [OF 1 step_enter [OF assms, of 0]]
    by (simp add: sched_eval demo_world_def demo_sched_def)
  show 3: "sched_reach M (- 1) False 1 (demo_world (InOp 7) [7] [] 1 False 0)"
    using ext [OF 2 step_one [of 0 _ M 0]]
    by (simp add: sched_eval demo_world_def demo_sched_def)
  show 4: "sched_reach M (- 1) False 1 (demo_world Cleanup [7] [] 0 True 0)"
    using ext [OF 3 step_op_returns [of 0 _ 7 M]]
    by (simp add: sched_eval demo_world_def demo_sched_def)
  show "sched_reach M (- 1) False 1 (demo_world AtLoop [7] [] 0 True 1)"
    using ext [OF 4 step_cleanup [of 0 _ M 0]]
    by (simp add: sched_eval demo_world_def demo_sched_def)
qed


theorem every_operation_runs_once_witness:
  "mset (queued (op_queue (demo_sched (InOp 7) [7] [] 1 False 0))) + {#} + {#7#} = {#7#}"
  using every_operation_runs_once [OF demo_reach(3) [of UNIV]] by (simp add: demo_world_def demo_sched_def)

theorem no_work_left_when_the_count_is_zero_witness:
  "pending (demo_world Cleanup [7] [] 0 True 0) = 0
    \<and> posted (demo_world Cleanup [7] [] 0 True 0) = mset (completed (sched (demo_world Cleanup [7] [] 0 True 0)))"
  using no_work_left_when_the_count_is_zero [OF demo_reach(4) [of UNIV]]
  by (simp add: demo_world_def demo_sched_def)

end
