(* ===== verification/SchedulerRun.thy ===== *)
theory SchedulerRun
  imports SchedulerInvariant
begin

text \<open>
  Schedulers whose threads call \<^verbatim>\<open>run\<close> only: no wakeup is lost, a stop reaches every thread, and the
  threads leave when, and only when, the scheduler is stopped, as it is when the work ends. For
  \<^verbatim>\<open>run_one\<close> next to \<^verbatim>\<open>run\<close> the first of these fails.
\<close>

section \<open>What a wakeup does\<close>

definition waiter :: "scheduler \<Rightarrow> bool" where
  "waiter s \<longleftrightarrow> (\<exists>th \<in> set (threads s). waiting (pc th))"

definition blocked :: "scheduler \<Rightarrow> bool" where
  "blocked s \<longleftrightarrow> (\<exists>th \<in> set (threads s). unnotified (pc th))"

definition woken :: "scheduler \<Rightarrow> bool" where
  "woken s \<longleftrightarrow> (\<exists>th \<in> set (threads s). waiting (pc th) \<and> \<not> unnotified (pc th))"

definition in_task :: "scheduler \<Rightarrow> bool" where
  "in_task s \<longleftrightarrow> (\<exists>th \<in> set (threads s). pc th = InTask)"

definition coming :: "scheduler \<Rightarrow> bool" where
  "coming s \<longleftrightarrow> (\<exists>th \<in> set (threads s). pc th = AtLoop \<or> waiting (pc th) \<and> \<not> unnotified (pc th))"

text \<open>A thread is on its way to the queue, or none is blocked and the task is not.\<close>

definition attended :: "scheduler \<Rightarrow> bool" where
  "attended s \<longleftrightarrow> coming s \<or> \<not> blocked s \<and> (in_task s \<longrightarrow> task_interrupted s)"

lemma unnotified_waiting: "unnotified p \<Longrightarrow> waiting p"
  by (cases p) auto

lemma unnotified_notify [simp]: "\<not> unnotified (notify p)"
  by (cases p) auto

lemma notify_AtLoop [simp]: "notify p = AtLoop \<longleftrightarrow> p = AtLoop"
  and notify_Outside [simp]: "notify p = Outside \<longleftrightarrow> p = Outside"
  by (cases p; simp)+

lemma waiter_iff:
  assumes "counted s p m"
  shows "waiters s > 0 \<longleftrightarrow> waiter s"
proof -
  have "waiters s = length (filter (\<lambda>th. waiting (pc th)) (threads s))"
    using assms unfolding counted_def total_of_bool by simp
  then show ?thesis
    by (auto simp: waiter_def filter_empty_conv)
qed

lemma in_task_task:
  assumes "counted s p m" and "in_task s"
  shows "task s" and "tasks (op_queue s) = 0"
proof -
  let ?n = "length (filter (\<lambda>th. pc th = InTask) (threads s))"
  have n: "0 < ?n"
    using assms(2) by (auto simp: in_task_def filter_empty_conv)
  have sum: "?n + tasks (op_queue s) = of_bool (task s)"
    using assms(1) unfolding counted_def total_of_bool by simp
  show "task s"
  proof (rule ccontr)
    assume "\<not> task s"
    then have "?n + tasks (op_queue s) = 0" using sum by (simp only: of_bool_eq)
    then show False using n by linarith
  qed
  then have "?n + tasks (op_queue s) = 1" using sum by (simp only: of_bool_eq)
  then show "tasks (op_queue s) = 0" using n by linarith
qed

lemma cond_signal_wakes:
  assumes "waiter s"
  shows "woken (cond_signal pick s)"
proof -
  let ?c = "filter (\<lambda>t. unnotified (pc (threads s ! t))) [0 ..< length (threads s)]"
  obtain t where t: "t < length (threads s)" "waiting (pc (threads s ! t))"
    using assms by (auto simp: waiter_def in_set_conv_nth)
  show ?thesis
  proof (cases "?c = []")
    case True
    then have "\<not> unnotified (pc (threads s ! t))"
      using t by (auto simp: filter_empty_conv)
    then show ?thesis
      using t True by (auto simp: cond_signal_def woken_def)
  next
    case False
    define i where "i = ?c ! (pick mod length ?c)"
    have "i \<in> set ?c"
      unfolding i_def using False by (intro nth_mem) simp
    then have i: "i < length (threads s)" "unnotified (pc (threads s ! i))" by simp_all
    have "cond_signal pick s = update_thread i (\<lambda>th. th\<lparr>pc := notify (pc th)\<rparr>) s"
      unfolding cond_signal_def i_def Let_def using False by (simp only: if_False)
    moreover have "threads (update_thread i (\<lambda>th. th\<lparr>pc := notify (pc th)\<rparr>) s) ! i
        = (threads s ! i)\<lparr>pc := notify (pc (threads s ! i))\<rparr>"
      using i by (simp add: update_thread_def)
    ultimately have "threads (cond_signal pick s) ! i = (threads s ! i)\<lparr>pc := notify (pc (threads s ! i))\<rparr>"
      and "i < length (threads (cond_signal pick s))"
      using i by simp_all
    moreover have "waiting (pc (threads s ! i))"
      using i unnotified_waiting by blast
    ultimately show ?thesis
      unfolding woken_def by (intro bexI [OF _ nth_mem [of i]]) simp_all
  qed
qed

text \<open>The predicates see the threads only, and the nudges never block a thread.\<close>

lemma set_still:
  assumes "nudge s s'" and "\<And>th. P (still th) = P th"
  shows "(\<exists>th \<in> set (threads s'). P th) \<longleftrightarrow> (\<exists>th \<in> set (threads s). P th)"
proof -
  have iff: "(\<exists>th \<in> set (threads x). P th) \<longleftrightarrow> (\<exists>th \<in> set (map still (threads x)). P th)" for x
    using assms(2) by auto
  show ?thesis
    unfolding iff [of s'] iff [of s] using assms(1) by (simp only: nudge_def)
qed

lemma still_pcs: "pc (still th) = AtLoop \<longleftrightarrow> pc th = AtLoop" "pc (still th) = Outside \<longleftrightarrow> pc th = Outside"
  "mode (still th) = mode th"
  by (simp_all add: still_def)

lemma nudge_views:
  assumes "nudge s s'"
  shows "waiter s' = waiter s" "in_task s' = in_task s"
  unfolding waiter_def in_task_def by (rule set_still [OF assms]; simp add: still_views)+

lemma blocked_update_notify:
  assumes "blocked (update_thread i (\<lambda>th. th\<lparr>pc := notify (pc th)\<rparr>) s)"
  shows "blocked s"
  using assms by (auto simp: blocked_def update_thread_def dest!: set_update_subset_insert [THEN subsetD])

lemma blocked_cond_signal: "blocked (cond_signal pick s) \<Longrightarrow> blocked s"
  by (auto simp: cond_signal_def Let_def dest: blocked_update_notify split: if_splits)

lemma blocked_ext [simp]:
  "blocked (s\<lparr>signalled := x\<rparr>) = blocked s" "blocked (s\<lparr>task_interrupted := x, interrupts := y\<rparr>) = blocked s"
  "blocked (s\<lparr>stopped := x\<rparr>) = blocked s" "blocked (s\<lparr>op_queue := q\<rparr>) = blocked s"
  "blocked (s\<lparr>outstanding_work := k\<rparr>) = blocked s"
  by (simp_all add: blocked_def)

lemma blocked_interrupt_task [simp]: "blocked (interrupt_task s) = blocked s"
  by (simp add: interrupt_task_def)

lemma blocked_signal_one: "blocked (event_unlock_and_signal_one pick s) \<Longrightarrow> blocked s"
  by (auto simp: event_unlock_and_signal_one_def Let_def dest: blocked_cond_signal split: if_splits)

lemma blocked_wake_one: "blocked (wake_one_thread_and_unlock pick s) \<Longrightarrow> blocked s"
  by (auto simp: wake_one_thread_and_unlock_def event_maybe_unlock_and_signal_one_def Let_def
    dest: blocked_cond_signal split: if_splits)

definition answered :: "scheduler \<Rightarrow> bool" where
  "answered s \<longleftrightarrow> signalled s \<and> (woken s \<or> \<not> waiter s \<and> (task s \<longrightarrow> task_interrupted s))"

lemma waiter_ext [simp]: "waiter (s\<lparr>signalled := x\<rparr>) = waiter s"
  "waiter (s\<lparr>task_interrupted := x, interrupts := y\<rparr>) = waiter s"
  by (simp_all add: waiter_def)

lemma signalled_cond_signal [simp]: "signalled (cond_signal pick s) = signalled s"
  "stopped (cond_signal pick s) = stopped s"
  by (simp_all add: cond_signal_def Let_def)

lemma stopped_wake [simp]: "stopped (wake_one_thread_and_unlock pick s) = stopped s"
  "stopped (event_unlock_and_signal_one pick s) = stopped s"
  "signalled (wake_one_thread_and_unlock pick s)" "signalled (event_unlock_and_signal_one pick s)"
  by (simp_all add: wake_one_thread_and_unlock_def event_maybe_unlock_and_signal_one_def
    event_unlock_and_signal_one_def interrupt_task_def Let_def split: prod.splits if_splits)

lemma answered_wake_one:
  assumes "waiters s > 0 \<longleftrightarrow> waiter s"
  shows "answered (wake_one_thread_and_unlock pick s)"
proof (cases "waiters s > 0")
  case True
  then have "waiter (s\<lparr>signalled := True\<rparr>)"
    using assms by simp
  then show ?thesis
    using True cond_signal_wakes
    by (simp add: answered_def wake_one_thread_and_unlock_def event_maybe_unlock_and_signal_one_def Let_def)
next
  case False
  then have "\<not> waiter s"
    using assms by simp
  then show ?thesis
    using False by (simp add: answered_def wake_one_thread_and_unlock_def
      event_maybe_unlock_and_signal_one_def interrupt_task_def Let_def)
qed

lemma answered_signal_one:
  assumes "waiters s > 0 \<longleftrightarrow> waiter s" and "task_interrupted s"
  shows "answered (event_unlock_and_signal_one pick s)"
proof (cases "waiters s > 0")
  case True
  then have "waiter (s\<lparr>signalled := True\<rparr>)"
    using assms(1) by simp
  then show ?thesis
    using True cond_signal_wakes by (simp add: answered_def event_unlock_and_signal_one_def Let_def)
next
  case False
  then have "\<not> waiter s"
    using assms(1) by simp
  then show ?thesis
    using False assms(2) by (simp add: answered_def event_unlock_and_signal_one_def Let_def)
qed


section \<open>The invariant\<close>

fun timed :: "pc \<Rightarrow> bool" where
  "timed (WaitingTimed b) = True"
| "timed p = False"

lemma timed_notify [simp]: "timed (notify p) = timed p"
  by (cases p) auto

definition runs :: "thread_info \<Rightarrow> bool" where
  "runs th \<longleftrightarrow> \<not> timed (pc th) \<and> (pc th \<noteq> Outside \<longrightarrow> mode th = Run)"

definition alert :: "scheduler \<Rightarrow> bool" where
  "alert s \<longleftrightarrow> signalled s \<and> \<not> blocked s \<and> (in_task s \<longrightarrow> task_interrupted s)"

definition active :: "scheduler \<Rightarrow> bool" where
  "active s \<longleftrightarrow> (\<exists>th \<in> set (threads s). pc th \<noteq> Outside)"

definition run_pre :: "scheduler \<Rightarrow> bool" where
  "run_pre s \<longleftrightarrow> (\<forall>th \<in> set (threads s). runs th) \<and> (stopped s \<longrightarrow> alert s)
     \<and> (outstanding_work s = 0 \<and> active s \<longrightarrow> stopped s)
     \<and> (one_thread s \<longrightarrow> length (threads s) \<le> 1)"

definition ready_ok :: "scheduler \<Rightarrow> bool" where
  "ready_ok s \<longleftrightarrow> op_queue s \<noteq> [] \<longrightarrow>
     (waiter s \<longrightarrow> signalled s) \<and> (\<not> stopped s \<longrightarrow> attended s)"

definition run_ok :: "scheduler \<Rightarrow> bool" where
  "run_ok s \<longleftrightarrow> run_pre s \<and> ready_ok s"

text \<open>One thread moves.\<close>

lemma ex_thread_update:
  assumes "threads s' = (threads s)[t := x]" and "t < length (threads s)"
  shows "(\<exists>th \<in> set (threads s'). P th) \<Longrightarrow> P x \<or> (\<exists>th \<in> set (threads s). P th)"
    and "P x \<Longrightarrow> \<exists>th \<in> set (threads s'). P th"
    and "\<not> P (threads s ! t) \<Longrightarrow> (\<exists>th \<in> set (threads s). P th) \<Longrightarrow> \<exists>th \<in> set (threads s'). P th"
proof -
  show "(\<exists>th \<in> set (threads s'). P th) \<Longrightarrow> P x \<or> (\<exists>th \<in> set (threads s). P th)"
    using assms by (auto dest!: set_update_subset_insert [THEN subsetD])
  show "P x \<Longrightarrow> \<exists>th \<in> set (threads s'). P th"
    using assms by (auto intro!: bexI [OF _ set_update_memI])
  assume n: "\<not> P (threads s ! t)" and "\<exists>th \<in> set (threads s). P th"
  then obtain i where i: "i < length (threads s)" "P (threads s ! i)"
    by (auto simp: in_set_conv_nth)
  then have "i \<noteq> t" using n by blast
  then have "threads s' ! i = threads s ! i" "i < length (threads s')"
    using i assms by simp_all
  then show "\<exists>th \<in> set (threads s'). P th"
    using i by (metis nth_mem)
qed

lemma threads_set_pc: "threads (set_pc t p s) = (threads s)[t := (threads s ! t)\<lparr>pc := p\<rparr>]"
  by (simp add: set_pc_def update_thread_def)

lemma runs_nudge:
  assumes "nudge s s'" and "\<forall>th \<in> set (threads s). runs th"
  shows "\<forall>th \<in> set (threads s'). runs th"
proof -
  have "(\<exists>th \<in> set (threads s'). \<not> runs th) \<longleftrightarrow> (\<exists>th \<in> set (threads s). \<not> runs th)"
    by (rule set_still [OF assms(1)]) (simp add: runs_def still_def)
  then show ?thesis using assms(2) by blast
qed

lemma active_nudge:
  assumes "nudge s s'"
  shows "active s' = active s"
  unfolding active_def by (rule set_still [OF assms]) (simp add: still_def)

text \<open>A nudge that neither blocks nor stops keeps the first half of the invariant.\<close>

lemma run_pre_nudge:
  assumes n: "nudge s s'" and "run_pre s" and "stopped s' = stopped s" and "blocked s' \<Longrightarrow> blocked s"
  shows "run_pre s'"
proof -
  have "alert s \<Longrightarrow> alert s'"
    using n assms(4) nudge_views(2) [OF n] by (auto simp: alert_def nudge_def)
  then show ?thesis
    using assms(2,3) runs_nudge [OF n] active_nudge [OF n] nudge_length [OF n] nudgeD [OF n]
    by (simp add: run_pre_def)
qed


lemmas run_views = run_pre_def alert_def blocked_def in_task_def active_def

lemma run_pre_ext [simp]:
  "run_pre (s\<lparr>op_queue := q\<rparr>) = run_pre s" "run_pre (s\<lparr>completed := c\<rparr>) = run_pre s"
  "run_pre (s\<lparr>waiters := n\<rparr>) = run_pre s"
  by (simp_all add: run_views)

lemma run_pre_threads:
  assumes pre: "run_pre s" and t: "t < length (threads s)"
    and th: "threads s' = (threads s)[t := x]" and r: "runs x"
    and g: "stopped s' = stopped s" "signalled s' = signalled s \<or> \<not> stopped s" "one_thread s' = one_thread s"
      "task_interrupted s \<longrightarrow> task_interrupted s' \<or> \<not> stopped s"
    and st: "stopped s \<Longrightarrow> \<not> unnotified (pc x) \<and> (pc x = InTask \<longrightarrow> task_interrupted s')"
    and work: "outstanding_work s' = 0 \<Longrightarrow> pc x \<noteq> Outside \<or> active s \<Longrightarrow> stopped s"
  shows "run_pre s'"
proof -
  note u = ex_thread_update [OF th t]
  have "\<forall>th \<in> set (threads s'). runs th"
    using pre r th by (auto simp: run_pre_def dest!: set_update_subset_insert [THEN subsetD])
  moreover have "stopped s' \<longrightarrow> alert s'"
    using u(1) [of "\<lambda>th. unnotified (pc th)"] u(1) [of "\<lambda>th. pc th = InTask"] pre g st
    by (auto simp: run_pre_def alert_def blocked_def in_task_def)
  moreover have "outstanding_work s' = 0 \<and> active s' \<longrightarrow> stopped s'"
    using u(1) [of "\<lambda>th. pc th \<noteq> Outside"] work g(1) by (auto simp: active_def)
  moreover have "one_thread s' \<longrightarrow> length (threads s') \<le> 1"
    using pre g(3) th by (simp add: run_pre_def)
  ultimately show ?thesis by (simp add: run_pre_def)
qed

lemma runs_thread:
  assumes "run_pre s" and "at_pc t s q" and "q \<noteq> Outside"
  shows "mode (threads s ! t) = Run" "\<not> timed q" "active s" "outstanding_work s = 0 \<Longrightarrow> stopped s"
proof -
  have t: "threads s ! t \<in> set (threads s)" "pc (threads s ! t) = q"
    using assms(2) by (auto simp: at_pc_def)
  then show "mode (threads s ! t) = Run" "\<not> timed q" and a: "active s"
    using assms(1,3) by (auto simp: run_pre_def runs_def active_def)
  then show "outstanding_work s = 0 \<Longrightarrow> stopped s"
    using assms(1) by (simp add: run_pre_def)
qed

lemma run_pre_set_pc:
  assumes "run_pre s" and "at_pc t s AtLoop" and "\<not> timed q"
    and "stopped s \<Longrightarrow> \<not> unnotified q \<and> q \<noteq> InTask"
  shows "run_pre (set_pc t q s)"
  by (rule run_pre_threads [OF assms(1) _ threads_set_pc])
    (use assms runs_thread [OF assms(1,2)] in \<open>auto simp: at_pc_def runs_def\<close>)

lemma at_pc_nudge: "nudge s s' \<Longrightarrow> at_pc t s' AtLoop = at_pc t s AtLoop"
proof -
  assume n: "nudge s s'"
  have "pc (threads s' ! t) = AtLoop \<longleftrightarrow> pc (threads s ! t) = AtLoop" if "t < length (threads s)"
    using arg_cong [OF nudge_nth [OF that n], of "\<lambda>th. pc th = AtLoop"] by (simp only: still_pcs(1))
  then show ?thesis
    using nudge_length [OF n] by (auto simp: at_pc_def)
qed

lemma woken_set_pc:
  assumes "woken s" and "at_pc t s AtLoop"
  shows "coming (set_pc t q s)"
proof -
  have "\<exists>th \<in> set (threads (set_pc t q s)). waiting (pc th) \<and> \<not> unnotified (pc th)"
    using assms by (intro ex_thread_update(3) [OF threads_set_pc]) (auto simp: at_pc_def woken_def)
  then show ?thesis by (auto simp: coming_def)
qed

lemma ready_answered:
  assumes ans: "answered s2" and at: "at_pc t s2 AtLoop" and q: "\<not> waiting q"
    and s': "threads s' = threads (set_pc t q s2)" "signalled s' = signalled s2"
      "task_interrupted s' = task_interrupted s2" "task s' = task s2"
    and c: "counted s' p m"
  shows "ready_ok s'"
proof -
  have sig: "signalled s'"
    using ans s'(2) by (simp add: answered_def)
  have "attended s'"
  proof (cases "woken s2")
    case True
    then have "coming (set_pc t q s2)"
      by (rule woken_set_pc [OF _ at])
    then show ?thesis using s'(1) by (simp add: attended_def coming_def)
  next
    case False
    then have f: "\<not> waiter s2" "task s2 \<longrightarrow> task_interrupted s2"
      using ans by (auto simp: answered_def)
    have t: "t < length (threads s2)"
      using at by (simp add: at_pc_def)
    have "\<not> blocked s'"
      using ex_thread_update(1) [OF threads_set_pc [of t q s2] t, where P = "\<lambda>th. unnotified (pc th)"] f(1) q s'(1) unnotified_waiting
      by (auto simp: blocked_def waiter_def)
    moreover have "in_task s' \<longrightarrow> task_interrupted s'"
      using in_task_task(1) [OF c] f(2) s'(3,4) by simp
    ultimately show ?thesis by (simp add: attended_def)
  qed
  then show ?thesis using sig by (simp add: ready_ok_def)
qed

text \<open>A scheduler for one thread does not signal, and needs not to.\<close>

lemma ready_alone:
  assumes "run_pre s'" and "one_thread s'" and "at_pc t s' q" and "\<not> waiting q" and "q = InTask \<longrightarrow> task_interrupted s'"
  shows "ready_ok s'"
proof -
  have "length (threads s') = 1" "t = 0"
    using assms(1-3) by (auto simp: run_pre_def at_pc_def)
  then have "set (threads s') = {threads s' ! t}"
    by (auto simp: length_Suc_conv)
  then show ?thesis
    using assms(3-5) unnotified_waiting
    by (auto simp: ready_ok_def attended_def waiter_def blocked_def in_task_def at_pc_def)
qed


lemma run_ok_start_op:
  assumes c: "counted s p m" and pre: "run_pre s" and at: "at_pc t s AtLoop"
    and q: "op_queue s = Operation op # rest" and go: "\<not> stopped s"
  shows "run_ok (start_op pick op rest t s)"
proof -
  let ?s' = "start_op pick op rest t s"
  define s1 where "s1 = s\<lparr>op_queue := rest\<rparr>"
  define s2 where "s2 = (if rest \<noteq> [] \<and> \<not> one_thread s then wake_one_thread_and_unlock pick s1 else s1)"
  have n: "nudge s1 s2" and eq: "?s' = set_pc t (InOp op) (s2\<lparr>completed := completed s2 @ [op]\<rparr>)"
    by (simp_all add: s2_def start_op_def s1_def Let_def)
  have pre2: "run_pre s2"
    using pre by (intro run_pre_nudge [OF n]) (auto simp: s2_def s1_def dest: blocked_wake_one split: if_splits)
  have go2: "\<not> stopped s2" using go by (simp add: s2_def s1_def)
  have q2: "op_queue ?s' = rest"
    unfolding eq using nudgeD [OF n] by (simp add: s1_def)
  have at1: "at_pc t s1 AtLoop" using at by (simp add: s1_def at_pc_def)
  then have at2: "at_pc t s2 AtLoop" using at_pc_nudge [OF n] by simp
  have "run_pre ?s'"
    unfolding eq by (rule run_pre_set_pc) (use pre2 at2 go2 in \<open>auto simp: at_pc_def\<close>)
  moreover have "ready_ok ?s'"
  proof (cases "one_thread s")
    case True
    then show ?thesis
      using at2 nudgeD [OF n]
      by (intro ready_alone [OF \<open>run_pre ?s'\<close>, of t "InOp op"]) (auto simp: eq s1_def at_pc_def set_pc_def update_thread_def)
  next
    case False
    have c': "counted ?s' p m" by (rule counted_start_op [OF c at q])
    show ?thesis
    proof (cases "rest = []")
      case True
      then show ?thesis
        using q2 by (simp add: ready_ok_def)
    next
      case False
      then have s2: "s2 = wake_one_thread_and_unlock pick s1"
        using \<open>\<not> one_thread s\<close> by (simp add: s2_def)
      have "answered s2"
        unfolding s2 by (rule answered_wake_one) (use waiter_iff [OF c] in \<open>simp add: s1_def waiter_def\<close>)
      then show ?thesis
        by (rule ready_answered [OF _ at2 _ _ _ _ _ c', of "InOp op"]) (simp_all add: eq set_pc_def update_thread_def)
    qed
  qed
  ultimately show ?thesis by (simp add: run_ok_def)
qed


lemma run_ok_start_task:
  assumes c: "counted s p m" and pre: "run_pre s" and at: "at_pc t s AtLoop"
    and q: "op_queue s = TaskOperation # rest" and go: "\<not> stopped s"
  shows "run_ok (start_task pick rest t s)"
proof -
  let ?s' = "start_task pick rest t s"
  define s1 where "s1 = s\<lparr>op_queue := rest, task_interrupted := (rest \<noteq> [])\<rparr>"
  define s2 where "s2 = (if rest \<noteq> [] \<and> \<not> one_thread s then event_unlock_and_signal_one pick s1 else s1)"
  have n: "nudge s1 s2" and eq: "?s' = set_pc t InTask s2"
    by (simp_all add: s2_def start_task_def s1_def Let_def)
  have "run_pre s1"
    using pre go by (simp add: s1_def run_views)
  then have pre2: "run_pre s2"
    by (intro run_pre_nudge [OF n]) (auto simp: s2_def s1_def dest: blocked_signal_one split: if_splits)
  have go2: "\<not> stopped s2" using go by (simp add: s2_def s1_def)
  have q2: "op_queue ?s' = rest"
    unfolding eq using nudgeD [OF n] by (simp add: s1_def)
  have at1: "at_pc t s1 AtLoop" using at by (simp add: s1_def at_pc_def)
  then have at2: "at_pc t s2 AtLoop" using at_pc_nudge [OF n] by simp
  have "run_pre ?s'"
    unfolding eq by (rule run_pre_set_pc) (use pre2 at2 go2 in \<open>auto simp: at_pc_def\<close>)
  moreover have "ready_ok ?s'"
  proof (cases "rest = []")
    case True
    then show ?thesis
      using q2 by (simp add: ready_ok_def)
  next
    case False
    then have i: "task_interrupted s2"
      using n by (simp add: nudge_def s1_def)
    show ?thesis
    proof (cases "one_thread s")
      case True
      then show ?thesis
        using at2 nudgeD [OF n] i
        by (intro ready_alone [OF \<open>run_pre ?s'\<close>, of t InTask]) (auto simp: eq s1_def at_pc_def set_pc_def update_thread_def)
    next
      case False
      have s2: "s2 = event_unlock_and_signal_one pick s1"
        using False \<open>rest \<noteq> []\<close> by (simp add: s2_def)
      have "answered s2"
        unfolding s2 by (rule answered_signal_one)
          (use waiter_iff [OF c] \<open>rest \<noteq> []\<close> in \<open>simp_all add: s1_def waiter_def\<close>)
      then show ?thesis
        by (rule ready_answered [OF _ at2 _ _ _ _ _ counted_start_task [OF c at q, of pick], of InTask])
          (simp_all add: eq)
    qed
  qed
  ultimately show ?thesis by (simp add: run_ok_def)
qed

lemma run_ok_leave:
  assumes "run_pre s" and "at_pc t s AtLoop" and "stopped s"
  shows "run_ok (set_pc t Outside s)"
proof -
  have "run_pre (set_pc t Outside s)"
    by (rule run_pre_set_pc) (use assms in auto)
  then show ?thesis
    using assms(3) by (simp add: run_ok_def ready_ok_def run_pre_def alert_def)
qed

lemma run_ok_wait:
  assumes "run_pre s" and "at_pc t s AtLoop" and "\<not> stopped s" and "op_queue s = []"
  shows "run_ok (event_wait t s)" "run_ok (event_wait t (event_clear s))"
proof -
  have "run_pre (set_pc t (Waiting False) (s'\<lparr>waiters := waiters s + 1\<rparr>))" if "run_pre s'" "at_pc t s' AtLoop" "\<not> stopped s'" for s'
    by (rule run_pre_set_pc) (use that in \<open>auto simp: at_pc_def\<close>)
  moreover have "run_pre (event_clear s)"
    using assms(1,3) by (simp add: event_clear_def run_views)
  ultimately show "run_ok (event_wait t s)" "run_ok (event_wait t (event_clear s))"
    using assms by (simp_all add: run_ok_def ready_ok_def event_wait_def event_clear_def at_pc_def)
qed

lemma run_ok_do_run_one:
  assumes "counted s p m" and "run_pre s" and "at_pc t s AtLoop"
  shows "run_ok (do_run_one pick t s)"
  using assms by (auto simp: do_run_one_def run_ok_start_op run_ok_start_task run_ok_leave run_ok_wait
    split: list.splits operation.splits)


section \<open>The steps keep it\<close>

lemma threads_update_thread: "threads (update_thread t f s) = (threads s)[t := f (threads s ! t)]"
  by (simp add: update_thread_def)

text \<open>A stop, from any state.\<close>

lemma run_ok_stop:
  assumes "in_task s \<longrightarrow> task s" and "\<forall>th \<in> set (threads s). runs th" and "one_thread s \<longrightarrow> length (threads s) \<le> 1"
  shows "run_ok (stop s)" and "stopped (stop s)"
proof -
  have th: "\<forall>th \<in> set (threads (stop s)). runs th"
    by (rule runs_nudge [OF nudge_stop assms(2)])
  have "\<not> blocked (stop s)"
    by (auto simp: stop_def stop_all_threads_def event_signal_all_def interrupt_task_def blocked_def)
  moreover have i: "task s \<longrightarrow> task_interrupted (stop s)" "signalled (stop s)" "stopped (stop s)"
    by (auto simp: stop_def stop_all_threads_def event_signal_all_def interrupt_task_def)
  moreover have "in_task (stop s) \<longrightarrow> task s"
    using assms(1) nudge_views(2) [OF nudge_stop [of s]] by simp
  ultimately have "alert (stop s)"
    by (auto simp: alert_def)
  moreover have "one_thread (stop s) \<longrightarrow> length (threads (stop s)) \<le> 1"
    using assms(3) nudge_length [OF nudge_stop [of s]] nudgeD(7) [OF nudge_stop [of s]] by simp
  ultimately show "run_ok (stop s)"
    using th i by (auto simp: run_ok_def run_pre_def ready_ok_def alert_def)
  show "stopped (stop s)" by (rule i)
qed

lemma run_ok_enter:
  assumes "counted s p m" and "run_ok s" and at: "at_pc t s Outside"
  shows "run_ok (enter Run t s)"
proof (cases "outstanding_work s = 0")
  case True
  have "in_task (update_thread t (\<lambda>th. th\<lparr>done_count := 0\<rparr>) s) \<Longrightarrow> in_task s"
    using at by (auto simp: in_task_def at_pc_def threads_update_thread dest!: set_update_subset_insert [THEN subsetD])
  then have c: "in_task (update_thread t (\<lambda>th. th\<lparr>done_count := 0\<rparr>) s)
      \<longrightarrow> task (update_thread t (\<lambda>th. th\<lparr>done_count := 0\<rparr>) s)"
    using in_task_task(1) [OF assms(1)] by simp
  have "runs ((threads s ! t)\<lparr>done_count := 0\<rparr>)"
    using at by (simp add: at_pc_def runs_def)
  then have "\<forall>th \<in> set (threads (update_thread t (\<lambda>th. th\<lparr>done_count := 0\<rparr>) s)). runs th"
    using assms(2) by (auto simp: run_ok_def run_pre_def threads_update_thread
      dest!: set_update_subset_insert [THEN subsetD])
  then show ?thesis
    using True run_ok_stop(1) [OF c] assms(2) by (simp add: enter_def run_ok_def run_pre_def)
next
  case False
  let ?x = "\<lparr>mode = Run, pc = AtLoop, done_count = 0, private_work = 0, private_queue = []\<rparr>"
  let ?s' = "update_thread t (\<lambda>th. ?x) s"
  have t: "t < length (threads s)" using at by (simp add: at_pc_def)
  note u = ex_thread_update [OF threads_update_thread [of t "\<lambda>th. ?x" s] t]
  have "run_pre ?s'"
    by (rule run_pre_threads [OF _ t threads_update_thread])
      (use assms False in \<open>auto simp: run_ok_def runs_def\<close>)
  moreover have "coming ?s'"
    using u(2) [of "\<lambda>th. pc th = AtLoop"] by (auto simp: coming_def)
  moreover have "waiter ?s' \<Longrightarrow> waiter s"
    using u(1) [of "\<lambda>th. waiting (pc th)"] by (auto simp: waiter_def)
  ultimately show ?thesis
    using False assms(2) by (auto simp: enter_def run_ok_def ready_ok_def attended_def)
qed

lemma run_pre_moves:
  assumes "run_ok s" and "at_pc t s q" and "q \<noteq> Outside" and "threads s' = (threads s)[t := x]" and "runs x"
    and "\<not> unnotified (pc x)" "pc x \<noteq> InTask" and "stopped s' = stopped s" "signalled s' = signalled s"
    "one_thread s' = one_thread s" "task_interrupted s \<longrightarrow> task_interrupted s'" "outstanding_work s' = 0 \<Longrightarrow> outstanding_work s = 0"
  shows "run_pre s'"
  by (rule run_pre_threads [OF _ _ assms(4,5)])
    (use assms runs_thread [OF _ assms(2,3)] in \<open>auto simp: run_ok_def at_pc_def\<close>)

lemma run_ok_event_wakeup:
  assumes c: "counted s p m" and ok: "run_ok s" and at: "at_pc t s (Waiting b)"
  shows "run_ok (event_wakeup pick t s)"
proof -
  let ?s1 = "set_pc t AtLoop (s\<lparr>waiters := waiters s - 1\<rparr>)"
  have "waiting (Waiting b)" by simp
  note c1 = counted_wakes [OF c at this]
  have r: "runs ((threads s ! t)\<lparr>pc := AtLoop\<rparr>)"
    using runs_thread(1) [OF _ at] ok by (simp add: run_ok_def runs_def)
  have pre: "run_pre ?s1"
    by (rule run_pre_moves [OF ok at, where x = "(threads s ! t)\<lparr>pc := AtLoop\<rparr>"])
      (use r in \<open>auto simp: threads_set_pc\<close>)
  show ?thesis
  proof (cases "signalled s")
    case True
    then show ?thesis
      using run_ok_do_run_one [OF c1(1) pre c1(2)] by (simp add: event_wakeup_def Let_def)
  next
    case False
    have "waiter s"
      using at by (auto simp: waiter_def at_pc_def intro!: bexI [OF _ nth_mem])
    then have "op_queue s = []" "\<not> stopped s"
      using ok False by (auto simp: run_ok_def ready_ok_def run_pre_def alert_def)
    then show ?thesis
      using run_ok_wait(1) [OF pre c1(2)] False by (simp add: event_wakeup_def Let_def)
  qed
qed

lemma run_ok_task_returns:
  assumes c: "counted s p m" and ok: "run_ok s" and at: "at_pc t s InTask"
  shows "run_ok (task_returns pick t s)"
proof -
  note t = runs_thread [OF _ at, simplified]
  have m: "mode (threads s ! t) = Run"
    using t(1) ok by (simp add: run_ok_def)
  let ?x = "(threads s ! t)\<lparr>pc := AtLoop, private_work := 0, private_queue := []\<rparr>"
  have th: "threads (task_cleanup t s) = (threads s)[t := ?x]"
    by (simp add: task_cleanup_def Let_def threads_update_thread)
  have "0 \<le> outstanding_work s"
    using work_bound [OF c] by linarith
  then have "run_pre (task_cleanup t s)"
    by (intro run_pre_moves [OF ok at _ th])
      (use m in \<open>auto simp: task_cleanup_fields runs_def task_cleanup_def Let_def split: if_splits\<close>)
  then show ?thesis
    using run_ok_do_run_one counted_task_cleanup [OF c at] m by (auto simp: task_returns_def Let_def)
qed


text \<open>A thread in a handler moves: nothing that wakes changes.\<close>

lemma ready_ok_moves:
  assumes ok: "ready_ok s" and t: "t < length (threads s)" and th: "threads s' = (threads s)[t := x]"
    and old: "pc (threads s ! t) \<noteq> AtLoop" "\<not> waiting (pc (threads s ! t))"
    and new: "\<not> waiting (pc x)" "pc x \<noteq> InTask \<or> pc (threads s ! t) = InTask"
    and g: "op_queue s' = op_queue s" "signalled s' = signalled s" "stopped s' = stopped s"
      "task_interrupted s' = task_interrupted s"
  shows "ready_ok s'"
proof -
  note u = ex_thread_update [OF th t]
  have "waiter s' \<Longrightarrow> waiter s"
    using u(1) [of "\<lambda>th. waiting (pc th)"] new(1) by (auto simp: waiter_def)
  moreover have "coming s \<Longrightarrow> coming s'"
    using u(3) [of "\<lambda>th. pc th = AtLoop \<or> waiting (pc th) \<and> \<not> unnotified (pc th)"] old by (auto simp: coming_def)
  moreover have "blocked s' \<Longrightarrow> blocked s"
    using u(1) [of "\<lambda>th. unnotified (pc th)"] new(1) unnotified_waiting by (auto simp: blocked_def)
  moreover have "in_task s' \<Longrightarrow> in_task s"
  proof -
    assume "in_task s'"
    then have "pc x = InTask \<or> in_task s"
      using u(1) [of "\<lambda>th. pc th = InTask"] by (auto simp: in_task_def)
    then show "in_task s"
      using new(2) t by (auto simp: in_task_def)
  qed
  ultimately show ?thesis
    using ok g unfolding ready_ok_def attended_def by metis
qed

lemma run_ok_add_private:
  assumes "counted s p m" and ok: "run_ok s" and at: "at_pc t s q" and q: "q = InTask \<or> in_op q"
  shows "run_ok (add_private k ops t s)"
proof -
  let ?x = "(threads s ! t)\<lparr>private_work := private_work (threads s ! t) + k,
    private_queue := private_queue (threads s ! t) @ ops\<rparr>"
  have q': "q \<noteq> Outside" "q \<noteq> AtLoop" "\<not> waiting q" "\<not> unnotified q" "\<not> timed q"
    using q unnotified_waiting by (cases q; auto)+
  have t: "t < length (threads s)" "pc (threads s ! t) = q"
    using at by (simp_all add: at_pc_def)
  have r: "mode (threads s ! t) = Run" "outstanding_work s = 0 \<Longrightarrow> stopped s" "active s"
    using runs_thread [OF _ at q'(1)] ok by (simp_all add: run_ok_def)
  have th: "threads (add_private k ops t s) = (threads s)[t := ?x]"
    by (simp add: add_private_def threads_update_thread)
  have "alert s" "stopped s \<Longrightarrow> q = InTask \<Longrightarrow> task_interrupted s" if "stopped s"
    using ok that t by (auto simp: run_ok_def run_pre_def alert_def in_task_def)
  then have "run_pre (add_private k ops t s)"
    by (intro run_pre_threads [OF _ t(1) th]) (use ok t q' r in \<open>auto simp: run_ok_def runs_def add_private_def\<close>)
  moreover have "ready_ok (add_private k ops t s)"
    by (rule ready_ok_moves [OF _ t(1) th]) (use ok t q' in \<open>auto simp: run_ok_def add_private_def\<close>)
  ultimately show ?thesis by (simp add: run_ok_def)
qed

lemma run_ok_work_finished:
  assumes ok: "run_ok s" and "in_task s \<longrightarrow> task s"
  shows "run_ok (work_finished s)"
proof (cases "outstanding_work s = 1")
  case True
  then show ?thesis
    using run_ok_stop(1) [of "s\<lparr>outstanding_work := 0\<rparr>"] assms
    by (simp add: work_finished_def run_ok_def run_pre_def in_task_def)
next
  case False
  then show ?thesis
    using ok by (auto simp: work_finished_def Let_def run_ok_def run_pre_def ready_ok_def waiter_def attended_def
      coming_def alert_def blocked_def in_task_def active_def)
qed

lemma run_ok_more_work:
  assumes "run_ok s" and "0 \<le> outstanding_work s" and "0 \<le> k"
  shows "run_ok (s\<lparr>outstanding_work := outstanding_work s + k\<rparr>)"
proof -
  have "outstanding_work s + k = 0 \<Longrightarrow> outstanding_work s = 0"
    using assms(2,3) by linarith
  then show ?thesis
    using assms(1) by (auto simp: run_ok_def run_pre_def ready_ok_def waiter_def attended_def
      coming_def alert_def blocked_def in_task_def active_def)
qed

lemma run_ok_cleanup:
  assumes ok: "run_ok s" and at: "at_pc t s (InOp op)"
  shows "run_ok (update_thread t (\<lambda>th. th\<lparr>private_work := 0, pc := Cleanup\<rparr>) s)"
proof -
  let ?s' = "update_thread t (\<lambda>th. th\<lparr>private_work := 0, pc := Cleanup\<rparr>) s"
  have t: "t < length (threads s)" "pc (threads s ! t) = InOp op"
    using at by (simp_all add: at_pc_def)
  have r: "mode (threads s ! t) = Run"
    using runs_thread [OF _ at] ok by (simp add: run_ok_def)
  have "run_pre ?s'"
    by (rule run_pre_moves [OF ok at _ threads_update_thread]) (use r in \<open>auto simp: runs_def\<close>)
  moreover have "ready_ok ?s'"
    by (rule ready_ok_moves [OF _ t(1) threads_update_thread]) (use ok t in \<open>auto simp: run_ok_def\<close>)
  ultimately show ?thesis by (simp add: run_ok_def)
qed

lemma at_pc_InOp_nudge:
  assumes "nudge s s'"
  shows "at_pc t s' (InOp op) = at_pc t s (InOp op)"
proof -
  have "pc (still th) = InOp op \<longleftrightarrow> pc th = InOp op" for th
    by (cases "pc th") (simp_all add: still_def)
  then show ?thesis
    using nudge_nth [OF _ assms, of t] nudge_length [OF assms] by (metis at_pc_def)
qed

lemma run_ok_work_cleanup_count:
  assumes c: "counted s p m" and ok: "run_ok s" and at: "at_pc t s (InOp op)"
  shows "run_ok (work_cleanup_count t s)"
proof -
  define w where "w = private_work (threads s ! t)"
  define s1 where "s1 = (if w > 1 then s\<lparr>outstanding_work := outstanding_work s + (w - 1)\<rparr>
    else if w < 1 then work_finished s else s)"
  have eq: "work_cleanup_count t s = update_thread t (\<lambda>th. th\<lparr>private_work := 0, pc := Cleanup\<rparr>) s1"
    by (simp add: work_cleanup_count_def s1_def w_def Let_def)
  have "0 \<le> outstanding_work s"
    using work_bound [OF c] by linarith
  moreover have "run_ok (work_finished s)"
    by (rule run_ok_work_finished [OF ok]) (use in_task_task(1) [OF c] in blast)
  ultimately have "run_ok s1"
    using ok run_ok_more_work [OF ok, of "w - 1"] by (simp add: s1_def)
  moreover have "at_pc t (work_finished s) (InOp op)"
    using at_pc_InOp_nudge [OF nudge_work_finished] at by (simp add: at_pc_def)
  then have "at_pc t s1 (InOp op)"
    using at by (simp add: s1_def at_pc_def)
  ultimately show ?thesis
    unfolding eq by (rule run_ok_cleanup)
qed

lemma set_pc_same:
  assumes "at_pc t s q"
  shows "set_pc t q s = s"
proof -
  have "(threads s ! t)\<lparr>pc := q\<rparr> = threads s ! t"
    using assms by (cases "threads s ! t") (simp add: at_pc_def)
  then show ?thesis
    by (simp add: set_pc_def update_thread_def)
qed

lemma run_ok_work_cleanup_queue:
  assumes c: "counted s p m" and ok: "run_ok s" and at: "at_pc t s Cleanup"
  shows "run_ok (work_cleanup_queue pick t s)"
proof -
  note a = at_pcD [OF c at]
  have m: "mode (threads s ! t) = Run"
    using runs_thread [OF _ at] ok by (simp add: run_ok_def)
  define n where "n = (if done_count (threads s ! t) \<noteq> 2 ^ 64 - 1 then done_count (threads s ! t) + 1
    else done_count (threads s ! t))"
  let ?x = "(threads s ! t)\<lparr>pc := AtLoop, private_queue := [], done_count := n\<rparr>"
  define s1 where "s1 = update_thread t (\<lambda>th. th\<lparr>pc := AtLoop, private_queue := [], done_count := n\<rparr>) s"
  define s2 where "s2 = s1\<lparr>op_queue := op_queue s1 @ map Operation (private_queue (threads s ! t))\<rparr>"
  have th: "threads s2 = (threads s)[t := ?x]"
    by (simp add: s2_def s1_def threads_update_thread)
  have pre: "run_pre s2"
    by (rule run_pre_moves [OF ok at _ th]) (use m in \<open>auto simp: s2_def s1_def runs_def\<close>)
  have c2: "counted s2 p m"
    by (rule counted_step [OF c a(1), where th' = ?x])
      (use a in \<open>auto simp: s2_def s1_def thread_ok_def map_still_update_thread\<close>)
  have at2: "at_pc t s2 AtLoop"
    using a(1) by (simp add: th at_pc_def)
  have eq: "work_cleanup_queue pick t s =
      (if private_queue (threads s ! t) \<noteq> [] then do_run_one pick t s2 else set_pc t AtLoop s2)"
    using m a(1) by (simp add: work_cleanup_queue_def s2_def s1_def n_def Let_def update_thread_queue
      do_one_def threads_update_thread)
  have same: "set_pc t AtLoop s2 = s2"
    by (rule set_pc_same [OF at2])
  have "run_ok s2" if "private_queue (threads s ! t) = []"
  proof -
    note u = ex_thread_update [OF th a(1)]
    have "coming s2"
      using u(2) [of "\<lambda>th. pc th = AtLoop"] by (auto simp: coming_def)
    moreover have "waiter s2 \<Longrightarrow> waiter s"
      using u(1) [of "\<lambda>th. waiting (pc th)"] by (auto simp: waiter_def)
    moreover have "op_queue s2 = op_queue s" "signalled s2 = signalled s"
      using that by (simp_all add: s2_def s1_def)
    ultimately show ?thesis
      using ok pre by (auto simp: run_ok_def ready_ok_def attended_def)
  qed
  then show ?thesis
    using run_ok_do_run_one [OF c2 pre at2] by (auto simp: eq same)
qed


lemma run_ok_push:
  assumes c: "counted s p m" and ok: "run_ok s" and k: "0 \<le> k"
    and s1: "s1 = s\<lparr>outstanding_work := outstanding_work s + k, op_queue := q\<rparr> \<or>
      s1 = s\<lparr>task := True, op_queue := q\<rparr>"
  shows "run_ok (wake_one_thread_and_unlock pick s1)"
proof -
  let ?s' = "wake_one_thread_and_unlock pick s1"
  have "0 \<le> outstanding_work s"
    using work_bound [OF c] by linarith
  then have "run_ok (s\<lparr>outstanding_work := outstanding_work s + k\<rparr>)"
    by (rule run_ok_more_work [OF ok _ k])
  then have "run_pre s1"
    using s1 ok by (auto simp: run_ok_def run_views)
  then have pre: "run_pre ?s'"
    by (rule run_pre_nudge [OF nudge_wake_one]) (auto dest: blocked_wake_one)
  have "waiters s1 > 0 \<longleftrightarrow> waiter s1"
    using waiter_iff [OF c] s1 by (auto simp: waiter_def)
  then have ans: "answered ?s'"
    by (rule answered_wake_one)
  have "in_task s1 = in_task s" "task s \<Longrightarrow> task s1"
    using s1 by (auto simp: in_task_def)
  then have "in_task ?s' \<Longrightarrow> task ?s'"
    using in_task_task(1) [OF c] nudge_views(2) [OF nudge_wake_one [of s1 pick]]
      nudgeD(2) [OF nudge_wake_one [of s1 pick]] by simp
  then have "attended ?s'"
    using ans unnotified_waiting
    by (auto simp: answered_def attended_def woken_def coming_def waiter_def blocked_def)
  then show ?thesis
    using pre ans by (simp add: run_ok_def ready_ok_def answered_def)
qed

lemma run_ok_post:
  assumes c: "counted s p m" and ok: "run_ok s" and "calls caller s"
  shows "run_ok (post_immediate_completion pick caller op b s)"
    and "run_ok (post_immediate_completions pick caller n ops b s)"
    and "run_ok (post_deferred_completion pick caller op s)"
    and "run_ok (post_deferred_completions pick caller ops s)"
    and "run_ok (do_dispatch pick op s)"
proof -
  have own: "run_ok (add_private k ops' t s)" if "caller = Some t" for k ops' t
  proof -
    have "calls (Some t) s"
      using assms(3) that by simp
    then obtain op' where "at_pc t s (InOp op')"
      using calls_at by blast
    then show ?thesis
      by (rule run_ok_add_private [OF c ok]) simp
  qed
  note push = run_ok_push [OF c ok _ disjI1 [OF refl], where pick = pick]
  have push0: "run_ok (wake_one_thread_and_unlock pick (s\<lparr>op_queue := q\<rparr>))" for q
    using push [where k = 0 and q = q] by simp
  show "run_ok (post_immediate_completion pick caller op b s)"
    "run_ok (post_immediate_completions pick caller n ops b s)"
    using own push
    by (auto simp: post_immediate_completion_def post_immediate_completions_def work_started_def Let_def
      split: option.split bool.split)
  show "run_ok (post_deferred_completion pick caller op s)"
    "run_ok (post_deferred_completions pick caller ops s)"
    using own push0 ok
    by (auto simp: post_deferred_completion_def post_deferred_completions_def split: option.split bool.split)
  show "run_ok (do_dispatch pick op s)"
    using push by (simp add: do_dispatch_def work_started_def Let_def)
qed

lemma run_ok_restart:
  assumes "run_ok s" and "\<forall>th \<in> set (threads s). pc th = Outside"
  shows "run_ok (restart s)"
  using assms by (auto simp: restart_def run_ok_def run_pre_def ready_ok_def attended_def waiter_def blocked_def
    in_task_def active_def)

lemma run_ok_step:
  assumes "sched_step {Run} w w'" and c: "counted (sched w) (pending w) (posted w)" and ok: "run_ok (sched w)"
  shows "run_ok (sched w')"
  using assms(1)
proof cases
  case (step_enter m t)
  then show ?thesis using run_ok_enter [OF c ok] by simp
next
  case (step_one t pick)
  moreover have "mode (threads (sched w) ! t) = Run"
    using runs_thread(1) [OF _ step_one(2)] ok by (simp add: run_ok_def)
  ultimately show ?thesis
    using run_ok_do_run_one [OF c _ step_one(2)] ok by (simp add: do_one_def run_ok_def)
next
  case (step_wakeup t b pick)
  then show ?thesis using run_ok_event_wakeup [OF c ok] by simp
next
  case (step_timed_wakeup t b pick)
  then show ?thesis using runs_thread(2) [OF _ step_timed_wakeup(2)] ok by (simp add: run_ok_def)
next
  case (step_task_completes t op)
  then show ?thesis using run_ok_add_private [OF c ok] by (simp add: hand_over_def)
next
  case (step_task_returns t pick)
  then show ?thesis using run_ok_task_returns [OF c ok] by simp
next
  case (step_op_returns t op)
  then show ?thesis using run_ok_work_cleanup_count [OF c ok] by simp
next
  case (step_cleanup t pick)
  then show ?thesis using run_ok_work_cleanup_queue [OF c ok] by simp
next
  case step_work
  then show ?thesis
    using run_ok_more_work [OF ok, of 1] work_bound [OF c] by (simp add: work_started_def)
next
  case step_work_ends
  then show ?thesis
    using run_ok_work_finished [OF ok] in_task_task(1) [OF c] by simp
next
  case step_stop
  then show ?thesis
    using run_ok_stop(1) [of "sched w"] in_task_task(1) [OF c] ok
    by (metis run_ok_def run_pre_def select_convs(1) surjective update_convs(1))
next
  case step_restart
  then show ?thesis using run_ok_restart [OF ok] by simp
next
  case (step_init pick)
  then show ?thesis
    using run_ok_push [OF c ok _ disjI2 [OF refl], where k = 0 and pick = pick] ok by (simp add: init_task_def)
next
  case (step_dispatch op pick)
  then show ?thesis using run_ok_post(5) [OF c ok, of None] by (simp add: hand_over_def calls_def)
qed (use run_ok_post [OF c ok] in \<open>simp_all add: hand_over_def\<close>)

lemma run_ok_reach:
  assumes "sched_reach {Run} hint own n w" and "one_thread (new_scheduler hint own n) \<Longrightarrow> n \<le> 1"
  shows "run_ok (sched w)"
  using assms(1) unfolding sched_reach_def
proof (induction rule: rtranclp_induct)
  case base
  have "run_pre (new_scheduler hint own n)"
    using assms(2) by (auto simp: run_views new_scheduler_def new_thread_def runs_def)
  then show ?case
    by (simp add: new_world_def run_ok_def ready_ok_def new_scheduler_def)
next
  case (step w w')
  then have "counted (sched w) (pending w) (posted w)"
    using counted_reach by (simp add: sched_reach_def)
  then show ?case
    using step by (blast intro: run_ok_step)
qed


section \<open>What follows for the threads in run\<close>

text \<open>
  Property C17. No wakeup is lost among threads in run: while the scheduler is not stopped and its queue
  holds an operation or the task, a thread is on its way to the queue (at the loop, or woken from its
  wait), or no thread is blocked in a wait and the task, if a thread runs it, has been interrupted.
\<close>

theorem ready_work_is_attended:
  assumes "sched_reach {Run} hint own n w" and "one_thread (new_scheduler hint own n) \<Longrightarrow> n \<le> 1"
    and "\<not> stopped (sched w)" and "op_queue (sched w) \<noteq> []"
  shows "(\<exists>th \<in> set (threads (sched w)). pc th = AtLoop \<or> pc th = Waiting True)
    \<or> (\<forall>th \<in> set (threads (sched w)). pc th \<noteq> Waiting False \<and> (pc th = InTask \<longrightarrow> task_interrupted (sched w)))"
proof -
  have ok: "run_ok (sched w)"
    by (rule run_ok_reach [OF assms(1,2)])
  have "pc th = Waiting True" if "th \<in> set (threads (sched w))" "waiting (pc th)" "\<not> unnotified (pc th)" for th
    using ok that by (cases "pc th") (auto simp: run_ok_def run_pre_def runs_def)
  moreover have "attended (sched w)"
    using ok assms(3,4) by (simp add: run_ok_def ready_ok_def)
  ultimately show ?thesis
    by (fastforce simp: attended_def coming_def blocked_def in_task_def)
qed

lemma leaves_iff:
  assumes "at_pc t s AtLoop"
  shows "at_pc t (do_run_one pick t s) Outside \<longleftrightarrow> stopped s"
  using assms by (simp add: do_run_one_def start_op_def start_task_def event_wait_def at_pc_def [of t s] Let_def
    split: list.split operation.split)

text \<open>
  Property C18. Threads in run leave when the work ends and not before: when the count of work is zero with a
  thread inside, the scheduler is stopped; when it is stopped, every thread in a wait has been notified,
  a thread running the task has been interrupted, and each leaves with its next step; a thread whose
  step makes it leave has found the scheduler stopped.
\<close>

theorem run_ends_with_the_work:
  assumes "sched_reach {Run} hint own n w" and "one_thread (new_scheduler hint own n) \<Longrightarrow> n \<le> 1"
  shows "(outstanding_work (sched w) = 0 \<and> at_pc t (sched w) q \<and> q \<noteq> Outside \<longrightarrow> stopped (sched w))
    \<and> (at_pc t (sched w) AtLoop \<longrightarrow> (at_pc t (do_one pick t (sched w)) Outside \<longleftrightarrow> stopped (sched w)))
    \<and> (at_pc t (sched w) (Waiting b) \<longrightarrow>
        (at_pc t (event_wakeup pick t (sched w)) Outside \<longleftrightarrow> stopped (sched w)) \<and> (stopped (sched w) \<longrightarrow> b))
    \<and> (at_pc t (sched w) InTask \<longrightarrow>
        (at_pc t (task_returns pick t (sched w)) Outside \<longleftrightarrow> stopped (sched w))
        \<and> (stopped (sched w) \<longrightarrow> task_interrupted (sched w)))"
proof -
  have ok: "run_ok (sched w)"
    by (rule run_ok_reach [OF assms])
  then have pre: "run_pre (sched w)"
    by (simp add: run_ok_def)
  have c: "counted (sched w) (pending w) (posted w)"
    by (rule counted_reach [OF assms(1)])
  note m = runs_thread(1) [OF pre]
  have alert: "stopped (sched w) \<Longrightarrow> alert (sched w)"
    using pre by (simp add: run_pre_def)
  have 1: "outstanding_work (sched w) = 0 \<and> at_pc t (sched w) q \<and> q \<noteq> Outside \<longrightarrow> stopped (sched w)"
    using runs_thread(4) [OF pre] by blast
  have 2: "at_pc t (do_one pick t (sched w)) Outside \<longleftrightarrow> stopped (sched w)" if "at_pc t (sched w) AtLoop"
    using leaves_iff [OF that] m [OF that] by (simp add: do_one_def)
  have 3: "(at_pc t (event_wakeup pick t (sched w)) Outside \<longleftrightarrow> stopped (sched w)) \<and> (stopped (sched w) \<longrightarrow> b)"
    if at: "at_pc t (sched w) (Waiting b)"
  proof -
    let ?s1 = "set_pc t AtLoop (sched w\<lparr>waiters := waiters (sched w) - 1\<rparr>)"
    have t: "t < length (threads (sched w))" using at by (simp add: at_pc_def)
    then have "at_pc t ?s1 AtLoop" by simp
    from leaves_iff [OF this] have "signalled (sched w) \<Longrightarrow> ?thesis"
      using alert at t by (auto simp: event_wakeup_def Let_def alert_def blocked_def at_pc_def [of _ "sched w"]
        dest!: bspec [OF _ nth_mem [OF t]])
    moreover have "\<not> signalled (sched w) \<Longrightarrow> ?thesis"
      using alert by (auto simp: event_wakeup_def Let_def alert_def event_wait_def)
    ultimately show ?thesis by blast
  qed
  have 4: "(at_pc t (task_returns pick t (sched w)) Outside \<longleftrightarrow> stopped (sched w))
      \<and> (stopped (sched w) \<longrightarrow> task_interrupted (sched w))" if at: "at_pc t (sched w) InTask"
    using leaves_iff [OF counted_task_cleanup(2) [OF c at]] m [OF at] alert at
    by (auto simp: task_returns_def Let_def task_cleanup_fields alert_def in_task_def at_pc_def [of _ "sched w"]
      dest!: bspec [OF _ nth_mem])
  show ?thesis using 1 2 3 4 by blast
qed


theorem ready_work_is_attended_witness:
  "\<exists>th \<in> set (threads (sched (demo_world AtLoop [] [Operation 7] 1 False 0))).
     pc th = AtLoop \<or> pc th = Waiting True"
  using ready_work_is_attended [OF demo_reach(2) [of "{Run}"]]
  by (simp add: demo_world_def demo_sched_def)

theorem run_ends_with_the_work_witness:
  "at_pc 0 (do_one 0 0 (sched (demo_world AtLoop [7] [] 0 True 1))) Outside"
  using run_ends_with_the_work [OF demo_reach(5) [of "{Run}"], of 0 AtLoop 0 False]
  by (simp add: demo_world_def demo_sched_def at_pc_def)

section \<open>A thread in run-one next to a thread in run\<close>

definition two_threads :: "operation list \<Rightarrow> bool \<Rightarrow> nat \<Rightarrow> nat list \<Rightarrow> nat multiset \<Rightarrow> thread_info \<Rightarrow> thread_info \<Rightarrow> world" where
  "two_threads q sig n ls ps a b = \<lparr>sched = \<lparr>one_thread = False, task = False, task_interrupted = True,
     outstanding_work = 1, op_queue = q, stopped = False, shut_down = False, concurrency_hint = - 1,
     own_thread = False, signalled = sig, waiters = n, interrupts = 0, completed = ls, threads = [a, b]\<rparr>,
     pending = 0, posted = ps\<rparr>"

definition in_mode :: "run_mode \<Rightarrow> pc \<Rightarrow> nat \<Rightarrow> int \<Rightarrow> nat list \<Rightarrow> thread_info" where
  "in_mode m p n k ops = \<lparr>mode = m, pc = p, done_count = n, private_work = k, private_queue = ops\<rparr>"

lemmas two_eval = sched_eval two_threads_def in_mode_def add_private_def event_wait_def event_clear_def

lemma replicate_two: "replicate 2 x = [x, x]"
  by (simp add: numeral_2_eq_2)

lemma lost_reach:
  "sched_reach {Run, RunOne} (- 1) False 2 (two_threads [Operation 8] False 1 [7] {#7, 8#}
     (in_mode Run (Waiting False) 0 0 []) (in_mode RunOne Outside 1 0 []))"
proof -
  let ?M = "{Run, RunOne}"
  let ?reach = "sched_reach ?M (- 1) False 2"
  have ext: "?reach w'" if "?reach w" "sched_step ?M w w'" for w w'
    using that by (auto simp: sched_reach_def)
  have 0: "?reach (new_world (- 1) False 2)"
    by (simp add: sched_reach_def)
  have 1: "?reach (two_threads [Operation 7] True 0 [] {#7#} (in_mode Run Outside 0 0 []) (in_mode Run Outside 0 0 []))"
    using ext [OF 0 step_post [of None _ ?M 7 0 False]] by (simp add: two_eval replicate_two)
  have 2: "?reach (two_threads [Operation 7] True 0 [] {#7#} (in_mode Run Outside 0 0 []) (in_mode RunOne AtLoop 0 0 []))"
    using ext [OF 1 step_enter [of RunOne ?M 1]] by (simp add: two_eval)
  have 3: "?reach (two_threads [] True 0 [7] {#7#} (in_mode Run Outside 0 0 []) (in_mode RunOne (InOp 7) 0 0 []))"
    using ext [OF 2 step_one [of 1 _ ?M 0]] by (simp add: two_eval)
  have 4: "?reach (two_threads [] True 0 [7] {#7#} (in_mode Run AtLoop 0 0 []) (in_mode RunOne (InOp 7) 0 0 []))"
    using ext [OF 3 step_enter [of Run ?M 0]] by (simp add: two_eval)
  have 5: "?reach (two_threads [] False 1 [7] {#7#} (in_mode Run (Waiting False) 0 0 []) (in_mode RunOne (InOp 7) 0 0 []))"
    using ext [OF 4 step_one [of 0 _ ?M 0]] by (simp add: two_eval)
  have 6: "?reach (two_threads [] False 1 [7] {#7, 8#} (in_mode Run (Waiting False) 0 0 [])
      (in_mode RunOne (InOp 7) 0 1 [8]))"
    using ext [OF 5 step_post [of "Some 1" _ ?M 8 0 True]] by (simp add: two_eval add_mset_commute)
  have 7: "?reach (two_threads [] False 1 [7] {#7, 8#} (in_mode Run (Waiting False) 0 0 [])
      (in_mode RunOne Cleanup 0 0 [8]))"
    using ext [OF 6 step_op_returns [of 1 _ 7 ?M]] by (simp add: two_eval)
  show ?thesis
    using ext [OF 7 step_cleanup [of 1 _ ?M 0]] by (simp add: two_eval)
qed

text \<open>
  With a thread in run_one next to one in run a wakeup can be lost: the handler that run_one ran has
  posted a continuation, \<^verbatim>\<open>~work_cleanup\<close> moves it to the queue without a signal, run_one returns, and the
  thread in run stays in its wait (from a spurious wakeup it goes back to it) with work in the queue.
\<close>

theorem run_one_loses_a_wakeup:
  "\<exists>w. sched_reach {Run, RunOne} (- 1) False 2 w \<and> op_queue (sched w) = [Operation 8]
     \<and> \<not> stopped (sched w) \<and> outstanding_work (sched w) = 1
     \<and> map pc (threads (sched w)) = [Waiting False, Outside]
     \<and> (\<forall>pick. event_wakeup pick 0 (sched w) = sched w)"
  by (intro exI [of _ "two_threads [Operation 8] False 1 [7] {#7, 8#}
      (in_mode Run (Waiting False) 0 0 []) (in_mode RunOne Outside 1 0 [])"] conjI lost_reach)
    (simp_all add: two_eval event_wakeup_def)

end
