(* ===== verification/TimeTraits.thy ===== *)
theory TimeTraits
  imports Prelude "HOL-Library.Signed_Division"
begin

text \<open>
  \<^verbatim>\<open>asio/detail/chrono_time_traits.hpp\<close>: the arithmetic on time points and durations of a clock
  that the timer queue uses, and the conversions of the timer queue to what the reactor waits for.

  A time point is the count of ticks since the epoch, a duration a count of ticks, both a signed
  integer of 64 bits. Signed overflow is undefined behaviour, so each sum, difference and product
  of the code is checked (\<open>ck\<close>).
\<close>

section \<open>Counts of ticks\<close>

definition time_max :: int where
  "time_max = 2 ^ 63 - 1"

definition time_min :: int where
  "time_min = - (2 ^ 63)"

definition in_time :: "int \<Rightarrow> bool" where
  "in_time x \<longleftrightarrow> time_min \<le> x \<and> x \<le> time_max"

definition ck :: "int \<Rightarrow> fault + int" where
  "ck x = (if in_time x then Inr x else Inl UndefinedBehaviour)"

definition chrono_add :: "int \<Rightarrow> int \<Rightarrow> fault + int" where
  "chrono_add t d =
     (let epoch = 0
      in if t \<ge> epoch
         then and_then (ck (time_max - t)) (\<lambda>room.
                if room < d then Inr time_max else ck (t + d))
         else and_then (ck (t - time_min)) (\<lambda>room. and_then (ck (- room)) (\<lambda>low.
                if low > d then Inr time_min else ck (t + d))))"

definition chrono_subtract :: "int \<Rightarrow> int \<Rightarrow> fault + int" where
  "chrono_subtract t1 t2 =
     (let epoch = 0
      in if t1 \<ge> epoch then
           if t2 \<ge> epoch then ck (t1 - t2)
           else if t2 = time_min then Inr time_max
           else and_then (ck (time_max - t1)) (\<lambda>room. and_then (ck (epoch - t2)) (\<lambda>d.
                  if room < d then Inr time_max else ck (t1 - t2)))
         else
           if t2 < epoch then ck (t1 - t2)
           else if t1 = time_min then Inr time_min
           else and_then (ck (time_max - t2)) (\<lambda>room. and_then (ck (epoch - t1)) (\<lambda>d.
                  if room < d then Inr time_min else and_then (ck (t2 - t1)) (\<lambda>x. ck (- x)))))"

definition time_less_than :: "int \<Rightarrow> int \<Rightarrow> bool" where
  "time_less_than t1 t2 \<longleftrightarrow> t1 < t2"

text \<open>\<open>pnum / pden\<close> seconds is the period of the clock; C++ division truncates.\<close>

definition duration_cast :: "int \<Rightarrow> int \<Rightarrow> int \<Rightarrow> int \<Rightarrow> int \<Rightarrow> fault + int" where
  "duration_cast pnum pden Num Den ticks =
     (let num1 = pnum sdiv gcd pnum Num; num2 = Num sdiv gcd pnum Num;
          den1 = pden sdiv gcd pden Den; den2 = Den sdiv gcd pden Den;
          num = num1 * den2; den = num2 * den1
      in if num = 1 \<and> den = 1 then Inr ticks
         else if num \<noteq> 1 \<and> den = 1 then ck (ticks * num)
         else if num = 1 \<and> pden \<noteq> 1 then Inr (ticks sdiv den)
         else and_then (ck (ticks * num)) (\<lambda>x. Inr (x sdiv den)))"

definition total_milliseconds :: "int \<Rightarrow> int \<Rightarrow> int \<Rightarrow> fault + int" where
  "total_milliseconds pnum pden ticks = duration_cast pnum pden 1 1000 ticks"

definition total_microseconds :: "int \<Rightarrow> int \<Rightarrow> int \<Rightarrow> fault + int" where
  "total_microseconds pnum pden ticks = duration_cast pnum pden 1 1000000 ticks"

text \<open>\<^verbatim>\<open>timer_queue::to_msec\<close> and \<^verbatim>\<open>to_usec\<close>; \<^verbatim>\<open>long\<close> has 64 bits.\<close>

definition to_msec :: "int \<Rightarrow> int \<Rightarrow> int \<Rightarrow> int \<Rightarrow> fault + int" where
  "to_msec pnum pden ticks max_duration =
     (if ticks \<le> 0 then Inr 0
      else and_then (total_milliseconds pnum pden ticks) (\<lambda>msec.
        Inr (if msec = 0 then 1 else if msec > max_duration then max_duration else msec)))"

definition to_usec :: "int \<Rightarrow> int \<Rightarrow> int \<Rightarrow> int \<Rightarrow> fault + int" where
  "to_usec pnum pden ticks max_duration =
     (if ticks \<le> 0 then Inr 0
      else and_then (total_microseconds pnum pden ticks) (\<lambda>usec.
        Inr (if usec = 0 then 1 else if usec > max_duration then max_duration else usec)))"

section \<open>The arithmetic saturates\<close>

definition saturate :: "int \<Rightarrow> int" where
  "saturate x = max time_min (min time_max x)"

lemmas time_defs = time_max_def time_min_def in_time_def ck_def saturate_def

text \<open>
  Adding a duration to a time and subtracting two times are the exact operations clamped
  to the range of the clock, on all arguments, and none of their intermediate results overflows.
\<close>

theorem time_arithmetic_saturates:
  assumes "in_time t" and "in_time d"
  shows "chrono_add t d = Inr (saturate (t + d)) \<and> chrono_subtract t d = Inr (saturate (t - d))"
  using assms by (auto simp: chrono_add_def chrono_subtract_def time_defs Let_def)

theorem time_arithmetic_saturates_witness:
  "chrono_add time_max 1 = Inr time_max \<and> chrono_subtract 5 time_min = Inr time_max"
  using time_arithmetic_saturates [of time_max 1] time_arithmetic_saturates [of 5 time_min]
  by (simp add: time_defs)

text \<open>The conversion for a clock of nanoseconds.\<close>

lemma total_nanoseconds:
  assumes "0 < ticks"
  shows "total_milliseconds 1 1000000000 ticks = Inr (ticks div 1000000)"
    "total_microseconds 1 1000000000 ticks = Inr (ticks div 1000)"
  using assms
  by (simp_all add: total_milliseconds_def total_microseconds_def duration_cast_def Let_def
    signed_divide_int_def sgn_if)

end
