(* ===== verification/Linked.thy ===== *)
theory Linked
  imports Prelude
begin

text \<open>
  Doubly linked lists whose links are in the nodes: the active timers of a timer queue, the strands of a
  strand service. \<open>nx\<close> and \<open>pv\<close> are the links of each node.
\<close>

section \<open>Segments\<close>

text \<open>The nodes \<open>ts\<close> are linked, from the first \<open>x\<close>, whose predecessor is \<open>p\<close>, to the pointer \<open>y\<close>.\<close>

fun seg :: "(nat \<Rightarrow> nat option) \<Rightarrow> (nat \<Rightarrow> nat option) \<Rightarrow> nat option \<Rightarrow> nat option \<Rightarrow> nat list \<Rightarrow> nat option \<Rightarrow> bool" where
  "seg nx pv p x [] y \<longleftrightarrow> x = y"
| "seg nx pv p x (t # ts) y \<longleftrightarrow> x = Some t \<and> pv t = p \<and> seg nx pv (Some t) (nx t) ts y"

lemma seg_append:
  "seg nx pv p x (xs @ ys) z \<longleftrightarrow>
     (\<exists>y. seg nx pv p x xs y \<and> seg nx pv (if xs = [] then p else Some (last xs)) y ys z)"
  by (induction xs arbitrary: p x) auto

lemma seg_cong:
  assumes "\<And>t. t \<in> set ts \<Longrightarrow> nx' t = nx t \<and> pv' t = pv t"
  shows "seg nx' pv' p x ts y = seg nx pv p x ts y"
  using assms by (induction ts arbitrary: p x) auto

lemma seg_last:
  assumes "seg nx pv p x ts y" "ts \<noteq> []" "distinct ts"
  shows "seg (nx(last ts := z)) pv p x ts z"
  using assms by (induction ts arbitrary: p x) (auto split: if_splits)

lemma seg_head:
  assumes "seg nx pv p x ts y" "ts \<noteq> []" "distinct ts"
  shows "seg nx (pv(hd ts := p')) p' x ts y"
proof (cases ts)
  case (Cons t ts')
  then have "seg nx (pv(t := p')) (Some t) (nx t) ts' y"
    using assms by (subst seg_cong [of ts' nx nx "pv(t := p')" pv]) auto
  then show ?thesis using assms Cons by simp
qed (use assms in simp)

lemma seg_first: "seg nx pv p x ts None \<Longrightarrow> x = (if ts = [] then None else Some (hd ts))"
  by (cases ts) auto

lemma seg_prev_Some:
  "seg nx pv (Some u) x ts y \<Longrightarrow> t \<in> set ts \<Longrightarrow> pv t \<noteq> None"
  by (induction ts arbitrary: u x) auto

lemma seg_prev_None:
  assumes "seg nx pv p x ts y" "t \<in> set ts" "pv t = None"
  shows "x = Some t"
  using assms by (cases ts) (auto dest: seg_prev_Some)

text \<open>A node is taken out of the list.\<close>

lemma seg_remove:
  assumes seg: "seg nx pv None x (as @ t # bs) None" and d: "distinct (as @ t # bs)"
    and x': "x' = (if x = Some t then nx t else x)"
    and nx': "\<And>u. u \<noteq> t \<Longrightarrow> nx' u = (if Some u = pv t then nx t else nx u)"
    and pv': "\<And>u. u \<noteq> t \<Longrightarrow> pv' u = (if Some u = nx t then pv t else pv u)"
  shows "seg nx' pv' None x' (as @ bs) None"
proof -
  let ?l = "if as = [] then None else Some (last as)"
  have sa: "seg nx pv None x as (Some t)" and pt: "pv t = ?l" and sb: "seg nx pv (Some t) (nx t) bs None"
    using seg by (auto simp: seg_append)
  have nt: "nx t = (if bs = [] then None else Some (hd bs))"
    by (rule seg_first [OF sb])
  have b: "seg nx' pv' ?l (nx t) bs None"
  proof (cases "bs = []")
    case True
    then show ?thesis using sb by simp
  next
    case False
    then have hb: "hd bs \<in> set bs" by simp
    have "seg nx (pv(hd bs := ?l)) ?l (nx t) bs None"
      using False d by (intro seg_head [OF sb]) auto
    moreover have "nx' u = nx u \<and> pv' u = (pv(hd bs := ?l)) u" if "u \<in> set bs" for u
    proof -
      have "u \<noteq> t" "as \<noteq> [] \<Longrightarrow> u \<noteq> last as"
        using that d last_in_set by fastforce+
      then show ?thesis
        using nt pt False nx' [of u] pv' [of u] by (auto split: if_splits)
    qed
    ultimately show ?thesis
      using seg_cong [of bs nx' nx pv' "pv(hd bs := ?l)"] by simp
  qed
  show ?thesis
  proof (cases "as = []")
    case True
    then show ?thesis using b sa x' by simp
  next
    case False
    have "seg (nx(last as := nx t)) pv None x as (nx t)"
      using False d by (intro seg_last [OF sa]) auto
    moreover have "nx' u = (nx(last as := nx t)) u \<and> pv' u = pv u" if "u \<in> set as" for u
    proof -
      have "u \<noteq> t" "bs \<noteq> [] \<Longrightarrow> u \<noteq> hd bs"
        using that d hd_in_set by fastforce+
      then show ?thesis
        using nt pt False nx' [of u] pv' [of u] by (auto split: if_splits)
    qed
    ultimately have "seg nx' pv' None x as (nx t)"
      using seg_cong [of as nx' "nx(last as := nx t)" pv' pv] by simp
    moreover have "x = Some (hd as)"
      using sa False by (cases as) auto
    then have "x' = x"
      using x' d False by (cases as) auto
    ultimately show ?thesis
      using b False by (auto simp: seg_append)
  qed
qed

lemma seg_insert:
  assumes seg: "seg nx pv None x ts None" and d: "t \<notin> set ts" "distinct ts"
    and nx': "nx' t = x" "\<And>u. u \<noteq> t \<Longrightarrow> nx' u = nx u"
    and pv': "pv' t = None" "\<And>u. u \<noteq> t \<Longrightarrow> pv' u = (if Some u = x then Some t else pv u)"
  shows "seg nx' pv' None (Some t) (t # ts) None"
proof (cases "ts = []")
  case True
  then show ?thesis using seg nx' pv' by simp
next
  case False
  have x: "x = Some (hd ts)" using seg_first [OF seg] False by simp
  have "seg nx (pv(hd ts := Some t)) (Some t) x ts None"
    by (rule seg_head [OF seg False d(2)])
  moreover have "nx' u = nx u \<and> pv' u = (pv(hd ts := Some t)) u" if "u \<in> set ts" for u
  proof -
    have "u \<noteq> t" using that d(1) by auto
    then show ?thesis using nx'(2) [of u] pv'(2) [of u] x by simp
  qed
  ultimately have "seg nx' pv' (Some t) x ts None"
    using seg_cong [of ts nx' nx pv' "pv(hd ts := Some t)"] by simp
  then show ?thesis using nx' pv' by simp
qed

lemma seg_not_self:
  assumes "seg nx pv None x ts None" "distinct ts" "t \<in> set ts"
  shows "nx t \<noteq> Some t" "pv t \<noteq> Some t"
proof -
  obtain as bs where ts: "ts = as @ t # bs" using assms(3) by (meson split_list)
  then have "pv t = (if as = [] then None else Some (last as))" and sb: "seg nx pv (Some t) (nx t) bs None"
    using assms by (auto simp: seg_append)
  moreover have "nx t = (if bs = [] then None else Some (hd bs))"
    by (rule seg_first [OF sb])
  moreover have "as \<noteq> [] \<Longrightarrow> last as \<noteq> t" "bs \<noteq> [] \<Longrightarrow> hd bs \<noteq> t"
    using assms ts last_in_set hd_in_set by fastforce+
  ultimately show "nx t \<noteq> Some t" "pv t \<noteq> Some t" by simp_all
qed

end
