(* ===== verification/TimerQueue.thy ===== *)
theory TimerQueue
  imports TimeTraits "HOL-Library.Multiset"
begin

text \<open>
  \<^verbatim>\<open>asio/detail/timer_queue.hpp\<close>: the queue of the timers of a reactor. The active timers are in a
  doubly linked list through the timers themselves; those that expire are also in an array, a binary
  heap on the expiry times, and each knows its index there.

  The timers are numbers and \<open>per_timer\<close> is the store of their data, so that a write through a
  pointer is an update of the store. The queue of operations of a timer is a list (\<open>OpQueue\<close> shows
  that the linked queue is one). \<open>is_inf\<close> is \<^verbatim>\<open>is_positive_infinity\<close>, constantly false but for the
  time types of Boost.
\<close>

section \<open>The state\<close>

datatype wait_error = WaitSuccess | WaitAborted

record wait_op =
  op_id :: nat
  cancellation_key :: nat
  op_ec :: wait_error

record per_timer_data =
  tops :: "wait_op list"
  heap_index :: nat
  next_timer :: "nat option"
  prev_timer :: "nat option"

record timer_queue =
  timers :: "nat option"
  heap :: "(int \<times> nat) list"
  per_timer :: "nat \<Rightarrow> per_timer_data"

text \<open>\<^verbatim>\<open>std::numeric_limits<std::size_t>::max()\<close>\<close>

definition no_index :: nat where
  "no_index = 2 ^ 64 - 1"

definition new_timer_data :: per_timer_data where
  "new_timer_data = \<lparr>tops = [], heap_index = no_index, next_timer = None, prev_timer = None\<rparr>"

definition new_timer_queue :: timer_queue where
  "new_timer_queue = \<lparr>timers = None, heap = [], per_timer = \<lambda>_. new_timer_data\<rparr>"

definition upd_timer :: "nat \<Rightarrow> (per_timer_data \<Rightarrow> per_timer_data) \<Rightarrow> timer_queue \<Rightarrow> timer_queue" where
  "upd_timer t f q = q\<lparr>per_timer := (per_timer q)(t := f (per_timer q t))\<rparr>"

section \<open>The heap\<close>

definition swap_heap :: "nat \<Rightarrow> nat \<Rightarrow> timer_queue \<Rightarrow> timer_queue" where
  "swap_heap index1 index2 q =
     (let tmp = heap q ! index1;
          h = (heap q)[index1 := heap q ! index2];
          h = h[index2 := tmp];
          q = q\<lparr>heap := h\<rparr>;
          q = upd_timer (snd (h ! index1)) (\<lambda>d. d\<lparr>heap_index := index1\<rparr>) q
      in upd_timer (snd (h ! index2)) (\<lambda>d. d\<lparr>heap_index := index2\<rparr>) q)"

lemma heap_upd_timer [simp]: "heap (upd_timer t f q) = heap q"
  and timers_upd_timer [simp]: "timers (upd_timer t f q) = timers q"
  by (simp_all add: upd_timer_def)

lemma heap_swap_heap: "heap (swap_heap i j q) = (heap q)[i := heap q ! j, j := heap q ! i]"
  by (simp add: swap_heap_def Let_def)

lemma length_swap_heap [simp]: "length (heap (swap_heap i j q)) = length (heap q)"
  by (simp add: heap_swap_heap)

function up_heap :: "nat \<Rightarrow> timer_queue \<Rightarrow> timer_queue" where
  "up_heap index q =
     (if index > 0 then
        let parent = (index - 1) div 2
        in if \<not> time_less_than (fst (heap q ! index)) (fst (heap q ! parent)) then q
           else up_heap parent (swap_heap index parent q)
      else q)"
  by pat_completeness auto
termination
  by (relation "measure fst") auto

function down_heap :: "nat \<Rightarrow> timer_queue \<Rightarrow> timer_queue" where
  "down_heap index q =
     (let child = index * 2 + 1
      in if child < length (heap q) then
           let min_child = (if child + 1 = length (heap q)
                              \<or> time_less_than (fst (heap q ! child)) (fst (heap q ! (child + 1)))
                            then child else child + 1)
           in if time_less_than (fst (heap q ! index)) (fst (heap q ! min_child)) then q
              else down_heap min_child (swap_heap index min_child q)
         else q)"
  by pat_completeness auto
termination
  by (relation "measure (\<lambda>(i, q). length (heap q) - i)") auto

declare up_heap.simps [simp del] down_heap.simps [simp del]

section \<open>The operations\<close>

text \<open>The three assignments that take a timer out of the list of active timers.\<close>

definition unlink :: "nat \<Rightarrow> timer_queue \<Rightarrow> timer_queue" where
  "unlink t q =
     (let q = (if timers q = Some t then q\<lparr>timers := next_timer (per_timer q t)\<rparr> else q);
          q = (case prev_timer (per_timer q t) of
                 Some p \<Rightarrow> upd_timer p (\<lambda>d. d\<lparr>next_timer := next_timer (per_timer q t)\<rparr>) q
               | None \<Rightarrow> q);
          q = (case next_timer (per_timer q t) of
                 Some n \<Rightarrow> upd_timer n (\<lambda>d. d\<lparr>prev_timer := prev_timer (per_timer q t)\<rparr>) q
               | None \<Rightarrow> q);
          q = upd_timer t (\<lambda>d. d\<lparr>next_timer := None\<rparr>) q
      in upd_timer t (\<lambda>d. d\<lparr>prev_timer := None\<rparr>) q)"

definition remove_from_heap :: "nat \<Rightarrow> timer_queue \<Rightarrow> timer_queue" where
  "remove_from_heap t q =
     (let index = heap_index (per_timer q t)
      in if heap q \<noteq> [] \<and> index < length (heap q) then
           if index = length (heap q) - 1 then
             let q = upd_timer t (\<lambda>d. d\<lparr>heap_index := no_index\<rparr>) q
             in q\<lparr>heap := butlast (heap q)\<rparr>
           else
             let q = swap_heap index (length (heap q) - 1) q;
                 q = upd_timer t (\<lambda>d. d\<lparr>heap_index := no_index\<rparr>) q;
                 q = q\<lparr>heap := butlast (heap q)\<rparr>
             in if index > 0 \<and> time_less_than (fst (heap q ! index)) (fst (heap q ! ((index - 1) div 2)))
                then up_heap index q else down_heap index q
         else q)"

definition remove_timer :: "nat \<Rightarrow> timer_queue \<Rightarrow> timer_queue" where
  "remove_timer t q = unlink t (remove_from_heap t q)"

definition is_active :: "nat \<Rightarrow> timer_queue \<Rightarrow> bool" where
  "is_active t q \<longleftrightarrow> prev_timer (per_timer q t) \<noteq> None \<or> timers q = Some t"

definition link_front :: "nat \<Rightarrow> timer_queue \<Rightarrow> timer_queue" where
  "link_front t q =
     (let q = upd_timer t (\<lambda>d. d\<lparr>next_timer := timers q, prev_timer := None\<rparr>) q;
          q = (case timers q of Some f \<Rightarrow> upd_timer f (\<lambda>d. d\<lparr>prev_timer := Some t\<rparr>) q | None \<Rightarrow> q)
      in q\<lparr>timers := Some t\<rparr>)"

definition add_to_heap :: "(int \<Rightarrow> bool) \<Rightarrow> int \<Rightarrow> nat \<Rightarrow> timer_queue \<Rightarrow> timer_queue" where
  "add_to_heap is_inf time t q =
     (if is_inf time then upd_timer t (\<lambda>d. d\<lparr>heap_index := no_index\<rparr>) q
      else
        let q = upd_timer t (\<lambda>d. d\<lparr>heap_index := length (heap q)\<rparr>) q;
            q = q\<lparr>heap := heap q @ [(time, t)]\<rparr>
        in up_heap (length (heap q) - 1) q)"

definition enqueue_timer ::
    "(int \<Rightarrow> bool) \<Rightarrow> int \<Rightarrow> nat \<Rightarrow> wait_op \<Rightarrow> timer_queue \<Rightarrow> bool \<times> timer_queue" where
  "enqueue_timer is_inf time t op q =
     (let q = (if prev_timer (per_timer q t) = None \<and> Some t \<noteq> timers q
               then link_front t (add_to_heap is_inf time t q) else q);
          q = upd_timer t (\<lambda>d. d\<lparr>tops := tops d @ [op]\<rparr>) q
      in (heap_index (per_timer q t) = 0 \<and> op_id (hd (tops (per_timer q t))) = op_id op, q))"

definition queue_empty :: "timer_queue \<Rightarrow> bool" where
  "queue_empty q \<longleftrightarrow> timers q = None"

definition wait_duration_msec :: "int \<Rightarrow> int \<Rightarrow> int \<Rightarrow> int \<Rightarrow> timer_queue \<Rightarrow> fault + int" where
  "wait_duration_msec pnum pden now max_duration q =
     (if heap q = [] then Inr max_duration
      else and_then (chrono_subtract (fst (heap q ! 0)) now) (\<lambda>d. to_msec pnum pden d max_duration))"

definition wait_duration_usec :: "int \<Rightarrow> int \<Rightarrow> int \<Rightarrow> int \<Rightarrow> timer_queue \<Rightarrow> fault + int" where
  "wait_duration_usec pnum pden now max_duration q =
     (if heap q = [] then Inr max_duration
      else and_then (chrono_subtract (fst (heap q ! 0)) now) (\<lambda>d. to_usec pnum pden d max_duration))"

text \<open>The inner loop of \<^verbatim>\<open>get_ready_timers\<close> empties the timer's queue.\<close>

definition take_ops :: "nat \<Rightarrow> timer_queue \<Rightarrow> wait_op list \<times> timer_queue" where
  "take_ops t q =
     (map (\<lambda>op. op\<lparr>op_ec := WaitSuccess\<rparr>) (tops (per_timer q t)), upd_timer t (\<lambda>d. d\<lparr>tops := []\<rparr>) q)"


partial_function (option) ready_loop ::
    "int \<Rightarrow> wait_op list \<Rightarrow> timer_queue \<Rightarrow> (wait_op list \<times> timer_queue) option" where
  "ready_loop now ops q =
     (if heap q \<noteq> [] \<and> \<not> time_less_than now (fst (heap q ! 0)) then
        let timer = snd (heap q ! 0)
        in case take_ops timer q of (taken, q) \<Rightarrow> ready_loop now (ops @ taken) (remove_timer timer q)
      else Some (ops, q))"

definition get_ready_timers ::
    "int \<Rightarrow> wait_op list \<Rightarrow> timer_queue \<Rightarrow> (wait_op list \<times> timer_queue) option" where
  "get_ready_timers now ops q = (if heap q \<noteq> [] then ready_loop now ops q else Some (ops, q))"

partial_function (option) all_loop ::
    "wait_op list \<Rightarrow> timer_queue \<Rightarrow> (wait_op list \<times> timer_queue) option" where
  "all_loop ops q =
     (case timers q of
        Some timer \<Rightarrow>
          let q' = q\<lparr>timers := next_timer (per_timer q timer)\<rparr>
          in all_loop (ops @ tops (per_timer q timer))
               (upd_timer timer (\<lambda>d. d\<lparr>tops := [], next_timer := None, prev_timer := None\<rparr>) q')
      | None \<Rightarrow> Some (ops, q))"

definition get_all_timers :: "wait_op list \<Rightarrow> timer_queue \<Rightarrow> (wait_op list \<times> timer_queue) option" where
  "get_all_timers ops q = map_option (\<lambda>(ops, q). (ops, q\<lparr>heap := []\<rparr>)) (all_loop ops q)"

fun cancel_loop :: "nat \<Rightarrow> nat \<Rightarrow> wait_op list \<Rightarrow> wait_op list \<times> wait_op list \<times> nat" where
  "cancel_loop max_cancelled n [] = ([], [], n)"
| "cancel_loop max_cancelled n (op # ops) =
     (if n \<noteq> max_cancelled then
        case cancel_loop max_cancelled (n + 1) ops of
          (cancelled, rest, k) \<Rightarrow> (op\<lparr>op_ec := WaitAborted\<rparr> # cancelled, rest, k)
      else ([], op # ops, n))"

definition cancel_timer ::
    "nat \<Rightarrow> wait_op list \<Rightarrow> nat \<Rightarrow> timer_queue \<Rightarrow> nat \<times> wait_op list \<times> timer_queue" where
  "cancel_timer t ops max_cancelled q =
     (if is_active t q then
        case cancel_loop max_cancelled 0 (tops (per_timer q t)) of
          (cancelled, rest, num_cancelled) \<Rightarrow>
            let q = upd_timer t (\<lambda>d. d\<lparr>tops := rest\<rparr>) q
            in (num_cancelled, ops @ cancelled, if rest = [] then remove_timer t q else q)
      else (0, ops, q))"

definition cancel_timer_by_key ::
    "nat \<Rightarrow> wait_op list \<Rightarrow> nat \<Rightarrow> timer_queue \<Rightarrow> wait_op list \<times> timer_queue" where
  "cancel_timer_by_key t ops key q =
     (if is_active t q then
        let all = tops (per_timer q t);
            cancelled = map (\<lambda>op. op\<lparr>op_ec := WaitAborted\<rparr>) (filter (\<lambda>op. cancellation_key op = key) all);
            other_ops = filter (\<lambda>op. cancellation_key op \<noteq> key) all;
            q = upd_timer t (\<lambda>d. d\<lparr>tops := other_ops\<rparr>) q
        in (ops @ cancelled, if other_ops = [] then remove_timer t q else q)
      else (ops, q))"

text \<open>\<^verbatim>\<open>move_timer\<close> in its three parts: the operations, the entry of the heap, the links.\<close>

definition move_ops :: "nat \<Rightarrow> nat \<Rightarrow> timer_queue \<Rightarrow> timer_queue" where
  "move_ops target source q =
     (let q = upd_timer target (\<lambda>d. d\<lparr>tops := tops d @ tops (per_timer q source)\<rparr>) q
      in upd_timer source (\<lambda>d. d\<lparr>tops := []\<rparr>) q)"

definition move_entry :: "nat \<Rightarrow> nat \<Rightarrow> timer_queue \<Rightarrow> timer_queue" where
  "move_entry target source q =
     (let q = upd_timer target (\<lambda>d. d\<lparr>heap_index := heap_index (per_timer q source)\<rparr>) q;
          q = upd_timer source (\<lambda>d. d\<lparr>heap_index := no_index\<rparr>) q;
          i = heap_index (per_timer q target)
      in if i < length (heap q) then q\<lparr>heap := (heap q)[i := (fst (heap q ! i), target)]\<rparr> else q)"

definition move_links :: "nat \<Rightarrow> nat \<Rightarrow> timer_queue \<Rightarrow> timer_queue" where
  "move_links target source q =
     (let q = (if timers q = Some source then q\<lparr>timers := Some target\<rparr> else q);
          q = (case prev_timer (per_timer q source) of
                 Some p \<Rightarrow> upd_timer p (\<lambda>d. d\<lparr>next_timer := Some target\<rparr>) q | None \<Rightarrow> q);
          q = (case next_timer (per_timer q source) of
                 Some n \<Rightarrow> upd_timer n (\<lambda>d. d\<lparr>prev_timer := Some target\<rparr>) q | None \<Rightarrow> q);
          q = upd_timer target (\<lambda>d. d\<lparr>next_timer := next_timer (per_timer q source)\<rparr>) q;
          q = upd_timer target (\<lambda>d. d\<lparr>prev_timer := prev_timer (per_timer q source)\<rparr>) q;
          q = upd_timer source (\<lambda>d. d\<lparr>next_timer := None\<rparr>) q
      in upd_timer source (\<lambda>d. d\<lparr>prev_timer := None\<rparr>) q)"

definition move_timer :: "nat \<Rightarrow> nat \<Rightarrow> timer_queue \<Rightarrow> timer_queue" where
  "move_timer target source q = move_links target source (move_entry target source (move_ops target source q))"

section \<open>The heap order\<close>

text \<open>Of the keys \<open>k 0\<close>, ..., \<open>k (n - 1)\<close>.\<close>

definition parent :: "nat \<Rightarrow> nat" where
  "parent j = (j - 1) div 2"

definition order_on :: "nat \<Rightarrow> (nat \<Rightarrow> int) \<Rightarrow> bool" where
  "order_on n k \<longleftrightarrow> (\<forall>j < n. 0 < j \<longrightarrow> k (parent j) \<le> k j)"

text \<open>The order holds but for the entry \<open>i\<close>: against its parent, or against its children.\<close>

definition bridged :: "nat \<Rightarrow> nat \<Rightarrow> (nat \<Rightarrow> int) \<Rightarrow> bool" where
  "bridged i n k \<longleftrightarrow> (\<forall>j < n. 0 < j \<and> 0 < i \<and> parent j = i \<longrightarrow> k (parent i) \<le> k j)"

definition order_below :: "nat \<Rightarrow> nat \<Rightarrow> (nat \<Rightarrow> int) \<Rightarrow> bool" where
  "order_below i n k \<longleftrightarrow> (\<forall>j < n. 0 < j \<and> j \<noteq> i \<longrightarrow> k (parent j) \<le> k j) \<and> bridged i n k"

definition order_above :: "nat \<Rightarrow> nat \<Rightarrow> (nat \<Rightarrow> int) \<Rightarrow> bool" where
  "order_above i n k \<longleftrightarrow> (\<forall>j < n. 0 < j \<and> parent j \<noteq> i \<longrightarrow> k (parent j) \<le> k j) \<and> bridged i n k"

lemma parent_less: "0 < j \<Longrightarrow> parent j < j"
  by (simp add: parent_def)

lemma parent_eq: "0 < j \<Longrightarrow> parent j = i \<longleftrightarrow> j = i * 2 + 1 \<or> j = i * 2 + 2"
  by (auto simp: parent_def)

lemma order_below_swap:
  assumes "order_below i n k" and "0 < i" "i < n" and "k i < k (parent i)"
  shows "order_below (parent i) n (k(i := k (parent i), parent i := k i))"
  unfolding order_below_def bridged_def
proof (intro conjI allI impI)
  note pi = parent_less [OF assms(2)]
  let ?k = "k(i := k (parent i), parent i := k i)"
  have pairs: "j < n \<Longrightarrow> 0 < j \<Longrightarrow> j \<noteq> i \<Longrightarrow> k (parent j) \<le> k j" for j
    using assms(1) by (simp add: order_below_def)
  have grand: "j < n \<Longrightarrow> 0 < j \<Longrightarrow> parent j = i \<Longrightarrow> k (parent i) \<le> k j" for j
    using assms(1,2) by (simp add: order_below_def bridged_def)
  {
    fix j assume "j < n" and "0 < j \<and> j \<noteq> parent i"
    then show "?k (parent j) \<le> ?k j"
      using pairs [of j] grand [of j] parent_less [of j] pi assms(4)
      by (cases "j = i"; cases "parent j = i"; cases "parent j = parent i") auto
  }
  fix j assume "j < n" and "0 < j \<and> 0 < parent i \<and> parent j = parent i"
  then show "?k (parent (parent i)) \<le> ?k j"
    using pairs [of j] pairs [of "parent i"] parent_less [of j] parent_less [of "parent i"] pi assms(3)
    by (cases "j = i") auto
qed

lemma order_below_done:
  assumes "order_below i n k" and "0 < i \<longrightarrow> i < n \<longrightarrow> k (parent i) \<le> k i"
  shows "order_on n k"
  using assms by (auto simp: order_below_def order_on_def)

lemma order_above_swap:
  assumes "order_above i n k" and "c < n" "0 < c" "parent c = i" and "k c \<le> k i"
    and least: "\<And>j. j < n \<Longrightarrow> 0 < j \<Longrightarrow> parent j = i \<Longrightarrow> k c \<le> k j"
  shows "order_above c n (k(i := k c, c := k i))"
  unfolding order_above_def bridged_def
proof (intro conjI allI impI)
  have ic: "i < c" using parent_less [OF assms(3)] assms(4) by simp
  let ?k = "k(i := k c, c := k i)"
  have pairs: "j < n \<Longrightarrow> 0 < j \<Longrightarrow> parent j \<noteq> i \<Longrightarrow> k (parent j) \<le> k j" for j
    using assms(1) by (simp add: order_above_def)
  have grand: "j < n \<Longrightarrow> 0 < j \<Longrightarrow> parent j = i \<Longrightarrow> 0 < i \<Longrightarrow> k (parent i) \<le> k j" for j
    using assms(1) by (simp add: order_above_def bridged_def)
  {
    fix j
    assume j: "j < n" and j': "0 < j \<and> parent j \<noteq> c"
    consider "j = c" | "j = i" | "j \<noteq> c" "j \<noteq> i" "parent j = i" | "j \<noteq> c" "j \<noteq> i" "parent j \<noteq> i" by blast
    then show "?k (parent j) \<le> ?k j"
    proof cases
      case 1
      then show ?thesis using assms(4,5) ic by simp
    next
      case 2
      then have "0 < i" "parent i < i" using j' parent_less [of i] by simp_all
      then show ?thesis using 2 grand [OF assms(2,3,4)] ic by simp
    next
      case 3
      then show ?thesis using least [OF j] j' ic by simp
    next
      case 4
      then show ?thesis using pairs [OF j] j' by simp
    qed
  }
  fix j
  assume j: "j < n" and "0 < j \<and> 0 < c \<and> parent j = c"
  then have "0 < j" "parent j = c" "c < j" using parent_less [of j] by auto
  then show "?k (parent c) \<le> ?k j"
    using pairs [OF j] ic assms(4) by simp
qed

lemma order_above_done:
  assumes "order_above i n k" and "\<And>j. j < n \<Longrightarrow> 0 < j \<Longrightarrow> parent j = i \<Longrightarrow> k i \<le> k j"
  shows "order_on n k"
  using assms by (auto simp: order_above_def order_on_def)

lemma order_cong:
  assumes "\<And>j. j < n \<Longrightarrow> k j = k' j"
  shows "order_on n k = order_on n k'" "i < n \<Longrightarrow> order_below i n k = order_below i n k'"
    "i < n \<Longrightarrow> order_above i n k = order_above i n k'"
proof -
  have p: "0 < j \<Longrightarrow> j < n \<Longrightarrow> k (parent j) = k' (parent j)" for j
    using assms parent_less less_trans by blast
  show "order_on n k = order_on n k'" "i < n \<Longrightarrow> order_below i n k = order_below i n k'"
    "i < n \<Longrightarrow> order_above i n k = order_above i n k'"
    using assms p by (auto simp: order_on_def order_below_def order_above_def bridged_def)
qed

abbreviation time_at :: "timer_queue \<Rightarrow> nat \<Rightarrow> int" where
  "time_at q i \<equiv> fst (heap q ! i)"

lemma time_at_swap:
  assumes "i < length (heap q)" "j < length (heap q)" "l < length (heap q)"
  shows "time_at (swap_heap i j q) l = ((time_at q)(i := time_at q j, j := time_at q i)) l"
  using assms by (auto simp: heap_swap_heap nth_list_update)

lemma order_swap_heap:
  assumes "i < length (heap q)" "j < length (heap q)" "c < length (heap q)"
  shows "order_below c (length (heap q)) (time_at (swap_heap i j q))
      = order_below c (length (heap q)) ((time_at q)(i := time_at q j, j := time_at q i))"
    and "order_above c (length (heap q)) (time_at (swap_heap i j q))
      = order_above c (length (heap q)) ((time_at q)(i := time_at q j, j := time_at q i))"
  by (rule order_cong; use assms time_at_swap in blast)+

text \<open>The two repairs.\<close>

lemma heap_order_up:
  assumes "order_below i (length (heap q)) (time_at q)" and "i < length (heap q)"
  shows "order_on (length (heap q)) (time_at (up_heap i q)) \<and> length (heap (up_heap i q)) = length (heap q)"
  using assms
proof (induction i q rule: up_heap.induct)
  case (1 i q)
  have step: "up_heap i q = (if 0 < i then if \<not> time_at q i < time_at q (parent i) then q
      else up_heap (parent i) (swap_heap i (parent i) q) else q)"
    by (subst up_heap.simps) (simp add: time_less_than_def parent_def Let_def)
  show ?case
  proof (cases "0 < i \<and> time_at q i < time_at q (parent i)")
    case True
    then have p: "parent i < length (heap q)"
      using parent_less [of i] 1(3) by simp
    have "order_below (parent i) (length (heap q)) (time_at (swap_heap i (parent i) q))"
      using order_below_swap [OF 1(2) _ 1(3)] True unfolding order_swap_heap [OF 1(3) p p] by blast
    then show ?thesis
      using 1(1) [OF _ refl] True p by (simp add: step time_less_than_def parent_def)
  next
    case False
    then show ?thesis
      using order_below_done [OF 1(2)] step by auto
  qed
qed

lemma heap_order_down:
  assumes "order_above i (length (heap q)) (time_at q)" and "i < length (heap q)"
  shows "order_on (length (heap q)) (time_at (down_heap i q)) \<and> length (heap (down_heap i q)) = length (heap q)"
  using assms
proof (induction "length (heap q) - i" arbitrary: i q rule: less_induct)
  case less
  let ?n = "length (heap q)" and ?c = "i * 2 + 1"
  define c where "c = (if ?c + 1 = ?n \<or> time_at q ?c < time_at q (?c + 1) then ?c else ?c + 1)"
  have step: "down_heap i q = (if ?c < ?n then if time_at q i < time_at q c then q
      else down_heap c (swap_heap i c q) else q)"
    by (subst down_heap.simps) (simp add: time_less_than_def c_def Let_def)
  show ?case
  proof (cases "?c < ?n")
    case True
    then have c: "c < ?n" "0 < c" "parent c = i"
      by (auto simp: c_def parent_def)
    have least: "time_at q c \<le> time_at q j" if "j < ?n" "0 < j" "parent j = i" for j
      using that True by (auto simp: c_def parent_eq)
    show ?thesis
    proof (cases "time_at q i < time_at q c")
      case True
      then show ?thesis
        using order_above_done [OF less(2)] least \<open>?c < ?n\<close> by (force simp: step)
    next
      case False
      have "i < c" using parent_less [OF c(2)] c(3) by simp
      have eq: "down_heap i q = down_heap c (swap_heap i c q)"
        unfolding step using True False by (simp only: if_True if_False)
      have "order_above c ?n (time_at (swap_heap i c q))"
        unfolding order_swap_heap [OF less(3) c(1) c(1)]
        by (rule order_above_swap [OF less(2) c _ least]) (use False in simp)
      then show ?thesis
        using less(1) [of "swap_heap i c q" c] \<open>i < c\<close> c(1) unfolding eq by simp
    qed
  next
    case False
    then have "j < ?n \<Longrightarrow> 0 < j \<Longrightarrow> parent j = i \<Longrightarrow> time_at q i \<le> time_at q j" for j
      by (auto simp: parent_eq)
    then show ?thesis
      using order_above_done [OF less(2)] False step by auto
  qed
qed


section \<open>The indices\<close>

definition heap_links :: "timer_queue \<Rightarrow> bool" where
  "heap_links q \<longleftrightarrow> (\<forall>i < length (heap q). heap_index (per_timer q (snd (heap q ! i))) = i)"

text \<open>What a timer holds beside its index.\<close>

definition content :: "timer_queue \<Rightarrow> nat \<Rightarrow> wait_op list \<times> nat option \<times> nat option" where
  "content q t = (tops (per_timer q t), next_timer (per_timer q t), prev_timer (per_timer q t))"

definition in_heap :: "timer_queue \<Rightarrow> nat set" where
  "in_heap q = snd ` set (heap q)"

definition reheap :: "timer_queue \<Rightarrow> timer_queue \<Rightarrow> bool" where
  "reheap q q' \<longleftrightarrow> timers q' = timers q \<and> mset (heap q') = mset (heap q) \<and> content q' = content q
     \<and> (\<forall>t. t \<notin> in_heap q \<longrightarrow> per_timer q' t = per_timer q t) \<and> (heap_links q \<longrightarrow> heap_links q')"

lemma reheap_refl [simp]: "reheap q q"
  by (simp add: reheap_def)

lemma in_heap_mset: "in_heap q = snd ` set_mset (mset (heap q))"
  by (simp add: in_heap_def)

lemma reheap_trans: "reheap q q' \<Longrightarrow> reheap q' q'' \<Longrightarrow> reheap q q''"
  by (simp add: reheap_def in_heap_mset)

lemma heap_links_inj:
  assumes "heap_links q" "i < length (heap q)" "j < length (heap q)"
  shows "snd (heap q ! i) = snd (heap q ! j) \<longleftrightarrow> i = j"
  using assms by (metis heap_links_def)

lemma content_upd_index [simp]: "content (upd_timer t (\<lambda>d. d\<lparr>heap_index := i\<rparr>) q) = content q"
  by (auto simp: content_def upd_timer_def)

lemma content_heap [simp]: "content (q\<lparr>heap := h\<rparr>) = content q"
  by (auto simp: content_def)

lemma per_timer_swap_heap:
  "per_timer (swap_heap i j q) t =
     (let h = heap (swap_heap i j q)
      in if t = snd (h ! j) then (per_timer q t)\<lparr>heap_index := j\<rparr>
         else if t = snd (h ! i) then (per_timer q t)\<lparr>heap_index := i\<rparr> else per_timer q t)"
  by (simp add: swap_heap_def Let_def upd_timer_def)

lemma reheap_swap:
  assumes "i < length (heap q)" "j < length (heap q)"
  shows "reheap q (swap_heap i j q)"
proof -
  have mem: "heap (swap_heap i j q) ! k \<in> set (heap q)" if "k < length (heap q)" for k
    using that assms by (auto simp: heap_swap_heap nth_list_update)
  have "per_timer (swap_heap i j q) t = per_timer q t" if "t \<notin> in_heap q" for t
    using that mem [OF assms(1)] mem [OF assms(2)] by (auto simp: per_timer_swap_heap Let_def in_heap_def)
  moreover have "heap_links (swap_heap i j q)" if l: "heap_links q"
    unfolding heap_links_def
  proof (intro allI impI)
    fix k assume "k < length (heap (swap_heap i j q))"
    then have k: "k < length (heap q)" by simp
    have inj: "snd (heap (swap_heap i j q) ! a) = snd (heap (swap_heap i j q) ! b) \<longleftrightarrow> a = b"
      if "a < length (heap q)" "b < length (heap q)" for a b
      using that assms heap_links_inj [OF l] by (auto simp: heap_swap_heap nth_list_update)
    have "heap_index (per_timer q (snd (heap q ! k))) = k"
      using l k by (simp add: heap_links_def)
    then show "heap_index (per_timer (swap_heap i j q) (snd (heap (swap_heap i j q) ! k))) = k"
      using inj [OF k assms(1)] inj [OF k assms(2)]
      by (auto simp: per_timer_swap_heap Let_def) (simp add: heap_swap_heap)
  qed
  moreover have "mset (heap (swap_heap i j q)) = mset (heap q)"
    using assms by (simp add: heap_swap_heap mset_swap)
  moreover have "content (swap_heap i j q) = content q" "timers (swap_heap i j q) = timers q"
    by (simp_all add: swap_heap_def Let_def)
  ultimately show ?thesis
    by (simp add: reheap_def)
qed

lemma reheap_up_heap: "i < length (heap q) \<Longrightarrow> reheap q (up_heap i q)"
proof (induction i q rule: up_heap.induct)
  case (1 i q)
  have "(i - 1) div 2 < length (heap q)" using 1(2) by linarith
  then show ?case
    using 1 by (subst up_heap.simps) (auto simp: Let_def intro: reheap_trans [OF reheap_swap])
qed

lemma reheap_down_heap: "i < length (heap q) \<Longrightarrow> reheap q (down_heap i q)"
proof (induction "length (heap q) - i" arbitrary: i q rule: less_induct)
  case less
  show ?case
    using less(2) by (subst down_heap.simps) (auto simp: Let_def intro!: reheap_trans [OF reheap_swap less(1)])
qed

definition heap_inv :: "timer_queue \<Rightarrow> bool" where
  "heap_inv q \<longleftrightarrow> heap_links q \<and> order_on (length (heap q)) (time_at q)"


lemma order_on_mono: "order_on n k \<Longrightarrow> m \<le> n \<Longrightarrow> order_on m k"
  by (simp add: order_on_def)

text \<open>The last entry in the place of the entry \<open>i\<close> leaves an order to repair at \<open>i\<close>, one way or the other.\<close>

lemma order_replace:
  assumes "order_on n k" and "i < n - 1" and "\<And>j. j < n - 1 \<Longrightarrow> k' j = (if j = i then x else k j)"
  shows "0 < i \<Longrightarrow> k' i < k' (parent i) \<Longrightarrow> order_below i (n - 1) k'"
    and "\<not> (0 < i \<and> k' i < k' (parent i)) \<Longrightarrow> order_above i (n - 1) k'"
proof -
  have k': "j < n - 1 \<Longrightarrow> 0 < j \<Longrightarrow> k' (parent j) = (if parent j = i then x else k (parent j))" for j
    using assms(3) [of "parent j"] parent_less [of j] by simp
  have ord: "j < n \<Longrightarrow> 0 < j \<Longrightarrow> k (parent j) \<le> k j" for j
    using assms(1) by (simp add: order_on_def)
  have gp: "k (parent i) \<le> k j" if "j < n" "0 < j" "parent j = i" "0 < i" for j
    using ord [OF that(1,2)] ord [of i] that parent_less [of j] assms(2) by simp
  have bridged: "bridged i (n - 1) k'"
    unfolding bridged_def
  proof (intro allI impI)
    fix j assume j: "j < n - 1" "0 < j \<and> 0 < i \<and> parent j = i"
    then have "j \<noteq> i" "parent i \<noteq> i" using parent_less [of j] parent_less [of i] by auto
    then show "k' (parent i) \<le> k' j"
      using j gp [of j] k' [of i] assms(2,3) by simp
  qed
  show "order_above i (n - 1) k'" if "\<not> (0 < i \<and> k' i < k' (parent i))"
    unfolding order_above_def
  proof (intro conjI allI impI bridged)
    fix j assume j: "j < n - 1" "0 < j \<and> parent j \<noteq> i"
    then show "k' (parent j) \<le> k' j"
      using that ord [of j] k' [of j] assms(3) by (cases "j = i") auto
  qed
  show "order_below i (n - 1) k'" if i: "0 < i" and less: "k' i < k' (parent i)"
    unfolding order_below_def
  proof (intro conjI allI impI bridged)
    fix j assume j: "j < n - 1" "0 < j \<and> j \<noteq> i"
    have "x < k (parent i)"
      using less k' [of i] assms(2,3) i parent_less [OF i] by simp
    moreover have "j < n" using j by linarith
    ultimately show "k' (parent j) \<le> k' j"
      using j ord [of j] k' [of j] gp [of j] assms(3) i by (cases "parent j = i") auto
  qed
qed

lemma mset_butlast: "xs \<noteq> [] \<Longrightarrow> mset xs = add_mset (last xs) (mset (butlast xs))"
  by (cases xs rule: rev_cases) auto

lemma heap_links_butlast:
  assumes "heap_links q" and "heap q \<noteq> []" and "snd (last (heap q)) = t"
  shows "heap_links ((upd_timer t (\<lambda>d. d\<lparr>heap_index := no_index\<rparr>) q)\<lparr>heap := butlast (heap q)\<rparr>)"
  unfolding heap_links_def
proof (intro allI impI)
  fix k assume "k < length (heap ((upd_timer t (\<lambda>d. d\<lparr>heap_index := no_index\<rparr>) q)\<lparr>heap := butlast (heap q)\<rparr>))"
  then have k: "k < length (heap q) - 1" by simp
  have "snd (heap q ! k) \<noteq> snd (heap q ! (length (heap q) - 1))"
    using heap_links_inj [OF assms(1), of k "length (heap q) - 1"] k by simp
  then have "snd (heap q ! k) \<noteq> t"
    using assms(2,3) by (simp add: last_conv_nth)
  then show "heap_index (per_timer ((upd_timer t (\<lambda>d. d\<lparr>heap_index := no_index\<rparr>) q)\<lparr>heap := butlast (heap q)\<rparr>)
      (snd (heap ((upd_timer t (\<lambda>d. d\<lparr>heap_index := no_index\<rparr>) q)\<lparr>heap := butlast (heap q)\<rparr>) ! k))) = k"
    using assms(1) k by (simp add: nth_butlast upd_timer_def heap_links_def)
qed

text \<open>A timer in the heap leaves it; nothing else changes but indices.\<close>

definition removed :: "nat \<Rightarrow> timer_queue \<Rightarrow> timer_queue \<Rightarrow> bool" where
  "removed t q q' \<longleftrightarrow> heap_inv q' \<and> timers q' = timers q \<and> content q' = content q
     \<and> mset (heap q) = add_mset (heap q ! heap_index (per_timer q t)) (mset (heap q'))
     \<and> heap_index (per_timer q' t) = no_index
     \<and> (\<forall>u. u \<notin> in_heap q \<longrightarrow> per_timer q' u = per_timer q u)"

lemma remove_from_heap_removed:
  assumes inv: "heap_inv q" and i: "i < length (heap q)" and t: "snd (heap q ! i) = t"
  shows "removed t q (remove_from_heap t q)"
proof -
  let ?n = "length (heap q)"
  have l: "heap_links q" and ord: "order_on ?n (time_at q)"
    using inv by (simp_all add: heap_inv_def)
  have idx: "heap_index (per_timer q t) = i"
    using l i t by (auto simp: heap_links_def)
  have ne: "heap q \<noteq> []" using i by auto
  define q1 where "q1 = (if i = ?n - 1 then q else swap_heap i (?n - 1) q)"
  define q2 where "q2 = (upd_timer t (\<lambda>d. d\<lparr>heap_index := no_index\<rparr>) q1)\<lparr>heap := butlast (heap q1)\<rparr>"
  have r1: "reheap q q1"
    using i by (simp add: q1_def reheap_swap)
  have n1: "length (heap q1) = ?n" by (simp add: q1_def)
  have last: "last (heap q1) = heap q ! i"
    using i ne n1 by (auto simp: q1_def last_conv_nth heap_swap_heap)
  have ne1: "heap q1 \<noteq> []" using n1 ne by auto
  have l2: "heap_links q2"
    unfolding q2_def by (rule heap_links_butlast) (use r1 l last t ne1 in \<open>simp_all add: reheap_def\<close>)
  have m2: "mset (heap q) = add_mset (heap q ! i) (mset (heap q2))"
    using mset_butlast [OF ne1] r1 last by (simp add: q2_def reheap_def)
  have c2: "content q2 = content q" "timers q2 = timers q" "heap_index (per_timer q2 t) = no_index"
    using r1 by (simp_all add: q2_def reheap_def) (simp add: upd_timer_def)
  have p2: "\<forall>u. u \<notin> in_heap q \<longrightarrow> per_timer q2 u = per_timer q u"
    using r1 i t by (auto simp: q2_def reheap_def upd_timer_def in_heap_def)
  have in2: "in_heap q2 \<subseteq> in_heap q" 
    unfolding in_heap_mset m2 by auto
  have out2: "t \<notin> in_heap q2"
  proof
    assume "t \<in> in_heap q2"
    then obtain k where k: "k < ?n - 1" "snd (heap q1 ! k) = t"
      by (auto simp: in_heap_def in_set_conv_nth q2_def n1 nth_butlast)
    moreover have "heap q1 ! (?n - 1) = heap q ! i"
      using last ne1 n1 by (simp add: last_conv_nth)
    moreover have "heap_links q1" using r1 l by (simp add: reheap_def)
    ultimately show False
      using heap_links_inj [of q1 k "?n - 1"] n1 t ne k(1) by fastforce
  qed
  have fin: "removed t q q'" if r: "reheap q2 q'" and o: "order_on (length (heap q')) (time_at q')" for q'
  proof -
    have "per_timer q' t = per_timer q2 t"
      using r out2 by (simp add: reheap_def)
    moreover have "\<forall>u. u \<notin> in_heap q \<longrightarrow> per_timer q' u = per_timer q u"
      using r p2 in2 by (auto simp: reheap_def)
    ultimately show ?thesis
      using r o l2 m2 c2 by (simp add: removed_def heap_inv_def reheap_def idx)
  qed
  show ?thesis
  proof (cases "i = ?n - 1")
    case True
    then have eq: "remove_from_heap t q = q2"
      using idx i ne by (simp add: remove_from_heap_def q2_def q1_def Let_def)
    have "order_on (length (heap q2)) (time_at q2)"
      using order_on_mono [OF ord, of "?n - 1"] True
      by (subst order_cong(1) [of _ _ "time_at q"]) (simp_all add: q2_def q1_def nth_butlast)
    then show ?thesis
      unfolding eq by (rule fin [OF reheap_refl])
  next
    case False
    have n2: "length (heap q2) = ?n - 1" by (simp add: q2_def n1)
    have i2: "i < length (heap q2)" using False i n2 by linarith
    have at: "time_at q2 j = (if j = i then time_at q (?n - 1) else time_at q j)" if "j < ?n - 1" for j
      using that i False by (simp add: q2_def q1_def nth_butlast heap_swap_heap nth_list_update)
    define b where "b \<longleftrightarrow> 0 < i \<and> time_at q2 i < time_at q2 (parent i)"
    have eq: "remove_from_heap t q = (if b then up_heap i q2 else down_heap i q2)"
      using idx i ne False by (simp add: remove_from_heap_def q2_def q1_def Let_def b_def parent_def time_less_than_def)
    note rep = order_replace [OF ord _ at]
    have "order_on (length (heap q2)) (time_at (if b then up_heap i q2 else down_heap i q2))"
      using rep i2 n2 heap_order_up [of i q2] heap_order_down [of i q2] by (auto simp: b_def)
    moreover have r2: "reheap q2 (if b then up_heap i q2 else down_heap i q2)"
      using reheap_up_heap [OF i2] reheap_down_heap [OF i2] by simp
    moreover have "length (heap (if b then up_heap i q2 else down_heap i q2)) = length (heap q2)"
      using r2 by (metis reheap_def size_mset)
    ultimately show ?thesis
      unfolding eq using fin by simp
  qed
qed

lemma order_below_pushed:
  assumes "order_on (length (heap q)) (time_at q)" and "heap q1 = heap q @ [x]"
  shows "order_below (length (heap q)) (Suc (length (heap q))) (time_at q1)"
proof -
  have "j < length (heap q) \<Longrightarrow> time_at q1 j = time_at q j" for j
    by (simp add: assms(2) nth_append)
  moreover have "j < Suc (length (heap q)) \<Longrightarrow> 0 < j \<Longrightarrow> parent j < length (heap q)" for j
    using parent_less [of j] by simp
  ultimately show ?thesis
    using assms(1) unfolding order_below_def bridged_def order_on_def by (metis less_Suc_eq nat_less_le)
qed

lemma add_to_heap_inv:
  assumes inv: "heap_inv q" and t: "t \<notin> in_heap q" and fin: "\<not> is_inf time"
  shows "heap_inv (add_to_heap is_inf time t q)" "timers (add_to_heap is_inf time t q) = timers q"
    "content (add_to_heap is_inf time t q) = content q"
    "mset (heap (add_to_heap is_inf time t q)) = add_mset (time, t) (mset (heap q))"
    "\<And>u. u \<notin> in_heap q \<Longrightarrow> u \<noteq> t \<Longrightarrow> per_timer (add_to_heap is_inf time t q) u = per_timer q u"
proof -
  let ?n = "length (heap q)"
  define q1 where "q1 = (upd_timer t (\<lambda>d. d\<lparr>heap_index := ?n\<rparr>) q)\<lparr>heap := heap q @ [(time, t)]\<rparr>"
  have eq: "add_to_heap is_inf time t q = up_heap ?n q1"
    using fin by (simp add: add_to_heap_def q1_def Let_def)
  have n1: "length (heap q1) = Suc ?n" by (simp add: q1_def)
  have l1: "heap_links q1"
    using inv t by (auto simp: heap_links_def heap_inv_def q1_def nth_append upd_timer_def in_heap_def less_Suc_eq)
  have "order_below ?n (Suc ?n) (time_at q1)"
    by (rule order_below_pushed) (use inv in \<open>simp_all add: heap_inv_def q1_def\<close>)
  then have o: "order_on (length (heap q1)) (time_at (up_heap ?n q1))"
      "length (heap (up_heap ?n q1)) = length (heap q1)"
    using heap_order_up [of ?n q1] n1 by simp_all
  have r: "reheap q1 (up_heap ?n q1)"
    using n1 by (simp add: reheap_up_heap)
  show "heap_inv (add_to_heap is_inf time t q)" "timers (add_to_heap is_inf time t q) = timers q"
    "content (add_to_heap is_inf time t q) = content q"
    "mset (heap (add_to_heap is_inf time t q)) = add_mset (time, t) (mset (heap q))"
    unfolding eq using r o l1 by (simp_all add: heap_inv_def reheap_def) (simp_all add: q1_def)
  show "\<And>u. u \<notin> in_heap q \<Longrightarrow> u \<noteq> t \<Longrightarrow> per_timer (add_to_heap is_inf time t q) u = per_timer q u"
    unfolding eq using r by (auto simp: reheap_def q1_def upd_timer_def in_heap_def)
qed

end
