(* ===== verification/TimerQueueRefinement.thy ===== *)
theory TimerQueueRefinement
  imports TimerQueue Linked
begin

text \<open>
  The timer queue implements a table of pending timers, each with its expiry time and its operations
  in the order they were started. The invariant ties the three representations together: the linked
  list of active timers, the heap and the indices.
\<close>

section \<open>The list of active timers\<close>

abbreviation nxt :: "timer_queue \<Rightarrow> nat \<Rightarrow> nat option" where
  "nxt q t \<equiv> next_timer (per_timer q t)"

abbreviation prv :: "timer_queue \<Rightarrow> nat \<Rightarrow> nat option" where
  "prv q t \<equiv> prev_timer (per_timer q t)"

definition listed :: "timer_queue \<Rightarrow> nat list \<Rightarrow> bool" where
  "listed q ts \<longleftrightarrow> seg (nxt q) (prv q) None (timers q) ts None \<and> distinct ts
     \<and> (\<forall>t. t \<notin> set ts \<longrightarrow> nxt q t = None \<and> prv q t = None)"

lemma listed_active: "listed q ts \<Longrightarrow> is_active t q \<longleftrightarrow> t \<in> set ts"
  using seg_prev_None [of "nxt q" "prv q" None "timers q" ts None t] seg_first [of "nxt q" "prv q" None "timers q" ts]
  by (auto simp: is_active_def listed_def split: if_splits)

lemma unlink_spec:
  assumes "nxt q t \<noteq> Some t" "prv q t \<noteq> Some t"
  shows "timers (unlink t q) = (if timers q = Some t then nxt q t else timers q)"
    "heap (unlink t q) = heap q"
    "nxt (unlink t q) u = (if u = t then None else if Some u = prv q t then nxt q t else nxt q u)"
    "prv (unlink t q) u = (if u = t then None else if Some u = nxt q t then prv q t else prv q u)"
    "tops (per_timer (unlink t q) u) = tops (per_timer q u)"
    "heap_index (per_timer (unlink t q) u) = heap_index (per_timer q u)"
  using assms by (auto simp: unlink_def Let_def upd_timer_def split: option.split)

lemma listed_not_self:
  assumes "listed q ts"
  shows "nxt q t \<noteq> Some t" "prv q t \<noteq> Some t"
  using assms seg_not_self [of "nxt q" "prv q" "timers q" ts t]
  by (cases "t \<in> set ts"; simp add: listed_def)+

lemma listed_unlink:
  assumes "listed q ts"
  shows "listed (unlink t q) (remove1 t ts)"
proof (cases "t \<in> set ts")
  case True
  obtain as bs where ts: "ts = as @ t # bs" using True by (meson split_list)
  have d: "distinct (as @ t # bs)" using assms ts by (simp add: listed_def)
  note u = unlink_spec [OF listed_not_self [OF assms, of t]]
  have "seg (nxt (unlink t q)) (prv (unlink t q)) None (timers (unlink t q)) (as @ bs) None"
    by (rule seg_remove [where t = t and nx = "nxt q" and pv = "prv q" and x = "timers q"])
      (use assms ts d u in \<open>auto simp: listed_def\<close>)
  moreover have "remove1 t ts = as @ bs"
    using d ts by (simp add: remove1_append)
  moreover have mem: "Some v = prv q t \<Longrightarrow> v \<in> set ts" "Some v = nxt q t \<Longrightarrow> v \<in> set ts" for v
    using assms ts seg_first [of "nxt q" "prv q" "Some t" "nxt q t" bs]
    by (auto simp: listed_def seg_append split: if_splits)
  moreover have "\<forall>v. v \<notin> set as \<union> set bs \<longrightarrow> nxt (unlink t q) v = None \<and> prv (unlink t q) v = None"
  proof (intro allI impI)
    fix v assume v: "v \<notin> set as \<union> set bs"
    then have "v \<noteq> t \<Longrightarrow> Some v \<noteq> prv q t \<and> Some v \<noteq> nxt q t \<and> nxt q v = None \<and> prv q v = None"
      using mem ts assms by (auto simp: listed_def)
    then show "nxt (unlink t q) v = None \<and> prv (unlink t q) v = None"
      using u(3,4) by auto
  qed
  ultimately show ?thesis
    using d by (simp add: listed_def)
next
  case False
  then have "nxt q t = None" "prv q t = None" "timers q \<noteq> Some t"
    using assms seg_first [of "nxt q" "prv q" None "timers q" ts] by (auto simp: listed_def split: if_splits)
  then have "unlink t q = q"
    by (cases q; cases "per_timer q t") (auto simp: unlink_def Let_def upd_timer_def)
  then show ?thesis
    using assms False by (simp add: remove1_idem)
qed


section \<open>The invariant\<close>

definition tq_core :: "timer_queue \<Rightarrow> nat list \<Rightarrow> bool" where
  "tq_core q ts \<longleftrightarrow> heap_inv q \<and> listed q ts \<and> in_heap q \<subseteq> set ts
     \<and> (\<forall>t. t \<notin> in_heap q \<longrightarrow> heap_index (per_timer q t) = no_index) \<and> length (heap q) \<le> no_index"

definition tq_ok :: "timer_queue \<Rightarrow> nat list \<Rightarrow> bool" where
  "tq_ok q ts \<longleftrightarrow> tq_core q ts \<and> (\<forall>t. t \<in> set ts \<longleftrightarrow> tops (per_timer q t) \<noteq> [])"

text \<open>The table of pending timers that the queue stands for.\<close>

definition expiry :: "timer_queue \<Rightarrow> nat \<Rightarrow> int option" where
  "expiry q t =
     (let i = heap_index (per_timer q t) in if i < length (heap q) then Some (time_at q i) else None)"

definition pending_of :: "timer_queue \<Rightarrow> nat \<Rightarrow> (int option \<times> wait_op list) option" where
  "pending_of q t =
     (if tops (per_timer q t) \<noteq> [] then Some (expiry q t, tops (per_timer q t)) else None)"

lemma in_heapD:
  assumes "tq_core q ts" and "(e, t) \<in> set (heap q)"
  shows "heap_index (per_timer q t) < length (heap q)" "heap q ! heap_index (per_timer q t) = (e, t)"
    "expiry q t = Some e"
proof -
  obtain i where i: "i < length (heap q)" "heap q ! i = (e, t)"
    using assms(2) by (auto simp: in_set_conv_nth)
  then have "heap_index (per_timer q t) = i"
    using assms(1) by (auto simp: tq_core_def heap_inv_def heap_links_def dest!: spec [of _ i])
  then show "heap_index (per_timer q t) < length (heap q)" "heap q ! heap_index (per_timer q t) = (e, t)"
    "expiry q t = Some e"
    using i by (simp_all add: expiry_def)
qed

lemma expiry_iff:
  assumes "tq_core q ts"
  shows "expiry q t = Some e \<longleftrightarrow> (e, t) \<in> set (heap q)" and "expiry q t = None \<longleftrightarrow> t \<notin> in_heap q"
proof -
  have none: "expiry q t = None" if "t \<notin> in_heap q"
    using assms that by (simp add: expiry_def tq_core_def Let_def)
  show "expiry q t = Some e \<longleftrightarrow> (e, t) \<in> set (heap q)"
  proof
    assume e: "expiry q t = Some e"
    then have "t \<in> in_heap q" using none by auto
    then obtain e' where "(e', t) \<in> set (heap q)"
      by (auto simp: in_heap_def)
    then show "(e, t) \<in> set (heap q)"
      using in_heapD [OF assms, of e' t] e by simp
  qed (rule in_heapD(3) [OF assms])
  show "expiry q t = None \<longleftrightarrow> t \<notin> in_heap q"
    using none in_heapD(3) [OF assms, of _ t] by (auto simp: in_heap_def)
qed

lemma root_least:
  assumes "order_on n k" "j < n"
  shows "k 0 \<le> k j"
  using assms(2)
proof (induction j rule: less_induct)
  case (less j)
  show ?case
  proof (cases "0 < j")
    case True
    have "k 0 \<le> k (parent j)"
      using less.IH [OF parent_less [OF True]] parent_less [OF True] less.prems by linarith
    also have "k (parent j) \<le> k j"
      using assms(1) True less.prems by (simp add: order_on_def)
    finally show ?thesis .
  qed simp
qed

lemma listed_cong:
  assumes "\<And>t. nxt q' t = nxt q t \<and> prv q' t = prv q t" and "timers q' = timers q"
  shows "listed q' ts = listed q ts"
  using assms seg_cong [of ts "nxt q'" "nxt q" "prv q'" "prv q"] by (simp add: listed_def)

lemma content_nxt: "content q' = content q \<Longrightarrow> nxt q' t = nxt q t \<and> prv q' t = prv q t \<and> tops (per_timer q' t) = tops (per_timer q t)"
  by (metis Pair_inject content_def)

lemma heap_inv_cong:
  assumes "\<And>t. heap_index (per_timer q' t) = heap_index (per_timer q t)" and "heap q' = heap q"
  shows "heap_inv q' = heap_inv q" "in_heap q' = in_heap q" "expiry q' = expiry q"
  using assms by (auto simp: heap_inv_def heap_links_def in_heap_def expiry_def Let_def fun_eq_iff)

text \<open>Operations are added to a timer or taken from it.\<close>

lemma upd_tops:
  "nxt (upd_timer t (\<lambda>d. d\<lparr>tops := f d\<rparr>) q) u = nxt q u"
  "prv (upd_timer t (\<lambda>d. d\<lparr>tops := f d\<rparr>) q) u = prv q u"
  "heap_index (per_timer (upd_timer t (\<lambda>d. d\<lparr>tops := f d\<rparr>) q) u) = heap_index (per_timer q u)"
  "tops (per_timer (upd_timer t (\<lambda>d. d\<lparr>tops := f d\<rparr>) q) u) = (if u = t then f (per_timer q t) else tops (per_timer q u))"
  by (simp_all add: upd_timer_def)

lemma tq_core_upd_tops: "tq_core (upd_timer t (\<lambda>d. d\<lparr>tops := f d\<rparr>) q) ts = tq_core q ts"
  and expiry_upd_tops: "expiry (upd_timer t (\<lambda>d. d\<lparr>tops := f d\<rparr>) q) = expiry q"
proof -
  let ?q = "upd_timer t (\<lambda>d. d\<lparr>tops := f d\<rparr>) q"
  note h = heap_inv_cong [of ?q q, OF upd_tops(3)]
  show "expiry ?q = expiry q" by (rule h) simp
  show "tq_core ?q ts = tq_core q ts"
    using h listed_cong [of ?q q ts] by (simp add: tq_core_def upd_tops)
qed

lemma distinct_heap: "heap_links q \<Longrightarrow> distinct (heap q)"
  unfolding distinct_conv_nth using heap_links_inj [of q] by metis

lemma filter_mset_all: "(\<And>x. x \<in># M \<Longrightarrow> P x) \<Longrightarrow> filter_mset P M = M"
  by (induction M) auto

text \<open>A timer leaves the queue.\<close>

lemma remove_timer_core:
  assumes core: "tq_core q ts" and t: "t \<in> set ts"
  shows "tq_core (remove_timer t q) (remove1 t ts)"
    and "tops (per_timer (remove_timer t q) u) = tops (per_timer q u)"
    and "expiry (remove_timer t q) u = (if u = t then None else expiry q u)"
    and "mset (heap (remove_timer t q)) = filter_mset (\<lambda>x. snd x \<noteq> t) (mset (heap q))"
proof -
  let ?q1 = "remove_from_heap t q"
  have l: "listed q ts" using core by (simp add: tq_core_def)
  have 1: "heap_inv ?q1 \<and> timers ?q1 = timers q \<and> content ?q1 = content q
      \<and> mset (heap ?q1) = filter_mset (\<lambda>x. snd x \<noteq> t) (mset (heap q))
      \<and> (\<forall>u. u \<notin> in_heap ?q1 \<longrightarrow> heap_index (per_timer ?q1 u) = no_index)"
  proof (cases "t \<in> in_heap q")
    case True
    then obtain e where e: "(e, t) \<in> set (heap q)" by (auto simp: in_heap_def)
    note i = in_heapD [OF core e]
    have r: "removed t q ?q1"
      using core i by (intro remove_from_heap_removed) (auto simp: tq_core_def)
    have m: "mset (heap q) = add_mset (e, t) (mset (heap ?q1))"
      using r i by (simp add: removed_def)
    have "t \<notin> in_heap ?q1"
    proof
      assume "t \<in> in_heap ?q1"
      then obtain e' where "(e', t) \<in> set (heap ?q1)" by (auto simp: in_heap_def)
      then have "count (mset (heap q)) (e', t) \<ge> 1" "e' = e \<Longrightarrow> count (mset (heap q)) (e, t) \<ge> 2"
        unfolding m by auto
      moreover from this have "e' = e"
        using in_heapD(2) [OF core, of e' t] i(2) by (auto simp: count_greater_eq_one_iff)
      ultimately have "count (mset (heap q)) (e, t) \<ge> 2" by simp
      moreover have "distinct (heap q)"
        using core by (simp add: tq_core_def heap_inv_def distinct_heap)
      ultimately show False
        using e by (simp add: distinct_count_atmost_1)
    qed
    then have "filter_mset (\<lambda>x. snd x \<noteq> t) (mset (heap ?q1)) = mset (heap ?q1)"
      by (intro filter_mset_all) (auto simp: in_heap_def)
    then have f: "mset (heap ?q1) = filter_mset (\<lambda>x. snd x \<noteq> t) (mset (heap q))"
      by (simp add: m)
    have "heap_index (per_timer ?q1 u) = no_index" if "u \<notin> in_heap ?q1" for u
    proof (cases "u = t")
      case False
      then have "u \<notin> in_heap q"
        using that m by (auto simp: in_heap_mset)
      then show ?thesis
        using r core by (simp add: removed_def tq_core_def)
    qed (use r in \<open>simp add: removed_def\<close>)
    then show ?thesis
      using r f by (simp add: removed_def)
  next
    case False
    then have "?q1 = q"
      using core by (auto simp: remove_from_heap_def Let_def tq_core_def)
    moreover have "filter_mset (\<lambda>x. snd x \<noteq> t) (mset (heap q)) = mset (heap q)"
      using False by (intro filter_mset_all) (auto simp: in_heap_def)
    ultimately show ?thesis
      using core by (simp add: tq_core_def)
  qed
  then have c: "nxt ?q1 u = nxt q u \<and> prv ?q1 u = prv q u \<and> tops (per_timer ?q1 u) = tops (per_timer q u)" for u
    by (intro content_nxt) simp
  have l1: "listed ?q1 ts"
    using l 1 c listed_cong by metis
  note us = unlink_spec [OF listed_not_self [OF l1, of t]]
  note h = heap_inv_cong [of "unlink t ?q1" ?q1, OF us(6,2)]
  have in1: "in_heap ?q1 = in_heap q - {t}"
    using 1 by (auto simp: in_heap_mset)
  have "size (mset (heap ?q1)) \<le> size (mset (heap q))"
    using 1 by (metis multiset_filter_subset size_mset_mono)
  then have len: "length (heap ?q1) \<le> length (heap q)" by simp
  show core': "tq_core (remove_timer t q) (remove1 t ts)"
    using core 1 listed_unlink [OF l1, of t] h in1 len us l by (auto simp: tq_core_def remove_timer_def listed_def)
  show "tops (per_timer (remove_timer t q) u) = tops (per_timer q u)"
    using us(5) c by (simp add: remove_timer_def)
  show m: "mset (heap (remove_timer t q)) = filter_mset (\<lambda>x. snd x \<noteq> t) (mset (heap q))"
    using 1 us(2) by (simp add: remove_timer_def)
  show "expiry (remove_timer t q) u = (if u = t then None else expiry q u)"
  proof -
    have "(e, u) \<in> set (heap (remove_timer t q)) \<longleftrightarrow> u \<noteq> t \<and> (e, u) \<in> set (heap q)" for e
      using arg_cong [OF m, of set_mset] by auto
    then show ?thesis
      using expiry_iff [OF core'] expiry_iff [OF core]
      by (metis option.exhaust)
  qed
qed


section \<open>The operations\<close>

text \<open>A timer joins the queue.\<close>

lemma link_front_spec:
  assumes "listed q ts" and "t \<notin> set ts"
  shows "listed (link_front t q) (t # ts)" "heap (link_front t q) = heap q"
    "heap_index (per_timer (link_front t q) u) = heap_index (per_timer q u)"
    "tops (per_timer (link_front t q) u) = tops (per_timer q u)"
proof -
  have first: "timers q = (if ts = [] then None else Some (hd ts))"
    by (rule seg_first [of "nxt q" "prv q" None]) (use assms(1) in \<open>simp add: listed_def\<close>)
  have nt: "timers q \<noteq> Some t"
    using assms(2) first by (auto split: if_splits)
  have nx: "nxt (link_front t q) u = (if u = t then timers q else nxt q u)" for u
    using nt by (auto simp: link_front_def Let_def upd_timer_def split: option.split)
  have pv: "prv (link_front t q) u = (if u = t then None else if Some u = timers q then Some t else prv q u)" for u
    using nt by (auto simp: link_front_def Let_def upd_timer_def split: option.split)
  have tm: "timers (link_front t q) = Some t"
    by (simp add: link_front_def Let_def split: option.split)
  have "seg (nxt (link_front t q)) (prv (link_front t q)) (Some t) (timers q) ts None"
  proof (cases "ts = []")
    case True
    then show ?thesis using first by simp
  next
    case False
    have "seg (nxt q) ((prv q)(hd ts := Some t)) (Some t) (timers q) ts None"
      using assms(1) False by (intro seg_head) (auto simp: listed_def)
    then show ?thesis
      by (subst seg_cong [of ts _ "nxt q" _ "(prv q)(hd ts := Some t)"]) (use nx pv assms(2) first False in auto)
  qed
  moreover have "u \<notin> set ts \<Longrightarrow> Some u \<noteq> timers q" for u
    using first by (auto split: if_splits)
  ultimately show "listed (link_front t q) (t # ts)"
    using assms nx pv tm by (auto simp: listed_def)
  show "heap (link_front t q) = heap q"
    by (simp add: link_front_def Let_def split: option.split)
  show "heap_index (per_timer (link_front t q) u) = heap_index (per_timer q u)"
    "tops (per_timer (link_front t q) u) = tops (per_timer q u)"
    by (auto simp: link_front_def Let_def upd_timer_def split: option.split)
qed

lemma join_core:
  fixes is_inf :: "int \<Rightarrow> bool" and time :: int
  assumes core: "tq_core q ts" and t: "t \<notin> set ts" and room: "length (heap q) < no_index"
  defines "q' \<equiv> link_front t (add_to_heap is_inf time t q)"
  shows "tq_core q' (t # ts)" and "tops (per_timer q' u) = tops (per_timer q u)"
    and "expiry q' u = (if u = t then if is_inf time then None else Some time else expiry q u)"
    and "mset (heap q') = (if is_inf time then mset (heap q) else add_mset (time, t) (mset (heap q)))"
proof -
  let ?q1 = "add_to_heap is_inf time t q"
  have l: "listed q ts" using core by (simp add: tq_core_def)
  have tn: "t \<notin> in_heap q" using core t by (auto simp: tq_core_def)
  have 1: "heap_inv ?q1 \<and> timers ?q1 = timers q \<and> content ?q1 = content q
      \<and> mset (heap ?q1) = (if is_inf time then mset (heap q) else add_mset (time, t) (mset (heap q)))
      \<and> (\<forall>u. u \<notin> in_heap ?q1 \<longrightarrow> heap_index (per_timer ?q1 u) = no_index)"
  proof (cases "is_inf time")
    case True
    have "heap_index (per_timer q t) = no_index"
      using core tn by (simp add: tq_core_def)
    then have "?q1 = q"
      using True by (cases q; cases "per_timer q t") (auto simp: add_to_heap_def upd_timer_def)
    then show ?thesis
      using core True by (simp add: tq_core_def)
  next
    case False
    have "heap_inv q" using core by (simp add: tq_core_def)
    note a = add_to_heap_inv [where is_inf = is_inf, OF this tn False]
    have "heap_index (per_timer ?q1 u) = no_index" if "u \<notin> in_heap ?q1" for u
      using that a(4) a(5) [of u] core by (auto simp: in_heap_mset tq_core_def)
    then show ?thesis
      using a False by simp
  qed
  then have c: "nxt ?q1 u = nxt q u \<and> prv ?q1 u = prv q u \<and> tops (per_timer ?q1 u) = tops (per_timer q u)" for u
    by (intro content_nxt) simp
  have l1: "listed ?q1 ts"
    using l 1 c listed_cong by metis
  note ls = link_front_spec [OF l1 t]
  note h = heap_inv_cong [of q' ?q1, unfolded q'_def, OF ls(3,2)]
  have "in_heap ?q1 \<subseteq> set (t # ts)"
    using 1 core by (auto simp: in_heap_mset tq_core_def split: if_splits)
  moreover have "size (mset (heap ?q1)) \<le> Suc (size (mset (heap q)))"
    using 1 by simp
  then have "length (heap ?q1) \<le> no_index" using room by simp
  ultimately show core': "tq_core q' (t # ts)"
    using 1 ls h by (simp add: tq_core_def q'_def)
  show "tops (per_timer q' u) = tops (per_timer q u)"
    using ls(4) c by (simp add: q'_def)
  show m: "mset (heap q') = (if is_inf time then mset (heap q) else add_mset (time, t) (mset (heap q)))"
    using 1 ls(2) by (simp add: q'_def)
  show "expiry q' u = (if u = t then if is_inf time then None else Some time else expiry q u)"
  proof -
    have mem: "(e, u) \<in> set (heap q') \<longleftrightarrow> (\<not> is_inf time \<and> e = time \<and> u = t) \<or> (e, u) \<in> set (heap q)" for e
      using arg_cong [OF m, of set_mset] by (auto split: if_splits)
    have "(e, t) \<notin> set (heap q)" for e
      using tn by (force simp: in_heap_def)
    then have "expiry q' u = Some e \<longleftrightarrow> (if u = t then if is_inf time then None else Some time else expiry q u) = Some e" for e
      using mem expiry_iff(1) [OF core', of u] expiry_iff(1) [OF core, of u] by auto
    then show ?thesis
      by (metis option.exhaust)
  qed
qed

lemma root_least_below:
  assumes "order_below i n k" "0 < i" "j < n" "j \<noteq> i"
  shows "k 0 \<le> k j"
  using assms(3,4)
proof (induction j rule: less_induct)
  case (less j)
  show ?case
  proof (cases "0 < j")
    case True
    note p = parent_less [OF True] parent_less [OF assms(2)]
    show ?thesis
    proof (cases "parent j = i")
      case False
      then have "k (parent j) \<le> k j"
        using assms(1) less.prems True by (simp add: order_below_def)
      then show ?thesis using less.IH [OF p(1)] p False less.prems by simp
    next
      case True
      then have "k (parent i) \<le> k j"
        using assms(1,2) less.prems \<open>0 < j\<close> by (simp add: order_below_def bridged_def)
      then show ?thesis using less.IH [of "parent i"] p True less.prems by simp
    qed
  qed simp
qed

text \<open>Only an entry strictly before the root gets to the root.\<close>

lemma up_heap_root:
  assumes "i < length (heap q)" and "order_below i (length (heap q)) (time_at q)"
  shows "heap (up_heap i q) ! 0 = (if \<forall>j < length (heap q). j \<noteq> i \<longrightarrow> time_at q i < time_at q j then heap q ! i
    else heap q ! 0)"
  using assms
proof (induction i q rule: up_heap.induct)
  case (1 i q)
  have step: "up_heap i q = (if 0 < i then if \<not> time_at q i < time_at q (parent i) then q
      else up_heap (parent i) (swap_heap i (parent i) q) else q)"
    by (subst up_heap.simps) (simp add: time_less_than_def parent_def Let_def)
  consider "i = 0" | "0 < i" "\<not> time_at q i < time_at q (parent i)" | "0 < i" "time_at q i < time_at q (parent i)"
    by blast
  then show ?case
  proof cases
    case 1
    then show ?thesis unfolding step by simp
  next
    case 2
    then show ?thesis
      using parent_less [of i] \<open>i < length (heap q)\<close> by (auto simp: step)
  next
    case 3
    let ?q = "swap_heap i (parent i) q"
    have p: "parent i < i" "parent i < length (heap q)"
      using parent_less [OF 3(1)] "1.prems" by auto
    have below: "order_below (parent i) (length (heap q)) (time_at ?q)"
      using order_below_swap [OF "1.prems"(2) 3(1) "1.prems"(1)] 3 unfolding order_swap_heap [OF "1.prems"(1) p(2) p(2)] by blast
    have ih: "heap (up_heap (parent i) ?q) ! 0 = (if \<forall>j < length (heap q). j \<noteq> parent i \<longrightarrow> time_at ?q (parent i) < time_at ?q j
        then heap ?q ! parent i else heap ?q ! 0)"
      using "1.IH" [OF 3(1) refl, folded parent_def] 3(2) below p(2) by (simp add: time_less_than_def)
    have at: "heap ?q ! j = (if j = parent i then heap q ! i else if j = i then heap q ! parent i else heap q ! j)"
      if "j < length (heap q)" for j
      using that "1.prems" p by (simp add: heap_swap_heap nth_list_update)
    have iff: "(\<forall>j < length (heap q). j \<noteq> parent i \<longrightarrow> time_at ?q (parent i) < time_at ?q j)
        \<longleftrightarrow> (\<forall>j < length (heap q). j \<noteq> i \<longrightarrow> time_at q i < time_at q j)"
    proof -
      have "(\<forall>j < length (heap q). j \<noteq> parent i \<longrightarrow> time_at ?q (parent i) < time_at ?q j)
        \<longleftrightarrow> (\<forall>j < length (heap q). j \<noteq> parent i \<longrightarrow> time_at q i < (if j = i then time_at q (parent i) else time_at q j))"
        using at p by auto
      then show ?thesis
        using 3(2) p "1.prems" by auto
    qed
    have zero: "parent i = 0 \<Longrightarrow> \<forall>j < length (heap q). j \<noteq> i \<longrightarrow> time_at q i < time_at q j"
    proof (intro allI impI)
      fix j assume "parent i = 0" "j < length (heap q)" "j \<noteq> i"
      then show "time_at q i < time_at q j"
        using root_least_below [OF "1.prems"(2) 3(1), of j] 3(2) by simp
    qed
    have eq: "up_heap i q = up_heap (parent i) ?q"
      unfolding step using 3 by (simp only: if_True if_False not_True_eq_False)
    show ?thesis
    proof (cases "\<forall>j < length (heap q). j \<noteq> i \<longrightarrow> time_at q i < time_at q j")
      case True
      then show ?thesis using ih at [OF p(2)] unfolding eq iff by simp
    next
      case False
      then have "parent i \<noteq> 0" using zero by blast
      moreover have "0 < length (heap q)" using p by linarith
      ultimately have "heap ?q ! 0 = heap q ! 0"
        using at [of 0] 3(1) by simp
      then show ?thesis using ih False unfolding eq iff by (simp only: if_False)
    qed
  qed
qed


text \<open>After a change of the operations of \<open>t\<close>, the timer is removed if none is left.\<close>

lemma settle:
  assumes core: "tq_core q ts" and t: "t \<in> set ts" and rest: "\<And>u. u \<noteq> t \<Longrightarrow> u \<in> set ts \<longleftrightarrow> tops (per_timer q u) \<noteq> []"
  defines "q' \<equiv> if tops (per_timer q t) = [] then remove_timer t q else q"
  shows "\<exists>ts'. tq_ok q' ts'" and "pending_of q' = pending_of q"
proof -
  note rm = remove_timer_core [OF core t]
  have "distinct ts" using core by (simp add: tq_core_def listed_def)
  have "tq_ok q' (if tops (per_timer q t) = [] then remove1 t ts else ts)"
  proof (cases "tops (per_timer q t) = []")
    case True
    have "u \<in> set (remove1 t ts) \<longleftrightarrow> tops (per_timer (remove_timer t q) u) \<noteq> []" for u
      using True rest [of u] rm(2) \<open>distinct ts\<close> by (cases "u = t") simp_all
    then show ?thesis using True rm(1) by (simp add: tq_ok_def q'_def)
  next
    case False
    have "u \<in> set ts \<longleftrightarrow> tops (per_timer q u) \<noteq> []" for u
      using False rest [of u] t by (cases "u = t") simp_all
    then show ?thesis using False core by (simp add: tq_ok_def q'_def)
  qed
  then show "\<exists>ts'. tq_ok q' ts'" by blast
  show "pending_of q' = pending_of q"
    using rm(2,3) by (auto simp: pending_of_def q'_def fun_eq_iff)
qed

lemma cancel_loop_eq:
  "n \<le> m \<Longrightarrow> cancel_loop m n ops =
     (map (\<lambda>op. op\<lparr>op_ec := WaitAborted\<rparr>) (take (m - n) ops), drop (m - n) ops, n + min (m - n) (length ops))"
proof (induction ops arbitrary: n)
  case (Cons op ops)
  show ?case
  proof (cases "n = m")
    case False
    then have "m - n = Suc (m - (n + 1))" using Cons.prems by simp
    then show ?thesis
      using Cons.IH [of "n + 1"] Cons.prems False by simp
  qed simp
qed simp

lemma tq_ok_active:
  assumes "tq_ok q ts"
  shows "is_active t q \<longleftrightarrow> tops (per_timer q t) \<noteq> []" "is_active t q \<longleftrightarrow> t \<in> set ts"
  using assms listed_active [of q ts t] by (auto simp: tq_ok_def tq_core_def)

lemma pending_upd_tops:
  "pending_of (upd_timer t (\<lambda>d. d\<lparr>tops := os\<rparr>) q)
     = (pending_of q)(t := if os = [] then None else Some (expiry q t, os))"
  by (auto simp: pending_of_def fun_eq_iff upd_tops expiry_upd_tops)

lemma replace_tops:
  assumes ok: "tq_ok q ts" and t: "t \<in> set ts" and q1: "q1 = upd_timer t (\<lambda>d. d\<lparr>tops := os\<rparr>) q"
  shows "\<exists>ts'. tq_ok (if os = [] then remove_timer t q1 else q1) ts'"
    and "pending_of (if os = [] then remove_timer t q1 else q1)
      = (pending_of q)(t := if os = [] then None else Some (expiry q t, os))"
proof -
  have c: "tq_core q1 ts"
    using ok by (simp add: q1 tq_core_upd_tops tq_ok_def)
  have os: "tops (per_timer q1 t) = os" by (simp add: q1 upd_tops)
  have rest: "u \<noteq> t \<Longrightarrow> u \<in> set ts \<longleftrightarrow> tops (per_timer q1 u) \<noteq> []" for u
    using ok by (simp add: q1 upd_tops tq_ok_def)
  show "\<exists>ts'. tq_ok (if os = [] then remove_timer t q1 else q1) ts'"
    using settle(1) [OF c t rest] unfolding os by blast
  have "pending_of (if os = [] then remove_timer t q1 else q1) = pending_of q1"
    using settle(2) [OF c t rest] unfolding os by blast
  then show "pending_of (if os = [] then remove_timer t q1 else q1)
      = (pending_of q)(t := if os = [] then None else Some (expiry q t, os))"
    using pending_upd_tops [of t os q] by (simp only: q1)
qed

lemma cancel_timer_refines:
  assumes ok: "tq_ok q ts"
  shows "\<exists>q' ts'. tq_ok q' ts' \<and>
    (case pending_of q t of
       None \<Rightarrow> cancel_timer t ops m q = (0, ops, q') \<and> pending_of q' = pending_of q
     | Some (e, os) \<Rightarrow> cancel_timer t ops m q =
          (min m (length os), ops @ map (\<lambda>op. op\<lparr>op_ec := WaitAborted\<rparr>) (take m os), q')
        \<and> pending_of q' = (pending_of q)(t := if length os \<le> m then None else Some (e, drop m os)))"
proof (cases "tops (per_timer q t) = []")
  case True
  then show ?thesis
    using ok tq_ok_active(1) [OF ok, of t] by (auto simp: cancel_timer_def pending_of_def)
next
  case False
  let ?os = "tops (per_timer q t)"
  have t: "t \<in> set ts" using ok False by (simp add: tq_ok_def)
  note rep = replace_tops [OF ok t refl, of "drop m ?os"]
  then obtain ts' where "tq_ok (if drop m ?os = [] then remove_timer t (upd_timer t (\<lambda>d. d\<lparr>tops := drop m ?os\<rparr>) q)
      else upd_timer t (\<lambda>d. d\<lparr>tops := drop m ?os\<rparr>) q) ts'" by blast
  then show ?thesis
    using rep(2) False tq_ok_active(1) [OF ok, of t]
    by (intro exI [of _ "if drop m ?os = [] then remove_timer t (upd_timer t (\<lambda>d. d\<lparr>tops := drop m ?os\<rparr>) q)
      else upd_timer t (\<lambda>d. d\<lparr>tops := drop m ?os\<rparr>) q"] exI [of _ ts'])
      (simp add: cancel_timer_def cancel_loop_eq pending_of_def [of q t] Let_def)
qed

lemma cancel_by_key_refines:
  assumes ok: "tq_ok q ts"
  shows "\<exists>q' ts'. tq_ok q' ts' \<and>
    (case pending_of q t of
       None \<Rightarrow> cancel_timer_by_key t ops key q = (ops, q') \<and> pending_of q' = pending_of q
     | Some (e, os) \<Rightarrow>
        let mine = filter (\<lambda>op. cancellation_key op = key) os; others = filter (\<lambda>op. cancellation_key op \<noteq> key) os
        in cancel_timer_by_key t ops key q = (ops @ map (\<lambda>op. op\<lparr>op_ec := WaitAborted\<rparr>) mine, q')
          \<and> pending_of q' = (pending_of q)(t := if others = [] then None else Some (e, others)))"
proof (cases "tops (per_timer q t) = []")
  case True
  then show ?thesis
    using ok tq_ok_active(1) [OF ok, of t] by (auto simp: cancel_timer_by_key_def pending_of_def)
next
  case False
  define os where "os = filter (\<lambda>op. cancellation_key op \<noteq> key) (tops (per_timer q t))"
  have t: "t \<in> set ts" using ok False by (simp add: tq_ok_def)
  note rep = replace_tops [OF ok t refl, of os]
  then obtain ts' where "tq_ok (if os = [] then remove_timer t (upd_timer t (\<lambda>d. d\<lparr>tops := os\<rparr>) q)
      else upd_timer t (\<lambda>d. d\<lparr>tops := os\<rparr>) q) ts'" by blast
  then show ?thesis
    using rep(2) False tq_ok_active(1) [OF ok, of t]
    by (intro exI [of _ "if os = [] then remove_timer t (upd_timer t (\<lambda>d. d\<lparr>tops := os\<rparr>) q)
      else upd_timer t (\<lambda>d. d\<lparr>tops := os\<rparr>) q"] exI [of _ ts'])
      (simp add: cancel_timer_by_key_def pending_of_def [of q t] Let_def flip: os_def)
qed


lemma add_to_heap_root:
  assumes "order_on (length (heap q)) (time_at q)" and "\<not> is_inf time" and "t \<notin> in_heap q"
  shows "heap (add_to_heap is_inf time t q) ! 0 = (time, t) \<longleftrightarrow> (\<forall>(e, u) \<in> set (heap q). time < e)"
proof -
  let ?n = "length (heap q)"
  define q1 where "q1 = (upd_timer t (\<lambda>d. d\<lparr>heap_index := ?n\<rparr>) q)\<lparr>heap := heap q @ [(time, t)]\<rparr>"
  have eq: "add_to_heap is_inf time t q = up_heap ?n q1"
    using assms(2) by (simp add: add_to_heap_def q1_def Let_def)
  have at: "heap q1 ! j = (if j < ?n then heap q ! j else (time, t))" if "j < Suc ?n" for j
    using that by (auto simp: q1_def nth_append less_Suc_eq)
  have n1: "length (heap q1) = Suc ?n" by (simp add: q1_def)
  have "order_below ?n (length (heap q1)) (time_at q1)"
    using order_below_pushed [OF assms(1), of q1 "(time, t)"] by (simp add: q1_def)
  then have root: "heap (up_heap ?n q1) ! 0 = (if \<forall>j < Suc ?n. j \<noteq> ?n \<longrightarrow> time_at q1 ?n < time_at q1 j
      then heap q1 ! ?n else heap q1 ! 0)"
    using up_heap_root [of ?n q1] n1 by simp
  have cond: "(\<forall>j < Suc ?n. j \<noteq> ?n \<longrightarrow> time_at q1 ?n < time_at q1 j) \<longleftrightarrow> (\<forall>(e, u) \<in> set (heap q). time < e)"
    using at by (auto simp: all_set_conv_all_nth less_Suc_eq split_beta)
  have "heap q1 ! 0 = (time, t) \<Longrightarrow> heap q = []"
    using at [of 0] assms(3) by (cases "heap q") (auto simp: in_heap_def)
  then show ?thesis
    unfolding eq root cond using at [of ?n] by auto
qed

lemma pending_times:
  assumes "tq_ok q ts"
  shows "(\<forall>(e, u) \<in> set (heap q). P e) \<longleftrightarrow> (\<forall>u e os. pending_of q u = Some (Some e, os) \<longrightarrow> P e)"
proof -
  have core: "tq_core q ts" using assms by (simp add: tq_ok_def)
  have "(e, u) \<in> set (heap q) \<longleftrightarrow> (\<exists>os. pending_of q u = Some (Some e, os))" for e u
    using expiry_iff(1) [OF core, of u e] assms core by (auto simp: pending_of_def tq_ok_def tq_core_def in_heap_def)
  moreover have "(\<forall>(e, u) \<in> set (heap q). P e) \<longleftrightarrow> (\<forall>e u. (e, u) \<in> set (heap q) \<longrightarrow> P e)"
    by auto
  ultimately show ?thesis by metis
qed

lemma enqueue_timer_refines:
  assumes ok: "tq_ok q ts" and room: "length (heap q) < no_index"
    and fresh: "op_id op \<notin> op_id ` set (tops (per_timer q t))"
  shows "\<exists>q' ts'. tq_ok q' ts'
    \<and> enqueue_timer is_inf time t op q =
        (pending_of q t = None \<and> \<not> is_inf time \<and> (\<forall>u e os. pending_of q u = Some (Some e, os) \<longrightarrow> time < e), q')
    \<and> pending_of q' = (pending_of q)(t \<mapsto>
        (case pending_of q t of None \<Rightarrow> (if is_inf time then None else Some time, [op]) | Some (e, os) \<Rightarrow> (e, os @ [op])))"
proof (cases "tops (per_timer q t) = []")
  case True
  have core: "tq_core q ts" using ok by (simp add: tq_ok_def)
  have t: "t \<notin> set ts" using ok True by (simp add: tq_ok_def)
  define q1 where "q1 = link_front t (add_to_heap is_inf time t q)"
  define q2 where "q2 = upd_timer t (\<lambda>d. d\<lparr>tops := tops d @ [op]\<rparr>) q1"
  note j = join_core [OF core t room, of is_inf time, folded q1_def]
  have tops2: "tops (per_timer q2 u) = (if u = t then [op] else tops (per_timer q u))" for u
    using j(2) True by (simp add: q2_def upd_tops)
  have "tq_core q2 (t # ts)"
    using j(1) by (simp add: q2_def tq_core_upd_tops)
  then have ok2: "tq_ok q2 (t # ts)"
    using ok tops2 by (auto simp: tq_ok_def)
  have exp2: "expiry q2 u = (if u = t then if is_inf time then None else Some time else expiry q u)" for u
    using j(3) by (simp add: q2_def expiry_upd_tops)
  have "heap_index (per_timer q2 t) = 0 \<longleftrightarrow> \<not> is_inf time \<and> (\<forall>(e, u) \<in> set (heap q). time < e)"
  proof (cases "is_inf time")
    case True
    then have "t \<notin> in_heap q1"
      using j(4) core t by (auto simp: in_heap_mset tq_core_def)
    then have "heap_index (per_timer q1 t) = no_index"
      using j(1) by (simp add: tq_core_def)
    then show ?thesis using True by (simp add: q2_def upd_tops no_index_def)
  next
    case False
    have "(time, t) \<in># mset (heap q1)" unfolding j(4) using False by simp
    then have "(time, t) \<in> set (heap q1)" by simp
    note i = in_heapD [OF j(1) this]
    have "t \<notin> in_heap q" using core t by (auto simp: tq_core_def)
    then have root: "heap (add_to_heap is_inf time t q) ! 0 = (time, t) \<longleftrightarrow> (\<forall>(e, u) \<in> set (heap q). time < e)"
      using core False by (intro add_to_heap_root) (auto simp: tq_core_def heap_inv_def)
    have "heap q1 = heap (add_to_heap is_inf time t q)"
      by (simp add: q1_def link_front_def Let_def split: option.split)
    moreover have "heap_index (per_timer q1 t) = 0 \<longleftrightarrow> heap q1 ! 0 = (time, t)"
    proof
      assume "heap q1 ! 0 = (time, t)"
      moreover have "heap_links q1" using j(1) by (simp add: tq_core_def heap_inv_def)
      moreover have "0 < length (heap q1)" using i(1) by linarith
      ultimately show "heap_index (per_timer q1 t) = 0"
        by (auto simp: heap_links_def dest!: spec [of _ 0])
    qed (use i in auto)
    ultimately show ?thesis using root False by (simp add: q2_def upd_tops)
  qed
  moreover have "prev_timer (per_timer q t) = None \<and> Some t \<noteq> timers q"
    using tq_ok_active(2) [OF ok, of t] t by (auto simp: is_active_def)
  then have "enqueue_timer is_inf time t op q = (heap_index (per_timer q2 t) = 0, q2)"
    using tops2 [of t] by (simp add: enqueue_timer_def Let_def flip: q1_def q2_def)
  moreover have "pending_of q2 = (pending_of q)(t \<mapsto> (if is_inf time then None else Some time, [op]))"
    using tops2 exp2 by (auto simp: pending_of_def fun_eq_iff)
  moreover have "pending_of q t = None" using True by (simp add: pending_of_def)
  ultimately show ?thesis
    using ok2 pending_times [OF ok, of "\<lambda>e. time < e"] by (intro exI [of _ q2] exI [of _ "t # ts"]) simp
next
  case False
  define q2 where "q2 = upd_timer t (\<lambda>d. d\<lparr>tops := tops d @ [op]\<rparr>) q"
  have act: "\<not> (prev_timer (per_timer q t) = None \<and> Some t \<noteq> timers q)"
    using tq_ok_active(1) [OF ok, of t] False by (auto simp: is_active_def)
  have "op_id (hd (tops (per_timer q t) @ [op])) \<noteq> op_id op"
    using fresh False by (cases "tops (per_timer q t)") auto
  then have "enqueue_timer is_inf time t op q = (False, q2)"
    by (simp only: enqueue_timer_def Let_def act if_False) (simp add: q2_def upd_tops del: hd_append)
  moreover have "tq_ok q2 ts"
    using ok False by (auto simp: tq_ok_def q2_def tq_core_upd_tops upd_tops)
  moreover have "pending_of q2 = (pending_of q)(t \<mapsto> (expiry q t, tops (per_timer q t) @ [op]))"
    by (auto simp: pending_of_def fun_eq_iff q2_def upd_tops expiry_upd_tops)
  ultimately show ?thesis
    using False by (intro exI [of _ q2] exI [of _ ts]) (simp add: pending_of_def [of q t])
qed


text \<open>The loop of \<^verbatim>\<open>get_ready_timers\<close>.\<close>

definition ready :: "int \<Rightarrow> timer_queue \<Rightarrow> nat set" where
  "ready now q = {t. \<exists>e os. pending_of q t = Some (Some e, os) \<and> e \<le> now}"

definition due :: "timer_queue \<Rightarrow> nat \<Rightarrow> int" where
  "due q t = the (fst (the (pending_of q t)))"

definition succeed :: "wait_op \<Rightarrow> wait_op" where
  "succeed op = op\<lparr>op_ec := WaitSuccess\<rparr>"

definition ops_of :: "timer_queue \<Rightarrow> nat \<Rightarrow> wait_op list" where
  "ops_of q t = map succeed (snd (the (pending_of q t)))"

lemma ready_loop_spec:
  assumes "tq_ok q ts"
  shows "\<exists>us q' ts'. ready_loop now ops q = Some (ops @ concat (map (ops_of q) us), q') \<and> tq_ok q' ts'
    \<and> distinct us \<and> set us = ready now q \<and> sorted (map (due q) us)
    \<and> pending_of q' = (\<lambda>t. if t \<in> ready now q then None else pending_of q t)"
  using assms
proof (induction "length (heap q)" arbitrary: q ts ops rule: less_induct)
  case less
  have core: "tq_core q ts" using less.prems by (simp add: tq_ok_def)
  have pend: "(\<exists>os. pending_of q u = Some (Some e, os)) \<longleftrightarrow> (e, u) \<in> set (heap q)" for e u
    using expiry_iff(1) [OF core, of u e] less.prems core
    by (auto simp: pending_of_def tq_ok_def tq_core_def in_heap_def)
  show ?case
  proof (cases "heap q \<noteq> [] \<and> time_at q 0 \<le> now")
    case False
    have none: "ready now q = {}"
    proof (rule ccontr)
      assume "ready now q \<noteq> {}"
      then obtain e u where "(e, u) \<in> set (heap q)" "e \<le> now"
        using pend by (auto simp: ready_def)
      moreover from this have "time_at q 0 \<le> e"
        using core root_least [of "length (heap q)" "time_at q"]
        by (fastforce simp: tq_core_def heap_inv_def in_set_conv_nth)
      ultimately show False using False by (cases "heap q") auto
    qed
    moreover have "ready_loop now ops q = Some (ops, q)"
      using False by (subst ready_loop.simps) (auto simp: time_less_than_def)
    ultimately have "ready_loop now ops q = Some (ops @ concat (map (ops_of q) []), q) \<and> distinct ([] :: nat list)
        \<and> set [] = ready now q \<and> sorted (map (due q) [])
        \<and> pending_of q = (\<lambda>t. if t \<in> ready now q then None else pending_of q t)"
      unfolding none by simp
    then show ?thesis using less.prems by blast
  next
    case True
    define e where "e = time_at q 0"
    define t where "t = snd (heap q ! 0)"
    have mem: "(e, t) \<in> set (heap q)"
      using True by (auto simp: e_def t_def intro: nth_mem)
    then have tin: "t \<in> set ts"
      using core by (force simp: tq_core_def in_heap_def)
    obtain os where os: "pending_of q t = Some (Some e, os)"
      using pend mem by blast
    then have tops: "tops (per_timer q t) = os"
      by (auto simp: pending_of_def split: if_splits)
    define q1 where "q1 = remove_timer t (upd_timer t (\<lambda>d. d\<lparr>tops := []\<rparr>) q)"
    have step: "ready_loop now ops q = ready_loop now (ops @ map succeed os) q1"
      using True by (subst ready_loop.simps)
        (simp add: take_ops_def time_less_than_def q1_def e_def t_def [symmetric] tops succeed_def [abs_def] Let_def)
    have p1: "pending_of q1 = (pending_of q)(t := None)" and "\<exists>ts'. tq_ok q1 ts'"
      using replace_tops [OF less.prems tin refl, of "[]"] by (simp_all add: q1_def)
    then obtain ts1 where ok1: "tq_ok q1 ts1" by blast
    have "mset (heap q1) = filter_mset (\<lambda>x. snd x \<noteq> t) (mset (heap q))"
      using remove_timer_core(4) [of "upd_timer t (\<lambda>d. d\<lparr>tops := []\<rparr>) q" ts t] core tin
      by (simp add: q1_def tq_core_upd_tops)
    then have "size (mset (heap q1)) < size (mset (heap q))"
      using mem by (metis (mono_tags, lifting) multiset_filter_subset filter_mset_eq_conv mset_subset_size
        set_mset_mset snd_conv subset_mset.le_imp_less_or_eq)
    then have "length (heap q1) < length (heap q)" by simp
    from less.hyps [OF this ok1, of "ops @ map succeed os"]
    obtain us q' ts' where ih: "ready_loop now (ops @ map succeed os) q1 = Some ((ops @ map succeed os) @ concat (map (ops_of q1) us), q')"
        "tq_ok q' ts'" "distinct us" "set us = ready now q1" "sorted (map (due q1) us)"
        "pending_of q' = (\<lambda>t. if t \<in> ready now q1 then None else pending_of q1 t)"
      by blast
    have "t \<in> ready now q"
      using os True by (auto simp: e_def ready_def)
    then have rd: "ready now q = insert t (ready now q1)" "t \<notin> ready now q1"
      using p1 by (auto simp: ready_def)
    have same: "ops_of q1 u = ops_of q u" "due q1 u = due q u" if "u \<in> set us" for u
      using that ih(4) p1 rd(2) by (auto simp: ops_of_def due_def)
    have least: "e \<le> due q u" if "u \<in> ready now q" for u
    proof -
      from \<open>u \<in> ready now q\<close> obtain e' os' where "pending_of q u = Some (Some e', os')"
        by (auto simp: ready_def)
      moreover from this have "(e', u) \<in> set (heap q)" using pend by blast
      then have "e \<le> e'"
        using core root_least [of "length (heap q)" "time_at q"]
        by (fastforce simp: tq_core_def heap_inv_def in_set_conv_nth e_def)
      ultimately show ?thesis by (simp add: due_def)
    qed
    have maps: "map (ops_of q1) us = map (ops_of q) us" "map (due q1) us = map (due q) us"
      using same by simp_all
    have t: "ops_of q t = map succeed os" and dt: "due q t = e"
      using os by (simp_all add: ops_of_def due_def)
    have sorted_us: "sorted (map (due q) us)"
      using ih(5) unfolding maps .
    have "ready_loop now ops q = Some (ops @ concat (map (ops_of q) (t # us)), q')"
      using ih(1) unfolding maps step by (simp add: t)
    moreover have "sorted (map (due q) (t # us))"
      using sorted_us least ih(4) rd dt by simp
    moreover have "distinct (t # us)" "set (t # us) = ready now q"
      using ih(3,4) rd by simp_all
    moreover have "pending_of q' = (\<lambda>u. if u \<in> ready now q then None else pending_of q u)"
      unfolding ih(6) rd(1) p1 by auto
    ultimately show ?thesis using ih(2) by blast
  qed
qed


text \<open>A timer is put in the place of another one.\<close>

lemma seg_replace:
  assumes seg: "seg nx pv None x (as @ s # bs) None" and d: "distinct (as @ s # bs)"
    and t: "t \<noteq> s" "t \<notin> set as" "t \<notin> set bs"
    and x': "x' = (if x = Some s then Some t else x)"
    and nx': "\<And>u. u \<noteq> s \<Longrightarrow> nx' u = (if u = t then nx s else if Some u = pv s then Some t else nx u)"
    and pv': "\<And>u. u \<noteq> s \<Longrightarrow> pv' u = (if u = t then pv s else if Some u = nx s then Some t else pv u)"
  shows "seg nx' pv' None x' (as @ t # bs) None"
proof -
  let ?l = "if as = [] then None else Some (last as)"
  have sa: "seg nx pv None x as (Some s)" and pt: "pv s = ?l" and sb: "seg nx pv (Some s) (nx s) bs None"
    using seg by (auto simp: seg_append)
  have nt: "nx s = (if bs = [] then None else Some (hd bs))"
    by (rule seg_first [OF sb])
  have in_bs: "u \<noteq> s \<and> u \<noteq> t \<and> Some u \<noteq> pv s" if "u \<in> set bs" for u
  proof -
    have "as \<noteq> [] \<Longrightarrow> last as \<notin> set bs" using d last_in_set [of as] by (auto simp del: last_in_set)
    then show ?thesis using that d t pt by (auto split: if_splits)
  qed
  have in_as: "u \<noteq> s \<and> u \<noteq> t \<and> Some u \<noteq> nx s" if "u \<in> set as" for u
  proof -
    have "bs \<noteq> [] \<Longrightarrow> hd bs \<in> set bs" by simp
    then show ?thesis using that d t nt by (auto split: if_splits)
  qed
  have b: "seg nx' pv' (Some t) (nx s) bs None"
  proof (cases "bs = []")
    case True
    then show ?thesis using nt by simp
  next
    case False
    have "seg nx (pv(hd bs := Some t)) (Some t) (nx s) bs None"
      using False d by (intro seg_head [OF sb]) auto
    then show ?thesis
      by (subst seg_cong [of bs _ nx _ "pv(hd bs := Some t)"]) (use in_bs nt nx' pv' False in auto)
  qed
  have nt': "nx' t = nx s" "pv' t = ?l" using nx' [of t] pv' [of t] t(1) pt by simp_all
  show ?thesis
  proof (cases "as = []")
    case True
    then show ?thesis using b sa x' nt' by simp
  next
    case False
    then have la: "last as \<in> set as" by simp
    have "seg (nx(last as := Some t)) pv None x as (Some t)"
      using False d by (intro seg_last [OF sa]) auto
    then have "seg nx' pv' None x as (Some t)"
      by (subst seg_cong [of as _ "nx(last as := Some t)" _ pv]) (use in_as pt nx' pv' False in auto)
    moreover have "x = Some (hd as)"
      using sa False by (cases as) auto
    then have "x' = x"
      using x' in_as [of "hd as"] False by simp
    ultimately show ?thesis
      using b False nt' by (auto simp: seg_append)
  qed
qed

lemma move_links_fields:
  assumes "source \<noteq> target" "nxt q source \<noteq> Some source" "prv q source \<noteq> Some source"
    "nxt q source \<noteq> Some target" "prv q source \<noteq> Some target"
  shows "timers (move_links target source q) = (if timers q = Some source then Some target else timers q)"
    "heap (move_links target source q) = heap q"
    "nxt (move_links target source q) u = (if u = source then None else if u = target then nxt q source
       else if Some u = prv q source then Some target else nxt q u)"
    "prv (move_links target source q) u = (if u = source then None else if u = target then prv q source
       else if Some u = nxt q source then Some target else prv q u)"
    "heap_index (per_timer (move_links target source q) u) = heap_index (per_timer q u)"
    "tops (per_timer (move_links target source q) u) = tops (per_timer q u)"
  using assms by (cases "prv q source"; cases "nxt q source"; auto simp: move_links_def Let_def upd_timer_def)+

lemma move_fields:
  fixes q :: timer_queue
  assumes "source \<noteq> target"
  defines "q1 \<equiv> move_entry target source (move_ops target source q)"
  shows "timers q1 = timers q" "nxt q1 u = nxt q u" "prv q1 u = prv q u"
    "heap q1 = (let i = heap_index (per_timer q source)
       in if i < length (heap q) then (heap q)[i := (time_at q i, target)] else heap q)"
    "heap_index (per_timer q1 u) = (if u = source then no_index
       else if u = target then heap_index (per_timer q source) else heap_index (per_timer q u))"
    "tops (per_timer q1 u) = (if u = source then []
       else if u = target then tops (per_timer q target) @ tops (per_timer q source) else tops (per_timer q u))"
  using assms by (simp_all add: q1_def move_entry_def move_ops_def Let_def upd_timer_def)

lemma move_timer_refines:
  assumes ok: "tq_ok q ts" and ne: "source \<noteq> target" and idle: "target \<notin> set ts"
  shows "\<exists>ts'. tq_ok (move_timer target source q) ts'"
    and "pending_of (move_timer target source q) = (pending_of q)(target := pending_of q source, source := None)"
proof -
  let ?q1 = "move_entry target source (move_ops target source q)" and ?q = "move_timer target source q"
  have core: "tq_core q ts" and tops: "\<And>t. t \<in> set ts \<longleftrightarrow> tops (per_timer q t) \<noteq> []"
    using ok by (auto simp: tq_ok_def)
  have l: "listed q ts" and d: "distinct ts" and links: "heap_links q"
    using core by (auto simp: tq_core_def listed_def heap_inv_def)
  note m1 = move_fields [OF ne, of q]
  have nself: "nxt q source \<noteq> Some source" "prv q source \<noteq> Some source"
    using listed_not_self [OF l] by auto
  have ntarget: "nxt q source \<noteq> Some target \<and> prv q source \<noteq> Some target"
  proof (cases "source \<in> set ts")
    case True
    then obtain as bs where ts: "ts = as @ source # bs" by (meson split_list)
    then have "prv q source = (if as = [] then None else Some (last as))" and sb: "seg (nxt q) (prv q) (Some source) (nxt q source) bs None"
      using l by (auto simp: listed_def seg_append)
    moreover have "nxt q source = (if bs = [] then None else Some (hd bs))"
      by (rule seg_first [OF sb])
    moreover have "as \<noteq> [] \<Longrightarrow> last as \<in> set ts" "bs \<noteq> [] \<Longrightarrow> hd bs \<in> set ts"
      using ts by auto
    ultimately show ?thesis using idle by auto
  qed (use l in \<open>auto simp: listed_def\<close>)
  have m2: "timers ?q = (if timers q = Some source then Some target else timers q)"
    "heap ?q = heap ?q1"
    "nxt ?q u = (if u = source then None else if u = target then nxt q source
       else if Some u = prv q source then Some target else nxt q u)"
    "prv ?q u = (if u = source then None else if u = target then prv q source
       else if Some u = nxt q source then Some target else prv q u)"
    "heap_index (per_timer ?q u) = heap_index (per_timer ?q1 u)"
    "tops (per_timer ?q u) = tops (per_timer ?q1 u)" for u
    using move_links_fields [of source target ?q1] ne nself ntarget m1 by (simp_all add: move_timer_def)
  define ts' where "ts' = map (\<lambda>u. if u = source then target else u) ts"
  have set': "set ts' = (if source \<in> set ts then insert target (set ts - {source}) else set ts)"
    by (auto simp: ts'_def)
  have listed': "listed ?q ts'"
  proof (cases "source \<in> set ts")
    case True
    then obtain as bs where ts: "ts = as @ source # bs" by (meson split_list)
    have da: "source \<notin> set as" "source \<notin> set bs" using d ts by auto
    then have map_id: "map (\<lambda>u. if u = source then target else u) as = as"
        "map (\<lambda>u. if u = source then target else u) bs = bs"
      by (auto intro: map_idI)
    have tsm: "ts' = as @ target # bs"
      by (simp add: ts'_def ts map_id)
    have "seg (nxt ?q) (prv ?q) None (timers ?q) ts' None"
      unfolding tsm
      by (rule seg_replace [where s = source and nx = "nxt q" and pv = "prv q" and x = "timers q"])
        (use l ts d idle ne m2 in \<open>auto simp: listed_def\<close>)
    moreover have "distinct ts'"
      using d idle ts tsm by auto
    moreover have "nxt ?q u = None \<and> prv ?q u = None" if "u \<notin> set ts'" for u
    proof (cases "u = source")
      case False
      then have "u \<notin> set ts" "u \<noteq> target" using that True by (auto simp: set')
      moreover from this have "nxt q u = None" "prv q u = None" using l by (auto simp: listed_def)
      moreover have "Some u \<noteq> prv q source \<and> Some u \<noteq> nxt q source"
      proof -
        have "prv q source = (if as = [] then None else Some (last as))" and sb: "seg (nxt q) (prv q) (Some source) (nxt q source) bs None"
          using l ts by (auto simp: listed_def seg_append)
        moreover have "nxt q source = (if bs = [] then None else Some (hd bs))"
          by (rule seg_first [OF sb])
        moreover have "as \<noteq> [] \<Longrightarrow> last as \<in> set ts" "bs \<noteq> [] \<Longrightarrow> hd bs \<in> set ts"
          using ts by auto
        ultimately show ?thesis using \<open>u \<notin> set ts\<close> by auto
      qed
      ultimately show ?thesis using m2(3,4) by simp
    qed (use m2 in simp)
    ultimately show ?thesis by (simp add: listed_def)
  next
    case False
    then have idle_s: "nxt q source = None" "prv q source = None" using l by (auto simp: listed_def)
    have "ts' = ts" using False by (auto simp: ts'_def intro: map_idI)
    moreover have "timers q \<noteq> Some source"
      using False l seg_first [of "nxt q" "prv q" None "timers q" ts] by (auto simp: listed_def split: if_splits)
    moreover have "nxt q target = None" "prv q target = None" using l idle by (auto simp: listed_def)
    ultimately show ?thesis
      using l idle_s m2(1,3,4) listed_cong [of ?q q ts] by simp
  qed
  let ?i = "heap_index (per_timer q source)"
  have idx: "heap_index (per_timer ?q u) = (if u = source then no_index else if u = target then ?i
      else heap_index (per_timer q u))" for u
    using m1(5) m2(5) by simp
  have heap': "heap ?q = (if ?i < length (heap q) then (heap q)[?i := (time_at q ?i, target)] else heap q)"
    using m1(4) m2(2) by (simp add: Let_def)
  have len: "length (heap ?q) = length (heap q)" and time: "time_at ?q k = time_at q k" for k
    by (cases "k = ?i"; simp add: heap')+
  have tn: "target \<notin> in_heap q" using core idle by (auto simp: tq_core_def)
  have room: "length (heap q) \<le> no_index" using core by (simp add: tq_core_def)
  have source_at: "snd (heap q ! k) = source \<longleftrightarrow> k = ?i" if "k < length (heap q)" "source \<in> in_heap q" for k
  proof -
    obtain e where "(e, source) \<in> set (heap q)" using \<open>source \<in> in_heap q\<close> by (auto simp: in_heap_def)
    from in_heapD [OF core this] show ?thesis
      using heap_links_inj [OF links that(1), of ?i] by auto
  qed
  have not_in: "?i = no_index" if "source \<notin> in_heap q" using core that by (simp add: tq_core_def)
  have entry: "snd (heap ?q ! k) = (if snd (heap q ! k) = source then target else snd (heap q ! k))"
    if "k < length (heap q)" for k
  proof (cases "source \<in> in_heap q")
    case True
    then show ?thesis using source_at [OF that True] that by (auto simp: heap' nth_list_update)
  next
    case False
    have "snd (heap q ! k) \<in> in_heap q"
      using that by (simp add: in_heap_def)
    then have "snd (heap q ! k) \<noteq> source" using False by blast
    then show ?thesis using not_in [OF False] room by (simp add: heap')
  qed
  have in_heap': "in_heap ?q = (\<lambda>u. if u = source then target else u) ` in_heap q"
  proof -
    have "map snd (heap ?q) = map (\<lambda>u. if u = source then target else u) (map snd (heap q))"
      by (rule nth_equalityI) (simp_all add: len entry)
    then have "set (map snd (heap ?q)) = set (map (\<lambda>u. if u = source then target else u) (map snd (heap q)))"
      by (rule arg_cong)
    then show ?thesis unfolding in_heap_def set_map .
  qed
  have "heap_links ?q"
    unfolding heap_links_def len
  proof (intro allI impI)
    fix k assume k: "k < length (heap q)"
    have nt: "snd (heap q ! k) \<in> in_heap q" using k by (simp add: in_heap_def)
    show "heap_index (per_timer ?q (snd (heap ?q ! k))) = k"
    proof (cases "snd (heap q ! k) = source")
      case True
      then show ?thesis unfolding entry [OF k] idx using source_at [OF k] nt ne by simp
    next
      case False
      then have "snd (heap q ! k) \<noteq> target" using nt tn by blast
      then show ?thesis unfolding entry [OF k] idx using False links k by (simp add: heap_links_def)
    qed
  qed
  moreover have "order_on (length (heap ?q)) (time_at ?q)"
    using core by (simp add: len time tq_core_def heap_inv_def)
  moreover have "in_heap ?q \<subseteq> set ts'"
    using core by (auto simp: in_heap' set' ts'_def tq_core_def)
  moreover have "heap_index (per_timer ?q u) = no_index" if "u \<notin> in_heap ?q" for u
  proof -
    have "u = target \<Longrightarrow> source \<notin> in_heap q" "u \<noteq> source \<Longrightarrow> u \<noteq> target \<Longrightarrow> u \<notin> in_heap q"
      using that by (auto simp: in_heap')
    then show ?thesis using not_in core by (auto simp: idx tq_core_def)
  qed
  ultimately have "tq_core ?q ts'"
    using listed' room by (simp add: tq_core_def heap_inv_def len)
  moreover have tops': "tops (per_timer ?q u) = (if u = source then [] else if u = target then tops (per_timer q source)
      else tops (per_timer q u))" for u
    using m1(6) m2(6) idle tops [of target] by simp
  ultimately have "tq_ok ?q ts'"
    using tops ne idle by (auto simp: tq_ok_def set')
  then show "\<exists>ts'. tq_ok ?q ts'" by blast
  have "expiry ?q u = (if u = source then None else if u = target then expiry q source else expiry q u)" for u
    using room by (simp add: expiry_def Let_def idx len time)
  then show "pending_of ?q = (pending_of q)(target := pending_of q source, source := None)"
    using tops' ne by (auto simp: pending_of_def fun_eq_iff)
qed


text \<open>At shutdown every operation is taken, timer by timer.\<close>

lemma all_loop_spec:
  assumes "seg (nxt q) (prv q) p (timers q) ts None" and "distinct ts"
  shows "\<exists>q'. all_loop ops q = Some (ops @ concat (map (\<lambda>t. tops (per_timer q t)) ts), q') \<and> timers q' = None
    \<and> (\<forall>t. tops (per_timer q' t) = (if t \<in> set ts then [] else tops (per_timer q t)))"
  using assms
proof (induction ts arbitrary: q ops p)
  case Nil
  then show ?case by (simp add: all_loop.simps)
next
  case (Cons t ts)
  let ?q = "upd_timer t (\<lambda>d. d\<lparr>tops := [], next_timer := None, prev_timer := None\<rparr>) (q\<lparr>timers := nxt q t\<rparr>)"
  have same: "u \<noteq> t \<Longrightarrow> per_timer ?q u = per_timer q u" for u
    by (simp add: upd_timer_def)
  have "seg (nxt q) (prv q) (Some t) (nxt q t) ts None"
    using Cons.prems by simp
  then have "seg (nxt ?q) (prv ?q) (Some t) (timers ?q) ts None"
    using Cons.prems(2) same seg_cong [of ts "nxt ?q" "nxt q" "prv ?q" "prv q" "Some t" "nxt q t" None] by fastforce
  from Cons.IH [OF this, of "ops @ tops (per_timer q t)"] Cons.prems(2)
  obtain q' where q': "all_loop (ops @ tops (per_timer q t)) ?q
        = Some ((ops @ tops (per_timer q t)) @ concat (map (\<lambda>t. tops (per_timer ?q t)) ts), q')" "timers q' = None"
      "\<forall>u. tops (per_timer q' u) = (if u \<in> set ts then [] else tops (per_timer ?q u))"
    by auto
  have ops: "map (\<lambda>t. tops (per_timer ?q t)) ts = map (\<lambda>t. tops (per_timer q t)) ts"
    using Cons.prems(2) by (intro map_cong) (auto simp: upd_timer_def)
  have step: "all_loop ops q = all_loop (ops @ tops (per_timer q t)) ?q"
    using Cons.prems(1) by (subst all_loop.simps) simp
  have tops: "tops (per_timer ?q u) = (if u = t then [] else tops (per_timer q u))" for u
    by (simp add: upd_timer_def)
  have "all_loop ops q = Some (ops @ concat (map (\<lambda>t. tops (per_timer q t)) (t # ts)), q')"
    unfolding step q'(1) ops by simp
  moreover have "\<forall>u. tops (per_timer q' u) = (if u \<in> set (t # ts) then [] else tops (per_timer q u))"
    using q'(3) tops by simp
  ultimately show ?case using q'(2) by blast
qed


section \<open>Every queue a reactor builds\<close>

text \<open>
  The calls of a reactor, in any order and number. An operation is enqueued once, there is memory for
  the entries of the heap, and a timer is moved to one without operations.
\<close>

inductive tq_reach :: "(int \<Rightarrow> bool) \<Rightarrow> timer_queue \<Rightarrow> bool" for is_inf where
  tq_new: "tq_reach is_inf new_timer_queue"
| tq_enqueue: "\<lbrakk>tq_reach is_inf q; length (heap q) < no_index; op_id op \<notin> op_id ` set (tops (per_timer q t))\<rbrakk>
    \<Longrightarrow> tq_reach is_inf (snd (enqueue_timer is_inf time t op q))"
| tq_ready: "\<lbrakk>tq_reach is_inf q; get_ready_timers now ops q = Some (ops', q')\<rbrakk> \<Longrightarrow> tq_reach is_inf q'"
| tq_cancel: "tq_reach is_inf q \<Longrightarrow> tq_reach is_inf (snd (snd (cancel_timer t ops m q)))"
| tq_cancel_key: "tq_reach is_inf q \<Longrightarrow> tq_reach is_inf (snd (cancel_timer_by_key t ops key q))"
| tq_move: "\<lbrakk>tq_reach is_inf q; source \<noteq> target; tops (per_timer q target) = []\<rbrakk>
    \<Longrightarrow> tq_reach is_inf (move_timer target source q)"

lemma get_ready_spec:
  assumes "tq_ok q ts"
  shows "\<exists>us q' ts'. get_ready_timers now ops q = Some (ops @ concat (map (ops_of q) us), q') \<and> tq_ok q' ts'
    \<and> distinct us \<and> set us = ready now q \<and> sorted (map (due q) us)
    \<and> pending_of q' = (\<lambda>t. if t \<in> ready now q then None else pending_of q t)"
proof -
  have "get_ready_timers now ops q = ready_loop now ops q"
    by (auto simp: get_ready_timers_def ready_loop.simps)
  then show ?thesis using ready_loop_spec [OF assms, of now ops] by simp
qed

lemma tq_reach_ok:
  assumes "tq_reach is_inf q"
  shows "\<exists>ts. tq_ok q ts"
  using assms
proof induction
  case tq_new
  have "tq_ok new_timer_queue []"
    by (auto simp: tq_ok_def tq_core_def new_timer_queue_def new_timer_data_def heap_inv_def heap_links_def
      order_on_def listed_def in_heap_def)
  then show ?case by blast
next
  case (tq_enqueue q op t time)
  then show ?case using enqueue_timer_refines [of q _ op t is_inf time] by fastforce
next
  case (tq_ready q now ops ops' q')
  then show ?case using get_ready_spec [of q _ now ops] by fastforce
next
  case (tq_cancel q t ops m)
  then obtain ts where "tq_ok q ts" by blast
  from cancel_timer_refines [OF this, of t ops m] show ?case
    by (cases "pending_of q t") auto
next
  case (tq_cancel_key q t ops key)
  then obtain ts where "tq_ok q ts" by blast
  from cancel_by_key_refines [OF this, of t ops key] show ?case
    by (cases "pending_of q t") (auto simp: Let_def)
next
  case (tq_move q source target)
  then obtain ts where "tq_ok q ts" by blast
  moreover from this have "target \<notin> set ts" using tq_move by (simp add: tq_ok_def)
  ultimately show ?case using move_timer_refines(1) tq_move by blast
qed

text \<open>
  Property C29. In every queue a reactor builds the array is a heap on the times, every timer in it knows its
  index, and the timers with pending operations are exactly those of the doubly linked list, each once.
\<close>

theorem timer_queue_well_formed:
  assumes "tq_reach is_inf q"
  shows "(\<forall>i < length (heap q). (0 < i \<longrightarrow> fst (heap q ! ((i - 1) div 2)) \<le> fst (heap q ! i))
      \<and> heap_index (per_timer q (snd (heap q ! i))) = i)
    \<and> (\<exists>ts. seg (\<lambda>t. next_timer (per_timer q t)) (\<lambda>t. prev_timer (per_timer q t)) None (timers q) ts None
      \<and> distinct ts \<and> set ts = {t. tops (per_timer q t) \<noteq> []} \<and> snd ` set (heap q) \<subseteq> set ts)"
proof -
  obtain ts where ok: "tq_ok q ts" using tq_reach_ok [OF assms] by blast
  have "set ts = {t. tops (per_timer q t) \<noteq> []}" using ok by (auto simp: tq_ok_def)
  then show ?thesis
    using ok unfolding tq_ok_def tq_core_def heap_inv_def heap_links_def order_on_def listed_def in_heap_def parent_def
    by blast
qed

text \<open>
  Property C27. Collecting the expired timers ends, appends the operations of the timers whose time has come and of
  no others, in the order of the times and each timer's in the order they were started, without an error
  code, and leaves every other timer as it was.
\<close>

theorem expired_timers_in_order:
  assumes "tq_reach is_inf q"
  shows "\<exists>us q'. get_ready_timers now ops q = Some (ops @ concat (map (ops_of q) us), q')
    \<and> distinct us \<and> set us = ready now q \<and> sorted (map (due q) us)
    \<and> pending_of q' = (\<lambda>t. if t \<in> ready now q then None else pending_of q t)"
proof -
  obtain ts where "tq_ok q ts" using tq_reach_ok [OF assms] by blast
  from get_ready_spec [OF this, of now ops] show ?thesis by blast
qed

text \<open>
  Property C28. Enqueueing, cancelling and moving are the operations of a table of pending timers. Enqueueing
  reports that the reactor has to be woken exactly when the timer is new and earlier than all others;
  cancelling takes the oldest operations, at most the number asked for, with the error aborted.
\<close>

theorem timer_queue_refines_table:
  assumes "tq_reach is_inf q" and "length (heap q) < no_index"
    and "op_id op \<notin> op_id ` set (tops (per_timer q t))"
    and "source \<noteq> target" and "tops (per_timer q target) = []"
  shows "(\<exists>q'. enqueue_timer is_inf time t op q =
        (pending_of q t = None \<and> \<not> is_inf time \<and> (\<forall>u e os. pending_of q u = Some (Some e, os) \<longrightarrow> time < e), q')
      \<and> pending_of q' = (pending_of q)(t \<mapsto> (case pending_of q t of
          None \<Rightarrow> (if is_inf time then None else Some time, [op]) | Some (e, os) \<Rightarrow> (e, os @ [op]))))
    \<and> (\<exists>q'. case pending_of q t of
         None \<Rightarrow> cancel_timer t ops m q = (0, ops, q') \<and> pending_of q' = pending_of q
       | Some (e, os) \<Rightarrow> cancel_timer t ops m q =
            (min m (length os), ops @ map (\<lambda>op. op\<lparr>op_ec := WaitAborted\<rparr>) (take m os), q')
          \<and> pending_of q' = (pending_of q)(t := if length os \<le> m then None else Some (e, drop m os)))
    \<and> pending_of (move_timer target source q) = (pending_of q)(target := pending_of q source, source := None)"
proof -
  obtain ts where ok: "tq_ok q ts" using tq_reach_ok [OF assms(1)] by blast
  then have "target \<notin> set ts" using assms(5) by (simp add: tq_ok_def)
  then show ?thesis
    using enqueue_timer_refines [OF ok assms(2,3), of is_inf time] cancel_timer_refines [OF ok, of t ops m]
      move_timer_refines(2) [OF ok assms(4)] by blast
qed

lemma root_is_earliest:
  assumes "tq_ok q ts" and "heap q \<noteq> []"
  shows "pending_of q u = Some (Some e, os) \<Longrightarrow> fst (heap q ! 0) \<le> e"
    and "\<exists>u os. pending_of q u = Some (Some (fst (heap q ! 0)), os)"
proof -
  have core: "tq_core q ts" using assms(1) by (simp add: tq_ok_def)
  have least: "\<forall>(e, u) \<in> set (heap q). fst (heap q ! 0) \<le> e"
    using core root_least [of "length (heap q)" "time_at q"]
    by (fastforce simp: tq_core_def heap_inv_def in_set_conv_nth)
  then show "pending_of q u = Some (Some e, os) \<Longrightarrow> fst (heap q ! 0) \<le> e"
    using pending_times [OF assms(1), of "\<lambda>e. fst (heap q ! 0) \<le> e"] by blast
  have "(fst (heap q ! 0), snd (heap q ! 0)) \<in> set (heap q)"
    using assms(2) by simp
  then show "\<exists>u os. pending_of q u = Some (Some (fst (heap q ! 0)), os)"
    using pending_times [OF assms(1), of "\<lambda>e. e \<noteq> fst (heap q ! 0)"] by fastforce
qed

text \<open>
  With a clock of nanoseconds, the time the reactor waits never overflows, is within the maximum, is
  zero exactly when a timer has expired, and ends no later than the first timer, but for the smallest
  unit.
\<close>

theorem wait_duration_ends_with_the_first_timer:
  assumes "tq_reach is_inf q" and "in_time now" and "0 < max_duration"
    and "\<forall>u e os. pending_of q u = Some (Some e, os) \<longrightarrow> in_time e"
  shows "\<exists>w. wait_duration_usec 1 1000000000 now max_duration q = Inr w \<and> 0 \<le> w \<and> w \<le> max_duration
    \<and> (w = 0 \<longleftrightarrow> ready now q \<noteq> {})
    \<and> (\<forall>u e os. pending_of q u = Some (Some e, os) \<and> now < e \<longrightarrow> w \<le> 1 \<or> w * 1000 \<le> e - now)"
proof (cases "heap q = []")
  case True
  obtain ts where ok: "tq_ok q ts" using tq_reach_ok [OF assms(1)] by blast
  have none: "\<not> (\<exists>u e os. pending_of q u = Some (Some e, os))"
    using pending_times [OF ok, of "\<lambda>_. False"] True by simp
  then have "ready now q = {}" by (auto simp: ready_def)
  then show ?thesis
    using True assms(3) none by (auto simp: wait_duration_usec_def)
next
  case False
  obtain ts where ok: "tq_ok q ts" using tq_reach_ok [OF assms(1)] by blast
  note root = root_is_earliest [OF ok False]
  define e where "e = fst (heap q ! 0)"
  have e: "in_time e" using root(2) assms(4) by (auto simp: e_def)
  have sub: "chrono_subtract e now = Inr (saturate (e - now))"
    using e assms(2) by (auto simp: chrono_subtract_def time_defs Let_def)
  define w where "w = (if saturate (e - now) \<le> 0 then 0 else
    (let u = saturate (e - now) div 1000 in if u = 0 then 1 else if u > max_duration then max_duration else u))"
  have eq: "wait_duration_usec 1 1000000000 now max_duration q = Inr w"
    using False by (simp add: wait_duration_usec_def sub to_usec_def total_nanoseconds w_def Let_def flip: e_def)
  have ready: "ready now q \<noteq> {} \<longleftrightarrow> e \<le> now"
    using root unfolding ready_def e_def by (auto intro: order_trans)
  have sat: "saturate (e - now) \<le> 0 \<longleftrightarrow> e \<le> now" "e > now \<Longrightarrow> saturate (e - now) \<le> e - now"
    by (auto simp: saturate_def time_max_def time_min_def)
  have "w \<le> 1 \<or> w * 1000 \<le> e' - now" if "pending_of q u = Some (Some e', os)" "now < e'" for u e' os
  proof -
    have "e \<le> e'" using root(1) that(1) by (simp add: e_def)
    moreover have "w \<le> 1 \<or> w * 1000 \<le> saturate (e - now)"
      by (auto simp: w_def Let_def)
    ultimately show ?thesis using sat that(2) by (cases "e \<le> now") (auto simp: w_def)
  qed
  moreover have "0 \<le> w" "w \<le> max_duration" "w = 0 \<longleftrightarrow> e \<le> now"
    using assms(3) sat(1) by (auto simp: w_def Let_def)
  ultimately show ?thesis using eq ready by blast
qed


text \<open>
  Taking all timers ends, gives every pending operation, timer by timer, each once, and leaves the
  queue empty.
\<close>

theorem all_timers_taken:
  assumes "tq_reach is_inf q"
  shows "\<exists>us q'. get_all_timers ops q = Some (ops @ concat (map (\<lambda>t. tops (per_timer q t)) us), q')
    \<and> distinct us \<and> set us = {t. pending_of q t \<noteq> None}
    \<and> queue_empty q' \<and> heap q' = [] \<and> pending_of q' = (\<lambda>_. None)"
proof -
  obtain ts where ok: "tq_ok q ts" using tq_reach_ok [OF assms] by blast
  then have "seg (nxt q) (prv q) None (timers q) ts None" "distinct ts"
    and ts: "set ts = {t. tops (per_timer q t) \<noteq> []}"
    by (auto simp: tq_ok_def tq_core_def listed_def)
  then obtain q' where "all_loop ops q = Some (ops @ concat (map (\<lambda>t. tops (per_timer q t)) ts), q')" "timers q' = None"
      "\<forall>t. tops (per_timer q' t) = (if t \<in> set ts then [] else tops (per_timer q t))"
    using all_loop_spec by blast
  then show ?thesis
    using \<open>distinct ts\<close> ts by (auto simp: get_all_timers_def queue_empty_def pending_of_def fun_eq_iff)
qed


section \<open>An example\<close>

text \<open>Timer 1 is to expire at 10, timer 2, enqueued later, at 5.\<close>

definition demo_op :: "nat \<Rightarrow> wait_op" where
  "demo_op n = \<lparr>op_id = n, cancellation_key = 0, op_ec = WaitSuccess\<rparr>"

definition demo_queue :: timer_queue where
  "demo_queue = snd (enqueue_timer (\<lambda>_. False) 5 2 (demo_op 8)
     (snd (enqueue_timer (\<lambda>_. False) 10 1 (demo_op 7) new_timer_queue)))"

lemmas demo_queue_eval = demo_queue_def demo_op_def enqueue_timer_def new_timer_queue_def new_timer_data_def
  link_front_def add_to_heap_def up_heap.simps swap_heap_def upd_timer_def Let_def time_less_than_def no_index_def

lemma demo_queue_heap: "heap demo_queue = [(5, 2), (10, 1)]"
  by (simp add: demo_queue_eval)

lemma demo_queue_tops: "tops (per_timer demo_queue t) = (if t = 1 then [demo_op 7] else if t = 2 then [demo_op 8] else [])"
  by (simp add: demo_queue_eval)

lemma demo_queue_index: "heap_index (per_timer demo_queue t) = (if t = 1 then 1 else if t = 2 then 0 else no_index)"
  by (simp add: demo_queue_eval)

lemma demo_queue_pending: "pending_of demo_queue t =
    (if t = 1 then Some (Some 10, [demo_op 7]) else if t = 2 then Some (Some 5, [demo_op 8]) else None)"
  by (simp add: pending_of_def expiry_def demo_queue_heap demo_queue_tops demo_queue_index)

lemma demo_queue_reach: "tq_reach (\<lambda>_. False) demo_queue"
  unfolding demo_queue_def
  by (intro tq_enqueue tq_new) (simp_all add: demo_queue_eval)

lemma demo_queue_ready: "ready 7 demo_queue = {2}" "due demo_queue 2 = 5" "ops_of demo_queue 2 = [demo_op 8]"
  by (auto simp: ready_def demo_queue_pending due_def ops_of_def succeed_def demo_op_def split: if_splits)

theorem timer_queue_well_formed_witness:
  "heap_index (per_timer demo_queue (snd (heap demo_queue ! 1))) = 1"
  using timer_queue_well_formed [OF demo_queue_reach, THEN conjunct1, THEN spec, of 1]
  unfolding demo_queue_heap by simp

theorem expired_timers_in_order_witness:
  "\<exists>q'. get_ready_timers 7 [] demo_queue = Some ([demo_op 8], q') \<and> pending_of q' 2 = None"
proof -
  obtain us q' where u: "get_ready_timers 7 [] demo_queue = Some ([] @ concat (map (ops_of demo_queue) us), q')"
      "distinct us" "set us = ready 7 demo_queue" "pending_of q' = (\<lambda>t. if t \<in> ready 7 demo_queue then None else pending_of demo_queue t)"
    using expired_timers_in_order [OF demo_queue_reach, of 7 "[]"] by blast
  then have "us = [2]"
    by (cases us; cases "tl us") (auto simp: demo_queue_ready)
  then show ?thesis using u by (auto simp: demo_queue_ready)
qed

theorem timer_queue_refines_table_witness:
  "\<exists>q'. enqueue_timer (\<lambda>_. False) 3 4 (demo_op 9) demo_queue = (True, q')"
proof -
  have 1: "length (heap demo_queue) < no_index" and 2: "op_id (demo_op 9) \<notin> op_id ` set (tops (per_timer demo_queue 4))"
    and 3: "(1::nat) \<noteq> 3" and 4: "tops (per_timer demo_queue 3) = []"
    by (simp_all add: demo_queue_heap demo_queue_tops no_index_def)
  have first: "(pending_of demo_queue 4 = None \<and> \<not> False
      \<and> (\<forall>u e os. pending_of demo_queue u = Some (Some e, os) \<longrightarrow> 3 < e)) = True"
    by (simp add: demo_queue_pending)
  from timer_queue_refines_table [OF demo_queue_reach 1 2 3 4, THEN conjunct1, where time1 = 3] show ?thesis
    unfolding first by blast
qed

theorem wait_duration_ends_with_the_first_timer_witness:
  "\<exists>w. wait_duration_usec 1 1000000000 7 1000 demo_queue = Inr w \<and> w = 0"
  using wait_duration_ends_with_the_first_timer [OF demo_queue_reach, of 7 1000]
  by (auto simp: demo_queue_pending demo_queue_ready time_defs split: if_splits)

theorem all_timers_taken_witness:
  "\<exists>q'. get_all_timers [] new_timer_queue = Some ([], q') \<and> queue_empty q'"
  using all_timers_taken [OF tq_new, of "[]"]
  by (auto simp: pending_of_def new_timer_queue_def new_timer_data_def)

end
