(* ===== verification/Strand.thy ===== *)
theory Strand
  imports Linked "HOL-Library.Sublist"
begin

text \<open>
  Strands: \<^verbatim>\<open>asio/detail/impl/strand_executor_service.ipp\<close> and \<^verbatim>\<open>.hpp\<close>, the strands on an executor, and
  \<^verbatim>\<open>asio/detail/impl/strand_service.ipp\<close>, those of an \<^verbatim>\<open>io_context\<close>. The functions given to a strand run one
  at a time, in order, on whatever threads the inner executor uses.

  A strand is its address, a number; the world holds the strands, what the threads are doing, and the
  \<open>scheduled\<close> invokers, which the inner executor has been given and has not started. A thread is a stack of
  \<open>frame\<close>s, the innermost first: the calls of the services in progress and the user functions that
  surround them. Each critical section is one step, as is each access outside one to \<^verbatim>\<open>ready_queue_\<close>, so that the
  steps of the threads interleave wherever the code does not hold the mutex.
\<close>

section \<open>The state\<close>

record strand_impl =
  mutex_slot :: nat
  locked :: bool
  shut :: bool
  waiting_queue :: "nat list"
  ready_queue :: "nat list"
  next_impl :: "nat option"
  prev_impl :: "nat option"

text \<open>
  \<open>PushReady i op b\<close>: the caller has taken the lock of \<open>i\<close> and is about to push \<open>op\<close> on the ready queue;
  \<open>Schedule i b\<close>: it is about to give the invoker to the executor, which may call it at once if \<open>b\<close>;
  \<open>Running i\<close>: the loop over the ready handlers; \<open>Direct i\<close>: the immediate invocation of \<^verbatim>\<open>do_dispatch\<close>;
  \<open>Handler i op\<close>: a handler called from these; \<open>Inline i op\<close>: a function called at once, in the strand;
  \<open>Exit i thrown\<close>: the destructor of \<^verbatim>\<open>on_exit\<close>, after an exception if \<open>thrown\<close>; \<open>Resched i\<close>: its call of
  the executor.
\<close>

datatype frame =
    PushReady nat nat bool
  | Schedule nat bool
  | Running nat
  | Direct nat
  | Handler nat nat
  | Inline nat nat
  | Exit nat bool
  | Resched nat

text \<open>
  \<open>accepted\<close> and \<open>started\<close> record, for each strand, the operations it took and those it has called. \<open>cleared\<close> are
  the strands whose service has been shut down, \<open>alive\<close> the strands on an executor that exist, \<open>pool\<close> the array
  \<^verbatim>\<open>implementations_\<close> of the \<^verbatim>\<open>io_context\<close>'s.
\<close>

record strand_world =
  impls :: "nat \<Rightarrow> strand_impl"
  stacks :: "nat \<Rightarrow> frame list"
  scheduled :: "nat \<Rightarrow> nat"
  accepted :: "nat \<Rightarrow> nat list"
  started :: "nat \<Rightarrow> nat list"
  cleared :: "nat set"
  alive :: "nat set"
  impl_list :: "nat option"
  salt :: u64
  mutexes :: "nat set"
  pool :: "nat \<Rightarrow> nat option"
  pool_salt :: u64

definition new_strand :: "nat \<Rightarrow> strand_impl" where
  "new_strand slot = \<lparr>mutex_slot = slot, locked = False, shut = False, waiting_queue = [], ready_queue = [],
     next_impl = None, prev_impl = None\<rparr>"

definition new_strand_world :: strand_world where
  "new_strand_world = \<lparr>impls = \<lambda>_. new_strand 0, stacks = \<lambda>_. [], scheduled = \<lambda>_. 0, accepted = \<lambda>_. [],
     started = \<lambda>_. [], cleared = {}, alive = {}, impl_list = None, salt = 0, mutexes = {},
     pool = \<lambda>_. None, pool_salt = 0\<rparr>"

definition upd_impl :: "nat \<Rightarrow> (strand_impl \<Rightarrow> strand_impl) \<Rightarrow> strand_world \<Rightarrow> strand_world" where
  "upd_impl i f w = w\<lparr>impls := (impls w)(i := f (impls w i))\<rparr>"

definition set_stack :: "nat \<Rightarrow> frame list \<Rightarrow> strand_world \<Rightarrow> strand_world" where
  "set_stack t fs w = w\<lparr>stacks := (stacks w)(t := fs)\<rparr>"

abbreviation push_frame :: "nat \<Rightarrow> frame \<Rightarrow> strand_world \<Rightarrow> strand_world" where
  "push_frame t f w \<equiv> set_stack t (f # stacks w t) w"

definition accept_op :: "nat \<Rightarrow> nat \<Rightarrow> strand_world \<Rightarrow> strand_world" where
  "accept_op i op w = w\<lparr>accepted := (accepted w)(i := accepted w i @ [op])\<rparr>"

definition start_strand_op :: "nat \<Rightarrow> nat \<Rightarrow> strand_world \<Rightarrow> strand_world" where
  "start_strand_op i op w = w\<lparr>started := (started w)(i := started w i @ [op])\<rparr>"

section \<open>The calling thread\<close>

text \<open>\<^verbatim>\<open>call_stack<strand_impl>\<close>: the contexts on the stack of a thread.\<close>

fun context_key :: "frame \<Rightarrow> nat option" where
  "context_key (Running i) = Some i"
| "context_key (Direct i) = Some i"
| "context_key _ = None"

fun contains :: "nat \<Rightarrow> frame list \<Rightarrow> bool" where
  "contains k [] = False"
| "contains k (elem # next) = (if context_key elem = Some k then True else contains k next)"

definition running_in_this_thread :: "nat \<Rightarrow> nat \<Rightarrow> strand_world \<Rightarrow> bool" where
  "running_in_this_thread t i w \<longleftrightarrow> contains i (stacks w t)"

text \<open>User code runs on a thread: outside all strands, or in a function called by one.\<close>

fun user_code :: "frame list \<Rightarrow> bool" where
  "user_code [] = True"
| "user_code (Handler i op # fs) = True"
| "user_code (Inline i op # fs) = True"
| "user_code (f # fs) = False"

section \<open>Strands on an executor\<close>

text \<open>\<^verbatim>\<open>enqueue\<close> up to the unlock; when it takes the lock the push on the ready queue is still to come.\<close>

definition enqueue_op :: "nat \<Rightarrow> nat \<Rightarrow> strand_world \<Rightarrow> bool \<times> strand_world" where
  "enqueue_op i op w =
     (if shut (impls w i) then (False, w)
      else if locked (impls w i) then
        (False, accept_op i op (upd_impl i (\<lambda>s. s\<lparr>waiting_queue := waiting_queue s @ [op]\<rparr>) w))
      else (True, accept_op i op (upd_impl i (\<lambda>s. s\<lparr>locked := True\<rparr>) w)))"

definition push_ready :: "nat \<Rightarrow> nat \<Rightarrow> strand_world \<Rightarrow> strand_world" where
  "push_ready i op w = upd_impl i (\<lambda>s. s\<lparr>ready_queue := ready_queue s @ [op]\<rparr>) w"

definition submit :: "nat \<Rightarrow> nat \<Rightarrow> nat \<Rightarrow> bool \<Rightarrow> strand_world \<Rightarrow> strand_world" where
  "submit t i op may_block w =
     (case enqueue_op i op w of (first, w) \<Rightarrow> if first then push_frame t (PushReady i op may_block) w else w)"

definition do_execute :: "bool \<Rightarrow> nat \<Rightarrow> nat \<Rightarrow> nat \<Rightarrow> strand_world \<Rightarrow> strand_world" where
  "do_execute blocking_never t i op w =
     (if \<not> blocking_never \<and> running_in_this_thread t i w then push_frame t (Inline i op) w
      else submit t i op (\<not> blocking_never) w)"

definition strand_dispatch :: "nat \<Rightarrow> nat \<Rightarrow> nat \<Rightarrow> strand_world \<Rightarrow> strand_world" where
  "strand_dispatch t i op w =
     (if running_in_this_thread t i w then push_frame t (Inline i op) w else submit t i op True w)"

definition strand_post :: "nat \<Rightarrow> nat \<Rightarrow> nat \<Rightarrow> strand_world \<Rightarrow> strand_world" where
  "strand_post t i op w = submit t i op False w"

definition strand_defer :: "nat \<Rightarrow> nat \<Rightarrow> nat \<Rightarrow> strand_world \<Rightarrow> strand_world" where
  "strand_defer t i op w = submit t i op False w"

definition push_waiting_to_ready :: "nat \<Rightarrow> strand_world \<Rightarrow> bool \<times> strand_world" where
  "push_waiting_to_ready i w =
     (let w = upd_impl i (\<lambda>s. s\<lparr>ready_queue := ready_queue s @ waiting_queue s, waiting_queue := []\<rparr>) w;
          more_handlers = (ready_queue (impls w i) \<noteq> []);
          w = upd_impl i (\<lambda>s. s\<lparr>locked := more_handlers\<rparr>) w
      in (more_handlers, w))"

definition on_invoker_exit :: "nat \<Rightarrow> nat \<Rightarrow> frame list \<Rightarrow> strand_world \<Rightarrow> strand_world" where
  "on_invoker_exit t i fs w =
     (case push_waiting_to_ready i w of
        (more_handlers, w) \<Rightarrow> set_stack t (if more_handlers then Resched i # fs else fs) w)"

text \<open>One turn of the loop of \<^verbatim>\<open>run_ready_handlers\<close>; the frame \<open>Running i\<close> is on the top of the stack.\<close>

definition run_ready_turn :: "nat \<Rightarrow> nat \<Rightarrow> frame list \<Rightarrow> strand_world \<Rightarrow> strand_world" where
  "run_ready_turn t i fs w =
     (case ready_queue (impls w i) of
        op # rest \<Rightarrow>
          let w = upd_impl i (\<lambda>s. s\<lparr>ready_queue := rest\<rparr>) w
          in set_stack t (Handler i op # Running i # fs) (start_strand_op i op w)
      | [] \<Rightarrow> set_stack t (Exit i False # fs) w)"

section \<open>The service of the strands on an executor\<close>

text \<open>The slot of the pool of mutexes; \<open>p\<close> is the address of the strand.\<close>

definition mutex_index_of :: "u64 \<Rightarrow> u64 \<Rightarrow> nat" where
  "mutex_index_of p s =
     (let index = p;
          index = index + drop_bit 3 p;
          index = xor index (s + 0x9e3779b9 + push_bit 6 index + drop_bit 2 index)
      in unat (index mod 193))"

definition create_implementation :: "nat \<Rightarrow> strand_world \<Rightarrow> strand_world" where
  "create_implementation i w =
     (let slot = mutex_index_of (of_nat i) (salt w);
          w = w\<lparr>salt := salt w + 1, mutexes := insert slot (mutexes w), alive := insert i (alive w),
                accepted := (accepted w)(i := []), started := (started w)(i := []), cleared := cleared w - {i}\<rparr>;
          w = upd_impl i (\<lambda>_. (new_strand slot)\<lparr>next_impl := impl_list w\<rparr>) w;
          w = (case impl_list w of Some f \<Rightarrow> upd_impl f (\<lambda>s. s\<lparr>prev_impl := Some i\<rparr>) w | None \<Rightarrow> w)
      in w\<lparr>impl_list := Some i\<rparr>)"

definition destroy_implementation :: "nat \<Rightarrow> strand_world \<Rightarrow> strand_world" where
  "destroy_implementation i w =
     (let w = (if impl_list w = Some i then w\<lparr>impl_list := next_impl (impls w i)\<rparr> else w);
          w = (case prev_impl (impls w i) of
                 Some p \<Rightarrow> upd_impl p (\<lambda>s. s\<lparr>next_impl := next_impl (impls w i)\<rparr>) w | None \<Rightarrow> w);
          w = (case next_impl (impls w i) of
                 Some n \<Rightarrow> upd_impl n (\<lambda>s. s\<lparr>prev_impl := prev_impl (impls w i)\<rparr>) w | None \<Rightarrow> w)
      in w\<lparr>alive := alive w - {i}\<rparr>)"

text \<open>\<^verbatim>\<open>shutdown\<close> collects the operations in \<open>ops\<close>, which destroys them at its end.\<close>

definition shutdown_strand :: "nat \<Rightarrow> nat list \<Rightarrow> strand_world \<Rightarrow> nat list \<times> strand_world" where
  "shutdown_strand i ops w =
     (ops @ waiting_queue (impls w i) @ ready_queue (impls w i),
      (upd_impl i (\<lambda>s. s\<lparr>shut := True, waiting_queue := [], ready_queue := []\<rparr>) w)\<lparr>cleared := insert i (cleared w)\<rparr>)"

partial_function (option) shutdown_loop ::
    "nat option \<Rightarrow> nat list \<Rightarrow> strand_world \<Rightarrow> (nat list \<times> strand_world) option" where
  "shutdown_loop impl ops w =
     (case impl of
        Some i \<Rightarrow> (case shutdown_strand i ops w of (ops, w) \<Rightarrow> shutdown_loop (next_impl (impls w i)) ops w)
      | None \<Rightarrow> Some (ops, w))"

definition shutdown_service :: "strand_world \<Rightarrow> (nat list \<times> strand_world) option" where
  "shutdown_service w = shutdown_loop (impl_list w) [] w"

section \<open>Strands of an \<^verbatim>\<open>io_context\<close>\<close>

text \<open>\<open>addr\<close> is the address of the user's handle, \<open>fresh\<close> that of the strand if one has to be made.\<close>

definition construct_strand :: "u64 \<Rightarrow> nat \<Rightarrow> strand_world \<Rightarrow> nat \<times> strand_world" where
  "construct_strand addr fresh w =
     (let index = mutex_index_of addr (pool_salt w);
          w = w\<lparr>pool_salt := pool_salt w + 1\<rparr>
      in case pool w index of
           Some i \<Rightarrow> (i, w)
         | None \<Rightarrow> (fresh, upd_impl fresh (\<lambda>_. new_strand 0)
             (w\<lparr>pool := (pool w)(index \<mapsto> fresh), accepted := (accepted w)(fresh := []),
                started := (started w)(fresh := []), cleared := cleared w - {fresh}\<rparr>)))"

text \<open>\<open>can_dispatch\<close>: the thread is inside the \<^verbatim>\<open>io_context\<close>.\<close>

definition do_dispatch :: "bool \<Rightarrow> nat \<Rightarrow> nat \<Rightarrow> nat \<Rightarrow> strand_world \<Rightarrow> strand_world" where
  "do_dispatch can_dispatch t i op w =
     (if can_dispatch \<and> \<not> locked (impls w i) then
        let w = upd_impl i (\<lambda>s. s\<lparr>locked := True\<rparr>) w
        in set_stack t (Handler i op # Direct i # stacks w t) (start_strand_op i op (accept_op i op w))
      else if locked (impls w i) then
        accept_op i op (upd_impl i (\<lambda>s. s\<lparr>waiting_queue := waiting_queue s @ [op]\<rparr>) w)
      else push_frame t (PushReady i op False) (accept_op i op (upd_impl i (\<lambda>s. s\<lparr>locked := True\<rparr>) w)))"

definition context_dispatch :: "bool \<Rightarrow> nat \<Rightarrow> nat \<Rightarrow> nat \<Rightarrow> strand_world \<Rightarrow> strand_world" where
  "context_dispatch can_dispatch t i op w =
     (if running_in_this_thread t i w then push_frame t (Inline i op) w
      else do_dispatch can_dispatch t i op w)"

definition do_post :: "nat \<Rightarrow> nat \<Rightarrow> nat \<Rightarrow> strand_world \<Rightarrow> strand_world" where
  "do_post t i op w =
     (if locked (impls w i) then
        accept_op i op (upd_impl i (\<lambda>s. s\<lparr>waiting_queue := waiting_queue s @ [op]\<rparr>) w)
      else push_frame t (PushReady i op False) (accept_op i op (upd_impl i (\<lambda>s. s\<lparr>locked := True\<rparr>) w)))"

definition clear_strand :: "nat \<Rightarrow> strand_world \<Rightarrow> strand_world" where
  "clear_strand i w =
     (upd_impl i (\<lambda>s. s\<lparr>waiting_queue := [], ready_queue := []\<rparr>) w)\<lparr>cleared := insert i (cleared w)\<rparr>"

definition shutdown_context :: "strand_world \<Rightarrow> nat list \<times> strand_world" where
  "shutdown_context w =
     fold (\<lambda>k (ops, w). case pool w k of
         Some i \<Rightarrow> (ops @ waiting_queue (impls w i) @ ready_queue (impls w i), clear_strand i w)
       | None \<Rightarrow> (ops, w))
       [0..<193] ([], w)"

section \<open>The interleavings\<close>

fun mentions :: "nat \<Rightarrow> frame \<Rightarrow> bool" where
  "mentions i (PushReady j op b) \<longleftrightarrow> i = j"
| "mentions i (Schedule j b) \<longleftrightarrow> i = j"
| "mentions i (Running j) \<longleftrightarrow> i = j"
| "mentions i (Direct j) \<longleftrightarrow> i = j"
| "mentions i (Handler j op) \<longleftrightarrow> i = j"
| "mentions i (Inline j op) \<longleftrightarrow> i = j"
| "mentions i (Exit j b) \<longleftrightarrow> i = j"
| "mentions i (Resched j) \<longleftrightarrow> i = j"

definition in_pool :: "nat \<Rightarrow> strand_world \<Rightarrow> bool" where
  "in_pool i w \<longleftrightarrow> (\<exists>k < 193. pool w k = Some i)"

text \<open>
  What user code asks of the services: each operation is given once, to a strand that exists. A strand on
  an executor goes when no call and no invoker refers to it any more.
\<close>

inductive strand_call :: "nat \<Rightarrow> strand_world \<Rightarrow> strand_world \<Rightarrow> bool" for n where
  call_execute: "\<lbrakk>t < n; user_code (stacks w t); i \<in> alive w; op \<notin> set (accepted w i)\<rbrakk> \<Longrightarrow>
     strand_call n w (do_execute never t i op w)"
| call_dispatch: "\<lbrakk>t < n; user_code (stacks w t); i \<in> alive w; op \<notin> set (accepted w i)\<rbrakk> \<Longrightarrow>
     strand_call n w (strand_dispatch t i op w)"
| call_post: "\<lbrakk>t < n; user_code (stacks w t); i \<in> alive w; op \<notin> set (accepted w i)\<rbrakk> \<Longrightarrow>
     strand_call n w (strand_post t i op w)"
| call_defer: "\<lbrakk>t < n; user_code (stacks w t); i \<in> alive w; op \<notin> set (accepted w i)\<rbrakk> \<Longrightarrow>
     strand_call n w (strand_defer t i op w)"
| call_context_dispatch: "\<lbrakk>t < n; user_code (stacks w t); in_pool i w; op \<notin> set (accepted w i)\<rbrakk> \<Longrightarrow>
     strand_call n w (context_dispatch can t i op w)"
| call_context_post: "\<lbrakk>t < n; user_code (stacks w t); in_pool i w; op \<notin> set (accepted w i)\<rbrakk> \<Longrightarrow>
     strand_call n w (do_post t i op w)"
| call_create: "\<lbrakk>i \<notin> alive w; \<not> in_pool i w\<rbrakk> \<Longrightarrow> strand_call n w (create_implementation i w)"
| call_construct: "\<lbrakk>fresh \<notin> alive w; \<not> in_pool fresh w\<rbrakk> \<Longrightarrow> strand_call n w (snd (construct_strand addr fresh w))"
| call_destroy: "\<lbrakk>i \<in> alive w; scheduled w i = 0; \<forall>t. \<forall>f \<in> set (stacks w t). \<not> mentions i f\<rbrakk> \<Longrightarrow>
     strand_call n w (destroy_implementation i w)"
| call_shutdown: "i \<in> alive w \<Longrightarrow> strand_call n w (snd (shutdown_strand i ops w))"
| call_clear: "in_pool i w \<Longrightarrow> strand_call n w (clear_strand i w)"

text \<open>What the services, the executor and the functions in progress do by themselves.\<close>

inductive strand_run :: "nat \<Rightarrow> strand_world \<Rightarrow> strand_world \<Rightarrow> bool" for n where
  run_push: "\<lbrakk>t < n; stacks w t = PushReady i op b # fs\<rbrakk> \<Longrightarrow>
     strand_run n w (set_stack t (Schedule i b # fs) (push_ready i op w))"
| run_schedule: "\<lbrakk>t < n; stacks w t = Schedule i b # fs\<rbrakk> \<Longrightarrow>
     strand_run n w (set_stack t fs (w\<lparr>scheduled := (scheduled w)(i := scheduled w i + 1)\<rparr>))"
| run_here: "\<lbrakk>t < n; stacks w t = Schedule i True # fs\<rbrakk> \<Longrightarrow>
     strand_run n w (set_stack t (Running i # fs) w)"
| run_invoker: "\<lbrakk>t < n; user_code (stacks w t); scheduled w i > 0\<rbrakk> \<Longrightarrow>
     strand_run n w (push_frame t (Running i) (w\<lparr>scheduled := (scheduled w)(i := scheduled w i - 1)\<rparr>))"
| run_turn: "\<lbrakk>t < n; stacks w t = Running i # fs\<rbrakk> \<Longrightarrow> strand_run n w (run_ready_turn t i fs w)"
| run_direct_ends: "\<lbrakk>t < n; stacks w t = Direct i # fs\<rbrakk> \<Longrightarrow> strand_run n w (set_stack t (Exit i False # fs) w)"
| run_handler_returns: "\<lbrakk>t < n; stacks w t = Handler i op # fs\<rbrakk> \<Longrightarrow> strand_run n w (set_stack t fs w)"
| run_handler_throws: "\<lbrakk>t < n; stacks w t = Handler i op # f # fs\<rbrakk> \<Longrightarrow>
     strand_run n w (set_stack t (Exit i True # fs) w)"
| run_inline_returns: "\<lbrakk>t < n; stacks w t = Inline i op # fs\<rbrakk> \<Longrightarrow> strand_run n w (set_stack t fs w)"
| run_exit: "\<lbrakk>t < n; stacks w t = Exit i b # fs\<rbrakk> \<Longrightarrow> strand_run n w (on_invoker_exit t i fs w)"
| run_resched: "\<lbrakk>t < n; stacks w t = Resched i # fs\<rbrakk> \<Longrightarrow>
     strand_run n w (set_stack t fs (w\<lparr>scheduled := (scheduled w)(i := scheduled w i + 1)\<rparr>))"

inductive strand_reach :: "nat \<Rightarrow> strand_world \<Rightarrow> bool" for n where
  strand_new: "strand_reach n new_strand_world"
| strand_called: "\<lbrakk>strand_reach n w; strand_call n w w'\<rbrakk> \<Longrightarrow> strand_reach n w'"
| strand_ran: "\<lbrakk>strand_reach n w; strand_run n w w'\<rbrakk> \<Longrightarrow> strand_reach n w'"

end
