(* ===== verification/StrandInvariant.thy ===== *)
theory StrandInvariant
  imports Strand
begin

text \<open>
  What the interleavings of the threads keep of the strands: a locked strand has one holder, an invoker
  that is scheduled or a call on the stack of one thread; the operations taken are, in their order, those
  started, those ready, the one on its way to the ready queue and those waiting.
\<close>

section \<open>Holders\<close>

fun holds :: "nat \<Rightarrow> frame \<Rightarrow> bool" where
  "holds i (PushReady j op b) \<longleftrightarrow> i = j"
| "holds i (Schedule j b) \<longleftrightarrow> i = j"
| "holds i (Running j) \<longleftrightarrow> i = j"
| "holds i (Direct j) \<longleftrightarrow> i = j"
| "holds i (Exit j b) \<longleftrightarrow> i = j"
| "holds i (Resched j) \<longleftrightarrow> i = j"
| "holds i _ \<longleftrightarrow> False"

definition held :: "nat \<Rightarrow> frame list \<Rightarrow> nat" where
  "held i fs = length (filter (holds i) fs)"

lemma held_simps [simp]: "held i [] = 0" "held i (f # fs) = (if holds i f then 1 else 0) + held i fs"
  by (simp_all add: held_def)

definition on_stacks :: "nat \<Rightarrow> strand_world \<Rightarrow> nat \<Rightarrow> nat" where
  "on_stacks n w i = (\<Sum>t<n. held i (stacks w t))"

fun on_its_way :: "nat \<Rightarrow> frame list \<Rightarrow> nat list" where
  "on_its_way i (PushReady j op b # fs) = (if i = j then [op] else [])"
| "on_its_way i _ = []"

definition flight :: "nat \<Rightarrow> strand_world \<Rightarrow> nat \<Rightarrow> nat list" where
  "flight n w i = concat (map (\<lambda>t. on_its_way i (stacks w t)) [0..<n])"

text \<open>The stack of a thread: the calls of the services are innermost, and a handler's is on top of the loop.\<close>

fun stack_ok :: "frame list \<Rightarrow> bool" where
  "stack_ok [] \<longleftrightarrow> True"
| "stack_ok (Handler i op # fs) \<longleftrightarrow> fs \<noteq> [] \<and> (hd fs = Running i \<or> hd fs = Direct i) \<and> stack_ok fs"
| "stack_ok (Inline i op # fs) \<longleftrightarrow> user_code fs \<and> contains i fs \<and> stack_ok fs"
| "stack_ok (f # fs) \<longleftrightarrow> user_code fs \<and> stack_ok fs"

lemma sum_upd:
  fixes f :: "'a \<Rightarrow> nat"
  assumes "t < (n::nat)"
  shows "(\<Sum>u<n. f ((g(t := x)) u)) + f (g t) = (\<Sum>u<n. f (g u)) + f x"
proof -
  have split: "(\<Sum>u<n. h u) = h t + (\<Sum>u\<in>{..<n} - {t}. h u)" for h :: "nat \<Rightarrow> nat"
    using assms by (simp add: sum.remove)
  have "(\<Sum>u\<in>{..<n} - {t}. f ((g(t := x)) u)) = (\<Sum>u\<in>{..<n} - {t}. f (g u))"
    by (intro sum.cong) auto
  then show ?thesis
    using split [of "\<lambda>u. f ((g(t := x)) u)"] split [of "\<lambda>u. f (g u)"] by simp
qed

lemma on_stacks_set_stack:
  assumes "t < n"
  shows "on_stacks n (set_stack t fs w) i + held i (stacks w t) = on_stacks n w i + held i fs"
  using sum_upd [OF assms, of "held i" "stacks w" fs] by (simp add: on_stacks_def set_stack_def)

lemma held_le: "t < n \<Longrightarrow> held i (stacks w t) \<le> on_stacks n w i"
  using member_le_sum [of t "{..<n}" "\<lambda>t. held i (stacks w t)"] by (simp add: on_stacks_def)

lemma held_unique:
  assumes "on_stacks n w i \<le> 1" and "t < n" "u < n" and "0 < held i (stacks w t)" "0 < held i (stacks w u)"
  shows "t = u"
proof (rule ccontr)
  assume "t \<noteq> u"
  then have "held i (stacks w t) + held i (stacks w u) = (\<Sum>v\<in>{t, u}. held i (stacks w v))" by simp
  also have "\<dots> \<le> (\<Sum>v<n. held i (stacks w v))"
    using assms by (intro sum_mono2) auto
  finally show False using assms by (simp add: on_stacks_def)
qed

lemma on_its_way_held: "on_its_way i fs \<noteq> [] \<Longrightarrow> 0 < held i fs"
  by (induction i fs rule: on_its_way.induct) (auto split: if_splits)

lemma concat_single:
  "t < n \<Longrightarrow> \<forall>u < n. u \<noteq> t \<longrightarrow> f u = [] \<Longrightarrow> concat (map f [0..<n]) = f t"
proof (induction n)
  case (Suc n)
  have "concat (map f [0..<m]) = []" if "\<forall>u < m. f u = []" for m
    using that by (induction m) auto
  with Suc show ?case by (cases "t = n") auto
qed simp

text \<open>The thread that holds the strand, if one does, has the operation on its way.\<close>

lemma flight_holder:
  assumes "on_stacks n w i \<le> 1" and "t < n" and "0 < held i (stacks w t)"
  shows "flight n w i = on_its_way i (stacks w t)"
  unfolding flight_def
  using assms held_unique [OF assms(1,2)] on_its_way_held by (intro concat_single) blast+

lemma flight_none:
  assumes "on_stacks n w i = 0"
  shows "flight n w i = []"
proof -
  have "held i (stacks w t) = 0" if "t < n" for t
    using held_le [OF that, of i w] assms by simp
  then show ?thesis
    using on_its_way_held by (fastforce simp: flight_def)
qed

lemma flight_set_stack:
  assumes t: "t < n" and "on_stacks n w i \<le> 1" and "on_stacks n (set_stack t fs w) i \<le> 1"
  shows "flight n (set_stack t fs w) i = (if 0 < held i fs then on_its_way i fs
    else if 0 < held i (stacks w t) then [] else flight n w i)"
proof (cases "0 < held i fs")
  case True
  then show ?thesis
    using flight_holder [OF assms(3) t] by (simp add: set_stack_def)
next
  case False
  show ?thesis
  proof (cases "0 < held i (stacks w t)")
    case True
    then have "on_stacks n (set_stack t fs w) i = 0"
      using on_stacks_set_stack [OF t, of fs w i] assms(2) False by simp
    then show ?thesis using flight_none True False by simp
  next
    case none: False
    then have "on_its_way i fs = []" "on_its_way i (stacks w t) = []"
      using False on_its_way_held [of i fs] on_its_way_held [of i "stacks w t"] by auto
    then have "on_its_way i (stacks (set_stack t fs w) u) = on_its_way i (stacks w u)" for u
      by (simp add: set_stack_def)
    then show ?thesis using False none by (simp add: flight_def)
  qed
qed

section \<open>The invariant\<close>

definition in_order :: "nat \<Rightarrow> strand_world \<Rightarrow> nat \<Rightarrow> bool" where
  "in_order n w i \<longleftrightarrow>
     (let q = started w i @ ready_queue (impls w i) @ flight n w i @ waiting_queue (impls w i)
      in subseq q (accepted w i) \<and> (i \<notin> cleared w \<longrightarrow> accepted w i = q))"

definition strand_ok :: "nat \<Rightarrow> strand_world \<Rightarrow> nat \<Rightarrow> bool" where
  "strand_ok n w i \<longleftrightarrow> scheduled w i + on_stacks n w i = (if locked (impls w i) then 1 else 0)
     \<and> (\<not> locked (impls w i) \<longrightarrow> ready_queue (impls w i) = [] \<and> waiting_queue (impls w i) = [])
     \<and> (flight n w i \<noteq> [] \<longrightarrow> ready_queue (impls w i) = [])
     \<and> in_order n w i \<and> distinct (accepted w i) \<and> (shut (impls w i) \<longrightarrow> i \<in> cleared w)"

definition stacks_ok :: "nat \<Rightarrow> strand_world \<Rightarrow> bool" where
  "stacks_ok n w \<longleftrightarrow> (\<forall>t. stack_ok (stacks w t)) \<and> (\<forall>t \<ge> n. stacks w t = [])"

section \<open>The parts of the world\<close>

lemma upd_impl_sel [simp]:
  "impls (upd_impl i f w) j = (if j = i then f (impls w i) else impls w j)"
  "stacks (upd_impl i f w) = stacks w" "scheduled (upd_impl i f w) = scheduled w"
  "accepted (upd_impl i f w) = accepted w" "started (upd_impl i f w) = started w"
  "cleared (upd_impl i f w) = cleared w" "alive (upd_impl i f w) = alive w" "pool (upd_impl i f w) = pool w"
  "impl_list (upd_impl i f w) = impl_list w" "mutexes (upd_impl i f w) = mutexes w" "salt (upd_impl i f w) = salt w"
  by (simp_all add: upd_impl_def)

lemma set_stack_sel [simp]:
  "stacks (set_stack t fs w) = (stacks w)(t := fs)"
  "impls (set_stack t fs w) = impls w" "scheduled (set_stack t fs w) = scheduled w"
  "accepted (set_stack t fs w) = accepted w" "started (set_stack t fs w) = started w"
  "cleared (set_stack t fs w) = cleared w" "alive (set_stack t fs w) = alive w" "pool (set_stack t fs w) = pool w"
  "impl_list (set_stack t fs w) = impl_list w" "mutexes (set_stack t fs w) = mutexes w"
  by (simp_all add: set_stack_def)

lemma logs_sel [simp]:
  "accepted (accept_op i op w) j = (if j = i then accepted w i @ [op] else accepted w j)"
  "started (accept_op i op w) = started w" "stacks (accept_op i op w) = stacks w" "impls (accept_op i op w) = impls w"
  "scheduled (accept_op i op w) = scheduled w" "cleared (accept_op i op w) = cleared w"
  "alive (accept_op i op w) = alive w" "pool (accept_op i op w) = pool w"
  "impl_list (accept_op i op w) = impl_list w" "mutexes (accept_op i op w) = mutexes w"
  "started (start_strand_op i op w) j = (if j = i then started w i @ [op] else started w j)"
  "accepted (start_strand_op i op w) = accepted w" "stacks (start_strand_op i op w) = stacks w" "impls (start_strand_op i op w) = impls w"
  "scheduled (start_strand_op i op w) = scheduled w" "cleared (start_strand_op i op w) = cleared w"
  "alive (start_strand_op i op w) = alive w" "pool (start_strand_op i op w) = pool w"
  "impl_list (start_strand_op i op w) = impl_list w" "mutexes (start_strand_op i op w) = mutexes w"
  by (simp_all add: accept_op_def start_strand_op_def)

lemma on_stacks_cong: "stacks w' = stacks w \<Longrightarrow> on_stacks n w' = on_stacks n w"
  and flight_cong: "stacks w' = stacks w \<Longrightarrow> flight n w' = flight n w"
  by (simp_all add: on_stacks_def flight_def fun_eq_iff)

lemma strand_ok_other:
  assumes "impls w' j = impls w j" "scheduled w' j = scheduled w j" "accepted w' j = accepted w j"
    "started w' j = started w j" "j \<in> cleared w' \<longleftrightarrow> j \<in> cleared w"
    and "\<And>t. t < n \<Longrightarrow> held j (stacks w' t) = held j (stacks w t) \<and> on_its_way j (stacks w' t) = on_its_way j (stacks w t)"
  shows "strand_ok n w' j = strand_ok n w j"
proof -
  have "on_stacks n w' j = on_stacks n w j" "flight n w' j = flight n w j"
    using assms(6) by (auto simp: on_stacks_def flight_def intro!: arg_cong [where f = concat] sum.cong map_cong)
  then show ?thesis using assms(1-5) by (simp add: strand_ok_def in_order_def Let_def)
qed

text \<open>One thread's step: what it does to the strand that it is about, and to the others.\<close>

lemma strand_ok_step:
  assumes ok: "strand_ok n w i" and t: "t < n" and st: "stacks w1 = stacks w"
    and bal: "scheduled w1 i + held i fs + (if locked (impls w i) then 1 else 0)
      = scheduled w i + held i (stacks w t) + (if locked (impls w1 i) then 1 else 0)"
    and fl: "fl = (if 0 < held i fs then on_its_way i fs
      else if 0 < held i (stacks w t) then [] else flight n w i)"
    and idle: "\<not> locked (impls w1 i) \<longrightarrow> ready_queue (impls w1 i) = [] \<and> waiting_queue (impls w1 i) = []"
    and way: "fl \<noteq> [] \<longrightarrow> ready_queue (impls w1 i) = []"
    and ord: "let q = started w1 i @ ready_queue (impls w1 i) @ fl @ waiting_queue (impls w1 i)
      in subseq q (accepted w1 i) \<and> (i \<notin> cleared w1 \<longrightarrow> accepted w1 i = q)"
    and dist: "distinct (accepted w1 i)" and sh: "shut (impls w1 i) \<longrightarrow> i \<in> cleared w1"
  shows "strand_ok n (set_stack t fs w1) i"
proof -
  have old: "scheduled w i + on_stacks n w i = (if locked (impls w i) then 1 else 0)"
    using ok by (simp add: strand_ok_def)
  have eq: "on_stacks n (set_stack t fs w1) i = on_stacks n (set_stack t fs w) i"
    "flight n (set_stack t fs w1) i = flight n (set_stack t fs w) i"
    using st on_stacks_cong [of "set_stack t fs w1" "set_stack t fs w"] flight_cong [of "set_stack t fs w1" "set_stack t fs w"]
    by simp_all
  have new: "scheduled w1 i + on_stacks n (set_stack t fs w) i = (if locked (impls w1 i) then 1 else 0)"
    using old bal on_stacks_set_stack [OF t, of fs w i] by (simp split: if_splits)
  have "on_stacks n w i \<le> 1" "on_stacks n (set_stack t fs w) i \<le> 1"
    using old new by (auto split: if_splits)
  from flight_set_stack [OF t this] have "flight n (set_stack t fs w1) i = fl"
    using fl eq by simp
  then show ?thesis
    using new eq idle way ord dist sh by (simp add: strand_ok_def in_order_def)
qed

lemma strand_ok_same_stack:
  assumes ok: "strand_ok n w i" and st: "stacks w1 = stacks w" "scheduled w1 = scheduled w"
    and lock: "locked (impls w1 i) = locked (impls w i)"
    and idle: "\<not> locked (impls w1 i) \<longrightarrow> ready_queue (impls w1 i) = [] \<and> waiting_queue (impls w1 i) = []"
    and way: "flight n w i \<noteq> [] \<longrightarrow> ready_queue (impls w1 i) = []"
    and ord: "let q = started w1 i @ ready_queue (impls w1 i) @ flight n w i @ waiting_queue (impls w1 i)
      in subseq q (accepted w1 i) \<and> (i \<notin> cleared w1 \<longrightarrow> accepted w1 i = q)"
    and dist: "distinct (accepted w1 i)" and sh: "shut (impls w1 i) \<longrightarrow> i \<in> cleared w1"
  shows "strand_ok n w1 i"
  using assms on_stacks_cong [OF st(1)] flight_cong [OF st(1)] by (simp add: strand_ok_def in_order_def)

lemma user_code_way: "user_code fs \<Longrightarrow> on_its_way i fs = []"
  by (induction fs rule: user_code.induct) auto

text \<open>A strand that is free has nothing on its way; one with a call on a stack is locked.\<close>

lemma free_strand:
  assumes "strand_ok n w i" "\<not> locked (impls w i)"
  shows "flight n w i = []" "ready_queue (impls w i) = []" "waiting_queue (impls w i) = []"
    "t < n \<Longrightarrow> held i (stacks w t) = 0"
  using assms flight_none [of n w i] held_le [of t n i w] by (auto simp: strand_ok_def)

lemma locked_strand:
  assumes "strand_ok n w i" "t < n" "0 < held i (stacks w t)"
  shows "locked (impls w i)" "flight n w i = on_its_way i (stacks w t)"
proof -
  have "on_stacks n w i \<le> 1" using assms(1) by (auto simp: strand_ok_def split: if_splits)
  from flight_holder [OF this assms(2,3)] show "flight n w i = on_its_way i (stacks w t)" .
  show "locked (impls w i)"
    using assms held_le [OF assms(2), of i w] by (auto simp: strand_ok_def split: if_splits)
qed

section \<open>The calls\<close>

lemma subseq_snoc: "subseq xs ys \<Longrightarrow> subseq (xs @ [x]) (ys @ [x])"
  by (simp add: list_emb_append_mono)

lemma wait_ok:
  assumes ok: "strand_ok n w j" and "locked (impls w i)" "op \<notin> set (accepted w i)"
  shows "strand_ok n (accept_op i op (upd_impl i (\<lambda>s. s\<lparr>waiting_queue := waiting_queue s @ [op]\<rparr>) w)) j"
proof (cases "j = i")
  case True
  show ?thesis
    using assms True subseq_snoc [of "started w i @ ready_queue (impls w i) @ flight n w i @ waiting_queue (impls w i)" "accepted w i" op]
    by (intro strand_ok_same_stack [OF ok]) (auto simp: strand_ok_def in_order_def Let_def)
next
  case False
  then show ?thesis using ok by (subst strand_ok_other [where w = w]) auto
qed

lemma acquire_ok:
  assumes ok: "strand_ok n w j" "strand_ok n w i" and "\<not> locked (impls w i)" "op \<notin> set (accepted w i)"
    and t: "t < n" "user_code (stacks w t)"
  shows "strand_ok n (push_frame t (PushReady i op b) (accept_op i op (upd_impl i (\<lambda>s. s\<lparr>locked := True\<rparr>) w))) j"
proof (cases "j = i")
  case True
  note f = free_strand [OF ok(2) assms(3)] 
  show ?thesis
    using ok assms(3-) f True subseq_snoc [of "started w i" "accepted w i" op]
    by (intro strand_ok_step [OF ok(1)]) (auto simp: strand_ok_def in_order_def Let_def)
next
  case False
  then show ?thesis using ok user_code_way [OF t(2)] by (subst strand_ok_other [where w = w]) auto
qed

lemma direct_ok:
  assumes ok: "strand_ok n w j" "strand_ok n w i" and "\<not> locked (impls w i)" "op \<notin> set (accepted w i)"
    and t: "t < n" "user_code (stacks w t)"
  shows "strand_ok n (set_stack t (Handler i op # Direct i # stacks w t)
     (start_strand_op i op (accept_op i op (upd_impl i (\<lambda>s. s\<lparr>locked := True\<rparr>) w)))) j"
proof (cases "j = i")
  case True
  note f = free_strand [OF ok(2) assms(3)]
  show ?thesis
    using ok assms(3-) f True subseq_snoc [of "started w i" "accepted w i" op]
    by (intro strand_ok_step [OF ok(1)]) (auto simp: strand_ok_def in_order_def Let_def)
next
  case False
  then show ?thesis using ok user_code_way [OF t(2)] by (subst strand_ok_other [where w = w]) auto
qed

lemma inline_ok:
  assumes "strand_ok n w j" and "user_code (stacks w t)"
  shows "strand_ok n (push_frame t (Inline i op) w) j"
  using assms user_code_way [OF assms(2)] by (subst strand_ok_other [where w = w]) auto

lemma submit_ok:
  assumes ok: "\<And>j. strand_ok n w j" and "op \<notin> set (accepted w i)" and t: "t < n" "user_code (stacks w t)"
  shows "strand_ok n (submit t i op b w) j"
  using wait_ok [OF ok, of i op j] acquire_ok [OF ok ok, of i op t b j] assms
  by (simp add: submit_def enqueue_op_def)

lemma do_post_ok:
  assumes ok: "\<And>j. strand_ok n w j" and "op \<notin> set (accepted w i)" and t: "t < n" "user_code (stacks w t)"
  shows "strand_ok n (do_post t i op w) j"
  using wait_ok [OF ok, of i op j] acquire_ok [OF ok ok, of i op t False j] assms
  by (simp add: do_post_def)

lemma do_dispatch_ok:
  assumes ok: "\<And>j. strand_ok n w j" and "op \<notin> set (accepted w i)" and t: "t < n" "user_code (stacks w t)"
  shows "strand_ok n (do_dispatch can t i op w) j"
  using wait_ok [OF ok, of i op j] acquire_ok [OF ok ok, of i op t False j] direct_ok [OF ok ok, of i op t j] assms
  by (simp add: do_dispatch_def)

text \<open>The queues are emptied at shutdown; the operations that remain are still in order.\<close>

lemma subseq_front: "subseq (a @ b @ c) ys \<Longrightarrow> subseq (a @ b) ys" "subseq (a @ r @ b @ c) ys \<Longrightarrow> subseq (a @ b) ys"
proof -
  have "subseq (a @ b) (a @ b @ c)" "subseq (a @ b) (a @ r @ b @ c)"
    by (simp_all add: subseq_append' subseq_rev_drop_many subseq_drop_many)
  then show "subseq (a @ b @ c) ys \<Longrightarrow> subseq (a @ b) ys" "subseq (a @ r @ b @ c) ys \<Longrightarrow> subseq (a @ b) ys"
    by (blast intro: subseq_order.trans)+
qed

lemma clear_ok:
  assumes ok: "strand_ok n w j" and w': "stacks w' = stacks w" "scheduled w' = scheduled w" "accepted w' = accepted w"
    "started w' = started w" "cleared w' = insert i (cleared w)" "\<And>j. j \<noteq> i \<Longrightarrow> impls w' j = impls w j"
    "ready_queue (impls w' i) = []" "waiting_queue (impls w' i) = []" "locked (impls w' i) = locked (impls w i)"
  shows "strand_ok n w' j"
proof (cases "j = i")
  case True
  show ?thesis
    using ok w' True subseq_front(2) [of "started w i" "ready_queue (impls w i)" "flight n w i" "waiting_queue (impls w i)" "accepted w i"]
    by (intro strand_ok_same_stack [OF ok]) (auto simp: strand_ok_def in_order_def Let_def)
next
  case False
  then show ?thesis using ok w' by (subst strand_ok_other [where w = w]) auto
qed

text \<open>A strand is made where none is.\<close>

lemma fresh_ok:
  assumes ok: "strand_ok n w j" and none: "scheduled w i = 0" "\<And>t. t < n \<Longrightarrow> held i (stacks w t) = 0"
    and w': "stacks w' = stacks w" "scheduled w' = scheduled w" "\<And>j. j \<noteq> i \<Longrightarrow> accepted w' j = accepted w j \<and> started w' j = started w j"
    "cleared w' = cleared w - {i}"
    "\<And>j. j \<noteq> i \<Longrightarrow> locked (impls w' j) = locked (impls w j) \<and> shut (impls w' j) = shut (impls w j)
      \<and> ready_queue (impls w' j) = ready_queue (impls w j) \<and> waiting_queue (impls w' j) = waiting_queue (impls w j)"
    "accepted w' i = []" "started w' i = []" "\<not> locked (impls w' i)" "\<not> shut (impls w' i)" "ready_queue (impls w' i) = []" "waiting_queue (impls w' i) = []"
  shows "strand_ok n w' j"
proof (cases "j = i")
  case True
  have "on_stacks n w i = 0" using none by (simp add: on_stacks_def)
  then show ?thesis
    using w' True none flight_none [of n w i] on_stacks_cong [OF w'(1), of n] flight_cong [OF w'(1), of n]
    by (simp add: strand_ok_def in_order_def)
next
  case False
  then show ?thesis
    using ok w' on_stacks_cong [OF w'(1), of n] flight_cong [OF w'(1), of n]
    by (simp add: strand_ok_def in_order_def)
qed

section \<open>The steps in progress\<close>

lemma push_ok:
  assumes ok: "strand_ok n w j" "strand_ok n w i" and t: "t < n" "stacks w t = PushReady i op b # fs" "user_code fs"
  shows "strand_ok n (set_stack t (Schedule i b # fs) (push_ready i op w)) j"
proof (cases "j = i")
  case True
  have "0 < held i (stacks w t)" using t by simp
  note l = locked_strand [OF ok(2) t(1) this]
  show ?thesis
    using ok t l True by (intro strand_ok_step [OF ok(1)]) (auto simp: push_ready_def strand_ok_def in_order_def Let_def)
next
  case False
  then show ?thesis using ok t user_code_way [OF t(3)] by (subst strand_ok_other [where w = w]) (auto simp: push_ready_def)
qed

lemma schedule_ok:
  assumes ok: "strand_ok n w j" "strand_ok n w i" and t: "t < n" "stacks w t = f # fs" "user_code fs"
    and f: "holds i f" "\<And>j. on_its_way j (f # fs) = []" "\<And>j. j \<noteq> i \<Longrightarrow> \<not> holds j f"
  shows "strand_ok n (set_stack t fs (w\<lparr>scheduled := (scheduled w)(i := scheduled w i + 1)\<rparr>)) j"
proof (cases "j = i")
  case True
  have "0 < held i (stacks w t)" using t f by simp
  note l = locked_strand [OF ok(2) t(1) this]
  have "on_its_way i fs = []" by (rule user_code_way [OF t(3)])
  then show ?thesis
    using ok t l True f by (intro strand_ok_step [OF ok(1)]) (auto simp: strand_ok_def in_order_def Let_def)
next
  case False
  then show ?thesis using ok t f user_code_way [OF t(3)] by (subst strand_ok_other [where w = w]) auto
qed

text \<open>A frame that holds the strand gives way to another one.\<close>

lemma replace_ok:
  assumes ok: "strand_ok n w j" and t: "t < n" and way: "\<And>j. on_its_way j (stacks w t) = []" "\<And>j. on_its_way j fs = []"
    and held: "\<And>j. held j fs = held j (stacks w t)"
  shows "strand_ok n (set_stack t fs w) j"
  using ok t way held by (subst strand_ok_other [where w = w]) auto

lemma invoker_ok:
  assumes ok: "strand_ok n w j" "strand_ok n w i" and t: "t < n" "user_code (stacks w t)" "scheduled w i > 0"
  shows "strand_ok n (push_frame t (Running i) (w\<lparr>scheduled := (scheduled w)(i := scheduled w i - 1)\<rparr>)) j"
proof (cases "j = i")
  case True
  have "on_stacks n w i = 0" and l: "locked (impls w i)" using ok(2) t(3) by (auto simp: strand_ok_def split: if_splits)
  then have "flight n w i = []" "held i (stacks w t) = 0"
    using flight_none [of n w i] held_le [OF t(1), of i w] by simp_all
  then show ?thesis
    using ok t l True by (intro strand_ok_step [OF ok(1)]) (auto simp: strand_ok_def in_order_def Let_def)
next
  case False
  then show ?thesis using ok t user_code_way [OF t(2)] by (subst strand_ok_other [where w = w]) auto
qed

lemma turn_ok:
  assumes ok: "strand_ok n w j" "strand_ok n w i" and t: "t < n" "stacks w t = Running i # fs" "user_code fs"
  shows "strand_ok n (run_ready_turn t i fs w) j"
proof (cases "ready_queue (impls w i)")
  case Nil
  then show ?thesis
    using replace_ok [OF ok(1) t(1), of "Exit i False # fs"] t by (simp add: run_ready_turn_def)
next
  case (Cons op rest)
  show ?thesis
  proof (cases "j = i")
    case True
    have "0 < held i (stacks w t)" using t by simp
    note l = locked_strand [OF ok(2) t(1) this]
    have "strand_ok n (set_stack t (Handler i op # Running i # fs)
        (start_strand_op i op (upd_impl i (\<lambda>s. s\<lparr>ready_queue := rest\<rparr>) w))) i"
      using ok t l True Cons by (intro strand_ok_step [OF ok(2)]) (auto simp: strand_ok_def in_order_def Let_def)
    then show ?thesis using True Cons by (simp add: run_ready_turn_def)
  next
    case False
    then show ?thesis using ok t Cons by (subst strand_ok_other [where w = w]) (auto simp: run_ready_turn_def)
  qed
qed

lemma exit_ok:
  assumes ok: "strand_ok n w j" "strand_ok n w i" and t: "t < n" "stacks w t = Exit i b # fs" "user_code fs"
  shows "strand_ok n (on_invoker_exit t i fs w) j"
proof (cases "j = i")
  case True
  have "0 < held i (stacks w t)" using t by simp
  note l = locked_strand [OF ok(2) t(1) this]
  have "held i fs = 0"
    using ok(2) held_le [OF t(1), of i w] t by (auto simp: strand_ok_def split: if_splits)
  then show ?thesis
    using ok t l True unfolding on_invoker_exit_def push_waiting_to_ready_def Let_def prod.case
    by (intro strand_ok_step [OF ok(1)]) (auto simp: strand_ok_def in_order_def Let_def)
next
  case False
  then show ?thesis
    using ok t user_code_way [OF t(3)]
    by (subst strand_ok_other [where w = w]) (auto simp: on_invoker_exit_def push_waiting_to_ready_def Let_def)
qed

section \<open>The stacks and the strands that exist\<close>

definition unreferenced :: "nat \<Rightarrow> strand_world \<Rightarrow> bool" where
  "unreferenced i w \<longleftrightarrow> scheduled w i = 0 \<and> (\<forall>t. \<forall>f \<in> set (stacks w t). \<not> mentions i f)"

definition present :: "strand_world \<Rightarrow> nat set" where
  "present w = alive w \<union> {i. in_pool i w}"

definition listed_strands :: "strand_world \<Rightarrow> nat list \<Rightarrow> bool" where
  "listed_strands w il \<longleftrightarrow> seg (\<lambda>i. next_impl (impls w i)) (\<lambda>i. prev_impl (impls w i)) None (impl_list w) il None
     \<and> distinct il \<and> set il = alive w"

definition service_ok :: "strand_world \<Rightarrow> bool" where
  "service_ok w \<longleftrightarrow> (\<exists>il. listed_strands w il) \<and> mutexes w \<subseteq> {..<193}
     \<and> (\<forall>i \<in> alive w. mutex_slot (impls w i) \<in> mutexes w) \<and> (\<forall>i \<in> alive w. \<not> in_pool i w)"

definition world_ok :: "nat \<Rightarrow> strand_world \<Rightarrow> bool" where
  "world_ok n w \<longleftrightarrow> (\<forall>i. strand_ok n w i) \<and> stacks_ok n w \<and> (\<forall>i. i \<notin> present w \<longrightarrow> unreferenced i w) \<and> service_ok w"

text \<open>What a step on one thread's stack does to the strands that exist.\<close>

definition same_service :: "strand_world \<Rightarrow> strand_world \<Rightarrow> bool" where
  "same_service w w' \<longleftrightarrow> alive w' = alive w \<and> pool w' = pool w \<and> impl_list w' = impl_list w \<and> mutexes w' = mutexes w
     \<and> (\<forall>i. next_impl (impls w' i) = next_impl (impls w i) \<and> prev_impl (impls w' i) = prev_impl (impls w i)
          \<and> mutex_slot (impls w' i) = mutex_slot (impls w i))"

lemma same_service_ok: "same_service w w' \<Longrightarrow> service_ok w \<Longrightarrow> service_ok w'"
  by (simp add: same_service_def service_ok_def listed_strands_def in_pool_def)

lemma same_service_present: "same_service w w' \<Longrightarrow> present w' = present w"
  by (simp add: same_service_def present_def in_pool_def)

lemma world_ok_step:
  assumes ok: "world_ok n w" and t: "t < n" and st: "stacks w' = (stacks w)(t := fs)"
    and fs: "stack_ok fs" "\<And>f j. f \<in> set fs \<Longrightarrow> mentions j f \<Longrightarrow> j \<in> present w"
    and sch: "\<And>j. scheduled w' j \<noteq> 0 \<Longrightarrow> scheduled w j = 0 \<Longrightarrow> j \<in> present w"
    and same: "same_service w w'" and strands: "\<And>j. strand_ok n w' j"
  shows "world_ok n w'"
proof -
  have "unreferenced j w'" if "j \<notin> present w" for j
    using ok that st fs(2) sch [of j] by (auto simp: world_ok_def unreferenced_def)
  moreover have "stacks_ok n w'"
    using ok st fs(1) t by (auto simp: world_ok_def stacks_ok_def)
  ultimately show ?thesis
    using ok strands same_service_ok [OF same] same_service_present [OF same] by (auto simp: world_ok_def)
qed

lemma same_stack:
  assumes "world_ok n w"
  shows "stack_ok (stacks w t)" "f \<in> set (stacks w t) \<Longrightarrow> mentions j f \<Longrightarrow> j \<in> present w"
    "scheduled w j \<noteq> 0 \<Longrightarrow> j \<in> present w" "stacks w' = stacks w \<Longrightarrow> stacks w' = (stacks w)(t := stacks w t)"
  using assms by (auto simp: world_ok_def stacks_ok_def unreferenced_def)

lemma world_strand: "world_ok n w \<Longrightarrow> strand_ok n w i"
  by (simp add: world_ok_def)

lemma same_service_simps [simp]:
  "same_service w w" "same_service w (set_stack t fs w') \<longleftrightarrow> same_service w w'"
  "same_service w (accept_op i op w') \<longleftrightarrow> same_service w w'"
  "same_service w (start_strand_op i op w') \<longleftrightarrow> same_service w w'"
  by (simp_all add: same_service_def)

lemma same_service_upd [simp]:
  "same_service w (w'\<lparr>scheduled := k\<rparr>) \<longleftrightarrow> same_service w w'"
  "same_service w (w'\<lparr>cleared := c\<rparr>) \<longleftrightarrow> same_service w w'"
  "same_service w (upd_impl i (\<lambda>s. s\<lparr>waiting_queue := q s\<rparr>) w') \<longleftrightarrow> same_service w w'"
  "same_service w (upd_impl i (\<lambda>s. s\<lparr>ready_queue := q s\<rparr>) w') \<longleftrightarrow> same_service w w'"
  "same_service w (upd_impl i (\<lambda>s. s\<lparr>locked := b\<rparr>) w') \<longleftrightarrow> same_service w w'"
  "same_service w (upd_impl i (\<lambda>s. s\<lparr>ready_queue := r s, waiting_queue := q s\<rparr>) w') \<longleftrightarrow> same_service w w'"
  "same_service w (upd_impl i (\<lambda>s. s\<lparr>waiting_queue := q s, ready_queue := r s\<rparr>) w') \<longleftrightarrow> same_service w w'"
  "same_service w (upd_impl i (\<lambda>s. s\<lparr>shut := b, waiting_queue := q s, ready_queue := r s\<rparr>) w') \<longleftrightarrow> same_service w w'"
  by (auto simp: same_service_def)

text \<open>A call from user code on thread \<open>t\<close>.\<close>

lemma world_ok_call:
  assumes ok: "world_ok n w" and t: "t < n" and i: "i \<in> present w"
    and st: "stacks w' t = gs @ stacks w t" "\<And>u. u \<noteq> t \<Longrightarrow> stacks w' u = stacks w u" "scheduled w' = scheduled w"
    and gs: "stack_ok (gs @ stacks w t)" "\<And>f j. f \<in> set gs \<Longrightarrow> mentions j f \<Longrightarrow> j = i"
    and same: "same_service w w'" and strands: "\<And>j. strand_ok n w' j"
  shows "world_ok n w'"
proof (rule world_ok_step [OF ok t _ gs(1) _ _ same strands])
  show "stacks w' = (stacks w)(t := gs @ stacks w t)" using st by auto
  show "j \<in> present w" if "f \<in> set (gs @ stacks w t)" "mentions j f" for f j
    using that gs(2) same_stack(2) [OF ok, of f t j] i by auto
  show "j \<in> present w" if "scheduled w' j \<noteq> 0" "scheduled w j = 0" for j using that st by simp
qed

lemma submit_world:
  assumes ok: "world_ok n w" and t: "t < n" "user_code (stacks w t)" and i: "i \<in> present w" and op: "op \<notin> set (accepted w i)"
  shows "world_ok n (submit t i op b w)" "world_ok n (do_post t i op w)" "world_ok n (do_dispatch can t i op w)"
    "running_in_this_thread t i w \<Longrightarrow> world_ok n (push_frame t (Inline i op) w)"
proof -
  note s = world_strand [OF ok] and k = same_stack(1) [OF ok, of t]
  show "world_ok n (submit t i op b w)"
  proof (rule world_ok_call [OF ok t(1) i, where gs = "if shut (impls w i) \<or> locked (impls w i) then [] else [PushReady i op b]"])
    show "strand_ok n (submit t i op b w) j" for j by (rule submit_ok [OF s op t])
  qed (use t k in \<open>auto simp: submit_def enqueue_op_def split: if_splits\<close>)
  show "world_ok n (do_post t i op w)"
  proof (rule world_ok_call [OF ok t(1) i, where gs = "if locked (impls w i) then [] else [PushReady i op False]"])
    show "strand_ok n (do_post t i op w) j" for j by (rule do_post_ok [OF s op t])
  qed (use t k in \<open>auto simp: do_post_def split: if_splits\<close>)
  show "world_ok n (do_dispatch can t i op w)"
  proof (rule world_ok_call [OF ok t(1) i, where gs = "if locked (impls w i) then []
        else if can then [Handler i op, Direct i] else [PushReady i op False]"])
    show "strand_ok n (do_dispatch can t i op w) j" for j by (rule do_dispatch_ok [OF s op t])
  qed (use t k in \<open>auto simp: do_dispatch_def split: if_splits\<close>)
  assume r: "running_in_this_thread t i w"
  show "world_ok n (push_frame t (Inline i op) w)"
  proof (rule world_ok_call [OF ok t(1) i, where gs = "[Inline i op]"])
    show "strand_ok n (push_frame t (Inline i op) w) j" for j by (rule inline_ok [OF s t(2)])
  qed (use t k r in \<open>auto simp: running_in_this_thread_def\<close>)
qed

text \<open>The services.\<close>

lemma world_ok_same_stacks:
  assumes ok: "world_ok n w" and st: "stacks w' = stacks w" "scheduled w' = scheduled w"
    and strands: "\<And>j. strand_ok n w' j" and "service_ok w'" and "present w \<subseteq> present w' \<or> (\<exists>i. present w - {i} \<subseteq> present w' \<and> unreferenced i w)"
  shows "world_ok n w'"
proof -
  have "unreferenced j w'" if "j \<notin> present w'" for j
  proof -
    have "unreferenced j w" using ok that assms(6) by (auto simp: world_ok_def)
    then show ?thesis using st by (simp add: unreferenced_def)
  qed
  moreover have "stacks_ok n w'" using ok st by (simp add: world_ok_def stacks_ok_def)
  ultimately show ?thesis using assms(4,5) by (simp add: world_ok_def)
qed

lemma clear_world:
  assumes ok: "world_ok n w"
  shows "world_ok n (snd (shutdown_strand i ops w))" "world_ok n (clear_strand i w)"
proof -
  note s = world_strand [OF ok]
  have sv: "service_ok w" using ok by (simp add: world_ok_def)
  have same: "same_service w (snd (shutdown_strand i ops w))" "same_service w (clear_strand i w)"
    by (auto simp: shutdown_strand_def clear_strand_def)
  show "world_ok n (snd (shutdown_strand i ops w))"
  proof (rule world_ok_same_stacks [OF ok])
    show "strand_ok n (snd (shutdown_strand i ops w)) j" for j
      by (rule clear_ok [OF s, where i = i]) (simp_all add: shutdown_strand_def)
  qed (use same_service_ok [OF same(1) sv] same_service_present [OF same(1)] in \<open>auto simp: shutdown_strand_def\<close>)
  show "world_ok n (clear_strand i w)"
  proof (rule world_ok_same_stacks [OF ok])
    show "strand_ok n (clear_strand i w) j" for j
      by (rule clear_ok [OF s, where i = i]) (simp_all add: clear_strand_def)
  qed (use same_service_ok [OF same(2) sv] same_service_present [OF same(2)] in \<open>auto simp: clear_strand_def\<close>)
qed

lemma unreferenced_held: "unreferenced i w \<Longrightarrow> held i (stacks w t) = 0"
proof -
  have "holds i f \<Longrightarrow> mentions i f" for f by (cases f) auto
  then show "unreferenced i w \<Longrightarrow> held i (stacks w t) = 0"
    by (auto simp: unreferenced_def held_def filter_empty_conv)
qed

lemma mutex_index_bound: "mutex_index_of p s < 193"
proof -
  have "unat (x mod 193) < 193" for x :: u64
    using unat_mod_distrib [of x 193] by simp
  then show ?thesis by (simp add: mutex_index_of_def Let_def)
qed

lemma construct_world:
  assumes ok: "world_ok n w" and fresh: "fresh \<notin> present w"
  shows "world_ok n (snd (construct_strand addr fresh w))"
proof (cases "pool w (mutex_index_of addr (pool_salt w))")
  case (Some i)
  then have eq: "snd (construct_strand addr fresh w) = w\<lparr>pool_salt := pool_salt w + 1\<rparr>"
    by (simp add: construct_strand_def Let_def)
  have same: "same_service w (w\<lparr>pool_salt := pool_salt w + 1\<rparr>)" by (simp add: same_service_def)
  have "service_ok w" using ok by (simp add: world_ok_def)
  note sv = same_service_ok [OF same this] same_service_present [OF same]
  have "strand_ok n (w\<lparr>pool_salt := pool_salt w + 1\<rparr>) j" for j
    using world_strand [OF ok, of j] by (subst strand_ok_other [where w = w]) auto
  then show ?thesis unfolding eq
    using sv by (intro world_ok_same_stacks [OF ok]) auto
next
  case None
  let ?k = "mutex_index_of addr (pool_salt w)"
  let ?w = "snd (construct_strand addr fresh w)"
  have un: "unreferenced fresh w" using ok fresh by (simp add: world_ok_def)
  have w': "stacks ?w = stacks w" "scheduled ?w = scheduled w" "pool ?w = (pool w)(?k \<mapsto> fresh)" "alive ?w = alive w"
    "impl_list ?w = impl_list w" "mutexes ?w = mutexes w" "impls ?w = (impls w)(fresh := new_strand 0)"
    using None by (simp_all add: construct_strand_def Let_def fun_eq_iff)
  have pool: "in_pool j ?w \<longleftrightarrow> j = fresh \<or> in_pool j w" for j
  proof
    show "in_pool j ?w \<Longrightarrow> j = fresh \<or> in_pool j w"
      by (auto simp: in_pool_def w'(3) split: if_splits)
    have "in_pool fresh ?w"
      using mutex_index_bound [of addr "pool_salt w"] by (auto simp: in_pool_def w'(3))
    moreover have "in_pool j w \<Longrightarrow> in_pool j ?w"
      using None unfolding in_pool_def w'(3) by (metis fun_upd_other option.distinct(1))
    ultimately show "j = fresh \<or> in_pool j w \<Longrightarrow> in_pool j ?w" by blast
  qed
  have sv: "service_ok w" using ok by (simp add: world_ok_def)
  then obtain il where il: "listed_strands w il" by (auto simp: service_ok_def)
  have na: "fresh \<notin> alive w" using fresh by (simp add: present_def)
  have "seg (\<lambda>i. next_impl (impls ?w i)) (\<lambda>i. prev_impl (impls ?w i)) None (impl_list w) il None
      = seg (\<lambda>i. next_impl (impls w i)) (\<lambda>i. prev_impl (impls w i)) None (impl_list w) il None"
    using il na by (intro seg_cong) (auto simp: listed_strands_def w'(7))
  then have "listed_strands ?w il"
    using il by (simp add: listed_strands_def w'(4,5))
  then have "service_ok ?w"
    using sv na pool by (auto simp: service_ok_def w'(4,6,7))
  moreover have "strand_ok n ?w j" for j
    by (rule fresh_ok [OF world_strand [OF ok], of fresh])
      (use un unreferenced_held [OF un] None in \<open>auto simp: construct_strand_def Let_def unreferenced_def new_strand_def\<close>)
  moreover have "present w \<subseteq> present ?w" using pool w' by (auto simp: present_def)
  ultimately show ?thesis using ok w' by (blast intro: world_ok_same_stacks)
qed

lemma create_fields:
  "stacks (create_implementation i w) = stacks w" "scheduled (create_implementation i w) = scheduled w"
  "alive (create_implementation i w) = insert i (alive w)" "pool (create_implementation i w) = pool w"
  "impl_list (create_implementation i w) = Some i"
  "mutexes (create_implementation i w) = insert (mutex_index_of (of_nat i) (salt w)) (mutexes w)"
  "cleared (create_implementation i w) = cleared w - {i}"
  "accepted (create_implementation i w) = (accepted w)(i := [])" "started (create_implementation i w) = (started w)(i := [])"
  by (auto simp: create_implementation_def Let_def split: option.split)

lemma create_impls:
  assumes "impl_list w \<noteq> Some i"
  shows "impls (create_implementation i w) j = (if j = i then (new_strand (mutex_index_of (of_nat i) (salt w)))\<lparr>next_impl := impl_list w\<rparr>
    else if impl_list w = Some j then (impls w j)\<lparr>prev_impl := Some i\<rparr> else impls w j)"
  using assms by (auto simp: create_implementation_def Let_def split: option.split)

lemma list_head_alive: "listed_strands w il \<Longrightarrow> impl_list w = Some i \<Longrightarrow> i \<in> alive w"
  by (cases il) (auto simp: listed_strands_def)

lemma create_world:
  assumes ok: "world_ok n w" and fresh: "i \<notin> present w"
  shows "world_ok n (create_implementation i w)"
proof -
  let ?w = "create_implementation i w"
  have un: "unreferenced i w" and sv: "service_ok w" using ok fresh by (simp_all add: world_ok_def)
  then obtain il where il: "listed_strands w il" by (auto simp: service_ok_def)
  have na: "i \<notin> alive w" "i \<notin> set il" "\<not> in_pool i w" using fresh il by (auto simp: present_def listed_strands_def)
  have hd: "impl_list w \<noteq> Some i" using list_head_alive [OF il] na by auto
  note impls = create_impls [OF hd]
  have "seg (\<lambda>i. next_impl (impls ?w i)) (\<lambda>i. prev_impl (impls ?w i)) None (Some i) (i # il) None"
    by (rule seg_insert [where nx = "\<lambda>i. next_impl (impls w i)" and pv = "\<lambda>i. prev_impl (impls w i)" and x = "impl_list w"])
      (use il na in \<open>auto simp: listed_strands_def impls new_strand_def\<close>)
  then have "listed_strands ?w (i # il)"
    using il na by (simp add: listed_strands_def create_fields)
  moreover have "in_pool j ?w \<longleftrightarrow> in_pool j w" for j by (simp add: in_pool_def create_fields)
  ultimately have "service_ok ?w"
    using sv na mutex_index_bound by (auto simp: service_ok_def create_fields impls new_strand_def)
  moreover have "strand_ok n ?w j" for j
    by (rule fresh_ok [OF world_strand [OF ok], of i])
      (use un unreferenced_held [OF un] in \<open>auto simp: create_fields impls unreferenced_def new_strand_def\<close>)
  moreover have "present w \<subseteq> present ?w" by (auto simp: present_def in_pool_def create_fields)
  ultimately show ?thesis using ok by (intro world_ok_same_stacks [OF ok]) (auto simp: create_fields)
qed

lemma destroy_fields:
  "stacks (destroy_implementation i w) = stacks w" "scheduled (destroy_implementation i w) = scheduled w"
  "alive (destroy_implementation i w) = alive w - {i}" "pool (destroy_implementation i w) = pool w"
  "impl_list (destroy_implementation i w) = (if impl_list w = Some i then next_impl (impls w i) else impl_list w)"
  "mutexes (destroy_implementation i w) = mutexes w" "cleared (destroy_implementation i w) = cleared w"
  "accepted (destroy_implementation i w) = accepted w" "started (destroy_implementation i w) = started w"
  by (auto simp: destroy_implementation_def Let_def split: option.split)

lemma destroy_impls:
  assumes "next_impl (impls w i) \<noteq> Some i" "prev_impl (impls w i) \<noteq> Some i"
  shows "impls (destroy_implementation i w) u = (impls w u)\<lparr>
      next_impl := if Some u = prev_impl (impls w i) then next_impl (impls w i) else next_impl (impls w u),
      prev_impl := if Some u = next_impl (impls w i) then prev_impl (impls w i) else prev_impl (impls w u)\<rparr>"
  using assms by (auto simp: destroy_implementation_def Let_def split: option.split)

lemma destroy_world:
  assumes ok: "world_ok n w" and i: "i \<in> alive w" and un: "unreferenced i w"
  shows "world_ok n (destroy_implementation i w)"
proof -
  let ?w = "destroy_implementation i w"
  have sv: "service_ok w" using ok by (simp add: world_ok_def)
  then obtain il where il: "listed_strands w il" by (auto simp: service_ok_def)
  then obtain as bs where ab: "il = as @ i # bs" using i by (metis listed_strands_def split_list)
  have d: "distinct (as @ i # bs)" using il ab by (simp add: listed_strands_def)
  have "next_impl (impls w i) \<noteq> Some i" "prev_impl (impls w i) \<noteq> Some i"
    using il ab seg_not_self [of "\<lambda>i. next_impl (impls w i)" "\<lambda>i. prev_impl (impls w i)" "impl_list w" il i]
    by (auto simp: listed_strands_def)
  note impls = destroy_impls [OF this]
  have "seg (\<lambda>i. next_impl (impls ?w i)) (\<lambda>i. prev_impl (impls ?w i)) None (impl_list ?w) (as @ bs) None"
    by (rule seg_remove [where t = i and nx = "\<lambda>i. next_impl (impls w i)" and pv = "\<lambda>i. prev_impl (impls w i)" and x = "impl_list w"])
      (use il ab d in \<open>auto simp: listed_strands_def impls destroy_fields\<close>)
  then have "listed_strands ?w (as @ bs)"
    using il ab d by (auto simp: listed_strands_def destroy_fields)
  moreover have "in_pool j ?w \<longleftrightarrow> in_pool j w" for j by (simp add: in_pool_def destroy_fields)
  ultimately have "service_ok ?w"
    using sv by (auto simp: service_ok_def destroy_fields impls)
  moreover have "strand_ok n ?w j" for j
    using world_strand [OF ok, of j] on_stacks_cong [of ?w w] flight_cong [of ?w w]
    by (simp add: destroy_fields impls strand_ok_def in_order_def)
  moreover have "present w - {i} \<subseteq> present ?w" by (auto simp: present_def in_pool_def destroy_fields)
  ultimately show ?thesis using ok un by (intro world_ok_same_stacks [OF ok]) (auto simp: destroy_fields)
qed

section \<open>The invariant holds\<close>

lemma strand_call_ok:
  assumes "strand_call n w w'" and ok: "world_ok n w"
  shows "world_ok n w'"
  using assms(1)
proof cases
  case (call_execute t i op never)
  then show ?thesis
    using submit_world [OF ok] by (auto simp: do_execute_def present_def)
next
  case (call_dispatch t i op)
  then show ?thesis
    using submit_world [OF ok] by (auto simp: strand_dispatch_def present_def)
next
  case (call_post t i op)
  then show ?thesis
    using submit_world [OF ok] by (auto simp: strand_post_def present_def)
next
  case (call_defer t i op)
  then show ?thesis
    using submit_world [OF ok] by (auto simp: strand_defer_def present_def)
next
  case (call_context_dispatch t i op can)
  then show ?thesis
    using submit_world [OF ok] by (auto simp: context_dispatch_def present_def)
next
  case (call_context_post t i op)
  then show ?thesis
    using submit_world [OF ok] by (auto simp: present_def)
next
  case (call_create i)
  then show ?thesis using create_world [OF ok] by (simp add: present_def)
next
  case (call_construct fresh addr)
  then show ?thesis using construct_world [OF ok] by (simp add: present_def)
next
  case (call_destroy i)
  then show ?thesis using destroy_world [OF ok] by (simp add: unreferenced_def)
next
  case (call_shutdown i ops)
  then show ?thesis using clear_world(1) [OF ok] by simp
next
  case (call_clear i)
  then show ?thesis using clear_world(2) [OF ok] by simp
qed

lemma strand_run_ok:
  assumes "strand_run n w w'" and ok: "world_ok n w"
  shows "world_ok n w'"
proof -
  note s = world_strand [OF ok]
  have top: "j \<in> present w" if "stacks w t = f # fs" "mentions j f" for t f fs j
    using same_stack(2) [OF ok, of f t j] that by simp
  have below: "j \<in> present w" if "stacks w t = f # fs" "g \<in> set fs" "mentions j g" for t f fs g j
    using same_stack(2) [OF ok, of g t j] that by simp
  have sok: "stack_ok (f # fs)" if "stacks w t = f # fs" for t f fs
    using same_stack(1) [OF ok, of t] that by simp
  show ?thesis
    using assms(1)
  proof cases
    case (run_push t i op b fs)
    show ?thesis unfolding run_push(1)
      by (intro world_ok_step [OF ok, of t _ "Schedule i b # fs"] push_ok [OF s s])
        (use run_push top [of t] below [of t] sok [of t] in \<open>auto simp: push_ready_def\<close>)
  next
    case (run_schedule t i b fs)
    show ?thesis unfolding run_schedule(1)
      by (intro world_ok_step [OF ok, of t _ fs] schedule_ok [OF s s])
        (use run_schedule top [of t] below [of t] sok [of t] in \<open>auto split: if_splits\<close>)
  next
    case (run_here t i fs)
    show ?thesis unfolding run_here(1)
      by (intro world_ok_step [OF ok, of t _ "Running i # fs"] replace_ok [OF s])
        (use run_here top [of t] below [of t] sok [of t] in \<open>auto\<close>)
  next
    case (run_invoker t i)
    show ?thesis unfolding run_invoker(1)
      by (intro world_ok_step [OF ok, of t _ "Running i # stacks w t"] invoker_ok [OF s s])
        (use run_invoker same_stack(1) [OF ok, of t] same_stack(2) [OF ok, of _ t] same_stack(3) [OF ok, of i] in \<open>auto split: if_splits\<close>)
  next
    case (run_turn t i fs)
    show ?thesis unfolding run_turn(1)
      by (intro world_ok_step [OF ok, of t _ "stacks w' t"] turn_ok [OF s s])
        (use run_turn top [of t] below [of t] sok [of t] in \<open>auto simp: run_ready_turn_def split: list.splits\<close>)
  next
    case (run_direct_ends t i fs)
    show ?thesis unfolding run_direct_ends(1)
      by (intro world_ok_step [OF ok, of t _ "Exit i False # fs"] replace_ok [OF s])
        (use run_direct_ends top [of t] below [of t] sok [of t] in \<open>auto\<close>)
  next
    case (run_handler_returns t i op fs)
    show ?thesis unfolding run_handler_returns(1)
      by (intro world_ok_step [OF ok, of t _ fs] replace_ok [OF s])
        (use run_handler_returns top [of t] below [of t] sok [of t] in \<open>auto simp: neq_Nil_conv\<close>)
  next
    case (run_handler_throws t i op f fs)
    show ?thesis unfolding run_handler_throws(1)
      by (intro world_ok_step [OF ok, of t _ "Exit i True # fs"] replace_ok [OF s])
        (use run_handler_throws top [of t] below [of t "Handler i op" "f # fs"] sok [of t] in \<open>auto\<close>)
  next
    case (run_inline_returns t i op fs)
    show ?thesis unfolding run_inline_returns(1)
      by (intro world_ok_step [OF ok, of t _ fs] replace_ok [OF s])
        (use run_inline_returns top [of t] below [of t] sok [of t] user_code_way [of fs] in \<open>auto\<close>)
  next
    case (run_exit t i b fs)
    show ?thesis unfolding run_exit(1)
      by (intro world_ok_step [OF ok, of t _ "stacks w' t"] exit_ok [OF s s])
        (use run_exit top [of t] below [of t] sok [of t] in \<open>auto simp: on_invoker_exit_def push_waiting_to_ready_def Let_def split: if_splits\<close>)
  next
    case (run_resched t i fs)
    show ?thesis unfolding run_resched(1)
      by (intro world_ok_step [OF ok, of t _ fs] schedule_ok [OF s s])
        (use run_resched top [of t] below [of t] sok [of t] in \<open>auto split: if_splits\<close>)
  qed
qed

lemma strand_reach_ok: "strand_reach n w \<Longrightarrow> world_ok n w"
proof (induction rule: strand_reach.induct)
  case strand_new
  have "on_stacks n new_strand_world i = 0" "flight n new_strand_world i = []" for i
    by (simp_all add: on_stacks_def flight_def new_strand_world_def)
  then show ?case
    by (auto simp: world_ok_def strand_ok_def stacks_ok_def in_order_def unreferenced_def service_ok_def listed_strands_def
      new_strand_world_def new_strand_def intro!: exI [of _ "[]"])
qed (auto intro: strand_call_ok strand_run_ok)

end
