(* ===== verification/StrandProperties.thy ===== *)
theory StrandProperties
  imports StrandInvariant
begin

text \<open>
  What strands promise, on every interleaving of the threads of their executor: the functions of a strand run one
  at a time, in the order in which they were given to it, each once, and none is left behind.
\<close>

lemma contains_held: "contains i fs \<Longrightarrow> 0 < held i fs"
  and context_held: "length (filter (\<lambda>f. context_key f = Some i) fs) \<le> held i fs"
proof -
  have "context_key f = Some i \<Longrightarrow> holds i f" for f by (cases f) auto
  then show "contains i fs \<Longrightarrow> 0 < held i fs" "length (filter (\<lambda>f. context_key f = Some i) fs) \<le> held i fs"
    by (induction fs) (auto split: if_splits)
qed

lemma function_contains:
  "stack_ok fs \<Longrightarrow> Handler i op \<in> set fs \<or> Inline i op \<in> set fs \<Longrightarrow> contains i fs"
  by (induction fs rule: stack_ok.induct) (auto simp: neq_Nil_conv)

lemma strand_facts:
  assumes "strand_reach n w"
  shows "scheduled w i + on_stacks n w i = (if locked (impls w i) then 1 else 0)" "stack_ok (stacks w t)"
    "\<not> t < n \<Longrightarrow> stacks w t = []" "strand_ok n w i" "service_ok w"
  using strand_reach_ok [OF assms] by (auto simp: world_ok_def strand_ok_def stacks_ok_def)

text \<open>
  Property C24. The functions of a strand, called from the loop, from \<^verbatim>\<open>do_dispatch\<close> or at once from inside the strand, are
  all on the stack of one thread, the one whose call stack has the strand, and it has it once: no two of them run
  concurrently. What touches the ready queue outside the mutex is done by one holder of the lock at a time.
\<close>

theorem strand_runs_one_at_a_time:
  assumes "strand_reach n w"
  shows "(\<forall>t u. contains i (stacks w t) \<and> contains i (stacks w u) \<longrightarrow> t = u)
    \<and> (\<forall>t op. Handler i op \<in> set (stacks w t) \<or> Inline i op \<in> set (stacks w t) \<longrightarrow> contains i (stacks w t))
    \<and> (\<forall>t. length (filter (\<lambda>f. context_key f = Some i) (stacks w t)) \<le> 1)
    \<and> scheduled w i + length (filter (holds i) (concat (map (stacks w) [0..<n]))) = (if locked (impls w i) then 1 else 0)"
proof (intro conjI allI impI)
  note f = strand_facts [OF assms]
  have one: "on_stacks n w i \<le> 1" using f(1) [of i] by (simp split: if_splits)
  show "t = u" if "contains i (stacks w t) \<and> contains i (stacks w u)" for t u
  proof -
    have "t < n" "u < n" using that f(3) by (metis contains.simps(1))+
    then show ?thesis using held_unique [OF one] that contains_held by blast
  qed
  show "contains i (stacks w t)" if "Handler i op \<in> set (stacks w t) \<or> Inline i op \<in> set (stacks w t)" for t op
    using function_contains [OF f(2) that] .
  show "length (filter (\<lambda>f. context_key f = Some i) (stacks w t)) \<le> 1" for t
  proof (cases "t < n")
    case True
    show ?thesis using context_held [of i "stacks w t"] held_le [OF True, of i w] one by linarith
  qed (use f(3) in simp)
  have "length (filter (holds i) (concat (map (stacks w) [0..<m]))) = on_stacks m w i" for m
    by (induction m) (simp_all add: on_stacks_def held_def)
  then show "scheduled w i + length (filter (holds i) (concat (map (stacks w) [0..<n]))) = (if locked (impls w i) then 1 else 0)"
    using f(1) by simp
qed

lemma flight_shape: "flight n w i \<noteq> [] \<Longrightarrow> \<exists>t op b fs. stacks w t = PushReady i op b # fs \<and> t < n"
proof -
  have shape: "on_its_way i fs \<noteq> [] \<Longrightarrow> \<exists>op b gs. fs = PushReady i op b # gs" for fs
    by (cases "(i, fs)" rule: on_its_way.cases) (auto split: if_splits)
  assume "flight n w i \<noteq> []"
  then obtain t where "t < n" "on_its_way i (stacks w t) \<noteq> []"
    by (auto simp: flight_def)
  then show ?thesis using shape by blast
qed

text \<open>
  Property C25. A strand calls the operations it takes in the order in which it took them, each at most once; until the
  service is shut down those not yet called are in its two queues, or on their way to the ready queue in the
  thread that took the lock.
\<close>

theorem strand_runs_in_order:
  assumes "strand_reach n w"
  shows "distinct (accepted w i) \<and> subseq (started w i) (accepted w i)
    \<and> (i \<notin> cleared w \<longrightarrow> (\<exists>fl. accepted w i = started w i @ ready_queue (impls w i) @ fl @ waiting_queue (impls w i)
        \<and> (fl = [] \<or> (\<exists>t op b fs. fl = [op] \<and> stacks w t = PushReady i op b # fs))))"
proof -
  note ok = strand_facts(4) [OF assms, of i]
  let ?q = "ready_queue (impls w i) @ flight n w i @ waiting_queue (impls w i)"
  have "subseq (started w i @ ?q) (accepted w i)" "distinct (accepted w i)"
    and all: "i \<notin> cleared w \<longrightarrow> accepted w i = started w i @ ?q"
    using ok by (auto simp: strand_ok_def in_order_def Let_def)
  moreover have "subseq (started w i) (started w i @ ?q)"
    by (rule subseq_rev_drop_many) simp
  moreover have "\<exists>t op b fs. flight n w i = [op] \<and> stacks w t = PushReady i op b # fs" if flying: "flight n w i \<noteq> []"
  proof -
    obtain t op b fs where t: "stacks w t = PushReady i op b # fs" "t < n" using flight_shape [OF flying] by blast
    then have "flight n w i = [op]" using locked_strand(2) [OF ok t(2)] by simp
    then show ?thesis using t by blast
  qed
  ultimately show ?thesis
    using subseq_order.trans by blast
qed

lemma run_progress:
  assumes "t < n" "stacks w t \<noteq> []" "stack_ok (stacks w t)"
  shows "\<exists>w'. strand_run n w w'"
proof -
  obtain f fs where f: "stacks w t = f # fs" using assms(2) by (cases "stacks w t") auto
  show ?thesis
  proof (cases f)
    case (PushReady i op b)
    then show ?thesis using run_push [OF assms(1) f [unfolded PushReady]] by blast
  next
    case (Schedule i b)
    then show ?thesis using run_schedule [OF assms(1) f [unfolded Schedule]] by blast
  next
    case (Running i)
    then show ?thesis using run_turn [OF assms(1) f [unfolded Running]] by blast
  next
    case (Direct i)
    then show ?thesis using run_direct_ends [OF assms(1) f [unfolded Direct]] by blast
  next
    case (Handler i op)
    then show ?thesis using run_handler_returns [OF assms(1) f [unfolded Handler]] by blast
  next
    case (Inline i op)
    then show ?thesis using run_inline_returns [OF assms(1) f [unfolded Inline]] by blast
  next
    case (Exit i b)
    then show ?thesis using run_exit [OF assms(1) f [unfolded Exit]] by blast
  next
    case (Resched i)
    then show ?thesis using run_resched [OF assms(1) f [unfolded Resched]] by blast
  qed
qed

text \<open>
  Property C26. No operation is left behind: a strand with operations that it has not called is locked, so that an
  invoker is scheduled or a thread is in it; when the executor has nothing to run and every thread has returned, each
  strand is free and, unless its service was shut down, has called all it took. A state in which nothing can
  happen without a new call is of this kind.
\<close>

theorem no_operation_is_left_behind:
  assumes "strand_reach n w"
  shows "(ready_queue (impls w i) \<noteq> [] \<or> waiting_queue (impls w i) \<noteq> [] \<longrightarrow>
        locked (impls w i) \<and> (scheduled w i = 1 \<or> (\<exists>t < n. \<exists>f \<in> set (stacks w t). holds i f)))
    \<and> ((\<forall>t. stacks w t = []) \<and> (\<forall>j. scheduled w j = 0) \<longrightarrow>
        \<not> locked (impls w i) \<and> (i \<notin> cleared w \<longrightarrow> started w i = accepted w i))
    \<and> (0 < n \<and> (\<forall>w'. \<not> strand_run n w w') \<longrightarrow> (\<forall>t. stacks w t = []) \<and> (\<forall>j. scheduled w j = 0))"
proof (intro conjI impI allI)
  note f = strand_facts [OF assms]
  show l: "locked (impls w i)" if "ready_queue (impls w i) \<noteq> [] \<or> waiting_queue (impls w i) \<noteq> []"
    using f(4) [of i] that by (auto simp: strand_ok_def)
  show "scheduled w i = 1 \<or> (\<exists>t < n. \<exists>f \<in> set (stacks w t). holds i f)"
    if q: "ready_queue (impls w i) \<noteq> [] \<or> waiting_queue (impls w i) \<noteq> []"
  proof (rule ccontr)
    assume a: "\<not> ?thesis"
    then have "held i (stacks w t) = 0" if "t < n" for t
      using that by (auto simp: held_def filter_empty_conv)
    then have "on_stacks n w i = 0" by (simp add: on_stacks_def)
    then show False using f(1) [of i] l [OF q] a by simp
  qed
  assume idle: "(\<forall>t. stacks w t = []) \<and> (\<forall>j. scheduled w j = 0)"
  then have "on_stacks n w i = 0" by (simp add: on_stacks_def)
  then show free: "\<not> locked (impls w i)" using f(1) [of i] idle by (simp split: if_splits)
  show "started w i = accepted w i" if "i \<notin> cleared w"
    using f(4) [of i] free_strand [OF f(4) free] that by (simp add: strand_ok_def in_order_def Let_def)
next
  note f = strand_facts [OF assms]
  assume a: "0 < n \<and> (\<forall>w'. \<not> strand_run n w w')"
  show st: "stacks w t = []" for t
    using run_progress [of t n w] f(2,3) a by blast
  show "scheduled w j = 0" for j
    using strand_run.run_invoker [of 0 n w j] st a by auto
qed

text \<open>
  A strand that goes, when nothing refers to it any more, is free, its queues are empty and it has called
  all it took.
\<close>

theorem strand_goes_empty:
  assumes "strand_reach n w" and "scheduled w i = 0" and "\<forall>t. \<forall>f \<in> set (stacks w t). \<not> mentions i f"
  shows "\<not> locked (impls w i) \<and> ready_queue (impls w i) = [] \<and> waiting_queue (impls w i) = []
    \<and> (i \<notin> cleared w \<longrightarrow> started w i = accepted w i)"
proof -
  note f = strand_facts [OF assms(1)]
  have "held i (stacks w t) = 0" for t
    using unreferenced_held assms by (simp add: unreferenced_def)
  then have "on_stacks n w i = 0" by (simp add: on_stacks_def)
  then have free: "\<not> locked (impls w i)" using f(1) [of i] assms(2) by (simp split: if_splits)
  then show ?thesis
    using f(4) [of i] free_strand [OF f(4) free] by (simp add: strand_ok_def in_order_def Let_def)
qed

section \<open>The service\<close>

lemma shutdown_loop_spec:
  assumes "seg (\<lambda>i. next_impl (impls w i)) (\<lambda>i. prev_impl (impls w i)) p x il None" and "distinct il"
  shows "\<exists>w'. shutdown_loop x ops w = Some (ops @ concat (map (\<lambda>i. waiting_queue (impls w i) @ ready_queue (impls w i)) il), w')
    \<and> impls w' = (\<lambda>i. if i \<in> set il then (impls w i)\<lparr>shut := True, waiting_queue := [], ready_queue := []\<rparr> else impls w i)"
  using assms
proof (induction il arbitrary: w ops p x)
  case Nil
  then show ?case by (simp add: shutdown_loop.simps)
next
  case (Cons i il)
  let ?w = "snd (shutdown_strand i ops w)" and ?ops = "ops @ waiting_queue (impls w i) @ ready_queue (impls w i)"
  have impls: "impls ?w = (impls w)(i := (impls w i)\<lparr>shut := True, waiting_queue := [], ready_queue := []\<rparr>)"
    by (simp add: shutdown_strand_def fun_eq_iff)
  have links: "next_impl (impls ?w j) = next_impl (impls w j)" "prev_impl (impls ?w j) = prev_impl (impls w j)" for j
    by (simp_all add: impls)
  have "seg (\<lambda>i. next_impl (impls ?w i)) (\<lambda>i. prev_impl (impls ?w i)) (Some i) (next_impl (impls w i)) il None"
    using Cons.prems by (simp add: links)
  from Cons.IH [OF this, of ?ops] Cons.prems(2)
  obtain w' where w': "shutdown_loop (next_impl (impls w i)) ?ops ?w
        = Some (?ops @ concat (map (\<lambda>i. waiting_queue (impls ?w i) @ ready_queue (impls ?w i)) il), w')"
      "impls w' = (\<lambda>j. if j \<in> set il then (impls ?w j)\<lparr>shut := True, waiting_queue := [], ready_queue := []\<rparr> else impls ?w j)"
    by auto
  have same: "map (\<lambda>i. waiting_queue (impls ?w i) @ ready_queue (impls ?w i)) il
      = map (\<lambda>i. waiting_queue (impls w i) @ ready_queue (impls w i)) il"
    using Cons.prems(2) by (intro map_cong) (auto simp: impls)
  have "x = Some i" "fst (shutdown_strand i ops w) = ?ops"
    using Cons.prems(1) by (simp_all add: shutdown_strand_def)
  then have step: "shutdown_loop x ops w = shutdown_loop (next_impl (impls w i)) ?ops ?w"
    by (subst shutdown_loop.simps) (simp add: case_prod_beta links)
  have "shutdown_loop x ops w
      = Some (ops @ concat (map (\<lambda>i. waiting_queue (impls w i) @ ready_queue (impls w i)) (i # il)), w')"
    unfolding step w'(1) same by simp
  moreover have "impls w' = (\<lambda>j. if j \<in> set (i # il)
      then (impls w j)\<lparr>shut := True, waiting_queue := [], ready_queue := []\<rparr> else impls w j)"
    using w'(2) by (simp add: impls fun_eq_iff)
  ultimately show ?case by blast
qed

text \<open>
  The strands on an executor that exist are those of the doubly linked list of their service, each once,
  and each uses one of the 193 mutexes, which has been made. Shutting the service down ends, destroys every
  operation in their queues once, and makes each refuse more.
\<close>

theorem shutdown_reaches_every_strand:
  assumes "strand_reach n w"
  shows "\<exists>il w'. seg (\<lambda>i. next_impl (impls w i)) (\<lambda>i. prev_impl (impls w i)) None (impl_list w) il None
    \<and> distinct il \<and> set il = alive w
    \<and> shutdown_service w = Some (concat (map (\<lambda>i. waiting_queue (impls w i) @ ready_queue (impls w i)) il), w')
    \<and> (\<forall>i \<in> alive w. mutex_slot (impls w i) < 193 \<and> mutex_slot (impls w i) \<in> mutexes w
        \<and> waiting_queue (impls w' i) = [] \<and> ready_queue (impls w' i) = [] \<and> (\<forall>op. enqueue_op i op w' = (False, w')))"
proof -
  obtain il where il: "listed_strands w il" and m: "mutexes w \<subseteq> {..<193}" "\<forall>i \<in> alive w. mutex_slot (impls w i) \<in> mutexes w"
    using strand_facts(5) [OF assms] by (auto simp: service_ok_def)
  then obtain w' where "shutdown_service w = Some (concat (map (\<lambda>i. waiting_queue (impls w i) @ ready_queue (impls w i)) il), w')"
    "impls w' = (\<lambda>i. if i \<in> set il then (impls w i)\<lparr>shut := True, waiting_queue := [], ready_queue := []\<rparr> else impls w i)"
    using shutdown_loop_spec [of w None "impl_list w" il "[]"] by (auto simp: listed_strands_def shutdown_service_def)
  then show ?thesis
    using il m by (intro exI [of _ il] exI [of _ w']) (auto simp: listed_strands_def enqueue_op_def)
qed

section \<open>An example\<close>

text \<open>Thread 0 posts 5 and 6 to strand 4; thread 2 has started 5.\<close>

definition demo_strand :: strand_world where
  "demo_strand = create_implementation 4 new_strand_world"

definition demo_posted :: strand_world where
  "demo_posted = (let w = strand_post 0 4 5 demo_strand;
       w = set_stack 0 [Schedule 4 False] (push_ready 4 5 w)
     in set_stack 0 [] (w\<lparr>scheduled := (scheduled w)(4 := 1)\<rparr>))"

definition demo_running :: strand_world where
  "demo_running = (let w = strand_post 0 4 6 demo_posted;
       w = push_frame 2 (Running 4) (w\<lparr>scheduled := (scheduled w)(4 := 0)\<rparr>)
     in run_ready_turn 2 4 [] w)"

lemma demo_strand_fields:
  "alive demo_strand = {4}" "stacks demo_strand = (\<lambda>_. [])" "scheduled demo_strand = (\<lambda>_. 0)"
  "accepted demo_strand = (\<lambda>_. [])" "started demo_strand = (\<lambda>_. [])" "cleared demo_strand = {}"
  "\<not> locked (impls demo_strand 4)" "\<not> shut (impls demo_strand 4)"
  "ready_queue (impls demo_strand 4) = []" "waiting_queue (impls demo_strand 4) = []"
  by (auto simp: demo_strand_def create_fields create_impls new_strand_world_def new_strand_def fun_eq_iff)

lemma demo_posted_fields:
  "alive demo_posted = {4}" "stacks demo_posted = (\<lambda>_. [])" "scheduled demo_posted = (\<lambda>_. 0)(4 := 1)"
  "accepted demo_posted = (\<lambda>_. [])(4 := [5])" "started demo_posted = (\<lambda>_. [])" "cleared demo_posted = {}"
  "locked (impls demo_posted 4)" "\<not> shut (impls demo_posted 4)"
  "ready_queue (impls demo_posted 4) = [5]" "waiting_queue (impls demo_posted 4) = []"
  by (auto simp: demo_posted_def Let_def strand_post_def submit_def enqueue_op_def push_ready_def demo_strand_fields fun_eq_iff)

lemma demo_running_fields:
  "alive demo_running = {4}" "stacks demo_running = (\<lambda>_. [])(2 := [Handler 4 5, Running 4])" "scheduled demo_running = (\<lambda>_. 0)"
  "accepted demo_running = (\<lambda>_. [])(4 := [5, 6])" "started demo_running = (\<lambda>_. [])(4 := [5])" "cleared demo_running = {}"
  "ready_queue (impls demo_running 4) = []" "waiting_queue (impls demo_running 4) = [6]"
  by (auto simp: demo_running_def Let_def strand_post_def submit_def enqueue_op_def run_ready_turn_def demo_posted_fields fun_eq_iff)

lemma demo_strand_reach: "strand_reach 3 demo_strand"
  unfolding demo_strand_def
  by (rule strand_called [OF strand_new call_create]) (simp_all add: new_strand_world_def in_pool_def)

lemma demo_posted_reach: "strand_reach 3 demo_posted"
proof -
  let ?w = "strand_post 0 4 5 demo_strand"
  have "strand_reach 3 ?w"
    by (rule strand_called [OF demo_strand_reach call_post]) (simp_all add: demo_strand_fields)
  then have "strand_reach 3 (set_stack 0 [Schedule 4 False] (push_ready 4 5 ?w))"
    by (rule strand_ran [OF _ run_push]) (simp_all add: strand_post_def submit_def enqueue_op_def demo_strand_fields)
  then have "strand_reach 3 (set_stack 0 [] ((set_stack 0 [Schedule 4 False] (push_ready 4 5 ?w))
      \<lparr>scheduled := (scheduled (set_stack 0 [Schedule 4 False] (push_ready 4 5 ?w)))
        (4 := scheduled (set_stack 0 [Schedule 4 False] (push_ready 4 5 ?w)) 4 + 1)\<rparr>))"
    by (rule strand_ran [OF _ run_schedule [where b = False]]) simp_all
  then show ?thesis
    by (simp add: demo_posted_def Let_def strand_post_def submit_def enqueue_op_def push_ready_def demo_strand_fields)
qed

lemma demo_running_reach: "strand_reach 3 demo_running"
proof -
  let ?w = "strand_post 0 4 6 demo_posted"
  have f: "scheduled ?w 4 = 1" "stacks ?w = (\<lambda>_. [])"
    by (simp_all add: strand_post_def submit_def enqueue_op_def demo_posted_fields)
  have "strand_reach 3 ?w"
    by (rule strand_called [OF demo_posted_reach call_post]) (simp_all add: demo_posted_fields)
  then have "strand_reach 3 (push_frame 2 (Running 4) (?w\<lparr>scheduled := (scheduled ?w)(4 := scheduled ?w 4 - 1)\<rparr>))"
    by (rule strand_ran [OF _ run_invoker [of 2 3 ?w 4]]) (simp_all add: f)
  then have "strand_reach 3 (run_ready_turn 2 4 [] (push_frame 2 (Running 4) (?w\<lparr>scheduled := (scheduled ?w)(4 := scheduled ?w 4 - 1)\<rparr>)))"
    by (rule strand_ran [OF _ run_turn]) (simp_all add: f)
  then show ?thesis by (simp add: demo_running_def Let_def f)
qed

theorem strand_runs_one_at_a_time_witness:
  "contains 4 (stacks demo_running 2) \<and> \<not> contains 4 (stacks demo_running 0)"
proof -
  have "contains 4 (stacks demo_running 2)" by (simp add: demo_running_fields)
  then show ?thesis
    using strand_runs_one_at_a_time [OF demo_running_reach, of 4, THEN conjunct1] by (metis zero_neq_numeral)
qed

theorem strand_runs_in_order_witness:
  "\<exists>fl. accepted demo_running 4 = [5] @ [] @ fl @ [6]"
  using strand_runs_in_order [OF demo_running_reach, of 4] by (auto simp: demo_running_fields)

theorem no_operation_is_left_behind_witness: "locked (impls demo_running 4)"
  using no_operation_is_left_behind [OF demo_running_reach, of 4, THEN conjunct1] by (simp add: demo_running_fields)

theorem strand_goes_empty_witness: "\<not> locked (impls demo_strand 4) \<and> started demo_strand 4 = accepted demo_strand 4"
  using strand_goes_empty [OF demo_strand_reach, of 4] by (simp add: demo_strand_fields)

theorem shutdown_reaches_every_strand_witness: "\<exists>w'. shutdown_service demo_running = Some ([6], w')"
proof -
  obtain il w' where il: "distinct il" "set il = {4}"
    and w': "shutdown_service demo_running
      = Some (concat (map (\<lambda>i. waiting_queue (impls demo_running i) @ ready_queue (impls demo_running i)) il), w')"
    using shutdown_reaches_every_strand [OF demo_running_reach] by (auto simp: demo_running_fields)
  have "il = [4]" using il by (cases il; cases "tl il") auto
  then show ?thesis using w' by (simp add: demo_running_fields)
qed

end
