(* ===== verification/ReadUntil.thy ===== *)
theory ReadUntil
  imports DynRead "HOL-Library.Sublist"
begin

text \<open>
  \<^verbatim>\<open>asio/impl/read_until.hpp\<close>: reading into a dynamic buffer until what it holds has a delimiter, a
  character, a string or a match of the user's condition. The search goes over the new data only, from
  the position where a match may have begun. Both versions of the dynamic buffer, synchronous and asynchronous.

  The code repeats one loop for each kind of delimiter and each version of the buffer; here the loop
  takes the search and the version as arguments, and each overload is an instance. A match condition is a
  function of the user, \<^verbatim>\<open>regex_search\<close> one of Boost; both are parameters.
\<close>

section \<open>The searches\<close>

text \<open>The inner loop of \<^verbatim>\<open>partial_search\<close>, on what is left of both sequences.\<close>

datatype comparison = FullMatch | PartialMatch | Mismatch

fun compare_seq :: "bytes \<Rightarrow> bytes \<Rightarrow> bool \<Rightarrow> comparison" where
  "compare_seq xs [] advanced = FullMatch"
| "compare_seq [] (d # ds) advanced = (if advanced then PartialMatch else Mismatch)"
| "compare_seq (x # xs) (d # ds) advanced = (if x \<noteq> d then Mismatch else compare_seq xs ds True)"

text \<open>\<open>i\<close> is the position of \<^verbatim>\<open>iter1\<close>, and \<open>xs\<close> what is left from there.\<close>

fun search_from :: "nat \<Rightarrow> bytes \<Rightarrow> bytes \<Rightarrow> nat \<times> bool" where
  "search_from i [] delim = (i, False)"
| "search_from i (x # xs) delim =
     (case compare_seq (x # xs) delim False of
        FullMatch \<Rightarrow> (i, True)
      | PartialMatch \<Rightarrow> (i, False)
      | Mismatch \<Rightarrow> search_from (i + 1) xs delim)"

definition partial_search :: "bytes \<Rightarrow> nat \<Rightarrow> bytes \<Rightarrow> nat \<times> bool" where
  "partial_search data pos delim = search_from pos (drop pos data) delim"

text \<open>\<^verbatim>\<open>std::find\<close>\<close>

fun find_byte :: "nat \<Rightarrow> bytes \<Rightarrow> u8 \<Rightarrow> nat" where
  "find_byte i [] c = i"
| "find_byte i (x # xs) c = (if x = c then i else find_byte (i + 1) xs c)"

text \<open>
  What a search from a position says: where the match ends, or where the next search is to start.
\<close>

datatype search_result = Found nat | Resume nat

definition search_char :: "u8 \<Rightarrow> bytes \<Rightarrow> nat \<Rightarrow> search_result" where
  "search_char delim data pos =
     (let iter = find_byte pos (drop pos data) delim
      in if iter \<noteq> length data then Found (iter + 1) else Resume (length data))"

definition search_string :: "bytes \<Rightarrow> bytes \<Rightarrow> nat \<Rightarrow> search_result" where
  "search_string delim data pos =
     (case partial_search data pos delim of (first, second) \<Rightarrow>
        if first \<noteq> length data then
          if second then Found (first + length delim) else Resume first
        else Resume (length data))"

definition search_match :: "(bytes \<Rightarrow> nat \<Rightarrow> nat \<times> bool) \<Rightarrow> bytes \<Rightarrow> nat \<Rightarrow> search_result" where
  "search_match match_condition data pos =
     (case match_condition data pos of (first, second) \<Rightarrow>
        if second then Found first
        else if first \<noteq> length data then Resume first
        else Resume (length data))"

text \<open>
  \<^verbatim>\<open>regex_search\<close> gives nothing, or whether the match is a full one, where it begins and where it ends.
\<close>

definition search_regex :: "(bytes \<Rightarrow> nat \<Rightarrow> (bool \<times> nat \<times> nat) option) \<Rightarrow> bytes \<Rightarrow> nat \<Rightarrow> search_result" where
  "search_regex regex_search data pos =
     (case regex_search data pos of
        Some (matched, first, second) \<Rightarrow> if matched then Found second else Resume first
      | None \<Rightarrow> Resume (length data))"

section \<open>The two versions of the buffer\<close>

text \<open>
  Making room for the next read and taking what has arrived: \<^verbatim>\<open>prepare\<close> and \<^verbatim>\<open>commit\<close>, or \<^verbatim>\<open>grow\<close> and \<^verbatim>\<open>shrink\<close>;
  and the bytes that \<^verbatim>\<open>data()\<close>, or \<^verbatim>\<open>data(0, size())\<close>, ranges over.
\<close>

record 'b version =
  vr_room :: "nat \<Rightarrow> 'b \<Rightarrow> fault + ('b \<times> buffer)"
  vr_cut :: "nat \<Rightarrow> nat \<Rightarrow> 'b \<Rightarrow> fault + 'b"
  vr_data :: "'b \<Rightarrow> bytes"

definition elems_at :: "buffer \<Rightarrow> bytes \<Rightarrow> bytes" where
  "elems_at buf xs = take (bsize buf) (drop (bdata buf) xs)"

definition version1 :: "'b dynamic_ops \<Rightarrow> ('b \<Rightarrow> buffer) \<Rightarrow> ('b \<Rightarrow> bytes) \<Rightarrow> 'b version" where
  "version1 ops data storage =
     \<lparr>vr_room = op_prepare ops, vr_cut = (\<lambda>n k. op_commit ops k), vr_data = (\<lambda>b. elems_at (data b) (storage b))\<rparr>"

definition version2 :: "'b dynamic_ops \<Rightarrow> ('b \<Rightarrow> bytes) \<Rightarrow> 'b version" where
  "version2 ops storage =
     \<lparr>vr_room = (\<lambda>n b. let pos = op_size ops b
                    in and_then (op_grow ops n b) (\<lambda>b. Inr (b, op_data_at ops b pos n))),
      vr_cut = (\<lambda>n k. op_shrink ops (n - k)),
      vr_data = (\<lambda>b. elems_at (op_data_at ops b 0 (op_size ops b)) (storage b))\<rparr>"

definition bytes_to_read :: "'b dynamic_ops \<Rightarrow> 'b \<Rightarrow> nat" where
  "bytes_to_read ops b =
     min (max 512 (op_capacity ops b - op_size ops b)) (min 65536 (op_max_size ops b - op_size ops b))"

section \<open>The synchronous operations\<close>

definition read_more ::
    "('s \<Rightarrow> nat \<Rightarrow> 's \<times> bytes \<times> ecode) \<Rightarrow> 'b dynamic_ops \<Rightarrow> 'b version \<Rightarrow> nat \<Rightarrow> 'b \<Rightarrow> 's
     \<Rightarrow> fault + ('b \<times> 's \<times> ecode)" where
  "read_more read_some ops v n b s =
     and_then (vr_room v n b) (\<lambda>(b, buf).
       case read_some s (bsize buf) of (s, bs, ec) \<Rightarrow>
         and_then (vr_cut v n (length bs) (op_fill ops buf bs b)) (\<lambda>b. Inr (b, s, ec)))"

partial_function (option) read_until_loop ::
    "('s \<Rightarrow> nat \<Rightarrow> 's \<times> bytes \<times> ecode) \<Rightarrow> 'b dynamic_ops \<Rightarrow> 'b version \<Rightarrow> (bytes \<Rightarrow> nat \<Rightarrow> search_result)
     \<Rightarrow> nat \<Rightarrow> 'b \<Rightarrow> 's \<Rightarrow> ('b, 's) read_outcome option" where
  "read_until_loop read_some ops v search search_position b s =
     (case search (vr_data v b) search_position of
        Found n \<Rightarrow> Some (Inr (b, s, n, NoError))
      | Resume search_position \<Rightarrow>
          if op_size ops b = op_max_size ops b then Some (Inr (b, s, 0, NotFound))
          else
            (case read_more read_some ops v (bytes_to_read ops b) b s of
               Inl e \<Rightarrow> Some (Inl e)
             | Inr (b, s, ec) \<Rightarrow>
                 if ec \<noteq> NoError then Some (Inr (b, s, 0, ec))
                 else read_until_loop read_some ops v search search_position b s))"

definition read_until_char_v1 where
  "read_until_char_v1 read_some ops data storage delim b s =
     read_until_loop read_some ops (version1 ops data storage) (search_char delim) 0 b s"

definition read_until_string_v1 where
  "read_until_string_v1 read_some ops data storage delim b s =
     read_until_loop read_some ops (version1 ops data storage) (search_string delim) 0 b s"

definition read_until_match_v1 where
  "read_until_match_v1 read_some ops data storage match_condition b s =
     read_until_loop read_some ops (version1 ops data storage) (search_match match_condition) 0 b s"

definition read_until_regex_v1 where
  "read_until_regex_v1 read_some ops data storage regex_search b s =
     read_until_loop read_some ops (version1 ops data storage) (search_regex regex_search) 0 b s"

definition read_until_char_v2 where
  "read_until_char_v2 read_some ops storage delim b s =
     read_until_loop read_some ops (version2 ops storage) (search_char delim) 0 b s"

definition read_until_string_v2 where
  "read_until_string_v2 read_some ops storage delim b s =
     read_until_loop read_some ops (version2 ops storage) (search_string delim) 0 b s"

definition read_until_match_v2 where
  "read_until_match_v2 read_some ops storage match_condition b s =
     read_until_loop read_some ops (version2 ops storage) (search_match match_condition) 0 b s"

definition read_until_regex_v2 where
  "read_until_regex_v2 read_some ops storage regex_search b s =
     read_until_loop read_some ops (version2 ops storage) (search_regex regex_search) 0 b s"

text \<open>The overloads that throw.\<close>

definition read_until_char_v1_throws where
  "read_until_char_v1_throws read_some ops data storage delim b s =
     map_option throw_read_error (read_until_char_v1 read_some ops data storage delim b s)"

definition read_until_string_v1_throws where
  "read_until_string_v1_throws read_some ops data storage delim b s =
     map_option throw_read_error (read_until_string_v1 read_some ops data storage delim b s)"

definition read_until_match_v1_throws where
  "read_until_match_v1_throws read_some ops data storage match_condition b s =
     map_option throw_read_error (read_until_match_v1 read_some ops data storage match_condition b s)"

definition read_until_regex_v1_throws where
  "read_until_regex_v1_throws read_some ops data storage regex_search b s =
     map_option throw_read_error (read_until_regex_v1 read_some ops data storage regex_search b s)"

definition read_until_char_v2_throws where
  "read_until_char_v2_throws read_some ops storage delim b s =
     map_option throw_read_error (read_until_char_v2 read_some ops storage delim b s)"

definition read_until_string_v2_throws where
  "read_until_string_v2_throws read_some ops storage delim b s =
     map_option throw_read_error (read_until_string_v2 read_some ops storage delim b s)"

definition read_until_match_v2_throws where
  "read_until_match_v2_throws read_some ops storage match_condition b s =
     map_option throw_read_error (read_until_match_v2 read_some ops storage match_condition b s)"

definition read_until_regex_v2_throws where
  "read_until_regex_v2_throws read_some ops storage regex_search b s =
     map_option throw_read_error (read_until_regex_v2 read_some ops storage regex_search b s)"

section \<open>The asynchronous operations\<close>

text \<open>The first version keeps \<^verbatim>\<open>bytes_to_read\<close> in a local variable, the second in the field.\<close>

record 'b until_op =
  un_buffers :: 'b
  un_start :: int
  search_position :: nat
  un_bytes_to_read :: nat

definition new_until_op :: "'b \<Rightarrow> 'b until_op" where
  "new_until_op b = \<lparr>un_buffers = b, un_start = 0, search_position = 0, un_bytes_to_read = 0\<rparr>"

text \<open>The search at the head of the loop; the largest number stands for not found.\<close>

definition until_search ::
    "'b dynamic_ops \<Rightarrow> 'b version \<Rightarrow> (bytes \<Rightarrow> nat \<Rightarrow> search_result) \<Rightarrow> 'b until_op \<Rightarrow> 'b until_op" where
  "until_search ops v search op =
     (let b = un_buffers op
      in case search (vr_data v b) (search_position op) of
           Found n \<Rightarrow> op\<lparr>search_position := n, un_bytes_to_read := 0\<rparr>
         | Resume p \<Rightarrow>
             if op_size ops b = op_max_size ops b then op\<lparr>search_position := size_max, un_bytes_to_read := 0\<rparr>
             else op\<lparr>search_position := p, un_bytes_to_read := bytes_to_read ops b\<rparr>)"

definition until_next :: "'b version \<Rightarrow> 'b until_op \<Rightarrow> fault + ('b until_op \<times> dyn_action)" where
  "until_next v op =
     and_then (vr_room v (un_bytes_to_read op) (un_buffers op)) (\<lambda>(b, buf).
       Inr (op\<lparr>un_buffers := b\<rparr>, ReadSome buf))"

definition until_result :: "ecode \<Rightarrow> 'b until_op \<Rightarrow> dyn_action" where
  "until_result ec op =
     CallReadHandler (if search_position op = size_max then NotFound else ec)
       (if ec \<noteq> NoError \<or> search_position op = size_max then 0 else search_position op)"

definition until_call ::
    "'b dynamic_ops \<Rightarrow> 'b version \<Rightarrow> (bytes \<Rightarrow> nat \<Rightarrow> search_result)
     \<Rightarrow> bool \<Rightarrow> ecode \<Rightarrow> nat \<Rightarrow> int \<Rightarrow> 'b until_op \<Rightarrow> fault + ('b until_op \<times> dyn_action)" where
  "until_call ops v search cancelled ec bytes_transferred start op =
     (let op = op\<lparr>un_start := start\<rparr>
      in if start = 1 then until_next v (until_search ops v search op)
         else
           and_then (vr_cut v (un_bytes_to_read op) bytes_transferred (un_buffers op)) (\<lambda>b.
             let op = op\<lparr>un_buffers := b\<rparr>
             in if ec \<noteq> NoError \<or> bytes_transferred = 0 then Inr (op, until_result ec op)
                else if cancelled then Inr (op, until_result OperationAborted op)
                else
                  let op = until_search ops v search op
                  in if un_bytes_to_read op = 0 then Inr (op, until_result ec op)
                     else until_next v op))"

text \<open>The operation driven by what the stream delivers, as in \<open>DynRead\<close>.\<close>

fun until_run ::
    "'b dynamic_ops
     \<Rightarrow> (bool \<Rightarrow> ecode \<Rightarrow> nat \<Rightarrow> int \<Rightarrow> 'b until_op \<Rightarrow> fault + ('b until_op \<times> dyn_action))
     \<Rightarrow> fault + ('b until_op \<times> dyn_action) \<Rightarrow> delivery list
     \<Rightarrow> fault + ('b \<times> bytes \<times> (ecode \<times> nat) option)" where
  "until_run ops call (Inl e) ds = Inl e"
| "until_run ops call (Inr (op, CallReadHandler ec n)) ds = Inr (un_buffers op, [], Some (ec, n))"
| "until_run ops call (Inr (op, ReadSome buf)) [] = Inr (un_buffers op, [], None)"
| "until_run ops call (Inr (op, ReadSome buf)) ((bs, ec, cancelled) # ds) =
     (let bs = take (bsize buf) bs
      in and_then (until_run ops call
             (call cancelled ec (length bs) 0 (op\<lparr>un_buffers := op_fill ops buf bs (un_buffers op)\<rparr>)) ds)
           (\<lambda>(b, received, result). Inr (b, bs @ received, result)))"

definition async_until ::
    "'b dynamic_ops \<Rightarrow> 'b version \<Rightarrow> (bytes \<Rightarrow> nat \<Rightarrow> search_result) \<Rightarrow> 'b \<Rightarrow> delivery list
     \<Rightarrow> fault + ('b \<times> bytes \<times> (ecode \<times> nat) option)" where
  "async_until ops v search b ds =
     until_run ops (until_call ops v search) (until_call ops v search False NoError 0 1 (new_until_op b)) ds"

definition async_read_until_char_v1 where
  "async_read_until_char_v1 ops data storage delim b ds =
     async_until ops (version1 ops data storage) (search_char delim) b ds"

definition async_read_until_string_v1 where
  "async_read_until_string_v1 ops data storage delim b ds =
     async_until ops (version1 ops data storage) (search_string delim) b ds"

definition async_read_until_match_v1 where
  "async_read_until_match_v1 ops data storage match_condition b ds =
     async_until ops (version1 ops data storage) (search_match match_condition) b ds"

definition async_read_until_regex_v1 where
  "async_read_until_regex_v1 ops data storage regex_search b ds =
     async_until ops (version1 ops data storage) (search_regex regex_search) b ds"

definition async_read_until_char_v2 where
  "async_read_until_char_v2 ops storage delim b ds =
     async_until ops (version2 ops storage) (search_char delim) b ds"

definition async_read_until_string_v2 where
  "async_read_until_string_v2 ops storage delim b ds =
     async_until ops (version2 ops storage) (search_string delim) b ds"

definition async_read_until_match_v2 where
  "async_read_until_match_v2 ops storage match_condition b ds =
     async_until ops (version2 ops storage) (search_match match_condition) b ds"

definition async_read_until_regex_v2 where
  "async_read_until_regex_v2 ops storage regex_search b ds =
     async_until ops (version2 ops storage) (search_regex regex_search) b ds"

end
