(* ===== verification/ReadUntilProperties.thy ===== *)
theory ReadUntilProperties
  imports ReadUntil
begin

text \<open>
  What reading until a delimiter promises: the number returned is where the first delimiter in the buffer
  ends, although each byte is searched a bounded number of times only and a delimiter may arrive in pieces.

  The locale \<open>searcher\<close> is what the loops rely on of a search, and is interpreted for a character and for a
  string; the locale \<open>growing\<close> what they rely on of a version of the buffer, interpreted for both versions of the
  string and of the vector.
\<close>

section \<open>Searches\<close>

text \<open>\<open>starts data j\<close>: a match, of \<open>len\<close> bytes, starts at \<open>j\<close>. The first one ends at \<open>n\<close>.\<close>

definition first_end :: "nat \<Rightarrow> (bytes \<Rightarrow> nat \<Rightarrow> bool) \<Rightarrow> bytes \<Rightarrow> nat \<Rightarrow> bool" where
  "first_end len starts data n \<longleftrightarrow>
     (\<exists>j. n = j + len \<and> n \<le> length data \<and> starts data j \<and> (\<forall>i < j. \<not> starts data i))"

text \<open>
  How an operation ends, with the buffer holding \<open>data\<close> and \<open>mx\<close> its maximum: without an error at the end of
  the first match, and with \<open>NotFound\<close>, unless that is an error of the stream, when the buffer is full and has
  no match.
\<close>

definition until_done :: "nat \<Rightarrow> (bytes \<Rightarrow> nat \<Rightarrow> bool) \<Rightarrow> ecode set \<Rightarrow> bytes \<Rightarrow> nat \<Rightarrow> ecode \<Rightarrow> nat \<Rightarrow> bool" where
  "until_done len starts errors data mx ec n \<longleftrightarrow> length data \<le> mx
     \<and> (ec = NoError \<longrightarrow> first_end len starts data n) \<and> (ec \<noteq> NoError \<longrightarrow> n = 0)
     \<and> (ec = NotFound \<longrightarrow> NotFound \<in> errors \<or> length data = mx \<and> (\<forall>i. \<not> starts data i))"

text \<open>No match starts before \<open>pos\<close>, whatever follows.\<close>

definition searched :: "(bytes \<Rightarrow> nat \<Rightarrow> bool) \<Rightarrow> nat \<Rightarrow> bytes \<Rightarrow> bool" where
  "searched starts pos data \<longleftrightarrow> pos \<le> length data \<and> (\<forall>i ext. i < pos \<longrightarrow> \<not> starts (data @ ext) i)"

lemma searched_append: "searched starts pos data \<Longrightarrow> searched starts pos (data @ ext)"
  by (auto simp: searched_def)

lemma searched_0: "searched starts 0 data"
  by (simp add: searched_def)

locale searcher =
  fixes srch :: "bytes \<Rightarrow> nat \<Rightarrow> search_result"
    and len :: nat
    and starts :: "bytes \<Rightarrow> nat \<Rightarrow> bool"
  assumes found: "pos \<le> length data \<Longrightarrow> srch data pos = Found n \<Longrightarrow>
      \<exists>j. n = j + len \<and> n \<le> length data \<and> starts data j \<and> (\<forall>i. pos \<le> i \<and> i < j \<longrightarrow> \<not> starts data i)"
    and resume: "pos \<le> length data \<Longrightarrow> srch data pos = Resume p \<Longrightarrow> p \<le> length data
      \<and> (\<forall>i ext. pos \<le> i \<and> i < p \<longrightarrow> \<not> starts (data @ ext) i) \<and> (\<forall>i. pos \<le> i \<longrightarrow> \<not> starts data i)"
begin

lemma search_found:
  assumes "searched starts pos data" "srch data pos = Found n"
  shows "first_end len starts data n" "n \<le> length data"
proof -
  have before: "\<not> starts data i" if "i < pos" for i
    using assms(1) that unfolding searched_def by (metis append_Nil2)
  obtain j where j: "n = j + len" "n \<le> length data" "starts data j" "\<forall>i. pos \<le> i \<and> i < j \<longrightarrow> \<not> starts data i"
    using found [of pos data n] assms by (auto simp: searched_def)
  then have "\<forall>i < j. \<not> starts data i" using before by (meson not_le)
  then show "first_end len starts data n" "n \<le> length data" using j by (auto simp: first_end_def)
qed

lemma search_resume:
  assumes "searched starts pos data" "srch data pos = Resume p"
  shows "searched starts p data" "\<forall>i. \<not> starts data i"
proof -
  have before: "\<not> starts (data @ ext) i" if "i < pos" for i ext
    using assms(1) that by (simp add: searched_def)
  have r: "p \<le> length data" "\<And>i ext. pos \<le> i \<Longrightarrow> i < p \<Longrightarrow> \<not> starts (data @ ext) i" "\<And>i. pos \<le> i \<Longrightarrow> \<not> starts data i"
    using resume [of pos data p] assms by (auto simp: searched_def)
  show "searched starts p data" using r(1,2) before by (auto simp: searched_def) (metis not_le)
  show "\<forall>i. \<not> starts data i" using r(3) before [of _ "[]"] by (metis append_Nil2 not_le)
qed

end

text \<open>The comparison from one position, and the search over all.\<close>

lemma compare_seq_full: "compare_seq xs ds adv = FullMatch \<longleftrightarrow> prefix ds xs"
  by (induction xs ds adv rule: compare_seq.induct) auto

lemma compare_seq_partial: "compare_seq xs ds adv = PartialMatch \<Longrightarrow> length xs < length ds"
  by (induction xs ds adv rule: compare_seq.induct) (auto split: if_splits)

lemma compare_seq_mismatch:
  "compare_seq xs ds adv = Mismatch \<Longrightarrow> adv \<or> xs \<noteq> [] \<Longrightarrow> \<not> prefix ds (xs @ ext)"
  by (induction xs ds adv rule: compare_seq.induct) (auto split: if_splits)

lemma search_from_spec:
  assumes "delim \<noteq> []" and "search_from i xs delim = (j, full)"
  shows "i \<le> j \<and> j \<le> i + length xs \<and> (\<forall>k ext. k < j - i \<longrightarrow> \<not> prefix delim (drop k xs @ ext))
    \<and> (if full then prefix delim (drop (j - i) xs) \<and> j < i + length xs else \<forall>k. \<not> prefix delim (drop k xs))"
  using assms(2)
proof (induction xs arbitrary: i)
  case Nil
  then show ?case using assms(1) by auto
next
  case (Cons x xs)
  show ?case
  proof (cases "compare_seq (x # xs) delim False")
    case FullMatch
    then show ?thesis using Cons.prems compare_seq_full [of "x # xs" delim False] by auto
  next
    case PartialMatch
    then have len: "length (x # xs) < length delim" by (rule compare_seq_partial)
    have "\<not> prefix delim (drop k (x # xs))" for k
      using len prefix_length_le [of delim "drop k (x # xs)"] by auto
    then show ?thesis using Cons.prems PartialMatch by auto
  next
    case Mismatch
    then have step: "search_from (i + 1) xs delim = (j, full)" using Cons.prems by simp
    note IH = Cons.IH [OF step]
    have here: "\<not> prefix delim ((x # xs) @ ext)" for ext
      using compare_seq_mismatch [OF Mismatch] by simp
    have "i + 1 \<le> j" using IH by blast
    then have ij: "j - i = Suc (j - (i + 1))" by simp
    have "\<not> prefix delim (drop k (x # xs) @ ext)" if "k < j - i" for k ext
      using that here IH ij by (cases k) auto
    moreover have "\<not> prefix delim (drop k (x # xs))" if "\<not> full" for k
      using that here [of "[]"] IH by (cases k) auto
    ultimately show ?thesis using IH ij by auto
  qed
qed




lemma string_searches:
  assumes "delim \<noteq> []"
  shows "searcher (search_string delim) (length delim) (\<lambda>data i. prefix delim (drop i data))"
proof
  fix pos n :: nat and data :: bytes
  assume pos: "pos \<le> length data" and r: "search_string delim data pos = Found n"
  obtain j full where s: "search_from pos (drop pos data) delim = (j, full)" by fastforce
  note sp = search_from_spec [OF assms s]
  have f: "full" "n = j + length delim" using r s
    by (auto simp: search_string_def partial_search_def split: if_splits)
  have "\<not> prefix delim (drop i data)" if "pos \<le> i" "i < j" for i
    using sp that by (auto dest!: spec [of _ "i - pos"] spec [of _ "[]"])
  moreover have m: "prefix delim (drop j data)" using sp f(1) by auto
  moreover have "n \<le> length data" using prefix_length_le [OF m] sp f pos by auto
  ultimately show "\<exists>j. n = j + length delim \<and> n \<le> length data \<and> prefix delim (drop j data)
      \<and> (\<forall>i. pos \<le> i \<and> i < j \<longrightarrow> \<not> prefix delim (drop i data))"
    using f(2) by blast
next
  fix pos p :: nat and data :: bytes
  assume pos: "pos \<le> length data" and r: "search_string delim data pos = Resume p"
  obtain j full where s: "search_from pos (drop pos data) delim = (j, full)" by fastforce
  note sp = search_from_spec [OF assms s]
  have f: "\<not> full" "p = j" using r s sp pos
    by (auto simp: search_string_def partial_search_def split: if_splits)
  have "\<not> prefix delim (drop i (data @ ext))" if "pos \<le> i" "i < p" for i ext
    using sp f that pos by (auto dest!: spec [of _ "i - pos"] spec [of _ ext])
  moreover have "\<not> prefix delim (drop i data)" if "pos \<le> i" for i
    using sp f that by (auto dest!: spec [of _ "i - pos"])
  ultimately show "p \<le> length data \<and> (\<forall>i ext. pos \<le> i \<and> i < p \<longrightarrow> \<not> prefix delim (drop i (data @ ext)))
      \<and> (\<forall>i. pos \<le> i \<longrightarrow> \<not> prefix delim (drop i data))"
    using sp f pos by auto
qed

interpretation string_search: searcher "search_string (d # ds)" "length (d # ds)" "\<lambda>data i. prefix (d # ds) (drop i data)"
  by (rule string_searches) simp


section \<open>Buffers\<close>

text \<open>
  No buffer gets as large as the largest number, which \<^verbatim>\<open>size_\<close> keeps as a mark: its maximum is smaller, or
  what it holds and all that the stream delivers leave room for one more read of 65536 bytes. The second
  is the case of the buffers made without a maximum, whose maximum is that number.
\<close>

definition fits :: "nat \<Rightarrow> bytes \<Rightarrow> bytes list \<Rightarrow> bool" where
  "fits mx data pieces \<longleftrightarrow>
     mx < size_max \<or> length data + length (concat pieces) + 65536 < size_max"

lemma fits_size: "fits mx data pieces \<Longrightarrow> length data \<le> mx \<Longrightarrow> length data < size_max"
  by (auto simp: fits_def)

lemma fits_append:
  "fits mx data (bs0 # pieces) \<Longrightarrow> length bs \<le> length bs0 \<Longrightarrow> fits mx (data @ bs) pieces"
  by (auto simp: fits_def)

lemma fits_room:
  "fits mx data pieces \<Longrightarrow> length data \<le> mx \<Longrightarrow> n \<le> mx - length data \<Longrightarrow> n \<le> 65536 \<Longrightarrow>
   length data + n < size_max"
  by (auto simp: fits_def)

locale growing = dynamic_buffer +
  fixes v :: "'a version"
  assumes room_cut: "ok b \<Longrightarrow> n \<le> op_max_size ops b - op_size ops b \<Longrightarrow> op_size ops b + n < size_max \<Longrightarrow>
      \<exists>b1 buf. vr_room v n b = Inr (b1, buf) \<and> bsize buf = n
        \<and> (\<forall>bs. length bs \<le> n \<longrightarrow> (\<exists>b2. vr_cut v n (length bs) (op_fill ops buf bs b1) = Inr b2
            \<and> ok b2 \<and> contents b2 = contents b @ bs \<and> op_max_size ops b2 = op_max_size ops b))"
    and data_contents: "ok b \<Longrightarrow> vr_data v b = contents b"
begin

lemma full_size: "ok b \<Longrightarrow> op_size ops b = op_max_size ops b \<longleftrightarrow> length (contents b) = op_max_size ops b"
  by (simp add: size_contents)

lemma read_size:
  assumes "ok b"
  shows "bytes_to_read ops b \<le> op_max_size ops b - op_size ops b" "bytes_to_read ops b \<le> 65536"
    "fits (op_max_size ops b) (contents b) ps \<Longrightarrow> op_size ops b + bytes_to_read ops b < size_max"
    "op_size ops b \<noteq> op_max_size ops b \<Longrightarrow> 0 < bytes_to_read ops b"
proof -
  show le: "bytes_to_read ops b \<le> op_max_size ops b - op_size ops b" and b: "bytes_to_read ops b \<le> 65536"
    by (simp_all add: bytes_to_read_def)
  have size: "op_size ops b = length (contents b)" "length (contents b) \<le> op_max_size ops b"
    using size_contents [OF assms(1)] size_max_size [OF assms(1)] by simp_all
  show "fits (op_max_size ops b) (contents b) ps \<Longrightarrow> op_size ops b + bytes_to_read ops b < size_max"
    using fits_room [OF _ size(2)] le b size(1) by simp
  show "op_size ops b \<noteq> op_max_size ops b \<Longrightarrow> 0 < bytes_to_read ops b"
    using size by (simp add: bytes_to_read_def)
qed

text \<open>One round of a synchronous operation, from a stream that delivers \<open>bs0\<close> and \<open>ec\<close>.\<close>

lemma read_more_spec:
  assumes "ok b" "fits (op_max_size ops b) (contents b) ps" and "read_some s (bytes_to_read ops b) = (s', bs, ec)"
    and "length bs \<le> bytes_to_read ops b"
  shows "\<exists>b'. read_more read_some ops v (bytes_to_read ops b) b s = Inr (b', s', ec) \<and> ok b'
    \<and> contents b' = contents b @ bs \<and> op_max_size ops b' = op_max_size ops b"
proof -
  obtain b1 buf where r: "vr_room v (bytes_to_read ops b) b = Inr (b1, buf)" "bsize buf = bytes_to_read ops b"
    and c: "\<forall>bs. length bs \<le> bytes_to_read ops b \<longrightarrow> (\<exists>b2. vr_cut v (bytes_to_read ops b) (length bs) (op_fill ops buf bs b1) = Inr b2
            \<and> ok b2 \<and> contents b2 = contents b @ bs \<and> op_max_size ops b2 = op_max_size ops b)"
    using room_cut [OF assms(1) read_size(1) [OF assms(1)] read_size(3) [OF assms(1,2)]] by blast
  from c assms(4) obtain b2 where "vr_cut v (bytes_to_read ops b) (length bs) (op_fill ops buf bs b1) = Inr b2"
      "ok b2" "contents b2 = contents b @ bs" "op_max_size ops b2 = op_max_size ops b"
    by blast
  then show ?thesis using r assms(3) by (simp add: read_more_def)
qed

lemma read_until_returns:
  assumes s: "searcher srch len starts" and "ok b"
    and "fits (op_max_size ops b) (contents b) (map fst rs)" and "searched starts pos (contents b)"
  shows "\<exists>b' rs' new n ec. read_until_loop script_read ops v srch pos b (rs, log) = Some (Inr (b', (rs', log @ new), n, ec))
    \<and> contents b' = contents b @ new \<and> until_done len starts (snd ` set rs) (contents b') (op_max_size ops b) ec n"
  using assms(2-)
proof (induction rs arbitrary: b pos log)
  case Nil
  note data = data_contents [OF Nil(1)] and le = size_max_size [OF Nil(1)]
  show ?case
  proof (cases "srch (contents b) pos")
    case (Found n)
    then show ?thesis
      using searcher.search_found [OF s Nil(3) Found] le by (subst read_until_loop.simps) (simp add: data until_done_def)
  next
    case (Resume p)
    note r = searcher.search_resume [OF s Nil(3) Resume]
    obtain b' where "read_more script_read ops v (bytes_to_read ops b) b ([], log) = Inr (b', ([], log), EndOfFile)"
        "ok b'" "contents b' = contents b" "op_max_size ops b' = op_max_size ops b"
      using read_more_spec [OF Nil(1,2), of script_read "([], log)" "([], log)" "[]" EndOfFile] by auto
    then show ?thesis
      using r le Resume full_size [OF Nil(1)] by (subst read_until_loop.simps) (auto simp: data until_done_def)
  qed
next
  case (Cons d rs)
  obtain bs0 ec where d: "d = (bs0, ec)" by (cases d)
  note data = data_contents [OF Cons.prems(1)] and le = size_max_size [OF Cons.prems(1)]
  show ?case
  proof (cases "srch (contents b) pos")
    case (Found n)
    then show ?thesis
      using searcher.search_found [OF s Cons.prems(3) Found] le by (subst read_until_loop.simps) (simp add: data until_done_def)
  next
    case (Resume p)
    note r = searcher.search_resume [OF s Cons.prems(3) Resume]
    let ?bs = "take (bytes_to_read ops b) bs0"
    obtain b' where b': "read_more script_read ops v (bytes_to_read ops b) b (d # rs, log) = Inr (b', (rs, log @ ?bs), ec)"
        "ok b'" "contents b' = contents b @ ?bs" "op_max_size ops b' = op_max_size ops b"
      using read_more_spec [OF Cons.prems(1,2), of script_read "(d # rs, log)" "(rs, log @ ?bs)" ?bs ec] d by auto
    show ?thesis
    proof (cases "op_size ops b = op_max_size ops b \<or> ec \<noteq> NoError")
      case True
      then show ?thesis
        using r le Resume full_size [OF Cons.prems(1)] b' size_max_size [OF b'(2)] d
        by (subst read_until_loop.simps) (auto simp: data until_done_def)
    next
      case False
      have step: "read_until_loop script_read ops v srch pos b (d # rs, log) = read_until_loop script_read ops v srch p b' (rs, log @ ?bs)"
        using False Resume b'(1) by (subst read_until_loop.simps) (simp add: data)
      have "searched starts p (contents b')" "fits (op_max_size ops b') (contents b') (map fst rs)"
        using searched_append [OF r(1)] b'(3,4) fits_append [of _ "contents b" bs0 "map fst rs" ?bs] Cons.prems(2) d
        by simp_all
      from Cons.IH [OF b'(2) this(2,1), of "log @ ?bs"] obtain b2 rs' new n ec' where
        ih: "read_until_loop script_read ops v srch p b' (rs, log @ ?bs) = Some (Inr (b2, (rs', (log @ ?bs) @ new), n, ec'))"
        and ih': "contents b2 = contents b' @ new" "until_done len starts (snd ` set rs) (contents b2) (op_max_size ops b') ec' n"
        by blast
      show ?thesis
        unfolding step ih using ih' b'(3,4)
        by (intro exI [of _ b2] exI [of _ rs'] exI [of _ "?bs @ new"] exI [of _ n] exI [of _ ec']) (auto simp: until_done_def)
    qed
  qed
qed

text \<open>
  The asynchronous operation is searching, with a read in flight, or it has found a match, or found the buffer
  full; in the last two cases the read in flight, if there is one, is of no bytes.
\<close>

definition until_inv :: "nat \<Rightarrow> (bytes \<Rightarrow> nat \<Rightarrow> bool) \<Rightarrow> bytes list \<Rightarrow> 'a until_op \<Rightarrow> bool" where
  "until_inv len starts ps op \<longleftrightarrow>
     (let b = un_buffers op; n = un_bytes_to_read op; pos = search_position op
      in ok b \<and> fits (op_max_size ops b) (contents b) ps \<and> n \<le> 65536
         \<and> (0 < n \<and> n \<le> op_max_size ops b - op_size ops b \<and> searched starts pos (contents b)
            \<or> n = 0 \<and> pos \<noteq> size_max \<and> first_end len starts (contents b) pos
            \<or> n = 0 \<and> pos = size_max \<and> length (contents b) = op_max_size ops b \<and> (\<forall>i. \<not> starts (contents b) i)))"

lemma until_search_inv:
  assumes s: "searcher srch len starts" and "ok (un_buffers op)"
    "fits (op_max_size ops (un_buffers op)) (contents (un_buffers op)) ps"
    and "searched starts (search_position op) (contents (un_buffers op))"
  shows "until_inv len starts ps (until_search ops v srch op)" "un_buffers (until_search ops v srch op) = un_buffers op"
proof -
  let ?b = "un_buffers op"
  note data = data_contents [OF assms(2)] and rs = read_size [OF assms(2)]
  have "length (contents ?b) < size_max" using fits_size [OF assms(3)] size_max_size [OF assms(2)] by simp
  then show "until_inv len starts ps (until_search ops v srch op)"
    using searcher.search_found [OF s assms(4)] searcher.search_resume [OF s assms(4)] rs(1,2,4) assms(2,3) full_size [OF assms(2)]
    by (cases "srch (contents ?b) (search_position op)") (auto simp: until_search_def Let_def data until_inv_def)
  show "un_buffers (until_search ops v srch op) = ?b"
    by (simp add: until_search_def Let_def split: search_result.split)
qed

text \<open>One result of the stream: the operation ends or goes on with another read.\<close>

lemma until_round:
  assumes s: "searcher srch len starts" and inv: "until_inv len starts (bs0 # ps) op"
    and bs: "length bs \<le> un_bytes_to_read op" "length bs \<le> length bs0" "ec = NoError \<longrightarrow> un_bytes_to_read op = 0 \<or> bs \<noteq> []"
  shows "\<exists>b1 buf op2. until_next v op = Inr (op\<lparr>un_buffers := b1\<rparr>, ReadSome buf) \<and> bsize buf = un_bytes_to_read op
    \<and> contents (un_buffers op2) = contents (un_buffers op) @ bs
    \<and> op_max_size ops (un_buffers op2) = op_max_size ops (un_buffers op)
    \<and> (let r = until_call ops v srch cancelled ec (length bs) 0 (op\<lparr>un_buffers := op_fill ops buf bs b1\<rparr>)
       in (\<exists>ec' n. r = Inr (op2, CallReadHandler ec' n)
            \<and> until_done len starts {ec} (contents (un_buffers op) @ bs) (op_max_size ops (un_buffers op)) ec' n)
         \<or> r = until_next v op2 \<and> until_inv len starts ps op2)"
proof -
  let ?b = "un_buffers op" and ?n = "un_bytes_to_read op"
  have ok: "ok ?b" "fits (op_max_size ops ?b) (contents ?b) (bs0 # ps)" "?n \<le> 65536"
    using inv by (auto simp: until_inv_def Let_def)
  note fits' = fits_append [OF ok(2) bs(2)]
  have room: "?n \<le> op_max_size ops ?b - op_size ops ?b" using inv by (auto simp: until_inv_def Let_def)
  moreover have "op_size ops ?b + ?n < size_max"
    using fits_room [OF ok(2) size_max_size [OF ok(1)] _ ok(3)] room size_contents [OF ok(1)] by simp
  ultimately obtain b1 buf where r: "vr_room v ?n ?b = Inr (b1, buf)" "bsize buf = ?n"
    and c: "\<forall>bs. length bs \<le> ?n \<longrightarrow> (\<exists>b2. vr_cut v ?n (length bs) (op_fill ops buf bs b1) = Inr b2
            \<and> ok b2 \<and> contents b2 = contents ?b @ bs \<and> op_max_size ops b2 = op_max_size ops ?b)"
    using room_cut [OF ok(1)] by blast
  from c bs(1) obtain b2 where b2: "vr_cut v ?n (length bs) (op_fill ops buf bs b1) = Inr b2"
      "ok b2" "contents b2 = contents ?b @ bs" "op_max_size ops b2 = op_max_size ops ?b"
    by blast
  have len: "length (contents b2) \<le> op_max_size ops ?b" using size_max_size [OF b2(2)] b2(4) by simp
  define op1 where "op1 = op\<lparr>un_start := 0, un_buffers := b2\<rparr>"
  have op1: "un_buffers op1 = b2" "search_position op1 = search_position op" "un_bytes_to_read op1 = ?n"
    by (simp_all add: op1_def)
  let ?call = "until_call ops v srch cancelled ec (length bs) 0 (op\<lparr>un_buffers := op_fill ops buf bs b1\<rparr>)"
  have next_op: "until_next v op = Inr (op\<lparr>un_buffers := b1\<rparr>, ReadSome buf)"
    using r by (simp add: until_next_def)
  have call: "?call = (if ec \<noteq> NoError \<or> bs = [] then Inr (op1, until_result ec op1)
      else if cancelled then Inr (op1, until_result OperationAborted op1)
      else let op2 = until_search ops v srch op1
           in if un_bytes_to_read op2 = 0 then Inr (op2, until_result ec op2) else until_next v op2)"
    using b2(1) by (simp add: until_call_def op1_def Let_def)
  show ?thesis
  proof (cases "ec \<noteq> NoError \<or> bs = [] \<or> cancelled")
    case True
    have "search_position op \<noteq> size_max" if "0 < ?n"
      using inv that fits_size [OF ok(2) size_max_size [OF ok(1)]]
      by (auto simp: until_inv_def Let_def searched_def)
    then have "\<exists>ec' n. ?call = Inr (op1, CallReadHandler ec' n)
        \<and> until_done len starts {ec} (contents ?b @ bs) (op_max_size ops ?b) ec' n"
      using True inv b2 bs len unfolding call
      by (auto simp: until_result_def op1 until_done_def until_inv_def Let_def)
    then show ?thesis
      using next_op r(2) b2 op1(1) by (intro exI [of _ b1] exI [of _ buf] exI [of _ op1]) (simp add: Let_def)
  next
    case False
    then have sr: "searched starts (search_position op) (contents ?b)"
      using inv bs by (auto simp: until_inv_def Let_def)
    define op2 where "op2 = until_search ops v srch op1"
    have "searched starts (search_position op1) (contents (un_buffers op1))"
      using searched_append [OF sr] b2(3) op1 by simp
    from until_search_inv [OF s _ _ this, of ps] have op2: "until_inv len starts ps op2" "un_buffers op2 = b2"
      using b2 fits' op1(1) by (simp_all add: op2_def)
    have "(\<exists>ec' n. ?call = Inr (op2, CallReadHandler ec' n)
          \<and> until_done len starts {ec} (contents ?b @ bs) (op_max_size ops ?b) ec' n)
        \<or> ?call = until_next v op2 \<and> until_inv len starts ps op2"
      using False op2 b2 len unfolding call
      by (auto simp: Let_def until_result_def until_done_def until_inv_def simp flip: op2_def)
    then show ?thesis
      using next_op r(2) b2 op2(2) by (intro exI [of _ b1] exI [of _ buf] exI [of _ op2]) (simp add: Let_def)
  qed
qed

lemma until_run_spec:
  assumes s: "searcher srch len starts" and "until_inv len starts (map fst ds) op"
    and "\<forall>(bs, ec, c) \<in> set ds. ec = NoError \<longrightarrow> bs \<noteq> []"
  shows "\<exists>b' received result. until_run ops (until_call ops v srch) (until_next v op) ds = Inr (b', received, result)
    \<and> (\<forall>ec n. result = Some (ec, n) \<longrightarrow> contents b' = contents (un_buffers op) @ received
      \<and> until_done len starts ((fst \<circ> snd) ` set ds) (contents b') (op_max_size ops (un_buffers op)) ec n)"
  using assms(2,3)
proof (induction ds arbitrary: op)
  case Nil
  have "until_inv len starts ([] # []) op" using Nil(1) by (simp add: until_inv_def fits_def)
  from until_round [OF s this, where bs = "[]" and ec = EndOfFile and cancelled = False] obtain b1 buf where
    "until_next v op = Inr (op\<lparr>un_buffers := b1\<rparr>, ReadSome buf)" by auto
  then show ?case by simp
next
  case (Cons d ds)
  obtain bs0 ec cancelled where d: "d = (bs0, ec, cancelled)" by (cases d)
  define bs where "bs = take (un_bytes_to_read op) bs0"
  have "until_inv len starts (bs0 # map fst ds) op" using Cons.prems(1) by (simp add: d)
  moreover have "length bs \<le> un_bytes_to_read op" "length bs \<le> length bs0" "ec = NoError \<longrightarrow> un_bytes_to_read op = 0 \<or> bs \<noteq> []"
    using Cons.prems(2) by (auto simp: bs_def d)
  ultimately obtain b1 buf op2 where
    n: "until_next v op = Inr (op\<lparr>un_buffers := b1\<rparr>, ReadSome buf)" "bsize buf = un_bytes_to_read op"
    and op2: "contents (un_buffers op2) = contents (un_buffers op) @ bs" "op_max_size ops (un_buffers op2) = op_max_size ops (un_buffers op)"
    and call: "let r = until_call ops v srch cancelled ec (length bs) 0 (op\<lparr>un_buffers := op_fill ops buf bs b1\<rparr>)
       in (\<exists>ec' n. r = Inr (op2, CallReadHandler ec' n)
            \<and> until_done len starts {ec} (contents (un_buffers op) @ bs) (op_max_size ops (un_buffers op)) ec' n)
         \<or> r = until_next v op2 \<and> until_inv len starts (map fst ds) op2"
    using until_round [OF s, of bs0 "map fst ds" op bs ec cancelled] by blast
  let ?r = "until_call ops v srch cancelled ec (length bs) 0 (op\<lparr>un_buffers := op_fill ops buf bs b1\<rparr>)"
  have step: "until_run ops (until_call ops v srch) (until_next v op) (d # ds) =
      and_then (until_run ops (until_call ops v srch) ?r ds) (\<lambda>(b, received, result). Inr (b, bs @ received, result))"
    by (simp add: n d bs_def [symmetric])
  from call consider (ends) ec' n where "?r = Inr (op2, CallReadHandler ec' n)"
      "until_done len starts {ec} (contents (un_buffers op) @ bs) (op_max_size ops (un_buffers op)) ec' n"
    | (goes_on) "?r = until_next v op2" "until_inv len starts (map fst ds) op2"
    unfolding Let_def by blast
  then show ?case
  proof cases
    case ends
    then show ?thesis unfolding step ends(1) using op2(1) by (auto simp: until_done_def d)
  next
    case goes_on
    show ?thesis
      unfolding step goes_on(1) using Cons.IH [OF goes_on(2)] Cons.prems(2) op2
      by (auto simp: until_done_def)
  qed
qed

lemma async_until_spec:
  assumes s: "searcher srch len starts" and "ok b" and "fits (op_max_size ops b) (contents b) (map fst ds)"
    and "\<forall>(bs, ec, c) \<in> set ds. ec = NoError \<longrightarrow> bs \<noteq> []"
  shows "\<exists>b' received result. async_until ops v srch b ds = Inr (b', received, result)
    \<and> (\<forall>ec n. result = Some (ec, n) \<longrightarrow>
        contents b' = contents b @ received \<and> until_done len starts ((fst \<circ> snd) ` set ds) (contents b') (op_max_size ops b) ec n)"
proof -
  let ?op = "(new_until_op b)\<lparr>un_start := 1\<rparr>"
  have "until_inv len starts (map fst ds) (until_search ops v srch ?op)" "un_buffers (until_search ops v srch ?op) = b"
    using until_search_inv [OF s, of ?op "map fst ds"] assms(2,3) searched_0 by (simp_all add: new_until_op_def)
  from until_run_spec [OF s this(1) assms(4)] this(2) show ?thesis
    by (simp add: async_until_def until_call_def new_until_op_def)
qed

end

section \<open>The strings and vectors of the code\<close>

abbreviation string_bytes :: "dynamic_string_buffer \<Rightarrow> bytes" where
  "string_bytes d \<equiv> elems (ds_string d)"


lemma string_data:
  "ds_ok_v1 d \<Longrightarrow> elems_at (ds_data d) (string_bytes d) = string_bytes d"
  "ds_ok d \<Longrightarrow> elems_at (ds_data_at d 0 (ds_size d)) (string_bytes d) = string_bytes d"
  by (auto simp: dynamic elems_at_def ds_data_def buffer_string_max_def buffers)


context dynamic_v1
begin

lemma growing_v1:
  assumes "\<And>b. ok b \<Longrightarrow> elems_at (data b) (storage b) = contents b"
  shows "growing ops contents ok (version1 ops data storage)"
  using assms prepare_commit by unfold_locales (simp_all add: version1_def)

end

context dynamic_v2
begin

lemma growing_v2:
  assumes "\<And>b. ok b \<Longrightarrow> elems_at (op_data_at ops b 0 (op_size ops b)) (storage b) = contents b"
  shows "growing ops contents ok (version2 ops storage)"
proof
  fix b n
  assume "ok b" "n \<le> op_max_size ops b - op_size ops b" "op_size ops b + n < size_max"
  from grow_shrink [OF this] obtain b1 where "op_grow ops n b = Inr b1" "bsize (op_data_at ops b1 (op_size ops b) n) = n"
    "\<forall>bs. length bs \<le> n \<longrightarrow> (\<exists>b2.
            op_shrink ops (n - length bs) (op_fill ops (op_data_at ops b1 (op_size ops b) n) bs b1) = Inr b2
            \<and> ok b2 \<and> contents b2 = contents b @ bs \<and> op_max_size ops b2 = op_max_size ops b)"
    by blast
  then show "\<exists>b1 buf. vr_room (version2 ops storage) n b = Inr (b1, buf) \<and> bsize buf = n
        \<and> (\<forall>bs. length bs \<le> n \<longrightarrow> (\<exists>b2. vr_cut (version2 ops storage) n (length bs) (op_fill ops buf bs b1) = Inr b2
            \<and> ok b2 \<and> contents b2 = contents b @ bs \<and> op_max_size ops b2 = op_max_size ops b))"
    by (simp add: version2_def)
qed (use assms in \<open>simp_all add: version2_def\<close>)

end


interpretation string_until_v2: growing "string_ops policy" string_bytes ds_ok "version2 (string_ops policy) string_bytes"
  by (rule string_v2.growing_v2) (simp add: string_ops_def string_data)



section \<open>Properties\<close>

text \<open>
  The outcome of a synchronous operation on a stream that has delivered \<open>received\<close> when it ends, and of an
  asynchronous one, if the stream has answered often enough for it to end.
\<close>

definition starts_at :: "bytes \<Rightarrow> bytes \<Rightarrow> nat \<Rightarrow> bool" where
  "starts_at delim data i \<longleftrightarrow> prefix delim (drop i data)"

definition sync_until_ok ::
    "bytes \<Rightarrow> ('b \<Rightarrow> bytes) \<Rightarrow> nat \<Rightarrow> 'b \<Rightarrow> (bytes \<times> ecode) list \<Rightarrow> ('b, script) read_outcome option \<Rightarrow> bool" where
  "sync_until_ok delim contents mx b script outcome \<longleftrightarrow>
     (\<exists>b' rest received n ec. outcome = Some (Inr (b', (rest, received), n, ec))
        \<and> contents b' = contents b @ received
        \<and> until_done (length delim) (starts_at delim) (snd ` set script) (contents b') mx ec n)"

definition async_until_ok ::
    "bytes \<Rightarrow> ('b \<Rightarrow> bytes) \<Rightarrow> nat \<Rightarrow> 'b \<Rightarrow> delivery list \<Rightarrow> fault + ('b \<times> bytes \<times> (ecode \<times> nat) option) \<Rightarrow> bool" where
  "async_until_ok delim contents mx b ds outcome \<longleftrightarrow>
     (\<exists>b' received result. outcome = Inr (b', received, result)
        \<and> (\<forall>ec n. result = Some (ec, n) \<longrightarrow> contents b' = contents b @ received
            \<and> until_done (length delim) (starts_at delim) ((fst \<circ> snd) ` set ds) (contents b') mx ec n))"


context growing
begin

lemma sync_until:
  assumes "searcher srch (length delim) (starts_at delim)" and "ok b"
    and "fits (op_max_size ops b) (contents b) (map fst script)"
  shows "sync_until_ok delim contents (op_max_size ops b) b script (read_until_loop script_read ops v srch 0 b (script, []))"
  using read_until_returns [OF assms searched_0, of "[]"] by (auto simp: sync_until_ok_def)

lemma async_until:
  assumes "searcher srch (length delim) (starts_at delim)" and "ok b"
    and "fits (op_max_size ops b) (contents b) (map fst ds)"
    and "\<forall>(bs, ec, c) \<in> set ds. ec = NoError \<longrightarrow> bs \<noteq> []"
  shows "async_until_ok delim contents (op_max_size ops b) b ds (async_until ops v srch b ds)"
  using async_until_spec [OF assms] by (auto simp: async_until_ok_def)

end




text \<open>
  Without that hypothesis it does not: a read that completes with no byte and no error ends the operation with success,
  and with a number at which no delimiter ends. (The buffer holds ``hi'', the delimiter is ``!''.)
\<close>

definition hi :: dynamic_string_buffer where
  "hi = dynamic_string \<lparr>elems = [104, 105], elems_capacity = 3\<rparr> 3"

abbreviation hi_ops :: "dynamic_string_buffer dynamic_ops" where
  "hi_ops \<equiv> string_ops (\<lambda>c n. n)"

lemma hi_search: "search_string [33] [104, 105] 0 = Resume 2"
  by (simp add: search_string_def partial_search_def)

lemma hi_data: "vr_data (version2 hi_ops string_bytes) hi = [104, 105]"
  using string_until_v2.data_contents [of hi "\<lambda>c n. n"]
  by (simp add: ds_ok_def container_ok_def hi_def dynamic_string_def size_max_def)

lemma hi_sizes: "op_size hi_ops hi = 2" "op_max_size hi_ops hi = 3" "bytes_to_read hi_ops hi = 1"
  by (simp_all add: bytes_to_read_def string_ops_def ds_capacity_def ds_size_def hi_def dynamic_string_def size_max_def)

lemma hi_next:
  "until_call hi_ops (version2 hi_ops string_bytes) (search_string [33]) False NoError 0 1 (new_until_op hi)
     = Inr (\<lparr>un_buffers = hi\<lparr>ds_string := \<lparr>elems = [104, 105, 0], elems_capacity = 3\<rparr>\<rparr>, un_start = 1,
         search_position = 2, un_bytes_to_read = 1\<rparr>, ReadSome (make_buffer 2 1))"
proof -
  have "until_search hi_ops (version2 hi_ops string_bytes) (search_string [33]) ((new_until_op hi)\<lparr>un_start := 1\<rparr>)
      = \<lparr>un_buffers = hi, un_start = 1, search_position = 2, un_bytes_to_read = 1\<rparr>"
    by (simp add: until_search_def new_until_op_def hi_data hi_search hi_sizes)
  then show ?thesis
    using hi_sizes(1)
    by (simp add: until_call_def until_next_def version2_def string_ops_def ds_grow_def ds_data_at_def ds_size_def resize_def
      hi_def dynamic_string_def size_max_def buffer_string_max_def buffers make_buffer_def)
qed

lemma async_until_stops_on_empty_read:
  "\<exists>d'. async_read_until_string_v2 (string_ops (\<lambda>c n. n)) string_bytes [33] hi [([], NoError, False)]
     = Inr (d', [], Some (NoError, 2))"
  unfolding async_read_until_string_v2_def async_until_def hi_next
  by (simp add: until_call_def version2_def Let_def string_ops_def hi_def dynamic_string_def ds_shrink_def ds_size_def
    size_max_def resize_def until_result_def fill_elems_def make_buffer_def)

section \<open>Witnesses\<close>






end
