(* ===== verification/HashMap.thy ===== *)
theory HashMap
  imports Prelude
begin

text \<open>
  \<^verbatim>\<open>asio/detail/hash_map.hpp\<close>: the map from descriptors to queues of the select reactor. All values are in
  one list; a bucket is the first and the last of a run of that list. Nodes of erased values are kept as
  spares and used again.

  The nodes are numbers, \<open>cell\<close> is the store of what they hold, and the order of a \<^verbatim>\<open>std::list\<close> is a list of
  nodes. An iterator is a node, \<open>None\<close> is \<^verbatim>\<open>end()\<close>. A loop from an iterator is a recursion over the part of
  the list that starts there; it fails where the code would go past the end.

  The class copies and assigns its values with the operations of their type. For plain data an assignment
  copies, but \<^verbatim>\<open>mapped_type\<close> of \<^verbatim>\<open>reactor_op_queue.hpp\<close> copies and assigns nothing, so what a recycled
  node holds is what it held. The three operations are the record \<open>value_ops\<close>. \<open>hash\<close> is the overload of
  \<^verbatim>\<open>calculate_hash_value\<close> for the type of the keys.
\<close>

section \<open>The state\<close>

type_synonym node = nat
type_synonym iter = "node option"

record bucket_type =
  first_it :: iter
  last_it :: iter

record 'v value_ops =
  copy_value :: "'v \<Rightarrow> 'v"
  assign_value :: "'v \<Rightarrow> 'v \<Rightarrow> 'v"
  default_value :: 'v

record ('k, 'v) hash_map =
  hm_size :: nat
  hm_values :: "node list"
  hm_spares :: "node list"
  cell :: "node \<Rightarrow> 'k \<times> 'v"
  next_node :: node
  buckets :: "bucket_type list"
  num_buckets :: nat

definition calculate_hash_value_int :: "32 word \<Rightarrow> u64" where
  "calculate_hash_value_int i = scast i"

definition calculate_hash_value_ptr :: "u64 \<Rightarrow> u64" where
  "calculate_hash_value_ptr p = p + drop_bit 3 p"

definition calculate_hash_value_socket :: "u64 \<Rightarrow> u64" where
  "calculate_hash_value_socket s = s"

definition new_hash_map :: "'k \<Rightarrow> 'v \<Rightarrow> ('k, 'v) hash_map" where
  "new_hash_map k0 v0 = \<lparr>hm_size = 0, hm_values = [], hm_spares = [], cell = \<lambda>_. (k0, v0), next_node = 0,
     buckets = [], num_buckets = 0\<rparr>"

section \<open>Iterators\<close>

text \<open>\<^verbatim>\<open>++it\<close>, \<^verbatim>\<open>--it\<close>, and the part of the list from \<open>it\<close> on. \<^verbatim>\<open>--end()\<close> is the last node.\<close>

fun inc :: "node list \<Rightarrow> node \<Rightarrow> iter" where
  "inc [] n = None"
| "inc (x # xs) n = (if x = n then (if xs = [] then None else Some (hd xs)) else inc xs n)"

definition dec :: "node list \<Rightarrow> iter \<Rightarrow> iter" where
  "dec xs it =
     (case it of
        None \<Rightarrow> (if xs = [] then None else Some (last xs))
      | Some n \<Rightarrow> inc (rev xs) n)"

definition from_it :: "node list \<Rightarrow> iter \<Rightarrow> node list" where
  "from_it xs it = (case it of None \<Rightarrow> [] | Some n \<Rightarrow> dropWhile (\<lambda>x. x \<noteq> n) xs)"

text \<open>A node put before an iterator, as \<^verbatim>\<open>insert\<close> and \<^verbatim>\<open>splice\<close> do.\<close>

fun insert_before :: "iter \<Rightarrow> node \<Rightarrow> node list \<Rightarrow> node list" where
  "insert_before it n [] = [n]"
| "insert_before it n (x # xs) = (if it = Some x then n # x # xs else x # insert_before it n xs)"

definition begin_it :: "('k, 'v) hash_map \<Rightarrow> iter" where
  "begin_it m = (case hm_values m of [] \<Rightarrow> None | n # _ \<Rightarrow> Some n)"

definition hm_empty :: "('k, 'v) hash_map \<Rightarrow> bool" where
  "hm_empty m \<longleftrightarrow> hm_values m = []"

text \<open>The map's only writes through an iterator: the value of a node.\<close>

definition set_value :: "node \<Rightarrow> 'v \<Rightarrow> ('k, 'v) hash_map \<Rightarrow> ('k, 'v) hash_map" where
  "set_value n v m = m\<lparr>cell := (cell m)(n := (fst (cell m n), v))\<rparr>"

section \<open>The operations\<close>

definition bucket_of :: "('k \<Rightarrow> u64) \<Rightarrow> nat \<Rightarrow> 'k \<Rightarrow> nat" where
  "bucket_of hash n k = unat (hash k) mod n"

text \<open>The loop of \<^verbatim>\<open>find\<close> and \<^verbatim>\<open>insert\<close> from an iterator (the list from it on) to \<open>end_it\<close>.\<close>

fun find_loop :: "(node \<Rightarrow> 'k \<times> 'v) \<Rightarrow> 'k \<Rightarrow> iter \<Rightarrow> node list \<Rightarrow> fault + iter" where
  "find_loop c k end_it [] = (if end_it = None then Inr None else Inl UndefinedBehaviour)"
| "find_loop c k end_it (n # ns) =
     (if end_it = Some n then Inr None
      else if fst (c n) = k then Inr (Some n)
      else find_loop c k end_it ns)"

definition hm_find :: "('k \<Rightarrow> u64) \<Rightarrow> 'k \<Rightarrow> ('k, 'v) hash_map \<Rightarrow> fault + iter" where
  "hm_find hash k m =
     (if num_buckets m \<noteq> 0 then
        let b = buckets m ! bucket_of hash (num_buckets m) k in
        (case first_it b of
           None \<Rightarrow> Inr None
         | Some n \<Rightarrow>
             (case last_it b of
                None \<Rightarrow> Inl UndefinedBehaviour
              | Some l \<Rightarrow> find_loop (cell m) k (inc (hm_values m) l) (from_it (hm_values m) (Some n))))
      else Inr None)"

definition hash_sizes :: "nat list" where
  "hash_sizes = [3, 13, 23, 53, 97, 193, 389, 769, 1543, 3079, 6151, 12289, 24593,
     49157, 98317, 196613, 393241, 786433, 1572869, 3145739, 6291469, 12582917, 25165843]"

fun hash_size_loop :: "nat \<Rightarrow> nat list \<Rightarrow> nat" where
  "hash_size_loop num_elems [] = last hash_sizes"
| "hash_size_loop num_elems (s # ss) = (if num_elems < s then s else hash_size_loop num_elems ss)"

definition hash_size :: "nat \<Rightarrow> nat" where
  "hash_size num_elems = hash_size_loop num_elems (butlast hash_sizes)"

definition upd_bucket :: "nat \<Rightarrow> (bucket_type \<Rightarrow> bucket_type) \<Rightarrow> bucket_type list \<Rightarrow> bucket_type list" where
  "upd_bucket i f bs = bs[i := f (bs ! i)]"

text \<open>The loop of \<^verbatim>\<open>rehash\<close>: the list, the buckets, and what is left to put back.\<close>

fun rehash_loop ::
    "('k \<Rightarrow> u64) \<Rightarrow> (node \<Rightarrow> 'k \<times> 'v) \<Rightarrow> nat \<Rightarrow> node list \<Rightarrow> node list \<Rightarrow> bucket_type list \<Rightarrow>
     node list \<times> bucket_type list" where
  "rehash_loop hash c nb [] vs bs = (vs, bs)"
| "rehash_loop hash c nb (it # rest) vs bs =
     (let b = bucket_of hash nb (fst (c it)) in
      (case last_it (bs ! b) of
         None \<Rightarrow>
           rehash_loop hash c nb rest vs
             (upd_bucket b (\<lambda>x. x\<lparr>first_it := Some it, last_it := Some it\<rparr>) bs)
       | Some l \<Rightarrow>
           let bs = upd_bucket b (\<lambda>x. x\<lparr>last_it := inc vs l\<rparr>) bs in
           if last_it (bs ! b) = Some it then rehash_loop hash c nb rest vs bs
           else
             let vs = insert_before (last_it (bs ! b)) it (remove1 it vs);
                 bs = upd_bucket b (\<lambda>x. x\<lparr>last_it := dec vs (last_it x)\<rparr>) bs
             in rehash_loop hash c nb rest vs bs))"

definition rehash :: "('k \<Rightarrow> u64) \<Rightarrow> nat \<Rightarrow> ('k, 'v) hash_map \<Rightarrow> ('k, 'v) hash_map" where
  "rehash hash nb m =
     (if nb = num_buckets m then m
      else
        let bs = replicate nb \<lparr>first_it = None, last_it = None\<rparr>;
            (vs, bs) = rehash_loop hash (cell m) nb (hm_values m) (hm_values m) bs
        in m\<lparr>hm_values := vs, buckets := bs, num_buckets := nb\<rparr>)"

definition values_insert ::
    "'v value_ops \<Rightarrow> iter \<Rightarrow> 'k \<times> 'v \<Rightarrow> ('k, 'v) hash_map \<Rightarrow> ('k, 'v) hash_map \<times> node" where
  "values_insert vo it v m =
     (case hm_spares m of
        [] \<Rightarrow>
          let n = next_node m in
          (m\<lparr>hm_values := insert_before it n (hm_values m), next_node := Suc n,
             cell := (cell m)(n := (fst v, copy_value vo (snd v)))\<rparr>, n)
      | n # ss \<Rightarrow>
          (m\<lparr>hm_spares := ss, hm_values := insert_before it n (hm_values m),
             cell := (cell m)(n := (fst v, assign_value vo (snd (cell m n)) (snd v)))\<rparr>, n))"

text \<open>\<open>k0\<close> is the default key of \<^verbatim>\<open>value_type()\<close>.\<close>

definition values_erase :: "'v value_ops \<Rightarrow> 'k \<Rightarrow> node \<Rightarrow> ('k, 'v) hash_map \<Rightarrow> ('k, 'v) hash_map" where
  "values_erase vo k0 n m =
     m\<lparr>cell := (cell m)(n := (k0, assign_value vo (snd (cell m n)) (default_value vo))),
       hm_spares := n # hm_spares m, hm_values := remove1 n (hm_values m)\<rparr>"

definition insert_value ::
    "('k \<Rightarrow> u64) \<Rightarrow> 'v value_ops \<Rightarrow> 'k \<times> 'v \<Rightarrow> ('k, 'v) hash_map \<Rightarrow>
     fault + (('k, 'v) hash_map \<times> node \<times> bool)" where
  "insert_value hash vo v m =
     (let m = (if hm_size m + 1 \<ge> num_buckets m then rehash hash (hash_size (hm_size m + 1)) m else m);
          i = bucket_of hash (num_buckets m) (fst v)
      in case first_it (buckets m ! i) of
           None \<Rightarrow>
             let (m, n) = values_insert vo None v m in
             Inr (m\<lparr>buckets := upd_bucket i (\<lambda>b. b\<lparr>first_it := Some n, last_it := Some n\<rparr>) (buckets m),
                    hm_size := hm_size m + 1\<rparr>, n, True)
         | Some f \<Rightarrow>
             (case last_it (buckets m ! i) of
                None \<Rightarrow> Inl UndefinedBehaviour
              | Some l \<Rightarrow>
                  let end_it = inc (hm_values m) l in
                  and_then (find_loop (cell m) (fst v) end_it (from_it (hm_values m) (Some f))) (\<lambda>r.
                    case r of
                      Some n \<Rightarrow> Inr (m, n, False)
                    | None \<Rightarrow>
                        let (m, n) = values_insert vo end_it v m in
                        Inr (m\<lparr>buckets := upd_bucket i (\<lambda>b. b\<lparr>last_it := Some n\<rparr>) (buckets m),
                               hm_size := hm_size m + 1\<rparr>, n, True))))"

definition erase_it ::
    "('k \<Rightarrow> u64) \<Rightarrow> 'v value_ops \<Rightarrow> 'k \<Rightarrow> iter \<Rightarrow> ('k, 'v) hash_map \<Rightarrow> fault + ('k, 'v) hash_map" where
  "erase_it hash vo k0 it m =
     (case it of
        None \<Rightarrow> Inl UndefinedBehaviour
      | Some n \<Rightarrow>
          if num_buckets m = 0 then Inl UndefinedBehaviour
          else
            let i = bucket_of hash (num_buckets m) (fst (cell m n));
                is_first = (first_it (buckets m ! i) = Some n);
                is_last = (last_it (buckets m ! i) = Some n);
                bs =
                  (if is_first \<and> is_last then
                     upd_bucket i (\<lambda>b. b\<lparr>first_it := None, last_it := None\<rparr>) (buckets m)
                   else if is_first then
                     upd_bucket i (\<lambda>b. b\<lparr>first_it := inc (hm_values m) n\<rparr>) (buckets m)
                   else if is_last then
                     upd_bucket i (\<lambda>b. b\<lparr>last_it := dec (hm_values m) (Some n)\<rparr>) (buckets m)
                   else buckets m);
                m = values_erase vo k0 n (m\<lparr>buckets := bs\<rparr>)
            in Inr (m\<lparr>hm_size := hm_size m - 1\<rparr>))"

definition erase_key ::
    "('k \<Rightarrow> u64) \<Rightarrow> 'v value_ops \<Rightarrow> 'k \<Rightarrow> 'k \<Rightarrow> ('k, 'v) hash_map \<Rightarrow> fault + ('k, 'v) hash_map" where
  "erase_key hash vo k0 k m =
     and_then (hm_find hash k m) (\<lambda>it. if it = None then Inr m else erase_it hash vo k0 it m)"

definition hm_clear :: "('k, 'v) hash_map \<Rightarrow> ('k, 'v) hash_map" where
  "hm_clear m = m\<lparr>hm_values := [], hm_size := 0,
     buckets := map (\<lambda>b. b\<lparr>first_it := None, last_it := None\<rparr>) (buckets m)\<rparr>"

text \<open>The values that are plain data: a copy and an assignment copy.\<close>

definition pod_ops :: "'v \<Rightarrow> 'v value_ops" where
  "pod_ops v0 = \<lparr>copy_value = \<lambda>v. v, assign_value = \<lambda>_ v. v, default_value = v0\<rparr>"

end
