(* ===== verification/HashMapRefinement.thy ===== *)
theory HashMapRefinement
  imports HashMap
begin

text \<open>
  The hash map of \<open>HashMap\<close> is a map. \<open>hm_inv\<close> is its invariant: the values of a bucket are a run of
  the list, which the bucket delimits, and the spares hold what an insertion may leave as it is.
  \<open>hm_map\<close> is the map it stands for. In the locale \<open>hash_values\<close>, over the operations of the type of the
  values, each operation keeps the invariant and is that of maps.
\<close>

section \<open>Runs of a list\<close>

text \<open>Elements with the same \<open>f\<close> are next to each other.\<close>

fun grouped :: "('a \<Rightarrow> nat) \<Rightarrow> 'a list \<Rightarrow> bool" where
  "grouped f [] \<longleftrightarrow> True"
| "grouped f (x # xs) \<longleftrightarrow> grouped f xs \<and> (xs = [] \<or> f (hd xs) = f x \<or> f x \<notin> f ` set xs)"

definition run_of :: "('a \<Rightarrow> nat) \<Rightarrow> nat \<Rightarrow> 'a list \<Rightarrow> 'a list" where
  "run_of f b xs = filter (\<lambda>x. f x = b) xs"

lemma run_of_simps [simp]:
  "run_of f b [] = []"
  "run_of f b (x # xs) = (if f x = b then x # run_of f b xs else run_of f b xs)"
  "run_of f b (xs @ ys) = run_of f b xs @ run_of f b ys"
  by (auto simp: run_of_def)

lemma run_of_Nil_iff: "run_of f b xs = [] \<longleftrightarrow> b \<notin> f ` set xs"
  by (auto simp: run_of_def filter_empty_conv)

lemma run_of_Nil: "b \<notin> f ` set xs \<Longrightarrow> run_of f b xs = []"
  by (simp add: run_of_Nil_iff)

lemma set_run_of: "set (run_of f b xs) = {x \<in> set xs. f x = b}"
  by (simp add: run_of_def)

lemma run_of_all: "(\<forall>x\<in>set xs. f x = b) \<Longrightarrow> run_of f b xs = xs"
  by (simp add: run_of_def)

lemma grouped_starts:
  "grouped f xs \<Longrightarrow> xs \<noteq> [] \<Longrightarrow> f (hd xs) = b \<Longrightarrow>
   \<exists>cs. xs = run_of f b xs @ cs \<and> b \<notin> f ` set cs"
proof (induction xs)
  case (Cons x xs)
  show ?case
  proof (cases "xs = [] \<or> f (hd xs) \<noteq> b")
    case True
    then have "b \<notin> f ` set xs" using Cons.prems by auto
    then show ?thesis using Cons.prems by (auto simp: run_of_Nil)
  next
    case False
    then obtain cs where "xs = run_of f b xs @ cs" "b \<notin> f ` set cs"
      using Cons by auto
    then show ?thesis using Cons.prems by (intro exI [of _ cs]) auto
  qed
qed simp

lemma grouped_split:
  "grouped f xs \<Longrightarrow> \<exists>as cs. xs = as @ run_of f b xs @ cs \<and> b \<notin> f ` set as \<and> b \<notin> f ` set cs"
proof (induction xs)
  case (Cons x xs)
  show ?case
  proof (cases "f x = b")
    case True
    then have "\<exists>cs. x # xs = run_of f b (x # xs) @ cs \<and> b \<notin> f ` set cs"
      by (intro grouped_starts [OF Cons.prems]) simp_all
    then show ?thesis by (metis append_Nil empty_iff image_empty list.set(1))
  next
    case False
    from Cons obtain as cs where s: "xs = as @ run_of f b xs @ cs" "b \<notin> f ` set as" "b \<notin> f ` set cs"
      by auto
    have "x # xs = (x # as) @ run_of f b (x # xs) @ cs" using False s(1) by simp
    moreover have "b \<notin> f ` set (x # as)" using False s(2) by auto
    ultimately show ?thesis using s(3) by blast
  qed
qed simp

lemma grouped_join:
  assumes "grouped f (as @ bs @ cs)" "bs \<noteq> []" "\<forall>x\<in>set bs. f x = f n"
  shows "grouped f (as @ bs @ n # cs)"
  using assms
proof (induction as)
  case Nil
  from Nil show ?case
  proof (induction bs)
    case (Cons b bs)
    show ?case
    proof (cases "bs = []")
      case True
      then show ?thesis using Cons.prems by auto
    next
      case False
      then show ?thesis using Cons by (auto simp: hd_append)
    qed
  qed simp
next
  case (Cons x as)
  have "hd (as @ bs @ n # cs) = hd (as @ bs @ cs)"
    using Cons.prems(2) by (cases as) auto
  moreover have "f ` set (as @ bs @ n # cs) = f ` set (as @ bs @ cs)"
    using Cons.prems(2,3) by (cases bs) auto
  moreover have "grouped f (as @ bs @ cs)" using Cons.prems(1) by simp
  moreover have "f (hd (as @ bs @ cs)) = f x \<or> f x \<notin> f ` set (as @ bs @ cs)"
    using Cons.prems(1,2) by auto
  ultimately show ?case
    using Cons.IH Cons.prems(2,3) by (metis append_Cons grouped.simps(2))
qed

lemma grouped_snoc: "grouped f xs \<Longrightarrow> f n \<notin> f ` set xs \<Longrightarrow> grouped f (xs @ [n])"
proof (induction xs)
  case (Cons x xs)
  then show ?case by (cases xs) auto
qed simp

lemma grouped_remove: "grouped f (as @ n # cs) \<Longrightarrow> grouped f (as @ cs)"
proof (induction as)
  case (Cons x as)
  show ?case
  proof (cases "as = []")
    case True
    then show ?thesis using Cons.prems by (cases "f n = f x") auto
  next
    case False
    then show ?thesis using Cons by (auto simp: hd_append)
  qed
qed simp

lemma grouped_cong: "(\<And>x. x \<in> set xs \<Longrightarrow> f x = g x) \<Longrightarrow> grouped f xs = grouped g xs"
proof (induction xs)
  case (Cons x xs)
  then have "grouped f xs = grouped g xs" by simp
  moreover have "f ` set xs = g ` set xs" using Cons.prems by (intro image_cong) auto
  ultimately show ?case using Cons.prems by (cases xs) auto
qed simp

section \<open>Iterators\<close>

definition at :: "node list \<Rightarrow> iter" where
  "at xs = (if xs = [] then None else Some (hd xs))"

definition at_end :: "node list \<Rightarrow> iter" where
  "at_end xs = (if xs = [] then None else Some (last xs))"

lemma at_simps [simp]:
  "at [] = None" "at (x # xs) = Some x" "at_end [] = None" "at_end (xs @ [x]) = Some x"
  by (simp_all add: at_def at_end_def)

lemma inc_at: "n \<notin> set as \<Longrightarrow> inc (as @ n # cs) n = at cs"
  by (induction as) (auto simp: at_def)

lemma dec_at: "n \<notin> set cs \<Longrightarrow> dec (as @ n # cs) (Some n) = at_end as"
  using inc_at [of n "rev cs" "rev as"] by (simp add: dec_def at_def at_end_def hd_rev)

lemma from_it_at: "n \<notin> set as \<Longrightarrow> from_it (as @ n # cs) (Some n) = n # cs"
  by (induction as) (auto simp: from_it_def)

lemma insert_before_at: "set as \<inter> set cs = {} \<Longrightarrow> insert_before (at cs) n (as @ cs) = as @ n # cs"
  by (induction as) (cases cs; auto simp: at_def)+

lemma insert_before_end: "insert_before None n xs = xs @ [n]"
  by (induction xs) auto

lemma find_loop_run:
  "set bs \<inter> set cs = {} \<Longrightarrow>
   find_loop c k (at cs) (bs @ cs) = Inr (List.find (\<lambda>n. fst (c n) = k) bs)"
proof (induction bs)
  case Nil
  then show ?case by (cases cs) auto
next
  case (Cons b bs)
  then have "at cs \<noteq> Some b" by (cases cs) auto
  then show ?case using Cons by auto
qed

section \<open>The invariant\<close>

definition bucket_fn :: "('k \<Rightarrow> u64) \<Rightarrow> nat \<Rightarrow> (node \<Rightarrow> 'k \<times> 'v) \<Rightarrow> node \<Rightarrow> nat" where
  "bucket_fn hash nb c n = bucket_of hash nb (fst (c n))"

definition delimits :: "(node \<Rightarrow> nat) \<Rightarrow> node list \<Rightarrow> bucket_type list \<Rightarrow> bool" where
  "delimits f xs bs \<longleftrightarrow> (\<forall>b < length bs. first_it (bs ! b) = at (run_of f b xs)
     \<and> last_it (bs ! b) = at_end (run_of f b xs))"

lemma delimitsD:
  assumes "delimits f xs bs" "b < length bs"
  shows "first_it (bs ! b) = at (run_of f b xs)" "last_it (bs ! b) = at_end (run_of f b xs)"
  using assms by (simp_all add: delimits_def)

definition hm_inv :: "('k \<Rightarrow> u64) \<Rightarrow> ('v \<Rightarrow> bool) \<Rightarrow> ('k, 'v) hash_map \<Rightarrow> bool" where
  "hm_inv hash idle m \<longleftrightarrow>
     distinct (hm_values m @ hm_spares m) \<and> (\<forall>n\<in>set (hm_values m @ hm_spares m). n < next_node m)
     \<and> hm_size m = length (hm_values m)
     \<and> length (buckets m) = num_buckets m \<and> (num_buckets m = 0 \<longrightarrow> hm_values m = [])
     \<and> distinct (map (\<lambda>n. fst (cell m n)) (hm_values m))
     \<and> grouped (bucket_fn hash (num_buckets m) (cell m)) (hm_values m)
     \<and> delimits (bucket_fn hash (num_buckets m) (cell m)) (hm_values m) (buckets m)
     \<and> (\<forall>n\<in>set (hm_spares m). idle (snd (cell m n)))"

definition hm_map :: "('k, 'v) hash_map \<Rightarrow> 'k \<Rightarrow> 'v option" where
  "hm_map m = map_of (map (cell m) (hm_values m))"

text \<open>The number of buckets grows with the map, up to the last size of the table.\<close>

definition hm_load :: "('k, 'v) hash_map \<Rightarrow> bool" where
  "hm_load m \<longleftrightarrow> hm_size m = 0 \<or> hm_size m < num_buckets m \<or> num_buckets m = last hash_sizes"


section \<open>Finding\<close>

lemma find_run:
  "(\<And>x. P x \<Longrightarrow> f x = b) \<Longrightarrow> List.find P (run_of f b xs) = List.find P xs"
  by (induction xs) auto

lemma map_of_find:
  "map_of (map c xs) k = map_option (\<lambda>n. snd (c n)) (List.find (\<lambda>n. fst (c n) = k) xs)"
  by (induction xs) (auto simp: prod_eq_iff)

lemma hm_inv_buckets:
  assumes "hm_inv hash idle m"
  shows "distinct (hm_values m)" "grouped (bucket_fn hash (num_buckets m) (cell m)) (hm_values m)"
    "delimits (bucket_fn hash (num_buckets m) (cell m)) (hm_values m) (buckets m)"
    "length (buckets m) = num_buckets m" "num_buckets m = 0 \<Longrightarrow> hm_values m = []"
    "distinct (map (\<lambda>n. fst (cell m n)) (hm_values m))" "hm_size m = length (hm_values m)"
  using assms by (simp_all add: hm_inv_def)

text \<open>The run of a bucket in the list, and what its two iterators give.\<close>

lemma run_iterators:
  assumes "distinct xs" "xs = as @ bs @ cs" "bs \<noteq> []"
  shows "inc xs (last bs) = at cs" "from_it xs (Some (hd bs)) = bs @ cs"
proof -
  have e: "xs = (as @ butlast bs) @ last bs # cs" using assms(2,3) by simp
  moreover have "last bs \<notin> set (as @ butlast bs)"
    using assms(1) unfolding e by auto
  ultimately show "inc xs (last bs) = at cs" using inc_at by metis
  have "xs = as @ hd bs # (tl bs @ cs)" using assms by simp
  moreover have "hd bs \<notin> set as" using assms by (cases bs) auto
  ultimately have "from_it xs (Some (hd bs)) = hd bs # (tl bs @ cs)" using from_it_at by metis
  then show "from_it xs (Some (hd bs)) = bs @ cs" using assms(3) by simp
qed

lemma find_loop_eq:
  assumes "distinct xs" "xs = as @ bs @ cs" "bs \<noteq> []"
    and "\<And>n. fst (c n) = k \<Longrightarrow> f n = b" "bs = run_of f b xs"
  shows "find_loop c k (inc xs (last bs)) (from_it xs (Some (hd bs))) =
    Inr (List.find (\<lambda>n. fst (c n) = k) xs)"
proof -
  have "set bs \<inter> set cs = {}" using assms(1,2) by auto
  then show ?thesis
    using run_iterators [OF assms(1,2,3)] find_loop_run [of bs cs c k]
      find_run [of "\<lambda>n. fst (c n) = k" f b xs] assms(4,5) by simp
qed

lemma bucket_fn_lt: "num_buckets m \<noteq> 0 \<Longrightarrow> bucket_of hash (num_buckets m) k < num_buckets m"
  by (simp add: bucket_of_def)

lemma hm_find_eq:
  assumes inv: "hm_inv hash idle m"
  shows "hm_find hash k m = Inr (List.find (\<lambda>n. fst (cell m n) = k) (hm_values m))"
proof (cases "num_buckets m = 0")
  case True
  then show ?thesis using hm_inv_buckets [OF inv] by (simp add: hm_find_def)
next
  case False
  let ?f = "bucket_fn hash (num_buckets m) (cell m)"
  let ?b = "bucket_of hash (num_buckets m) k"
  let ?bs = "run_of ?f ?b (hm_values m)"
  obtain as cs where s: "hm_values m = as @ ?bs @ cs"
    using grouped_split [OF hm_inv_buckets(2) [OF inv]] by blast
  have f: "fst (cell m n) = k \<Longrightarrow> ?f n = ?b" for n by (simp add: bucket_fn_def)
  have d: "first_it (buckets m ! ?b) = at ?bs" "last_it (buckets m ! ?b) = at_end ?bs"
    using delimitsD [OF hm_inv_buckets(3) [OF inv]] hm_inv_buckets(4) [OF inv]
      bucket_fn_lt [OF False, of hash k] by simp_all
  show ?thesis
  proof (cases "?bs = []")
    case True
    then have "List.find (\<lambda>n. fst (cell m n) = k) (hm_values m) = None"
      using find_run [of "\<lambda>n. fst (cell m n) = k" ?f ?b "hm_values m"] f by simp
    then show ?thesis using False True d by (simp add: hm_find_def)
  next
    case ne: False
    then show ?thesis
      using False d find_loop_eq [OF hm_inv_buckets(1) [OF inv] s ne f refl]
      by (simp add: hm_find_def at_def at_end_def Let_def)
  qed
qed

section \<open>The map\<close>

lemma hm_map_find:
  "hm_map m k = map_option (\<lambda>n. snd (cell m n)) (List.find (\<lambda>n. fst (cell m n) = k) (hm_values m))"
  by (simp add: hm_map_def map_of_find)

lemma hm_map_Some_iff:
  assumes "distinct (map (\<lambda>n. fst (cell m n)) (hm_values m))"
  shows "hm_map m k = Some v \<longleftrightarrow> (\<exists>n\<in>set (hm_values m). cell m n = (k, v))"
proof -
  have "distinct (map fst (map (cell m) (hm_values m)))" using assms by (simp add: comp_def)
  then show ?thesis by (force simp: hm_map_def)
qed

lemma map_Some_eqI: "(\<And>k v. f k = Some v \<longleftrightarrow> g k = Some v) \<Longrightarrow> f = g"
  by (rule ext) (metis not_None_eq)

lemma find_Some_cell:
  assumes "List.find (\<lambda>n. fst (c n) = k) xs = Some n"
  shows "n \<in> set xs" "fst (c n) = k"
  using assms by (auto simp: find_Some_iff)

section \<open>Rehashing\<close>

lemma delimits_upd:
  assumes "delimits f xs bs" "\<And>b'. b' \<noteq> b \<Longrightarrow> run_of f b' ys = run_of f b' xs"
    and "first_it e = at (run_of f b ys)" "last_it e = at_end (run_of f b ys)"
  shows "delimits f ys (bs[b := e])"
  unfolding delimits_def
proof (intro allI impI)
  fix i
  assume i: "i < length (bs[b := e])"
  then show "first_it (bs[b := e] ! i) = at (run_of f i ys) \<and> last_it (bs[b := e] ! i) = at_end (run_of f i ys)"
    using assms delimitsD [OF assms(1), of i] by (cases "i = b") simp_all
qed

lemma upd_bucket_simps [simp]:
  "length (upd_bucket i f bs) = length bs"
  "i < length bs \<Longrightarrow> upd_bucket i f bs ! i = f (bs ! i)"
  "i < length bs \<Longrightarrow> upd_bucket i f (upd_bucket i g bs) = bs[i := f (g (bs ! i))]"
  by (simp_all add: upd_bucket_def)

text \<open>One value put back: what is before it is grouped and delimited, and so is what is before the next.\<close>

lemma at_append: "at (xs @ ys) = (if xs = [] then at ys else at xs)"
  by (simp add: at_def)

lemma insert_in_run:
  assumes P: "P = as @ run_of f (f n) P @ cs" and ne: "run_of f (f n) P \<noteq> []"
    and g: "grouped f P" and dl: "delimits f P bs" and lt: "f n < length bs"
    and e: "first_it e = first_it (bs ! f n)" "last_it e = Some n"
    and c: "f n \<notin> f ` set as" "f n \<notin> f ` set cs"
  shows "grouped f (as @ run_of f (f n) P @ n # cs)"
    "delimits f (as @ run_of f (f n) P @ n # cs) (bs[f n := e])"
proof -
  let ?r = "run_of f (f n) P"
  have "grouped f (as @ ?r @ cs)" using g P by simp
  then show "grouped f (as @ ?r @ n # cs)"
    by (intro grouped_join) (auto simp: ne set_run_of)
  have rr: "run_of f b' ?r = (if b' = f n then ?r else [])" for b'
    by (auto simp: run_of_def filter_empty_conv)
  have runs: "run_of f b' (as @ ?r @ n # cs) = run_of f b' (as @ ?r @ cs)" if "b' \<noteq> f n" for b'
    using that by simp
  have own: "run_of f (f n) (as @ ?r @ n # cs) = ?r @ [n]"
    using c by (simp add: rr run_of_Nil)
  show "delimits f (as @ ?r @ n # cs) (bs[f n := e])"
  proof (rule delimits_upd [OF dl])
    show "run_of f b' (as @ ?r @ n # cs) = run_of f b' P" if "b' \<noteq> f n" for b'
      using runs [OF that] P by simp
    show "first_it e = at (run_of f (f n) (as @ ?r @ n # cs))"
      unfolding own using e(1) dl lt ne by (simp add: delimits_def at_append)
    show "last_it e = at_end (run_of f (f n) (as @ ?r @ n # cs))"
      unfolding own using e(2) by simp
  qed
qed

lemma insert_new_run:
  assumes "run_of f (f n) P = []" "grouped f P" "delimits f P bs"
    and "first_it e = Some n" "last_it e = Some n"
  shows "grouped f (P @ [n])" "delimits f (P @ [n]) (bs[f n := e])"
proof -
  show "grouped f (P @ [n])" using assms by (intro grouped_snoc) (auto simp: run_of_Nil_iff)
  show "delimits f (P @ [n]) (bs[f n := e])"
    by (rule delimits_upd [OF assms(3)]) (use assms in \<open>auto simp: at_end_def\<close>)
qed


lemma remove1_at: "n \<notin> set as \<Longrightarrow> remove1 n (as @ n # cs) = as @ cs"
  by (induction as) auto

lemma rehash_loop_spec:
  assumes "grouped (bucket_fn hash nb c) P" "delimits (bucket_fn hash nb c) P bs" "length bs = nb"
    "nb \<noteq> 0" "distinct (P @ rest)" "rehash_loop hash c nb rest (P @ rest) bs = (vs', bs')"
  shows "grouped (bucket_fn hash nb c) vs' \<and> delimits (bucket_fn hash nb c) vs' bs' \<and> length bs' = nb
    \<and> distinct vs' \<and> set vs' = set (P @ rest)"
  using assms
proof (induction rest arbitrary: P bs)
  case Nil
  then show ?case by simp
next
  case (Cons it rest)
  let ?f = "bucket_fn hash nb c"
  let ?b = "?f it"
  have b: "bucket_of hash nb (fst (c it)) = ?b" by (simp add: bucket_fn_def)
  have lt: "?b < length bs" using Cons.prems(3,4) by (simp add: bucket_fn_def bucket_of_def)
  obtain as cs where s: "P = as @ run_of ?f ?b P @ cs" and ac: "?b \<notin> ?f ` set as" "?b \<notin> ?f ` set cs"
    using grouped_split [OF Cons.prems(1)] by blast
  let ?r = "run_of ?f ?b P"
  have l: "last_it (bs ! ?b) = at_end ?r" "first_it (bs ! ?b) = at ?r"
    using delimitsD [OF Cons.prems(2) lt] by simp_all
  have d: "distinct (P @ it # rest)" by (rule Cons.prems(5))
  show ?case
  proof (cases "?r = []")
    case True
    let ?e = "(bs ! ?b)\<lparr>first_it := Some it, last_it := Some it\<rparr>"
    have "rehash_loop hash c nb rest ((P @ [it]) @ rest) (bs[?b := ?e]) = (vs', bs')"
      using Cons.prems(6) l True lt by (simp add: b upd_bucket_def Let_def)
    moreover note insert_new_run [OF True Cons.prems(1,2), of ?e]
    ultimately show ?thesis
      using Cons.IH [of "P @ [it]" "bs[?b := ?e]"] Cons.prems(3,4) d by simp
  next
    case False
    then have l': "last_it (bs ! ?b) = Some (last ?r)" using l by (simp add: at_end_def)
    have "P @ it # rest = as @ ?r @ (cs @ it # rest)" using s by simp
    then have i: "inc (P @ it # rest) (last ?r) = at (cs @ it # rest)"
      by (rule run_iterators(1) [OF d _ False])
    let ?e = "(bs ! ?b)\<lparr>last_it := Some it\<rparr>"
    let ?P = "as @ ?r @ it # cs"
    have sP: "set ?P = insert it (set P)"
      using arg_cong [OF s, of set] by (simp only: set_append list.set) blast
    have dP: "distinct (?P @ rest)"
    proof -
      have "distinct ((as @ ?r @ cs) @ it # rest)" using d s by simp
      then show ?thesis by auto
    qed
    have inv: "grouped ?f ?P" "delimits ?f ?P (bs[?b := ?e])"
      using insert_in_run [OF s False Cons.prems(1,2) lt _ _ ac, of ?e] by simp_all
    have "rehash_loop hash c nb rest (?P @ rest) (bs[?b := ?e]) = (vs', bs')"
    proof (cases "cs = []")
      case True
      have e: "?P @ rest = P @ it # rest" using s True by simp
      show ?thesis
        unfolding e using Cons.prems(6) l' i True lt by (simp add: b upd_bucket_def Let_def)
    next
      case ne: False
      have "hd cs \<in> set P" using ne by (subst s) simp
      then have h: "hd cs \<noteq> it" using d by auto
      have a: "at (cs @ it # rest) = Some (hd cs)" using ne by (simp add: at_def)
      have "remove1 it (P @ it # rest) = P @ rest"
        using d by (intro remove1_at) auto
      then have rm: "remove1 it (P @ it # rest) = (as @ ?r) @ (cs @ rest)" using s by simp
      have "set (as @ ?r) \<inter> set (cs @ rest) = {}"
        using dP by auto
      moreover have "at (cs @ rest) = Some (hd cs)" using ne by (simp add: at_def)
      ultimately have ib: "insert_before (Some (hd cs)) it (remove1 it (P @ it # rest)) = ?P @ rest"
        using insert_before_at [of "as @ ?r" "cs @ rest" it] rm by simp
      have "?P @ rest = (as @ ?r @ [it]) @ hd cs # (tl cs @ rest)" using ne by simp
      moreover have "hd cs \<notin> set (tl cs @ rest)"
        using dP ne by (cases cs) auto
      ultimately have dc: "dec (?P @ rest) (Some (hd cs)) = at_end (as @ ?r @ [it])"
        using dec_at by metis
      have "at_end (as @ ?r @ [it]) = Some it" by (simp add: at_end_def)
      then show ?thesis
        using Cons.prems(6) l' i a h ib dc lt by (simp add: b upd_bucket_def Let_def)
    qed
    moreover have "set (?P @ rest) = set (P @ it # rest)"
      unfolding set_append [of ?P rest] sP by auto
    ultimately show ?thesis
      using Cons.IH [OF inv _ _ dP] Cons.prems(3,4) by simp
  qed
qed

lemma hash_size_loop_pos: "0 \<notin> set ss \<Longrightarrow> hash_size_loop n ss \<noteq> 0"
  by (induction ss) (auto simp: hash_sizes_def)

lemma hash_size_pos: "hash_size n \<noteq> 0"
  by (simp add: hash_size_def hash_size_loop_pos hash_sizes_def)

lemma hash_size_loop_gt: "hash_size_loop n ss > n \<or> hash_size_loop n ss = last hash_sizes"
  by (induction ss) auto

lemma hash_size_gt: "hash_size n > n \<or> hash_size n = last hash_sizes"
  by (simp add: hash_size_def hash_size_loop_gt)

lemma rehash_spec:
  assumes inv: "hm_inv hash idle m" and nb: "nb \<noteq> 0"
  shows "hm_inv hash idle (rehash hash nb m)" "hm_map (rehash hash nb m) = hm_map m"
    "num_buckets (rehash hash nb m) = nb" "hm_size (rehash hash nb m) = hm_size m"
    "hm_spares (rehash hash nb m) = hm_spares m" "cell (rehash hash nb m) = cell m"
    "set (hm_values (rehash hash nb m)) = set (hm_values m)"
proof -
  let ?bs = "replicate nb \<lparr>first_it = None, last_it = None\<rparr>"
  obtain vs bs where r: "rehash_loop hash (cell m) nb (hm_values m) (hm_values m) ?bs = (vs, bs)"
    by (cases "rehash_loop hash (cell m) nb (hm_values m) (hm_values m) ?bs")
  have *: "grouped (bucket_fn hash nb (cell m)) vs \<and> delimits (bucket_fn hash nb (cell m)) vs bs
      \<and> length bs = nb \<and> distinct vs \<and> set vs = set (hm_values m)"
    using rehash_loop_spec [of hash nb "cell m" "[]" ?bs "hm_values m" vs bs] r nb
      hm_inv_buckets(1) [OF inv] by (simp add: delimits_def)
  have ln: "length vs = length (hm_values m)"
    using * hm_inv_buckets(1) [OF inv] by (metis distinct_card)
  have dk: "distinct (map (\<lambda>n. fst (cell m n)) vs)"
    using * hm_inv_buckets(6) [OF inv] by (simp add: distinct_map)
  have eq: "rehash hash nb m =
      (if nb = num_buckets m then m else m\<lparr>hm_values := vs, buckets := bs, num_buckets := nb\<rparr>)"
    by (simp add: rehash_def r)
  show "hm_inv hash idle (rehash hash nb m)"
    using inv * ln dk nb unfolding eq by (auto simp: hm_inv_def)
  show "hm_map (rehash hash nb m) = hm_map m"
  proof (rule map_Some_eqI)
    show "hm_map (rehash hash nb m) k = Some v \<longleftrightarrow> hm_map m k = Some v" for k v
      unfolding eq using * dk hm_inv_buckets(6) [OF inv] by (simp add: hm_map_Some_iff)
  qed
  show "num_buckets (rehash hash nb m) = nb" "hm_size (rehash hash nb m) = hm_size m"
    "hm_spares (rehash hash nb m) = hm_spares m" "cell (rehash hash nb m) = cell m"
    "set (hm_values (rehash hash nb m)) = set (hm_values m)"
    unfolding eq using * by simp_all
qed


section \<open>Inserting and erasing\<close>

lemma run_of_cong: "(\<And>x. x \<in> set xs \<Longrightarrow> f x = g x) \<Longrightarrow> run_of f b xs = run_of g b xs"
  unfolding run_of_def by (rule filter_cong) auto

lemma delimits_cong:
  assumes "\<And>x. x \<in> set xs \<Longrightarrow> f x = g x"
  shows "delimits f xs bs = delimits g xs bs"
proof -
  have "run_of f b xs = run_of g b xs" for b by (rule run_of_cong) (rule assms)
  then show ?thesis by (simp add: delimits_def)
qed

text \<open>A value put at the end of its bucket's run.\<close>

lemma bucket_inserted:
  assumes "grouped f xs" "delimits f xs bs" "f n < length bs" "distinct (n # xs)"
  shows "\<exists>ys zs. xs = ys @ zs \<and> grouped f (ys @ n # zs)
     \<and> (if first_it (bs ! f n) = None
        then zs = [] \<and> delimits f (ys @ [n]) (upd_bucket (f n) (\<lambda>b. b\<lparr>first_it := Some n, last_it := Some n\<rparr>) bs)
        else (\<exists>l. last_it (bs ! f n) = Some l \<and> insert_before (inc xs l) n xs = ys @ n # zs
          \<and> delimits f (ys @ n # zs) (upd_bucket (f n) (\<lambda>b. b\<lparr>last_it := Some n\<rparr>) bs)))"
proof -
  let ?r = "run_of f (f n) xs"
  have d: "distinct xs" using assms(4) by simp
  have l: "first_it (bs ! f n) = at ?r" "last_it (bs ! f n) = at_end ?r"
    using delimitsD [OF assms(2,3)] by simp_all
  show ?thesis
  proof (cases "?r = []")
    case True
    then have "grouped f (xs @ [n])"
      "delimits f (xs @ [n]) (upd_bucket (f n) (\<lambda>b. b\<lparr>first_it := Some n, last_it := Some n\<rparr>) bs)"
      using insert_new_run [OF True assms(1,2), of "(bs ! f n)\<lparr>first_it := Some n, last_it := Some n\<rparr>"]
      by (simp_all add: upd_bucket_def)
    then show ?thesis using l True by (intro exI [of _ xs] exI [of _ "[]"]) simp
  next
    case False
    obtain as cs where s: "xs = as @ ?r @ cs" and ac: "f n \<notin> f ` set as" "f n \<notin> f ` set cs"
      using grouped_split [OF assms(1)] by blast
    have s': "xs = (as @ ?r) @ cs" using s by simp
    have "set (as @ ?r) \<inter> set cs = {}"
      using d by (subst (asm) s) auto
    then have "insert_before (at cs) n ((as @ ?r) @ cs) = (as @ ?r) @ n # cs"
      by (rule insert_before_at)
    then have ib: "insert_before (inc xs (last ?r)) n xs = (as @ ?r) @ n # cs"
      using run_iterators(1) [OF d s False] s' by simp
    have g: "grouped f ((as @ ?r) @ n # cs)"
      and dl: "delimits f ((as @ ?r) @ n # cs) (upd_bucket (f n) (\<lambda>b. b\<lparr>last_it := Some n\<rparr>) bs)"
      using insert_in_run [OF s False assms(1,2,3) _ _ ac, of "(bs ! f n)\<lparr>last_it := Some n\<rparr>"]
      by (simp_all add: upd_bucket_def)
    have f: "first_it (bs ! f n) \<noteq> None" "last_it (bs ! f n) = Some (last ?r)"
      using l False by (simp_all add: at_def at_end_def)
    show ?thesis
      by (intro exI [of _ "as @ ?r"] exI [of _ cs]) (use s' ib g dl f in auto)
  qed
qed

text \<open>A value taken out of its bucket's run.\<close>

lemma bucket_erased:
  assumes g: "grouped f xs" and dl: "delimits f xs bs" and lt: "f n < length bs" and d: "distinct xs"
    and n: "n \<in> set xs"
  defines "is_first \<equiv> first_it (bs ! f n) = Some n"
    and "is_last \<equiv> last_it (bs ! f n) = Some n"
  shows "grouped f (remove1 n xs)"
    "delimits f (remove1 n xs)
       (if is_first \<and> is_last then upd_bucket (f n) (\<lambda>b. b\<lparr>first_it := None, last_it := None\<rparr>) bs
        else if is_first then upd_bucket (f n) (\<lambda>b. b\<lparr>first_it := inc xs n\<rparr>) bs
        else if is_last then upd_bucket (f n) (\<lambda>b. b\<lparr>last_it := dec xs (Some n)\<rparr>) bs
        else bs)" (is "delimits f _ ?bs")
proof -
  let ?r = "run_of f (f n) xs"
  obtain as cs where s: "xs = as @ ?r @ cs" and ac: "f n \<notin> f ` set as" "f n \<notin> f ` set cs"
    using grouped_split [OF g] by blast
  have "n \<in> set ?r" using n by (simp add: set_run_of)
  then obtain r1 r2 where r: "?r = r1 @ n # r2" by (meson split_list)
  have xs: "xs = (as @ r1) @ n # (r2 @ cs)" using s r by simp
  have dx: "distinct ((as @ r1) @ n # (r2 @ cs))" using d xs by simp
  have rm: "remove1 n xs = (as @ r1) @ (r2 @ cs)"
    unfolding xs by (rule remove1_at) (use dx in auto)
  show "grouped f (remove1 n xs)"
    unfolding rm using g xs by (intro grouped_remove [of f "as @ r1" n "r2 @ cs"]) simp
  have l: "first_it (bs ! f n) = at (r1 @ n # r2)" "last_it (bs ! f n) = at_end (r1 @ n # r2)"
    using delimitsD [OF dl lt] r by simp_all
  have isf: "is_first \<longleftrightarrow> r1 = []" and isl: "is_last \<longleftrightarrow> r2 = []"
    unfolding is_first_def is_last_def l using dx by (auto simp: at_def at_end_def hd_append split: if_splits)
  have inc: "inc xs n = at (r2 @ cs)"
    unfolding xs by (rule inc_at) (use dx in auto)
  have dec: "dec xs (Some n) = at_end (as @ r1)"
    unfolding xs by (rule dec_at) (use dx in auto)
  have own: "run_of f (f n) (remove1 n xs) = r1 @ r2"
  proof -
    have "run_of f (f n) xs = run_of f (f n) (as @ r1) @ n # run_of f (f n) (r2 @ cs)"
      unfolding xs by simp
    then have *: "r1 @ n # r2 = run_of f (f n) (as @ r1) @ n # run_of f (f n) (r2 @ cs)"
      using r by simp
    have "n \<notin> set r1" "n \<notin> set r2"
      using dx by auto
    then have "r1 = run_of f (f n) (as @ r1) \<and> r2 = run_of f (f n) (r2 @ cs)"
      using * append_Cons_eq_iff [of n r1 r2] by blast
    then show ?thesis unfolding rm run_of_simps(3) [of f "f n" "as @ r1"] by simp
  qed
  have oth: "run_of f b' (remove1 n xs) = run_of f b' xs" if "b' \<noteq> f n" for b'
    unfolding rm using that by (subst xs) simp
  have "delimits f (remove1 n xs) (bs[f n := ?bs ! f n])"
  proof (rule delimits_upd [OF dl oth])
    show "first_it (?bs ! f n) = at (run_of f (f n) (remove1 n xs))"
      unfolding own isf isl inc using lt l by (cases r1; cases r2) (auto simp: at_def)
    show "last_it (?bs ! f n) = at_end (run_of f (f n) (remove1 n xs))"
      unfolding own isf isl dec using lt l by (auto simp: at_end_def last_append)
  qed
  moreover have "bs[f n := ?bs ! f n] = ?bs"
    using lt by (auto simp: upd_bucket_def)
  ultimately show "delimits f (remove1 n xs) ?bs" by simp
qed


text \<open>What the invariant and the map become when a node goes.\<close>

lemma hm_inv_nonempty: "hm_inv hash idle m \<Longrightarrow> n \<in> set (hm_values m) \<Longrightarrow> num_buckets m \<noteq> 0"
  by (auto simp: hm_inv_def)

lemma node_erased:
  assumes inv: "hm_inv hash idle m" and n: "n \<in> set (hm_values m)"
    and vs: "hm_values m' = remove1 n (hm_values m)" "num_buckets m' = num_buckets m"
      "\<forall>x. x \<noteq> n \<longrightarrow> cell m' x = cell m x" "hm_size m' = hm_size m - 1"
      "hm_spares m' = n # hm_spares m" "next_node m' = next_node m"
      "length (buckets m') = length (buckets m)"
    and idl: "idle (snd (cell m' n))"
    and g: "grouped (bucket_fn hash (num_buckets m) (cell m)) (remove1 n (hm_values m))"
    and dl: "delimits (bucket_fn hash (num_buckets m) (cell m)) (remove1 n (hm_values m)) (buckets m')"
  shows "hm_inv hash idle m' \<and> hm_map m' = (hm_map m)(fst (cell m n) := None)"
proof -
  let ?xs = "remove1 n (hm_values m)"
  note b = hm_inv_buckets [OF inv]
  have sub: "x \<in> set ?xs \<longleftrightarrow> x \<in> set (hm_values m) \<and> x \<noteq> n" for x
    using b(1) by simp
  have fx: "bucket_fn hash (num_buckets m') (cell m') x = bucket_fn hash (num_buckets m) (cell m) x"
    if "x \<in> set ?xs" for x
    using that vs(2,3) unfolding sub bucket_fn_def by simp
  have "map (\<lambda>x. fst (cell m' x)) ?xs = map (\<lambda>x. fst (cell m x)) ?xs"
    by (rule map_cong [OF refl]) (use vs(3) sub in simp)
  moreover have "distinct (map (\<lambda>x. fst (cell m x)) ?xs)"
    using b(1,6) by (auto simp: distinct_map inj_on_def)
  ultimately have keys: "distinct (map (\<lambda>x. fst (cell m' x)) (hm_values m'))"
    unfolding vs(1) by (simp only:)
  have gd: "grouped (bucket_fn hash (num_buckets m') (cell m')) ?xs"
    "delimits (bucket_fn hash (num_buckets m') (cell m')) ?xs (buckets m')"
    using g dl grouped_cong [of ?xs "bucket_fn hash (num_buckets m') (cell m')", OF fx]
      delimits_cong [of ?xs "bucket_fn hash (num_buckets m') (cell m')", OF fx] by blast+
  have idle: "\<forall>x\<in>set (n # hm_spares m). idle (snd (cell m' x))"
  proof
    fix x
    assume "x \<in> set (n # hm_spares m)"
    then show "idle (snd (cell m' x))"
      using idl inv vs(3) by (cases "x = n") (auto simp: hm_inv_def)
  qed
  have "distinct (?xs @ n # hm_spares m) \<and> (\<forall>x\<in>set (?xs @ n # hm_spares m). x < next_node m)"
    using inv b(1) n sub by (auto simp: hm_inv_def)
  moreover have "hm_size m - 1 = length ?xs" using b(7) n by (simp add: length_remove1)
  moreover have "num_buckets m \<noteq> 0" by (rule hm_inv_nonempty [OF inv n])
  ultimately have inv': "hm_inv hash idle m'"
    using gd keys idle b(4) unfolding hm_inv_def vs by blast
  have uniq: "x = n" if "x \<in> set (hm_values m)" "fst (cell m x) = fst (cell m n)" for x
    using that n b(6) by (auto simp: distinct_map inj_on_def)
  have "hm_map m' = (hm_map m)(fst (cell m n) := None)"
  proof (rule map_Some_eqI)
    fix k v
    have "hm_map m' k = Some v \<longleftrightarrow> (\<exists>x\<in>set (hm_values m). x \<noteq> n \<and> cell m x = (k, v))"
      unfolding hm_map_Some_iff [OF keys] vs(1) using vs(3) sub by auto
    also have "\<dots> \<longleftrightarrow> k \<noteq> fst (cell m n) \<and> (\<exists>x\<in>set (hm_values m). cell m x = (k, v))"
      using uniq by (metis fst_conv)
    also have "\<dots> \<longleftrightarrow> ((hm_map m)(fst (cell m n) := None)) k = Some v"
      using hm_map_Some_iff [OF b(6), of k v] by simp
    finally show "hm_map m' k = Some v \<longleftrightarrow> ((hm_map m)(fst (cell m n) := None)) k = Some v" .
  qed
  then show ?thesis using inv' by blast
qed

text \<open>And when one comes.\<close>

lemma node_inserted:
  assumes inv: "hm_inv hash idle m" and n: "n \<notin> set (hm_values m)" and xs: "hm_values m = ys @ zs"
    and vs: "hm_values m' = ys @ n # zs" "num_buckets m' = num_buckets m"
      "cell m' = (cell m)(n := v)" "hm_size m' = hm_size m + 1"
      "set (hm_spares m') = set (hm_spares m) - {n}" "distinct (hm_spares m')"
      "next_node m \<le> next_node m'" "n < next_node m'" "length (buckets m') = length (buckets m)"
    and new: "hm_map m (fst v) = None" and nb: "num_buckets m \<noteq> 0"
    and g: "grouped (bucket_fn hash (num_buckets m') (cell m')) (hm_values m')"
    and dl: "delimits (bucket_fn hash (num_buckets m') (cell m')) (hm_values m') (buckets m')"
  shows "hm_inv hash idle m' \<and> hm_map m' = (hm_map m)(fst v \<mapsto> snd v)"
proof -
  note b = hm_inv_buckets [OF inv]
  have set: "set (hm_values m') = insert n (set (hm_values m))" using vs(1) xs by auto
  have nokey: "fst (cell m x) \<noteq> fst v" if "x \<in> set (hm_values m)" for x
  proof
    assume "fst (cell m x) = fst v"
    then have "hm_map m (fst v) = Some (snd (cell m x))"
      unfolding hm_map_Some_iff [OF b(6)] using that by (metis prod.collapse)
    then show False using new by simp
  qed
  have dv: "distinct (hm_values m')" using b(1) n unfolding vs(1) xs by auto
  have keys: "distinct (map (\<lambda>x. fst (cell m' x)) (hm_values m'))"
    using dv b(6) n nokey nokey [symmetric] unfolding distinct_map set vs(3)
    by (auto simp: inj_on_def dest: not_sym)
  have "distinct (hm_values m' @ hm_spares m')"
    using inv dv vs(6) n by (auto simp: hm_inv_def set vs(5))
  moreover have "\<forall>x\<in>set (hm_values m' @ hm_spares m'). x < next_node m'"
  proof
    fix x
    assume "x \<in> set (hm_values m' @ hm_spares m')"
    then have "x = n \<or> x < next_node m" using inv by (auto simp: hm_inv_def set vs(5))
    then show "x < next_node m'" using vs(7,8) by auto
  qed
  moreover have "\<forall>x\<in>set (hm_spares m'). idle (snd (cell m' x))"
    using inv unfolding vs(3,5) by (auto simp: hm_inv_def)
  moreover have "hm_size m + 1 = length (hm_values m')" using b(7) vs(1) xs by simp
  ultimately have inv': "hm_inv hash idle m'"
    using keys g dl b(4) nb vs(2,4,9) unfolding hm_inv_def by simp
  have "hm_map m' = (hm_map m)(fst v \<mapsto> snd v)"
  proof (rule map_Some_eqI)
    fix k w
    have "hm_map m' k = Some w \<longleftrightarrow> v = (k, w) \<or> (\<exists>x\<in>set (hm_values m). cell m x = (k, w))"
      unfolding hm_map_Some_iff [OF keys] set vs(3) using n by auto
    also have "\<dots> \<longleftrightarrow> (if k = fst v then snd v = w else \<exists>x\<in>set (hm_values m). cell m x = (k, w))"
      using nokey by (metis fst_conv snd_conv prod.collapse)
    also have "\<dots> \<longleftrightarrow> ((hm_map m)(fst v \<mapsto> snd v)) k = Some w"
      using hm_map_Some_iff [OF b(6), of k w] by simp
    finally show "hm_map m' k = Some w \<longleftrightarrow> ((hm_map m)(fst v \<mapsto> snd v)) k = Some w" .
  qed
  then show ?thesis using inv' by blast
qed

text \<open>
  The operations on the values: \<open>idle\<close> are the values an insertion may write, and those a node may be
  left with. On a node with an idle value, assigning another gives that other one.
\<close>

locale hash_values =
  fixes hash :: "'k \<Rightarrow> u64"
    and vo :: "'v value_ops"
    and idle :: "'v \<Rightarrow> bool"
  assumes copies: "idle v \<Longrightarrow> copy_value vo v = v"
    and assigns: "idle u \<Longrightarrow> idle v \<Longrightarrow> assign_value vo u v = v"
    and resets: "idle u \<Longrightarrow> idle (assign_value vo u (default_value vo))"
begin

definition fresh_node :: "('k, 'v) hash_map \<Rightarrow> node" where
  "fresh_node m = (case hm_spares m of [] \<Rightarrow> next_node m | n # _ \<Rightarrow> n)"

lemma values_insert_eq:
  assumes inv: "hm_inv hash idle m" and v: "idle (snd v)"
  shows "\<exists>m'. values_insert vo it v m = (m', fresh_node m) \<and> fresh_node m \<notin> set (hm_values m)
    \<and> hm_values m' = insert_before it (fresh_node m) (hm_values m)
    \<and> cell m' = (cell m)(fresh_node m := v) \<and> buckets m' = buckets m \<and> num_buckets m' = num_buckets m
    \<and> hm_size m' = hm_size m \<and> set (hm_spares m') = set (hm_spares m) - {fresh_node m}
    \<and> distinct (hm_spares m') \<and> next_node m \<le> next_node m' \<and> fresh_node m < next_node m'"
proof (cases "hm_spares m")
  case Nil
  have "next_node m \<notin> set (hm_values m)"
    using inv by (auto simp: hm_inv_def)
  then show ?thesis
    using Nil v copies [of "snd v"] by (simp add: values_insert_def fresh_node_def Let_def)
next
  case (Cons n ns)
  have "idle (snd (cell m n))" "n \<notin> set (hm_values m)" "distinct (n # ns)" "n < next_node m"
    using inv Cons by (auto simp: hm_inv_def)
  then show ?thesis
    using Cons v assigns [of "snd (cell m n)" "snd v"] by (auto simp: values_insert_def fresh_node_def)
qed

lemma erase_spec:
  assumes inv: "hm_inv hash idle m" and n: "n \<in> set (hm_values m)" and idl: "idle (snd (cell m n))"
  shows "\<exists>m'. erase_it hash vo k0 (Some n) m = Inr m' \<and> hm_inv hash idle m'
    \<and> hm_map m' = (hm_map m)(fst (cell m n) := None) \<and> num_buckets m' = num_buckets m
    \<and> hm_values m' = remove1 n (hm_values m) \<and> (\<forall>x. x \<noteq> n \<longrightarrow> cell m' x = cell m x)
    \<and> hm_size m' = hm_size m - 1"
proof -
  let ?f = "bucket_fn hash (num_buckets m) (cell m)"
  let ?m' = "case erase_it hash vo k0 (Some n) m of Inr m' \<Rightarrow> m' | Inl _ \<Rightarrow> m"
  note b = hm_inv_buckets [OF inv]
  have nb: "num_buckets m \<noteq> 0" by (rule hm_inv_nonempty [OF inv n])
  have lt: "?f n < length (buckets m)" using nb b(4) by (simp add: bucket_fn_def bucket_of_def)
  have bf: "bucket_of hash (num_buckets m) (fst (cell m n)) = ?f n" by (simp add: bucket_fn_def)
  note be = bucket_erased [OF b(2,3) lt b(1) n]
  have ok: "erase_it hash vo k0 (Some n) m = Inr ?m'"
    using nb by (simp add: erase_it_def Let_def)
  have vs: "hm_values ?m' = remove1 n (hm_values m)" "num_buckets ?m' = num_buckets m"
    "\<forall>x. x \<noteq> n \<longrightarrow> cell ?m' x = cell m x" "hm_size ?m' = hm_size m - 1"
    "hm_spares ?m' = n # hm_spares m" "next_node ?m' = next_node m"
    "snd (cell ?m' n) = assign_value vo (snd (cell m n)) (default_value vo)"
    "length (buckets ?m') = length (buckets m)"
    using nb by (simp_all add: erase_it_def values_erase_def Let_def)
  have "buckets ?m' = (let i = ?f n; is_first = (first_it (buckets m ! i) = Some n);
      is_last = (last_it (buckets m ! i) = Some n) in
      if is_first \<and> is_last then upd_bucket i (\<lambda>b. b\<lparr>first_it := None, last_it := None\<rparr>) (buckets m)
      else if is_first then upd_bucket i (\<lambda>b. b\<lparr>first_it := inc (hm_values m) n\<rparr>) (buckets m)
      else if is_last then upd_bucket i (\<lambda>b. b\<lparr>last_it := dec (hm_values m) (Some n)\<rparr>) (buckets m)
      else buckets m)"
    using nb by (simp add: erase_it_def values_erase_def Let_def bf)
  then have dl: "delimits ?f (remove1 n (hm_values m)) (buckets ?m')"
    using be(2) unfolding Let_def by presburger
  have "idle (snd (cell ?m' n))" using vs(7) resets [OF idl] by simp
  from node_erased [where m' = ?m', OF inv n vs(1,2,3,4,5,6,8) this be(1) dl]
  show ?thesis using ok vs by blast
qed

lemma insert_into:
  assumes inv: "hm_inv hash idle m" and v: "idle (snd v)" and nb: "num_buckets m \<noteq> 0"
    and new: "hm_map m (fst v) = None"
  defines "i \<equiv> bucket_of hash (num_buckets m) (fst v)"
  defines "it \<equiv> (if first_it (buckets m ! i) = None then None else inc (hm_values m) (the (last_it (buckets m ! i))))"
    and "upd \<equiv> \<lambda>n b. if first_it (buckets m ! i) = None then b\<lparr>first_it := Some n, last_it := Some n\<rparr>
      else b\<lparr>last_it := Some n\<rparr>"
  defines "m1 \<equiv> fst (values_insert vo it v m)" and "n \<equiv> snd (values_insert vo it v m)"
  defines "m' \<equiv> m1\<lparr>buckets := upd_bucket i (upd n) (buckets m1), hm_size := hm_size m1 + 1\<rparr>"
  shows "hm_inv hash idle m' \<and> hm_map m' = (hm_map m)(fst v \<mapsto> snd v) \<and> n \<in> set (hm_values m')
    \<and> cell m' n = v \<and> num_buckets m' = num_buckets m \<and> hm_size m' = hm_size m + 1"
proof -
  let ?f = "bucket_fn hash (num_buckets m') (cell m')"
  note b = hm_inv_buckets [OF inv]
  have n: "n \<notin> set (hm_values m)" "hm_values m' = insert_before it n (hm_values m)"
    "cell m' = (cell m)(n := v)" "buckets m' = upd_bucket i (upd n) (buckets m)"
    "num_buckets m' = num_buckets m" "hm_size m' = hm_size m + 1"
    "set (hm_spares m') = set (hm_spares m) - {n}" "distinct (hm_spares m')"
    "next_node m \<le> next_node m'" "n < next_node m'"
  proof -
    from values_insert_eq [OF inv v, of it] obtain m2 where m2: "values_insert vo it v m = (m2, fresh_node m)"
      and e: "fresh_node m \<notin> set (hm_values m)"
      "hm_values m2 = insert_before it (fresh_node m) (hm_values m)"
      "cell m2 = (cell m)(fresh_node m := v)" "buckets m2 = buckets m" "num_buckets m2 = num_buckets m"
      "hm_size m2 = hm_size m" "set (hm_spares m2) = set (hm_spares m) - {fresh_node m}"
      "distinct (hm_spares m2)" "next_node m \<le> next_node m2" "fresh_node m < next_node m2" by blast
    have "m1 = m2" "n = fresh_node m" unfolding m1_def n_def m2 by simp_all
    then show "n \<notin> set (hm_values m)" "hm_values m' = insert_before it n (hm_values m)"
      "cell m' = (cell m)(n := v)" "buckets m' = upd_bucket i (upd n) (buckets m)"
      "num_buckets m' = num_buckets m" "hm_size m' = hm_size m + 1"
      "set (hm_spares m') = set (hm_spares m) - {n}" "distinct (hm_spares m')"
      "next_node m \<le> next_node m'" "n < next_node m'"
      using e unfolding m'_def by simp_all
  qed
  have fn: "?f n = i" unfolding i_def bucket_fn_def n(3,5) by simp
  have fx: "?f x = bucket_fn hash (num_buckets m) (cell m) x" if "x \<in> set (hm_values m)" for x
    using that n(1) unfolding bucket_fn_def n(3,5) by auto
  have g: "grouped ?f (hm_values m)" and dl: "delimits ?f (hm_values m) (buckets m)"
    using b(2,3) grouped_cong [of "hm_values m" ?f, OF fx] delimits_cong [of "hm_values m" ?f, OF fx] by blast+
  have lt: "?f n < length (buckets m)" unfolding fn i_def using b(4) nb by (simp add: bucket_of_def)
  have "distinct (n # hm_values m)" using b(1) n(1) by simp
  from bucket_inserted [OF g dl lt this] obtain ys zs where xs: "hm_values m = ys @ zs"
    and gn: "grouped ?f (ys @ n # zs)"
    and cs: "if first_it (buckets m ! i) = None
        then zs = [] \<and> delimits ?f (ys @ [n]) (upd_bucket i (\<lambda>b. b\<lparr>first_it := Some n, last_it := Some n\<rparr>) (buckets m))
        else (\<exists>l. last_it (buckets m ! i) = Some l \<and> insert_before (inc (hm_values m) l) n (hm_values m) = ys @ n # zs
          \<and> delimits ?f (ys @ n # zs) (upd_bucket i (\<lambda>b. b\<lparr>last_it := Some n\<rparr>) (buckets m)))"
    unfolding fn by blast
  have vs: "hm_values m' = ys @ n # zs" "delimits ?f (ys @ n # zs) (buckets m')"
    unfolding n(2,4) using cs xs
    by (cases "first_it (buckets m ! i) = None"; auto simp: it_def upd_def insert_before_end)+
  have "hm_inv hash idle m' \<and> hm_map m' = (hm_map m)(fst v \<mapsto> snd v)"
    by (rule node_inserted [OF inv n(1) xs vs(1) n(5,3,6,7,8,9,10) _ new nb])
      (use gn vs n(4) in simp_all)
  then show ?thesis unfolding vs(1) n(3,5,6) by simp
qed

text \<open>The load of the buckets that \<^verbatim>\<open>insert\<close> establishes before it looks for the key.\<close>

definition ready_for :: "('k, 'v) hash_map \<Rightarrow> ('k, 'v) hash_map" where
  "ready_for m =
     (if hm_size m + 1 \<ge> num_buckets m then rehash hash (hash_size (hm_size m + 1)) m else m)"

lemma ready_for_spec:
  assumes "hm_inv hash idle m"
  shows "hm_inv hash idle (ready_for m)" "hm_map (ready_for m) = hm_map m"
    "num_buckets (ready_for m) \<noteq> 0" "hm_size (ready_for m) = hm_size m"
    "cell (ready_for m) = cell m" "set (hm_values (ready_for m)) = set (hm_values m)"
    "hm_size m + 1 < num_buckets (ready_for m) \<or> num_buckets (ready_for m) = last hash_sizes"
  using assms rehash_spec [OF assms hash_size_pos] hash_size_gt [of "hm_size m + 1"]
    hash_size_pos [of "hm_size m + 1"]
  by (auto simp: ready_for_def)

lemma find_loop_first:
  assumes "hm_find hash k m = Inr r" "num_buckets m \<noteq> 0"
    and "first_it (buckets m ! bucket_of hash (num_buckets m) k) = Some f"
  shows "\<exists>l. last_it (buckets m ! bucket_of hash (num_buckets m) k) = Some l
    \<and> find_loop (cell m) k (inc (hm_values m) l) (from_it (hm_values m) (Some f)) = Inr r"
  using assms by (auto simp: hm_find_def Let_def split: option.splits)

lemma insert_spec:
  assumes inv: "hm_inv hash idle m" and v: "idle (snd v)"
  shows "\<exists>m' n b. insert_value hash vo v m = Inr (m', n, b) \<and> hm_inv hash idle m'
    \<and> n \<in> set (hm_values m') \<and> fst (cell m' n) = fst v
    \<and> b = (hm_map m (fst v) = None)
    \<and> hm_map m' = (if b then (hm_map m)(fst v \<mapsto> snd v) else hm_map m)
    \<and> hm_size m' = (if b then hm_size m + 1 else hm_size m)
    \<and> (hm_size m' < num_buckets m' \<or> num_buckets m' = last hash_sizes)"
proof -
  define m1 where "m1 = ready_for m"
  note r = ready_for_spec [OF inv, folded m1_def]
  let ?i = "bucket_of hash (num_buckets m1) (fst v)"
  let ?F = "List.find (\<lambda>n. fst (cell m1 n) = fst v) (hm_values m1)"
  have f: "hm_find hash (fst v) m1 = Inr ?F" by (rule hm_find_eq [OF r(1)])
  have eq: "insert_value hash vo v m = (case first_it (buckets m1 ! ?i) of
      None \<Rightarrow>
        let (m, n) = values_insert vo None v m1 in
        Inr (m\<lparr>buckets := upd_bucket ?i (\<lambda>b. b\<lparr>first_it := Some n, last_it := Some n\<rparr>) (buckets m),
               hm_size := hm_size m + 1\<rparr>, n, True)
    | Some f \<Rightarrow>
        (case last_it (buckets m1 ! ?i) of
           None \<Rightarrow> Inl UndefinedBehaviour
         | Some l \<Rightarrow>
             let end_it = inc (hm_values m1) l in
             and_then (find_loop (cell m1) (fst v) end_it (from_it (hm_values m1) (Some f))) (\<lambda>r.
               case r of
                 Some n \<Rightarrow> Inr (m1, n, False)
               | None \<Rightarrow>
                   let (m, n) = values_insert vo end_it v m1 in
                   Inr (m\<lparr>buckets := upd_bucket ?i (\<lambda>b. b\<lparr>last_it := Some n\<rparr>) (buckets m),
                          hm_size := hm_size m + 1\<rparr>, n, True))))"
    unfolding insert_value_def m1_def ready_for_def Let_def by (rule refl)
  show ?thesis
  proof (cases ?F)
    case None
    then have new: "hm_map m1 (fst v) = None" by (simp add: hm_map_find)
    have inserted: ?thesis
      if "insert_value hash vo v m = Inr (m', n, True)"
        and "hm_inv hash idle m' \<and> hm_map m' = (hm_map m1)(fst v \<mapsto> snd v) \<and> n \<in> set (hm_values m')
          \<and> cell m' n = v \<and> num_buckets m' = num_buckets m1 \<and> hm_size m' = hm_size m1 + 1" for m' n
      by (rule exI [of _ m'], rule exI [of _ n], rule exI [of _ True])
        (use that new r(2,4,7) in simp)
    show ?thesis
    proof (cases "first_it (buckets m1 ! ?i)")
      case None
      obtain m2 n where vi: "values_insert vo None v m1 = (m2, n)" by (rule prod.exhaust)
      let ?m' = "m2\<lparr>buckets := upd_bucket ?i (\<lambda>b. b\<lparr>first_it := Some n, last_it := Some n\<rparr>) (buckets m2),
        hm_size := hm_size m2 + 1\<rparr>"
      have "insert_value hash vo v m = Inr (?m', n, True)"
        unfolding eq by (simp add: None vi)
      then show ?thesis
        by (rule inserted) (use insert_into [OF r(1) v r(3) new] in \<open>auto simp: None vi\<close>)
    next
      case (Some f0)
      from find_loop_first [OF f r(3) Some] obtain l where l: "last_it (buckets m1 ! ?i) = Some l"
        "find_loop (cell m1) (fst v) (inc (hm_values m1) l) (from_it (hm_values m1) (Some f0)) = Inr ?F"
        by blast
      obtain m2 n where vi: "values_insert vo (inc (hm_values m1) l) v m1 = (m2, n)" by (rule prod.exhaust)
      let ?m' = "m2\<lparr>buckets := upd_bucket ?i (\<lambda>b. b\<lparr>last_it := Some n\<rparr>) (buckets m2),
        hm_size := hm_size m2 + 1\<rparr>"
      have "insert_value hash vo v m = Inr (?m', n, True)"
        unfolding eq by (simp add: Some l vi None)
      then show ?thesis
        by (rule inserted) (use insert_into [OF r(1) v r(3) new] in \<open>auto simp: Some l vi\<close>)
    qed
  next
    case (Some n)
    note n = find_Some_cell [OF Some]
    have old: "hm_map m1 (fst v) \<noteq> None" using Some by (simp add: hm_map_find)
    have "first_it (buckets m1 ! ?i) \<noteq> None"
      using f Some r(3) by (auto simp: hm_find_def Let_def split: option.splits)
    then obtain f0 where f0: "first_it (buckets m1 ! ?i) = Some f0" by blast
    from find_loop_first [OF f r(3) f0] obtain l where l: "last_it (buckets m1 ! ?i) = Some l"
      "find_loop (cell m1) (fst v) (inc (hm_values m1) l) (from_it (hm_values m1) (Some f0)) = Inr ?F"
      by blast
    have "insert_value hash vo v m = Inr (m1, n, False)"
      unfolding eq by (simp add: f0 l Some)
    then show ?thesis using n old r by auto
  qed
qed

lemma find_spec:
  assumes "hm_inv hash idle m"
  shows "\<exists>r. hm_find hash k m = Inr r \<and> hm_map m k = map_option (\<lambda>n. snd (cell m n)) r
    \<and> (\<forall>n. r = Some n \<longrightarrow> n \<in> set (hm_values m) \<and> fst (cell m n) = k)"
  using hm_find_eq [OF assms, of k] find_Some_cell by (auto simp: hm_map_find)

lemma erase_key_spec:
  assumes inv: "hm_inv hash idle m" and idl: "\<And>v. hm_map m k = Some v \<Longrightarrow> idle v"
  shows "\<exists>m'. erase_key hash vo k0 k m = Inr m' \<and> hm_inv hash idle m' \<and> hm_map m' = (hm_map m)(k := None)"
proof -
  obtain r where r: "hm_find hash k m = Inr r" "hm_map m k = map_option (\<lambda>n. snd (cell m n)) r"
    "\<forall>n. r = Some n \<longrightarrow> n \<in> set (hm_values m) \<and> fst (cell m n) = k"
    using find_spec [OF inv] by blast
  show ?thesis
  proof (cases r)
    case None
    then show ?thesis using r inv by (simp add: erase_key_def fun_upd_idem)
  next
    case (Some n)
    then have n: "n \<in> set (hm_values m)" "fst (cell m n) = k" using r(3) by auto
    have "idle (snd (cell m n))" using idl r(2) Some by simp
    from erase_spec [OF inv n(1) this, of k0] show ?thesis
      using r(1) Some n(2) by (auto simp: erase_key_def)
  qed
qed

lemma clear_spec:
  assumes "hm_inv hash idle m"
  shows "hm_inv hash idle (hm_clear m)" "hm_map (hm_clear m) = (\<lambda>_. None)"
  using assms by (auto simp: hm_inv_def hm_clear_def hm_map_def delimits_def)

end

lemma new_hash_map_spec:
  "hm_inv hash idle (new_hash_map k0 v0)" "hm_map (new_hash_map k0 v0) = (\<lambda>_. None)"
  by (auto simp: hm_inv_def new_hash_map_def hm_map_def delimits_def)

lemma hm_map_set_value:
  assumes inv: "hm_inv hash idle m" and n: "n \<in> set (hm_values m)"
  shows "hm_inv hash idle (set_value n v m)" "hm_map (set_value n v m) = (hm_map m)(fst (cell m n) \<mapsto> v)"
proof -
  let ?c = "cell (set_value n v m)"
  note b = hm_inv_buckets [OF inv]
  have key: "fst (?c x) = fst (cell m x)" for x by (simp add: set_value_def)
  then have fx: "bucket_fn hash nb ?c = bucket_fn hash nb (cell m)" for nb
    by (simp add: bucket_fn_def fun_eq_iff)
  have "n \<notin> set (hm_spares m)" using inv n by (auto simp: hm_inv_def)
  then show inv': "hm_inv hash idle (set_value n v m)"
    using inv fx key unfolding hm_inv_def by (auto simp: set_value_def)
  have vs: "hm_values (set_value n v m) = hm_values m" by (simp add: set_value_def)
  have uniq: "x = n" if "x \<in> set (hm_values m)" "fst (cell m x) = fst (cell m n)" for x
    using that n b(6) by (auto simp: distinct_map inj_on_def)
  show "hm_map (set_value n v m) = (hm_map m)(fst (cell m n) \<mapsto> v)"
  proof (rule map_Some_eqI)
    fix k w
    have "hm_map (set_value n v m) k = Some w \<longleftrightarrow> (\<exists>x\<in>set (hm_values m). ?c x = (k, w))"
      unfolding hm_map_Some_iff [OF hm_inv_buckets(6) [OF inv']] vs by (rule refl)
    also have "\<dots> \<longleftrightarrow> (if k = fst (cell m n) then w = v else \<exists>x\<in>set (hm_values m). cell m x = (k, w))"
    proof (cases "k = fst (cell m n)")
      case True
      then show ?thesis using n uniq by (auto simp: set_value_def)
    next
      case False
      then have "?c x = (k, w) \<longleftrightarrow> cell m x = (k, w)" for x by (auto simp: set_value_def)
      then show ?thesis using False by simp
    qed
    also have "\<dots> \<longleftrightarrow> ((hm_map m)(fst (cell m n) \<mapsto> v)) k = Some w"
      using hm_map_Some_iff [OF b(6), of k w] by auto
    finally show "hm_map (set_value n v m) k = Some w \<longleftrightarrow> ((hm_map m)(fst (cell m n) \<mapsto> v)) k = Some w" .
  qed
qed


section \<open>Plain data\<close>

interpretation pod_values: hash_values hash "pod_ops dflt" "\<lambda>_. True" for hash dflt
  by unfold_locales (simp_all add: pod_ops_def)

text \<open>
  Property C32. The hash map is a map, whatever the hash function. With its invariant, which the empty map has and
  every operation keeps: \<open>find\<close> returns the node of the key, or \<open>end()\<close> when it has none; \<open>insert\<close> says whether the key was
  new, in which case it now has the value, and otherwise changes no value, and returns its node; \<open>erase\<close> removes the
  key and no other; \<open>clear\<close> empties the map. No operation goes past the end of the list. After an insertion there
  are more buckets than values, as long as the table of sizes has one.
\<close>

theorem hash_map_refines_map:
  assumes inv: "hm_inv hash (\<lambda>_. True) m"
  shows
    "(\<exists>r. hm_find hash k m = Inr r \<and> hm_map m k = map_option (\<lambda>n. snd (cell m n)) r
       \<and> (\<forall>n. r = Some n \<longrightarrow> fst (cell m n) = k))
     \<and> (\<exists>m' n b. insert_value hash (pod_ops v0) (k, v) m = Inr (m', n, b) \<and> hm_inv hash (\<lambda>_. True) m'
       \<and> b = (hm_map m k = None) \<and> hm_map m' = (if b then (hm_map m)(k \<mapsto> v) else hm_map m)
       \<and> n \<in> set (hm_values m') \<and> fst (cell m' n) = k
       \<and> (hm_size m' < num_buckets m' \<or> num_buckets m' = 25165843))
     \<and> (\<exists>m'. erase_key hash (pod_ops v0) k0 k m = Inr m' \<and> hm_inv hash (\<lambda>_. True) m'
       \<and> hm_map m' = (hm_map m)(k := None))
     \<and> hm_inv hash (\<lambda>_. True) (hm_clear m) \<and> hm_map (hm_clear m) = Map.empty
     \<and> hm_inv hash (\<lambda>_. True) (new_hash_map k0 v0) \<and> hm_map (new_hash_map k0 v0) = Map.empty"
proof (intro conjI)
  show "\<exists>r. hm_find hash k m = Inr r \<and> hm_map m k = map_option (\<lambda>n. snd (cell m n)) r
      \<and> (\<forall>n. r = Some n \<longrightarrow> fst (cell m n) = k)"
    using pod_values.find_spec [OF inv, of k] by blast
  show "\<exists>m' n b. insert_value hash (pod_ops v0) (k, v) m = Inr (m', n, b) \<and> hm_inv hash (\<lambda>_. True) m'
       \<and> b = (hm_map m k = None) \<and> hm_map m' = (if b then (hm_map m)(k \<mapsto> v) else hm_map m)
       \<and> n \<in> set (hm_values m') \<and> fst (cell m' n) = k
       \<and> (hm_size m' < num_buckets m' \<or> num_buckets m' = 25165843)"
  proof -
    from pod_values.insert_spec [where v = "(k, v)" and dflt = v0, OF inv TrueI, unfolded fst_conv snd_conv]
    obtain m' n b where o: "insert_value hash (pod_ops v0) (k, v) m = Inr (m', n, b)"
      "hm_inv hash (\<lambda>_. True) m'" "b = (hm_map m k = None)"
      "hm_map m' = (if b then (hm_map m)(k \<mapsto> v) else hm_map m)"
      "n \<in> set (hm_values m')" "fst (cell m' n) = k"
      and l: "hm_size m' < num_buckets m' \<or> num_buckets m' = last hash_sizes"
      by blast
    have "last hash_sizes = 25165843" by (simp add: hash_sizes_def)
    then have l': "hm_size m' < num_buckets m' \<or> num_buckets m' = 25165843" using l by (simp only:)
    show ?thesis
      by (rule exI [of _ m'], rule exI [of _ n], rule exI [of _ b]) (intro conjI o l')
  qed
  show "\<exists>m'. erase_key hash (pod_ops v0) k0 k m = Inr m' \<and> hm_inv hash (\<lambda>_. True) m'
       \<and> hm_map m' = (hm_map m)(k := None)"
    using pod_values.erase_key_spec [OF inv, of k] by simp
qed (use pod_values.clear_spec [OF inv] new_hash_map_spec in auto)

text \<open>Two values in the last of three buckets; inserting a third one rehashes.\<close>

definition two_values :: "(u64, nat) hash_map" where
  "two_values = \<lparr>hm_size = 2, hm_values = [3, 4], hm_spares = [2],
     cell = (\<lambda>n. if n = 3 then (2, 7) else if n = 4 then (5, 8) else (0, 0)), next_node = 5,
     buckets = [\<lparr>first_it = None, last_it = None\<rparr>, \<lparr>first_it = None, last_it = None\<rparr>,
       \<lparr>first_it = Some 3, last_it = Some 4\<rparr>], num_buckets = 3\<rparr>"

lemma two_values_inv: "hm_inv calculate_hash_value_socket (\<lambda>_. True) two_values"
proof -
  let ?f = "bucket_fn calculate_hash_value_socket 3 (cell two_values)"
  have b: "?f 3 = 2" "?f 4 = 2"
    by (simp_all add: bucket_fn_def bucket_of_def calculate_hash_value_socket_def two_values_def)
  have "delimits ?f [3, 4] (buckets two_values)"
    unfolding delimits_def
  proof (intro allI impI)
    fix i
    assume "i < length (buckets two_values)"
    then consider "i = 0" | "i = 1" | "i = 2"
      by (simp add: two_values_def) linarith
    then show "first_it (buckets two_values ! i) = at (run_of ?f i [3, 4])
        \<and> last_it (buckets two_values ! i) = at_end (run_of ?f i [3, 4])"
      by cases (use b in \<open>simp_all add: two_values_def at_def at_end_def\<close>)
  qed
  moreover have "grouped ?f [3, 4]" using b by simp
  moreover have "hm_values two_values = [3, 4]" "num_buckets two_values = 3" by (simp_all add: two_values_def)
  ultimately show ?thesis
    unfolding hm_inv_def by (simp add: two_values_def)
qed

lemma hash_map_refines_map_witness:
  "hm_map two_values 5 = Some 8
   \<and> (\<exists>m'. erase_key calculate_hash_value_socket (pod_ops 0) 0 5 two_values = Inr m'
        \<and> hm_map m' = (hm_map two_values)(5 := None))
   \<and> (\<exists>m' n b. insert_value calculate_hash_value_socket (pod_ops 0) (5, 9) two_values = Inr (m', n, b)
        \<and> \<not> b \<and> hm_map m' = hm_map two_values)"
proof -
  have "hm_map two_values 5 = Some 8" by (simp add: hm_map_def two_values_def)
  then show ?thesis
    using hash_map_refines_map [OF two_values_inv, of 5 0 9 0] by auto
qed

end
