(* ===== verification/ReactorQueue.thy ===== *)
theory ReactorQueue
  imports HashMapRefinement
begin

text \<open>
  \<^verbatim>\<open>asio/detail/reactor_op_queue.hpp\<close> and \<^verbatim>\<open>asio/detail/reactor_op.hpp\<close>: for each descriptor the queue of
  the operations that wait for it, in the hash map of \<open>HashMap\<close>.

  The operations are numbers; \<open>reactor_ops\<close> is the store of their fields. The queue of a descriptor is
  a list (\<open>OpQueue\<close> shows that the linked queue is one). \<open>perf\<close> is \<^verbatim>\<open>perform_func_\<close> of the operations: it reads
  and writes the fields of its own operation and a world \<open>'w\<close>, the sockets and the buffers.

  The values of the map are of \<^verbatim>\<open>mapped_type\<close>, whose copy constructor and assignment do nothing: a new node has
  an empty queue, and a recycled one the queue it was left with. The map is correct on them because a queue is
  empty when its node is erased; the locale \<open>hash_values\<close> is interpreted here with \<open>[]\<close> as the idle value.

  \<open>rq_table\<close> is the queue of each descriptor. Each operation on the map is one on that table, and keeps
  \<open>rq_inv\<close>: the map's invariant, and no entry without operations.
\<close>

section \<open>The operations of a descriptor\<close>

datatype reactor_error = NoError | OperationAborted | FdSetFailure | OtherError nat

datatype status = NotDone | Done | DoneAndExhausted

record reactor_op =
  rop_ec :: reactor_error
  rop_key :: nat
  bytes_transferred :: nat

type_synonym reactor_ops = "nat \<Rightarrow> reactor_op"
type_synonym 'w perform_func = "nat \<Rightarrow> reactor_op \<times> 'w \<Rightarrow> status \<times> reactor_op \<times> 'w"

definition new_reactor_op :: "reactor_error \<Rightarrow> reactor_op" where
  "new_reactor_op success_ec = \<lparr>rop_ec = success_ec, rop_key = 0, bytes_transferred = 0\<rparr>"

definition mapped_type_ops :: "nat list value_ops" where
  "mapped_type_ops = \<lparr>copy_value = \<lambda>_. [], assign_value = \<lambda>this _. this, default_value = []\<rparr>"

interpretation mapped: hash_values hash mapped_type_ops "\<lambda>v. v = []" for hash
  by unfold_locales (simp_all add: mapped_type_ops_def)

type_synonym 'd reactor_op_queue = "('d, nat list) hash_map"

definition new_reactor_op_queue :: "'d \<Rightarrow> 'd reactor_op_queue" where
  "new_reactor_op_queue d0 = new_hash_map d0 []"

section \<open>The operations\<close>

definition enqueue_operation ::
    "('d \<Rightarrow> u64) \<Rightarrow> 'd \<Rightarrow> nat \<Rightarrow> 'd reactor_op_queue \<Rightarrow> fault + ('d reactor_op_queue \<times> bool)" where
  "enqueue_operation hash descriptor op q =
     and_then (insert_value hash mapped_type_ops (descriptor, default_value mapped_type_ops) q) (\<lambda>(q, n, entry_second).
       Inr (set_value n (snd (cell q n) @ [op]) q, entry_second))"

fun cancel_ops_loop :: "reactor_error \<Rightarrow> nat list \<Rightarrow> reactor_ops \<times> nat list \<Rightarrow> reactor_ops \<times> nat list" where
  "cancel_ops_loop ec [] s = s"
| "cancel_ops_loop ec (op # rest) (st, ops) =
     cancel_ops_loop ec rest (st(op := (st op)\<lparr>rop_ec := ec\<rparr>), ops @ [op])"

definition cancel_operations_it ::
    "('d \<Rightarrow> u64) \<Rightarrow> 'd \<Rightarrow> iter \<Rightarrow> reactor_error \<Rightarrow> 'd reactor_op_queue \<times> reactor_ops \<times> nat list \<Rightarrow>
     fault + (bool \<times> 'd reactor_op_queue \<times> reactor_ops \<times> nat list)" where
  "cancel_operations_it hash d0 it ec = (\<lambda>(q, st, ops).
     case it of
       Some n \<Rightarrow>
         let (st, ops) = cancel_ops_loop ec (snd (cell q n)) (st, ops) in
         and_then (erase_it hash mapped_type_ops d0 it (set_value n [] q)) (\<lambda>q. Inr (True, q, st, ops))
     | None \<Rightarrow> Inr (False, q, st, ops))"

definition cancel_operations ::
    "('d \<Rightarrow> u64) \<Rightarrow> 'd \<Rightarrow> 'd \<Rightarrow> reactor_error \<Rightarrow> 'd reactor_op_queue \<times> reactor_ops \<times> nat list \<Rightarrow>
     fault + (bool \<times> 'd reactor_op_queue \<times> reactor_ops \<times> nat list)" where
  "cancel_operations hash d0 descriptor ec = (\<lambda>(q, st, ops).
     and_then (hm_find hash descriptor q) (\<lambda>it. cancel_operations_it hash d0 it ec (q, st, ops)))"

fun cancel_by_key_loop ::
    "nat \<Rightarrow> reactor_error \<Rightarrow> nat list \<Rightarrow> reactor_ops \<times> nat list \<times> nat list \<times> bool \<Rightarrow>
     reactor_ops \<times> nat list \<times> nat list \<times> bool" where
  "cancel_by_key_loop key ec [] s = s"
| "cancel_by_key_loop key ec (op # rest) (st, ops, other_ops, result) =
     (if rop_key (st op) = key then
        cancel_by_key_loop key ec rest (st(op := (st op)\<lparr>rop_ec := ec\<rparr>), ops @ [op], other_ops, True)
      else cancel_by_key_loop key ec rest (st, ops, other_ops @ [op], result))"

definition cancel_operations_by_key_it ::
    "('d \<Rightarrow> u64) \<Rightarrow> 'd \<Rightarrow> iter \<Rightarrow> nat \<Rightarrow> reactor_error \<Rightarrow> 'd reactor_op_queue \<times> reactor_ops \<times> nat list \<Rightarrow>
     fault + (bool \<times> 'd reactor_op_queue \<times> reactor_ops \<times> nat list)" where
  "cancel_operations_by_key_it hash d0 it key ec = (\<lambda>(q, st, ops).
     case it of
       Some n \<Rightarrow>
         let (st, ops, other_ops, result) = cancel_by_key_loop key ec (snd (cell q n)) (st, ops, [], False);
             q = set_value n ([] @ other_ops) q
         in if snd (cell q n) = [] then
              and_then (erase_it hash mapped_type_ops d0 it q) (\<lambda>q. Inr (result, q, st, ops))
            else Inr (result, q, st, ops)
     | None \<Rightarrow> Inr (False, q, st, ops))"

definition cancel_operations_by_key ::
    "('d \<Rightarrow> u64) \<Rightarrow> 'd \<Rightarrow> 'd \<Rightarrow> nat \<Rightarrow> reactor_error \<Rightarrow> 'd reactor_op_queue \<times> reactor_ops \<times> nat list \<Rightarrow>
     fault + (bool \<times> 'd reactor_op_queue \<times> reactor_ops \<times> nat list)" where
  "cancel_operations_by_key hash d0 descriptor key ec = (\<lambda>(q, st, ops).
     and_then (hm_find hash descriptor q) (\<lambda>it.
       cancel_operations_by_key_it hash d0 it key ec (q, st, ops)))"

definition rq_empty :: "'d reactor_op_queue \<Rightarrow> bool" where
  "rq_empty q \<longleftrightarrow> hm_empty q"

definition has_operation :: "('d \<Rightarrow> u64) \<Rightarrow> 'd \<Rightarrow> 'd reactor_op_queue \<Rightarrow> fault + bool" where
  "has_operation hash descriptor q = and_then (hm_find hash descriptor q) (\<lambda>it. Inr (it \<noteq> None))"

text \<open>The loop of \<^verbatim>\<open>perform_operations\<close>: whether it returned early, what is left of the queue.\<close>

fun perform_loop ::
    "'w perform_func \<Rightarrow> nat list \<Rightarrow> reactor_ops \<times> 'w \<times> nat list \<Rightarrow>
     bool \<times> nat list \<times> reactor_ops \<times> 'w \<times> nat list" where
  "perform_loop perf [] s = (False, [], s)"
| "perform_loop perf (op # rest) (st, w, ops) =
     (let (result, o', w) = perf op (st op, w);
          st = st(op := o')
      in if result \<noteq> NotDone then perform_loop perf rest (st, w, ops @ [op])
         else (True, op # rest, st, w, ops))"

definition perform_operations_it ::
    "('d \<Rightarrow> u64) \<Rightarrow> 'd \<Rightarrow> 'w perform_func \<Rightarrow> iter \<Rightarrow> 'd reactor_op_queue \<times> reactor_ops \<times> 'w \<times> nat list \<Rightarrow>
     fault + (bool \<times> 'd reactor_op_queue \<times> reactor_ops \<times> 'w \<times> nat list)" where
  "perform_operations_it hash d0 perf it = (\<lambda>(q, st, w, ops).
     case it of
       Some n \<Rightarrow>
         let (unfinished, rest, st, w, ops) = perform_loop perf (snd (cell q n)) (st, w, ops);
             q = set_value n rest q
         in if unfinished then Inr (True, q, st, w, ops)
            else and_then (erase_it hash mapped_type_ops d0 it q) (\<lambda>q. Inr (False, q, st, w, ops))
     | None \<Rightarrow> Inr (False, q, st, w, ops))"

definition perform_operations ::
    "('d \<Rightarrow> u64) \<Rightarrow> 'd \<Rightarrow> 'w perform_func \<Rightarrow> 'd \<Rightarrow> 'd reactor_op_queue \<times> reactor_ops \<times> 'w \<times> nat list \<Rightarrow>
     fault + (bool \<times> 'd reactor_op_queue \<times> reactor_ops \<times> 'w \<times> nat list)" where
  "perform_operations hash d0 perf descriptor = (\<lambda>(q, st, w, ops).
     and_then (hm_find hash descriptor q) (\<lambda>it. perform_operations_it hash d0 perf it (q, st, w, ops)))"

text \<open>The iterator is advanced before its entry is erased, so the loop is over the nodes still to come.\<close>

fun get_all_loop ::
    "('d \<Rightarrow> u64) \<Rightarrow> 'd \<Rightarrow> node list \<Rightarrow> 'd reactor_op_queue \<times> nat list \<Rightarrow>
     fault + ('d reactor_op_queue \<times> nat list)" where
  "get_all_loop hash d0 [] s = Inr s"
| "get_all_loop hash d0 (op_iter # i) (q, ops) =
     (let ops = ops @ snd (cell q op_iter);
          q = set_value op_iter [] q
      in and_then (erase_it hash mapped_type_ops d0 (Some op_iter) q) (\<lambda>q.
           get_all_loop hash d0 i (q, ops)))"

definition get_all_operations ::
    "('d \<Rightarrow> u64) \<Rightarrow> 'd \<Rightarrow> 'd reactor_op_queue \<times> nat list \<Rightarrow> fault + ('d reactor_op_queue \<times> nat list)" where
  "get_all_operations hash d0 = (\<lambda>(q, ops). get_all_loop hash d0 (hm_values q) (q, ops))"


section \<open>The table of the queue\<close>

definition rq_table :: "'d reactor_op_queue \<Rightarrow> 'd \<Rightarrow> nat list" where
  "rq_table q d = (case hm_map q d of None \<Rightarrow> [] | Some ops \<Rightarrow> ops)"

definition rq_inv :: "('d \<Rightarrow> u64) \<Rightarrow> 'd reactor_op_queue \<Rightarrow> bool" where
  "rq_inv hash q \<longleftrightarrow> hm_inv hash (\<lambda>v. v = []) q \<and> (\<forall>d. hm_map q d \<noteq> Some [])"

lemma rq_new: "rq_inv hash (new_reactor_op_queue d0)" "rq_table (new_reactor_op_queue d0) = (\<lambda>_. [])"
  using new_hash_map_spec(1) [of hash "\<lambda>v. v = []" d0 "[]"] new_hash_map_spec(2) [of d0 "[]::nat list"]
  by (simp_all add: rq_inv_def rq_table_def new_reactor_op_queue_def fun_eq_iff)

lemma rq_node:
  assumes "rq_inv hash q" "n \<in> set (hm_values q)"
  shows "snd (cell q n) = rq_table q (fst (cell q n))" "rq_table q (fst (cell q n)) \<noteq> []"
proof -
  have "hm_map q (fst (cell q n)) = Some (snd (cell q n))"
    using hm_map_Some_iff [OF hm_inv_buckets(6), of hash _ q] assms by (force simp: rq_inv_def)
  then show "snd (cell q n) = rq_table q (fst (cell q n))" "rq_table q (fst (cell q n)) \<noteq> []"
    using assms(1) by (auto simp: rq_table_def rq_inv_def)
qed

lemma rq_find:
  assumes "rq_inv hash q"
  shows "\<exists>r. hm_find hash d q = Inr r \<and> (r = None \<longleftrightarrow> rq_table q d = [])
    \<and> (\<forall>n. r = Some n \<longrightarrow> n \<in> set (hm_values q) \<and> fst (cell q n) = d)"
proof -
  from mapped.find_spec [of hash q d] assms obtain r where r: "hm_find hash d q = Inr r"
    "hm_map q d = map_option (\<lambda>n. snd (cell q n)) r"
    "\<forall>n. r = Some n \<longrightarrow> n \<in> set (hm_values q) \<and> fst (cell q n) = d"
    by (auto simp: rq_inv_def)
  have "r = None \<longleftrightarrow> rq_table q d = []"
    using assms r(2) by (cases r) (auto simp: rq_inv_def rq_table_def)
  then show ?thesis using r by blast
qed

text \<open>An entry left without operations and erased, and one left with some.\<close>

lemma rq_drop_entry:
  assumes inv: "rq_inv hash q" and n: "n \<in> set (hm_values q)"
  shows "\<exists>q'. erase_it hash mapped_type_ops d0 (Some n) (set_value n [] q) = Inr q' \<and> rq_inv hash q'
    \<and> rq_table q' = (rq_table q)(fst (cell q n) := []) \<and> hm_values q' = remove1 n (hm_values q)
    \<and> (\<forall>x. x \<noteq> n \<longrightarrow> cell q' x = cell q x)"
proof -
  let ?q = "set_value n [] q"
  have h: "hm_inv hash (\<lambda>v. v = []) q" using inv by (simp add: rq_inv_def)
  note s = hm_map_set_value [OF h n, of "[]"]
  have v: "hm_values ?q = hm_values q" "snd (cell ?q n) = []" "fst (cell ?q n) = fst (cell q n)"
    "\<forall>x. x \<noteq> n \<longrightarrow> cell ?q x = cell q x"
    by (simp_all add: set_value_def)
  have "n \<in> set (hm_values ?q)" unfolding v(1) by (rule n)
  from mapped.erase_spec [OF s(1) this v(2), of d0] obtain q' where q':
    "erase_it hash mapped_type_ops d0 (Some n) ?q = Inr q'" "hm_inv hash (\<lambda>v. v = []) q'"
    "hm_map q' = (hm_map ?q)(fst (cell ?q n) := None)" "hm_values q' = remove1 n (hm_values ?q)"
    "\<forall>x. x \<noteq> n \<longrightarrow> cell q' x = cell ?q x" by blast
  have m: "hm_map q' = (hm_map q)(fst (cell q n) := None)"
    unfolding q'(3) v(3) s(2) by simp
  have "rq_inv hash q'" "rq_table q' = (rq_table q)(fst (cell q n) := [])"
    using inv q'(2) unfolding rq_inv_def rq_table_def m by (auto simp: fun_eq_iff)
  then show ?thesis using q'(1,4,5) v by auto
qed

lemma rq_updated:
  assumes "rq_inv hash q" "hm_inv hash (\<lambda>v. v = []) q'" "hm_map q' = (hm_map q)(d \<mapsto> v)" "v \<noteq> []"
  shows "rq_inv hash q'" "rq_table q' = (rq_table q)(d := v)"
  using assms by (simp_all add: rq_inv_def rq_table_def fun_eq_iff)

lemma rq_set_entry:
  assumes inv: "rq_inv hash q" and n: "n \<in> set (hm_values q)" and v: "v \<noteq> []"
  shows "rq_inv hash (set_value n v q)" "rq_table (set_value n v q) = (rq_table q)(fst (cell q n) := v)"
proof -
  have h: "hm_inv hash (\<lambda>v. v = []) q" using inv by (simp add: rq_inv_def)
  note s = hm_map_set_value [OF h n, of v]
  show "rq_inv hash (set_value n v q)" "rq_table (set_value n v q) = (rq_table q)(fst (cell q n) := v)"
    using rq_updated [OF inv s v] by simp_all
qed

lemma enqueue_spec:
  assumes inv: "rq_inv hash q"
  shows "\<exists>q'. enqueue_operation hash d op q = Inr (q', rq_table q d = []) \<and> rq_inv hash q'
    \<and> rq_table q' = (rq_table q)(d := rq_table q d @ [op])"
proof -
  have h: "hm_inv hash (\<lambda>v. v = []) q" using inv by (simp add: rq_inv_def)
  from mapped.insert_spec [OF h, of "(d, [])"] obtain m n b where
    m: "insert_value hash mapped_type_ops (d, []) q = Inr (m, n, b)" "hm_inv hash (\<lambda>v. v = []) m"
      "n \<in> set (hm_values m)" "fst (cell m n) = d" "b = (hm_map q d = None)"
      "hm_map m = (if b then (hm_map q)(d \<mapsto> []) else hm_map q)" by auto
  have c: "hm_map m d = Some (snd (cell m n))"
    using hm_map_Some_iff [OF hm_inv_buckets(6) [OF m(2)]] m(3,4) by (metis prod.collapse)
  have t: "snd (cell m n) = rq_table q d"
    using c m(5,6) by (auto simp: rq_table_def split: if_splits)
  let ?q' = "set_value n (rq_table q d @ [op]) m"
  note s = hm_map_set_value [OF m(2,3), of "rq_table q d @ [op]"]
  have b: "b \<longleftrightarrow> rq_table q d = []"
    using inv unfolding m(5) by (auto simp: rq_table_def rq_inv_def split: option.splits)
  have map: "hm_map ?q' = (hm_map q)(d \<mapsto> rq_table q d @ [op])"
    unfolding s(2) m(4,6) by auto
  have "rq_inv hash ?q'" "rq_table ?q' = (rq_table q)(d := rq_table q d @ [op])"
    using rq_updated [OF inv s(1) map] by simp_all
  then show ?thesis
    using m(1) b t by (auto simp: enqueue_operation_def mapped_type_ops_def)
qed

text \<open>What cancelling does to the store.\<close>

definition with_error :: "reactor_error \<Rightarrow> nat set \<Rightarrow> reactor_ops \<Rightarrow> reactor_ops" where
  "with_error ec A st = (\<lambda>op. if op \<in> A then (st op)\<lparr>rop_ec := ec\<rparr> else st op)"

lemma with_error_upd: "with_error ec A (st(x := (st x)\<lparr>rop_ec := ec\<rparr>)) = with_error ec (insert x A) st"
  by (auto simp: with_error_def fun_eq_iff)

lemma cancel_ops_loop_eq: "cancel_ops_loop ec xs (st, ops) = (with_error ec (set xs) st, ops @ xs)"
  by (induction xs arbitrary: st ops) (simp_all add: with_error_upd, simp add: with_error_def)

lemma cancel_by_key_loop_eq:
  "cancel_by_key_loop key ec xs (st, ops, other, r) =
     (with_error ec {op \<in> set xs. rop_key (st op) = key} st,
      ops @ filter (\<lambda>op. rop_key (st op) = key) xs, other @ filter (\<lambda>op. rop_key (st op) \<noteq> key) xs,
      r \<or> (\<exists>op\<in>set xs. rop_key (st op) = key))"
proof (induction xs arbitrary: st ops other r)
  case (Cons x xs)
  have k: "rop_key ((st(x := (st x)\<lparr>rop_ec := ec\<rparr>)) op) = rop_key (st op)" for op by simp
  have "{op \<in> set (x # xs). rop_key (st op) = key} = (if rop_key (st x) = key
      then insert x {op \<in> set xs. rop_key (st op) = key} else {op \<in> set xs. rop_key (st op) = key})"
    by auto
  moreover have "cancel_by_key_loop key ec xs (st(x := (st x)\<lparr>rop_ec := ec\<rparr>), ops @ [x], other, True) =
      (with_error ec (insert x {op \<in> set xs. rop_key (st op) = key}) st,
       (ops @ [x]) @ filter (\<lambda>op. rop_key (st op) = key) xs,
       other @ filter (\<lambda>op. rop_key (st op) \<noteq> key) xs, True)"
    using Cons.IH [of "st(x := (st x)\<lparr>rop_ec := ec\<rparr>)" "ops @ [x]" other True]
    unfolding k with_error_upd by (simp only: simp_thms)
  ultimately show ?case
    using Cons.IH [of st] by (simp del: fun_upd_apply)
qed (simp add: with_error_def)

lemma cancel_it_spec:
  assumes inv: "rq_inv hash q" and n: "n \<in> set (hm_values q)"
  shows "\<exists>q'. cancel_operations_it hash d0 (Some n) ec (q, st, ops) =
      Inr (True, q', with_error ec (set (rq_table q (fst (cell q n)))) st, ops @ rq_table q (fst (cell q n)))
    \<and> rq_inv hash q' \<and> rq_table q' = (rq_table q)(fst (cell q n) := [])
    \<and> hm_values q' = remove1 n (hm_values q) \<and> (\<forall>x. x \<noteq> n \<longrightarrow> cell q' x = cell q x)"
  using rq_drop_entry [OF inv n, of d0] rq_node [OF inv n]
  by (auto simp: cancel_operations_it_def cancel_ops_loop_eq)

lemma cancel_spec:
  assumes inv: "rq_inv hash q"
  shows "\<exists>q'. cancel_operations hash d0 d ec (q, st, ops) =
      Inr (rq_table q d \<noteq> [], q', with_error ec (set (rq_table q d)) st, ops @ rq_table q d)
    \<and> rq_inv hash q' \<and> rq_table q' = (rq_table q)(d := [])"
proof -
  from rq_find [OF inv, of d] obtain r where r: "hm_find hash d q = Inr r"
    "r = None \<longleftrightarrow> rq_table q d = []" "\<forall>n. r = Some n \<longrightarrow> n \<in> set (hm_values q) \<and> fst (cell q n) = d"
    by blast
  show ?thesis
  proof (cases r)
    case None
    then have t: "rq_table q d = []" using r(2) by simp
    have "cancel_operations hash d0 d ec (q, st, ops) = Inr (False, q, st, ops)"
      using r(1) None by (simp add: cancel_operations_def cancel_operations_it_def)
    moreover have "rq_table q = (rq_table q)(d := [])" using t by (simp add: fun_upd_idem)
    ultimately show ?thesis using t inv by (auto simp: with_error_def)
  next
    case (Some n)
    then have n: "n \<in> set (hm_values q)" "fst (cell q n) = d" using r(3) by auto
    from cancel_it_spec [OF inv n(1), of d0 ec st ops] show ?thesis
      using r n(2) Some rq_node(2) [OF inv n(1)] by (auto simp: cancel_operations_def)
  qed
qed

lemma cancel_by_key_it_spec:
  fixes st :: reactor_ops and key :: nat
  assumes inv: "rq_inv hash q" and n: "n \<in> set (hm_values q)"
  defines "d \<equiv> fst (cell q n)"
  defines "taken \<equiv> filter (\<lambda>op. rop_key (st op) = key) (rq_table q d)"
  shows "\<exists>q'. cancel_operations_by_key_it hash d0 (Some n) key ec (q, st, ops) =
      Inr (taken \<noteq> [], q', with_error ec (set taken) st, ops @ taken)
    \<and> rq_inv hash q' \<and> rq_table q' = (rq_table q)(d := filter (\<lambda>op. rop_key (st op) \<noteq> key) (rq_table q d))"
proof -
  let ?rest = "filter (\<lambda>op. rop_key (st op) \<noteq> key) (rq_table q d)"
  note nd = rq_node [OF inv n, folded d_def]
  have l: "cancel_by_key_loop key ec (snd (cell q n)) (st, ops, [], False) =
      (with_error ec (set taken) st, ops @ taken, ?rest, taken \<noteq> [])"
    unfolding cancel_by_key_loop_eq nd(1) taken_def by (auto simp: filter_empty_conv)
  have c: "snd (cell (set_value n v q) n) = v" for v by (simp add: set_value_def)
  show ?thesis
  proof (cases "?rest = []")
    case True
    from rq_drop_entry [OF inv n, of d0] obtain q' where
      "erase_it hash mapped_type_ops d0 (Some n) (set_value n [] q) = Inr q'" "rq_inv hash q'"
      "rq_table q' = (rq_table q)(d := [])" unfolding d_def by blast
    then show ?thesis unfolding True
      by (simp add: cancel_operations_by_key_it_def l c True)
  next
    case False
    then show ?thesis
      using rq_set_entry [OF inv n False]
      by (simp add: cancel_operations_by_key_it_def l c d_def)
  qed
qed


section \<open>Performing\<close>

text \<open>The operations performed one after the other, with what each returns.\<close>

fun perform_each ::
    "'w perform_func \<Rightarrow> nat list \<Rightarrow> reactor_ops \<times> 'w \<Rightarrow> status list \<times> reactor_ops \<times> 'w" where
  "perform_each perf [] s = ([], s)"
| "perform_each perf (op # rest) (st, w) =
     (let (r, o', w) = perf op (st op, w);
          (rs, s) = perform_each perf rest (st(op := o'), w)
      in (r # rs, s))"

text \<open>
  The first operations of the queue, \<open>dn\<close>, are finished, the next one is not or there is none; those
  and no others were performed.
\<close>

definition performs ::
    "'w perform_func \<Rightarrow> nat list \<Rightarrow> nat list \<Rightarrow> reactor_ops \<times> 'w \<Rightarrow> reactor_ops \<times> 'w \<Rightarrow> bool" where
  "performs perf dn rest s s' \<longleftrightarrow>
     (\<exists>rs. perform_each perf (dn @ take 1 rest) s = (rs, s')
       \<and> map (\<lambda>r. r \<noteq> NotDone) rs = replicate (length dn) True @ (if rest = [] then [] else [False]))"

lemma perform_loop_spec:
  "\<exists>dn rest st' w'. perform_loop perf xs (st, w, ops) = (rest \<noteq> [], rest, st', w', ops @ dn)
    \<and> xs = dn @ rest \<and> performs perf dn rest (st, w) (st', w')"
proof (induction xs arbitrary: st w ops)
  case Nil
  then show ?case by (auto simp: performs_def)
next
  case (Cons x xs)
  obtain r o' w1 where p: "perf x (st x, w) = (r, o', w1)" by (rule prod_cases3)
  show ?case
  proof (cases "r = NotDone")
    case True
    then have "performs perf [] (x # xs) (st, w) (st(x := o'), w1)"
      by (auto simp: performs_def p)
    then show ?thesis using p True by (intro exI [of _ "[]"] exI [of _ "x # xs"]) auto
  next
    case False
    from Cons.IH [of "st(x := o')" w1 "ops @ [x]"] obtain dn rest st' w' where
      l: "perform_loop perf xs (st(x := o'), w1, ops @ [x]) = (rest \<noteq> [], rest, st', w', (ops @ [x]) @ dn)"
        "xs = dn @ rest" "performs perf dn rest (st(x := o'), w1) (st', w')" by blast
    have "performs perf (x # dn) rest (st, w) (st', w')"
      using l(3) False by (auto simp: performs_def p)
    moreover have "perform_loop perf (x # xs) (st, w, ops) = (rest \<noteq> [], rest, st', w', ops @ (x # dn))"
      using l(1) p False by simp
    ultimately show ?thesis using l(2) by (metis append_Cons)
  qed
qed

lemma perform_it_spec:
  assumes inv: "rq_inv hash q" and n: "n \<in> set (hm_values q)"
  defines "d \<equiv> fst (cell q n)"
  shows "\<exists>q' dn rest st' w'. perform_operations_it hash d0 perf (Some n) (q, st, w, ops) =
      Inr (rest \<noteq> [], q', st', w', ops @ dn)
    \<and> rq_table q d = dn @ rest \<and> performs perf dn rest (st, w) (st', w')
    \<and> rq_inv hash q' \<and> rq_table q' = (rq_table q)(d := rest)
    \<and> (\<forall>x. x \<noteq> n \<longrightarrow> cell q' x = cell q x)
    \<and> (hm_values q' = hm_values q \<or> hm_values q' = remove1 n (hm_values q))"
proof -
  obtain dn rest st' w' where l: "perform_loop perf (snd (cell q n)) (st, w, ops) = (rest \<noteq> [], rest, st', w', ops @ dn)"
    "snd (cell q n) = dn @ rest" "performs perf dn rest (st, w) (st', w')"
    using perform_loop_spec [of perf "snd (cell q n)" st w ops] by blast
  have t: "rq_table q d = dn @ rest" using rq_node(1) [OF inv n] l(2) unfolding d_def by simp
  show ?thesis
  proof (cases "rest = []")
    case True
    from rq_drop_entry [OF inv n, of d0] obtain q' where
      "erase_it hash mapped_type_ops d0 (Some n) (set_value n [] q) = Inr q'" "rq_inv hash q'"
      "rq_table q' = (rq_table q)(d := [])" "hm_values q' = remove1 n (hm_values q)"
      "\<forall>x. x \<noteq> n \<longrightarrow> cell q' x = cell q x" unfolding d_def by blast
    moreover from this(1) have "perform_operations_it hash d0 perf (Some n) (q, st, w, ops) =
        Inr (rest \<noteq> [], q', st', w', ops @ dn)"
      using l(1) True by (simp add: perform_operations_it_def)
    ultimately show ?thesis using t l(3) True by blast
  next
    case False
    have "perform_operations_it hash d0 perf (Some n) (q, st, w, ops) =
        Inr (rest \<noteq> [], set_value n rest q, st', w', ops @ dn)"
      using l(1) False by (simp add: perform_operations_it_def)
    moreover have "\<forall>x. x \<noteq> n \<longrightarrow> cell (set_value n rest q) x = cell q x"
      "hm_values (set_value n rest q) = hm_values q" by (simp_all add: set_value_def)
    moreover note rq_set_entry [OF inv n False, folded d_def]
    ultimately show ?thesis using t l(3) by blast
  qed
qed

lemma performs_Nil [simp]: "performs perf [] [] s s' \<longleftrightarrow> s' = s"
  by (auto simp: performs_def)

lemma perform_spec:
  assumes inv: "rq_inv hash q"
  shows "\<exists>q' dn rest st' w'. perform_operations hash d0 perf d (q, st, w, ops) =
      Inr (rest \<noteq> [], q', st', w', ops @ dn)
    \<and> rq_table q d = dn @ rest \<and> performs perf dn rest (st, w) (st', w')
    \<and> rq_inv hash q' \<and> rq_table q' = (rq_table q)(d := rest)"
proof -
  from rq_find [OF inv, of d] obtain r where r: "hm_find hash d q = Inr r"
    "r = None \<longleftrightarrow> rq_table q d = []" "\<forall>n. r = Some n \<longrightarrow> n \<in> set (hm_values q) \<and> fst (cell q n) = d"
    by blast
  show ?thesis
  proof (cases r)
    case None
    then have t: "rq_table q d = []" using r(2) by simp
    then have "rq_table q = (rq_table q)(d := [])" by (simp add: fun_upd_idem)
    moreover have "perform_operations hash d0 perf d (q, st, w, ops) = Inr ([] \<noteq> ([]::nat list), q, st, w, ops @ [])"
      using r(1) None by (simp add: perform_operations_def perform_operations_it_def)
    moreover have "rq_table q d = [] @ []" "performs perf [] [] (st, w) (st, w)" using t by simp_all
    ultimately show ?thesis using inv by blast
  next
    case (Some n)
    then have n: "n \<in> set (hm_values q)" "fst (cell q n) = d" using r(3) by auto
    have "perform_operations hash d0 perf d (q, st, w, ops) =
        perform_operations_it hash d0 perf (Some n) (q, st, w, ops)"
      using r(1) Some by (simp add: perform_operations_def)
    then show ?thesis using perform_it_spec [OF inv n(1), of d0 perf st w ops] unfolding n(2) by metis
  qed
qed

lemma cancel_by_key_spec:
  fixes st :: reactor_ops and key :: nat and d :: 'd
  assumes inv: "rq_inv hash (q :: 'd reactor_op_queue)"
  defines "taken \<equiv> filter (\<lambda>op. rop_key (st op) = key) (rq_table q d)"
  shows "\<exists>q'. cancel_operations_by_key hash d0 d key ec (q, st, ops) =
      Inr (taken \<noteq> [], q', with_error ec (set taken) st, ops @ taken)
    \<and> rq_inv hash q' \<and> rq_table q' = (rq_table q)(d := filter (\<lambda>op. rop_key (st op) \<noteq> key) (rq_table q d))"
proof -
  from rq_find [OF inv, of d] obtain r where r: "hm_find hash d q = Inr r"
    "r = None \<longleftrightarrow> rq_table q d = []" "\<forall>n. r = Some n \<longrightarrow> n \<in> set (hm_values q) \<and> fst (cell q n) = d"
    by blast
  show ?thesis
  proof (cases r)
    case None
    then have t: "rq_table q d = []" using r(2) by simp
    then have "rq_table q = (rq_table q)(d := [])" by (simp add: fun_upd_idem)
    then show ?thesis
      using r(1) None inv t
      by (auto simp: cancel_operations_by_key_def cancel_operations_by_key_it_def taken_def with_error_def)
  next
    case (Some n)
    then have n: "n \<in> set (hm_values q)" "fst (cell q n) = d" using r(3) by auto
    have "cancel_operations_by_key hash d0 d key ec (q, st, ops) =
        cancel_operations_by_key_it hash d0 (Some n) key ec (q, st, ops)"
      using r(1) Some by (simp add: cancel_operations_by_key_def)
    then show ?thesis
      using cancel_by_key_it_spec [OF inv n(1), of d0 key ec st ops] unfolding n(2) taken_def by simp
  qed
qed

lemma has_operation_spec: "rq_inv hash q \<Longrightarrow> has_operation hash d q = Inr (rq_table q d \<noteq> [])"
  using rq_find [of hash q d] by (auto simp: has_operation_def)

lemma rq_table_Nil:
  assumes "rq_inv hash q"
  shows "rq_table q d = [] \<longleftrightarrow> d \<notin> (\<lambda>n. fst (cell q n)) ` set (hm_values q)"
proof -
  have "hm_map q d = None \<longleftrightarrow> d \<notin> (\<lambda>n. fst (cell q n)) ` set (hm_values q)"
    by (auto simp: hm_map_def map_of_eq_None_iff image_image)
  then show ?thesis using assms by (auto simp: rq_inv_def rq_table_def split: option.splits)
qed

lemma rq_empty_spec: "rq_inv hash q \<Longrightarrow> rq_empty q \<longleftrightarrow> (\<forall>d. rq_table q d = [])"
  by (auto simp: rq_empty_def hm_empty_def rq_table_Nil)

lemma get_all_loop_spec:
  assumes "rq_inv hash q" "hm_values q = ns"
  shows "\<exists>q'. get_all_loop hash d0 ns (q, ops) =
      Inr (q', ops @ concat (map (\<lambda>n. rq_table q (fst (cell q n))) ns))
    \<and> rq_inv hash q' \<and> hm_values q' = []"
  using assms
proof (induction ns arbitrary: q ops)
  case Nil
  then show ?case by auto
next
  case (Cons n ns)
  have n: "n \<in> set (hm_values q)" using Cons.prems(2) by simp
  have dst: "distinct (map (\<lambda>n. fst (cell q n)) (n # ns))" "n \<notin> set ns"
    using hm_inv_buckets(1,6) [of hash "\<lambda>v. v = []" q] Cons.prems by (auto simp: rq_inv_def)
  from rq_drop_entry [OF Cons.prems(1) n, of d0] obtain q1 where
    q1: "erase_it hash mapped_type_ops d0 (Some n) (set_value n [] q) = Inr q1" "rq_inv hash q1"
      "rq_table q1 = (rq_table q)(fst (cell q n) := [])" "hm_values q1 = remove1 n (hm_values q)"
      "\<forall>x. x \<noteq> n \<longrightarrow> cell q1 x = cell q x" by blast
  have "hm_values q1 = ns" using q1(4) Cons.prems(2) by simp
  from Cons.IH [OF q1(2) this, of "ops @ snd (cell q n)"] obtain q' where
    q': "get_all_loop hash d0 ns (q1, ops @ snd (cell q n)) =
      Inr (q', (ops @ snd (cell q n)) @ concat (map (\<lambda>n. rq_table q1 (fst (cell q1 n))) ns))"
      "rq_inv hash q'" "hm_values q' = []" by blast
  have m: "map (\<lambda>n. rq_table q1 (fst (cell q1 n))) ns = map (\<lambda>n. rq_table q (fst (cell q n))) ns"
  proof (rule map_cong [OF refl])
    fix x
    assume "x \<in> set ns"
    then have "x \<noteq> n" "fst (cell q x) \<noteq> fst (cell q n)" using dst by (auto simp: rev_image_eqI)
    then show "rq_table q1 (fst (cell q1 x)) = rq_table q (fst (cell q x))" using q1(3,5) by simp
  qed
  show ?case
    using q'(1) [unfolded m] q'(2,3) q1(1) rq_node(1) [OF Cons.prems(1) n] by (auto simp: Let_def)
qed

lemma get_all_spec:
  assumes "rq_inv hash q"
  shows "\<exists>q'. get_all_operations hash d0 (q, ops) =
      Inr (q', ops @ concat (map (\<lambda>n. rq_table q (fst (cell q n))) (hm_values q)))
    \<and> rq_inv hash q' \<and> rq_table q' = (\<lambda>_. [])"
proof -
  from get_all_loop_spec [OF assms refl, of d0 ops] obtain q' where
    q': "get_all_loop hash d0 (hm_values q) (q, ops) =
      Inr (q', ops @ concat (map (\<lambda>n. rq_table q (fst (cell q n))) (hm_values q)))"
      "rq_inv hash q'" "hm_values q' = []" by blast
  then have "rq_table q' = (\<lambda>_. [])" by (simp add: fun_eq_iff rq_table_Nil)
  then show ?thesis using q' by (simp add: get_all_operations_def)
qed


section \<open>The queue is a table of queues\<close>

text \<open>
  Property C31. The queue of a reactor is a table with a queue of operations for each descriptor, although it recycles
  nodes whose queues are never assigned. \<open>enqueue_operation\<close> appends to the descriptor's queue and says whether it was
  empty. \<open>cancel_operations\<close> hands over all the operations of the descriptor, in order and with the error, and says
  whether there were any; with a key, those with the key, and the others stay in order. \<open>perform_operations\<close> performs
  the descriptor's operations in order until one is not finished, hands over those that are, and says whether any
  is left. \<open>has_operation\<close> and \<open>empty\<close> read the table. \<open>get_all_operations\<close> empties it. Nothing fails, and the other
  descriptors keep their queues.
\<close>

theorem reactor_queue_refines_table:
  fixes st :: reactor_ops
  assumes inv: "rq_inv hash q"
  shows
    "(\<exists>q'. enqueue_operation hash d op q = Inr (q', rq_table q d = []) \<and> rq_inv hash q'
       \<and> rq_table q' = (rq_table q)(d := rq_table q d @ [op]))
     \<and> (\<exists>q'. cancel_operations hash d0 d ec (q, st, ops) =
          Inr (rq_table q d \<noteq> [], q', with_error ec (set (rq_table q d)) st, ops @ rq_table q d)
       \<and> rq_inv hash q' \<and> rq_table q' = (rq_table q)(d := []))
     \<and> (\<exists>q' taken. taken = filter (\<lambda>op. rop_key (st op) = key) (rq_table q d)
       \<and> cancel_operations_by_key hash d0 d key ec (q, st, ops) =
           Inr (taken \<noteq> [], q', with_error ec (set taken) st, ops @ taken)
       \<and> rq_inv hash q'
       \<and> rq_table q' = (rq_table q)(d := filter (\<lambda>op. rop_key (st op) \<noteq> key) (rq_table q d)))
     \<and> (\<exists>q' finished rest st' w'. perform_operations hash d0 perf d (q, st, w, ops) =
          Inr (rest \<noteq> [], q', st', w', ops @ finished)
       \<and> rq_table q d = finished @ rest \<and> performs perf finished rest (st, w) (st', w')
       \<and> rq_inv hash q' \<and> rq_table q' = (rq_table q)(d := rest))
     \<and> has_operation hash d q = Inr (rq_table q d \<noteq> [])
     \<and> (rq_empty q \<longleftrightarrow> (\<forall>d. rq_table q d = []))
     \<and> (\<exists>q'. get_all_operations hash d0 (q, ops) =
          Inr (q', ops @ concat (map (\<lambda>n. rq_table q (fst (cell q n))) (hm_values q)))
       \<and> rq_inv hash q' \<and> rq_table q' = (\<lambda>_. []))"
  using enqueue_spec [OF inv, of d op] cancel_spec [OF inv, of d0 d ec st ops]
    cancel_by_key_spec [OF inv, of d0 d key ec st ops] perform_spec [OF inv, of d0 perf d st w ops]
    has_operation_spec [OF inv, of d] rq_empty_spec [OF inv] get_all_spec [OF inv, of d0 ops]
  by (intro conjI) blast+

text \<open>One descriptor, with two operations, in a queue with a recycled node.\<close>

definition two_waiting :: "u64 reactor_op_queue" where
  "two_waiting = \<lparr>hm_size = 1, hm_values = [3], hm_spares = [2],
     cell = (\<lambda>n. if n = 3 then (5, [7, 8]) else (0, [])), next_node = 5,
     buckets = [\<lparr>first_it = None, last_it = None\<rparr>, \<lparr>first_it = None, last_it = None\<rparr>,
       \<lparr>first_it = Some 3, last_it = Some 3\<rparr>], num_buckets = 3\<rparr>"

lemma two_waiting_inv: "rq_inv calculate_hash_value_socket two_waiting"
proof -
  let ?f = "bucket_fn calculate_hash_value_socket 3 (cell two_waiting)"
  have b: "?f 3 = 2"
    by (simp add: bucket_fn_def bucket_of_def calculate_hash_value_socket_def two_waiting_def)
  have "delimits ?f [3] (buckets two_waiting)"
    unfolding delimits_def
  proof (intro allI impI)
    fix i
    assume "i < length (buckets two_waiting)"
    then consider "i = 0" | "i = 1" | "i = 2"
      by (simp add: two_waiting_def) linarith
    then show "first_it (buckets two_waiting ! i) = at (run_of ?f i [3])
        \<and> last_it (buckets two_waiting ! i) = at_end (run_of ?f i [3])"
      by cases (use b in \<open>simp_all add: two_waiting_def at_def at_end_def\<close>)
  qed
  moreover have "hm_values two_waiting = [3]" "num_buckets two_waiting = 3" by (simp_all add: two_waiting_def)
  ultimately have "hm_inv calculate_hash_value_socket (\<lambda>v. v = []) two_waiting"
    unfolding hm_inv_def by (simp add: two_waiting_def)
  moreover have "hm_map two_waiting d \<noteq> Some []" for d by (simp add: hm_map_def two_waiting_def)
  ultimately show ?thesis by (simp add: rq_inv_def)
qed

lemma two_waiting_table: "rq_table two_waiting = (\<lambda>d. if d = 5 then [7, 8] else [])"
  by (simp add: rq_table_def hm_map_def two_waiting_def fun_eq_iff)

lemma reactor_queue_refines_table_witness:
  "(\<exists>q'. enqueue_operation calculate_hash_value_socket 5 9 two_waiting = Inr (q', False)
      \<and> rq_table q' 5 = [7, 8, 9])
   \<and> (\<exists>q' st'. cancel_operations calculate_hash_value_socket 0 5 OperationAborted
        (two_waiting, \<lambda>_. new_reactor_op NoError, []) = Inr (True, q', st', [7, 8])
      \<and> rop_ec (st' 8) = OperationAborted)"
proof -
  note * = reactor_queue_refines_table [OF two_waiting_inv, of 5 9 0 OperationAborted "\<lambda>_. new_reactor_op NoError" "[]"]
  have "\<exists>q'. enqueue_operation calculate_hash_value_socket 5 9 two_waiting = Inr (q', False)
      \<and> rq_table q' 5 = [7, 8, 9]"
    using * [THEN conjunct1] unfolding two_waiting_table by auto
  moreover have "\<exists>q' st'. cancel_operations calculate_hash_value_socket 0 5 OperationAborted
        (two_waiting, \<lambda>_. new_reactor_op NoError, []) = Inr (True, q', st', [7, 8])
      \<and> rop_ec (st' 8) = OperationAborted"
    using * [THEN conjunct2, THEN conjunct1] unfolding two_waiting_table
    by (auto simp: with_error_def new_reactor_op_def)
  ultimately show ?thesis by blast
qed

end
