(* ===== verification/SelectReactor.thy ===== *)
theory SelectReactor
  imports ReactorQueue TimerQueue
begin

text \<open>
  \<^verbatim>\<open>asio/detail/select_reactor.hpp\<close> with its \<^verbatim>\<open>impl\<close> files, \<^verbatim>\<open>detail/posix_fd_set_adapter.hpp\<close> and
  \<^verbatim>\<open>detail/impl/timer_queue_set.ipp\<close>: the reactor that waits with \<^verbatim>\<open>select\<close>, in the build without IOCP whose scheduler
  is that of \<open>Scheduler\<close>. A descriptor is a C \<^verbatim>\<open>int\<close>, given by its value.

  Each function is one critical section of the reactor's mutex, but \<^verbatim>\<open>shutdown\<close>, which releases it after setting the flag
  (\<open>set_shutdown\<close>, then \<open>collect_all\<close>), and \<^verbatim>\<open>run\<close>, which is two: \<open>run_prepare\<close> up to the call of
  \<^verbatim>\<open>select\<close>, and \<open>run_dispatch\<close> after it; the interrupter is reset between the two, without the mutex. What \<^verbatim>\<open>select\<close> returned and whether the interrupter could be reset are their
  inputs. The calls a function makes of the scheduler and the interrupter are its second result, in order.

  The operations handed over are reactor operations first, then those of timers, in each function that collects both;
  they are kept apart until then.
\<close>

section \<open>The descriptor sets\<close>

text \<open>\<^verbatim>\<open>FD_SET\<close> and \<^verbatim>\<open>FD_ISSET\<close> are defined for the descriptors from 0 to \<^verbatim>\<open>FD_SETSIZE - 1\<close>.\<close>

definition FD_SETSIZE :: int where
  "FD_SETSIZE = 1024"

definition invalid_socket :: int where
  "invalid_socket = - 1"

record posix_fd_set_adapter =
  fd_set :: "int set"
  max_descriptor :: int

definition new_fd_set :: posix_fd_set_adapter where
  "new_fd_set = \<lparr>fd_set = {}, max_descriptor = invalid_socket\<rparr>"

definition fd_reset :: "posix_fd_set_adapter \<Rightarrow> posix_fd_set_adapter" where
  "fd_reset f = f\<lparr>fd_set := {}\<rparr>"

definition fd_hash :: "int \<Rightarrow> u64" where
  "fd_hash i = calculate_hash_value_int (word_of_int i)"

definition fd_set_one :: "int \<Rightarrow> posix_fd_set_adapter \<Rightarrow> fault + (bool \<times> posix_fd_set_adapter)" where
  "fd_set_one descriptor f =
     (if descriptor < FD_SETSIZE then
        let f = (if max_descriptor f = invalid_socket \<or> descriptor > max_descriptor f
                 then f\<lparr>max_descriptor := descriptor\<rparr> else f)
        in if descriptor < 0 then Inl UndefinedBehaviour
           else Inr (True, f\<lparr>fd_set := insert descriptor (fd_set f)\<rparr>)
      else Inr (False, f))"

fun fd_set_loop ::
    "node list \<Rightarrow> posix_fd_set_adapter \<times> int reactor_op_queue \<times> reactor_ops \<times> nat list \<Rightarrow>
     fault + (posix_fd_set_adapter \<times> int reactor_op_queue \<times> reactor_ops \<times> nat list)" where
  "fd_set_loop [] s = Inr s"
| "fd_set_loop (op_iter # i) (f, q, st, ops) =
     and_then (fd_set_one (fst (cell q op_iter)) f) (\<lambda>(b, f).
       if b then fd_set_loop i (f, q, st, ops)
       else and_then (cancel_operations_it fd_hash 0 (Some op_iter) FdSetFailure (q, st, ops)) (\<lambda>(_, q, st, ops).
              fd_set_loop i (f, q, st, ops)))"

definition fd_set_all ::
    "posix_fd_set_adapter \<times> int reactor_op_queue \<times> reactor_ops \<times> nat list \<Rightarrow>
     fault + (posix_fd_set_adapter \<times> int reactor_op_queue \<times> reactor_ops \<times> nat list)" where
  "fd_set_all = (\<lambda>(f, q, st, ops). fd_set_loop (hm_values q) (f, q, st, ops))"

definition fd_is_set :: "int \<Rightarrow> posix_fd_set_adapter \<Rightarrow> fault + bool" where
  "fd_is_set descriptor f =
     (if descriptor < 0 \<or> FD_SETSIZE \<le> descriptor then Inl UndefinedBehaviour
      else Inr (descriptor \<in> fd_set f))"

fun fd_perform_loop ::
    "'w perform_func \<Rightarrow> posix_fd_set_adapter \<Rightarrow> node list \<Rightarrow>
     int reactor_op_queue \<times> reactor_ops \<times> 'w \<times> nat list \<Rightarrow>
     fault + (int reactor_op_queue \<times> reactor_ops \<times> 'w \<times> nat list)" where
  "fd_perform_loop perf f [] s = Inr s"
| "fd_perform_loop perf f (op_iter # i) (q, st, w, ops) =
     and_then (fd_is_set (fst (cell q op_iter)) f) (\<lambda>b.
       if b then
         and_then (perform_operations_it fd_hash 0 perf (Some op_iter) (q, st, w, ops)) (\<lambda>(_, q, st, w, ops).
           fd_perform_loop perf f i (q, st, w, ops))
       else fd_perform_loop perf f i (q, st, w, ops))"

definition fd_perform ::
    "'w perform_func \<Rightarrow> posix_fd_set_adapter \<Rightarrow> int reactor_op_queue \<times> reactor_ops \<times> 'w \<times> nat list \<Rightarrow>
     fault + (int reactor_op_queue \<times> reactor_ops \<times> 'w \<times> nat list)" where
  "fd_perform perf f = (\<lambda>(q, st, w, ops). fd_perform_loop perf f (hm_values q) (q, st, w, ops))"

section \<open>The state\<close>

datatype completion = ReactorOp nat | TimerOp wait_op

datatype reactor_call =
    Interrupt
  | WorkStarted
  | PostImmediate completion bool
  | PostDeferred "completion list"
  | Abandon "completion list"

text \<open>
  The queues of read, write and except operations; connecting uses the one for writing. \<open>timer_queues\<close> is the list
  through the queues' \<^verbatim>\<open>next_\<close>, and \<open>tq\<close> the queues.
\<close>

record select_reactor =
  sr_ops :: reactor_ops
  op_queues :: "int reactor_op_queue list"
  fd_sets :: "posix_fd_set_adapter list"
  timer_queues :: "nat list"
  tq :: "nat \<Rightarrow> timer_queue"
  read_descriptor :: int
  sr_shutdown :: bool

definition read_op :: nat where "read_op = 0"
definition write_op :: nat where "write_op = 1"
definition except_op :: nat where "except_op = 2"
definition connect_op :: nat where "connect_op = 1"
definition max_ops :: nat where "max_ops = 3"

definition new_select_reactor :: "reactor_ops \<Rightarrow> int \<Rightarrow> select_reactor" where
  "new_select_reactor st rd = \<lparr>sr_ops = st, op_queues = replicate max_ops (new_reactor_op_queue 0),
     fd_sets = replicate max_ops new_fd_set, timer_queues = [], tq = \<lambda>_. new_timer_queue,
     read_descriptor = rd, sr_shutdown = False\<rparr>"

definition upd_queue :: "nat \<Rightarrow> int reactor_op_queue \<Rightarrow> select_reactor \<Rightarrow> select_reactor" where
  "upd_queue i q r = r\<lparr>op_queues := (op_queues r)[i := q]\<rparr>"

definition upd_tq :: "nat \<Rightarrow> timer_queue \<Rightarrow> select_reactor \<Rightarrow> select_reactor" where
  "upd_tq i q r = r\<lparr>tq := (tq r)(i := q)\<rparr>"

section \<open>The timer queues\<close>

definition tqs_insert :: "nat \<Rightarrow> select_reactor \<Rightarrow> select_reactor" where
  "tqs_insert q r = r\<lparr>timer_queues := q # timer_queues r\<rparr>"

definition tqs_erase :: "nat \<Rightarrow> select_reactor \<Rightarrow> select_reactor" where
  "tqs_erase q r = r\<lparr>timer_queues := remove1 q (timer_queues r)\<rparr>"

definition tqs_all_empty :: "select_reactor \<Rightarrow> bool" where
  "tqs_all_empty r \<longleftrightarrow> (\<forall>q\<in>set (timer_queues r). queue_empty (tq r q))"

text \<open>\<open>pnum\<close> and \<open>pden\<close> are the ratio of the clock's period, \<open>now\<close> its time.\<close>

fun tqs_wait_usec :: "int \<Rightarrow> int \<Rightarrow> int \<Rightarrow> int \<Rightarrow> timer_queue list \<Rightarrow> fault + int" where
  "tqs_wait_usec pnum pden now min_duration [] = Inr min_duration"
| "tqs_wait_usec pnum pden now min_duration (p # ps) =
     and_then (wait_duration_usec pnum pden now min_duration p) (\<lambda>d. tqs_wait_usec pnum pden now d ps)"

fun tqs_ready :: "int \<Rightarrow> nat list \<Rightarrow> wait_op list \<times> select_reactor \<Rightarrow> (wait_op list \<times> select_reactor) option" where
  "tqs_ready now [] s = Some s"
| "tqs_ready now (p # ps) (ops, r) =
     Option.bind (get_ready_timers now ops (tq r p)) (\<lambda>(ops, q). tqs_ready now ps (ops, upd_tq p q r))"

fun tqs_all :: "nat list \<Rightarrow> wait_op list \<times> select_reactor \<Rightarrow> (wait_op list \<times> select_reactor) option" where
  "tqs_all [] s = Some s"
| "tqs_all (p # ps) (ops, r) =
     Option.bind (get_all_timers ops (tq r p)) (\<lambda>(ops, q). tqs_all ps (ops, upd_tq p q r))"

section \<open>Starting and cancelling\<close>

definition register_internal_descriptor ::
    "nat \<Rightarrow> int \<Rightarrow> nat \<Rightarrow> select_reactor \<Rightarrow> fault + (select_reactor \<times> reactor_call list)" where
  "register_internal_descriptor op_type descriptor op r =
     and_then (enqueue_operation fd_hash descriptor op (op_queues r ! op_type)) (\<lambda>(q, _).
       Inr (upd_queue op_type q r, [Interrupt]))"

definition start_op ::
    "nat \<Rightarrow> int \<Rightarrow> nat \<Rightarrow> bool \<Rightarrow> select_reactor \<Rightarrow> fault + (select_reactor \<times> reactor_call list)" where
  "start_op op_type descriptor op is_continuation r =
     (if sr_shutdown r then Inr (r, [PostImmediate (ReactorOp op) is_continuation])
      else
        and_then (enqueue_operation fd_hash descriptor op (op_queues r ! op_type)) (\<lambda>(q, first).
          Inr (upd_queue op_type q r, WorkStarted # (if first then [Interrupt] else []))))"

text \<open>The loop of \<open>cancel_ops_unlocked\<close> over the queues: they, the store, the operations taken, and whether any was.\<close>

fun cancel_queues ::
    "int \<Rightarrow> reactor_error \<Rightarrow> int reactor_op_queue list \<Rightarrow> reactor_ops \<times> nat list \<times> bool \<Rightarrow>
     fault + (int reactor_op_queue list \<times> reactor_ops \<times> nat list \<times> bool)" where
  "cancel_queues descriptor ec [] (st, ops, need) = Inr ([], st, ops, need)"
| "cancel_queues descriptor ec (q # qs) (st, ops, need) =
     and_then (cancel_operations fd_hash 0 descriptor ec (q, st, ops)) (\<lambda>(b, q, st, ops).
       and_then (cancel_queues descriptor ec qs (st, ops, b \<or> need)) (\<lambda>(qs, s). Inr (q # qs, s)))"

definition cancel_ops_unlocked ::
    "int \<Rightarrow> reactor_error \<Rightarrow> select_reactor \<Rightarrow> fault + (select_reactor \<times> reactor_call list)" where
  "cancel_ops_unlocked descriptor ec r =
     and_then (cancel_queues descriptor ec (op_queues r) (sr_ops r, [], False)) (\<lambda>(qs, st, ops, need_interrupt).
       Inr (r\<lparr>op_queues := qs, sr_ops := st\<rparr>,
            PostDeferred (map ReactorOp ops) # (if need_interrupt then [Interrupt] else [])))"

definition cancel_ops :: "int \<Rightarrow> select_reactor \<Rightarrow> fault + (select_reactor \<times> reactor_call list)" where
  "cancel_ops descriptor r = cancel_ops_unlocked descriptor OperationAborted r"

definition deregister_descriptor :: "int \<Rightarrow> select_reactor \<Rightarrow> fault + (select_reactor \<times> reactor_call list)" where
  "deregister_descriptor descriptor r = cancel_ops_unlocked descriptor OperationAborted r"

definition cancel_ops_by_key ::
    "int \<Rightarrow> nat \<Rightarrow> nat \<Rightarrow> select_reactor \<Rightarrow> fault + (select_reactor \<times> reactor_call list)" where
  "cancel_ops_by_key descriptor op_type key r =
     and_then (cancel_operations_by_key fd_hash 0 descriptor key OperationAborted
         (op_queues r ! op_type, sr_ops r, [])) (\<lambda>(need_interrupt, q, st, ops).
       Inr ((upd_queue op_type q r)\<lparr>sr_ops := st\<rparr>,
            PostDeferred (map ReactorOp ops) # (if need_interrupt then [Interrupt] else [])))"

text \<open>The operations taken are destroyed with the local queue they are in: they are the second result.\<close>

definition deregister_internal_descriptor ::
    "int \<Rightarrow> select_reactor \<Rightarrow> fault + (select_reactor \<times> nat list)" where
  "deregister_internal_descriptor descriptor r =
     and_then (cancel_queues descriptor OperationAborted (op_queues r) (sr_ops r, [], False)) (\<lambda>(qs, st, ops, _).
       Inr (r\<lparr>op_queues := qs, sr_ops := st\<rparr>, ops))"

fun all_operations ::
    "int reactor_op_queue list \<Rightarrow> nat list \<Rightarrow> fault + (int reactor_op_queue list \<times> nat list)" where
  "all_operations [] ops = Inr ([], ops)"
| "all_operations (q # qs) ops =
     and_then (get_all_operations fd_hash 0 (q, ops)) (\<lambda>(q, ops).
       and_then (all_operations qs ops) (\<lambda>(qs, ops). Inr (q # qs, ops)))"

definition set_shutdown :: "select_reactor \<Rightarrow> select_reactor" where
  "set_shutdown r = r\<lparr>sr_shutdown := True\<rparr>"

text \<open>\<open>None\<close> would be a loop over the timers that does not end.\<close>

definition collect_all :: "select_reactor \<Rightarrow> (fault + (select_reactor \<times> reactor_call list)) option" where
  "collect_all r =
     (case all_operations (op_queues r) [] of
        Inl e \<Rightarrow> Some (Inl e)
      | Inr (qs, ops) \<Rightarrow>
          map_option (\<lambda>(tops, r). Inr (r, [Abandon (map ReactorOp ops @ map TimerOp tops)]))
            (tqs_all (timer_queues r) ([], r\<lparr>op_queues := qs\<rparr>)))"

definition shutdown :: "select_reactor \<Rightarrow> (fault + (select_reactor \<times> reactor_call list)) option" where
  "shutdown r = collect_all (set_shutdown r)"

section \<open>Timers\<close>

definition schedule_timer ::
    "(int \<Rightarrow> bool) \<Rightarrow> nat \<Rightarrow> int \<Rightarrow> nat \<Rightarrow> wait_op \<Rightarrow> select_reactor \<Rightarrow> select_reactor \<times> reactor_call list" where
  "schedule_timer is_inf queue time timer op r =
     (if sr_shutdown r then (r, [PostImmediate (TimerOp op) False])
      else
        let (earliest, q) = enqueue_timer is_inf time timer op (tq r queue)
        in (upd_tq queue q r, WorkStarted # (if earliest then [Interrupt] else [])))"

definition reactor_cancel_timer ::
    "nat \<Rightarrow> nat \<Rightarrow> nat \<Rightarrow> select_reactor \<Rightarrow> nat \<times> select_reactor \<times> reactor_call list" where
  "reactor_cancel_timer queue timer max_cancelled r =
     (let (n, ops, q) = cancel_timer timer [] max_cancelled (tq r queue)
      in (n, upd_tq queue q r, [PostDeferred (map TimerOp ops)]))"

definition reactor_cancel_timer_by_key ::
    "nat \<Rightarrow> nat \<Rightarrow> nat \<Rightarrow> select_reactor \<Rightarrow> select_reactor \<times> reactor_call list" where
  "reactor_cancel_timer_by_key queue timer key r =
     (let (ops, q) = cancel_timer_by_key timer [] key (tq r queue)
      in (upd_tq queue q r, [PostDeferred (map TimerOp ops)]))"

definition reactor_move_timer ::
    "nat \<Rightarrow> nat \<Rightarrow> nat \<Rightarrow> select_reactor \<Rightarrow> select_reactor \<times> reactor_call list" where
  "reactor_move_timer queue target source r =
     (let (_, ops, q) = cancel_timer target [] no_index (tq r queue);
          q = move_timer target source q
      in (upd_tq queue q r, [PostDeferred (map TimerOp ops)]))"

section \<open>Running\<close>

text \<open>\<^verbatim>\<open>reset\<close>, then \<^verbatim>\<open>set\<close> for the interrupter, then the loop over the queues with the greatest descriptor.\<close>

fun prepare_queues ::
    "(int reactor_op_queue \<times> posix_fd_set_adapter) list \<Rightarrow> reactor_ops \<times> nat list \<times> bool \<times> int \<Rightarrow>
     fault + ((int reactor_op_queue \<times> posix_fd_set_adapter) list \<times> reactor_ops \<times> nat list \<times> bool \<times> int)" where
  "prepare_queues [] s = Inr ([], s)"
| "prepare_queues ((q, f) # qfs) (st, ops, have_work_to_do, max_fd) =
     (let have_work_to_do = have_work_to_do \<or> \<not> rq_empty q in
      and_then (fd_set_all (f, q, st, ops)) (\<lambda>(f, q, st, ops).
        let max_fd = (if max_descriptor f > max_fd then max_descriptor f else max_fd) in
        and_then (prepare_queues qfs (st, ops, have_work_to_do, max_fd)) (\<lambda>(qfs, s). Inr ((q, f) # qfs, s))))"

text \<open>The timeout in microseconds; \<^verbatim>\<open>timeval\<close> is its quotient and remainder by a million.\<close>

definition get_timeout :: "int \<Rightarrow> int \<Rightarrow> int \<Rightarrow> int \<Rightarrow> select_reactor \<Rightarrow> fault + (int \<times> int)" where
  "get_timeout pnum pden now usec r =
     (let max_usec = 5 * 60 * 1000 * 1000 in
      and_then (tqs_wait_usec pnum pden now (if usec < 0 \<or> max_usec < usec then max_usec else usec)
          (map (tq r) (timer_queues r))) (\<lambda>usec. Inr (usec div 1000000, usec mod 1000000)))"

text \<open>
  The first half of \<^verbatim>\<open>run\<close>: the operations that could not be set, and, unless it returns, the first two
  arguments of \<^verbatim>\<open>select\<close> that are not sets: \<^verbatim>\<open>nfds\<close> and the timeout. The sets are in the state.
\<close>

definition run_prepare ::
    "int \<Rightarrow> int \<Rightarrow> int \<Rightarrow> int \<Rightarrow> select_reactor \<Rightarrow>
     fault + (select_reactor \<times> nat list \<times> (int \<times> int \<times> int) option)" where
  "run_prepare pnum pden now usec r =
     (let fs = map fd_reset (fd_sets r) in
      and_then (fd_set_one (read_descriptor r) (fs ! read_op)) (\<lambda>(_, f).
        let fs = fs[read_op := f];
            have_work_to_do = \<not> tqs_all_empty r
        in and_then (prepare_queues (zip (op_queues r) fs) (sr_ops r, [], have_work_to_do, 0))
             (\<lambda>(qfs, st, ops, have_work_to_do, max_fd).
               let r = r\<lparr>op_queues := map fst qfs, fd_sets := map snd qfs, sr_ops := st\<rparr> in
               if usec = 0 \<and> \<not> have_work_to_do then Inr (r, ops, None)
               else if usec = 0 then Inr (r, ops, Some (max_fd + 1, 0, 0))
               else and_then (get_timeout pnum pden now usec r) (\<lambda>tv. Inr (r, ops, Some (max_fd + 1, tv))))))"

text \<open>What \<^verbatim>\<open>select\<close> leaves in the sets.\<close>

definition with_sets :: "int set list \<Rightarrow> select_reactor \<Rightarrow> select_reactor" where
  "with_sets ready r = r\<lparr>fd_sets := map2 (\<lambda>f s. f\<lparr>fd_set := s\<rparr>) (fd_sets r) ready\<rparr>"

text \<open>Except, write, read: the loop goes down.\<close>

fun perform_queues ::
    "'w perform_func \<Rightarrow> (int reactor_op_queue \<times> posix_fd_set_adapter) list \<Rightarrow> reactor_ops \<times> 'w \<times> nat list \<Rightarrow>
     fault + (int reactor_op_queue list \<times> reactor_ops \<times> 'w \<times> nat list)" where
  "perform_queues perf [] s = Inr ([], s)"
| "perform_queues perf ((q, f) # qfs) s =
     and_then (perform_queues perf qfs s) (\<lambda>(qs, st, w, ops).
       and_then (fd_perform perf f (q, st, w, ops)) (\<lambda>(q, s). Inr (q # qs, s)))"

text \<open>
  After \<^verbatim>\<open>select\<close>: whether the interrupter is to be reset; the new descriptor if the reset failed; the rest of
  \<^verbatim>\<open>run\<close>, which dispatches. \<open>ops\<close> are the operations that \<open>run_prepare\<close> could not set.
\<close>

definition interrupter_ready :: "int \<Rightarrow> select_reactor \<Rightarrow> fault + bool" where
  "interrupter_ready retval r =
     (if retval > 0 then fd_is_set (read_descriptor r) (fd_sets r ! read_op) else Inr False)"

definition run_dispatch ::
    "int \<Rightarrow> 'w perform_func \<Rightarrow> int \<Rightarrow> int option \<Rightarrow> nat list \<Rightarrow> select_reactor \<times> 'w \<Rightarrow>
     (fault + (select_reactor \<times> 'w \<times> completion list)) option" where
  "run_dispatch now perf retval recreated ops = (\<lambda>(r, w).
     case interrupter_ready retval r of
       Inl e \<Rightarrow> Some (Inl e)
     | Inr b \<Rightarrow>
         let r = (case recreated of Some rd \<Rightarrow> if b then r\<lparr>read_descriptor := rd\<rparr> else r | None \<Rightarrow> r);
             retval = (if b then retval - 1 else retval)
         in (case (if retval > 0 then perform_queues perf (zip (op_queues r) (fd_sets r)) (sr_ops r, w, ops)
                   else Inr (op_queues r, sr_ops r, w, ops)) of
               Inl e \<Rightarrow> Some (Inl e)
             | Inr (qs, st, w, ops) \<Rightarrow>
                 let r = r\<lparr>op_queues := qs, sr_ops := st\<rparr>
                 in map_option (\<lambda>(tops, r). Inr (r, w, map ReactorOp ops @ map TimerOp tops))
                      (tqs_ready now (timer_queues r) ([], r))))"

end
