(* ===== verification/SelectReactorSpec.thy ===== *)
theory SelectReactorSpec
  imports SelectReactor "HOL-Library.Multiset"
begin

text \<open>
  What the parts of the select reactor of \<open>SelectReactor\<close> do to the tables of its queues and to the multiset of the
  operations in them: setting the descriptor sets, performing what is ready, and cancelling.
\<close>

section \<open>The operations of a queue\<close>

definition rq_ops :: "'d reactor_op_queue \<Rightarrow> nat list" where
  "rq_ops q = concat (map (\<lambda>n. snd (cell q n)) (hm_values q))"

lemma rq_ops_sum:
  assumes inv: "rq_inv hash q" and S: "finite S" "\<And>d. rq_table q d \<noteq> [] \<Longrightarrow> d \<in> S"
  shows "mset (rq_ops q) = (\<Sum>d\<in>S. mset (rq_table q d))"
proof -
  let ?key = "\<lambda>n. fst (cell q n)"
  have dist: "distinct (hm_values q)" "inj_on ?key (set (hm_values q))"
    using inv by (auto simp: rq_inv_def hm_inv_def distinct_map)
  have m: "map (\<lambda>n. snd (cell q n)) (hm_values q) = map (\<lambda>n. rq_table q (?key n)) (hm_values q)"
    using rq_node(1) [OF inv] by simp
  have "mset (rq_ops q) = (\<Sum>n\<leftarrow>hm_values q. mset (rq_table q (?key n)))"
    unfolding rq_ops_def m by (simp add: mset_concat comp_def)
  also have "\<dots> = (\<Sum>n\<in>set (hm_values q). mset (rq_table q (?key n)))"
    using dist(1) by (simp add: sum_list_distinct_conv_sum_set)
  also have "\<dots> = (\<Sum>d\<in>?key ` set (hm_values q). mset (rq_table q d))"
    using dist(2) by (simp add: sum.reindex)
  also have "\<dots> = (\<Sum>d\<in>S. mset (rq_table q d))"
  proof (rule sum.mono_neutral_left)
    show "?key ` set (hm_values q) \<subseteq> S" using rq_node(2) [OF inv] S(2) by auto
    show "\<forall>d\<in>S - ?key ` set (hm_values q). mset (rq_table q d) = {#}"
      using rq_table_Nil [OF inv] by auto
  qed (rule S(1))
  finally show ?thesis .
qed

lemma rq_finite: "rq_inv hash q \<Longrightarrow> finite {d. rq_table q d \<noteq> []}"
  by (simp add: rq_table_Nil)

text \<open>What a change of the table at one descriptor does to the operations.\<close>

lemma rq_ops_update:
  assumes inv: "rq_inv hash q" "rq_inv hash q'" and t: "rq_table q' = (rq_table q)(d := v)"
  shows "mset (rq_ops q') + mset (rq_table q d) = mset (rq_ops q) + mset v"
proof -
  let ?S = "insert d {x. rq_table q x \<noteq> []}"
  have fin: "finite ?S" using rq_finite [OF inv(1)] by simp
  have "mset (rq_ops q') = (\<Sum>x\<in>?S. mset (((rq_table q)(d := v)) x))"
    using rq_ops_sum [OF inv(2) fin] t by (auto split: if_splits)
  also have "\<dots> = mset v + (\<Sum>x\<in>?S - {d}. mset (rq_table q x))"
    using fin by (subst sum.remove [of _ d]) auto
  finally have "mset (rq_ops q') = mset v + (\<Sum>x\<in>?S - {d}. mset (rq_table q x))" .
  moreover have "mset (rq_ops q) = mset (rq_table q d) + (\<Sum>x\<in>?S - {d}. mset (rq_table q x))"
    using rq_ops_sum [OF inv(1) fin] sum.remove [OF fin, of d "\<lambda>x. mset (rq_table q x)"] by simp
  ultimately show ?thesis by (simp add: ac_simps)
qed

lemma rq_ops_empty: "rq_inv hash q \<Longrightarrow> rq_table q = (\<lambda>_. []) \<Longrightarrow> rq_ops q = []"
  using rq_ops_sum [of hash q "{}"] by simp

lemma rq_ops_mem: "rq_inv hash q \<Longrightarrow> op \<in> set (rq_table q d) \<Longrightarrow> op \<in> set (rq_ops q)"
  using rq_table_Nil [of hash q d] rq_node(1) [of hash q] by (auto simp: rq_ops_def)

section \<open>The descriptor sets\<close>

lemma with_error_union: "with_error ec A (with_error ec B st) = with_error ec (A \<union> B) st"
  by (auto simp: with_error_def fun_eq_iff)

lemma with_error_empty [simp]: "with_error ec {} st = st"
  by (simp add: with_error_def)

text \<open>
  Setting a queue: the descriptors below \<open>FD_SETSIZE\<close> are set, the operations of the others are taken with
  the error.
\<close>

definition failed_ops :: "'d reactor_op_queue \<Rightarrow> ('d \<Rightarrow> bool) \<Rightarrow> node list \<Rightarrow> nat list" where
  "failed_ops q big ns = concat (map (\<lambda>n. rq_table q (fst (cell q n))) (filter (\<lambda>n. big (fst (cell q n))) ns))"

lemma fd_set_one_spec:
  assumes "0 \<le> d"
  shows "\<exists>f'. fd_set_one d f = Inr (d < FD_SETSIZE, f')
    \<and> fd_set f' = (if d < FD_SETSIZE then insert d (fd_set f) else fd_set f)"
  using assms by (auto simp: fd_set_one_def Let_def)

lemma fd_set_loop_spec:
  assumes "rq_inv fd_hash q" "set ns \<subseteq> set (hm_values q)" "distinct ns"
    and "\<forall>n\<in>set ns. 0 \<le> fst (cell q n)"
  defines "big \<equiv> \<lambda>d. FD_SETSIZE \<le> d"
  shows "\<exists>f' q'. fd_set_loop ns (f, q, st, ops) =
      Inr (f', q', with_error FdSetFailure (set (failed_ops q big ns)) st, ops @ failed_ops q big ns)
    \<and> rq_inv fd_hash q'
    \<and> rq_table q' = (\<lambda>d. if d \<in> (\<lambda>n. fst (cell q n)) ` set ns \<and> big d then [] else rq_table q d)
    \<and> fd_set f' = fd_set f \<union> {d \<in> (\<lambda>n. fst (cell q n)) ` set ns. \<not> big d}"
  using assms(1-4)
proof (induction ns arbitrary: f q st ops)
  case Nil
  then show ?case by (auto simp: failed_ops_def)
next
  case (Cons n ns)
  let ?d = "fst (cell q n)"
  have n: "n \<in> set (hm_values q)" "n \<notin> set ns" "0 \<le> ?d" using Cons.prems by auto
  obtain f1 where f1: "fd_set_one ?d f = Inr (?d < FD_SETSIZE, f1)"
    "fd_set f1 = (if ?d < FD_SETSIZE then insert ?d (fd_set f) else fd_set f)"
    using fd_set_one_spec [OF n(3)] by blast
  have keys: "fst (cell q x) \<noteq> ?d" if "x \<in> set ns" for x
    using that Cons.prems(1,2) n(1,2) by (auto simp: rq_inv_def hm_inv_def distinct_map inj_on_def)
  show ?case
  proof (cases "big ?d")
    case False
    have "failed_ops q big (n # ns) = failed_ops q big ns" using False by (simp add: failed_ops_def)
    moreover have "(d \<in> (\<lambda>n. fst (cell q n)) ` set (n # ns) \<and> big d) = (d \<in> (\<lambda>n. fst (cell q n)) ` set ns \<and> big d)" for d
      using False by auto
    ultimately show ?thesis
      using Cons.IH [of q f1 st ops] Cons.prems f1 False by (auto simp: big_def)
  next
    case True
    from cancel_it_spec [OF Cons.prems(1) n(1), of 0 FdSetFailure st ops] obtain q1 where
      q1: "cancel_operations_it fd_hash 0 (Some n) FdSetFailure (q, st, ops) =
          Inr (True, q1, with_error FdSetFailure (set (rq_table q ?d)) st, ops @ rq_table q ?d)"
        "rq_inv fd_hash q1" "rq_table q1 = (rq_table q)(?d := [])"
        "hm_values q1 = remove1 n (hm_values q)" "\<forall>x. x \<noteq> n \<longrightarrow> cell q1 x = cell q x" by blast
    have c: "cell q1 x = cell q x" if "x \<in> set ns" for x using that n(2) q1(5) by auto
    have img: "(\<lambda>n. fst (cell q1 n)) ` set ns = (\<lambda>n. fst (cell q n)) ` set ns"
      by (rule image_cong [OF refl]) (simp add: c)
    have sub: "set ns \<subseteq> set (hm_values q1)"
    proof
      fix x
      assume "x \<in> set ns"
      then have "x \<noteq> n" "x \<in> set (hm_values q)" using n(2) Cons.prems(2) by auto
      then show "x \<in> set (hm_values q1)" by (simp add: q1(4))
    qed
    have nonneg: "\<forall>x\<in>set ns. 0 \<le> fst (cell q1 x)" using Cons.prems(4) c by simp
    have fo: "failed_ops q1 big ns = failed_ops q big ns"
      unfolding failed_ops_def
      by (rule arg_cong [of _ _ concat], rule map_cong) (auto simp: c q1(3) keys intro: filter_cong)
    have fn: "failed_ops q big (n # ns) = rq_table q ?d @ failed_ops q big ns"
      using True by (simp add: failed_ops_def)
    from Cons.IH [OF q1(2) sub _ nonneg, of f1 "with_error FdSetFailure (set (rq_table q ?d)) st" "ops @ rq_table q ?d"]
    obtain f' q' where r: "fd_set_loop ns (f1, q1, with_error FdSetFailure (set (rq_table q ?d)) st, ops @ rq_table q ?d) =
        Inr (f', q', with_error FdSetFailure (set (failed_ops q big ns)) (with_error FdSetFailure (set (rq_table q ?d)) st),
          (ops @ rq_table q ?d) @ failed_ops q big ns)"
      "rq_inv fd_hash q'"
      "rq_table q' = (\<lambda>d. if d \<in> (\<lambda>n. fst (cell q n)) ` set ns \<and> big d then [] else rq_table q1 d)"
      "fd_set f' = fd_set f1 \<union> {d \<in> (\<lambda>n. fst (cell q n)) ` set ns. \<not> big d}"
      using Cons.prems(3) unfolding fo img by auto
    have "fd_set_loop (n # ns) (f, q, st, ops) =
        Inr (f', q', with_error FdSetFailure (set (failed_ops q big (n # ns))) st, ops @ failed_ops q big (n # ns))"
      unfolding fn using r(1) f1(1) q1(1) True by (simp add: big_def with_error_union Un_commute)
    moreover have "rq_table q' = (\<lambda>d. if d \<in> (\<lambda>n. fst (cell q n)) ` set (n # ns) \<and> big d then [] else rq_table q d)"
      unfolding r(3) q1(3) using True by (auto simp: fun_eq_iff)
    moreover have "fd_set f' = fd_set f \<union> {d \<in> (\<lambda>n. fst (cell q n)) ` set (n # ns). \<not> big d}"
      unfolding r(4) f1(2) using True by (auto simp: big_def)
    ultimately show ?thesis using r(2) by blast
  qed
qed


lemma mset_failed_ops:
  assumes inv: "rq_inv hash q"
  shows "mset (failed_ops q big (hm_values q)) =
    (\<Sum>d\<in>(\<lambda>n. fst (cell q n)) ` set (hm_values q). if big d then mset (rq_table q d) else {#})"
proof -
  let ?key = "\<lambda>n. fst (cell q n)"
  have dist: "distinct (hm_values q)" "inj_on ?key (set (hm_values q))"
    using inv by (auto simp: rq_inv_def hm_inv_def distinct_map)
  have "mset (failed_ops q big xs) = (\<Sum>n\<leftarrow>xs. if big (?key n) then mset (rq_table q (?key n)) else {#})" for xs
    by (induction xs) (auto simp: failed_ops_def)
  then show ?thesis
    using dist by (simp add: sum_list_distinct_conv_sum_set sum.reindex)
qed

lemma fd_set_all_spec:
  assumes inv: "rq_inv fd_hash q" and nn: "\<And>d. rq_table q d \<noteq> [] \<Longrightarrow> 0 \<le> d"
  shows "\<exists>f' q' failed. fd_set_all (f, q, st, ops) =
      Inr (f', q', with_error FdSetFailure (set failed) st, ops @ failed)
    \<and> rq_inv fd_hash q'
    \<and> rq_table q' = (\<lambda>d. if FD_SETSIZE \<le> d then [] else rq_table q d)
    \<and> fd_set f' = fd_set f \<union> {d. rq_table q d \<noteq> [] \<and> d < FD_SETSIZE}
    \<and> mset (rq_ops q) = mset failed + mset (rq_ops q')
    \<and> set failed = {op. \<exists>d\<ge>FD_SETSIZE. op \<in> set (rq_table q d)}"
proof -
  let ?S = "(\<lambda>n. fst (cell q n)) ` set (hm_values q)"
  let ?failed = "failed_ops q (\<lambda>d. FD_SETSIZE \<le> d) (hm_values q)"
  have S: "d \<in> ?S \<longleftrightarrow> rq_table q d \<noteq> []" for d using rq_table_Nil [OF inv] by blast
  have "distinct (hm_values q)" using inv by (simp add: rq_inv_def hm_inv_def)
  moreover have "\<forall>n\<in>set (hm_values q). 0 \<le> fst (cell q n)" using nn S by blast
  ultimately obtain f' q' where r:
    "fd_set_all (f, q, st, ops) = Inr (f', q', with_error FdSetFailure (set ?failed) st, ops @ ?failed)"
    "rq_inv fd_hash q'"
    "rq_table q' = (\<lambda>d. if d \<in> ?S \<and> FD_SETSIZE \<le> d then [] else rq_table q d)"
    "fd_set f' = fd_set f \<union> {d \<in> ?S. \<not> FD_SETSIZE \<le> d}"
    using fd_set_loop_spec [OF inv subset_refl, of f st ops] unfolding fd_set_all_def by auto
  have t: "rq_table q' = (\<lambda>d. if FD_SETSIZE \<le> d then [] else rq_table q d)"
    unfolding r(3) using S by (auto simp: fun_eq_iff)
  have "mset (rq_ops q') = (\<Sum>d\<in>?S. mset (rq_table q' d))"
    by (rule rq_ops_sum [OF r(2)]) (use S t in \<open>auto split: if_splits\<close>)
  moreover have "mset (rq_ops q) = (\<Sum>d\<in>?S. mset (rq_table q d))"
    by (rule rq_ops_sum [OF inv]) (use S in auto)
  ultimately have "mset (rq_ops q) = mset ?failed + mset (rq_ops q')"
    unfolding mset_failed_ops [OF inv] t by (simp add: sum.distrib [symmetric], intro sum.cong) auto
  moreover have "set ?failed = {op. \<exists>d\<ge>FD_SETSIZE. op \<in> set (rq_table q d)}"
  proof (rule set_eqI)
    fix op
    have "op \<in> set ?failed \<longleftrightarrow> (\<exists>d\<in>?S. FD_SETSIZE \<le> d \<and> op \<in> set (rq_table q d))"
      by (auto simp: failed_ops_def)
    also have "\<dots> \<longleftrightarrow> (\<exists>d\<ge>FD_SETSIZE. op \<in> set (rq_table q d))"
      using S by (metis empty_iff empty_set)
    finally show "op \<in> set ?failed \<longleftrightarrow> op \<in> {op. \<exists>d\<ge>FD_SETSIZE. op \<in> set (rq_table q d)}" by simp
  qed
  moreover have "{d \<in> ?S. \<not> FD_SETSIZE \<le> d} = {d. rq_table q d \<noteq> [] \<and> d < FD_SETSIZE}"
    unfolding S not_le by (rule refl)
  then have "fd_set f' = fd_set f \<union> {d. rq_table q d \<noteq> [] \<and> d < FD_SETSIZE}" using r(4) by simp
  ultimately show ?thesis using r(1,2) t by blast
qed

section \<open>Performing what is ready\<close>

text \<open>
  The queue of each descriptor that is set splits into \<open>fin\<close> and \<open>rest\<close>; the others are left.
\<close>

definition dispatches :: "int set \<Rightarrow> (int \<Rightarrow> nat list) \<Rightarrow> (int \<Rightarrow> nat list) \<Rightarrow> (int \<Rightarrow> nat list) \<Rightarrow> bool" where
  "dispatches S T fin rest \<longleftrightarrow> (\<forall>d. T d = fin d @ rest d \<and> (d \<notin> S \<longrightarrow> fin d = []))"

lemma dispatchesD:
  assumes "dispatches S T fin rest"
  shows "T d = fin d @ rest d" "d \<notin> S \<Longrightarrow> fin d = []"
  using assms unfolding dispatches_def by metis+

text \<open>
  The queues of some descriptors are performed one after the other: of each the operations that finish, \<open>fin\<close>, and
  then the first of the others, which does not.
\<close>

definition dispatched ::
    "'w perform_func \<Rightarrow> (nat list \<times> nat list) list \<Rightarrow> reactor_ops \<times> 'w \<Rightarrow> reactor_ops \<times> 'w \<Rightarrow> bool" where
  "dispatched perf splits s s' \<longleftrightarrow>
     (\<exists>rs. perform_each perf (concat (map (\<lambda>(fin, rest). fin @ take 1 rest) splits)) s = (rs, s')
       \<and> map (\<lambda>r. r \<noteq> NotDone) rs =
           concat (map (\<lambda>(fin, rest). replicate (length fin) True @ (if rest = [] then [] else [False])) splits))"

lemma perform_each_append:
  "perform_each perf (xs @ ys) s =
     (case perform_each perf xs s of (rs, s1) \<Rightarrow> case perform_each perf ys s1 of (rs', s2) \<Rightarrow> (rs @ rs', s2))"
  by (induction xs arbitrary: s) (auto split: prod.splits)

lemma dispatched_Nil [simp]: "dispatched perf [] s s' \<longleftrightarrow> s' = s"
  by (auto simp: dispatched_def)

lemma dispatched_append:
  assumes "dispatched perf xs s s1" "dispatched perf ys s1 s2"
  shows "dispatched perf (xs @ ys) s s2"
  using assms by (auto simp: dispatched_def perform_each_append)

lemma performs_dispatched: "performs perf fin rest s s' \<longleftrightarrow> dispatched perf [(fin, rest)] s s'"
  by (simp add: performs_def dispatched_def)

lemma fd_perform_loop_spec:
  assumes "rq_inv fd_hash q" "set ns \<subseteq> set (hm_values q)" "distinct ns"
    and "\<forall>n\<in>set ns. 0 \<le> fst (cell q n) \<and> fst (cell q n) < FD_SETSIZE"
  shows "\<exists>q' st' w' fin rest. fd_perform_loop perf f ns (q, st, w, ops) =
      Inr (q', st', w', ops @ concat (map (\<lambda>n. fin (fst (cell q n))) ns))
    \<and> rq_inv fd_hash q' \<and> rq_table q' = rest
    \<and> dispatches (fd_set f \<inter> (\<lambda>n. fst (cell q n)) ` set ns) (rq_table q) fin rest
    \<and> dispatched perf (map (\<lambda>d. (fin d, rest d)) (filter (\<lambda>d. d \<in> fd_set f) (map (\<lambda>n. fst (cell q n)) ns)))
        (st, w) (st', w')"
  using assms
proof (induction ns arbitrary: q st w ops)
  case Nil
  have "dispatches {} (rq_table q) (\<lambda>_. []) (rq_table q)" by (simp add: dispatches_def)
  then show ?case using Nil.prems(1)
    by (intro exI [of _ q] exI [of _ st] exI [of _ w] exI [of _ "\<lambda>_. []"] exI [of _ "rq_table q"]) simp
next
  case (Cons n ns)
  let ?d = "fst (cell q n)"
  let ?key = "\<lambda>n. fst (cell q n)"
  have n: "n \<in> set (hm_values q)" "n \<notin> set ns" "0 \<le> ?d" "?d < FD_SETSIZE" using Cons.prems by auto
  have is_set: "fd_is_set ?d f = Inr (?d \<in> fd_set f)" using n(3,4) by (simp add: fd_is_set_def)
  have keys: "?key x \<noteq> ?d" if "x \<in> set ns" for x
    using that Cons.prems(1,2) n(1,2) by (auto simp: rq_inv_def hm_inv_def distinct_map inj_on_def)
  show ?case
  proof (cases "?d \<in> fd_set f")
    case False
    have s: "fd_set f \<inter> ?key ` set (n # ns) = fd_set f \<inter> ?key ` set ns" using False by auto
    from Cons.IH [of q st w ops] Cons.prems obtain q' st' w' fin rest where
      r: "fd_perform_loop perf f ns (q, st, w, ops) = Inr (q', st', w', ops @ concat (map (\<lambda>n. fin (?key n)) ns))"
        "rq_inv fd_hash q'" "rq_table q' = rest" "dispatches (fd_set f \<inter> ?key ` set ns) (rq_table q) fin rest"
        "dispatched perf (map (\<lambda>d. (fin d, rest d)) (filter (\<lambda>d. d \<in> fd_set f) (map ?key ns))) (st, w) (st', w')"
      by auto
    have "fin ?d = []" using r(4) False by (simp add: dispatches_def)
    then show ?thesis using r is_set False unfolding s by (auto intro!: exI [of _ fin])
  next
    case True
    from perform_it_spec [OF Cons.prems(1) n(1), of 0 perf st w ops] obtain q1 dn rst st1 w1 where
      q1: "perform_operations_it fd_hash 0 perf (Some n) (q, st, w, ops) = Inr (rst \<noteq> [], q1, st1, w1, ops @ dn)"
        "rq_table q ?d = dn @ rst" "performs perf dn rst (st, w) (st1, w1)" "rq_inv fd_hash q1"
        "rq_table q1 = (rq_table q)(?d := rst)" "\<forall>x. x \<noteq> n \<longrightarrow> cell q1 x = cell q x"
        "hm_values q1 = hm_values q \<or> hm_values q1 = remove1 n (hm_values q)" by blast
    have c: "cell q1 x = cell q x" if "x \<in> set ns" for x using that n(2) q1(6) by auto
    have img: "(\<lambda>n. fst (cell q1 n)) ` set ns = ?key ` set ns"
      by (rule image_cong [OF refl]) (simp add: c)
    have sub: "set ns \<subseteq> set (hm_values q1)"
    proof
      fix x
      assume "x \<in> set ns"
      then have "x \<noteq> n" "x \<in> set (hm_values q)" using n(2) Cons.prems(2) by auto
      then show "x \<in> set (hm_values q1)" using q1(7) by auto
    qed
    have rng: "\<forall>x\<in>set ns. 0 \<le> fst (cell q1 x) \<and> fst (cell q1 x) < FD_SETSIZE" using Cons.prems(4) c by simp
    from Cons.IH [OF q1(4) sub _ rng, of st1 w1 "ops @ dn"] Cons.prems(3) obtain q' st' w' fin rest where
      r: "fd_perform_loop perf f ns (q1, st1, w1, ops @ dn) =
          Inr (q', st', w', (ops @ dn) @ concat (map (\<lambda>n. fin (fst (cell q1 n))) ns))"
        "rq_inv fd_hash q'" "rq_table q' = rest"
        "dispatches (fd_set f \<inter> ?key ` set ns) (rq_table q1) fin rest"
        "dispatched perf (map (\<lambda>d. (fin d, rest d)) (filter (\<lambda>d. d \<in> fd_set f) (map (\<lambda>n. fst (cell q1 n)) ns)))
          (st1, w1) (st', w')"
      unfolding img by auto
    have nd: "?d \<notin> ?key ` set ns"
    proof
      assume "?d \<in> ?key ` set ns"
      then obtain x where "?d = ?key x" "x \<in> set ns" by (rule imageE)
      then show False using keys [of x] by simp
    qed
    then have "?d \<notin> fd_set f \<inter> ?key ` set ns" by blast
    then have fd: "fin ?d = []" by (rule dispatchesD(2) [OF r(4)])
    have "rq_table q1 ?d = rst" using q1(5) by simp
    then have fr: "rest ?d = rst" using dispatchesD(1) [OF r(4), of ?d] fd by (metis append_Nil)
    let ?fin = "fin(?d := dn)"
    have m: "map (\<lambda>n. fin (fst (cell q1 n))) ns = map (\<lambda>n. ?fin (?key n)) ns"
      by (rule map_cong [OF refl]) (use c keys in simp)
    have "dispatches (fd_set f \<inter> ?key ` set (n # ns)) (rq_table q) ?fin rest"
      unfolding dispatches_def
    proof
      fix d
      show "rq_table q d = ?fin d @ rest d \<and> (d \<notin> fd_set f \<inter> ?key ` set (n # ns) \<longrightarrow> ?fin d = [])"
      proof (cases "d = ?d")
        case True
        then show ?thesis using q1(2) fr \<open>?d \<in> fd_set f\<close> by auto
      next
        case False
        then have e: "rq_table q1 d = rq_table q d" "?fin d = fin d"
          "(d \<in> fd_set f \<inter> ?key ` set (n # ns)) = (d \<in> fd_set f \<inter> ?key ` set ns)"
          using q1(5) by simp_all
        show ?thesis
          using spec [OF r(4) [unfolded dispatches_def], of d] unfolding e(1) e(2) e(3) .
      qed
    qed
    moreover have "dispatched perf (map (\<lambda>d. (?fin d, rest d)) (filter (\<lambda>d. d \<in> fd_set f) (map ?key (n # ns))))
        (st, w) (st', w')"
    proof -
      have k: "map (\<lambda>n. fst (cell q1 n)) ns = map ?key ns" by (rule map_cong [OF refl]) (use c in simp)
      have "map (\<lambda>d. (?fin d, rest d)) (filter (\<lambda>d. d \<in> fd_set f) (map ?key ns)) =
          map (\<lambda>d. (fin d, rest d)) (filter (\<lambda>d. d \<in> fd_set f) (map ?key ns))"
      proof (rule map_cong [OF refl])
        fix d
        assume "d \<in> set (filter (\<lambda>d. d \<in> fd_set f) (map ?key ns))"
        then have "d \<in> ?key ` set ns" by simp
        then show "(?fin d, rest d) = (fin d, rest d)" using nd by (metis fun_upd_other)
      qed
      then have e: "map (\<lambda>d. (?fin d, rest d)) (filter (\<lambda>d. d \<in> fd_set f) (map ?key (n # ns))) =
          [(dn, rst)] @ map (\<lambda>d. (fin d, rest d)) (filter (\<lambda>d. d \<in> fd_set f) (map ?key ns))"
        using True fr by simp
      have "dispatched perf [(dn, rst)] (st, w) (st1, w1)"
        using q1(3) by (simp only: performs_dispatched)
      then show ?thesis
        unfolding e using r(5) unfolding k by (rule dispatched_append)
    qed
    moreover have "fd_perform_loop perf f (n # ns) (q, st, w, ops) =
        Inr (q', st', w', ops @ concat (map (\<lambda>n. ?fin (?key n)) (n # ns)))"
      using r(1) is_set True q1(1) unfolding m by simp
    ultimately show ?thesis using r(2,3) by blast
  qed
qed


lemma mset_concat_keys:
  assumes inv: "rq_inv hash q"
  shows "mset (concat (map (\<lambda>n. fin (fst (cell q n))) (hm_values q))) =
    (\<Sum>d\<in>(\<lambda>n. fst (cell q n)) ` set (hm_values q). mset (fin d))"
proof -
  let ?key = "\<lambda>n. fst (cell q n)"
  have "distinct (hm_values q)" "inj_on ?key (set (hm_values q))"
    using inv by (auto simp: rq_inv_def hm_inv_def distinct_map)
  then show ?thesis
    by (simp add: mset_concat comp_def sum_list_distinct_conv_sum_set sum.reindex)
qed

lemma fd_perform_spec:
  assumes inv: "rq_inv fd_hash q" and rng: "\<And>d. rq_table q d \<noteq> [] \<Longrightarrow> 0 \<le> d \<and> d < FD_SETSIZE"
  shows "\<exists>q' st' w' fin out. fd_perform perf f (q, st, w, ops) = Inr (q', st', w', ops @ out)
    \<and> rq_inv fd_hash q' \<and> dispatches (fd_set f) (rq_table q) fin (rq_table q')
    \<and> dispatched perf (map (\<lambda>d. (fin d, rq_table q' d)) (filter (\<lambda>d. d \<in> fd_set f) (map (\<lambda>n. fst (cell q n)) (hm_values q))))
        (st, w) (st', w')
    \<and> out = concat (map (\<lambda>n. fin (fst (cell q n))) (hm_values q))
    \<and> mset (rq_ops q) = mset out + mset (rq_ops q')"
proof -
  let ?S = "(\<lambda>n. fst (cell q n)) ` set (hm_values q)"
  have S: "d \<in> ?S \<longleftrightarrow> rq_table q d \<noteq> []" for d using rq_table_Nil [OF inv] by blast
  have "distinct (hm_values q)" using inv by (simp add: rq_inv_def hm_inv_def)
  moreover have "\<forall>n\<in>set (hm_values q). 0 \<le> fst (cell q n) \<and> fst (cell q n) < FD_SETSIZE" using rng S by blast
  ultimately obtain q' st' w' fin where r: "fd_perform perf f (q, st, w, ops) =
      Inr (q', st', w', ops @ concat (map (\<lambda>n. fin (fst (cell q n))) (hm_values q)))"
    "rq_inv fd_hash q'" "dispatches (fd_set f \<inter> ?S) (rq_table q) fin (rq_table q')"
    "dispatched perf (map (\<lambda>d. (fin d, rq_table q' d)) (filter (\<lambda>d. d \<in> fd_set f) (map (\<lambda>n. fst (cell q n)) (hm_values q))))
        (st, w) (st', w')"
    using fd_perform_loop_spec [OF inv subset_refl, of perf f st w ops] unfolding fd_perform_def by auto
  have d: "dispatches (fd_set f) (rq_table q) fin (rq_table q')"
    using r(3) unfolding dispatches_def by blast
  have T: "rq_table q d = fin d @ rq_table q' d" for d by (rule dispatchesD(1) [OF d])
  have "mset (rq_ops q') = (\<Sum>d\<in>?S. mset (rq_table q' d))"
    by (rule rq_ops_sum [OF r(2)]) (use S T in auto)
  moreover have "mset (rq_ops q) = (\<Sum>d\<in>?S. mset (fin d) + mset (rq_table q' d))"
    by (subst rq_ops_sum [OF inv, of ?S]) (use S T in auto)
  ultimately have "mset (rq_ops q) = mset (concat (map (\<lambda>n. fin (fst (cell q n))) (hm_values q))) + mset (rq_ops q')"
    unfolding mset_concat_keys [OF inv] by (simp add: sum.distrib)
  then show ?thesis using r(1,2,4) d by blast
qed

section \<open>The three queues\<close>

definition sr_inv :: "select_reactor \<Rightarrow> bool" where
  "sr_inv r \<longleftrightarrow> length (op_queues r) = max_ops \<and> length (fd_sets r) = max_ops
     \<and> (\<forall>q\<in>set (op_queues r). rq_inv fd_hash q)"

definition queued :: "select_reactor \<Rightarrow> nat multiset" where
  "queued r = mset (concat (map rq_ops (op_queues r)))"

definition waiting :: "select_reactor \<Rightarrow> nat \<Rightarrow> int \<Rightarrow> nat list" where
  "waiting r i d = rq_table (op_queues r ! i) d"

text \<open>The descriptors that wait are those \<^verbatim>\<open>select\<close> can watch.\<close>

definition watchable :: "int reactor_op_queue \<Rightarrow> bool" where
  "watchable q \<longleftrightarrow> (\<forall>d. rq_table q d \<noteq> [] \<longrightarrow> 0 \<le> d \<and> d < FD_SETSIZE)"

definition nonnegative :: "int reactor_op_queue \<Rightarrow> bool" where
  "nonnegative q \<longleftrightarrow> (\<forall>d. rq_table q d \<noteq> [] \<longrightarrow> 0 \<le> d)"

lemma queued_update:
  assumes "i < length (op_queues r)"
  shows "queued (upd_queue i q r) + mset (rq_ops (op_queues r ! i)) = queued r + mset (rq_ops q)"
proof -
  have "mset (concat (map rq_ops (xs[i := q]))) + mset (rq_ops (xs ! i)) = mset (concat (map rq_ops xs)) + mset (rq_ops q)"
    if "i < length xs" for xs
    using that by (induction xs arbitrary: i) (auto split: nat.splits simp: ac_simps)
  then show ?thesis using assms by (simp add: queued_def upd_queue_def)
qed

lemma cancel_queues_spec:
  assumes "\<forall>q\<in>set qs. rq_inv fd_hash q"
  shows "\<exists>qs' out. cancel_queues d ec qs (st, ops, need) =
      Inr (qs', with_error ec (set out) st, ops @ out, need \<or> out \<noteq> [])
    \<and> out = concat (map (\<lambda>q. rq_table q d) qs)
    \<and> list_all2 (\<lambda>q q'. rq_inv fd_hash q' \<and> rq_table q' = (rq_table q)(d := [])) qs qs'
    \<and> mset (concat (map rq_ops qs)) = mset out + mset (concat (map rq_ops qs'))"
  using assms
proof (induction qs arbitrary: st ops need)
  case Nil
  then show ?case by simp
next
  case (Cons q qs)
  from cancel_spec [of fd_hash q 0 d ec st ops] Cons.prems obtain q' where
    q': "cancel_operations fd_hash 0 d ec (q, st, ops) =
      Inr (rq_table q d \<noteq> [], q', with_error ec (set (rq_table q d)) st, ops @ rq_table q d)"
      "rq_inv fd_hash q'" "rq_table q' = (rq_table q)(d := [])" by auto
  have m: "mset (rq_ops q) = mset (rq_table q d) + mset (rq_ops q')"
    using rq_ops_update [OF _ q'(2,3)] Cons.prems by (simp add: ac_simps)
  have "\<forall>q\<in>set qs. rq_inv fd_hash q" using Cons.prems by simp
  from Cons.IH [OF this, of "with_error ec (set (rq_table q d)) st" "ops @ rq_table q d" "rq_table q d \<noteq> [] \<or> need"]
  obtain qs' out where r: "cancel_queues d ec qs (with_error ec (set (rq_table q d)) st, ops @ rq_table q d,
        rq_table q d \<noteq> [] \<or> need) =
      Inr (qs', with_error ec (set out) (with_error ec (set (rq_table q d)) st), (ops @ rq_table q d) @ out,
        (rq_table q d \<noteq> [] \<or> need) \<or> out \<noteq> [])"
      "out = concat (map (\<lambda>q. rq_table q d) qs)"
      "list_all2 (\<lambda>q q'. rq_inv fd_hash q' \<and> rq_table q' = (rq_table q)(d := [])) qs qs'"
      "mset (concat (map rq_ops qs)) = mset out + mset (concat (map rq_ops qs'))" by blast
  have "cancel_queues d ec (q # qs) (st, ops, need) =
      Inr (q' # qs', with_error ec (set (rq_table q d @ out)) st, ops @ (rq_table q d @ out),
        need \<or> rq_table q d @ out \<noteq> [])"
    using q'(1) r(1) by (auto simp: with_error_union Un_commute)
  moreover have "rq_table q d @ out = concat (map (\<lambda>q. rq_table q d) (q # qs))" using r(2) by simp
  moreover have "list_all2 (\<lambda>q q'. rq_inv fd_hash q' \<and> rq_table q' = (rq_table q)(d := [])) (q # qs) (q' # qs')"
    using r(3) q'(2,3) by simp
  moreover have "mset (concat (map rq_ops (q # qs))) =
      mset (rq_table q d @ out) + mset (concat (map rq_ops (q' # qs')))"
    using r(4) m by (simp add: ac_simps)
  ultimately show ?case by blast
qed

text \<open>The sets cover what waits, and \<^verbatim>\<open>max_descriptor\<close> what is set.\<close>

definition fd_inv :: "posix_fd_set_adapter \<Rightarrow> bool" where
  "fd_inv f \<longleftrightarrow> (\<forall>d\<in>fd_set f. 0 \<le> d \<and> d < FD_SETSIZE \<and> d \<le> max_descriptor f)"

lemma fd_set_one_inv: "fd_set_one d f = Inr (b, f') \<Longrightarrow> fd_inv f \<Longrightarrow> fd_inv f'"
  by (fastforce simp: fd_set_one_def fd_inv_def Let_def invalid_socket_def split: if_splits)

lemma fd_set_loop_inv: "fd_set_loop ns (f, q, st, ops) = Inr (f', q', st', ops') \<Longrightarrow> fd_inv f \<Longrightarrow> fd_inv f'"
proof (induction ns arbitrary: f q st ops)
  case (Cons n ns)
  from Cons.prems(1) obtain b f1 where f1: "fd_set_one (fst (cell q n)) f = Inr (b, f1)"
    by (auto simp: and_then_Inr_iff)
  have i: "fd_inv f1" by (rule fd_set_one_inv [OF f1 Cons.prems(2)])
  show ?case
    using Cons.prems(1) f1 Cons.IH [OF _ i] by (cases b) (auto simp: and_then_Inr_iff)
qed simp

lemma prepare_queues_spec:
  assumes "\<forall>(q, f)\<in>set qfs. rq_inv fd_hash q \<and> nonnegative q \<and> fd_inv f"
  shows "\<exists>qfs' failed m1. prepare_queues qfs (st, ops, hw, m0) =
      Inr (qfs', with_error FdSetFailure (set failed) st, ops @ failed,
        hw \<or> (\<exists>(q, f)\<in>set qfs. \<not> rq_empty q), m1)
    \<and> list_all2 (\<lambda>(q, f) (q', f'). rq_inv fd_hash q' \<and> fd_inv f' \<and> max_descriptor f' \<le> m1
        \<and> rq_table q' = (\<lambda>d. if FD_SETSIZE \<le> d then [] else rq_table q d)
        \<and> fd_set f' = fd_set f \<union> {d. rq_table q d \<noteq> [] \<and> d < FD_SETSIZE}) qfs qfs'
    \<and> m0 \<le> m1
    \<and> set failed = {op. \<exists>(q, f)\<in>set qfs. \<exists>d\<ge>FD_SETSIZE. op \<in> set (rq_table q d)}
    \<and> mset (concat (map (rq_ops \<circ> fst) qfs)) = mset failed + mset (concat (map (rq_ops \<circ> fst) qfs'))"
  using assms
proof (induction qfs arbitrary: st ops hw m0)
  case Nil
  then show ?case by simp
next
  case (Cons qf qfs)
  obtain q f where qf: "qf = (q, f)" by (cases qf)
  have q: "rq_inv fd_hash q" "\<And>d. rq_table q d \<noteq> [] \<Longrightarrow> 0 \<le> d" "fd_inv f"
    using Cons.prems qf by (auto simp: nonnegative_def)
  from fd_set_all_spec [OF q(1,2), of f st ops] obtain f' q' failed where
    s: "fd_set_all (f, q, st, ops) = Inr (f', q', with_error FdSetFailure (set failed) st, ops @ failed)"
      "rq_inv fd_hash q'" "rq_table q' = (\<lambda>d. if FD_SETSIZE \<le> d then [] else rq_table q d)"
      "fd_set f' = fd_set f \<union> {d. rq_table q d \<noteq> [] \<and> d < FD_SETSIZE}"
      "mset (rq_ops q) = mset failed + mset (rq_ops q')"
      "set failed = {op. \<exists>d\<ge>FD_SETSIZE. op \<in> set (rq_table q d)}" by blast
  have fi: "fd_inv f'" using fd_set_loop_inv s(1) q(3) unfolding fd_set_all_def by auto
  let ?mx = "if max_descriptor f' > m0 then max_descriptor f' else m0"
  let ?P = "\<lambda>mm (q, f) (q', f'). rq_inv fd_hash q' \<and> fd_inv f' \<and> max_descriptor f' \<le> mm
        \<and> rq_table q' = (\<lambda>d. if FD_SETSIZE \<le> d then [] else rq_table q d)
        \<and> fd_set f' = fd_set f \<union> {d. rq_table q d \<noteq> [] \<and> d < FD_SETSIZE}"
  have "\<forall>(q, f)\<in>set qfs. rq_inv fd_hash q \<and> nonnegative q \<and> fd_inv f" using Cons.prems by simp
  from Cons.IH [OF this, of "with_error FdSetFailure (set failed) st" "ops @ failed" "hw \<or> \<not> rq_empty q" ?mx]
  obtain qfs' failed2 m1 where
    r: "prepare_queues qfs (with_error FdSetFailure (set failed) st, ops @ failed, hw \<or> \<not> rq_empty q, ?mx) =
        Inr (qfs', with_error FdSetFailure (set failed2) (with_error FdSetFailure (set failed) st),
          (ops @ failed) @ failed2, (hw \<or> \<not> rq_empty q) \<or> (\<exists>(q, f)\<in>set qfs. \<not> rq_empty q), m1)"
      "list_all2 (?P m1) qfs qfs'" "?mx \<le> m1"
      "set failed2 = {op. \<exists>(q, f)\<in>set qfs. \<exists>d\<ge>FD_SETSIZE. op \<in> set (rq_table q d)}"
      "mset (concat (map (rq_ops \<circ> fst) qfs)) = mset failed2 + mset (concat (map (rq_ops \<circ> fst) qfs'))"
    by blast
  have "prepare_queues (qf # qfs) (st, ops, hw, m0) =
      Inr ((q', f') # qfs', with_error FdSetFailure (set (failed @ failed2)) st, ops @ (failed @ failed2),
        hw \<or> (\<exists>(q, f)\<in>set (qf # qfs). \<not> rq_empty q), m1)"
    using s(1) r(1) by (simp add: qf with_error_union Un_commute Let_def disj_assoc)
  moreover have "list_all2 (?P m1) (qf # qfs) ((q', f') # qfs')"
    using r(2,3) s(2,3,4) fi by (auto simp: qf split: if_splits)
  moreover have "m0 \<le> m1" using r(3) by (auto split: if_splits)
  moreover have "set (failed @ failed2) = {op. \<exists>(q, f)\<in>set (qf # qfs). \<exists>d\<ge>FD_SETSIZE. op \<in> set (rq_table q d)}"
    using s(6) r(4) by (auto simp: qf)
  moreover have "mset (concat (map (rq_ops \<circ> fst) (qf # qfs))) =
      mset (failed @ failed2) + mset (concat (map (rq_ops \<circ> fst) ((q', f') # qfs')))"
    using s(5) r(5) by (simp add: qf ac_simps)
  ultimately show ?case by blast
qed

text \<open>
  The descriptors of a queue that are set, in the order of its list; performing the queues goes through them queue by
  queue, the last queue first. \<open>fin\<close> are the operations finished, by queue and descriptor.
\<close>

definition set_descriptors :: "posix_fd_set_adapter \<Rightarrow> int reactor_op_queue \<Rightarrow> int list" where
  "set_descriptors f q = filter (\<lambda>d. d \<in> fd_set f) (map (\<lambda>n. fst (cell q n)) (hm_values q))"

lemma perform_queues_spec:
  assumes "\<forall>(q, f)\<in>set qfs. rq_inv fd_hash q \<and> watchable q"
  shows "\<exists>qs' st' w' fins. perform_queues perf qfs (st, w, ops) =
      Inr (qs', st', w', ops @ concat (rev (map2 (\<lambda>(q, f) fin. concat (map (\<lambda>n. fin (fst (cell q n))) (hm_values q))) qfs fins)))
    \<and> length fins = length qfs
    \<and> list_all2 (\<lambda>(q, f) q'. rq_inv fd_hash q') qfs qs'
    \<and> (\<forall>i<length qfs. dispatches (fd_set (snd (qfs ! i))) (rq_table (fst (qfs ! i))) (fins ! i) (rq_table (qs' ! i)))
    \<and> dispatched perf (concat (rev (map (\<lambda>i. map (\<lambda>d. ((fins ! i) d, rq_table (qs' ! i) d))
          (set_descriptors (snd (qfs ! i)) (fst (qfs ! i)))) [0..<length qfs]))) (st, w) (st', w')
    \<and> mset (concat (map (rq_ops \<circ> fst) qfs)) =
        mset (concat (map2 (\<lambda>(q, f) fin. concat (map (\<lambda>n. fin (fst (cell q n))) (hm_values q))) qfs fins))
        + mset (concat (map rq_ops qs'))"
  using assms
proof (induction qfs)
  case Nil
  then show ?case by simp
next
  case (Cons qf qfs)
  obtain q f where qf: "qf = (q, f)" by (cases qf)
  let ?out = "\<lambda>(q, f) fin. concat (map (\<lambda>n. fin (fst (cell q n))) (hm_values q))"
  have "\<forall>(q, f)\<in>set qfs. rq_inv fd_hash q \<and> watchable q" using Cons.prems by simp
  from Cons.IH [OF this] obtain qs' st1 w1 fins where
    r: "perform_queues perf qfs (st, w, ops) = Inr (qs', st1, w1, ops @ concat (rev (map2 ?out qfs fins)))"
      "length fins = length qfs" "list_all2 (\<lambda>(q, f) q'. rq_inv fd_hash q') qfs qs'"
      "\<forall>i<length qfs. dispatches (fd_set (snd (qfs ! i))) (rq_table (fst (qfs ! i))) (fins ! i) (rq_table (qs' ! i))"
      "dispatched perf (concat (rev (map (\<lambda>i. map (\<lambda>d. ((fins ! i) d, rq_table (qs' ! i) d))
          (set_descriptors (snd (qfs ! i)) (fst (qfs ! i)))) [0..<length qfs]))) (st, w) (st1, w1)"
      "mset (concat (map (rq_ops \<circ> fst) qfs)) = mset (concat (map2 ?out qfs fins)) + mset (concat (map rq_ops qs'))"
    by (elim exE conjE) (rule that)
  have q: "rq_inv fd_hash q" "\<And>d. rq_table q d \<noteq> [] \<Longrightarrow> 0 \<le> d \<and> d < FD_SETSIZE"
    using Cons.prems qf by (auto simp: watchable_def)
  let ?ops = "ops @ concat (rev (map2 ?out qfs fins))"
  from fd_perform_spec [OF q, of perf f st1 w1 ?ops] obtain q' st' w' fin out where
    s: "fd_perform perf f (q, st1, w1, ?ops) = Inr (q', st', w', ?ops @ out)"
      "rq_inv fd_hash q'" "dispatches (fd_set f) (rq_table q) fin (rq_table q')"
      "dispatched perf (map (\<lambda>d. (fin d, rq_table q' d)) (set_descriptors f q)) (st1, w1) (st', w')"
      "out = concat (map (\<lambda>n. fin (fst (cell q n))) (hm_values q))"
      "mset (rq_ops q) = mset out + mset (rq_ops q')" unfolding set_descriptors_def by blast
  let ?fins = "fin # fins" and ?qs = "q' # qs'"
  have m: "map2 ?out (qf # qfs) ?fins = out # map2 ?out qfs fins" by (simp add: qf s(5))
  have "perform_queues perf (qf # qfs) (st, w, ops) = Inr (?qs, st', w', ops @ concat (rev (map2 ?out (qf # qfs) ?fins)))"
    unfolding m using r(1) s(1) by (simp add: qf)
  moreover have "list_all2 (\<lambda>(q, f) q'. rq_inv fd_hash q') (qf # qfs) ?qs"
    using r(3) s(2) by (simp add: qf)
  moreover have "\<forall>i<length (qf # qfs). dispatches (fd_set (snd ((qf # qfs) ! i))) (rq_table (fst ((qf # qfs) ! i)))
      (?fins ! i) (rq_table (?qs ! i))"
  proof (intro allI impI)
    fix i
    assume "i < length (qf # qfs)"
    then show "dispatches (fd_set (snd ((qf # qfs) ! i))) (rq_table (fst ((qf # qfs) ! i))) (?fins ! i) (rq_table (?qs ! i))"
      using r(4) s(3) qf by (cases i) auto
  qed
  moreover have "dispatched perf (concat (rev (map (\<lambda>i. map (\<lambda>d. ((?fins ! i) d, rq_table (?qs ! i) d))
          (set_descriptors (snd ((qf # qfs) ! i)) (fst ((qf # qfs) ! i)))) [0..<length (qf # qfs)]))) (st, w) (st', w')"
  proof -
    let ?g = "\<lambda>i. map (\<lambda>d. ((?fins ! i) d, rq_table (?qs ! i) d))
          (set_descriptors (snd ((qf # qfs) ! i)) (fst ((qf # qfs) ! i)))"
    have "map ?g [0..<length (qf # qfs)] = ?g 0 # map (\<lambda>i. ?g (Suc i)) [0..<length qfs]"
      by (simp add: map_upt_Suc del: upt_Suc)
    then show ?thesis
      using dispatched_append [OF r(5) s(4)] by (simp add: qf del: upt_Suc)
  qed
  moreover have "mset (concat (map (rq_ops \<circ> fst) (qf # qfs))) =
      mset (concat (map2 ?out (qf # qfs) ?fins)) + mset (concat (map rq_ops ?qs))"
    unfolding m using r(6) s(6) by (simp add: qf ac_simps)
  moreover have "length ?fins = length (qf # qfs)" using r(2) by simp
  ultimately show ?case by blast
qed


section \<open>Descriptors beyond the sets\<close>

text \<open>Performing a queue tests each of its descriptors, so it must be one that the set has.\<close>

lemma fd_perform_loop_overrun:
  assumes "rq_inv fd_hash q" "set ns \<subseteq> set (hm_values q)" "distinct ns"
    and "\<exists>n\<in>set ns. \<not> (0 \<le> fst (cell q n) \<and> fst (cell q n) < FD_SETSIZE)"
  shows "fd_perform_loop perf f ns (q, st, w, ops) = Inl UndefinedBehaviour"
  using assms
proof (induction ns arbitrary: q st w ops)
  case (Cons n ns)
  let ?ok = "\<lambda>q n. 0 \<le> fst (cell q n) \<and> fst (cell q n) < FD_SETSIZE"
  have n: "n \<in> set (hm_values q)" "n \<notin> set ns" using Cons.prems by auto
  show ?case
  proof (cases "?ok q n")
    case False
    then show ?thesis by (auto simp: fd_is_set_def not_less)
  next
    case True
    then have ex: "\<exists>n\<in>set ns. \<not> ?ok q n" using Cons.prems(4) by auto
    have is_set: "fd_is_set (fst (cell q n)) f = Inr (fst (cell q n) \<in> fd_set f)"
      using True by (simp add: fd_is_set_def)
    show ?thesis
    proof (cases "fst (cell q n) \<in> fd_set f")
      case False
      have "fd_perform_loop perf f ns (q, st, w, ops) = Inl UndefinedBehaviour"
        by (rule Cons.IH [OF Cons.prems(1) _ _ ex]) (use Cons.prems(2,3) in auto)
      then show ?thesis using is_set False by simp
    next
      case True
      from perform_it_spec [OF Cons.prems(1) n(1), of 0 perf st w ops] obtain q1 dn b st1 w1 where
        q1: "perform_operations_it fd_hash 0 perf (Some n) (q, st, w, ops) = Inr (b, q1, st1, w1, ops @ dn)"
          "rq_inv fd_hash q1" "\<forall>x. x \<noteq> n \<longrightarrow> cell q1 x = cell q x"
          "hm_values q1 = hm_values q \<or> hm_values q1 = remove1 n (hm_values q)"
        by (elim exE conjE) (rule that)
      have sub: "set ns \<subseteq> set (hm_values q1)"
      proof
        fix x
        assume "x \<in> set ns"
        then have "x \<noteq> n" "x \<in> set (hm_values q)" using n(2) Cons.prems(2) by auto
        then show "x \<in> set (hm_values q1)" using q1(4) by auto
      qed
      have ex1: "\<exists>n\<in>set ns. \<not> ?ok q1 n" using ex q1(3) n(2) by metis
      have "fd_perform_loop perf f ns (q1, st1, w1, ops @ dn) = Inl UndefinedBehaviour"
        by (rule Cons.IH [OF q1(2) sub _ ex1]) (use Cons.prems(3) in simp)
      then show ?thesis using is_set True q1(1) by simp
    qed
  qed
qed simp

lemma fd_perform_overrun:
  assumes inv: "rq_inv fd_hash q" and nw: "\<not> watchable q"
  shows "fd_perform perf f (q, st, w, ops) = Inl UndefinedBehaviour"
proof -
  from nw obtain d where d: "rq_table q d \<noteq> []" "\<not> (0 \<le> d \<and> d < FD_SETSIZE)" by (auto simp: watchable_def)
  then obtain n where n: "n \<in> set (hm_values q)" "fst (cell q n) = d"
    using rq_table_Nil [OF inv] by (metis imageE)
  have "distinct (hm_values q)" using inv by (simp add: rq_inv_def hm_inv_def)
  moreover have "\<exists>n\<in>set (hm_values q). \<not> (0 \<le> fst (cell q n) \<and> fst (cell q n) < FD_SETSIZE)"
    by (rule bexI [OF _ n(1)]) (use d(2) n(2) in simp)
  ultimately show ?thesis
    unfolding fd_perform_def using fd_perform_loop_overrun [OF inv subset_refl] by simp
qed

lemma perform_queues_overrun:
  assumes "\<forall>(q, f)\<in>set qfs. rq_inv fd_hash q" "\<exists>(q, f)\<in>set qfs. \<not> watchable q"
  shows "perform_queues perf qfs (st, w, ops) = Inl UndefinedBehaviour"
  using assms
proof (induction qfs)
  case (Cons qf qfs)
  obtain q f where qf: "qf = (q, f)" by (cases qf)
  have q: "rq_inv fd_hash q" and rest: "\<forall>(q, f)\<in>set qfs. rq_inv fd_hash q" using Cons.prems(1) qf by auto
  show ?case
  proof (cases "\<exists>(q, f)\<in>set qfs. \<not> watchable q")
    case True
    then show ?thesis using Cons.IH [OF rest] by (simp add: qf)
  next
    case False
    then have "\<forall>(q, f)\<in>set qfs. rq_inv fd_hash q \<and> watchable q" using rest by auto
    from perform_queues_spec [OF this, of perf st w ops] obtain qs' st' w' ops' where
      "perform_queues perf qfs (st, w, ops) = Inr (qs', st', w', ops')" by blast
    moreover have "\<not> watchable q" using Cons.prems(2) False qf by auto
    then have "fd_perform perf f (q, st', w', ops') = Inl UndefinedBehaviour"
      by (rule fd_perform_overrun [OF q])
    ultimately show ?thesis by (simp add: qf)
  qed
qed simp

end
