(* ===== verification/SelectReactorTimers.thy ===== *)
theory SelectReactorTimers
  imports SelectReactorSpec TimerQueueRefinement
begin

text \<open>
  The timer queues of the select reactor: every queue it can reach is well formed, or it was emptied when the reactor
  was shut down; what collecting the expired timers of all queues gives, and how long the reactor waits for them.
\<close>

section \<open>The queues of a reactor\<close>

text \<open>
  Taking all timers leaves the positions of the timers behind, so a queue is not well formed after it, but nothing is
  pending in it any more, and a reactor that is shut down schedules nothing.
\<close>

definition emptied :: "timer_queue \<Rightarrow> bool" where
  "emptied q \<longleftrightarrow> heap q = [] \<and> timers q = None
     \<and> (\<forall>t. tops (per_timer q t) = [] \<and> nxt q t = None \<and> prv q t = None)"

definition expiries :: "timer_queue \<Rightarrow> int set" where
  "expiries q = {e. \<exists>t os. pending_of q t = Some (Some e, os)}"

definition tq_sound :: "timer_queue \<Rightarrow> bool" where
  "tq_sound q \<longleftrightarrow> (\<exists>ts. tq_ok q ts)"

definition tq_good :: "timer_queue \<Rightarrow> bool" where
  "tq_good q \<longleftrightarrow> (tq_sound q \<or> emptied q) \<and> (\<forall>e\<in>expiries q. in_time e)"

lemma emptied_pending: "emptied q \<Longrightarrow> pending_of q = (\<lambda>_. None)"
  by (auto simp: emptied_def pending_of_def)

lemma expiries_upd:
  assumes "pending_of q' = (pending_of q)(t := v)"
    and "v = None \<or> (\<exists>e os os'. v = Some (e, os') \<and> pending_of q t = Some (e, os))"
  shows "expiries q' \<subseteq> expiries q"
proof
  fix e
  assume "e \<in> expiries q'"
  then obtain u os where u: "pending_of q' u = Some (Some e, os)" by (auto simp: expiries_def)
  show "e \<in> expiries q"
  proof (cases "u = t")
    case True
    then have "v = Some (Some e, os)" using u assms(1) by simp
    then show ?thesis using assms(2) by (auto simp: expiries_def)
  next
    case False
    then show ?thesis using u assms(1) by (auto simp: expiries_def)
  qed
qed

lemma tq_goodI:
  "tq_good q \<Longrightarrow> expiries q' \<subseteq> expiries q \<Longrightarrow> (tq_sound q \<Longrightarrow> tq_sound q') \<Longrightarrow> (emptied q \<Longrightarrow> emptied q') \<Longrightarrow> tq_good q'"
  unfolding tq_good_def by blast

lemma new_good: "tq_good new_timer_queue" "tq_sound new_timer_queue"
proof -
  show s: "tq_sound new_timer_queue" using tq_reach_ok [OF tq_new] by (simp add: tq_sound_def)
  have "expiries new_timer_queue = {}"
    by (simp add: expiries_def pending_of_def new_timer_queue_def new_timer_data_def)
  with s show "tq_good new_timer_queue" by (simp add: tq_good_def)
qed

section \<open>The operations\<close>

lemma emptied_inactive: "emptied q \<Longrightarrow> \<not> is_active t q"
  by (simp add: emptied_def is_active_def)

lemma good_cancel:
  assumes "tq_good q" "cancel_timer t ops m q = (k, ops', q')"
  shows "tq_good q'" "tq_sound q \<Longrightarrow> tq_sound q'" "emptied q \<Longrightarrow> emptied q'"
    "tq_sound q \<or> emptied q \<Longrightarrow> length (tops (per_timer q t)) \<le> m \<Longrightarrow> tops (per_timer q' t) = []"
proof -
  have e: "q' = q" if "emptied q" using assms(2) emptied_inactive [OF that] by (simp add: cancel_timer_def)
  show emp: "emptied q \<Longrightarrow> emptied q'" using e by simp
  have s: "tq_sound q' \<and> expiries q' \<subseteq> expiries q \<and> (length (tops (per_timer q t)) \<le> m \<longrightarrow> tops (per_timer q' t) = [])"
    if ok: "tq_ok q ts" for ts
  proof -
    from cancel_timer_refines [OF ok, of t ops m] obtain q2 ts' where ts': "tq_ok q2 ts'"
      and c: "case pending_of q t of
         None \<Rightarrow> cancel_timer t ops m q = (0, ops, q2) \<and> pending_of q2 = pending_of q
       | Some (e, os) \<Rightarrow> cancel_timer t ops m q =
            (min m (length os), ops @ map (\<lambda>op. op\<lparr>op_ec := WaitAborted\<rparr>) (take m os), q2)
          \<and> pending_of q2 = (pending_of q)(t := if length os \<le> m then None else Some (e, drop m os))" by blast
    have q2: "q2 = q'" using c assms(2) by (cases "pending_of q t") auto
    obtain v where v: "pending_of q' = (pending_of q)(t := v)"
      "v = None \<or> (\<exists>e os os'. v = Some (e, os') \<and> pending_of q t = Some (e, os))"
      "length (tops (per_timer q t)) \<le> m \<Longrightarrow> v = None"
    proof (cases "pending_of q t")
      case None
      then have "pending_of q' = (pending_of q)(t := None)" using c q2 by (simp add: fun_upd_idem)
      then show thesis using that [of None] by simp
    next
      case (Some eo)
      obtain e os where eo: "eo = (e, os)" by (cases eo)
      have l: "os = tops (per_timer q t)" using Some eo by (simp add: pending_of_def split: if_splits)
      have "pending_of q' = (pending_of q)(t := if length os \<le> m then None else Some (e, drop m os))"
        using c q2 Some eo by simp
      then show thesis by (rule that) (use Some eo l in auto)
    qed
    have "tops (per_timer q' t) = []" if "length (tops (per_timer q t)) \<le> m"
      using v(1,3) that by (auto simp: pending_of_def [of q' t] fun_eq_iff split: if_splits dest!: spec [of _ t])
    then show ?thesis using ts' q2 expiries_upd [OF v(1,2)] by (auto simp: tq_sound_def)
  qed
  show sound: "tq_sound q \<Longrightarrow> tq_sound q'" using s by (auto simp: tq_sound_def)
  show "tq_good q'"
    by (rule tq_goodI [OF assms(1)]) (use s e sound emp assms(1) in \<open>auto simp: tq_good_def tq_sound_def\<close>)
  show "tq_sound q \<or> emptied q \<Longrightarrow> length (tops (per_timer q t)) \<le> m \<Longrightarrow> tops (per_timer q' t) = []"
    using s e by (auto simp: tq_sound_def emptied_def)
qed

lemma good_cancel_key:
  assumes "tq_good q" "cancel_timer_by_key t ops key q = (ops', q')"
  shows "tq_good q'" "tq_sound q \<Longrightarrow> tq_sound q'"
proof -
  have e: "q' = q" if "emptied q" using assms(2) emptied_inactive [OF that] by (simp add: cancel_timer_by_key_def)
  have s: "tq_sound q' \<and> expiries q' \<subseteq> expiries q" if ok: "tq_ok q ts" for ts
  proof -
    from cancel_by_key_refines [OF ok, of t ops key] obtain q2 ts' where ts': "tq_ok q2 ts'"
      and c: "case pending_of q t of
         None \<Rightarrow> cancel_timer_by_key t ops key q = (ops, q2) \<and> pending_of q2 = pending_of q
       | Some (e, os) \<Rightarrow>
          let mine = filter (\<lambda>op. cancellation_key op = key) os; others = filter (\<lambda>op. cancellation_key op \<noteq> key) os
          in cancel_timer_by_key t ops key q = (ops @ map (\<lambda>op. op\<lparr>op_ec := WaitAborted\<rparr>) mine, q2)
            \<and> pending_of q2 = (pending_of q)(t := if others = [] then None else Some (e, others))" by blast
    have q2: "q2 = q'" using c assms(2) by (cases "pending_of q t") (auto simp: Let_def)
    obtain v where v: "pending_of q' = (pending_of q)(t := v)"
      "v = None \<or> (\<exists>e os os'. v = Some (e, os') \<and> pending_of q t = Some (e, os))"
    proof (cases "pending_of q t")
      case None
      then have "pending_of q' = (pending_of q)(t := None)" using c q2 by (simp add: fun_upd_idem)
      then show thesis using that [of None] by simp
    next
      case (Some eo)
      obtain e os where eo: "eo = (e, os)" by (cases eo)
      let ?others = "filter (\<lambda>op. cancellation_key op \<noteq> key) os"
      have "pending_of q' = (pending_of q)(t := if ?others = [] then None else Some (e, ?others))"
        using c q2 Some eo by (simp add: Let_def)
      then show thesis by (rule that) (use Some eo in simp)
    qed
    show ?thesis using ts' q2 expiries_upd [OF v] by (auto simp: tq_sound_def)
  qed
  show sound: "tq_sound q \<Longrightarrow> tq_sound q'" using s by (auto simp: tq_sound_def)
  show "tq_good q'"
    by (rule tq_goodI [OF assms(1)]) (use s e sound assms(1) in \<open>auto simp: tq_good_def tq_sound_def\<close>)
qed

lemma emptied_move:
  assumes "emptied q" "source \<noteq> target"
  shows "emptied (move_timer target source q)"
  using assms by (simp add: emptied_def move_timer_def move_links_def move_entry_def move_ops_def upd_timer_def Let_def)

lemma good_move:
  assumes "tq_good q" "source \<noteq> target" "tops (per_timer q target) = []"
  shows "tq_good (move_timer target source q)" "tq_sound q \<Longrightarrow> tq_sound (move_timer target source q)"
proof -
  let ?q = "move_timer target source q"
  have s: "tq_sound ?q \<and> expiries ?q \<subseteq> expiries q" if ok: "tq_ok q ts" for ts
  proof -
    have "target \<notin> set ts" using ok assms(3) by (simp add: tq_ok_def)
    note m = move_timer_refines [OF ok assms(2) this]
    have "expiries ?q \<subseteq> expiries q" unfolding m(2) expiries_def by (auto split: if_splits)
    then show ?thesis using m(1) by (simp add: tq_sound_def)
  qed
  show sound: "tq_sound q \<Longrightarrow> tq_sound ?q" using s by (auto simp: tq_sound_def)
  have "expiries ?q = {}" if "emptied q"
    using emptied_pending [OF emptied_move [OF that assms(2)]] by (simp add: expiries_def)
  then show "tq_good ?q"
    by (intro tq_goodI [OF assms(1)])
      (use s sound emptied_move [OF _ assms(2)] assms(1) in \<open>auto simp: tq_good_def tq_sound_def\<close>)
qed

lemma good_enqueue:
  assumes "tq_good q" "tq_sound q" "length (heap q) < no_index" "op_id op \<notin> op_id ` set (tops (per_timer q t))" "in_time time"
  shows "tq_good (snd (enqueue_timer is_inf time t op q))" "tq_sound (snd (enqueue_timer is_inf time t op q))"
proof -
  let ?q = "snd (enqueue_timer is_inf time t op q)"
  obtain ts where ok: "tq_ok q ts" using assms(2) by (auto simp: tq_sound_def)
  from enqueue_timer_refines [OF ok assms(3,4), of is_inf time] obtain ts' where ts': "tq_ok ?q ts'"
    and p: "pending_of ?q = (pending_of q)(t \<mapsto>
        (case pending_of q t of None \<Rightarrow> (if is_inf time then None else Some time, [op]) | Some (e, os) \<Rightarrow> (e, os @ [op])))"
    by auto
  show s: "tq_sound ?q" using ts' by (auto simp: tq_sound_def)
  have "e = time \<or> e \<in> expiries q" if "e \<in> expiries ?q" for e
    using that unfolding expiries_def p by (auto split: if_splits option.splits)
  then show "tq_good ?q" using assms(1,5) s by (auto simp: tq_good_def)
qed

section \<open>The expired timers of all queues\<close>

text \<open>The expired timers of a queue, the earliest first.\<close>

definition expired :: "int \<Rightarrow> timer_queue \<Rightarrow> nat list \<Rightarrow> bool" where
  "expired now q us \<longleftrightarrow> distinct us \<and> set us = ready now q \<and> sorted (map (due q) us)"

lemma good_ready:
  assumes "tq_good q"
  shows "\<exists>us q'. get_ready_timers now ops q = Some (ops @ concat (map (ops_of q) us), q') \<and> expired now q us
    \<and> tq_good q' \<and> (tq_sound q \<longrightarrow> tq_sound q')
    \<and> pending_of q' = (\<lambda>t. if t \<in> ready now q then None else pending_of q t)"
proof (cases "tq_sound q")
  case True
  then obtain ts where "tq_ok q ts" by (auto simp: tq_sound_def)
  from get_ready_spec [OF this, of now ops] obtain us q' ts' where
    g: "get_ready_timers now ops q = Some (ops @ concat (map (ops_of q) us), q')" "tq_ok q' ts'"
      "distinct us" "set us = ready now q" "sorted (map (due q) us)"
      "pending_of q' = (\<lambda>t. if t \<in> ready now q then None else pending_of q t)" by blast
  have "expiries q' \<subseteq> expiries q" unfolding expiries_def g(6) by auto
  then have "tq_good q'" "tq_sound q'" using g(2) assms by (auto simp: tq_good_def tq_sound_def)
  with g show ?thesis by (auto simp: expired_def)
next
  case False
  then have e: "emptied q" using assms by (simp add: tq_good_def)
  then have "get_ready_timers now ops q = Some (ops @ concat (map (ops_of q) []), q)"
    by (simp add: get_ready_timers_def emptied_def)
  moreover have "ready now q = {}" using emptied_pending [OF e] by (simp add: ready_def)
  ultimately show ?thesis using assms by (intro exI [of _ "[]"] exI [of _ q]) (simp add: expired_def)
qed

lemma tqs_ready_frame:
  "tqs_ready now ps (ops, r) = Some (tms, r') \<Longrightarrow>
   op_queues r' = op_queues r \<and> fd_sets r' = fd_sets r \<and> sr_ops r' = sr_ops r
   \<and> read_descriptor r' = read_descriptor r \<and> sr_shutdown r' = sr_shutdown r \<and> timer_queues r' = timer_queues r"
  by (induction ps arbitrary: ops r) (auto simp: upd_tq_def split: bind_splits prod.splits)

text \<open>What collecting from all queues gives: queue after queue, the expired timers of each.\<close>

definition expired_ops :: "select_reactor \<Rightarrow> nat list \<Rightarrow> (nat \<Rightarrow> nat list) \<Rightarrow> wait_op list" where
  "expired_ops r ps us = concat (map (\<lambda>p. concat (map (ops_of (tq r p)) (us p))) ps)"

definition timers_left :: "int \<Rightarrow> select_reactor \<Rightarrow> nat set \<Rightarrow> select_reactor \<Rightarrow> bool" where
  "timers_left now r ps r' \<longleftrightarrow>
     (\<forall>p t. pending_of (tq r' p) t = (if p \<in> ps \<and> t \<in> ready now (tq r p) then None else pending_of (tq r p) t))"

lemma tqs_ready_spec:
  assumes "\<forall>p. tq_good (tq r p)" "distinct ps"
  shows "\<exists>us r'. tqs_ready now ps (ops, r) = Some (ops @ expired_ops r ps us, r')
    \<and> (\<forall>p\<in>set ps. expired now (tq r p) (us p)) \<and> timers_left now r (set ps) r'
    \<and> (\<forall>p. tq_good (tq r' p)) \<and> (\<forall>p. tq_sound (tq r p) \<longrightarrow> tq_sound (tq r' p))"
  using assms
proof (induction ps arbitrary: ops r)
  case Nil
  then show ?case by (simp add: expired_ops_def timers_left_def)
next
  case (Cons p ps)
  from good_ready [of "tq r p" now ops] Cons.prems(1) obtain vs q' where
    g: "get_ready_timers now ops (tq r p) = Some (ops @ concat (map (ops_of (tq r p)) vs), q')" "expired now (tq r p) vs"
      "tq_good q'" "tq_sound (tq r p) \<longrightarrow> tq_sound q'"
      "pending_of q' = (\<lambda>t. if t \<in> ready now (tq r p) then None else pending_of (tq r p) t)" by blast
  let ?r = "upd_tq p q' r"
  have tq: "tq ?r x = (if x = p then q' else tq r x)" for x by (simp add: upd_tq_def)
  have "\<forall>x. tq_good (tq ?r x)" using Cons.prems(1) g(3) tq by simp
  from Cons.IH [OF this, of "ops @ concat (map (ops_of (tq r p)) vs)"] Cons.prems(2) obtain us r' where
    i: "tqs_ready now ps (ops @ concat (map (ops_of (tq r p)) vs), ?r) =
        Some ((ops @ concat (map (ops_of (tq r p)) vs)) @ expired_ops ?r ps us, r')"
      "\<forall>x\<in>set ps. expired now (tq ?r x) (us x)" "timers_left now ?r (set ps) r'"
      "\<forall>x. tq_good (tq r' x)" "\<forall>x. tq_sound (tq ?r x) \<longrightarrow> tq_sound (tq r' x)" by auto
  let ?us = "us(p := vs)"
  have np: "p \<notin> set ps" using Cons.prems(2) by simp
  then have e: "expired_ops r (p # ps) ?us = concat (map (ops_of (tq r p)) vs) @ expired_ops ?r ps us"
    unfolding expired_ops_def by (auto simp: tq intro!: arg_cong [of _ _ concat] map_cong)
  have "tqs_ready now (p # ps) (ops, r) = Some (ops @ expired_ops r (p # ps) ?us, r')"
    unfolding e using g(1) i(1) by simp
  moreover have "\<forall>x\<in>set (p # ps). expired now (tq r x) (?us x)"
    using g(2) i(2) np by (auto simp: tq split: if_splits)
  moreover have "timers_left now r (set (p # ps)) r'"
    using i(3) np unfolding timers_left_def tq by (auto simp: g(5))
  moreover have "\<forall>x. tq_sound (tq r x) \<longrightarrow> tq_sound (tq r' x)"
  proof (intro allI impI)
    fix x
    assume "tq_sound (tq r x)"
    then have "tq_sound (tq ?r x)" using g(4) by (cases "x = p") (simp_all add: tq)
    then show "tq_sound (tq r' x)" using i(5) by blast
  qed
  ultimately show ?case using i(4) by blast
qed

section \<open>All timers\<close>

lemma all_loop_links:
  assumes "seg (nxt q) (prv q) p (timers q) ts None" and "distinct ts"
  shows "\<exists>q'. all_loop ops q = Some (ops @ concat (map (\<lambda>t. tops (per_timer q t)) ts), q') \<and> timers q' = None
    \<and> (\<forall>t. tops (per_timer q' t) = (if t \<in> set ts then [] else tops (per_timer q t))
         \<and> nxt q' t = (if t \<in> set ts then None else nxt q t) \<and> prv q' t = (if t \<in> set ts then None else prv q t))"
  using assms
proof (induction ts arbitrary: q ops p)
  case Nil
  then show ?case by (simp add: all_loop.simps)
next
  case (Cons t ts)
  let ?q = "upd_timer t (\<lambda>d. d\<lparr>tops := [], next_timer := None, prev_timer := None\<rparr>) (q\<lparr>timers := nxt q t\<rparr>)"
  have same: "u \<noteq> t \<Longrightarrow> per_timer ?q u = per_timer q u" for u
    by (simp add: upd_timer_def)
  have "seg (nxt q) (prv q) (Some t) (nxt q t) ts None"
    using Cons.prems by simp
  then have "seg (nxt ?q) (prv ?q) (Some t) (timers ?q) ts None"
    using Cons.prems(2) same seg_cong [of ts "nxt ?q" "nxt q" "prv ?q" "prv q" "Some t" "nxt q t" None] by fastforce
  from Cons.IH [OF this, of "ops @ tops (per_timer q t)"] Cons.prems(2)
  obtain q' where q': "all_loop (ops @ tops (per_timer q t)) ?q
        = Some ((ops @ tops (per_timer q t)) @ concat (map (\<lambda>t. tops (per_timer ?q t)) ts), q')" "timers q' = None"
      "\<forall>u. tops (per_timer q' u) = (if u \<in> set ts then [] else tops (per_timer ?q u))
        \<and> nxt q' u = (if u \<in> set ts then None else nxt ?q u) \<and> prv q' u = (if u \<in> set ts then None else prv ?q u)"
    by auto
  have ops: "map (\<lambda>t. tops (per_timer ?q t)) ts = map (\<lambda>t. tops (per_timer q t)) ts"
    using Cons.prems(2) by (intro map_cong) (auto simp: upd_timer_def)
  have step: "all_loop ops q = all_loop (ops @ tops (per_timer q t)) ?q"
    using Cons.prems(1) by (subst all_loop.simps) simp
  have t: "tops (per_timer ?q t) = []" "nxt ?q t = None" "prv ?q t = None" by (simp_all add: upd_timer_def)
  have "all_loop ops q = Some (ops @ concat (map (\<lambda>t. tops (per_timer q t)) (t # ts)), q')"
    unfolding step q'(1) ops by simp
  moreover have "tops (per_timer q' u) = (if u \<in> set (t # ts) then [] else tops (per_timer q u))
      \<and> nxt q' u = (if u \<in> set (t # ts) then None else nxt q u) \<and> prv q' u = (if u \<in> set (t # ts) then None else prv q u)" for u
    using q'(3) t same by (cases "u = t") auto
  ultimately show ?case using q'(2) by blast
qed

lemma good_all:
  assumes "tq_good q"
  shows "\<exists>ops' q'. get_all_timers ops q = Some (ops', q') \<and> emptied q'"
proof (cases "tq_sound q")
  case True
  then obtain ts where ok: "tq_ok q ts" by (auto simp: tq_sound_def)
  then have s: "seg (nxt q) (prv q) None (timers q) ts None" "distinct ts" "\<forall>t. t \<notin> set ts \<longrightarrow> nxt q t = None \<and> prv q t = None"
    and t: "\<forall>t. t \<notin> set ts \<longrightarrow> tops (per_timer q t) = []"
    by (auto simp: tq_ok_def tq_core_def listed_def)
  from all_loop_links [OF s(1,2), of ops] obtain q' where
    a: "all_loop ops q = Some (ops @ concat (map (\<lambda>t. tops (per_timer q t)) ts), q')" "timers q' = None"
      "\<forall>t. tops (per_timer q' t) = (if t \<in> set ts then [] else tops (per_timer q t))
         \<and> nxt q' t = (if t \<in> set ts then None else nxt q t) \<and> prv q' t = (if t \<in> set ts then None else prv q t)"
    by blast
  have "emptied (q'\<lparr>heap := []\<rparr>)" using a(2,3) s(3) t by (simp add: emptied_def)
  then show ?thesis using a(1) by (simp add: get_all_timers_def)
next
  case False
  then have e: "emptied q" using assms by (simp add: tq_good_def)
  then have "all_loop ops q = Some (ops, q)" by (simp add: all_loop.simps emptied_def)
  moreover have "q\<lparr>heap := []\<rparr> = q" using e by (simp add: emptied_def)
  ultimately show ?thesis using e by (simp add: get_all_timers_def)
qed

lemma emptied_good: "emptied q \<Longrightarrow> tq_good q"
  using emptied_pending [of q] by (simp add: tq_good_def expiries_def)

lemma tqs_all_frame:
  "tqs_all ps (ops, r) = Some (tms, r') \<Longrightarrow>
   op_queues r' = op_queues r \<and> fd_sets r' = fd_sets r \<and> sr_ops r' = sr_ops r
   \<and> read_descriptor r' = read_descriptor r \<and> sr_shutdown r' = sr_shutdown r \<and> timer_queues r' = timer_queues r"
  by (induction ps arbitrary: ops r) (auto simp: upd_tq_def split: bind_splits prod.splits)

lemma tqs_all_returns:
  assumes "\<forall>p. tq_good (tq r p)"
  shows "\<exists>tms r'. tqs_all ps (ops, r) = Some (tms, r') \<and> (\<forall>p. tq_good (tq r' p))"
  using assms
proof (induction ps arbitrary: ops r)
  case (Cons p ps)
  from good_all [of "tq r p" ops] Cons.prems obtain ops' q' where
    g: "get_all_timers ops (tq r p) = Some (ops', q')" "emptied q'" by blast
  have "\<forall>x. tq_good (tq (upd_tq p q' r) x)"
    using Cons.prems emptied_good [OF g(2)] by (simp add: upd_tq_def)
  from Cons.IH [OF this, of ops'] show ?case using g(1) by simp
qed simp

lemma good_empty:
  assumes "tq_good q"
  shows "queue_empty q \<longleftrightarrow> (\<forall>t. pending_of q t = None)"
proof (cases "tq_sound q")
  case True
  then obtain ts where ok: "tq_ok q ts" by (auto simp: tq_sound_def)
  then have s: "seg (nxt q) (prv q) None (timers q) ts None" and t: "\<forall>t. t \<in> set ts \<longleftrightarrow> tops (per_timer q t) \<noteq> []"
    by (auto simp: tq_ok_def tq_core_def listed_def)
  have "timers q = None \<longleftrightarrow> ts = []" using s by (cases ts) auto
  also have "\<dots> \<longleftrightarrow> (\<forall>t. t \<notin> set ts)" by (cases ts) auto
  also have "\<dots> \<longleftrightarrow> (\<forall>t. pending_of q t = None)" unfolding pending_of_def using t by simp
  finally show ?thesis by (simp add: queue_empty_def)
next
  case False
  then have "emptied q" using assms by (simp add: tq_good_def)
  then show ?thesis using emptied_pending by (simp add: queue_empty_def emptied_def)
qed

section \<open>How long the reactor waits\<close>

text \<open>With a clock of nanoseconds: the time to wait for a timer that expires at \<open>e\<close>, in microseconds.\<close>

definition wait_of :: "int \<Rightarrow> int \<Rightarrow> int" where
  "wait_of now e = (if e \<le> now then 0 else max 1 (saturate (e - now) div 1000))"

lemma wait_of_mono: "e \<le> e' \<Longrightarrow> wait_of now e \<le> wait_of now e'"
  by (auto simp: wait_of_def saturate_def intro!: max.mono zdiv_mono1)

lemma wait_of_nonneg: "0 \<le> wait_of now e"
  by (simp add: wait_of_def le_max_iff_disj)

text \<open>\<open>waits now E bound w\<close>: the bound or the time for a timer of \<open>E\<close>, and not longer than any, but for a microsecond.\<close>

definition waits :: "int \<Rightarrow> int set \<Rightarrow> int \<Rightarrow> int \<Rightarrow> bool" where
  "waits now E bound w \<longleftrightarrow> 0 \<le> w \<and> w \<le> max 1 bound \<and> (w = bound \<or> (\<exists>e\<in>E. w = wait_of now e))
     \<and> (\<forall>e\<in>E. w \<le> max 1 (wait_of now e))"

lemma good_wait:
  assumes "tq_good q" "in_time now" "0 \<le> bound"
  shows "\<exists>w. wait_duration_usec 1 1000000000 now bound q = Inr w \<and> waits now (expiries q) bound w
    \<and> (\<forall>e\<in>expiries q. w \<le> wait_of now e)"
proof (cases "heap q = []")
  case True
  have "expiries q = {}"
  proof (cases "tq_sound q")
    case s: True
    then obtain ts where ok: "tq_ok q ts" by (auto simp: tq_sound_def)
    show ?thesis using pending_times [OF ok, of "\<lambda>_. False"] True by (auto simp: expiries_def)
  next
    case False
    then show ?thesis using assms(1) emptied_pending [of q] by (auto simp: tq_good_def expiries_def)
  qed
  then show ?thesis using True assms(3) by (simp add: wait_duration_usec_def waits_def)
next
  case False
  then obtain ts where ok: "tq_ok q ts" using assms(1) by (auto simp: tq_good_def tq_sound_def emptied_def)
  note root = root_is_earliest [OF ok False]
  define e where "e = fst (heap q ! 0)"
  have mem: "e \<in> expiries q" using root(2) by (auto simp: e_def expiries_def)
  have least: "e \<le> e'" if "e' \<in> expiries q" for e' using root(1) that by (auto simp: e_def expiries_def)
  have "in_time e" using mem assms(1) by (simp add: tq_good_def)
  then have sub: "chrono_subtract e now = Inr (saturate (e - now))"
    using time_arithmetic_saturates [of e now] assms(2) by simp
  have sat: "saturate (e - now) \<le> 0 \<longleftrightarrow> e \<le> now"
    by (auto simp: saturate_def time_max_def time_min_def)
  define w where "w = (if e \<le> now then 0 else
    (let u = saturate (e - now) div 1000 in if u = 0 then 1 else if u > bound then bound else u))"
  have eq: "wait_duration_usec 1 1000000000 now bound q = Inr w"
  proof (cases "e \<le> now")
    case True
    then show ?thesis using False sat by (simp add: wait_duration_usec_def sub to_usec_def w_def flip: e_def)
  next
    case later: False
    then have "0 < saturate (e - now)" using sat by simp
    note us = total_nanoseconds(2) [OF this]
    show ?thesis using False later sat
      by (simp add: wait_duration_usec_def sub to_usec_def us w_def Let_def flip: e_def)
  qed
  have pos: "0 \<le> saturate (e - now) div 1000" if "\<not> e \<le> now"
    using that sat by (simp add: pos_imp_zdiv_nonneg_iff)
  have "w \<le> wait_of now e \<and> 0 \<le> w \<and> w \<le> max 1 bound \<and> (w = bound \<or> w = wait_of now e)"
  proof (cases "e \<le> now")
    case True
    then show ?thesis by (simp add: w_def wait_of_def)
  next
    case False
    define u where "u = saturate (e - now) div 1000"
    have "0 \<le> u" using pos [OF False] by (simp add: u_def)
    moreover have "w = (if u = 0 then 1 else if u > bound then bound else u)" "wait_of now e = max 1 u"
      using False by (simp_all add: w_def wait_of_def u_def Let_def)
    ultimately show ?thesis using assms(3) by (auto simp: max_def)
  qed
  then have "w \<le> wait_of now e" "0 \<le> w" "w \<le> max 1 bound" "w = bound \<or> w = wait_of now e" by blast+
  moreover have "w \<le> wait_of now e'" if "e' \<in> expiries q" for e'
    using \<open>w \<le> wait_of now e\<close> wait_of_mono [OF least [OF that]] by (rule order_trans)
  ultimately show ?thesis using eq mem unfolding waits_def by (intro exI [of _ w]) (auto simp: le_max_iff_disj)
qed

lemma tqs_wait_spec:
  assumes "\<forall>q\<in>set qs. tq_good q" "in_time now" "0 \<le> bound"
  shows "\<exists>w. tqs_wait_usec 1 1000000000 now bound qs = Inr w \<and> waits now (\<Union>q\<in>set qs. expiries q) bound w"
  using assms(1,3)
proof (induction qs arbitrary: bound)
  case Nil
  then show ?case by (simp add: waits_def)
next
  case (Cons q qs)
  from good_wait [OF _ assms(2) Cons.prems(2), of q] Cons.prems(1) obtain w1 where
    w1: "wait_duration_usec 1 1000000000 now bound q = Inr w1" "waits now (expiries q) bound w1"
      "\<forall>e\<in>expiries q. w1 \<le> wait_of now e" by auto
  then have "0 \<le> w1" by (simp add: waits_def)
  from Cons.IH [OF _ this] Cons.prems(1) obtain w where
    w: "tqs_wait_usec 1 1000000000 now w1 qs = Inr w" "waits now (\<Union>q\<in>set qs. expiries q) w1 w" by auto
  have "w \<le> max 1 (wait_of now e)" if "e \<in> expiries q" for e
    using w(2) w1(3) that unfolding waits_def by fastforce
  moreover have "w \<le> max 1 bound" using w(2) w1(2) unfolding waits_def by linarith
  moreover have "w = bound \<or> (\<exists>e\<in>(\<Union>q\<in>set (q # qs). expiries q). w = wait_of now e)"
    using w(2) w1(2) unfolding waits_def by auto
  moreover have "0 \<le> w" "\<forall>e\<in>(\<Union>q\<in>set qs. expiries q). w \<le> max 1 (wait_of now e)"
    using w(2) unfolding waits_def by blast+
  ultimately have "waits now (\<Union>q\<in>set (q # qs). expiries q) bound w"
    unfolding waits_def by auto
  then show ?case using w1(1) w(1) by simp
qed

end
