(* ===== verification/SelectReactorRun.thy ===== *)
theory SelectReactorRun
  imports SelectReactorTimers
begin

text \<open>
  The select reactor over every sequence of its critical sections: each operation is in one place, a descriptor
  that waits is one that \<^verbatim>\<open>select\<close> watches or the interrupter is about to wake it, the timer queues are well formed,
  and what \<^verbatim>\<open>run\<close> performs.
\<close>

section \<open>The reactor among its threads\<close>

text \<open>
  \<open>in_select\<close> is the thread in \<^verbatim>\<open>select\<close>, with the operations it already has; \<open>returned\<close> is the thread after
  \<^verbatim>\<open>select\<close> and the reset of the interrupter, before it locks the mutex: what \<^verbatim>\<open>select\<close> returned, whether the reset
  failed, and its operations. \<open>pipe\<close> is whether the interrupter was written and not read since. \<open>started\<close> and
  \<open>handed\<close> count the operations given to the reactor, and those it gave to the scheduler or destroyed.
\<close>

record 'w reactor_world =
  reactor :: select_reactor
  world :: 'w
  in_select :: "nat list option"
  returned :: "(int \<times> bool \<times> nat list) option"
  pipe :: bool
  started :: "nat multiset"
  handed :: "nat multiset"

fun completed_ops :: "completion list \<Rightarrow> nat list" where
  "completed_ops [] = []"
| "completed_ops (ReactorOp op # cs) = op # completed_ops cs"
| "completed_ops (TimerOp op # cs) = completed_ops cs"

fun given_ops :: "reactor_call list \<Rightarrow> nat list" where
  "given_ops [] = []"
| "given_ops (PostImmediate c b # cs) = completed_ops [c] @ given_ops cs"
| "given_ops (PostDeferred l # cs) = completed_ops l @ given_ops cs"
| "given_ops (Abandon l # cs) = completed_ops l @ given_ops cs"
| "given_ops (_ # cs) = given_ops cs"

definition after_call :: "select_reactor \<times> reactor_call list \<Rightarrow> 'w reactor_world \<Rightarrow> 'w reactor_world" where
  "after_call = (\<lambda>(r, calls) s. s\<lparr>reactor := r, pipe := pipe s \<or> Interrupt \<in> set calls,
     handed := handed s + mset (given_ops calls)\<rparr>)"

definition starting :: "nat \<Rightarrow> 'w reactor_world \<Rightarrow> 'w reactor_world" where
  "starting op s = s\<lparr>started := started s + {#op#}\<rparr>"

text \<open>
  A descriptor given to the reactor is not negative. \<^verbatim>\<open>select\<close> returns subsets of its sets, and the interrupter's
  descriptor in them is readable only if the pipe has a byte; the reset reads what is in the pipe unless it fails, and
  then the interrupter is made anew under the mutex, with the dispatch. A timer queue is a new one when it is added; a
  timer is scheduled in a queue that was added, with an operation that it does not have, at a time that the clock can
  have; the numbers of timers and operations are those of \<^verbatim>\<open>std::size_t\<close>.
\<close>

inductive rstep :: "'w perform_func \<Rightarrow> 'w reactor_world \<Rightarrow> 'w reactor_world \<Rightarrow> bool" for perf where
  Start: "\<lbrakk>op_type < max_ops; 0 \<le> d; start_op op_type d op c (reactor s) = Inr rc\<rbrakk>
    \<Longrightarrow> rstep perf s (after_call rc (starting op s))"
| Register: "\<lbrakk>op_type < max_ops; 0 \<le> d; register_internal_descriptor op_type d op (reactor s) = Inr rc\<rbrakk>
    \<Longrightarrow> rstep perf s (after_call rc (starting op s))"
| Cancel: "cancel_ops d (reactor s) = Inr rc \<Longrightarrow> rstep perf s (after_call rc s)"
| CancelKey: "\<lbrakk>op_type < max_ops; cancel_ops_by_key d op_type key (reactor s) = Inr rc\<rbrakk>
    \<Longrightarrow> rstep perf s (after_call rc s)"
| DeregisterInternal: "deregister_internal_descriptor d (reactor s) = Inr (r, ops)
    \<Longrightarrow> rstep perf s (s\<lparr>reactor := r, handed := handed s + mset ops\<rparr>)"
| SetShutdown: "rstep perf s (s\<lparr>reactor := set_shutdown (reactor s)\<rparr>)"
| CollectAll: "\<lbrakk>sr_shutdown (reactor s); collect_all (reactor s) = Some (Inr rc)\<rbrakk> \<Longrightarrow> rstep perf s (after_call rc s)"
| Interrupted: "rstep perf s (s\<lparr>pipe := True\<rparr>)"
| AddTimerQueue: "\<lbrakk>q \<notin> set (timer_queues (reactor s)); tq (reactor s) q = new_timer_queue\<rbrakk>
    \<Longrightarrow> rstep perf s (s\<lparr>reactor := tqs_insert q (reactor s)\<rparr>)"
| RemoveTimerQueue: "rstep perf s (s\<lparr>reactor := tqs_erase q (reactor s)\<rparr>)"
| ScheduleTimer: "\<lbrakk>q \<in> set (timer_queues (reactor s)); length (heap (tq (reactor s) q)) < no_index;
      op_id wop \<notin> op_id ` set (tops (per_timer (tq (reactor s) q) timer)); in_time time\<rbrakk>
    \<Longrightarrow> rstep perf s (after_call (schedule_timer is_inf q time timer wop (reactor s)) s)"
| CancelTimer: "rstep perf s (after_call (snd (reactor_cancel_timer q timer n (reactor s))) s)"
| CancelTimerKey: "rstep perf s (after_call (reactor_cancel_timer_by_key q timer key (reactor s)) s)"
| MoveTimer: "\<lbrakk>source \<noteq> target; length (tops (per_timer (tq (reactor s) q) target)) \<le> no_index\<rbrakk>
    \<Longrightarrow> rstep perf s (after_call (reactor_move_timer q target source (reactor s)) s)"
| Prepare: "\<lbrakk>in_select s = None; returned s = None;
      run_prepare pnum pden now usec (reactor s) = Inr (r, ops, Some tv)\<rbrakk>
    \<Longrightarrow> rstep perf s (s\<lparr>reactor := r, in_select := Some ops\<rparr>)"
| NothingToDo: "\<lbrakk>in_select s = None; returned s = None;
      run_prepare pnum pden now usec (reactor s) = Inr (r, ops, None)\<rbrakk>
    \<Longrightarrow> rstep perf s (s\<lparr>reactor := r, handed := handed s + mset ops\<rparr>)"
| SelectReturns: "\<lbrakk>in_select s = Some ops; length rdy = max_ops;
      \<forall>i<max_ops. rdy ! i \<subseteq> fd_set (fd_sets (reactor s) ! i);
      read_descriptor (reactor s) \<in> rdy ! read_op \<longrightarrow> pipe s;
      interrupter_ready retval (with_sets rdy (reactor s)) = Inr b; failed \<longrightarrow> b\<rbrakk>
    \<Longrightarrow> rstep perf s (s\<lparr>reactor := with_sets rdy (reactor s), in_select := None,
          returned := Some (retval, failed, ops), pipe := pipe s \<and> \<not> (b \<and> \<not> failed)\<rparr>)"
| Dispatch: "\<lbrakk>returned s = Some (retval, failed, ops); 0 \<le> rd;
      run_dispatch now perf retval (if failed then Some rd else None) ops (reactor s, world s) = Some (Inr (r, w, cs))\<rbrakk>
    \<Longrightarrow> rstep perf s (s\<lparr>reactor := r, world := w, returned := None, pipe := pipe s \<and> \<not> failed,
          handed := handed s + mset (completed_ops cs)\<rparr>)"

definition first_world :: "reactor_ops \<Rightarrow> int \<Rightarrow> 'w \<Rightarrow> 'w reactor_world" where
  "first_world st rd w = \<lparr>reactor = new_select_reactor st rd, world = w, in_select = None,
     returned = None, pipe = False,
     started = {#}, handed = {#}\<rparr>"

inductive reactor_reach :: "'w perform_func \<Rightarrow> 'w reactor_world \<Rightarrow> bool" for perf where
  initial: "0 \<le> rd \<Longrightarrow> reactor_reach perf (first_world st rd w)"
| step: "reactor_reach perf s \<Longrightarrow> rstep perf s s' \<Longrightarrow> reactor_reach perf s'"

section \<open>The invariant\<close>

definition held :: "'w reactor_world \<Rightarrow> nat multiset" where
  "held s = (case in_select s of None \<Rightarrow> {#} | Some ops \<Rightarrow> mset ops)
     + (case returned s of None \<Rightarrow> {#} | Some (_, _, ops) \<Rightarrow> mset ops)"

definition reactor_inv :: "'w reactor_world \<Rightarrow> bool" where
  "reactor_inv s \<longleftrightarrow> sr_inv (reactor s) \<and> (\<forall>q\<in>set (op_queues (reactor s)). nonnegative q)
     \<and> 0 \<le> read_descriptor (reactor s)
     \<and> started s = queued (reactor s) + held s + handed s"

lemma completed_ops_append [simp]: "completed_ops (xs @ ys) = completed_ops xs @ completed_ops ys"
  by (induction xs rule: completed_ops.induct) auto

lemma completed_ops_map [simp]:
  "completed_ops (map ReactorOp xs) = xs" "completed_ops (map TimerOp ys) = []"
  by (induction xs) (simp_all, induction ys, simp_all)

text \<open>A queue replaced by one that differs at one descriptor.\<close>

lemma sr_inv_upd: "sr_inv r \<Longrightarrow> rq_inv fd_hash q \<Longrightarrow> sr_inv (upd_queue i q r)"
  using set_update_subset_insert [of "op_queues r" i q] by (auto simp: sr_inv_def upd_queue_def)

lemma nonneg_upd:
  "\<forall>q\<in>set (op_queues r). nonnegative q \<Longrightarrow> nonnegative q \<Longrightarrow> \<forall>q\<in>set (op_queues (upd_queue i q r)). nonnegative q"
  using set_update_subset_insert [of "op_queues r" i q] by (auto simp: upd_queue_def)

lemma sr_inv_nth: "sr_inv r \<Longrightarrow> i < max_ops \<Longrightarrow> rq_inv fd_hash (op_queues r ! i)"
  by (simp add: sr_inv_def)

lemma nonnegative_upd:
  "nonnegative q \<Longrightarrow> rq_table q' = (rq_table q)(d := v) \<Longrightarrow> v = [] \<or> 0 \<le> d \<or> rq_table q d \<noteq> [] \<Longrightarrow> nonnegative q'"
  by (auto simp: nonnegative_def)

lemma enqueue_queued:
  assumes inv: "sr_inv r" "\<forall>q\<in>set (op_queues r). nonnegative q" and i: "i < max_ops" and d: "0 \<le> d"
  shows "\<exists>q. enqueue_operation fd_hash d op (op_queues r ! i) = Inr (q, waiting r i d = [])
    \<and> sr_inv (upd_queue i q r) \<and> (\<forall>q\<in>set (op_queues (upd_queue i q r)). nonnegative q)
    \<and> queued (upd_queue i q r) = queued r + {#op#}
    \<and> rq_table q = (rq_table (op_queues r ! i))(d := waiting r i d @ [op])"
proof -
  let ?q = "op_queues r ! i"
  note iq = sr_inv_nth [OF inv(1) i]
  have lt: "i < length (op_queues r)" using inv(1) i by (simp add: sr_inv_def)
  from enqueue_spec [OF iq, of d op] obtain q where q: "enqueue_operation fd_hash d op ?q = Inr (q, rq_table ?q d = [])"
    "rq_inv fd_hash q" "rq_table q = (rq_table ?q)(d := rq_table ?q d @ [op])" by blast
  have nn: "nonnegative q" using nonnegative_upd [OF _ q(3)] inv(2) lt d by simp
  have "queued (upd_queue i q r) + mset (rq_ops ?q) = queued r + mset (rq_ops q)"
    by (rule queued_update [OF lt])
  moreover have "mset (rq_ops q) + mset (rq_table ?q d) = mset (rq_ops ?q) + mset (rq_table ?q d @ [op])"
    by (rule rq_ops_update [OF iq q(2,3)])
  ultimately have "queued (upd_queue i q r) = queued r + {#op#}" by simp
  then show ?thesis
    using q sr_inv_upd [OF inv(1) q(2)] nonneg_upd [OF inv(2) nn] by (auto simp: waiting_def)
qed


lemma all2_set: "list_all2 P xs ys \<Longrightarrow> y \<in> set ys \<Longrightarrow> \<exists>x\<in>set xs. P x y"
  by (induction rule: list_all2_induct) auto

lemma cancel_queues_reactor:
  assumes inv: "sr_inv r" "\<forall>q\<in>set (op_queues r). nonnegative q"
  shows "\<exists>qs out. cancel_queues d ec (op_queues r) (sr_ops r, [], False) =
      Inr (qs, with_error ec (set out) (sr_ops r), out, out \<noteq> [])
    \<and> out = concat (map (\<lambda>i. waiting r i d) [0..<max_ops])
    \<and> (\<forall>st. let r' = r\<lparr>op_queues := qs, sr_ops := st\<rparr> in
        sr_inv r' \<and> (\<forall>q\<in>set (op_queues r'). nonnegative q) \<and> queued r = queued r' + mset out
        \<and> (\<forall>i<max_ops. waiting r' i = (waiting r i)(d := [])))"
proof -
  let ?P = "\<lambda>q q'. rq_inv fd_hash q' \<and> rq_table q' = (rq_table q)(d := [])"
  have "\<forall>q\<in>set (op_queues r). rq_inv fd_hash q" using inv(1) by (simp add: sr_inv_def)
  from cancel_queues_spec [OF this, of d ec "sr_ops r" "[]" False] obtain qs out where
    c: "cancel_queues d ec (op_queues r) (sr_ops r, [], False) =
        Inr (qs, with_error ec (set out) (sr_ops r), [] @ out, False \<or> out \<noteq> [])"
      "out = concat (map (\<lambda>q. rq_table q d) (op_queues r))" "list_all2 ?P (op_queues r) qs"
      "mset (concat (map rq_ops (op_queues r))) = mset out + mset (concat (map rq_ops qs))" by blast
  have len: "length (op_queues r) = max_ops" "length qs = max_ops"
    using inv(1) list_all2_lengthD [OF c(3)] by (simp_all add: sr_inv_def)
  have nth: "?P (op_queues r ! i) (qs ! i)" if "i < max_ops" for i
    using list_all2_nthD [OF c(3), of i] that len by simp
  have "map (\<lambda>q. rq_table q d) (op_queues r) = map (\<lambda>i. waiting r i d) [0..<max_ops]"
    by (rule nth_equalityI) (simp_all add: len waiting_def)
  then have out: "out = concat (map (\<lambda>i. waiting r i d) [0..<max_ops])" using c(2) by (simp only:)
  have "sr_inv (r\<lparr>op_queues := qs, sr_ops := st\<rparr>)" for st
    using inv(1) len all2_set [OF c(3)] by (auto simp: sr_inv_def)
  moreover have "\<forall>q\<in>set qs. nonnegative q"
    using all2_set [OF c(3)] inv(2) nonnegative_upd by blast
  moreover have "queued r = queued (r\<lparr>op_queues := qs, sr_ops := st\<rparr>) + mset out" for st
    using c(4) by (simp add: queued_def)
  moreover have "waiting (r\<lparr>op_queues := qs, sr_ops := st\<rparr>) i = (waiting r i)(d := [])" if "i < max_ops" for i st
    using nth [OF that] by (simp add: waiting_def fun_eq_iff)
  ultimately show ?thesis using c(1) out by (auto simp: Let_def)
qed

text \<open>What a critical section other than those of \<^verbatim>\<open>run\<close> does: \<open>taken\<close> leaves the queues.\<close>

definition section_ok :: "select_reactor \<Rightarrow> select_reactor \<Rightarrow> nat multiset \<Rightarrow> nat multiset \<Rightarrow> bool \<Rightarrow> bool" where
  "section_ok r r' added taken woken \<longleftrightarrow>
     sr_inv r' \<and> (\<forall>q\<in>set (op_queues r'). nonnegative q)
     \<and> queued r + added = queued r' + taken
     \<and> fd_sets r' = fd_sets r \<and> read_descriptor r' = read_descriptor r
     \<and> (\<forall>i<max_ops. \<forall>d. waiting r' i d \<noteq> [] \<longrightarrow> waiting r i d \<noteq> [] \<or> woken)"

lemma section_frame:
  assumes "sr_inv r" "\<forall>q\<in>set (op_queues r). nonnegative q"
    and "op_queues r' = op_queues r" "fd_sets r' = fd_sets r" "read_descriptor r' = read_descriptor r"
  shows "section_ok r r' {#} {#} w"
  using assms by (simp add: section_ok_def sr_inv_def queued_def waiting_def)

lemma start_op_section:
  assumes inv: "sr_inv r" "\<forall>q\<in>set (op_queues r). nonnegative q" and i: "i < max_ops" and d: "0 \<le> d"
    and s: "start_op i d op c r = Inr (r', calls)"
  shows "section_ok r r' {#op#} (mset (given_ops calls)) (Interrupt \<in> set calls)"
proof (cases "sr_shutdown r")
  case True
  then show ?thesis using s section_frame [OF inv refl refl refl]
    by (auto simp: start_op_def section_ok_def)
next
  case False
  from enqueue_queued [OF inv i d, of op] obtain q where
    q: "enqueue_operation fd_hash d op (op_queues r ! i) = Inr (q, waiting r i d = [])"
      "sr_inv (upd_queue i q r)" "\<forall>q\<in>set (op_queues (upd_queue i q r)). nonnegative q"
      "queued (upd_queue i q r) = queued r + {#op#}"
      "rq_table q = (rq_table (op_queues r ! i))(d := waiting r i d @ [op])" by blast
  have r: "r' = upd_queue i q r" "calls = WorkStarted # (if waiting r i d = [] then [Interrupt] else [])"
    using s q(1) False by (auto simp: start_op_def)
  have g: "given_ops calls = []" using r(2) by simp
  have lt: "i < length (op_queues r)" using inv(1) i by (simp add: sr_inv_def)
  have "waiting r' j e \<noteq> [] \<longrightarrow> waiting r j e \<noteq> [] \<or> Interrupt \<in> set calls" for j e
  proof (cases "j = i \<and> e = d")
    case True
    then show ?thesis unfolding r(2) by simp
  next
    case False
    then have "waiting r' j e = waiting r j e"
      using q(5) lt unfolding r(1) by (cases "j = i") (auto simp: waiting_def upd_queue_def)
    then show ?thesis by simp
  qed
  then show ?thesis
    using q(2,3,4) unfolding section_ok_def g r(1) by (simp add: upd_queue_def)
qed

lemma register_section:
  assumes inv: "sr_inv r" "\<forall>q\<in>set (op_queues r). nonnegative q" and i: "i < max_ops" and d: "0 \<le> d"
    and s: "register_internal_descriptor i d op r = Inr (r', calls)"
  shows "section_ok r r' {#op#} (mset (given_ops calls)) (Interrupt \<in> set calls)"
proof -
  from enqueue_queued [OF inv i d, of op] obtain q where
    q: "enqueue_operation fd_hash d op (op_queues r ! i) = Inr (q, waiting r i d = [])"
      "sr_inv (upd_queue i q r)" "\<forall>q\<in>set (op_queues (upd_queue i q r)). nonnegative q"
      "queued (upd_queue i q r) = queued r + {#op#}" by blast
  have r: "r' = upd_queue i q r" "calls = [Interrupt]"
    using s q(1) by (auto simp: register_internal_descriptor_def)
  show ?thesis
    using q(2,3,4) unfolding section_ok_def r by (simp add: upd_queue_def)
qed

lemma cancel_section:
  assumes inv: "sr_inv r" "\<forall>q\<in>set (op_queues r). nonnegative q"
    and s: "cancel_ops d r = Inr (r', calls)"
  shows "section_ok r r' {#} (mset (given_ops calls)) False"
proof -
  from cancel_queues_reactor [OF inv, of d OperationAborted] obtain qs out where
    c: "cancel_queues d OperationAborted (op_queues r) (sr_ops r, [], False) =
        Inr (qs, with_error OperationAborted (set out) (sr_ops r), out, out \<noteq> [])"
    and r: "\<forall>st. let r' = r\<lparr>op_queues := qs, sr_ops := st\<rparr> in
        sr_inv r' \<and> (\<forall>q\<in>set (op_queues r'). nonnegative q) \<and> queued r = queued r' + mset out
        \<and> (\<forall>i<max_ops. waiting r' i = (waiting r i)(d := []))" by blast
  let ?st = "with_error OperationAborted (set out) (sr_ops r)"
  have e: "r' = r\<lparr>op_queues := qs, sr_ops := ?st\<rparr>" "given_ops calls = out"
    using s c by (auto simp: cancel_ops_def cancel_ops_unlocked_def)
  show ?thesis
    using spec [OF r, of ?st] unfolding Let_def section_ok_def e by auto
qed

lemma deregister_internal_section:
  assumes inv: "sr_inv r" "\<forall>q\<in>set (op_queues r). nonnegative q"
    and s: "deregister_internal_descriptor d r = Inr (r', ops)"
  shows "section_ok r r' {#} (mset ops) False"
proof -
  from cancel_queues_reactor [OF inv, of d OperationAborted] obtain qs out where
    c: "cancel_queues d OperationAborted (op_queues r) (sr_ops r, [], False) =
        Inr (qs, with_error OperationAborted (set out) (sr_ops r), out, out \<noteq> [])"
    and r: "\<forall>st. let r' = r\<lparr>op_queues := qs, sr_ops := st\<rparr> in
        sr_inv r' \<and> (\<forall>q\<in>set (op_queues r'). nonnegative q) \<and> queued r = queued r' + mset out
        \<and> (\<forall>i<max_ops. waiting r' i = (waiting r i)(d := []))" by blast
  let ?st = "with_error OperationAborted (set out) (sr_ops r)"
  have e: "r' = r\<lparr>op_queues := qs, sr_ops := ?st\<rparr>" "ops = out"
    using s c by (auto simp: deregister_internal_descriptor_def)
  show ?thesis
    using spec [OF r, of ?st] unfolding Let_def section_ok_def e by auto
qed

lemma mset_moved:
  fixes a :: "'a multiset"
  assumes "a + b = c + d" "d + (e + f) = b + f"
  shows "c = a + e"
proof -
  have "(a + e) + (b + f) = (a + b) + (e + f)" by (simp add: ac_simps)
  also have "\<dots> = c + (d + (e + f))" unfolding assms(1) by (simp add: ac_simps)
  also have "\<dots> = c + (b + f)" unfolding assms(2) by (rule refl)
  finally show ?thesis by simp
qed

lemma cancel_key_section:
  assumes inv: "sr_inv r" "\<forall>q\<in>set (op_queues r). nonnegative q" and i: "i < max_ops"
    and s: "cancel_ops_by_key d i key r = Inr (r', calls)"
  shows "section_ok r r' {#} (mset (given_ops calls)) False"
proof -
  let ?q = "op_queues r ! i"
  let ?taken = "filter (\<lambda>op. rop_key (sr_ops r op) = key) (rq_table ?q d)"
  let ?kept = "filter (\<lambda>op. rop_key (sr_ops r op) \<noteq> key) (rq_table ?q d)"
  note iq = sr_inv_nth [OF inv(1) i]
  have lt: "i < length (op_queues r)" using inv(1) i by (simp add: sr_inv_def)
  from cancel_by_key_spec [OF iq, of 0 d key OperationAborted "sr_ops r" "[]"] obtain q where
    c: "cancel_operations_by_key fd_hash 0 d key OperationAborted (?q, sr_ops r, []) =
        Inr (?taken \<noteq> [], q, with_error OperationAborted (set ?taken) (sr_ops r), [] @ ?taken)"
      "rq_inv fd_hash q" "rq_table q = (rq_table ?q)(d := ?kept)" by blast
  have e: "op_queues r' = op_queues (upd_queue i q r)" "fd_sets r' = fd_sets r"
    "read_descriptor r' = read_descriptor r" "given_ops calls = ?taken"
    using s c(1) by (auto simp: cancel_ops_by_key_def upd_queue_def split: if_splits)
  have nn: "nonnegative q"
    by (rule nonnegative_upd [OF _ c(3)]) (use inv(2) lt in \<open>auto simp: filter_empty_conv\<close>)
  have p: "mset (rq_table ?q d) = mset ?taken + mset ?kept"
    unfolding mset_filter by (rule multiset_partition)
  have "mset (rq_ops q) + (mset ?taken + mset ?kept) = mset (rq_ops ?q) + mset ?kept"
    unfolding p [symmetric] by (rule rq_ops_update [OF iq c(2,3)])
  from mset_moved [OF queued_update [OF lt] this]
  have "queued r = queued (upd_queue i q r) + mset ?taken" .
  moreover have "queued r' = queued (upd_queue i q r)" using e(1) by (simp add: queued_def)
  moreover have "waiting r' j x \<noteq> [] \<longrightarrow> waiting r j x \<noteq> []" for j x
    using c(3) lt unfolding waiting_def e(1) by (cases "j = i") (auto simp: upd_queue_def)
  moreover have "sr_inv r'"
    using sr_inv_upd [OF inv(1) c(2), of i] e(1,2) by (simp add: sr_inv_def upd_queue_def)
  moreover have "\<forall>q\<in>set (op_queues r'). nonnegative q"
    unfolding e(1) by (rule nonneg_upd [OF inv(2) nn])
  ultimately show ?thesis using e by (simp add: section_ok_def)
qed


lemma all_operations_spec:
  assumes "\<forall>q\<in>set qs. rq_inv fd_hash q"
  shows "\<exists>qs' out. all_operations qs ops = Inr (qs', ops @ out) \<and> length qs' = length qs
    \<and> (\<forall>q\<in>set qs'. rq_inv fd_hash q \<and> rq_table q = (\<lambda>_. []))
    \<and> mset (concat (map rq_ops qs)) = mset out \<and> mset (concat (map rq_ops qs')) = {#}"
  using assms
proof (induction qs arbitrary: ops)
  case Nil
  then show ?case by simp
next
  case (Cons q qs)
  have iq: "rq_inv fd_hash q" and rest: "\<forall>q\<in>set qs. rq_inv fd_hash q" using Cons.prems by simp_all
  have m: "map (\<lambda>n. snd (cell q n)) (hm_values q) = map (\<lambda>n. rq_table q (fst (cell q n))) (hm_values q)"
    using rq_node(1) [OF iq] by simp
  from get_all_spec [OF iq, of 0 ops] obtain q' where q': "get_all_operations fd_hash 0 (q, ops) = Inr (q', ops @ rq_ops q)"
    "rq_inv fd_hash q'" "rq_table q' = (\<lambda>_. [])" unfolding rq_ops_def m by blast
  from Cons.IH [OF rest, of "ops @ rq_ops q"] obtain qs' out where
    r: "all_operations qs (ops @ rq_ops q) = Inr (qs', (ops @ rq_ops q) @ out)" "length qs' = length qs"
      "\<forall>q\<in>set qs'. rq_inv fd_hash q \<and> rq_table q = (\<lambda>_. [])"
      "mset (concat (map rq_ops qs)) = mset out" "mset (concat (map rq_ops qs')) = {#}" by blast
  have "rq_ops q' = []" by (rule rq_ops_empty [OF q'(2,3)])
  then show ?case
    using q' r by (intro exI [of _ "q' # qs'"] exI [of _ "rq_ops q @ out"]) simp
qed

lemma collect_section:
  assumes inv: "sr_inv r" "\<forall>q\<in>set (op_queues r). nonnegative q"
    and s: "collect_all r = Some (Inr (r', calls))"
  shows "section_ok r r' {#} (mset (given_ops calls)) False"
    and "queued r' = {#}"
proof -
  have "\<forall>q\<in>set (op_queues r). rq_inv fd_hash q" using inv(1) by (simp add: sr_inv_def)
  from all_operations_spec [OF this, of "[]"] obtain qs out where
    a: "all_operations (op_queues r) [] = Inr (qs, out)" "length qs = length (op_queues r)"
      "\<forall>q\<in>set qs. rq_inv fd_hash q \<and> rq_table q = (\<lambda>_. [])"
      "mset (concat (map rq_ops (op_queues r))) = mset out" "mset (concat (map rq_ops qs)) = {#}" by auto
  let ?r = "r\<lparr>op_queues := qs\<rparr>"
  from s a(1) obtain tms where t: "tqs_all (timer_queues r) ([], ?r) = Some (tms, r')"
    and c: "calls = [Abandon (map ReactorOp out @ map TimerOp tms)]"
    by (auto simp: collect_all_def)
  note f = tqs_all_frame [OF t]
  have g: "given_ops calls = out" unfolding c by simp
  have nn: "\<forall>q\<in>set qs. nonnegative q" using a(3) by (simp add: nonnegative_def)
  have w: "waiting r' i d = []" if "i < max_ops" for i d
    using a(2,3) f inv(1) that by (simp add: waiting_def sr_inv_def)
  have si: "sr_inv r'" using inv(1) a(2,3) f by (simp add: sr_inv_def)
  have qu: "queued r = mset out" using a(4) by (simp add: queued_def)
  show qe: "queued r' = {#}" using f a(5) by (simp add: queued_def)
  have fr: "op_queues r' = qs" "fd_sets r' = fd_sets r" "read_descriptor r' = read_descriptor r" using f by simp_all
  show "section_ok r r' {#} (mset (given_ops calls)) False"
    unfolding section_ok_def g fr qu qe using si nn w by simp
qed

lemma timer_sections:
  assumes "sr_inv r" "\<forall>q\<in>set (op_queues r). nonnegative q"
  shows "section_ok r (fst (schedule_timer is_inf q time timer wop r)) {#} {#} w"
    "given_ops (snd (schedule_timer is_inf q time timer wop r)) = []"
    "section_ok r (fst (snd (reactor_cancel_timer q timer n r))) {#} {#} w"
    "given_ops (snd (snd (reactor_cancel_timer q timer n r))) = []"
    "section_ok r (fst (reactor_cancel_timer_by_key q timer key r)) {#} {#} w"
    "given_ops (snd (reactor_cancel_timer_by_key q timer key r)) = []"
    "section_ok r (fst (reactor_move_timer q target source r)) {#} {#} w"
    "given_ops (snd (reactor_move_timer q target source r)) = []"
  by (auto intro!: section_frame [OF assms] simp: schedule_timer_def reactor_cancel_timer_def
      reactor_cancel_timer_by_key_def reactor_move_timer_def upd_tq_def Let_def split: prod.splits)

section \<open>Preparing\<close>

lemma op_index [simp]: "read_op < max_ops" "write_op < max_ops" "except_op < max_ops" "connect_op < max_ops"
  by (simp_all add: read_op_def write_op_def except_op_def connect_op_def max_ops_def)

lemma set_nth_ex: "length xs = n \<Longrightarrow> q \<in> set xs \<Longrightarrow> \<exists>i<n. q = xs ! i"
  by (auto simp: in_set_conv_nth)

text \<open>\<open>prepared r r' failed nfds\<close>: what the first half of \<^verbatim>\<open>run\<close> does.\<close>

definition prepared :: "select_reactor \<Rightarrow> select_reactor \<Rightarrow> nat list \<Rightarrow> int \<Rightarrow> bool" where
  "prepared r r' failed nfds \<longleftrightarrow>
     (\<forall>i<max_ops. \<forall>d. waiting r' i d = (if FD_SETSIZE \<le> d then [] else waiting r i d))
     \<and> (\<forall>i<max_ops. fd_set (fd_sets r' ! i) = {d. waiting r' i d \<noteq> []}
          \<union> (if i = read_op \<and> read_descriptor r < FD_SETSIZE then {read_descriptor r} else {}))
     \<and> (\<forall>i<max_ops. \<forall>d\<in>fd_set (fd_sets r' ! i). 0 \<le> d \<and> d < FD_SETSIZE \<and> d < nfds)
     \<and> set failed = {op. \<exists>i<max_ops. \<exists>d\<ge>FD_SETSIZE. op \<in> set (waiting r i d)}
     \<and> queued r = queued r' + mset failed
     \<and> sr_ops r' = with_error FdSetFailure (set failed) (sr_ops r)"

lemma run_prepare_spec:
  assumes inv: "sr_inv r" "\<forall>q\<in>set (op_queues r). nonnegative q" and rd: "0 \<le> read_descriptor r"
  shows "\<exists>r' failed nfds have_work. prepared r r' failed nfds \<and> sr_inv r'
    \<and> (\<forall>q\<in>set (op_queues r'). nonnegative q)
    \<and> read_descriptor r' = read_descriptor r \<and> timer_queues r' = timer_queues r \<and> tq r' = tq r
    \<and> sr_shutdown r' = sr_shutdown r
    \<and> have_work = (\<not> tqs_all_empty r \<or> (\<exists>i<max_ops. \<exists>d. waiting r i d \<noteq> []))
    \<and> (\<forall>pnum pden now usec. run_prepare pnum pden now usec r =
        (if usec = 0 \<and> \<not> have_work then Inr (r', failed, None)
         else if usec = 0 then Inr (r', failed, Some (nfds, 0, 0))
         else and_then (get_timeout pnum pden now usec r') (\<lambda>tv. Inr (r', failed, Some (nfds, tv)))))"
proof -
  let ?fs = "map fd_reset (fd_sets r)"
  have len: "length (op_queues r) = max_ops" "length (fd_sets r) = max_ops" using inv(1) by (simp_all add: sr_inv_def)
  have r0: "read_op < length (fd_sets r)" using len by simp
  from fd_set_one_spec [OF rd, of "?fs ! read_op"] obtain f where
    f: "fd_set_one (read_descriptor r) (?fs ! read_op) = Inr (read_descriptor r < FD_SETSIZE, f)"
      "fd_set f = (if read_descriptor r < FD_SETSIZE then {read_descriptor r} else {})"
    using r0 by (auto simp: fd_reset_def)
  have fi: "fd_inv f" by (rule fd_set_one_inv [OF f(1)]) (simp add: fd_inv_def fd_reset_def r0)
  let ?fs1 = "?fs[read_op := f]"
  let ?qfs = "zip (op_queues r) ?fs1"
  have zlen: "length ?qfs = max_ops" using len by simp
  have fs1: "fd_inv (?fs1 ! i)" "fd_set (?fs1 ! i) = (if i = read_op \<and> read_descriptor r < FD_SETSIZE then {read_descriptor r} else {})"
    if "i < max_ops" for i
  proof -
    have "?fs1 ! i = (if i = read_op then f else fd_reset (fd_sets r ! i))"
      using that len r0 by (simp add: nth_list_update)
    moreover have "fd_inv (fd_reset g)" "fd_set (fd_reset g) = {}" for g by (simp_all add: fd_inv_def fd_reset_def)
    ultimately show "fd_inv (?fs1 ! i)"
      "fd_set (?fs1 ! i) = (if i = read_op \<and> read_descriptor r < FD_SETSIZE then {read_descriptor r} else {})"
      using fi f(2) by simp_all
  qed
  have pre: "\<forall>(q, f)\<in>set ?qfs. rq_inv fd_hash q \<and> nonnegative q \<and> fd_inv f"
  proof
    fix qf
    assume "qf \<in> set ?qfs"
    then obtain i where "i < max_ops" "qf = (op_queues r ! i, ?fs1 ! i)"
      using len by (auto simp: in_set_conv_nth)
    then show "case qf of (q, f) \<Rightarrow> rq_inv fd_hash q \<and> nonnegative q \<and> fd_inv f"
      using inv len fs1(1) by (auto simp: sr_inv_def)
  qed
  let ?hw = "\<not> tqs_all_empty r"
  from prepare_queues_spec [OF pre, of "sr_ops r" "[]" ?hw 0] obtain qfs failed m1 where
    p: "prepare_queues ?qfs (sr_ops r, [], ?hw, 0) = Inr (qfs, with_error FdSetFailure (set failed) (sr_ops r), [] @ failed,
        ?hw \<or> (\<exists>(q, f)\<in>set ?qfs. \<not> rq_empty q), m1)"
      "list_all2 (\<lambda>(q, f) (q', f'). rq_inv fd_hash q' \<and> fd_inv f' \<and> max_descriptor f' \<le> m1
        \<and> rq_table q' = (\<lambda>d. if FD_SETSIZE \<le> d then [] else rq_table q d)
        \<and> fd_set f' = fd_set f \<union> {d. rq_table q d \<noteq> [] \<and> d < FD_SETSIZE}) ?qfs qfs"
      "set failed = {op. \<exists>(q, f)\<in>set ?qfs. \<exists>d\<ge>FD_SETSIZE. op \<in> set (rq_table q d)}"
      "mset (concat (map (rq_ops \<circ> fst) ?qfs)) = mset failed + mset (concat (map (rq_ops \<circ> fst) qfs))" by blast
  have qlen: "length qfs = max_ops" using list_all2_lengthD [OF p(2)] zlen by simp
  let ?r' = "r\<lparr>op_queues := map fst qfs, fd_sets := map snd qfs, sr_ops := with_error FdSetFailure (set failed) (sr_ops r)\<rparr>"
  have nth: "rq_inv fd_hash (op_queues ?r' ! i)" "fd_inv (fd_sets ?r' ! i)" "max_descriptor (fd_sets ?r' ! i) \<le> m1"
    "waiting ?r' i = (\<lambda>d. if FD_SETSIZE \<le> d then [] else waiting r i d)"
    "fd_set (fd_sets ?r' ! i) = fd_set (?fs1 ! i) \<union> {d. waiting r i d \<noteq> [] \<and> d < FD_SETSIZE}" if i: "i < max_ops" for i
  proof -
    have "?qfs ! i = (op_queues r ! i, ?fs1 ! i)" using i len by simp
    moreover have "qfs ! i = (op_queues ?r' ! i, fd_sets ?r' ! i)" using i qlen by simp
    ultimately show "rq_inv fd_hash (op_queues ?r' ! i)" "fd_inv (fd_sets ?r' ! i)" "max_descriptor (fd_sets ?r' ! i) \<le> m1"
      "waiting ?r' i = (\<lambda>d. if FD_SETSIZE \<le> d then [] else waiting r i d)"
      "fd_set (fd_sets ?r' ! i) = fd_set (?fs1 ! i) \<union> {d. waiting r i d \<noteq> [] \<and> d < FD_SETSIZE}"
      using list_all2_nthD [OF p(2), of i] i len by (simp_all add: waiting_def fun_eq_iff)
  qed
  have ex: "(\<exists>(q, f)\<in>set ?qfs. Q q) \<longleftrightarrow> (\<exists>i<max_ops. Q (op_queues r ! i))" for Q
  proof -
    have "(\<exists>(q, f)\<in>set ?qfs. Q q) \<longleftrightarrow> (\<exists>q\<in>set (map fst ?qfs). Q q)"
      unfolding set_map bex_simps(7) case_prod_beta by (rule refl)
    also have "map fst ?qfs = op_queues r" using len by simp
    also have "(\<exists>q\<in>set (op_queues r). Q q) \<longleftrightarrow> (\<exists>i<length (op_queues r). Q (op_queues r ! i))"
      by (metis in_set_conv_nth)
    finally show ?thesis unfolding len(1) .
  qed
  have hw: "(\<exists>(q, f)\<in>set ?qfs. \<not> rq_empty q) \<longleftrightarrow> (\<exists>i<max_ops. \<exists>d. waiting r i d \<noteq> [])"
    unfolding ex waiting_def using rq_empty_spec [OF sr_inv_nth [OF inv(1)]] by auto
  have fl: "set failed = {op. \<exists>i<max_ops. \<exists>d\<ge>FD_SETSIZE. op \<in> set (waiting r i d)}"
    unfolding p(3) ex waiting_def by (rule refl)
  have "map (rq_ops \<circ> fst) ?qfs = map rq_ops (op_queues r)"
    using len by (simp add: map_map [symmetric] del: map_map)
  then have qd: "queued r = queued ?r' + mset failed"
    using p(4) by (simp add: queued_def ac_simps)
  have sets: "fd_set (fd_sets ?r' ! i) = {d. waiting ?r' i d \<noteq> []}
      \<union> (if i = read_op \<and> read_descriptor r < FD_SETSIZE then {read_descriptor r} else {})" if "i < max_ops" for i
    unfolding nth(4,5) [OF that] fs1(2) [OF that] by auto
  have rng: "\<forall>d\<in>fd_set (fd_sets ?r' ! i). 0 \<le> d \<and> d < FD_SETSIZE \<and> d < m1 + 1" if "i < max_ops" for i
    using nth(2,3) [OF that] unfolding fd_inv_def by fastforce
  have prep: "prepared r ?r' failed (m1 + 1)"
    unfolding prepared_def
  proof (intro conjI)
    show "\<forall>i<max_ops. \<forall>d. waiting ?r' i d = (if FD_SETSIZE \<le> d then [] else waiting r i d)"
    proof (intro allI impI)
      fix i d
      assume "i < max_ops"
      then show "waiting ?r' i d = (if FD_SETSIZE \<le> d then [] else waiting r i d)" by (simp only: nth(4))
    qed
  qed (intro allI impI, rule sets, assumption, intro allI impI, rule rng, assumption, rule fl, rule qd, simp)
  have "length (op_queues ?r') = max_ops" using qlen by simp
  note mem = set_nth_ex [OF this]
  have "\<forall>q\<in>set (op_queues ?r'). rq_inv fd_hash q"
  proof
    fix q
    assume "q \<in> set (op_queues ?r')"
    then obtain i where i: "i < max_ops" "q = op_queues ?r' ! i" using mem by blast
    show "rq_inv fd_hash q" unfolding i(2) by (rule nth(1) [OF i(1)])
  qed
  then have sr: "sr_inv ?r'" using qlen unfolding sr_inv_def by simp
  have nn: "\<forall>q\<in>set (op_queues ?r'). nonnegative q"
  proof
    fix q
    assume "q \<in> set (op_queues ?r')"
    then obtain i where i: "i < max_ops" "q = op_queues ?r' ! i" using mem by blast
    have "nonnegative (op_queues r ! i)" using inv(2) len i(1) by simp
    then show "nonnegative q" using nth(4) [OF i(1)] i(2) by (auto simp: nonnegative_def waiting_def fun_eq_iff)
  qed
  have run: "run_prepare pnum pden now usec r =
        (if usec = 0 \<and> \<not> (?hw \<or> (\<exists>i<max_ops. \<exists>d. waiting r i d \<noteq> [])) then Inr (?r', failed, None)
         else if usec = 0 then Inr (?r', failed, Some (m1 + 1, 0, 0))
         else and_then (get_timeout pnum pden now usec ?r') (\<lambda>tv. Inr (?r', failed, Some (m1 + 1, tv))))" for pnum pden now usec
    unfolding run_prepare_def Let_def f(1) by (simp add: p(1) hw)
  show ?thesis
    by (intro exI [of _ ?r'] exI [of _ failed] exI [of _ "m1 + 1"]
        exI [of _ "?hw \<or> (\<exists>i<max_ops. \<exists>d. waiting r i d \<noteq> [])"] conjI allI prep sr nn refl run) simp_all
qed


section \<open>Dispatching\<close>

lemma with_sets_simps [simp]:
  "op_queues (with_sets rdy r) = op_queues r" "read_descriptor (with_sets rdy r) = read_descriptor r"
  "sr_ops (with_sets rdy r) = sr_ops r" "timer_queues (with_sets rdy r) = timer_queues r"
  "tq (with_sets rdy r) = tq r" "queued (with_sets rdy r) = queued r" "waiting (with_sets rdy r) = waiting r"
  by (simp_all add: with_sets_def queued_def waiting_def fun_eq_iff)

lemma with_sets_inv: "sr_inv r \<Longrightarrow> length rdy = max_ops \<Longrightarrow> sr_inv (with_sets rdy r)"
  by (simp add: sr_inv_def with_sets_def)

lemma with_sets_nth:
  "sr_inv r \<Longrightarrow> length rdy = max_ops \<Longrightarrow> i < max_ops \<Longrightarrow> fd_set (fd_sets (with_sets rdy r) ! i) = rdy ! i"
  by (simp add: sr_inv_def with_sets_def)

text \<open>
  The operations performed: \<open>fin i d\<close> are those of the descriptor \<open>d\<close> in queue \<open>i\<close>, and \<open>outs\<close> those of each queue,
  the descriptors in the order of its list. The operations and the world change as performing the queues of the
  descriptors that are set, the last queue first, changes them.
\<close>

definition performed ::
    "'w perform_func \<Rightarrow> select_reactor \<Rightarrow> 'w \<Rightarrow> select_reactor \<Rightarrow> 'w \<Rightarrow> nat list list \<Rightarrow> bool" where
  "performed perf r w r' w' outs \<longleftrightarrow> length outs = max_ops
     \<and> (\<exists>fin. (\<forall>i<max_ops. dispatches (fd_set (fd_sets r ! i)) (waiting r i) (fin i) (waiting r' i)
            \<and> outs ! i = concat (map (\<lambda>n. fin i (fst (cell (op_queues r ! i) n))) (hm_values (op_queues r ! i))))
          \<and> dispatched perf (concat (rev (map (\<lambda>i. map (\<lambda>d. (fin i d, waiting r' i d))
              (set_descriptors (fd_sets r ! i) (op_queues r ! i))) [0..<max_ops]))) (sr_ops r, w) (sr_ops r', w'))"

lemma performed_frame:
  "performed perf r w r' w' outs \<Longrightarrow> waiting r'' = waiting r' \<Longrightarrow> sr_ops r'' = sr_ops r' \<Longrightarrow> performed perf r w r'' w' outs"
  by (simp add: performed_def)

lemma zip_queues:
  assumes inv: "sr_inv r"
  shows "\<forall>(q, f)\<in>set (zip (op_queues r) (fd_sets r)). rq_inv fd_hash q"
    "(\<exists>(q, f)\<in>set (zip (op_queues r) (fd_sets r)). \<not> watchable q) \<longleftrightarrow> (\<exists>q\<in>set (op_queues r). \<not> watchable q)"
    "map (rq_ops \<circ> fst) (zip (op_queues r) (fd_sets r)) = map rq_ops (op_queues r)"
    "length (zip (op_queues r) (fd_sets r)) = max_ops"
proof -
  have len: "length (op_queues r) = length (fd_sets r)" "length (op_queues r) = max_ops"
    using inv by (simp_all add: sr_inv_def)
  have m: "map fst (zip (op_queues r) (fd_sets r)) = op_queues r" using len by simp
  have s: "(\<exists>(q, f)\<in>set (zip (op_queues r) (fd_sets r)). P q) \<longleftrightarrow> (\<exists>q\<in>set (map fst (zip (op_queues r) (fd_sets r))). P q)" for P
    unfolding set_map bex_simps(7) case_prod_beta by (rule refl)
  show "\<forall>(q, f)\<in>set (zip (op_queues r) (fd_sets r)). rq_inv fd_hash q"
    using inv by (auto simp: sr_inv_def dest: set_zip_leftD)
  show "(\<exists>(q, f)\<in>set (zip (op_queues r) (fd_sets r)). \<not> watchable q) \<longleftrightarrow> (\<exists>q\<in>set (op_queues r). \<not> watchable q)"
    unfolding s m by (rule refl)
  show "map (rq_ops \<circ> fst) (zip (op_queues r) (fd_sets r)) = map rq_ops (op_queues r)"
    using m by (simp add: map_map [symmetric] del: map_map)
  show "length (zip (op_queues r) (fd_sets r)) = max_ops" using len by simp
qed

lemma perform_reactor:
  assumes inv: "sr_inv r" and w: "\<forall>q\<in>set (op_queues r). watchable q"
  shows "\<exists>qs st' w' outs. perform_queues perf (zip (op_queues r) (fd_sets r)) (sr_ops r, w, ops) =
      Inr (qs, st', w', ops @ concat (rev outs))
    \<and> (let r' = r\<lparr>op_queues := qs, sr_ops := st'\<rparr> in sr_inv r' \<and> performed perf r w r' w' outs
        \<and> queued r = queued r' + mset (concat outs))"
proof -
  let ?qfs = "zip (op_queues r) (fd_sets r)"
  let ?out = "\<lambda>(q, f) fin. concat (map (\<lambda>n. fin (fst (cell q n))) (hm_values q))"
  note z = zip_queues [OF inv]
  have "\<forall>(q, f)\<in>set ?qfs. rq_inv fd_hash q \<and> watchable q" using z(1,2) w by fast
  from perform_queues_spec [OF this, of perf "sr_ops r" w ops] obtain qs st' w' fins where
    p: "perform_queues perf ?qfs (sr_ops r, w, ops) = Inr (qs, st', w', ops @ concat (rev (map2 ?out ?qfs fins)))"
      "length fins = length ?qfs" "list_all2 (\<lambda>(q, f) q'. rq_inv fd_hash q') ?qfs qs"
      "\<forall>i<length ?qfs. dispatches (fd_set (snd (?qfs ! i))) (rq_table (fst (?qfs ! i))) (fins ! i) (rq_table (qs ! i))"
      "dispatched perf (concat (rev (map (\<lambda>i. map (\<lambda>d. ((fins ! i) d, rq_table (qs ! i) d))
          (set_descriptors (snd (?qfs ! i)) (fst (?qfs ! i)))) [0..<length ?qfs]))) (sr_ops r, w) (st', w')"
      "mset (concat (map (rq_ops \<circ> fst) ?qfs)) = mset (concat (map2 ?out ?qfs fins)) + mset (concat (map rq_ops qs))"
    by (elim exE conjE) (rule that)
  let ?r' = "r\<lparr>op_queues := qs, sr_ops := st'\<rparr>"
  let ?outs = "map2 ?out ?qfs fins"
  have len: "length (op_queues r) = max_ops" "length (fd_sets r) = max_ops" using inv by (simp_all add: sr_inv_def)
  have e: "?qfs ! i = (op_queues r ! i, fd_sets r ! i)" if "i < max_ops" for i using that len by simp
  have "length qs = max_ops" using list_all2_lengthD [OF p(3)] z(4) by simp
  moreover have "\<forall>q\<in>set qs. rq_inv fd_hash q" using all2_set [OF p(3)] by auto
  ultimately have "sr_inv ?r'" using inv by (simp add: sr_inv_def)
  moreover have "performed perf r w ?r' w' ?outs"
    unfolding performed_def
  proof (intro conjI exI [of _ "\<lambda>i. fins ! i"] allI impI)
    show "length ?outs = max_ops" using p(2) z(4) by simp
    show "dispatches (fd_set (fd_sets r ! i)) (waiting r i) (fins ! i) (waiting ?r' i)" if "i < max_ops" for i
      using p(4) that len e [OF that] by (simp add: waiting_def [abs_def])
    show "?outs ! i = concat (map (\<lambda>n. (fins ! i) (fst (cell (op_queues r ! i) n))) (hm_values (op_queues r ! i)))"
      if "i < max_ops" for i
      using that p(2) z(4) e [OF that] by simp
    have "map (\<lambda>i. map (\<lambda>d. ((fins ! i) d, rq_table (qs ! i) d)) (set_descriptors (snd (?qfs ! i)) (fst (?qfs ! i))))
          [0..<length ?qfs] =
        map (\<lambda>i. map (\<lambda>d. ((fins ! i) d, waiting ?r' i d)) (set_descriptors (fd_sets r ! i) (op_queues r ! i))) [0..<max_ops]"
      by (rule map_cong) (simp_all add: len e waiting_def)
    with p(5) show "dispatched perf (concat (rev (map (\<lambda>i. map (\<lambda>d. ((fins ! i) d, waiting ?r' i d))
              (set_descriptors (fd_sets r ! i) (op_queues r ! i))) [0..<max_ops]))) (sr_ops r, w) (sr_ops ?r', w')"
      by (simp del: length_zip)
  qed
  moreover have "queued r = queued ?r' + mset (concat ?outs)"
    using p(6) unfolding z(3) by (simp add: queued_def ac_simps)
  ultimately show ?thesis using p(1) by (auto simp: Let_def)
qed

lemma dispatches_shrink: "dispatches S T fin rest \<Longrightarrow> rest d \<noteq> [] \<Longrightarrow> T d \<noteq> []"
  using dispatchesD(1) by fastforce

lemma performed_nonneg:
  assumes p: "performed perf r w r' w' outs" and inv: "sr_inv r" "sr_inv r'" "\<forall>q\<in>set (op_queues r). nonnegative q"
  shows "\<forall>q\<in>set (op_queues r'). nonnegative q"
proof
  fix q
  assume "q \<in> set (op_queues r')"
  then obtain i where i: "i < max_ops" "q = op_queues r' ! i"
    using set_nth_ex [of "op_queues r'" max_ops] inv(2) by (auto simp: sr_inv_def)
  obtain fin where "dispatches (fd_set (fd_sets r ! i)) (waiting r i) fin (waiting r' i)"
    using p i(1) unfolding performed_def by blast
  then have "waiting r' i d \<noteq> [] \<Longrightarrow> waiting r i d \<noteq> []" for d by (rule dispatches_shrink)
  moreover have "nonnegative (op_queues r ! i)" using inv(1,3) i(1) by (simp add: sr_inv_def)
  ultimately show "nonnegative q" unfolding nonnegative_def waiting_def i(2) by blast
qed

lemma run_dispatch_unfold:
  "run_dispatch now perf retval recreated ops (r, w) =
     (case interrupter_ready retval r of
        Inl e \<Rightarrow> Some (Inl e)
      | Inr b \<Rightarrow>
          let r1 = (case recreated of Some rd \<Rightarrow> if b then r\<lparr>read_descriptor := rd\<rparr> else r | None \<Rightarrow> r) in
          (case (if (if b then retval - 1 else retval) > 0
                 then perform_queues perf (zip (op_queues r) (fd_sets r)) (sr_ops r, w, ops)
                 else Inr (op_queues r, sr_ops r, w, ops)) of
             Inl e \<Rightarrow> Some (Inl e)
           | Inr (qs, st, w, ops) \<Rightarrow>
               map_option (\<lambda>(tms, r). Inr (r, w, map ReactorOp ops @ map TimerOp tms))
                 (tqs_ready now (timer_queues r) ([], r1\<lparr>op_queues := qs, sr_ops := st\<rparr>))))"
  by (auto simp: run_dispatch_def Let_def split: sum.splits option.splits)

text \<open>With or without descriptors ready, what the second half of \<^verbatim>\<open>run\<close> leaves.\<close>

lemma run_dispatch_keeps:
  assumes inv: "sr_inv r" "\<forall>q\<in>set (op_queues r). nonnegative q" and rd: "0 \<le> read_descriptor r"
    and new: "\<forall>rd. recreated = Some rd \<longrightarrow> 0 \<le> rd"
    and run: "run_dispatch now perf retval recreated ops (r, w) = Some (Inr (r', w', cs))"
  shows "sr_inv r'" "\<forall>q\<in>set (op_queues r'). nonnegative q" "0 \<le> read_descriptor r'"
    "queued r + mset ops = queued r' + mset (completed_ops cs)"
proof -
  from run obtain b where b: "interrupter_ready retval r = Inr b"
    unfolding run_dispatch_unfold by (auto split: sum.splits)
  let ?r1 = "case recreated of Some rd \<Rightarrow> if b then r\<lparr>read_descriptor := rd\<rparr> else r | None \<Rightarrow> r"
  have r1: "op_queues ?r1 = op_queues r" "fd_sets ?r1 = fd_sets r" "sr_ops ?r1 = sr_ops r" "0 \<le> read_descriptor ?r1"
    using rd new by (auto split: option.splits)
  let ?go = "(if b then retval - 1 else retval) > 0"
  let ?P = "if ?go then perform_queues perf (zip (op_queues r) (fd_sets r)) (sr_ops r, w, ops)
      else Inr (op_queues r, sr_ops r, w, ops)"
  from run b obtain qs st ops1 tms where P: "?P = Inr (qs, st, w', ops1)"
    and t: "tqs_ready now (timer_queues r) ([], ?r1\<lparr>op_queues := qs, sr_ops := st\<rparr>) = Some (tms, r')"
    and cs: "cs = map ReactorOp ops1 @ map TimerOp tms"
    unfolding run_dispatch_unfold by (auto simp: Let_def split: sum.splits)
  note f = tqs_ready_frame [OF t]
  have q: "sr_inv (r\<lparr>op_queues := qs, sr_ops := st\<rparr>) \<and> (\<forall>q\<in>set qs. nonnegative q)
      \<and> queued r + mset ops = mset (concat (map rq_ops qs)) + mset ops1"
  proof (cases ?go)
    case False
    then show ?thesis using P inv by (simp add: queued_def sr_inv_def)
  next
    case True
    have w: "\<forall>q\<in>set (op_queues r). watchable q"
    proof (rule ccontr)
      assume "\<not> (\<forall>q\<in>set (op_queues r). watchable q)"
      then have "\<exists>(q, f)\<in>set (zip (op_queues r) (fd_sets r)). \<not> watchable q"
        unfolding zip_queues(2) [OF inv(1)] by blast
      then have "perform_queues perf (zip (op_queues r) (fd_sets r)) (sr_ops r, w, ops) = Inl UndefinedBehaviour"
        by (rule perform_queues_overrun [OF zip_queues(1) [OF inv(1)]])
      then show False using P True by simp
    qed
    from perform_reactor [OF inv(1) w, of perf w ops] obtain qs' st' w'' outs where
      pr: "perform_queues perf (zip (op_queues r) (fd_sets r)) (sr_ops r, w, ops) = Inr (qs', st', w'', ops @ concat (rev outs))"
      and l: "let r' = r\<lparr>op_queues := qs', sr_ops := st'\<rparr> in sr_inv r' \<and> performed perf r w r' w'' outs
        \<and> queued r = queued r' + mset (concat outs)" by blast
    have e: "qs' = qs" "st' = st" "w'' = w'" "ops1 = ops @ concat (rev outs)" using P True pr by simp_all
    have l': "sr_inv (r\<lparr>op_queues := qs, sr_ops := st\<rparr>)" "performed perf r w (r\<lparr>op_queues := qs, sr_ops := st\<rparr>) w' outs"
      "queued r = queued (r\<lparr>op_queues := qs, sr_ops := st\<rparr>) + mset (concat outs)"
      using l unfolding e Let_def by blast+
    have "\<forall>q\<in>set qs. nonnegative q" using performed_nonneg [OF l'(2) inv(1) l'(1) inv(2)] by simp
    moreover have "mset (concat (rev outs)) = mset (concat outs)"
      by (simp add: mset_concat rev_map [symmetric] sum_list_rev)
    ultimately show ?thesis using l'(1,3) e(4) by (simp add: queued_def ac_simps)
  qed
  have fr: "op_queues r' = qs" "fd_sets r' = fd_sets r" "read_descriptor r' = read_descriptor ?r1"
    using f r1 by simp_all
  show "sr_inv r'" using q fr unfolding sr_inv_def by simp
  show "\<forall>q\<in>set (op_queues r'). nonnegative q" using q fr by simp
  show "0 \<le> read_descriptor r'" using fr r1(4) by simp
  show "queued r + mset ops = queued r' + mset (completed_ops cs)" using q fr(1) cs by (simp add: queued_def)
qed

section \<open>The timer queues\<close>

definition timers_inv :: "select_reactor \<Rightarrow> bool" where
  "timers_inv r \<longleftrightarrow> distinct (timer_queues r) \<and> (\<forall>p. tq_good (tq r p))
     \<and> (\<not> sr_shutdown r \<longrightarrow> (\<forall>p. tq_sound (tq r p)))"

definition same_timers :: "select_reactor \<Rightarrow> select_reactor \<Rightarrow> bool" where
  "same_timers r r' \<longleftrightarrow> timer_queues r' = timer_queues r \<and> tq r' = tq r \<and> sr_shutdown r' = sr_shutdown r"

lemma same_timers_inv: "same_timers r r' \<Longrightarrow> timers_inv r \<Longrightarrow> timers_inv r'"
  by (simp add: same_timers_def timers_inv_def)

lemma same_timers_ops:
  "start_op i d op c r = Inr (r', calls) \<Longrightarrow> same_timers r r'"
  "register_internal_descriptor i d op r = Inr (r', calls) \<Longrightarrow> same_timers r r'"
  "cancel_ops d r = Inr (r', calls) \<Longrightarrow> same_timers r r'"
  "cancel_ops_by_key d i key r = Inr (r', calls) \<Longrightarrow> same_timers r r'"
  "deregister_internal_descriptor d r = Inr (r', ops) \<Longrightarrow> same_timers r r'"
  "same_timers r (with_sets rdy r)"
  by (auto simp: same_timers_def start_op_def register_internal_descriptor_def cancel_ops_def cancel_ops_unlocked_def
      cancel_ops_by_key_def deregister_internal_descriptor_def upd_queue_def with_sets_def and_then_Inr_iff
      split: if_splits prod.splits)

text \<open>A queue replaced by one that an operation made of it.\<close>

lemma timers_inv_upd:
  "timers_inv r \<Longrightarrow> tq_good q \<Longrightarrow> (tq_sound (tq r p) \<Longrightarrow> tq_sound q) \<Longrightarrow> timers_inv (upd_tq p q r)"
  by (simp add: timers_inv_def upd_tq_def)

lemma timers_good: "timers_inv r \<Longrightarrow> tq_good (tq r p)"
  by (simp add: timers_inv_def)

lemma schedule_timers_inv:
  assumes inv: "timers_inv r" and "length (heap (tq r q)) < no_index"
    and "op_id wop \<notin> op_id ` set (tops (per_timer (tq r q) timer))" "in_time time"
  shows "timers_inv (fst (schedule_timer is_inf q time timer wop r))"
proof (cases "sr_shutdown r")
  case True
  then show ?thesis using inv by (simp add: schedule_timer_def)
next
  case False
  then have "tq_sound (tq r q)" using inv by (simp add: timers_inv_def)
  note g = good_enqueue [OF timers_good [OF inv] this assms(2-4), of is_inf]
  have "fst (schedule_timer is_inf q time timer wop r) = upd_tq q (snd (enqueue_timer is_inf time timer wop (tq r q))) r"
    using False by (simp add: schedule_timer_def split: prod.splits)
  then show ?thesis using timers_inv_upd [OF inv g(1)] g(2) by simp
qed

lemma cancel_timers_inv:
  assumes inv: "timers_inv r"
  shows "timers_inv (fst (snd (reactor_cancel_timer q timer n r)))"
    "timers_inv (fst (reactor_cancel_timer_by_key q timer key r))"
proof -
  obtain k ops q' where c: "cancel_timer timer [] n (tq r q) = (k, ops, q')" by (rule prod_cases3)
  show "timers_inv (fst (snd (reactor_cancel_timer q timer n r)))"
    using timers_inv_upd [OF inv good_cancel(1,2) [OF timers_good [OF inv] c]] by (simp add: reactor_cancel_timer_def c)
  obtain ops q' where c: "cancel_timer_by_key timer [] key (tq r q) = (ops, q')" by (rule prod.exhaust)
  show "timers_inv (fst (reactor_cancel_timer_by_key q timer key r))"
    using timers_inv_upd [OF inv good_cancel_key [OF timers_good [OF inv] c]] by (simp add: reactor_cancel_timer_by_key_def c)
qed

lemma move_timers_inv:
  assumes inv: "timers_inv r" and "source \<noteq> target" "length (tops (per_timer (tq r q) target)) \<le> no_index"
  shows "timers_inv (fst (reactor_move_timer q target source r))"
proof -
  obtain k ops q' where c: "cancel_timer target [] no_index (tq r q) = (k, ops, q')" by (rule prod_cases3)
  note g = good_cancel [OF timers_good [OF inv] c]
  have "tops (per_timer q' target) = []"
    by (rule g(4)) (use timers_good [OF inv, of q] assms(3) in \<open>auto simp: tq_good_def\<close>)
  note m = good_move [OF g(1) assms(2) this]
  show ?thesis
    using timers_inv_upd [OF inv m(1)] m(2) g(2) by (simp add: reactor_move_timer_def c)
qed

lemma collect_timers_inv:
  assumes inv: "timers_inv r" "sr_shutdown r" and c: "collect_all r = Some (Inr (r', calls))"
  shows "timers_inv r'"
proof -
  from c obtain qs ops tms where a: "tqs_all (timer_queues r) ([], r\<lparr>op_queues := qs\<rparr>) = Some (tms, r')"
    by (auto simp: collect_all_def split: sum.splits)
  have "\<forall>p. tq_good (tq (r\<lparr>op_queues := qs\<rparr>) p)" using inv(1) by (simp add: timers_inv_def)
  from tqs_all_returns [OF this, of "timer_queues r" "[]"] a have "\<forall>p. tq_good (tq r' p)" by auto
  then show ?thesis using tqs_all_frame [OF a] inv by (simp add: timers_inv_def)
qed

text \<open>What the second half of \<^verbatim>\<open>run\<close> does to the timers.\<close>

lemma dispatch_timers:
  assumes inv: "timers_inv r" and run: "run_dispatch now perf retval recreated ops (r, w) = Some (Inr (r', w', cs))"
  shows "timers_inv r'"
proof -
  from run obtain r0 tms where t: "tqs_ready now (timer_queues r) ([], r0) = Some (tms, r')"
    and f: "tq r0 = tq r" "timer_queues r0 = timer_queues r" "sr_shutdown r0 = sr_shutdown r"
    unfolding run_dispatch_unfold
    by (fastforce simp: Let_def split: sum.splits option.splits if_splits)
  have "\<forall>p. tq_good (tq r0 p)" "distinct (timer_queues r)" using inv f by (simp_all add: timers_inv_def)
  from tqs_ready_spec [OF this, of now "[]"] t have "\<forall>p. tq_good (tq r' p)" "\<forall>p. tq_sound (tq r0 p) \<longrightarrow> tq_sound (tq r' p)"
    by auto
  then show ?thesis using tqs_ready_frame [OF t] f inv by (simp add: timers_inv_def)
qed

end
