(* ===== verification/SelectReactorProperties.thy ===== *)
theory SelectReactorProperties
  imports SelectReactorRun
begin

text \<open>
  The properties of the select reactor of \<open>SelectReactor\<close> among its threads (\<open>SelectReactorRun\<close>): each operation
  is in one place, what waits is watched, what one turn of \<^verbatim>\<open>run\<close> prepares and performs, and what becomes of
  descriptors that do not fit a set.
\<close>

section \<open>The invariant is kept\<close>

text \<open>While a thread is in \<^verbatim>\<open>select\<close>, each descriptor that waits is in its set or the interrupter was written.\<close>

definition watched :: "'w reactor_world \<Rightarrow> bool" where
  "watched s \<longleftrightarrow> (in_select s \<noteq> None \<longrightarrow>
     (\<forall>i<max_ops. \<forall>d. waiting (reactor s) i d \<noteq> [] \<longrightarrow> d \<in> fd_set (fd_sets (reactor s) ! i) \<or> pipe s)
     \<and> (read_descriptor (reactor s) < FD_SETSIZE \<longrightarrow>
         read_descriptor (reactor s) \<in> fd_set (fd_sets (reactor s) ! read_op)))"

text \<open>After \<^verbatim>\<open>select\<close> the sets and the interrupter stay as they were for the dispatch; only one thread is in \<^verbatim>\<open>run\<close>.\<close>

definition answered :: "'w reactor_world \<Rightarrow> bool" where
  "answered s \<longleftrightarrow> (case returned s of None \<Rightarrow> True
     | Some (retval, failed, ops) \<Rightarrow> in_select s = None
         \<and> (\<exists>b. interrupter_ready retval (reactor s) = Inr b \<and> (failed \<longrightarrow> b)))"

lemma reactor_invD:
  assumes "reactor_inv s"
  shows "sr_inv (reactor s)" "\<forall>q\<in>set (op_queues (reactor s)). nonnegative q"
    "0 \<le> read_descriptor (reactor s)" "started s = queued (reactor s) + held s + handed s"
  using assms by (simp_all add: reactor_inv_def)

lemma section_mono: "section_ok r r' added taken False \<Longrightarrow> section_ok r r' added taken w"
  by (auto simp: section_ok_def)

lemma mset_section:
  fixes q :: "'a multiset"
  assumes "q + a = q' + t" "s = q + h + g"
  shows "s + a = q' + h + (g + t)"
proof -
  have "s + a = (q + a) + (h + g)" unfolding assms(2) by (simp add: ac_simps)
  then show ?thesis unfolding assms(1) by (simp add: ac_simps)
qed

lemma after_section:
  assumes inv: "reactor_inv s" "watched s"
    and ok: "section_ok (reactor s) r' added (mset (given_ops calls)) (Interrupt \<in> set calls)"
  shows "reactor_inv (after_call (r', calls) (s\<lparr>started := started s + added\<rparr>))
    \<and> watched (after_call (r', calls) (s\<lparr>started := started s + added\<rparr>))"
proof -
  note o = ok [unfolded section_ok_def]
  have "started s + added = queued r' + held s + (handed s + mset (given_ops calls))"
    by (rule mset_section [OF _ reactor_invD(4) [OF inv(1)]]) (use o in blast)
  then have "reactor_inv (after_call (r', calls) (s\<lparr>started := started s + added\<rparr>))"
    using o reactor_invD(3) [OF inv(1)] by (simp add: reactor_inv_def after_call_def held_def)
  moreover have "watched (after_call (r', calls) (s\<lparr>started := started s + added\<rparr>))"
    unfolding watched_def
  proof (intro impI conjI allI)
    let ?s = "after_call (r', calls) (s\<lparr>started := started s + added\<rparr>)"
    assume "in_select ?s \<noteq> None"
    then have "in_select s \<noteq> None" by (simp add: after_call_def)
    note w = inv(2) [unfolded watched_def, THEN mp, OF this]
    have e: "reactor ?s = r'" "pipe ?s \<longleftrightarrow> pipe s \<or> Interrupt \<in> set calls" by (simp_all add: after_call_def)
    have f: "fd_sets r' = fd_sets (reactor s)" "read_descriptor r' = read_descriptor (reactor s)" using o by simp_all
    show "d \<in> fd_set (fd_sets (reactor ?s) ! i) \<or> pipe ?s" if "i < max_ops" "waiting (reactor ?s) i d \<noteq> []" for i d
    proof -
      have "waiting (reactor s) i d \<noteq> [] \<or> Interrupt \<in> set calls" using o that unfolding e by blast
      then show ?thesis using w that(1) unfolding e f by blast
    qed
    show "read_descriptor (reactor ?s) \<in> fd_set (fd_sets (reactor ?s) ! read_op)"
      if "read_descriptor (reactor ?s) < FD_SETSIZE"
      using w that unfolding e f by blast
  qed
  ultimately show ?thesis by blast
qed

lemma after_section_none:
  assumes inv: "reactor_inv s" "watched s"
    and ok: "section_ok (reactor s) r' {#} (mset (given_ops calls)) (Interrupt \<in> set calls)"
  shows "reactor_inv (after_call (r', calls) s) \<and> watched (after_call (r', calls) s)"
  using after_section [OF inv ok] by simp

lemma prepare_keeps:
  assumes inv: "reactor_inv s"
    and run: "run_prepare pnum pden now usec (reactor s) = Inr (r, ops, tv)"
  shows "\<exists>nfds. prepared (reactor s) r ops nfds \<and> sr_inv r \<and> (\<forall>q\<in>set (op_queues r). nonnegative q)
    \<and> read_descriptor r = read_descriptor (reactor s) \<and> same_timers (reactor s) r"
proof -
  from run_prepare_spec [OF reactor_invD(1,2,3) [OF inv]] obtain r' failed nfds have_work where
    p: "prepared (reactor s) r' failed nfds" "sr_inv r'" "\<forall>q\<in>set (op_queues r'). nonnegative q"
      "read_descriptor r' = read_descriptor (reactor s)" "same_timers (reactor s) r'"
      "run_prepare pnum pden now usec (reactor s) =
        (if usec = 0 \<and> \<not> have_work then Inr (r', failed, None)
         else if usec = 0 then Inr (r', failed, Some (nfds, 0, 0))
         else and_then (get_timeout pnum pden now usec r') (\<lambda>tv. Inr (r', failed, Some (nfds, tv))))"
    unfolding same_timers_def by blast
  have "r = r' \<and> ops = failed"
    using run unfolding p(6) by (auto simp: and_then_Inr_iff split: if_splits)
  then show ?thesis using p by blast
qed

lemma prepared_watches:
  assumes p: "prepared r r' failed nfds" and rd: "read_descriptor r' = read_descriptor r"
  shows "\<forall>i<max_ops. \<forall>d. waiting r' i d \<noteq> [] \<longrightarrow> d \<in> fd_set (fd_sets r' ! i)"
    "read_descriptor r' < FD_SETSIZE \<longrightarrow> read_descriptor r' \<in> fd_set (fd_sets r' ! read_op)"
proof -
  have s: "fd_set (fd_sets r' ! i) = {d. waiting r' i d \<noteq> []}
      \<union> (if i = read_op \<and> read_descriptor r < FD_SETSIZE then {read_descriptor r} else {})" if "i < max_ops" for i
    using p that unfolding prepared_def by blast
  show "\<forall>i<max_ops. \<forall>d. waiting r' i d \<noteq> [] \<longrightarrow> d \<in> fd_set (fd_sets r' ! i)" using s by simp
  show "read_descriptor r' < FD_SETSIZE \<longrightarrow> read_descriptor r' \<in> fd_set (fd_sets r' ! read_op)"
    using s [OF op_index(1)] rd by simp
qed

lemma rstep_inv:
  assumes "rstep perf s s'" "reactor_inv s" "watched s" "answered s"
  shows "reactor_inv s' \<and> watched s'"
  using assms
proof cases
  case (Start op_type d op c rc)
  obtain r calls where rc: "rc = (r, calls)" by (rule prod.exhaust)
  show ?thesis
    unfolding Start(1) rc starting_def
    by (rule after_section [OF assms(2,3) start_op_section [OF reactor_invD(1,2) [OF assms(2)] Start(2,3,4) [unfolded rc]]])
next
  case (Register op_type d op rc)
  obtain r calls where rc: "rc = (r, calls)" by (rule prod.exhaust)
  show ?thesis
    unfolding Register(1) rc starting_def
    by (rule after_section [OF assms(2,3) register_section [OF reactor_invD(1,2) [OF assms(2)] Register(2,3,4) [unfolded rc]]])
next
  case (Cancel d rc)
  obtain r calls where rc: "rc = (r, calls)" by (rule prod.exhaust)
  show ?thesis
    unfolding Cancel(1) rc
    by (rule after_section_none [OF assms(2,3) section_mono
          [OF cancel_section [OF reactor_invD(1,2) [OF assms(2)] Cancel(2) [unfolded rc]]]])
next
  case (CancelKey op_type d key rc)
  obtain r calls where rc: "rc = (r, calls)" by (rule prod.exhaust)
  show ?thesis
    unfolding CancelKey(1) rc
    by (rule after_section_none [OF assms(2,3) section_mono
          [OF cancel_key_section [OF reactor_invD(1,2) [OF assms(2)] CancelKey(2,3) [unfolded rc]]]])
next
  case (DeregisterInternal d r ops)
  note o = deregister_internal_section [OF reactor_invD(1,2) [OF assms(2)] DeregisterInternal(2), unfolded section_ok_def]
  have "started s + {#} = queued r + held s + (handed s + mset ops)"
    by (rule mset_section [OF _ reactor_invD(4) [OF assms(2)]]) (use o in blast)
  then show ?thesis
    using o assms(3) reactor_invD(3) [OF assms(2)]
    unfolding DeregisterInternal(1) by (simp add: reactor_inv_def watched_def held_def)
next
  case SetShutdown
  show ?thesis
    using assms(2,3) unfolding SetShutdown(1)
    by (simp add: reactor_inv_def watched_def held_def sr_inv_def queued_def waiting_def set_shutdown_def)
next
  case (CollectAll rc)
  obtain r calls where rc: "rc = (r, calls)" by (rule prod.exhaust)
  show ?thesis
    unfolding CollectAll(1) rc
    by (rule after_section_none [OF assms(2,3) section_mono
          [OF collect_section(1) [OF reactor_invD(1,2) [OF assms(2)] CollectAll(3) [unfolded rc]]]])
next
  case Interrupted
  then show ?thesis using assms(2,3) by (simp add: reactor_inv_def watched_def held_def)
next
  case (AddTimerQueue q)
  then show ?thesis
    using assms(2,3) by (simp add: reactor_inv_def watched_def held_def sr_inv_def queued_def waiting_def tqs_insert_def)
next
  case (RemoveTimerQueue q)
  then show ?thesis
    using assms(2,3) by (simp add: reactor_inv_def watched_def held_def sr_inv_def queued_def waiting_def tqs_erase_def)
next
  case (ScheduleTimer q wop timer time is_inf)
  note t = timer_sections(1,2) [OF reactor_invD(1,2) [OF assms(2)]]
  show ?thesis
    using after_section_none [OF assms(2,3), of "fst (schedule_timer is_inf q time timer wop (reactor s))"
        "snd (schedule_timer is_inf q time timer wop (reactor s))"] t
    unfolding ScheduleTimer(1) by simp
next
  case (CancelTimer q timer n)
  note t = timer_sections(3,4) [OF reactor_invD(1,2) [OF assms(2)]]
  show ?thesis
    using after_section_none [OF assms(2,3), of "fst (snd (reactor_cancel_timer q timer n (reactor s)))"
        "snd (snd (reactor_cancel_timer q timer n (reactor s)))"] t
    unfolding CancelTimer(1) by simp
next
  case (CancelTimerKey q timer key)
  note t = timer_sections(5,6) [OF reactor_invD(1,2) [OF assms(2)]]
  show ?thesis
    using after_section_none [OF assms(2,3), of "fst (reactor_cancel_timer_by_key q timer key (reactor s))"
        "snd (reactor_cancel_timer_by_key q timer key (reactor s))"] t
    unfolding CancelTimerKey(1) by simp
next
  case (MoveTimer source target q)
  note t = timer_sections(7,8) [OF reactor_invD(1,2) [OF assms(2)]]
  show ?thesis
    using after_section_none [OF assms(2,3), of "fst (reactor_move_timer q target source (reactor s))"
        "snd (reactor_move_timer q target source (reactor s))"] t
    unfolding MoveTimer(1) by simp
next
  case (Prepare pnum pden now usec r ops tv)
  from prepare_keeps [OF assms(2) Prepare(4)] obtain nfds where
    p: "prepared (reactor s) r ops nfds" "sr_inv r" "\<forall>q\<in>set (op_queues r). nonnegative q"
      "read_descriptor r = read_descriptor (reactor s)" by blast
  have q: "queued (reactor s) = queued r + mset ops" using p(1) by (simp add: prepared_def)
  show ?thesis
    using p prepared_watches [OF p(1,4)] q reactor_invD(3,4) [OF assms(2)] Prepare(2,3)
    unfolding Prepare(1) by (simp add: reactor_inv_def watched_def held_def)
next
  case (NothingToDo pnum pden now usec r ops)
  from prepare_keeps [OF assms(2) NothingToDo(4)] obtain nfds where
    p: "prepared (reactor s) r ops nfds" "sr_inv r" "\<forall>q\<in>set (op_queues r). nonnegative q"
      "read_descriptor r = read_descriptor (reactor s)" by blast
  have q: "queued (reactor s) = queued r + mset ops" using p(1) by (simp add: prepared_def)
  show ?thesis
    using p q reactor_invD(3,4) [OF assms(2)] NothingToDo(2,3)
    unfolding NothingToDo(1) by (simp add: reactor_inv_def watched_def held_def ac_simps)
next
  case (SelectReturns ops rdy retval b failed)
  note inv = reactor_invD [OF assms(2)]
  have "returned s = None" using assms(4) SelectReturns(2) by (cases "returned s") (auto simp: answered_def)
  then show ?thesis
    using inv with_sets_inv [OF inv(1) SelectReturns(3)] SelectReturns(2)
    unfolding SelectReturns(1) by (simp add: reactor_inv_def watched_def held_def)
next
  case (Dispatch retval failed ops rd now r w cs)
  note inv = reactor_invD [OF assms(2)]
  have "in_select s = None" using assms(4) Dispatch(2) unfolding answered_def by simp
  have rd: "\<forall>x. (if failed then Some rd else None) = Some x \<longrightarrow> 0 \<le> x" using Dispatch(3) by simp
  show ?thesis
    using run_dispatch_keeps [OF inv(1,2,3) rd Dispatch(4)] inv(4) Dispatch(2) \<open>in_select s = None\<close>
    unfolding Dispatch(1) by (simp add: reactor_inv_def watched_def held_def ac_simps)
qed

text \<open>The sections change neither the sets nor the interrupter's descriptor while a thread is in \<^verbatim>\<open>run\<close>.\<close>

lemma answered_frame:
  assumes "answered s" "returned s' = returned s" "in_select s' = in_select s"
    and "fd_sets (reactor s') = fd_sets (reactor s)" "read_descriptor (reactor s') = read_descriptor (reactor s)"
  shows "answered s'"
  using assms(1) unfolding answered_def assms(2,3) interrupter_ready_def assms(4,5) .

lemma after_call_answered:
  assumes "answered s" "section_ok (reactor s) r added taken woken" "returned s0 = returned s" "in_select s0 = in_select s"
  shows "answered (after_call (r, calls) s0)"
  by (rule answered_frame [OF assms(1)]) (use assms(2-4) in \<open>simp_all add: after_call_def section_ok_def\<close>)

lemma rstep_answered:
  assumes "rstep perf s s'" "reactor_inv s" "answered s"
  shows "answered s'"
  using assms
proof cases
  case (Start op_type d op c rc)
  obtain r calls where rc: "rc = (r, calls)" by (rule prod.exhaust)
  show ?thesis
    unfolding Start(1) rc
    by (rule after_call_answered [OF assms(3) start_op_section [OF reactor_invD(1,2) [OF assms(2)] Start(2,3,4) [unfolded rc]]])
      (simp_all add: starting_def)
next
  case (Register op_type d op rc)
  obtain r calls where rc: "rc = (r, calls)" by (rule prod.exhaust)
  show ?thesis
    unfolding Register(1) rc
    by (rule after_call_answered [OF assms(3) register_section [OF reactor_invD(1,2) [OF assms(2)] Register(2,3,4) [unfolded rc]]])
      (simp_all add: starting_def)
next
  case (Cancel d rc)
  obtain r calls where rc: "rc = (r, calls)" by (rule prod.exhaust)
  show ?thesis
    unfolding Cancel(1) rc
    by (rule after_call_answered [OF assms(3) cancel_section [OF reactor_invD(1,2) [OF assms(2)] Cancel(2) [unfolded rc]] refl refl])
next
  case (CancelKey op_type d key rc)
  obtain r calls where rc: "rc = (r, calls)" by (rule prod.exhaust)
  show ?thesis
    unfolding CancelKey(1) rc
    by (rule after_call_answered [OF assms(3) cancel_key_section [OF reactor_invD(1,2) [OF assms(2)] CancelKey(2,3) [unfolded rc]] refl refl])
next
  case (DeregisterInternal d r ops)
  note o = deregister_internal_section [OF reactor_invD(1,2) [OF assms(2)] DeregisterInternal(2), unfolded section_ok_def]
  show ?thesis
    unfolding DeregisterInternal(1) by (rule answered_frame [OF assms(3)]) (use o in simp_all)
next
  case SetShutdown
  show ?thesis
    unfolding SetShutdown(1) by (rule answered_frame [OF assms(3)]) (simp_all add: set_shutdown_def)
next
  case (CollectAll rc)
  obtain r calls where rc: "rc = (r, calls)" by (rule prod.exhaust)
  show ?thesis
    unfolding CollectAll(1) rc
    by (rule after_call_answered [OF assms(3) collect_section(1) [OF reactor_invD(1,2) [OF assms(2)] CollectAll(3) [unfolded rc]] refl refl])
next
  case Interrupted
  show ?thesis unfolding Interrupted(1) by (rule answered_frame [OF assms(3)]) simp_all
next
  case (AddTimerQueue q)
  show ?thesis unfolding AddTimerQueue(1) by (rule answered_frame [OF assms(3)]) (simp_all add: tqs_insert_def)
next
  case (RemoveTimerQueue q)
  show ?thesis unfolding RemoveTimerQueue(1) by (rule answered_frame [OF assms(3)]) (simp_all add: tqs_erase_def)
next
  case (ScheduleTimer q wop timer time is_inf)
  show ?thesis
    unfolding ScheduleTimer(1)
    by (subst prod.collapse [symmetric], rule after_call_answered
        [OF assms(3) timer_sections(1) [OF reactor_invD(1,2) [OF assms(2)]] refl refl])
next
  case (CancelTimer q timer n)
  show ?thesis
    unfolding CancelTimer(1)
    by (subst prod.collapse [symmetric], rule after_call_answered
        [OF assms(3) timer_sections(3) [OF reactor_invD(1,2) [OF assms(2)]] refl refl])
next
  case (CancelTimerKey q timer key)
  show ?thesis
    unfolding CancelTimerKey(1)
    by (subst prod.collapse [symmetric], rule after_call_answered
        [OF assms(3) timer_sections(5) [OF reactor_invD(1,2) [OF assms(2)]] refl refl])
next
  case (MoveTimer source target q)
  show ?thesis
    unfolding MoveTimer(1)
    by (subst prod.collapse [symmetric], rule after_call_answered
        [OF assms(3) timer_sections(7) [OF reactor_invD(1,2) [OF assms(2)]] refl refl])
qed (auto simp: answered_def)

text \<open>The timer queues stay well formed.\<close>

lemma after_call_timers: "timers_inv r \<Longrightarrow> timers_inv (reactor (after_call (r, calls) s))"
  by (simp add: after_call_def)

lemma after_call_timers': "timers_inv (fst rc) \<Longrightarrow> timers_inv (reactor (after_call rc s))"
  by (cases rc) (simp add: after_call_def)

lemma rstep_timers:
  assumes "rstep perf s s'" "reactor_inv s" "timers_inv (reactor s)"
  shows "timers_inv (reactor s')"
  using assms
proof cases
  case (Start op_type d op c rc)
  then show ?thesis
    using same_timers_inv [OF same_timers_ops(1) assms(3)] by (cases rc) (simp add: after_call_def)
next
  case (Register op_type d op rc)
  then show ?thesis
    using same_timers_inv [OF same_timers_ops(2) assms(3)] by (cases rc) (simp add: after_call_def)
next
  case (Cancel d rc)
  then show ?thesis
    using same_timers_inv [OF same_timers_ops(3) assms(3)] by (cases rc) (simp add: after_call_def)
next
  case (CancelKey op_type d key rc)
  then show ?thesis
    using same_timers_inv [OF same_timers_ops(4) assms(3)] by (cases rc) (simp add: after_call_def)
next
  case (DeregisterInternal d r ops)
  then show ?thesis using same_timers_inv [OF same_timers_ops(5) assms(3)] by simp
next
  case SetShutdown
  then show ?thesis using assms(3) by (simp add: set_shutdown_def timers_inv_def)
next
  case (CollectAll rc)
  then show ?thesis
    using collect_timers_inv [OF assms(3)] by (cases rc) (simp add: after_call_def)
next
  case (AddTimerQueue q)
  then show ?thesis using assms(3) by (simp add: tqs_insert_def timers_inv_def)
next
  case (RemoveTimerQueue q)
  then show ?thesis using assms(3) by (simp add: tqs_erase_def timers_inv_def)
next
  case (ScheduleTimer q wop timer time is_inf)
  then show ?thesis
    using after_call_timers' [OF schedule_timers_inv [OF assms(3) ScheduleTimer(3-5)]] by simp
next
  case (CancelTimer q timer n)
  then show ?thesis using after_call_timers' [OF cancel_timers_inv(1) [OF assms(3)]] by simp
next
  case (CancelTimerKey q timer key)
  then show ?thesis using after_call_timers' [OF cancel_timers_inv(2) [OF assms(3)]] by simp
next
  case (MoveTimer source target q)
  then show ?thesis using after_call_timers' [OF move_timers_inv [OF assms(3) MoveTimer(2,3)]] by simp
next
  case (Prepare pnum pden now usec r ops tv)
  then show ?thesis using prepare_keeps [OF assms(2) Prepare(4)] same_timers_inv [OF _ assms(3)] by auto
next
  case (NothingToDo pnum pden now usec r ops)
  then show ?thesis using prepare_keeps [OF assms(2) NothingToDo(4)] same_timers_inv [OF _ assms(3)] by auto
next
  case (SelectReturns ops rdy retval b failed)
  then show ?thesis using same_timers_inv [OF same_timers_ops(6) assms(3)] by simp
next
  case (Dispatch retval failed ops rd now r w cs)
  then show ?thesis using dispatch_timers [OF assms(3) Dispatch(4)] by simp
qed (use assms(3) in simp)

lemma first_world_inv:
  "0 \<le> rd \<Longrightarrow> reactor_inv (first_world st rd w) \<and> watched (first_world st rd w)
    \<and> answered (first_world st rd w) \<and> timers_inv (reactor (first_world st rd w))"
  using rq_new(1) [of fd_hash "0::int"] rq_new(2) [of "0::int"] new_good
  by (auto simp: reactor_inv_def watched_def first_world_def new_select_reactor_def sr_inv_def queued_def held_def
      nonnegative_def max_ops_def numeral_3_eq_3 rq_ops_empty answered_def timers_inv_def)

lemma reach_all:
  "reactor_reach perf s \<Longrightarrow> reactor_inv s \<and> watched s \<and> answered s \<and> timers_inv (reactor s)"
  by (induction rule: reactor_reach.induct)
    (auto dest: first_world_inv rstep_inv rstep_answered rstep_timers)

lemma reach_inv: "reactor_reach perf s \<Longrightarrow> reactor_inv s \<and> watched s"
  using reach_all by blast


section \<open>The properties\<close>

text \<open>
  Property C20. Every operation given to the select reactor is in exactly one place, under every interleaving of
  starting, cancelling, deregistering, timers, the two parts of shutdown and the parts of \<^verbatim>\<open>run\<close>: in the queue of a
  descriptor, in the hands of the thread in \<^verbatim>\<open>run\<close>, or given to the scheduler (or destroyed by \<^verbatim>\<open>deregister_internal_descriptor\<close>),
  once.
\<close>

theorem reactor_operations_are_accounted:
  assumes "reactor_reach perf s"
  shows "started s = queued (reactor s) + held s + handed s"
  using reactor_invD(4) reach_inv [OF assms] by blast

text \<open>
  Property C19. No operation is forgotten while a thread is in \<^verbatim>\<open>select\<close>: a descriptor with waiting operations is in the set
  of their kind, or the interrupter was written since the sets were made and its descriptor is in the set for
  reading (if it fits one), so that \<^verbatim>\<open>select\<close> returns.
\<close>

theorem waiting_descriptors_are_watched:
  assumes "reactor_reach perf s" "in_select s = Some ops" "i < max_ops" "waiting (reactor s) i d \<noteq> []"
  shows "d \<in> fd_set (fd_sets (reactor s) ! i)
    \<or> pipe s \<and> (read_descriptor (reactor s) < FD_SETSIZE
        \<longrightarrow> read_descriptor (reactor s) \<in> fd_set (fd_sets (reactor s) ! read_op))"
  using reach_inv [OF assms(1)] assms(2-4) unfolding watched_def by simp

text \<open>
  Property C23. The first half of \<^verbatim>\<open>run\<close> does not fail unless the timeout overflows. It puts in each set exactly the
  descriptors that wait, with the interrupter's for reading; all of them fit a set and are below \<^verbatim>\<open>nfds\<close>. The
  operations of descriptors that fit no set are taken out, with the error. If it may not block, it returns at once when
  no descriptor and no timer waits, and else polls. If it may, then with a clock of nanoseconds the timeout does not fail
  either: it is the one asked for, at most five minutes, or the time until a timer expires if that is less; it is not
  beyond any timer of any queue that was added, except by one microsecond. This is also so when it holds operations it
  has just taken out, which are complete and wait for the end of \<^verbatim>\<open>select\<close>.
\<close>

theorem run_prepares_the_sets:
  assumes "reactor_reach perf s"
  shows "\<exists>r' failed nfds. prepared (reactor s) r' failed nfds
    \<and> timer_queues r' = timer_queues (reactor s) \<and> tq r' = tq (reactor s)
    \<and> (\<forall>pnum pden now. run_prepare pnum pden now 0 (reactor s) =
        Inr (r', failed, if (\<exists>p\<in>set (timer_queues (reactor s)). \<exists>t. pending_of (tq (reactor s) p) t \<noteq> None)
            \<or> (\<exists>i<max_ops. \<exists>d. waiting (reactor s) i d \<noteq> []) then Some (nfds, 0, 0) else None))
    \<and> (\<forall>now usec. in_time now \<and> usec \<noteq> 0 \<longrightarrow>
        (\<exists>w. run_prepare 1 1000000000 now usec (reactor s) = Inr (r', failed, Some (nfds, w div 1000000, w mod 1000000))
          \<and> waits now (\<Union>p\<in>set (timer_queues (reactor s)). expiries (tq (reactor s) p))
              (if usec < 0 \<or> 300000000 < usec then 300000000 else usec) w))
    \<and> (\<forall>pnum pden now usec res. usec \<noteq> 0 \<and> run_prepare pnum pden now usec (reactor s) = Inr res
        \<longrightarrow> (\<exists>tv. res = (r', failed, Some (nfds, tv))))"
proof -
  note inv = reach_inv [OF assms, THEN conjunct1]
  have t: "timers_inv (reactor s)" using reach_all [OF assms] by blast
  from run_prepare_spec [OF reactor_invD(1,2,3) [OF inv]] obtain r' failed nfds hw where
    p: "prepared (reactor s) r' failed nfds" "timer_queues r' = timer_queues (reactor s)" "tq r' = tq (reactor s)"
      "hw = (\<not> tqs_all_empty (reactor s) \<or> (\<exists>i<max_ops. \<exists>d. waiting (reactor s) i d \<noteq> []))"
    and run: "\<And>pnum pden now usec. run_prepare pnum pden now usec (reactor s) =
        (if usec = 0 \<and> \<not> hw then Inr (r', failed, None)
         else if usec = 0 then Inr (r', failed, Some (nfds, 0, 0))
         else and_then (get_timeout pnum pden now usec r') (\<lambda>tv. Inr (r', failed, Some (nfds, tv))))" by blast
  have hw: "hw = ((\<exists>p\<in>set (timer_queues (reactor s)). \<exists>t. pending_of (tq (reactor s) p) t \<noteq> None)
      \<or> (\<exists>i<max_ops. \<exists>d. waiting (reactor s) i d \<noteq> []))"
    unfolding p(4) tqs_all_empty_def using good_empty [OF timers_good [OF t]] by simp
  have polls: "run_prepare pnum pden now 0 (reactor s) = Inr (r', failed, if hw then Some (nfds, 0, 0) else None)"
    for pnum pden now
    unfolding run by simp
  have waiting: "\<exists>w. run_prepare 1 1000000000 now usec (reactor s) = Inr (r', failed, Some (nfds, w div 1000000, w mod 1000000))
      \<and> waits now (\<Union>p\<in>set (timer_queues (reactor s)). expiries (tq (reactor s) p))
          (if usec < 0 \<or> 300000000 < usec then 300000000 else usec) w" if "in_time now" "usec \<noteq> 0" for now usec
  proof -
    let ?bound = "if usec < 0 \<or> 300000000 < usec then 300000000 else usec"
    have u: "usec \<noteq> 0" "0 \<le> ?bound" using that(2) by simp_all
    have "\<forall>q\<in>set (map (tq r') (timer_queues r')). tq_good q" using timers_good [OF t] p(3) by simp
    from tqs_wait_spec [OF this that(1) u(2)] obtain w where
      w: "tqs_wait_usec 1 1000000000 now ?bound (map (tq r') (timer_queues r')) = Inr w"
        "waits now (\<Union>q\<in>set (map (tq r') (timer_queues r')). expiries q) ?bound w" by blast
    have "get_timeout 1 1000000000 now usec r' = Inr (w div 1000000, w mod 1000000)"
      using w(1) by (simp add: get_timeout_def)
    then show ?thesis using w(2) u(1) unfolding run by (intro exI [of _ w]) (simp add: p(2,3))
  qed
  have same: "\<exists>tv. res = (r', failed, Some (nfds, tv))"
    if "usec \<noteq> 0" "run_prepare pnum pden now usec (reactor s) = Inr res" for pnum pden now usec res
    using that unfolding run by (auto simp: and_then_Inr_iff)
  show ?thesis
  proof (rule exI [of _ r'], rule exI [of _ failed], rule exI [of _ nfds], intro conjI allI impI)
    fix pnum pden now
    show "run_prepare pnum pden now 0 (reactor s) =
        Inr (r', failed, if (\<exists>p\<in>set (timer_queues (reactor s)). \<exists>t. pending_of (tq (reactor s) p) t \<noteq> None)
            \<or> (\<exists>i<max_ops. \<exists>d. waiting (reactor s) i d \<noteq> []) then Some (nfds, 0, 0) else None)"
      unfolding hw [symmetric] by (rule polls)
  next
    fix now usec :: int
    assume "in_time now \<and> usec \<noteq> 0"
    then show "\<exists>w. run_prepare 1 1000000000 now usec (reactor s) = Inr (r', failed, Some (nfds, w div 1000000, w mod 1000000))
        \<and> waits now (\<Union>p\<in>set (timer_queues (reactor s)). expiries (tq (reactor s) p))
            (if usec < 0 \<or> 300000000 < usec then 300000000 else usec) w" using waiting by blast
  next
    fix pnum pden now usec :: int and res
    assume "usec \<noteq> 0 \<and> run_prepare pnum pden now usec (reactor s) = Inr res"
    then show "\<exists>tv. res = (r', failed, Some (nfds, tv))" using same by blast
  qed (rule p(1), rule p(2), rule p(3))
qed

text \<open>
  Property C21. When \<^verbatim>\<open>select\<close> has returned and the interrupter is reset, the rest of \<^verbatim>\<open>run\<close> performs, if descriptors
  other than the interrupter's are ready, the operations of the ready ones and no others: the queues for exceptions
  first, then writing, then reading, each descriptor's operations in order up to the first that is not finished, from the
  states that the operations before have left. It hands over what it already had, the finished operations in that order,
  and the operations of exactly the expired timers of every queue that was added, queue after queue, the earliest timer
  first; the other operations and timers stay where they were.
\<close>

theorem run_performs_what_is_ready:
  assumes "reactor_reach perf s" "returned s = Some (retval, failed, ops)"
    and "\<forall>q\<in>set (op_queues (reactor s)). watchable q"
  shows "\<exists>b r' w' outs us. interrupter_ready retval (reactor s) = Inr b
    \<and> run_dispatch now perf retval (if failed then Some rd else None) ops (reactor s, world s) =
        Some (Inr (r', w', map ReactorOp (ops @ concat (rev outs))
          @ map TimerOp (expired_ops (reactor s) (timer_queues (reactor s)) us)))
    \<and> (if (if b then retval - 1 else retval) > 0 then performed perf (reactor s) (world s) r' w' outs
       else outs = [] \<and> waiting r' = waiting (reactor s) \<and> sr_ops r' = sr_ops (reactor s) \<and> w' = world s)
    \<and> (\<forall>p\<in>set (timer_queues (reactor s)). expired now (tq (reactor s) p) (us p))
    \<and> timers_left now (reactor s) (set (timer_queues (reactor s))) r'
    \<and> read_descriptor r' = (if failed then rd else read_descriptor (reactor s))"
proof -
  note all = reach_all [OF assms(1)]
  let ?r = "reactor s"
  obtain b where b: "interrupter_ready retval ?r = Inr b" "failed \<longrightarrow> b"
    using all assms(2) unfolding answered_def by auto
  let ?go = "(if b then retval - 1 else retval) > 0"
  let ?r1 = "if failed then ?r\<lparr>read_descriptor := rd\<rparr> else ?r"
  have r1: "(case (if failed then Some rd else None) of
        Some rd \<Rightarrow> if b then ?r\<lparr>read_descriptor := rd\<rparr> else ?r | None \<Rightarrow> ?r) = ?r1"
    using b(2) by simp
  have inv: "sr_inv ?r" and t: "timers_inv ?r" using all by (simp_all add: reactor_inv_def)
  have timers: "\<exists>us r'. tqs_ready now (timer_queues ?r) ([], ?r1\<lparr>op_queues := qs, sr_ops := st\<rparr>) =
        Some (expired_ops ?r (timer_queues ?r) us, r')
      \<and> (\<forall>p\<in>set (timer_queues ?r). expired now (tq ?r p) (us p)) \<and> timers_left now ?r (set (timer_queues ?r)) r'
      \<and> op_queues r' = qs \<and> sr_ops r' = st \<and> read_descriptor r' = read_descriptor ?r1" for qs st
  proof -
    let ?r2 = "?r1\<lparr>op_queues := qs, sr_ops := st\<rparr>"
    have f: "tq ?r2 = tq ?r" by simp
    have "\<forall>p. tq_good (tq ?r2 p)" "distinct (timer_queues ?r)" using t by (simp_all add: timers_inv_def)
    from tqs_ready_spec [OF this, of now "[]"] obtain us r' where
      u: "tqs_ready now (timer_queues ?r) ([], ?r2) = Some ([] @ expired_ops ?r2 (timer_queues ?r) us, r')"
        "\<forall>p\<in>set (timer_queues ?r). expired now (tq ?r2 p) (us p)" "timers_left now ?r2 (set (timer_queues ?r)) r'" by blast
    have "expired_ops ?r2 = expired_ops ?r" "timers_left now ?r2 = timers_left now ?r"
      by (simp_all only: expired_ops_def [abs_def] timers_left_def [abs_def] f)
    with u tqs_ready_frame [OF u(1)] f show ?thesis
      by (intro exI [of _ us] exI [of _ r']) simp
  qed
  show ?thesis
  proof (cases ?go)
    case True
    from perform_reactor [OF inv assms(3), of perf "world s" ops] obtain qs st' w' outs where
      p: "perform_queues perf (zip (op_queues ?r) (fd_sets ?r)) (sr_ops ?r, world s, ops) = Inr (qs, st', w', ops @ concat (rev outs))"
      and l: "performed perf ?r (world s) (?r\<lparr>op_queues := qs, sr_ops := st'\<rparr>) w' outs" unfolding Let_def by blast
    from timers [where qs = qs and st = st'] obtain us r' where
      u: "tqs_ready now (timer_queues ?r) ([], ?r1\<lparr>op_queues := qs, sr_ops := st'\<rparr>) =
          Some (expired_ops ?r (timer_queues ?r) us, r')"
        "\<forall>p\<in>set (timer_queues ?r). expired now (tq ?r p) (us p)" "timers_left now ?r (set (timer_queues ?r)) r'"
        "op_queues r' = qs" "sr_ops r' = st'" "read_descriptor r' = read_descriptor ?r1" by blast
    have "performed perf ?r (world s) r' w' outs"
      by (rule performed_frame [OF l]) (simp_all add: waiting_def fun_eq_iff u(4,5))
    moreover have "run_dispatch now perf retval (if failed then Some rd else None) ops (?r, world s) =
        Some (Inr (r', w', map ReactorOp (ops @ concat (rev outs)) @ map TimerOp (expired_ops ?r (timer_queues ?r) us)))"
      unfolding run_dispatch_unfold b(1) using p u(1) True r1 by (simp add: Let_def)
    ultimately show ?thesis using True b(1) u(2,3,6)
      by (intro exI [of _ b] exI [of _ r'] exI [of _ w'] exI [of _ outs] exI [of _ us]) simp
  next
    case False
    from timers [where qs = "op_queues ?r" and st = "sr_ops ?r"] obtain us r' where
      u: "tqs_ready now (timer_queues ?r) ([], ?r1\<lparr>op_queues := op_queues ?r, sr_ops := sr_ops ?r\<rparr>) =
          Some (expired_ops ?r (timer_queues ?r) us, r')"
        "\<forall>p\<in>set (timer_queues ?r). expired now (tq ?r p) (us p)" "timers_left now ?r (set (timer_queues ?r)) r'"
        "op_queues r' = op_queues ?r" "sr_ops r' = sr_ops ?r" "read_descriptor r' = read_descriptor ?r1" by blast
    have "waiting r' = waiting ?r" by (simp add: waiting_def fun_eq_iff u(4))
    moreover have "run_dispatch now perf retval (if failed then Some rd else None) ops (?r, world s) =
        Some (Inr (r', world s, map ReactorOp (ops @ concat (rev [])) @ map TimerOp (expired_ops ?r (timer_queues ?r) us)))"
      unfolding run_dispatch_unfold b(1) using u(1) False r1 by (simp add: Let_def)
    ultimately show ?thesis using False b(1) u(2,3,5,6)
      by (intro exI [of _ b] exI [of _ r'] exI [of _ "world s"] exI [of _ "[]"] exI [of _ us]) simp
  qed
qed

text \<open>
  Property C22. A descriptor that fits no set, if an operation is started on it while a thread is in \<^verbatim>\<open>select\<close>, makes that
  thread read outside the set when it dispatches, if \<^verbatim>\<open>select\<close> returned with another descriptor than the interrupter's ready: the adapter tests every descriptor of the queue, without the test of its
  size that setting it has.
\<close>

theorem late_descriptor_overruns_the_set:
  assumes "reactor_reach perf s" "length rdy = max_ops"
    and "interrupter_ready retval (with_sets rdy (reactor s)) = Inr b" "(if b then retval - 1 else retval) > 0"
    and "i < max_ops" "waiting (reactor s) i d \<noteq> []" "FD_SETSIZE \<le> d"
  shows "run_dispatch now perf retval recreated ops (with_sets rdy (reactor s), world s) =
    Some (Inl UndefinedBehaviour)"
proof -
  let ?r = "with_sets rdy (reactor s)"
  have si: "sr_inv (reactor s)" using reach_inv [OF assms(1)] by (simp add: reactor_inv_def)
  have inv: "sr_inv ?r" by (rule with_sets_inv [OF si assms(2)])
  have "op_queues (reactor s) ! i \<in> set (op_queues ?r)" using si assms(5) by (simp add: sr_inv_def)
  moreover have "\<not> watchable (op_queues (reactor s) ! i)"
    using assms(6,7) by (auto simp: watchable_def waiting_def not_less)
  ultimately have "\<exists>(q, f)\<in>set (zip (op_queues ?r) (fd_sets ?r)). \<not> watchable q"
    unfolding zip_queues(2) [OF inv] by blast
  then have "perform_queues perf (zip (op_queues ?r) (fd_sets ?r)) (sr_ops ?r, world s, ops) = Inl UndefinedBehaviour"
    by (rule perform_queues_overrun [OF zip_queues(1) [OF inv]])
  then show ?thesis
    unfolding run_dispatch_unfold assms(3) using assms(4) by (simp add: Let_def)
qed

text \<open>
  Cancelling takes the operations of the descriptor from the three queues, reading before writing before exceptions, each
  with the error, and posts them; the other descriptors keep theirs. The interrupter is written if any was taken.
\<close>

theorem cancel_takes_a_descriptors_operations:
  assumes "reactor_reach perf s"
  shows "\<exists>r' out. cancel_ops d (reactor s) =
      Inr (r', PostDeferred (map ReactorOp out) # (if out \<noteq> [] then [Interrupt] else []))
    \<and> out = waiting (reactor s) read_op d @ waiting (reactor s) write_op d @ waiting (reactor s) except_op d
    \<and> (\<forall>i<max_ops. waiting r' i = (waiting (reactor s) i)(d := []))
    \<and> sr_ops r' = with_error OperationAborted (set out) (sr_ops (reactor s))"
proof -
  let ?r = "reactor s"
  have inv: "sr_inv ?r" "\<forall>q\<in>set (op_queues ?r). nonnegative q"
    using reach_inv [OF assms] by (simp_all add: reactor_inv_def)
  from cancel_queues_reactor [OF inv, of d OperationAborted] obtain qs out where
    c: "cancel_queues d OperationAborted (op_queues ?r) (sr_ops ?r, [], False) =
        Inr (qs, with_error OperationAborted (set out) (sr_ops ?r), out, out \<noteq> [])"
      "out = concat (map (\<lambda>i. waiting ?r i d) [0..<max_ops])"
    and r: "\<forall>st. let r' = ?r\<lparr>op_queues := qs, sr_ops := st\<rparr> in
        sr_inv r' \<and> (\<forall>q\<in>set (op_queues r'). nonnegative q) \<and> queued ?r = queued r' + mset out
        \<and> (\<forall>i<max_ops. waiting r' i = (waiting ?r i)(d := []))" by blast
  let ?r' = "?r\<lparr>op_queues := qs, sr_ops := with_error OperationAborted (set out) (sr_ops ?r)\<rparr>"
  have "cancel_ops d ?r = Inr (?r', PostDeferred (map ReactorOp out) # (if out \<noteq> [] then [Interrupt] else []))"
    using c(1) by (simp add: cancel_ops_def cancel_ops_unlocked_def)
  moreover have "out = waiting ?r read_op d @ waiting ?r write_op d @ waiting ?r except_op d"
    unfolding c(2) by (simp add: max_ops_def read_op_def write_op_def except_op_def upt_rec numeral_2_eq_2)
  moreover have "\<forall>i<max_ops. waiting ?r' i = (waiting ?r i)(d := [])"
    using spec [OF r, of "with_error OperationAborted (set out) (sr_ops ?r)"] unfolding Let_def by blast
  ultimately show ?thesis by (intro exI [of _ ?r'] exI [of _ out]) simp
qed


section \<open>Concrete runs\<close>

text \<open>
  A reactor with a timer that expires after five microseconds and an operation to write on descriptor 7, in
  \<^verbatim>\<open>select\<close>; then another one started on 2000, or \<^verbatim>\<open>select\<close> returns with 7 ready.
\<close>

definition demo_perform :: "unit perform_func" where
  "demo_perform op = (\<lambda>(o', w). (Done, o', w))"

lemma start_op_waits:
  assumes "reactor_inv s" "\<not> sr_shutdown (reactor s)" "i < max_ops" "0 \<le> d"
  shows "\<exists>r calls. start_op i d op c (reactor s) = Inr (r, calls)
    \<and> waiting r = (\<lambda>j e. if j = i \<and> e = d then waiting (reactor s) i d @ [op] else waiting (reactor s) j e)
    \<and> same_timers (reactor s) r
    \<and> fd_sets r = fd_sets (reactor s) \<and> read_descriptor r = read_descriptor (reactor s)"
proof -
  from enqueue_queued [OF reactor_invD(1,2) [OF assms(1)] assms(3,4), of op] obtain q where
    q: "enqueue_operation fd_hash d op (op_queues (reactor s) ! i) = Inr (q, waiting (reactor s) i d = [])"
      "rq_table q = (rq_table (op_queues (reactor s) ! i))(d := waiting (reactor s) i d @ [op])" by blast
  have lt: "i < length (op_queues (reactor s))" using reactor_invD(1) [OF assms(1)] assms(3) by (simp add: sr_inv_def)
  have "waiting (upd_queue i q (reactor s)) j e =
      (if j = i \<and> e = d then waiting (reactor s) i d @ [op] else waiting (reactor s) j e)" for j e
    using lt q(2) by (cases "j = i") (auto simp: waiting_def upd_queue_def)
  then show ?thesis
    using q(1) assms(2) by (simp add: start_op_def fun_eq_iff) (simp add: upd_queue_def same_timers_def)
qed

definition demo_timers :: "select_reactor \<Rightarrow> bool" where
  "demo_timers r \<longleftrightarrow> timer_queues r = [0] \<and> \<not> sr_shutdown r
     \<and> pending_of (tq r 0) = (\<lambda>t. if t = 3 then Some (Some 5000, [demo_op 1]) else None)"

lemma demo_timers_same: "same_timers r r' \<Longrightarrow> demo_timers r \<Longrightarrow> demo_timers r'"
  by (simp add: same_timers_def demo_timers_def)

lemma demo_timed:
  "\<exists>s. reactor_reach demo_perform s \<and> in_select s = None \<and> returned s = None \<and> demo_timers (reactor s)
    \<and> read_descriptor (reactor s) = 4 \<and> (\<forall>i<max_ops. \<forall>d. waiting (reactor s) i d = [])"
proof -
  let ?s0 = "first_world (\<lambda>_. new_reactor_op NoError) 4 ()"
  have r0: "reactor_reach demo_perform ?s0" by (rule initial) simp
  let ?s1 = "?s0\<lparr>reactor := tqs_insert 0 (reactor ?s0)\<rparr>"
  have r1: "reactor_reach demo_perform ?s1"
    by (rule step [OF r0 AddTimerQueue]) (simp_all add: first_world_def new_select_reactor_def)
  have e1: "tq (reactor ?s1) 0 = new_timer_queue" "timer_queues (reactor ?s1) = [0]" "\<not> sr_shutdown (reactor ?s1)"
    by (simp_all add: first_world_def new_select_reactor_def tqs_insert_def)
  let ?s2 = "after_call (schedule_timer (\<lambda>_. False) 0 5000 3 (demo_op 1) (reactor ?s1)) ?s1"
  have n: "length (heap (tq (reactor ?s1) 0)) < no_index" "op_id (demo_op 1) \<notin> op_id ` set (tops (per_timer (tq (reactor ?s1) 0) 3))"
    "in_time 5000"
    unfolding e1 by (simp_all add: new_timer_queue_def new_timer_data_def no_index_def in_time_def time_min_def time_max_def)
  have r2: "reactor_reach demo_perform ?s2"
    by (rule step [OF r1 ScheduleTimer [OF _ n]]) (unfold e1(2), simp)
  obtain ts where ok: "tq_ok new_timer_queue ts" using new_good(2) by (auto simp: tq_sound_def)
  have "pending_of new_timer_queue = (\<lambda>_. None)"
    by (simp add: pending_of_def new_timer_queue_def new_timer_data_def fun_eq_iff)
  with enqueue_timer_refines [OF ok n(1,2) [unfolded e1], of "\<lambda>_. False" 5000]
  have p: "pending_of (snd (enqueue_timer (\<lambda>_. False) 5000 3 (demo_op 1) new_timer_queue)) =
      (\<lambda>t. if t = 3 then Some (Some 5000, [demo_op 1]) else None)"
    by (auto simp: fun_eq_iff)
  have r: "reactor ?s2 = upd_tq 0 (snd (enqueue_timer (\<lambda>_. False) 5000 3 (demo_op 1) new_timer_queue)) (reactor ?s1)"
    using e1 by (simp add: after_call_def schedule_timer_def split: prod.splits)
  have "demo_timers (reactor ?s2)"
    unfolding r demo_timers_def using p e1 by (simp add: upd_tq_def)
  moreover have "waiting (reactor ?s2) i d = []" if "i < max_ops" for i d
    unfolding r using that rq_new(2) [of "0::int"]
    by (simp add: upd_tq_def tqs_insert_def first_world_def new_select_reactor_def waiting_def)
  moreover have "read_descriptor (reactor ?s2) = 4"
    unfolding r by (simp add: upd_tq_def tqs_insert_def first_world_def new_select_reactor_def)
  moreover have "in_select ?s2 = None" "returned ?s2 = None"
    by (simp_all add: after_call_def first_world_def split: prod.splits)
  ultimately show ?thesis using r2 by blast
qed

lemma demo_in_select:
  "\<exists>s. reactor_reach demo_perform s \<and> in_select s = Some [] \<and> demo_timers (reactor s)
    \<and> read_descriptor (reactor s) = 4
    \<and> (\<forall>i<max_ops. \<forall>d. waiting (reactor s) i d = (if i = write_op \<and> d = 7 then [11] else []))
    \<and> (\<forall>i<max_ops. fd_set (fd_sets (reactor s) ! i) = (if i = read_op then {4} else if i = write_op then {7} else {}))"
proof -
  from demo_timed obtain s where s: "reactor_reach demo_perform s" "in_select s = None" "returned s = None"
    "demo_timers (reactor s)" "read_descriptor (reactor s) = 4" "\<forall>i<max_ops. \<forall>d. waiting (reactor s) i d = []" by blast
  have up: "\<not> sr_shutdown (reactor s)" using s(4) by (simp add: demo_timers_def)
  from start_op_waits [OF reach_inv [OF s(1), THEN conjunct1] up op_index(2), of 7 11 False] obtain r1 calls where
    r1: "start_op write_op 7 11 False (reactor s) = Inr (r1, calls)"
      "waiting r1 = (\<lambda>j e. if j = write_op \<and> e = 7 then waiting (reactor s) write_op 7 @ [11] else waiting (reactor s) j e)"
      "same_timers (reactor s) r1" "read_descriptor r1 = 4"
    using s(5) by auto
  let ?s1 = "after_call (r1, calls) (starting 11 s)"
  have s1: "reactor_reach demo_perform ?s1" by (rule step [OF s(1) Start [OF op_index(2) _ r1(1)]]) simp
  have e1: "reactor ?s1 = r1" "in_select ?s1 = None" "returned ?s1 = None"
    using s(2,3) by (simp_all add: after_call_def starting_def)
  have w1: "waiting r1 i d = (if i = write_op \<and> d = 7 then [11] else [])" if "i < max_ops" for i d
    using s(6) that unfolding r1(2) by simp
  from run_prepare_spec [OF reactor_invD(1,2,3) [OF reach_inv [OF s1, THEN conjunct1]]] obtain r2' failed' nfds' hw' where
    p': "prepared r1 r2' failed' nfds'" "read_descriptor r2' = read_descriptor r1" "same_timers r1 r2'"
      "hw' = (\<not> tqs_all_empty r1 \<or> (\<exists>i<max_ops. \<exists>d. waiting r1 i d \<noteq> []))"
      "run_prepare 1 1 0 0 r1 = (if \<not> hw' then Inr (r2', failed', None) else Inr (r2', failed', Some (nfds', 0, 0)))"
    unfolding e1 same_timers_def by auto
  have "waiting r1 write_op 7 \<noteq> []" using w1 [OF op_index(2), of 7] by simp
  then have hw': "hw'" unfolding p'(4) using op_index(2) by blast
  have big: "waiting r1 i d = []" if "i < max_ops" "FD_SETSIZE \<le> d" for i d
    using w1 [OF that(1), of d] that(2) by (auto simp: FD_SETSIZE_def)
  have "set failed' = {op. \<exists>i<max_ops. \<exists>d\<ge>FD_SETSIZE. op \<in> set (waiting r1 i d)}"
    using p'(1) unfolding prepared_def by blast
  also have "\<dots> = {}" using big by fastforce
  finally have run: "run_prepare 1 1 0 0 r1 = Inr (r2', [], Some (nfds', 0, 0))" using p'(5) hw' by simp
  let ?s2 = "?s1\<lparr>reactor := r2', in_select := Some []\<rparr>"
  have s2: "reactor_reach demo_perform ?s2"
    by (rule step [OF s1 Prepare [OF e1(2,3)]]) (use run e1 in simp)
  have w2: "waiting r2' i d = (if i = write_op \<and> d = 7 then [11] else [])" if "i < max_ops" for i d
  proof -
    have "waiting r2' i d = (if FD_SETSIZE \<le> d then [] else waiting r1 i d)"
      using p'(1) that unfolding prepared_def by blast
    then show ?thesis using w1 [OF that, of d] by (auto simp: FD_SETSIZE_def)
  qed
  have f2: "fd_set (fd_sets r2' ! i) = (if i = read_op then {4} else if i = write_op then {7} else {})" if "i < max_ops" for i
  proof -
    have "fd_set (fd_sets r2' ! i) = {d. waiting r2' i d \<noteq> []}
        \<union> (if i = read_op \<and> read_descriptor r1 < FD_SETSIZE then {read_descriptor r1} else {})"
      using p'(1) that unfolding prepared_def by blast
    then show ?thesis
      using w2 [OF that] r1(4) by (auto simp: FD_SETSIZE_def read_op_def write_op_def)
  qed
  have "demo_timers r2'" by (rule demo_timers_same [OF p'(3) demo_timers_same [OF r1(3) s(4)]])
  then show ?thesis
    by (intro exI [of _ ?s2]) (use s2 p' r1 w2 f2 in simp)
qed

lemma demo_late:
  "\<exists>s. reactor_reach demo_perform s \<and> in_select s = Some [] \<and> read_descriptor (reactor s) = 4
    \<and> demo_timers (reactor s) \<and> waiting (reactor s) write_op 2000 = [12] \<and> fd_set (fd_sets (reactor s) ! write_op) = {7}"
proof -
  from demo_in_select obtain s where s: "reactor_reach demo_perform s" "in_select s = Some []"
    "demo_timers (reactor s)" "read_descriptor (reactor s) = 4"
    "\<forall>i<max_ops. \<forall>d. waiting (reactor s) i d = (if i = write_op \<and> d = 7 then [11] else [])"
    "\<forall>i<max_ops. fd_set (fd_sets (reactor s) ! i) = (if i = read_op then {4} else if i = write_op then {7} else {})"
    by blast
  have up: "\<not> sr_shutdown (reactor s)" using s(3) by (simp add: demo_timers_def)
  from start_op_waits [OF reach_inv [OF s(1), THEN conjunct1] up op_index(2), of 2000 12 False] obtain r calls where
    r: "start_op write_op 2000 12 False (reactor s) = Inr (r, calls)"
      "waiting r = (\<lambda>j e. if j = write_op \<and> e = 2000 then waiting (reactor s) write_op 2000 @ [12] else waiting (reactor s) j e)"
      "fd_sets r = fd_sets (reactor s)" "read_descriptor r = read_descriptor (reactor s)" "same_timers (reactor s) r"
    by auto
  let ?s = "after_call (r, calls) (starting 12 s)"
  have "reactor_reach demo_perform ?s" by (rule step [OF s(1) Start [OF op_index(2) _ r(1)]]) simp
  moreover have "reactor ?s = r" "in_select ?s = Some []" using s(2) by (simp_all add: after_call_def starting_def)
  ultimately show ?thesis
    using s(4,5,6) r(2,3,4) demo_timers_same [OF r(5) s(3)] op_index
    by (intro exI [of _ ?s]) (simp add: read_op_def write_op_def)
qed

text \<open>\<^verbatim>\<open>select\<close> returns with the descriptor 7 ready to write.\<close>

lemma demo_returned:
  "\<exists>s. reactor_reach demo_perform s \<and> returned s = Some (1, False, []) \<and> demo_timers (reactor s)
    \<and> read_descriptor (reactor s) = 4
    \<and> (\<forall>i<max_ops. \<forall>d. waiting (reactor s) i d = (if i = write_op \<and> d = 7 then [11] else []))
    \<and> (\<forall>i<max_ops. fd_set (fd_sets (reactor s) ! i) = (if i = write_op then {7} else {}))"
proof -
  from demo_in_select obtain s where s: "reactor_reach demo_perform s" "in_select s = Some []"
    "demo_timers (reactor s)" "read_descriptor (reactor s) = 4"
    "\<forall>i<max_ops. \<forall>d. waiting (reactor s) i d = (if i = write_op \<and> d = 7 then [11] else [])"
    "\<forall>i<max_ops. fd_set (fd_sets (reactor s) ! i) = (if i = read_op then {4} else if i = write_op then {7} else {})"
    by blast
  have si: "sr_inv (reactor s)" using reach_inv [OF s(1)] by (simp add: reactor_inv_def)
  let ?rdy = "[{}, {7}, {}] :: int set list"
  have l: "length ?rdy = max_ops" by (simp add: max_ops_def)
  have rdy: "?rdy ! i = (if i = write_op then {7} else {})" if "i < max_ops" for i
    using that by (auto simp: max_ops_def write_op_def nth_Cons' numeral_3_eq_3)
  have sub: "\<forall>i<max_ops. ?rdy ! i \<subseteq> fd_set (fd_sets (reactor s) ! i)"
    using rdy s(6) by (auto simp: read_op_def write_op_def)
  have r: "interrupter_ready 1 (with_sets ?rdy (reactor s)) = Inr False"
    using with_sets_nth [OF si l op_index(1)] s(4)
    by (simp add: interrupter_ready_def fd_is_set_def FD_SETSIZE_def read_op_def)
  let ?s = "s\<lparr>reactor := with_sets ?rdy (reactor s), in_select := None, returned := Some (1, False, []),
      pipe := pipe s \<and> \<not> (False \<and> \<not> False)\<rparr>"
  have "reactor_reach demo_perform ?s"
    by (rule step [OF s(1) SelectReturns [OF s(2) l sub _ r]]) (simp_all add: read_op_def)
  moreover have "demo_timers (with_sets ?rdy (reactor s))"
    by (rule demo_timers_same [OF same_timers_ops(6) s(3)])
  moreover have "\<forall>i<max_ops. fd_set (fd_sets (with_sets ?rdy (reactor s)) ! i) = (if i = write_op then {7} else {})"
    using with_sets_nth [OF si l] rdy by simp
  ultimately show ?thesis using s(4,5) by (intro exI [of _ ?s]) simp
qed

lemma reactor_operations_are_accounted_witness:
  "\<exists>s. reactor_reach demo_perform s \<and> in_select s = Some [] \<and> started s = queued (reactor s) + held s + handed s"
  using demo_in_select reactor_operations_are_accounted by blast

lemma waiting_descriptors_are_watched_witness:
  "\<exists>s. reactor_reach demo_perform s \<and> waiting (reactor s) write_op 2000 = [12]
    \<and> 2000 \<notin> fd_set (fd_sets (reactor s) ! write_op) \<and> pipe s"
proof -
  from demo_late obtain s where s: "reactor_reach demo_perform s" "in_select s = Some []"
    "waiting (reactor s) write_op 2000 = [12]" "fd_set (fd_sets (reactor s) ! write_op) = {7}" by blast
  have "waiting (reactor s) write_op 2000 \<noteq> []" using s(3) by simp
  from waiting_descriptors_are_watched [OF s(1,2) op_index(2) this] show ?thesis using s by auto
qed

lemma run_prepares_the_sets_witness:
  "\<exists>s r failed nfds. reactor_reach demo_perform s \<and> waiting (reactor s) write_op 2000 = [12]
    \<and> prepared (reactor s) r failed nfds \<and> 12 \<in> set failed
    \<and> run_prepare 1 1000000000 0 (- 1) (reactor s) = Inr (r, failed, Some (nfds, 0, 5))"
proof -
  from demo_late obtain s where s: "reactor_reach demo_perform s" "demo_timers (reactor s)"
    "waiting (reactor s) write_op 2000 = [12]" by blast
  have in_time: "in_time 0" by (simp add: in_time_def time_min_def time_max_def)
  from run_prepares_the_sets [OF s(1)] obtain r failed nfds where
    p: "prepared (reactor s) r failed nfds"
      "\<forall>now usec. in_time now \<and> usec \<noteq> 0 \<longrightarrow>
        (\<exists>w. run_prepare 1 1000000000 now usec (reactor s) = Inr (r, failed, Some (nfds, w div 1000000, w mod 1000000))
          \<and> waits now (\<Union>p\<in>set (timer_queues (reactor s)). expiries (tq (reactor s) p))
              (if usec < 0 \<or> 300000000 < usec then 300000000 else usec) w)" by blast
  have e: "(\<Union>p\<in>set (timer_queues (reactor s)). expiries (tq (reactor s) p)) = {5000}"
    using s(2) by (simp add: demo_timers_def expiries_def)
  from p(2) [rule_format, of 0 "- 1"] in_time obtain w where
    w: "run_prepare 1 1000000000 0 (- 1) (reactor s) = Inr (r, failed, Some (nfds, w div 1000000, w mod 1000000))"
      "waits 0 {5000} 300000000 w" unfolding e by auto
  have "wait_of 0 5000 = 5" by (simp add: wait_of_def saturate_def time_min_def time_max_def)
  then have "w = 5" using w(2) by (auto simp: waits_def)
  have "set failed = {op. \<exists>i<max_ops. \<exists>d\<ge>FD_SETSIZE. op \<in> set (waiting (reactor s) i d)}"
    using p(1) unfolding prepared_def by blast
  moreover have "FD_SETSIZE \<le> 2000" "12 \<in> set (waiting (reactor s) write_op 2000)"
    using s(3) by (simp_all add: FD_SETSIZE_def)
  ultimately have "12 \<in> set failed" using op_index(2) by blast
  then show ?thesis using s(1,3) p(1) w(1) \<open>w = 5\<close> by auto
qed

lemma run_performs_what_is_ready_witness:
  "\<exists>s r w outs. reactor_reach demo_perform s \<and> returned s = Some (1, False, [])
    \<and> run_dispatch 6000 demo_perform 1 None [] (reactor s, world s) =
        Some (Inr (r, w, map ReactorOp (concat (rev outs)) @ [TimerOp (demo_op 1)]))
    \<and> performed demo_perform (reactor s) (world s) r w outs \<and> pending_of (tq r 0) = (\<lambda>_. None)"
proof -
  from demo_returned obtain s where s: "reactor_reach demo_perform s" "returned s = Some (1, False, [])"
    "demo_timers (reactor s)" "read_descriptor (reactor s) = 4"
    "\<forall>i<max_ops. \<forall>d. waiting (reactor s) i d = (if i = write_op \<and> d = 7 then [11] else [])"
    "\<forall>i<max_ops. fd_set (fd_sets (reactor s) ! i) = (if i = write_op then {7} else {})" by blast
  have si: "sr_inv (reactor s)" using reach_inv [OF s(1)] by (simp add: reactor_inv_def)
  have w: "\<forall>q\<in>set (op_queues (reactor s)). watchable q"
  proof
    fix q
    assume "q \<in> set (op_queues (reactor s))"
    then obtain i where "i < max_ops" "q = op_queues (reactor s) ! i"
      using set_nth_ex [of "op_queues (reactor s)" max_ops] si by (auto simp: sr_inv_def)
    then show "watchable q" using s(5) by (auto simp: watchable_def waiting_def FD_SETSIZE_def)
  qed
  have b: "interrupter_ready 1 (reactor s) = Inr False"
    using s(4,6) op_index(1) by (simp add: interrupter_ready_def fd_is_set_def FD_SETSIZE_def read_op_def write_op_def)
  have tqs: "timer_queues (reactor s) = [0]"
    and pend: "pending_of (tq (reactor s) 0) = (\<lambda>t. if t = 3 then Some (Some 5000, [demo_op 1]) else None)"
    using s(3) by (simp_all add: demo_timers_def)
  from run_performs_what_is_ready [OF s(1,2) w, of 6000 0] b obtain r' w' outs us where
    d: "run_dispatch 6000 demo_perform 1 None [] (reactor s, world s) =
      Some (Inr (r', w', map ReactorOp ([] @ concat (rev outs)) @ map TimerOp (expired_ops (reactor s) [0] us)))"
      "performed demo_perform (reactor s) (world s) r' w' outs" "expired 6000 (tq (reactor s) 0) (us 0)"
      "timers_left 6000 (reactor s) {0} r'" unfolding tqs by auto
  have ready: "ready 6000 (tq (reactor s) 0) = {3}" by (auto simp: ready_def pend)
  then have "set (us 0) = {3}" "distinct (us 0)" using d(3) by (simp_all add: expired_def)
  moreover from this have "length (us 0) = 1" using distinct_card [of "us 0"] by simp
  ultimately have "us 0 = [3]" by (cases "us 0") auto
  then have "expired_ops (reactor s) [0] us = [demo_op 1]"
    by (simp add: expired_ops_def ops_of_def pend succeed_def demo_op_def)
  moreover have "pending_of (tq r' 0) = (\<lambda>_. None)"
    using d(4) ready pend by (simp add: timers_left_def fun_eq_iff)
  ultimately show ?thesis using s(1,2) d(1,2) by (intro exI [of _ s]) auto
qed

lemma late_descriptor_overruns_the_set_witness:
  "\<exists>s. reactor_reach demo_perform s \<and> in_select s = Some []
    \<and> run_dispatch 0 demo_perform 1 None [] (with_sets [{}, {7}, {}] (reactor s), world s) =
        Some (Inl UndefinedBehaviour)"
proof -
  from demo_late obtain s where s: "reactor_reach demo_perform s" "in_select s = Some []"
    "read_descriptor (reactor s) = 4" "waiting (reactor s) write_op 2000 = [12]" by blast
  have si: "sr_inv (reactor s)" using reach_inv [OF s(1)] by (simp add: reactor_inv_def)
  let ?rdy = "[{}, {7}, {}] :: int set list"
  have l: "length ?rdy = max_ops" by (simp add: max_ops_def)
  have r: "interrupter_ready 1 (with_sets ?rdy (reactor s)) = Inr False"
    using with_sets_nth [OF si l op_index(1)] s(3)
    by (simp add: interrupter_ready_def fd_is_set_def FD_SETSIZE_def read_op_def)
  have "waiting (reactor s) write_op 2000 \<noteq> []" "FD_SETSIZE \<le> 2000" using s(4) by (simp_all add: FD_SETSIZE_def)
  from late_descriptor_overruns_the_set [OF s(1) l r _ op_index(2) this, of 0 None "[]"] show ?thesis
    using s(1,2) by auto
qed

lemma cancel_takes_a_descriptors_operations_witness:
  "\<exists>s r. reactor_reach demo_perform s
    \<and> cancel_ops 7 (reactor s) = Inr (r, [PostDeferred [ReactorOp 11], Interrupt]) \<and> waiting r write_op 7 = []"
proof -
  from demo_in_select obtain s where s: "reactor_reach demo_perform s"
    "\<forall>i<max_ops. \<forall>d. waiting (reactor s) i d = (if i = write_op \<and> d = 7 then [11] else [])" by blast
  from cancel_takes_a_descriptors_operations [OF s(1), of 7] obtain r out where
    c: "cancel_ops 7 (reactor s) = Inr (r, PostDeferred (map ReactorOp out) # (if out \<noteq> [] then [Interrupt] else []))"
      "out = waiting (reactor s) read_op 7 @ waiting (reactor s) write_op 7 @ waiting (reactor s) except_op 7"
      "\<forall>i<max_ops. waiting r i = (waiting (reactor s) i)(7 := [])" by blast
  have "out = [11]" unfolding c(2) using s(2) by (simp add: read_op_def write_op_def except_op_def max_ops_def)
  moreover have "waiting r write_op 7 = []" using c(3) op_index(2) by simp
  ultimately show ?thesis using s(1) c(1) by auto
qed

end
