(* ===== verification/Addresses.thy ===== *)
theory Addresses
  imports Commands
begin

unbundle bit_operations_syntax

text \<open>
  The addresses of \<^verbatim>\<open>asio::ip\<close>: \<^verbatim>\<open>address_v4\<close>, \<^verbatim>\<open>address_v6\<close>, \<^verbatim>\<open>address\<close>, the iterators over addresses and their ranges.
  An IPv4 address is the four bytes of \<^verbatim>\<open>s_addr\<close> as they are in memory, an IPv6 address the sixteen of \<^verbatim>\<open>s6_addr\<close>; both
  are in network order, the first byte the most significant.
\<close>

section \<open>IPv4\<close>

definition host_to_network_long :: "u32 \<Rightarrow> bytes" where
  "host_to_network_long v =
     [ucast (drop_bit 24 v AND 0xFF), ucast (drop_bit 16 v AND 0xFF), ucast (drop_bit 8 v AND 0xFF), ucast (v AND 0xFF)]"

definition network_to_host_long :: "bytes \<Rightarrow> u32" where
  "network_to_host_long value_p =
     push_bit 24 (ucast (value_p ! 0)) OR push_bit 16 (ucast (value_p ! 1)) OR push_bit 8 (ucast (value_p ! 2))
       OR ucast (value_p ! 3)"

record address_v4 =
  s_addr :: bytes

definition new_v4 :: address_v4 where
  "new_v4 = \<lparr>s_addr = [0, 0, 0, 0]\<rparr>"

definition v4_of_bytes :: "bytes \<Rightarrow> address_v4" where
  "v4_of_bytes bs = \<lparr>s_addr = bs\<rparr>"

definition v4_of_uint :: "u32 \<Rightarrow> address_v4" where
  "v4_of_uint a = \<lparr>s_addr = host_to_network_long a\<rparr>"

definition v4_to_bytes :: "address_v4 \<Rightarrow> bytes" where
  "v4_to_bytes a = s_addr a"

definition to_uint :: "address_v4 \<Rightarrow> u32" where
  "to_uint a = network_to_host_long (s_addr a)"

definition v4_is_loopback :: "address_v4 \<Rightarrow> bool" where
  "v4_is_loopback a \<longleftrightarrow> to_uint a AND 0xFF000000 = 0x7F000000"

definition v4_is_unspecified :: "address_v4 \<Rightarrow> bool" where
  "v4_is_unspecified a \<longleftrightarrow> to_uint a = 0"

definition is_class_a :: "address_v4 \<Rightarrow> bool" where
  "is_class_a a \<longleftrightarrow> to_uint a AND 0x80000000 = 0"

definition is_class_b :: "address_v4 \<Rightarrow> bool" where
  "is_class_b a \<longleftrightarrow> to_uint a AND 0xC0000000 = 0x80000000"

definition is_class_c :: "address_v4 \<Rightarrow> bool" where
  "is_class_c a \<longleftrightarrow> to_uint a AND 0xE0000000 = 0xC0000000"

definition v4_is_multicast :: "address_v4 \<Rightarrow> bool" where
  "v4_is_multicast a \<longleftrightarrow> to_uint a AND 0xF0000000 = 0xE0000000"

definition v4_broadcast_of :: "address_v4 \<Rightarrow> address_v4 \<Rightarrow> address_v4" where
  "v4_broadcast_of a m = v4_of_uint (to_uint a OR (to_uint m XOR 0xFFFFFFFF))"

definition v4_netmask_of :: "address_v4 \<Rightarrow> address_v4" where
  "v4_netmask_of a =
     (if is_class_a a then v4_of_uint 0xFF000000
      else if is_class_b a then v4_of_uint 0xFFFF0000
      else if is_class_c a then v4_of_uint 0xFFFFFF00
      else v4_of_uint 0xFFFFFFFF)"

definition v4_eq :: "address_v4 \<Rightarrow> address_v4 \<Rightarrow> bool" where
  "v4_eq a1 a2 \<longleftrightarrow> s_addr a1 = s_addr a2"

definition v4_less :: "address_v4 \<Rightarrow> address_v4 \<Rightarrow> bool" where
  "v4_less a1 a2 \<longleftrightarrow> to_uint a1 < to_uint a2"

definition v4_ge :: "address_v4 \<Rightarrow> address_v4 \<Rightarrow> bool" where
  "v4_ge a1 a2 \<longleftrightarrow> to_uint a1 \<ge> to_uint a2"

definition v4_any :: address_v4 where "v4_any = new_v4"
definition v4_loopback :: address_v4 where "v4_loopback = v4_of_uint 0x7F000001"
definition v4_broadcast :: address_v4 where "v4_broadcast = v4_of_uint 0xFFFFFFFF"

section \<open>IPv6\<close>

record address_v6 =
  s6_addr :: bytes
  scope_id :: u32

definition new_v6 :: address_v6 where
  "new_v6 = \<lparr>s6_addr = replicate 16 0, scope_id = 0\<rparr>"

definition v6_of_bytes :: "bytes \<Rightarrow> u32 \<Rightarrow> address_v6" where
  "v6_of_bytes bs scope = \<lparr>s6_addr = bs, scope_id = scope\<rparr>"

definition v6_to_bytes :: "address_v6 \<Rightarrow> bytes" where
  "v6_to_bytes a = s6_addr a"

definition v6_is_loopback :: "address_v6 \<Rightarrow> bool" where
  "v6_is_loopback a \<longleftrightarrow> (\<forall>i\<in>{0..<15}. s6_addr a ! i = 0) \<and> s6_addr a ! 15 = 1"

definition v6_is_unspecified :: "address_v6 \<Rightarrow> bool" where
  "v6_is_unspecified a \<longleftrightarrow> (\<forall>i\<in>{0..<16}. s6_addr a ! i = 0)"

definition is_link_local :: "address_v6 \<Rightarrow> bool" where
  "is_link_local a \<longleftrightarrow> s6_addr a ! 0 = 0xfe \<and> s6_addr a ! 1 AND 0xc0 = 0x80"

definition is_site_local :: "address_v6 \<Rightarrow> bool" where
  "is_site_local a \<longleftrightarrow> s6_addr a ! 0 = 0xfe \<and> s6_addr a ! 1 AND 0xc0 = 0xc0"

definition is_v4_mapped :: "address_v6 \<Rightarrow> bool" where
  "is_v4_mapped a \<longleftrightarrow> (\<forall>i\<in>{0..<10}. s6_addr a ! i = 0) \<and> s6_addr a ! 10 = 0xff \<and> s6_addr a ! 11 = 0xff"

definition is_v4_compatible :: "address_v6 \<Rightarrow> bool" where
  "is_v4_compatible a \<longleftrightarrow> (\<forall>i\<in>{0..<12}. s6_addr a ! i = 0)
     \<and> \<not> (s6_addr a ! 12 = 0 \<and> s6_addr a ! 13 = 0 \<and> s6_addr a ! 14 = 0 \<and> (s6_addr a ! 15 = 0 \<or> s6_addr a ! 15 = 1))"

definition v6_is_multicast :: "address_v6 \<Rightarrow> bool" where
  "v6_is_multicast a \<longleftrightarrow> s6_addr a ! 0 = 0xff"

definition is_multicast_global :: "address_v6 \<Rightarrow> bool" where
  "is_multicast_global a \<longleftrightarrow> s6_addr a ! 0 = 0xff \<and> s6_addr a ! 1 AND 0x0f = 0x0e"

definition is_multicast_link_local :: "address_v6 \<Rightarrow> bool" where
  "is_multicast_link_local a \<longleftrightarrow> s6_addr a ! 0 = 0xff \<and> s6_addr a ! 1 AND 0x0f = 0x02"

definition is_multicast_node_local :: "address_v6 \<Rightarrow> bool" where
  "is_multicast_node_local a \<longleftrightarrow> s6_addr a ! 0 = 0xff \<and> s6_addr a ! 1 AND 0x0f = 0x01"

definition is_multicast_org_local :: "address_v6 \<Rightarrow> bool" where
  "is_multicast_org_local a \<longleftrightarrow> s6_addr a ! 0 = 0xff \<and> s6_addr a ! 1 AND 0x0f = 0x08"

definition is_multicast_site_local :: "address_v6 \<Rightarrow> bool" where
  "is_multicast_site_local a \<longleftrightarrow> s6_addr a ! 0 = 0xff \<and> s6_addr a ! 1 AND 0x0f = 0x05"

text \<open>\<^verbatim>\<open>memcmp\<close> of the standard library, by its sign.\<close>

fun memcmp :: "bytes \<Rightarrow> bytes \<Rightarrow> int" where
  "memcmp (x # xs) (y # ys) = (if x < y then - 1 else if y < x then 1 else memcmp xs ys)"
| "memcmp _ _ = 0"

definition v6_eq :: "address_v6 \<Rightarrow> address_v6 \<Rightarrow> bool" where
  "v6_eq a1 a2 \<longleftrightarrow> memcmp (s6_addr a1) (s6_addr a2) = 0 \<and> scope_id a1 = scope_id a2"

definition v6_less :: "address_v6 \<Rightarrow> address_v6 \<Rightarrow> bool" where
  "v6_less a1 a2 \<longleftrightarrow>
     (let memcmp_result = memcmp (s6_addr a1) (s6_addr a2)
      in if memcmp_result < 0 then True
         else if memcmp_result > 0 then False
         else scope_id a1 < scope_id a2)"

definition v6_ge :: "address_v6 \<Rightarrow> address_v6 \<Rightarrow> bool" where
  "v6_ge a1 a2 \<longleftrightarrow> \<not> v6_less a1 a2"

definition v6_any :: address_v6 where "v6_any = new_v6"
definition v6_loopback :: address_v6 where "v6_loopback = new_v6\<lparr>s6_addr := (s6_addr new_v6)[15 := 1]\<rparr>"

text \<open>Conversions. \<open>BadAddressCast\<close> is the exception.\<close>

datatype bad_address_cast = BadAddressCast

definition v6_to_v4 :: "address_v6 \<Rightarrow> bad_address_cast + address_v4" where
  "v6_to_v4 a =
     (if \<not> is_v4_mapped a \<and> \<not> is_v4_compatible a then Inl BadAddressCast
      else Inr (v4_of_bytes [s6_addr a ! 12, s6_addr a ! 13, s6_addr a ! 14, s6_addr a ! 15]))"

definition v4_mapped :: "address_v4 \<Rightarrow> address_v6" where
  "v4_mapped a = v6_of_bytes ([0, 0, 0, 0, 0, 0, 0, 0, 0, 0, 0xFF, 0xFF]
     @ [v4_to_bytes a ! 0, v4_to_bytes a ! 1, v4_to_bytes a ! 2, v4_to_bytes a ! 3]) 0"

definition v4_compatible :: "address_v4 \<Rightarrow> address_v6" where
  "v4_compatible a = v6_of_bytes ([0, 0, 0, 0, 0, 0, 0, 0, 0, 0, 0, 0]
     @ [v4_to_bytes a ! 0, v4_to_bytes a ! 1, v4_to_bytes a ! 2, v4_to_bytes a ! 3]) 0"

definition make_v4_mapped :: "address_v6 \<Rightarrow> bad_address_cast + address_v4" where
  "make_v4_mapped a =
     (if \<not> is_v4_mapped a then Inl BadAddressCast
      else Inr (v4_of_bytes [v6_to_bytes a ! 12, v6_to_bytes a ! 13, v6_to_bytes a ! 14, v6_to_bytes a ! 15]))"

definition make_v6_mapped :: "address_v4 \<Rightarrow> address_v6" where
  "make_v6_mapped a = v6_of_bytes ([0, 0, 0, 0, 0, 0, 0, 0, 0, 0, 0xFF, 0xFF]
     @ [v4_to_bytes a ! 0, v4_to_bytes a ! 1, v4_to_bytes a ! 2, v4_to_bytes a ! 3]) 0"

section \<open>Either\<close>

datatype address_type = Ipv4 | Ipv6

record address =
  type_of :: address_type
  ipv4_address :: address_v4
  ipv6_address :: address_v6

definition new_address :: address where
  "new_address = \<lparr>type_of = Ipv4, ipv4_address = new_v4, ipv6_address = new_v6\<rparr>"

definition address_of_v4 :: "address_v4 \<Rightarrow> address" where
  "address_of_v4 a = \<lparr>type_of = Ipv4, ipv4_address = a, ipv6_address = new_v6\<rparr>"

definition address_of_v6 :: "address_v6 \<Rightarrow> address" where
  "address_of_v6 a = \<lparr>type_of = Ipv6, ipv4_address = new_v4, ipv6_address = a\<rparr>"

definition assign_v4 :: "address_v4 \<Rightarrow> address \<Rightarrow> address" where
  "assign_v4 a s = s\<lparr>type_of := Ipv4, ipv4_address := a, ipv6_address := new_v6\<rparr>"

definition assign_v6 :: "address_v6 \<Rightarrow> address \<Rightarrow> address" where
  "assign_v6 a s = s\<lparr>type_of := Ipv6, ipv4_address := new_v4, ipv6_address := a\<rparr>"

definition to_v4 :: "address \<Rightarrow> bad_address_cast + address_v4" where
  "to_v4 a = (if type_of a \<noteq> Ipv4 then Inl BadAddressCast else Inr (ipv4_address a))"

definition to_v6 :: "address \<Rightarrow> bad_address_cast + address_v6" where
  "to_v6 a = (if type_of a \<noteq> Ipv6 then Inl BadAddressCast else Inr (ipv6_address a))"

definition is_loopback :: "address \<Rightarrow> bool" where
  "is_loopback a \<longleftrightarrow> (if type_of a = Ipv4 then v4_is_loopback (ipv4_address a) else v6_is_loopback (ipv6_address a))"

definition is_unspecified :: "address \<Rightarrow> bool" where
  "is_unspecified a \<longleftrightarrow>
     (if type_of a = Ipv4 then v4_is_unspecified (ipv4_address a) else v6_is_unspecified (ipv6_address a))"

definition is_multicast :: "address \<Rightarrow> bool" where
  "is_multicast a \<longleftrightarrow>
     (if type_of a = Ipv4 then v4_is_multicast (ipv4_address a) else v6_is_multicast (ipv6_address a))"

definition address_eq :: "address \<Rightarrow> address \<Rightarrow> bool" where
  "address_eq a1 a2 \<longleftrightarrow>
     (if type_of a1 \<noteq> type_of a2 then False
      else if type_of a1 = Ipv6 then v6_eq (ipv6_address a1) (ipv6_address a2)
      else v4_eq (ipv4_address a1) (ipv4_address a2))"

text \<open>The enumerators in order: 0 and 1.\<close>

fun type_number :: "address_type \<Rightarrow> nat" where
  "type_number Ipv4 = 0"
| "type_number Ipv6 = 1"

definition address_less :: "address \<Rightarrow> address \<Rightarrow> bool" where
  "address_less a1 a2 \<longleftrightarrow>
     (if type_number (type_of a1) < type_number (type_of a2) then True
      else if type_number (type_of a1) > type_number (type_of a2) then False
      else if type_of a1 = Ipv6 then v6_less (ipv6_address a1) (ipv6_address a2)
      else v4_less (ipv4_address a1) (ipv4_address a2))"

section \<open>Iterators and ranges\<close>

text \<open>An iterator is the address it holds.\<close>

definition v4_inc :: "address_v4 \<Rightarrow> address_v4" where
  "v4_inc a = v4_of_uint ((to_uint a + 1) AND 0xFFFFFFFF)"

definition v4_dec :: "address_v4 \<Rightarrow> address_v4" where
  "v4_dec a = v4_of_uint ((to_uint a - 1) AND 0xFFFFFFFF)"

text \<open>The loops go from the last byte down; \<open>Suc i\<close> is at byte \<open>i\<close>.\<close>

fun inc_loop :: "nat \<Rightarrow> bytes \<Rightarrow> bytes" where
  "inc_loop 0 bs = bs"
| "inc_loop (Suc i) bs = (if bs ! i < 0xFF then bs[i := bs ! i + 1] else inc_loop i (bs[i := 0]))"

fun dec_loop :: "nat \<Rightarrow> bytes \<Rightarrow> bytes" where
  "dec_loop 0 bs = bs"
| "dec_loop (Suc i) bs = (if bs ! i > 0 then bs[i := bs ! i - 1] else dec_loop i (bs[i := 0xFF]))"

definition v6_inc :: "address_v6 \<Rightarrow> address_v6" where
  "v6_inc a = a\<lparr>s6_addr := inc_loop 16 (s6_addr a)\<rparr>"

definition v6_dec :: "address_v6 \<Rightarrow> address_v6" where
  "v6_dec a = a\<lparr>s6_addr := dec_loop 16 (s6_addr a)\<rparr>"

record 'a address_range =
  range_begin :: 'a
  range_end :: 'a

definition v4_size :: "address_v4 address_range \<Rightarrow> nat" where
  "v4_size r = unat (to_uint (range_end r) - to_uint (range_begin r))"

definition v4_empty :: "address_v4 address_range \<Rightarrow> bool" where
  "v4_empty r \<longleftrightarrow> v4_size r = 0"

definition v4_find :: "address_v4 \<Rightarrow> address_v4 address_range \<Rightarrow> address_v4" where
  "v4_find a r = (if v4_ge a (range_begin r) \<and> v4_less a (range_end r) then a else range_end r)"

definition v6_empty :: "address_v6 address_range \<Rightarrow> bool" where
  "v6_empty r \<longleftrightarrow> v6_eq (range_begin r) (range_end r)"

definition v6_find :: "address_v6 \<Rightarrow> address_v6 address_range \<Rightarrow> address_v6" where
  "v6_find a r = (if v6_ge a (range_begin r) \<and> v6_less a (range_end r) then a else range_end r)"

end
