(* ===== verification/AddressSpec.thy ===== *)
theory AddressSpec
  imports Addresses
begin

text \<open>
  Addresses as numbers: conversions, orders and iterators of both families against the number an address stands for.
\<close>

definition v4_ok :: "address_v4 \<Rightarrow> bool" where
  "v4_ok a \<longleftrightarrow> length (s_addr a) = 4"

definition v6_ok :: "address_v6 \<Rightarrow> bool" where
  "v6_ok a \<longleftrightarrow> length (s6_addr a) = 16"

definition v4_value :: "address_v4 \<Rightarrow> nat" where
  "v4_value a = unat (to_uint a)"

definition v6_value :: "address_v6 \<Rightarrow> nat" where
  "v6_value a = le_nat (rev (s6_addr a))"

section \<open>Words\<close>

lemma low_byte: "ucast (x AND 0xFF) = (ucast x :: u8)" for x :: u32
proof -
  have "(0xFF :: u32) = mask 8" by (simp add: mask_eq_exp_minus_1)
  then have "x AND 0xFF = take_bit 8 x" by (simp only: take_bit_eq_mask)
  then show ?thesis by (auto intro!: bit_word_eqI simp: bit_simps)
qed

lemma bit_network_to_host_long:
  "bit (network_to_host_long bs) n \<longleftrightarrow> n < 32 \<and> bit (bs ! (3 - n div 8)) (n mod 8)"
proof -
  have top: "\<not> bit (b :: u8) k" if "8 \<le> k" for b k
    using bit_imp_le_length [of b k] that by auto
  consider "n < 8" | "8 \<le> n" "n < 16" | "16 \<le> n" "n < 24" | "24 \<le> n" "n < 32" | "32 \<le> n" by linarith
  then show ?thesis
  proof cases
    case 1
    then show ?thesis by (simp add: network_to_host_long_def bit_simps)
  next
    case 2
    then have "n div 8 = 1" "n mod 8 = n - 8" by (simp_all add: div_nat_eqI mod_if)
    with 2 show ?thesis by (auto simp: network_to_host_long_def bit_simps top)
  next
    case 3
    then have "n div 8 = 2" "n mod 8 = n - 16" by (simp_all add: div_nat_eqI mod_if)
    with 3 show ?thesis by (auto simp: network_to_host_long_def bit_simps top)
  next
    case 4
    then have "n div 8 = 3" "n mod 8 = n - 24" by (simp_all add: div_nat_eqI mod_if)
    with 4 show ?thesis by (auto simp: network_to_host_long_def bit_simps top)
  next
    case 5
    then show ?thesis using bit_imp_le_length [of "network_to_host_long bs" n] by auto
  qed
qed

lemma less_8: "n < Suc (Suc (Suc (Suc (Suc (Suc (Suc (Suc 0))))))) \<longleftrightarrow> n < 8"
  by presburger

lemma bit_host_to_network_long:
  assumes "i < 4"
  shows "bit (host_to_network_long v ! i) n \<longleftrightarrow> n < 8 \<and> bit v (n + 8 * (3 - i))"
proof -
  from assms consider "i = 0" | "i = 1" | "i = 2" | "i = 3" by linarith
  then show ?thesis
    by cases (simp_all add: host_to_network_long_def low_byte bit_unsigned_iff bit_drop_bit_eq less_8 ac_simps conj_commute)
qed

lemma host_to_network_round_trip: "network_to_host_long (host_to_network_long v) = v"
proof (rule bit_word_eqI)
  fix n assume "n < LENGTH(32)"
  then have n: "n < 32" by simp
  then have "n div 8 \<le> 3" by linarith
  then have "n mod 8 + 8 * (3 - (3 - n div 8)) = n" by simp
  with n show "bit (network_to_host_long (host_to_network_long v)) n = bit v n"
    by (simp add: bit_network_to_host_long bit_host_to_network_long)
qed

lemma network_to_host_round_trip:
  assumes "length bs = 4"
  shows "host_to_network_long (network_to_host_long bs) = bs"
proof (rule nth_equalityI)
  show "length (host_to_network_long (network_to_host_long bs)) = length bs"
    using assms by (simp add: host_to_network_long_def)
  fix i assume "i < length (host_to_network_long (network_to_host_long bs))"
  then have i: "i < 4" by (simp add: host_to_network_long_def)
  show "host_to_network_long (network_to_host_long bs) ! i = bs ! i"
  proof (rule bit_word_eqI)
    fix n assume "n < LENGTH(8)"
    then have n: "n < 8" by simp
    have "3 - (n + 8 * (3 - i)) div 8 = i" "(n + 8 * (3 - i)) mod 8 = n" "n + 8 * (3 - i) < 32"
      using n i by (simp_all add: div_mult_self2)
    then show "bit (host_to_network_long (network_to_host_long bs) ! i) n = bit (bs ! i) n"
      using n by (simp add: bit_network_to_host_long bit_host_to_network_long [OF i])
  qed
qed

lemma to_uint_of_uint [simp]: "to_uint (v4_of_uint x) = x"
  by (simp add: to_uint_def v4_of_uint_def host_to_network_round_trip)

lemma of_uint_to_uint: "v4_ok a \<Longrightarrow> v4_of_uint (to_uint a) = a"
  by (simp add: to_uint_def v4_of_uint_def v4_ok_def network_to_host_round_trip)

lemma v4_ok_of_uint [simp]: "v4_ok (v4_of_uint x)"
  by (simp add: v4_ok_def v4_of_uint_def host_to_network_long_def)

lemma v4_ok_new [simp]: "v4_ok new_v4"
  by (simp add: v4_ok_def new_v4_def)

lemma v4_value_less: "v4_value a < 2 ^ 32"
  unfolding v4_value_def using unsigned_less [of "to_uint a", where ?'a = nat] by simp

lemma v4_value_inj: "v4_ok a \<Longrightarrow> v4_ok b \<Longrightarrow> v4_value a = v4_value b \<Longrightarrow> a = b"
  unfolding v4_value_def by (metis of_uint_to_uint unsigned_word_eqI)

lemma v6_value_less: "v6_ok a \<Longrightarrow> v6_value a < 2 ^ 128"
  unfolding v6_value_def v6_ok_def using le_nat_bound [of "rev (s6_addr a)"] by simp

lemma v6_value_inj:
  "v6_ok a \<Longrightarrow> v6_ok b \<Longrightarrow> scope_id a = scope_id b \<Longrightarrow> v6_value a = v6_value b \<Longrightarrow> a = b"
  unfolding v6_value_def v6_ok_def
  by (metis address_v6.equality le_bytes_le_nat length_rev old.unit.exhaust rev_rev_ident)

section \<open>Iterators\<close>

lemma and_all_ones: "x AND 0xFFFFFFFF = (x :: u32)"
proof -
  have ones: "(0xFFFFFFFF :: u32) = - 1" by simp
  show ?thesis unfolding ones by simp
qed

lemma v4_inc_spec: "v4_ok (v4_inc a) \<and> v4_value (v4_inc a) = (v4_value a + 1) mod 2 ^ 32"
  by (simp add: v4_inc_def and_all_ones v4_value_def unat_word_ariths)

lemma v4_dec_spec: "v4_ok (v4_dec a) \<and> v4_value (v4_dec a) = (v4_value a + (2 ^ 32 - 1)) mod 2 ^ 32"
proof -
  have dec: "to_uint a - 1 = to_uint a + of_nat (2 ^ 32 - 1)" by simp
  have "unat (of_nat (2 ^ 32 - 1) :: u32) = 2 ^ 32 - 1" by (simp add: unat_of_nat)
  then have "unat (to_uint a - 1) = (unat (to_uint a) + (2 ^ 32 - 1)) mod 2 ^ 32"
    by (simp only: dec unat_word_ariths) simp
  then show ?thesis by (simp add: v4_dec_def and_all_ones v4_value_def)
qed

text \<open>The loops of the IPv6 iterator carry through the bytes from the last up.\<close>

lemma le_nat_append: "le_nat (xs @ ys) = le_nat xs + 256 ^ length xs * le_nat ys"
  by (induction xs) (auto simp: algebra_simps)

lemma byte_less: "unat (b :: u8) < 256"
  using unsigned_less [of b, where ?'a = nat] by simp

fun carry :: "bytes \<Rightarrow> bytes" where
  "carry [] = []"
| "carry (b # bs) = (if b < 0xFF then (b + 1) # bs else 0 # carry bs)"

fun borrow :: "bytes \<Rightarrow> bytes" where
  "borrow [] = []"
| "borrow (b # bs) = (if b > 0 then (b - 1) # bs else 0xFF # borrow bs)"

lemma inc_loop_carry: "inc_loop (length bs) (rev bs @ zs) = rev (carry bs) @ zs"
proof (induction bs arbitrary: zs)
  case (Cons b bs)
  then show ?case by (simp add: nth_append list_update_append)
qed simp

lemma dec_loop_borrow: "dec_loop (length bs) (rev bs @ zs) = rev (borrow bs) @ zs"
proof (induction bs arbitrary: zs)
  case (Cons b bs)
  then show ?case by (simp add: nth_append list_update_append)
qed simp

lemma length_carry [simp]: "length (carry bs) = length bs"
  by (induction bs) auto

lemma length_borrow [simp]: "length (borrow bs) = length bs"
  by (induction bs) auto

lemma le_nat_carry: "le_nat (carry bs) = (le_nat bs + 1) mod 256 ^ length bs"
proof (induction bs)
  case (Cons b bs)
  have n: "le_nat bs < 256 ^ length bs" by (rule le_nat_bound)
  show ?case
  proof (cases "b < 0xFF")
    case True
    then have b: "unat b < 255" by (simp add: word_less_nat_alt)
    then have "unat (b + 1) = unat b + 1" by (simp add: unat_word_ariths)
    moreover have "unat b + 1 + 256 * le_nat bs < 256 * 256 ^ length bs" using n b by linarith
    ultimately show ?thesis using True by simp
  next
    case False
    then have "255 \<le> unat b" by (simp add: word_less_nat_alt)
    then have b: "unat b = 255" using byte_less [of b] by linarith
    have "(unat b + 256 * le_nat bs + 1) mod (256 * 256 ^ length bs) = (256 * (le_nat bs + 1)) mod (256 * 256 ^ length bs)"
      by (simp add: b)
    also have "\<dots> = 256 * ((le_nat bs + 1) mod 256 ^ length bs)" by (rule mult_mod_right [symmetric])
    finally show ?thesis using False Cons.IH by simp
  qed
qed simp

lemma le_nat_borrow: "le_nat (borrow bs) = (le_nat bs + (256 ^ length bs - 1)) mod 256 ^ length bs"
proof (induction bs)
  case (Cons b bs)
  define m :: nat where "m = 256 ^ length bs"
  have n: "le_nat bs < m" "1 \<le> m" using le_nat_bound [of bs] by (simp_all add: m_def)
  have goal: "256 ^ length (b # bs) = 256 * m" by (simp add: m_def)
  show ?case
  proof (cases "b > 0")
    case True
    then have b: "0 < unat b" by (simp add: word_less_nat_alt)
    then have 1: "unat (b - 1) = unat b - 1" by (simp add: unat_minus_one unat_gt_0)
    have "unat b + 256 * le_nat bs + (256 * m - 1) = (unat b - 1 + 256 * le_nat bs) + 256 * m"
      using b n(2) by linarith
    moreover have "unat b - 1 + 256 * le_nat bs < 256 * m" using n(1) byte_less [of b] by linarith
    ultimately have "(unat b + 256 * le_nat bs + (256 * m - 1)) mod (256 * m) = unat b - 1 + 256 * le_nat bs"
      by (simp only: mod_add_self2 mod_less)
    with True 1 show ?thesis unfolding goal by (simp only: borrow.simps le_nat.simps if_True)
  next
    case False
    then have b: "unat b = 0" "\<not> b > 0" by (simp_all add: word_gt_0)
    obtain k where "m = Suc k" using n(2) by (cases m) auto
    then have "unat b + 256 * le_nat bs + (256 * m - 1) = 255 + 256 * (le_nat bs + (m - 1))" using b(1) by simp
    moreover have "(255 + 256 * k) mod (256 * m) = 255 + 256 * (k mod m)" for k
      using mod_mult2_eq [of "255 + 256 * k" 256 m] by simp
    ultimately have "(unat b + 256 * le_nat bs + (256 * m - 1)) mod (256 * m)
        = 255 + 256 * ((le_nat bs + (m - 1)) mod m)" by (simp only:)
    moreover have "unat (0xFF :: u8) = 255" by simp
    ultimately show ?thesis
      using b(2) Cons.IH unfolding goal m_def [symmetric] by (simp only: borrow.simps le_nat.simps if_False)
  qed
qed simp

lemma v6_inc_spec:
  assumes "v6_ok a"
  shows "v6_ok (v6_inc a) \<and> scope_id (v6_inc a) = scope_id a \<and> v6_value (v6_inc a) = (v6_value a + 1) mod 2 ^ 128"
proof -
  have "inc_loop 16 (s6_addr a) = rev (carry (rev (s6_addr a)))"
    using inc_loop_carry [of "rev (s6_addr a)" "[]"] assms by (simp add: v6_ok_def)
  then show ?thesis
    using assms le_nat_carry [of "rev (s6_addr a)"] by (simp add: v6_inc_def v6_ok_def v6_value_def)
qed

lemma v6_dec_spec:
  assumes "v6_ok a"
  shows "v6_ok (v6_dec a) \<and> scope_id (v6_dec a) = scope_id a
    \<and> v6_value (v6_dec a) = (v6_value a + (2 ^ 128 - 1)) mod 2 ^ 128"
proof -
  have "dec_loop 16 (s6_addr a) = rev (borrow (rev (s6_addr a)))"
    using dec_loop_borrow [of "rev (s6_addr a)" "[]"] assms by (simp add: v6_ok_def)
  then show ?thesis
    using assms le_nat_borrow [of "rev (s6_addr a)"] by (simp add: v6_dec_def v6_ok_def v6_value_def)
qed

section \<open>Orders\<close>

lemma be_nat_Cons: "le_nat (rev (x # xs)) = le_nat (rev xs) + 256 ^ length xs * unat x"
  by (simp add: le_nat_append)

lemma memcmp_value:
  "length xs = length ys \<Longrightarrow>
   memcmp xs ys = (if le_nat (rev xs) < le_nat (rev ys) then - 1 else if le_nat (rev xs) = le_nat (rev ys) then 0 else 1)"
proof (induction xs ys rule: memcmp.induct)
  case (1 x xs y ys)
  then have len: "length ys = length xs" by simp
  have b: "le_nat (rev xs) < 256 ^ length xs" "le_nat (rev ys) < 256 ^ length xs"
    using le_nat_bound [of "rev xs"] le_nat_bound [of "rev ys"] len by simp_all
  have step: "le_nat (rev xs) + 256 ^ length xs * i < le_nat (rev ys) + 256 ^ length xs * j" 
    if "i < j" "le_nat (rev xs) < 256 ^ length xs" for xs ys :: bytes and i j :: nat
  proof -
    have "256 ^ length xs * (i + 1) \<le> 256 ^ length xs * j" using that(1) by (intro mult_le_mono2) simp
    with that(2) show ?thesis by (simp add: algebra_simps)
  qed
  consider "x < y" | "y < x" | "x = y" by (meson linorder_neqE)
  then show ?case
  proof cases
    case 1
    then have "unat x < unat y" by (simp add: word_less_nat_alt)
    from step [OF this, of xs ys] show ?thesis using b 1 len unfolding be_nat_Cons by simp
  next
    case 2
    then have "unat y < unat x" by (simp add: word_less_nat_alt)
    from step [OF this, of ys xs] show ?thesis using b 2 len unfolding be_nat_Cons by simp
  next
    case 3
    then show ?thesis using "1.IH" len unfolding be_nat_Cons by simp
  qed
qed auto

lemma v4_order:
  assumes "v4_ok a" "v4_ok b"
  shows "v4_eq a b \<longleftrightarrow> a = b" "v4_less a b \<longleftrightarrow> v4_value a < v4_value b" "v4_ge a b \<longleftrightarrow> v4_value b \<le> v4_value a"
  by (auto simp: v4_eq_def v4_less_def v4_ge_def v4_value_def word_less_nat_alt word_le_nat_alt)

lemma v6_order:
  assumes "v6_ok a" "v6_ok b"
  shows "v6_eq a b \<longleftrightarrow> a = b"
    "v6_less a b \<longleftrightarrow> v6_value a < v6_value b \<or> v6_value a = v6_value b \<and> scope_id a < scope_id b"
proof -
  have m: "memcmp (s6_addr a) (s6_addr b) =
      (if v6_value a < v6_value b then - 1 else if v6_value a = v6_value b then 0 else 1)"
    unfolding v6_value_def by (rule memcmp_value) (use assms in \<open>simp add: v6_ok_def\<close>)
  show "v6_eq a b \<longleftrightarrow> a = b"
    using v6_value_inj [OF assms] unfolding v6_eq_def m by (auto split: if_splits)
  show "v6_less a b \<longleftrightarrow> v6_value a < v6_value b \<or> v6_value a = v6_value b \<and> scope_id a < scope_id b"
    unfolding v6_less_def m by simp
qed

text \<open>An \<open>address\<close> as the constructors and the assignments leave it: the address of the other family is the default.\<close>

definition address_ok :: "address \<Rightarrow> bool" where
  "address_ok a \<longleftrightarrow>
     (if type_of a = Ipv4 then v4_ok (ipv4_address a) \<and> ipv6_address a = new_v6
      else v6_ok (ipv6_address a) \<and> ipv4_address a = new_v4)"

lemma address_ok_made:
  "v4_ok a \<Longrightarrow> address_ok (address_of_v4 a)" "v4_ok a \<Longrightarrow> address_ok (assign_v4 a s)"
  "v6_ok b \<Longrightarrow> address_ok (address_of_v6 b)" "v6_ok b \<Longrightarrow> address_ok (assign_v6 b s)"
  "address_ok new_address"
  by (simp_all add: address_ok_def address_of_v4_def assign_v4_def address_of_v6_def assign_v6_def new_address_def)

text \<open>Their order is total: IPv4 before IPv6, then by number, then by scope.\<close>

lemma address_order:
  assumes "address_ok a" "address_ok b"
  shows "address_eq a b \<longleftrightarrow> a = b"
    "address_less a b \<longleftrightarrow>
      (case (type_of a, type_of b) of
         (Ipv4, Ipv4) \<Rightarrow> v4_value (ipv4_address a) < v4_value (ipv4_address b)
       | (Ipv4, Ipv6) \<Rightarrow> True
       | (Ipv6, Ipv4) \<Rightarrow> False
       | (Ipv6, Ipv6) \<Rightarrow> v6_value (ipv6_address a) < v6_value (ipv6_address b)
           \<or> v6_value (ipv6_address a) = v6_value (ipv6_address b)
             \<and> scope_id (ipv6_address a) < scope_id (ipv6_address b))"
  using assms
  by (cases "type_of a"; cases "type_of b"; auto simp: address_ok_def address_eq_def address_less_def v4_order v6_order)+

lemma address_order_total:
  assumes "address_ok a" "address_ok b"
  shows "address_less a b \<or> a = b \<or> address_less b a" "\<not> (address_less a b \<and> address_less b a)"
proof -
  have v4: "v4_value (ipv4_address a) = v4_value (ipv4_address b) \<Longrightarrow> type_of a = Ipv4 \<Longrightarrow> type_of b = Ipv4 \<Longrightarrow> a = b"
    using assms v4_value_inj by (cases a; cases b) (auto simp: address_ok_def)
  have v6: "v6_value (ipv6_address a) = v6_value (ipv6_address b) \<Longrightarrow> scope_id (ipv6_address a) = scope_id (ipv6_address b)
      \<Longrightarrow> type_of a = Ipv6 \<Longrightarrow> type_of b = Ipv6 \<Longrightarrow> a = b"
    using assms v6_value_inj by (cases a; cases b) (auto simp: address_ok_def)
  note less = address_order(2) [OF assms] address_order(2) [OF assms(2,1)]
  show "address_less a b \<or> a = b \<or> address_less b a"
  proof (cases "type_of a")
    case a: Ipv4
    show ?thesis
    proof (cases "type_of b")
      case b: Ipv4
      show ?thesis using v4 [OF _ a b] unfolding less by (simp add: a b) linarith
    next
      case Ipv6
      then show ?thesis unfolding less by (simp add: a)
    qed
  next
    case a: Ipv6
    show ?thesis
    proof (cases "type_of b")
      case b: Ipv6
      show ?thesis using v6 [OF _ _ a b] unfolding less
        by (cases "scope_id (ipv6_address a)" "scope_id (ipv6_address b)" rule: linorder_cases)
          (simp_all add: a b, linarith+)
    next
      case Ipv4
      then show ?thesis unfolding less by (simp add: a)
    qed
  qed
  show "\<not> (address_less a b \<and> address_less b a)"
    unfolding less by (cases "type_of a"; cases "type_of b") (auto dest: order.asym)
qed

lemma v4_mapped_round_trip:
  assumes "v4_ok a"
  shows "is_v4_mapped (make_v6_mapped a)" "make_v4_mapped (make_v6_mapped a) = Inr a" "v6_ok (make_v6_mapped a)"
    "v6_to_v4 (v4_mapped a) = Inr a"
proof -
  from assms obtain x y z u where a: "a = \<lparr>s_addr = [x, y, z, u]\<rparr>"
    by (cases a) (auto simp: v4_ok_def numeral_eq_Suc length_Suc_conv)
  have idx: "{0..<10} = {0, 1, 2, 3, 4, 5, 6, 7, 8, 9 :: nat}" by auto
  show mapped: "is_v4_mapped (make_v6_mapped a)"
    unfolding is_v4_mapped_def idx by (simp add: a make_v6_mapped_def v6_of_bytes_def)
  show "make_v4_mapped (make_v6_mapped a) = Inr a"
    using mapped by (simp add: make_v4_mapped_def) (simp add: a make_v6_mapped_def v6_of_bytes_def v6_to_bytes_def
        v4_of_bytes_def v4_to_bytes_def)
  show "v6_ok (make_v6_mapped a)" by (simp add: v6_ok_def make_v6_mapped_def v6_of_bytes_def)
  have "v4_mapped a = make_v6_mapped a" by (simp add: v4_mapped_def make_v6_mapped_def)
  then show "v6_to_v4 (v4_mapped a) = Inr a"
    using mapped by (simp add: v6_to_v4_def) (simp add: a make_v6_mapped_def v6_of_bytes_def v4_of_bytes_def v4_to_bytes_def)
qed

section \<open>Ranges and blocks\<close>

text \<open>A loop over a range: what it visits. \<open>None\<close> is a loop that does not end.\<close>

partial_function (option) visit :: "('a \<Rightarrow> 'a \<Rightarrow> bool) \<Rightarrow> ('a \<Rightarrow> 'a) \<Rightarrow> 'a \<Rightarrow> 'a \<Rightarrow> 'a list option" where
  "visit eq inc it e =
     (if eq it e then Some []
      else Option.bind (visit eq inc (inc it) e) (\<lambda>visited. Some (it # visited)))"

text \<open>The addresses that agree with \<open>a\<close> in the first \<open>p\<close> of \<open>w\<close> bits, and in the scope.\<close>

definition block ::
    "('a \<Rightarrow> nat) \<Rightarrow> ('a \<Rightarrow> bool) \<Rightarrow> ('a \<Rightarrow> 't) \<Rightarrow> nat \<Rightarrow> 'a \<Rightarrow> nat \<Rightarrow> 'a set" where
  "block val good tag w a p =
     {x. good x \<and> tag x = tag a \<and> val x div 2 ^ (w - p) = val a div 2 ^ (w - p)}"

locale address_family =
  fixes val :: "'a \<Rightarrow> nat"
    and good :: "'a \<Rightarrow> bool"
    and tag :: "'a \<Rightarrow> 't"
    and w :: nat
    and eq :: "'a \<Rightarrow> 'a \<Rightarrow> bool"
    and inc :: "'a \<Rightarrow> 'a"
  assumes val_less: "good a \<Longrightarrow> val a < 2 ^ w"
    and val_inj: "good a \<Longrightarrow> good b \<Longrightarrow> tag a = tag b \<Longrightarrow> val a = val b \<Longrightarrow> a = b"
    and eq_iff: "good a \<Longrightarrow> good b \<Longrightarrow> eq a b \<longleftrightarrow> a = b"
    and inc_wf: "good a \<Longrightarrow> good (inc a)"
    and inc_tag: "good a \<Longrightarrow> tag (inc a) = tag a"
    and inc_val: "good a \<Longrightarrow> val (inc a) = (val a + 1) mod 2 ^ w"
begin

lemma exists_address:
  assumes "good a" "n < 2 ^ w"
  shows "\<exists>x. good x \<and> tag x = tag a \<and> val x = n"
proof -
  have step: "good ((inc ^^ k) a) \<and> tag ((inc ^^ k) a) = tag a \<and> val ((inc ^^ k) a) = (val a + k) mod 2 ^ w" for k
  proof (induction k)
    case 0
    then show ?case using assms(1) val_less by simp
  next
    case (Suc k)
    then show ?case by (simp add: inc_wf inc_tag inc_val mod_Suc_eq)
  qed
  have "val a + (n + 2 ^ w - val a) = n + 2 ^ w" using val_less [OF assms(1)] by simp
  then show ?thesis using step [of "n + 2 ^ w - val a"] assms(2) by auto
qed

lemma visit_spec:
  assumes "good b" "good e" "tag e = tag b"
    and "n = (if val b \<le> val e then val e - val b else val e + 2 ^ w - val b)"
  shows "\<exists>as. visit eq inc b e = Some as \<and> length as = n
    \<and> (\<forall>i<n. good (as ! i) \<and> tag (as ! i) = tag b \<and> val (as ! i) = (val b + i) mod 2 ^ w)"
  using assms
proof (induction n arbitrary: b)
  case 0
  have "val b = val e" using "0.prems"(4) val_less [OF "0.prems"(1)] by (auto split: if_splits)
  then have "b = e" using val_inj "0.prems" by metis
  then show ?case using "0.prems" by (simp add: visit.simps eq_iff)
next
  case (Suc n)
  note l = val_less [OF Suc.prems(1)] val_less [OF Suc.prems(2)]
  have ne: "b \<noteq> e" using Suc.prems(4) by auto
  have n: "n = (if val (inc b) \<le> val e then val e - val (inc b) else val e + 2 ^ w - val (inc b))"
  proof (cases "val b + 1 = 2 ^ w")
    case True
    then have "val (inc b) = 0" using inc_val [OF Suc.prems(1)] by simp
    then show ?thesis using True Suc.prems(4) l by (auto split: if_splits)
  next
    case False
    then have "val (inc b) = val b + 1" using inc_val [OF Suc.prems(1)] l(1) by simp
    then show ?thesis using Suc.prems(4) l by (auto split: if_splits)
  qed
  from Suc.IH [OF inc_wf [OF Suc.prems(1)] Suc.prems(2) _ n] Suc.prems(3) inc_tag [OF Suc.prems(1)]
  obtain as where as: "visit eq inc (inc b) e = Some as" "length as = n"
    "\<And>i. i < n \<Longrightarrow> good (as ! i) \<and> tag (as ! i) = tag b \<and> val (as ! i) = (val (inc b) + i) mod 2 ^ w"
    by auto
  have "visit eq inc b e = Some (b # as)"
    using as(1) ne Suc.prems by (simp add: visit.simps [of eq inc b e] eq_iff)
  moreover have "\<forall>i<Suc n. good ((b # as) ! i) \<and> tag ((b # as) ! i) = tag b
      \<and> val ((b # as) ! i) = (val b + i) mod 2 ^ w"
  proof (intro allI impI)
    fix i assume "i < Suc n"
    then show "good ((b # as) ! i) \<and> tag ((b # as) ! i) = tag b \<and> val ((b # as) ! i) = (val b + i) mod 2 ^ w"
      using as(3) [of "i - 1"] Suc.prems(1) l(1)
      by (cases i) (simp_all add: inc_val mod_add_left_eq)
  qed
  ultimately show ?case using as(2) by (metis length_Cons)
qed

lemma visit_list:
  assumes "good b" "good e" "tag e = tag b"
    and "val b \<le> m" "m \<le> 2 ^ w" "val e = m mod 2 ^ w" "val b = 0 \<longrightarrow> m < 2 ^ w"
  shows "\<exists>as. visit eq inc b e = Some as \<and> map val as = [val b..<m]
    \<and> set as = {x. good x \<and> tag x = tag b \<and> val b \<le> val x \<and> val x < m}"
proof -
  note lb = val_less [OF assms(1)]
  have n: "m - val b = (if val b \<le> val e then val e - val b else val e + 2 ^ w - val b)"
  proof (cases "m = 2 ^ w")
    case True
    then have "val e = 0" "0 < val b" using assms(6,7) by auto
    with True show ?thesis by simp
  next
    case False
    then have "m < 2 ^ w" using assms(5) by linarith
    then have "val e = m" using assms(6) by simp
    with assms(4) show ?thesis by simp
  qed
  from visit_spec [OF assms(1-3) n] obtain as where as: "visit eq inc b e = Some as" "length as = m - val b"
    and el: "\<And>i. i < m - val b \<Longrightarrow> good (as ! i) \<and> tag (as ! i) = tag b \<and> val (as ! i) = (val b + i) mod 2 ^ w"
    by blast
  have v: "val (as ! i) = val b + i" if "i < m - val b" for i
    using el [OF that] that assms(5) by simp
  have "map val as = [val b..<m]"
    by (rule nth_equalityI) (use as(2) v in simp_all)
  moreover have "set as = {x. good x \<and> tag x = tag b \<and> val b \<le> val x \<and> val x < m}" (is "_ = ?S")
  proof (rule equalityI; rule subsetI)
    fix x assume "x \<in> set as"
    then obtain i where i: "i < m - val b" "x = as ! i" using as(2) by (auto simp: in_set_conv_nth)
    then show "x \<in> ?S" using el [OF i(1)] v [OF i(1)] by auto
  next
    fix x assume x: "x \<in> ?S"
    then have i: "val x - val b < m - val b" by auto
    have "as ! (val x - val b) = x"
      using x el [OF i] v [OF i] by (intro val_inj) auto
    then show "x \<in> set as" using i as(2) by (metis nth_mem)
  qed
  ultimately show ?thesis using as(1) by blast
qed

lemma block_self: "good a \<Longrightarrow> a \<in> block val good tag w a p"
  by (simp add: block_def)

lemma div_coarser:
  fixes n :: nat
  assumes "q \<le> p" "p \<le> w"
  shows "n div 2 ^ (w - q) = n div 2 ^ (w - p) div 2 ^ (p - q)"
proof -
  have "w - q = (w - p) + (p - q)" using assms by simp
  then show ?thesis by (simp add: power_add div_mult2_eq)
qed

lemma block_strict_subset:
  assumes a: "good a" and b: "good b" and p: "p \<le> w" and q: "q \<le> w"
  shows "block val good tag w a p \<subset> block val good tag w b q \<longleftrightarrow>
    q < p \<and> tag a = tag b \<and> val a div 2 ^ (w - q) = val b div 2 ^ (w - q)" (is "?A \<subset> ?B \<longleftrightarrow> ?R")
proof
  assume sub: "?A \<subset> ?B"
  then have ab: "a \<in> ?B" using block_self [OF a] by blast
  have "q < p"
  proof (rule ccontr)
    assume "\<not> q < p"
    then have pq: "p \<le> q" by simp
    have "?B \<subseteq> ?A"
      using ab by (auto simp: block_def div_coarser [OF pq q])
    with sub show False by blast
  qed
  with ab show ?R by (simp add: block_def)
next
  assume r: ?R
  then have qp: "q \<le> p" by simp
  have "?A \<subseteq> ?B" using r by (auto simp: block_def div_coarser [OF qp p])
  moreover have "\<exists>x. x \<in> ?B \<and> x \<notin> ?A"
  proof -
    define c where "c = val a div 2 ^ (w - p)"
    define c' where "c' = (if even c then c + 1 else c - 1)"
    have c: "c < 2 ^ p"
    proof -
      have "(2 :: nat) ^ w = 2 ^ (w - p) * 2 ^ p" using p by (simp flip: power_add)
      then have "val a < 2 ^ p * 2 ^ (w - p)" using val_less [OF a] by (simp add: mult.commute)
      then show ?thesis unfolding c_def by (rule less_mult_imp_div_less)
    qed
    have ev: "even ((2::nat) ^ p)" using r by auto
    have c': "c' < 2 ^ p" "c' \<noteq> c" "c' div 2 = c div 2"
      using c ev unfolding c'_def by (cases "even c"; simp; presburger)+
    have "2 ^ p * 2 ^ (w - p) = (2 ^ w :: nat)" using p by (simp flip: power_add)
    then have "c' * 2 ^ (w - p) < 2 ^ w" using c'(1) by (metis mult_less_mono1 zero_less_numeral zero_less_power)
    from exists_address [OF a this] obtain x where x: "good x" "tag x = tag a" "val x = c' * 2 ^ (w - p)" by blast
    have vp: "val x div 2 ^ (w - p) = c'" unfolding x(3) by simp
    have "c' div 2 ^ (p - q) = c div 2 ^ (p - q)"
    proof -
      from r have "q < p" by simp
      then have "p - q = 1 + (p - q - 1)" by simp
      then have "n div 2 ^ (p - q) = n div 2 div 2 ^ (p - q - 1)" for n :: nat
        by (metis div_mult2_eq power_Suc plus_1_eq_Suc)
      then show ?thesis using c'(3) by metis
    qed
    then have "val x div 2 ^ (w - q) = val a div 2 ^ (w - q)"
      unfolding div_coarser [OF qp p] vp by (simp add: c_def)
    then have "x \<in> ?B" using x r by (simp add: block_def)
    moreover have "x \<notin> ?A" using vp c'(2) by (simp add: block_def c_def)
    ultimately show ?thesis by blast
  qed
  ultimately show "?A \<subset> ?B" by blast
qed

end

interpretation v4: address_family v4_value v4_ok "\<lambda>_. ()" 32 v4_eq v4_inc
  by unfold_locales (simp_all add: v4_value_less [simplified] v4_value_inj v4_order v4_inc_spec)

interpretation v6: address_family v6_value v6_ok scope_id 128 v6_eq v6_inc
  by unfold_locales (simp_all add: v6_value_less [simplified] v6_value_inj v6_order v6_inc_spec)

end
