(* ===== verification/Networks.thy ===== *)
theory Networks
  imports Addresses
begin

text \<open>
  \<^verbatim>\<open>asio/ip/network_v4.hpp\<close> and \<^verbatim>\<open>network_v6.hpp\<close> with their \<^verbatim>\<open>impl\<close> files, and the text of addresses and networks: the
  \<^verbatim>\<open>make_\<close> functions and \<^verbatim>\<open>to_string\<close>, over \<^verbatim>\<open>inet_pton\<close> and \<^verbatim>\<open>inet_ntop\<close> of \<^verbatim>\<open>detail/impl/socket_ops.ipp\<close> in the POSIX
  build. The functions of the system they call are a record of parameters.
\<close>

section \<open>IPv4 networks\<close>

text \<open>A network of either family; the prefix length is an \<^verbatim>\<open>unsigned short\<close>, given by its value.\<close>

record 'a network =
  net_address :: 'a
  prefix_length :: nat

definition new_network_v4 :: "address_v4 network" where
  "new_network_v4 = \<lparr>net_address = new_v4, prefix_length = 0\<rparr>"

definition network_v4 :: "address_v4 \<Rightarrow> nat \<Rightarrow> fault + address_v4 network" where
  "network_v4 addr prefix_len =
     (if prefix_len > 32 then Inl OutOfRange
      else Inr \<lparr>net_address = addr, prefix_length = prefix_len\<rparr>)"

text \<open>
  The loop over the bytes of the mask: whether it has finished, and the prefix length so far. The switch falls
  through: the case it enters and those that follow add one bit each, except the last, 0. That is as many bits as there
  are cases after the one it enters.
\<close>

fun mask_loop :: "bytes \<Rightarrow> bool \<Rightarrow> nat \<Rightarrow> fault + nat" where
  "mask_loop [] finished n = Inr n"
| "mask_loop (b # bs) finished n =
     (if finished then
        if b \<noteq> 0 then Inl InvalidArgument else mask_loop bs finished n
      else if b = 255 then mask_loop bs False (n + 8)
      else case dropWhile (\<lambda>l. l \<noteq> b) [254, 252, 248, 240, 224, 192, 128, 0] of
             [] \<Rightarrow> Inl OutOfRange
           | _ # cases \<Rightarrow> mask_loop bs True (n + length cases))"

definition network_v4_mask :: "address_v4 \<Rightarrow> address_v4 \<Rightarrow> fault + address_v4 network" where
  "network_v4_mask addr m =
     and_then (mask_loop (v4_to_bytes m) False 0) (\<lambda>n. Inr \<lparr>net_address = addr, prefix_length = n\<rparr>)"

definition netmask :: "address_v4 network \<Rightarrow> address_v4" where
  "netmask n =
     (let nmbits = 0xffffffff :: u32
      in v4_of_uint (if prefix_length n = 0 then 0 else push_bit (32 - prefix_length n) nmbits))"

definition v4_network :: "address_v4 network \<Rightarrow> address_v4" where
  "v4_network n = v4_of_uint (to_uint (net_address n) AND to_uint (netmask n))"

definition v4_net_broadcast :: "address_v4 network \<Rightarrow> address_v4" where
  "v4_net_broadcast n = v4_of_uint (to_uint (v4_network n) OR (to_uint (netmask n) XOR 0xFFFFFFFF))"

definition v4_is_host :: "address_v4 network \<Rightarrow> bool" where
  "v4_is_host n \<longleftrightarrow> prefix_length n = 32"

definition v4_hosts :: "address_v4 network \<Rightarrow> address_v4 address_range" where
  "v4_hosts n =
     (if v4_is_host n
      then \<lparr>range_begin = net_address n, range_end = v4_of_uint (to_uint (net_address n) + 1)\<rparr>
      else \<lparr>range_begin = v4_of_uint (to_uint (v4_network n) + 1), range_end = v4_net_broadcast n\<rparr>)"

definition v4_canonical :: "address_v4 network \<Rightarrow> fault + address_v4 network" where
  "v4_canonical n = network_v4 (v4_network n) (prefix_length n)"

definition v4_network_eq :: "address_v4 network \<Rightarrow> address_v4 network \<Rightarrow> bool" where
  "v4_network_eq a b \<longleftrightarrow> v4_eq (net_address a) (net_address b) \<and> prefix_length a = prefix_length b"

definition v4_is_subnet_of :: "address_v4 network \<Rightarrow> address_v4 network \<Rightarrow> fault + bool" where
  "v4_is_subnet_of n other =
     (if prefix_length other \<ge> prefix_length n then Inr False
      else and_then (network_v4 (net_address n) (prefix_length other)) (\<lambda>me.
             and_then (v4_canonical other) (\<lambda>a. and_then (v4_canonical me) (\<lambda>b. Inr (v4_network_eq a b)))))"

section \<open>IPv6 networks\<close>

definition new_network_v6 :: "address_v6 network" where
  "new_network_v6 = \<lparr>net_address = new_v6, prefix_length = 0\<rparr>"

definition network_v6 :: "address_v6 \<Rightarrow> nat \<Rightarrow> fault + address_v6 network" where
  "network_v6 addr prefix_len =
     (if prefix_len > 128 then Inl OutOfRange
      else Inr \<lparr>net_address = addr, prefix_length = prefix_len\<rparr>)"

text \<open>The loops over the bytes; \<open>i\<close> is the index of the first of \<open>bs\<close>. The masks are computed in \<^verbatim>\<open>int\<close>.\<close>

fun clear_loop :: "nat \<Rightarrow> nat \<Rightarrow> bytes \<Rightarrow> bytes" where
  "clear_loop p i [] = []"
| "clear_loop p i (b # bs) =
     (if p \<le> i * 8 then 0
      else if p < (i + 1) * 8 then b AND ucast (drop_bit (p mod 8) (0xFF00 :: u32))
      else b) # clear_loop p (i + 1) bs"

fun fill_loop :: "nat \<Rightarrow> nat \<Rightarrow> bytes \<Rightarrow> bytes" where
  "fill_loop p i [] = []"
| "fill_loop p i (b # bs) =
     (if p \<le> i * 8 then 0xFF
      else if p < (i + 1) * 8 then b OR ucast (drop_bit (p mod 8) (0xFF :: u32))
      else b) # fill_loop p (i + 1) bs"

definition v6_network :: "address_v6 network \<Rightarrow> address_v6" where
  "v6_network n =
     v6_of_bytes (clear_loop (prefix_length n) 0 (v6_to_bytes (net_address n))) (scope_id (net_address n))"

definition v6_hosts :: "address_v6 network \<Rightarrow> address_v6 address_range" where
  "v6_hosts n =
     (let begin_bytes = clear_loop (prefix_length n) 0 (v6_to_bytes (net_address n));
          end_bytes = fill_loop (prefix_length n) 0 (v6_to_bytes (net_address n))
      in \<lparr>range_begin = v6_of_bytes begin_bytes (scope_id (net_address n)),
          range_end = v6_inc (v6_of_bytes end_bytes (scope_id (net_address n)))\<rparr>)"

definition v6_is_host :: "address_v6 network \<Rightarrow> bool" where
  "v6_is_host n \<longleftrightarrow> prefix_length n = 128"

definition v6_canonical :: "address_v6 network \<Rightarrow> fault + address_v6 network" where
  "v6_canonical n = network_v6 (v6_network n) (prefix_length n)"

definition v6_network_eq :: "address_v6 network \<Rightarrow> address_v6 network \<Rightarrow> bool" where
  "v6_network_eq a b \<longleftrightarrow> v6_eq (net_address a) (net_address b) \<and> prefix_length a = prefix_length b"

definition v6_is_subnet_of :: "address_v6 network \<Rightarrow> address_v6 network \<Rightarrow> fault + bool" where
  "v6_is_subnet_of n other =
     (if prefix_length other \<ge> prefix_length n then Inr False
      else and_then (network_v6 (net_address n) (prefix_length other)) (\<lambda>me.
             and_then (v6_canonical other) (\<lambda>a. and_then (v6_canonical me) (\<lambda>b. Inr (v6_network_eq a b)))))"

section \<open>Addresses and text\<close>

text \<open>
  What the system's functions return: the bytes or the string, or the value of \<^verbatim>\<open>errno\<close>, 0 when it is not set; an index
  or 0; a name, if the index has one. \<^verbatim>\<open>errno\<close> stays 0 when they succeed.
\<close>

record inet_calls =
  pton4 :: "string \<Rightarrow> nat + bytes"
  pton6 :: "string \<Rightarrow> nat + bytes"
  ntop4 :: "bytes \<Rightarrow> nat + string"
  ntop6 :: "bytes \<Rightarrow> nat + string"
  if_nametoindex :: "string \<Rightarrow> u32"
  if_indextoname :: "u32 \<Rightarrow> string option"

datatype ip_error = IpOk | IpInvalid | IpErrno nat

definition c_str :: "string \<Rightarrow> string" where
  "c_str s = takeWhile (\<lambda>c. c \<noteq> CHR 0x00) s"

text \<open>\<^verbatim>\<open>find_first_of\<close> with a predicate; \<open>None\<close> is \<^verbatim>\<open>npos\<close>.\<close>

fun find_char :: "(char \<Rightarrow> bool) \<Rightarrow> string \<Rightarrow> nat option" where
  "find_char p [] = None"
| "find_char p (c # cs) = (if p c then Some 0 else map_option Suc (find_char p cs))"

text \<open>\<^verbatim>\<open>atoi\<close> of the C library: a value that is not an \<^verbatim>\<open>int\<close> is undefined behaviour.\<close>

definition int_max :: nat where
  "int_max = 2147483647"

definition atoi :: "string \<Rightarrow> fault + int" where
  "atoi str =
     (let rest = dropWhile is_space str;
          negative = (case rest of c # _ \<Rightarrow> c = CHR ''-'' | [] \<Rightarrow> False);
          digits = takeWhile is_digit
            (case rest of c # cs \<Rightarrow> if c = CHR ''-'' \<or> c = CHR ''+'' then cs else rest | [] \<Rightarrow> []);
          v = decimal_value digits
      in if (if negative then int_max + 1 else int_max) < v then Inl UndefinedBehaviour
         else Inr (if negative then - int v else int v))"

definition is_scoped :: "bytes \<Rightarrow> bool" where
  "is_scoped bs \<longleftrightarrow> bs ! 0 = 0xfe \<and> bs ! 1 AND 0xc0 = 0x80 \<or> bs ! 0 = 0xff \<and> bs ! 1 AND 0x0f = 0x02"

definition errno_error :: "nat \<Rightarrow> ip_error" where
  "errno_error e = (if e = 0 then IpInvalid else IpErrno e)"

definition inet_pton4 :: "inet_calls \<Rightarrow> string \<Rightarrow> ip_error + bytes" where
  "inet_pton4 os src = (case pton4 os src of Inl e \<Rightarrow> Inl (errno_error e) | Inr bs \<Rightarrow> Inr bs)"

text \<open>\<^verbatim>\<open>INET6_ADDRSTRLEN + 1 + IF_NAMESIZE\<close>, which are 46 and 16.\<close>

definition max_addr_v6_str_len :: nat where
  "max_addr_v6_str_len = 63"

definition inet_pton6 :: "inet_calls \<Rightarrow> string \<Rightarrow> fault + (ip_error + bytes \<times> u32)" where
  "inet_pton6 os src =
     (let if_name = find_char (\<lambda>c. c = CHR ''%'') src in
      if (case if_name of Some i \<Rightarrow> i > max_addr_v6_str_len | None \<Rightarrow> False) then Inr (Inl IpInvalid)
      else
        let src_ptr = (case if_name of Some i \<Rightarrow> take i src | None \<Rightarrow> src) in
        case pton6 os src_ptr of
          Inl e \<Rightarrow> Inr (Inl (errno_error e))
        | Inr bs \<Rightarrow>
            (case if_name of
               None \<Rightarrow> Inr (Inr (bs, 0))
             | Some i \<Rightarrow>
                 let sid = (if is_scoped bs then if_nametoindex os (drop (i + 1) src) else 0) in
                 if sid = 0 then and_then (atoi (drop (i + 1) src)) (\<lambda>n. Inr (Inr (bs, of_int n)))
                 else Inr (Inr (bs, sid))))"

definition inet_ntop6 :: "inet_calls \<Rightarrow> bytes \<Rightarrow> u32 \<Rightarrow> nat + string" where
  "inet_ntop6 os src sid =
     (case ntop6 os src of
        Inl e \<Rightarrow> Inl e
      | Inr dest \<Rightarrow>
          if sid \<noteq> 0 then
            let if_name = (if is_scoped src then if_indextoname os sid else None)
            in Inr (dest @ ''%'' @ (case if_name of None \<Rightarrow> show_u32 sid | Some name \<Rightarrow> name))
          else Inr dest)"

definition throw_error :: "'a \<times> ip_error \<Rightarrow> fault + 'a" where
  "throw_error = (\<lambda>(x, ec). if ec = IpOk then Inr x else Inl SystemError)"

definition make_address_v4 :: "inet_calls \<Rightarrow> string \<Rightarrow> address_v4 \<times> ip_error" where
  "make_address_v4 os str =
     (case inet_pton4 os (c_str str) of
        Inl ec \<Rightarrow> (new_v4, ec)
      | Inr bs \<Rightarrow> (v4_of_bytes bs, IpOk))"

definition make_address_v6 :: "inet_calls \<Rightarrow> string \<Rightarrow> fault + address_v6 \<times> ip_error" where
  "make_address_v6 os str =
     and_then (inet_pton6 os (c_str str)) (\<lambda>r. Inr
       (case r of
          Inl ec \<Rightarrow> (new_v6, ec)
        | Inr (bs, sid) \<Rightarrow> (v6_of_bytes bs sid, IpOk)))"

definition make_address :: "inet_calls \<Rightarrow> string \<Rightarrow> fault + address \<times> ip_error" where
  "make_address os str =
     and_then (make_address_v6 os (c_str str)) (\<lambda>(ipv6_address, ec).
       if ec = IpOk then Inr (address_of_v6 ipv6_address, ec)
       else
         let (ipv4_address, ec) = make_address_v4 os (c_str str) in
         if ec = IpOk then Inr (address_of_v4 ipv4_address, ec) else Inr (new_address, ec))"

definition make_address_v4_throws :: "inet_calls \<Rightarrow> string \<Rightarrow> fault + address_v4" where
  "make_address_v4_throws os str = throw_error (make_address_v4 os str)"

definition make_address_v6_throws :: "inet_calls \<Rightarrow> string \<Rightarrow> fault + address_v6" where
  "make_address_v6_throws os str = and_then (make_address_v6 os str) throw_error"

definition make_address_throws :: "inet_calls \<Rightarrow> string \<Rightarrow> fault + address" where
  "make_address_throws os str = and_then (make_address os str) throw_error"

definition v4_to_string :: "inet_calls \<Rightarrow> address_v4 \<Rightarrow> fault + string" where
  "v4_to_string os a = (case ntop4 os (s_addr a) of Inl e \<Rightarrow> Inl SystemError | Inr s \<Rightarrow> Inr s)"

definition v6_to_string :: "inet_calls \<Rightarrow> address_v6 \<Rightarrow> fault + string" where
  "v6_to_string os a = (case inet_ntop6 os (s6_addr a) (scope_id a) of Inl e \<Rightarrow> Inl SystemError | Inr s \<Rightarrow> Inr s)"

definition address_to_string :: "inet_calls \<Rightarrow> address \<Rightarrow> fault + string" where
  "address_to_string os a =
     (if type_of a = Ipv6 then v6_to_string os (ipv6_address a) else v4_to_string os (ipv4_address a))"

section \<open>Networks and text\<close>

text \<open>\<^verbatim>\<open>make_network_v4\<close> and \<^verbatim>\<open>make_network_v6\<close> have the same body; what differs is a parameter.\<close>

definition make_network ::
    "(string \<Rightarrow> fault + 'a \<times> ip_error) \<Rightarrow> ('a \<Rightarrow> nat \<Rightarrow> fault + 'a network) \<Rightarrow> 'a network \<Rightarrow> nat \<Rightarrow> string \<Rightarrow>
     fault + 'a network \<times> ip_error" where
  "make_network make_addr network none max_len str =
     (case find_char (\<lambda>c. c = CHR ''/'') str of
        None \<Rightarrow> Inr (none, IpInvalid)
      | Some pos \<Rightarrow>
          if pos = length str - 1 then Inr (none, IpInvalid)
          else if find_char (\<lambda>c. \<not> is_digit c) (drop (pos + 1) str) \<noteq> None then Inr (none, IpInvalid)
          else
            and_then (make_addr (take pos str)) (\<lambda>(addr, ec).
              if ec \<noteq> IpOk then Inr (none, ec)
              else
                and_then (atoi (c_str (drop (pos + 1) str))) (\<lambda>prefix_len.
                  if prefix_len < 0 \<or> prefix_len > int max_len then Inr (none, IpInvalid)
                  else and_then (network addr (nat prefix_len)) (\<lambda>n. Inr (n, IpOk)))))"

definition make_network_v4 :: "inet_calls \<Rightarrow> string \<Rightarrow> fault + address_v4 network \<times> ip_error" where
  "make_network_v4 os str = make_network (\<lambda>s. Inr (make_address_v4 os s)) network_v4 new_network_v4 32 str"

definition make_network_v6 :: "inet_calls \<Rightarrow> string \<Rightarrow> fault + address_v6 network \<times> ip_error" where
  "make_network_v6 os str = make_network (make_address_v6 os) network_v6 new_network_v6 128 str"

definition make_network_v4_throws :: "inet_calls \<Rightarrow> string \<Rightarrow> fault + address_v4 network" where
  "make_network_v4_throws os str = and_then (make_network_v4 os str) throw_error"

definition make_network_v6_throws :: "inet_calls \<Rightarrow> string \<Rightarrow> fault + address_v6 network" where
  "make_network_v6_throws os str = and_then (make_network_v6 os str) throw_error"

definition v4_network_to_string :: "inet_calls \<Rightarrow> address_v4 network \<Rightarrow> fault + string" where
  "v4_network_to_string os n =
     and_then (v4_to_string os (net_address n)) (\<lambda>s. Inr (s @ ''/'' @ dec_nat (prefix_length n)))"

definition v6_network_to_string :: "inet_calls \<Rightarrow> address_v6 network \<Rightarrow> fault + string" where
  "v6_network_to_string os n =
     and_then (v6_to_string os (net_address n)) (\<lambda>s. Inr (s @ ''/'' @ dec_nat (prefix_length n)))"

end
