(* ===== verification/NetworkProperties.thy ===== *)
theory NetworkProperties
  imports Networks AddressSpec
begin

text \<open>
  Networks as blocks of addresses: the network address, the hosts and subnets; netmasks and prefix lengths; the text of
  a network.
\<close>

definition v4_net_ok :: "address_v4 network \<Rightarrow> bool" where
  "v4_net_ok n \<longleftrightarrow> v4_ok (net_address n) \<and> prefix_length n \<le> 32"

definition v6_net_ok :: "address_v6 network \<Rightarrow> bool" where
  "v6_net_ok n \<longleftrightarrow> v6_ok (net_address n) \<and> prefix_length n \<le> 128"

definition v4_block :: "address_v4 network \<Rightarrow> address_v4 set" where
  "v4_block n = block v4_value v4_ok (\<lambda>_. ()) 32 (net_address n) (prefix_length n)"

definition v6_block :: "address_v6 network \<Rightarrow> address_v6 set" where
  "v6_block n = block v6_value v6_ok scope_id 128 (net_address n) (prefix_length n)"

text \<open>The first address of a block of \<open>2 ^ k\<close> with \<open>v\<close> in it.\<close>

definition floor_to :: "nat \<Rightarrow> nat \<Rightarrow> nat" where
  "floor_to k v = v div 2 ^ k * 2 ^ k"

lemma floor_to_le: "floor_to k v \<le> v"
  by (simp add: floor_to_def)

lemma floor_to_div: "floor_to k v div 2 ^ k = v div 2 ^ k"
  by (simp add: floor_to_def)

lemma same_block: "x div 2 ^ k = v div 2 ^ k \<longleftrightarrow> floor_to k v \<le> x \<and> x < floor_to k v + 2 ^ k" for x v :: nat
proof
  assume "x div 2 ^ k = v div 2 ^ k"
  then have "floor_to k v = floor_to k x" by (simp add: floor_to_def)
  moreover have "x = floor_to k x + x mod 2 ^ k" unfolding floor_to_def by (rule div_mult_mod_eq [symmetric])
  moreover have "x mod 2 ^ k < 2 ^ k" by simp
  ultimately show "floor_to k v \<le> x \<and> x < floor_to k v + 2 ^ k" by linarith
next
  assume "floor_to k v \<le> x \<and> x < floor_to k v + 2 ^ k"
  then obtain d where "x = d + v div 2 ^ k * 2 ^ k" "d < 2 ^ k"
    unfolding floor_to_def by (metis add.commute le_iff_add nat_add_left_cancel_less)
  then show "x div 2 ^ k = v div 2 ^ k" by simp
qed

lemma floor_to_less:
  assumes "v < 2 ^ w" "k \<le> w"
  shows "floor_to k v + 2 ^ k \<le> 2 ^ w"
proof -
  have w: "(2 :: nat) ^ w = 2 ^ (w - k) * 2 ^ k" using assms(2) by (simp flip: power_add)
  then have "v div 2 ^ k < 2 ^ (w - k)" using assms(1) by (intro less_mult_imp_div_less) simp
  then have "(v div 2 ^ k + 1) * 2 ^ k \<le> 2 ^ (w - k) * 2 ^ k" by (intro mult_le_mono1) simp
  then show ?thesis unfolding w floor_to_def by (simp add: algebra_simps)
qed

lemma unat_and_high:
  fixes a :: "'a::len word"
  shows "unat (a AND NOT (mask k)) = floor_to k (unat a)"
proof -
  have "a AND NOT (mask k) = push_bit k (drop_bit k a)"
    by (rule bit_word_eqI) (auto simp: bit_simps)
  then have "unat (a AND NOT (mask k)) = take_bit LENGTH('a) (push_bit k (drop_bit k (unat a)))"
    by (simp only: unsigned_push_bit_eq unsigned_drop_bit_eq) (simp add: take_bit_push_bit drop_bit_take_bit)
  also have "push_bit k (drop_bit k (unat a)) = floor_to k (unat a)"
    by (simp only: push_bit_eq_mult drop_bit_eq_div floor_to_def)
  also have "take_bit LENGTH('a) (floor_to k (unat a)) = floor_to k (unat a)"
    using floor_to_le [of k "unat a"] unsigned_less [of a, where ?'a = nat]
    by (intro take_bit_nat_eq_self) linarith
  finally show ?thesis .
qed

lemma unat_low: "k \<le> LENGTH('a) \<Longrightarrow> unat (mask k :: 'a::len word) = 2 ^ k - 1"
proof -
  assume k: "k \<le> LENGTH('a)"
  have "(2 :: nat) ^ k \<le> 2 ^ LENGTH('a)" using k by (intro power_increasing) simp_all
  moreover have "(1 :: nat) \<le> 2 ^ k" by simp
  ultimately have "(2 :: nat) ^ k - 1 < 2 ^ LENGTH('a)" by linarith
  moreover have "(mask k :: 'a word) = of_nat (mask k)" by (rule of_nat_mask_eq [symmetric])
  then have "(mask k :: 'a word) = of_nat (2 ^ k - 1)" by (metis mask_eq_exp_minus_1)
  ultimately show ?thesis by (metis mod_less unat_of_nat)
qed

lemma unat_or_low:
  fixes a :: "'a::len word"
  assumes "k \<le> LENGTH('a)"
  shows "unat (a OR mask k) = floor_to k (unat a) + (2 ^ k - 1)"
proof -
  have "a OR mask k = (a AND NOT (mask k)) OR mask k"
    by (rule bit_word_eqI) (auto simp: bit_simps)
  also have "\<dots> = (a AND NOT (mask k)) + mask k"
    by (rule sym, rule disjunctive_add) (auto simp: bit_simps)
  finally have "unat (a OR mask k) = (floor_to k (unat a) + (2 ^ k - 1)) mod 2 ^ LENGTH('a)"
    by (simp only: unat_word_ariths(1) unat_and_high unat_low [OF assms])
  moreover have "floor_to k (unat a) + 2 ^ k \<le> 2 ^ LENGTH('a)"
    by (rule floor_to_less) (use assms unsigned_less [of a, where ?'a = nat] in auto)
  moreover have "(1::nat) \<le> 2 ^ k" by simp
  ultimately show ?thesis by (simp add: mod_less)
qed

section \<open>The first and the last address\<close>

lemma to_uint_netmask: "prefix_length n \<le> 32 \<Longrightarrow> to_uint (netmask n) = NOT (mask (32 - prefix_length n))"
proof -
  have ones: "(0xffffffff :: u32) = - 1" by simp
  have "(NOT (mask 32) :: u32) = 0" by (rule bit_word_eqI) (simp add: bit_simps)
  moreover have "push_bit k (- 1) = (NOT (mask k) :: u32)" for k
    by (rule bit_word_eqI) (auto simp: bit_simps)
  ultimately show ?thesis unfolding netmask_def Let_def ones by auto
qed

lemma v4_network_spec:
  assumes "v4_net_ok n"
  shows "v4_ok (v4_network n)" "v4_value (v4_network n) = floor_to (32 - prefix_length n) (v4_value (net_address n))"
  using assms unat_and_high [of "to_uint (net_address n)" "32 - prefix_length n"]
  by (simp_all add: v4_network_def v4_value_def to_uint_netmask v4_net_ok_def)

lemma v4_broadcast_spec:
  assumes "v4_net_ok n"
  shows "v4_ok (v4_net_broadcast n)"
    "v4_value (v4_net_broadcast n) =
      floor_to (32 - prefix_length n) (v4_value (net_address n)) + (2 ^ (32 - prefix_length n) - 1)"
proof -
  let ?k = "32 - prefix_length n"
  have "NOT (mask ?k) XOR 0xFFFFFFFF = (mask ?k :: u32)"
  proof -
    have ones: "(0xFFFFFFFF :: u32) = - 1" by simp
    show ?thesis unfolding ones by (rule bit_word_eqI) (auto simp: bit_simps)
  qed
  then have "to_uint (v4_net_broadcast n) = to_uint (v4_network n) OR mask ?k"
    using assms by (simp add: v4_net_broadcast_def to_uint_netmask v4_net_ok_def)
  then have "v4_value (v4_net_broadcast n) = floor_to ?k (v4_value (v4_network n)) + (2 ^ ?k - 1)"
    unfolding v4_value_def by (simp only:) (rule unat_or_low, simp)
  then show "v4_value (v4_net_broadcast n) = floor_to ?k (v4_value (net_address n)) + (2 ^ ?k - 1)"
    using v4_network_spec(2) [OF assms] by (simp add: floor_to_def)
  show "v4_ok (v4_net_broadcast n)" by (simp add: v4_net_broadcast_def)
qed

lemma byte_masks:
  assumes "0 < r" "r < 8"
  shows "ucast (drop_bit r (0xFF00 :: u32)) = (NOT (mask (8 - r)) :: u8)"
    "ucast (drop_bit r (0xFF :: u32)) = (mask (8 - r) :: u8)"
proof -
  from assms consider "r = 1" | "r = 2" | "r = 3" | "r = 4" | "r = 5" | "r = 6" | "r = 7" by linarith
  then show "ucast (drop_bit r (0xFF00 :: u32)) = (NOT (mask (8 - r)) :: u8)"
    by cases (simp_all add: mask_eq_exp_minus_1 not_eq_complement)
  from assms consider "r = 1" | "r = 2" | "r = 3" | "r = 4" | "r = 5" | "r = 6" | "r = 7" by linarith
  then show "ucast (drop_bit r (0xFF :: u32)) = (mask (8 - r) :: u8)"
    by cases (simp_all add: mask_numeral)
qed

lemma length_clear_loop [simp]: "length (clear_loop p i bs) = length bs"
  by (induction bs arbitrary: i) auto

lemma length_fill_loop [simp]: "length (fill_loop p i bs) = length bs"
  by (induction bs arbitrary: i) auto

lemma floor_to_digits:
  assumes "k \<le> m"
  shows "floor_to k (v + 2 ^ m * u) = floor_to k v + 2 ^ m * u" 
proof -
  have "2 ^ m * u = 2 ^ k * (2 ^ (m - k) * u)" using assms(1) by (simp flip: power_add mult.assoc)
  moreover have "(v + 2 ^ k * c) div 2 ^ k * 2 ^ k = v div 2 ^ k * 2 ^ k + 2 ^ k * c" for c
    by (simp only: div_mult_self2 power_not_zero [OF zero_neq_numeral [symmetric]] simp_thms) (simp add: algebra_simps)
  ultimately show ?thesis unfolding floor_to_def by metis
qed

lemma floor_to_top:
  assumes "v < 2 ^ m"
  shows "floor_to (m + j) (v + 2 ^ m * u) = 2 ^ m * floor_to j u"
proof -
  have "(v + 2 ^ m * u) div 2 ^ (m + j) = u div 2 ^ j"
    using assms by (simp add: power_add div_mult2_eq)
  then show ?thesis by (simp add: floor_to_def power_add algebra_simps)
qed

lemma floor_to_small: "v < 2 ^ k \<Longrightarrow> floor_to k v = 0"
  by (simp add: floor_to_def)

text \<open>The loops of \<open>v6_network\<close> and \<open>v6_hosts\<close>, from byte \<open>i\<close> on.\<close>

lemma loops_value:
  "p \<le> 8 * (i + length bs) \<Longrightarrow>
   le_nat (rev (clear_loop p i bs)) = floor_to (8 * length bs - (p - 8 * i)) (le_nat (rev bs))
   \<and> le_nat (rev (fill_loop p i bs)) =
       floor_to (8 * length bs - (p - 8 * i)) (le_nat (rev bs)) + (2 ^ (8 * length bs - (p - 8 * i)) - 1)"
proof (induction bs arbitrary: i)
  case (Cons b bs)
  define m where "m = 8 * length bs"
  define v where "v = le_nat (rev bs)"
  have pow: "256 ^ length bs = (2 :: nat) ^ m" by (simp add: m_def power_mult)
  have v: "v < 2 ^ m" using le_nat_bound [of "rev bs"] by (simp add: v_def pow)
  have le: "p \<le> 8 * (i + 1 + length bs)" using Cons.prems by simp
  note IH = Cons.IH [OF le, folded v_def m_def, THEN conjunct1] Cons.IH [OF le, folded v_def m_def, THEN conjunct2]
  have val: "le_nat (rev (b # bs)) = v + 2 ^ m * unat b"
    unfolding be_nat_Cons v_def pow ..
  have valc: "le_nat (rev (clear_loop p i (b # bs))) = floor_to (m - (p - 8 * (i + 1))) v
      + 2 ^ m * unat (if p \<le> i * 8 then 0
      else if p < (i + 1) * 8 then b AND ucast (drop_bit (p mod 8) (0xFF00 :: u32)) else b)"
    unfolding clear_loop.simps be_nat_Cons length_clear_loop pow IH(1) ..
  have valf: "le_nat (rev (fill_loop p i (b # bs))) = floor_to (m - (p - 8 * (i + 1))) v
      + (2 ^ (m - (p - 8 * (i + 1))) - 1) + 2 ^ m * unat (if p \<le> i * 8 then 0xFF
      else if p < (i + 1) * 8 then b OR ucast (drop_bit (p mod 8) (0xFF :: u32)) else b)"
    unfolding fill_loop.simps be_nat_Cons length_fill_loop pow IH(2) ..
  have ge1: "(1::nat) \<le> 2 ^ n" for n by simp
  consider "p \<le> i * 8" | "i * 8 < p" "p < (i + 1) * 8" | "(i + 1) * 8 \<le> p" by linarith
  then have "le_nat (rev (clear_loop p i (b # bs))) = floor_to (m + 8 - (p - 8 * i)) (v + 2 ^ m * unat b)
    \<and> le_nat (rev (fill_loop p i (b # bs))) = floor_to (m + 8 - (p - 8 * i)) (v + 2 ^ m * unat b)
        + (2 ^ (m + 8 - (p - 8 * i)) - 1)"
  proof cases
    case 1
    then have k: "m - (p - 8 * (i + 1)) = m" "m + 8 - (p - 8 * i) = m + 8" by simp_all
    have "floor_to 8 (unat b) = 0" by (rule floor_to_small) (simp add: byte_less)
    then have f: "floor_to (m + 8) (v + 2 ^ m * unat b) = 0" by (simp add: floor_to_top [OF v])
    have "unat (0xFF :: u8) = 255" by simp
    moreover have "(2::nat) ^ (m + 8) = 256 * 2 ^ m" by (simp add: power_add)
    ultimately show ?thesis
      unfolding valc valf k f floor_to_small [OF v] using 1 ge1 [of m] by simp
  next
    case 2
    define q where "q = p - 8 * i"
    have q: "0 < q" "q < 8" "p mod 8 = q"
    proof -
      show "0 < q" "q < 8" using 2 by (simp_all add: q_def)
      moreover have "p = q + 8 * i" using 2 by (simp add: q_def)
      ultimately show "p mod 8 = q" by simp
    qed
    have k: "m - (p - 8 * (i + 1)) = m" "m + 8 - (p - 8 * i) = m + (8 - q)"
      using 2 q by (simp_all add: q_def [symmetric])
    have c: "unat (b AND ucast (drop_bit (p mod 8) (0xFF00 :: u32))) = floor_to (8 - q) (unat b)"
      unfolding q(3) byte_masks(1) [OF q(1,2)] by (rule unat_and_high)
    have f: "unat (b OR ucast (drop_bit (p mod 8) (0xFF :: u32))) = floor_to (8 - q) (unat b) + (2 ^ (8 - q) - 1)"
      unfolding q(3) byte_masks(2) [OF q(1,2)] by (rule unat_or_low) simp
    have ifs: "\<not> p \<le> i * 8" using 2 by simp
    have "2 ^ m - 1 + 2 ^ m * (x + (2 ^ j - 1)) = 2 ^ m * x + (2 ^ (m + j) - 1)" for x j :: nat
    proof -
      obtain y where y: "(2::nat) ^ j = Suc y" by (cases "(2::nat) ^ j") auto
      show ?thesis using ge1 [of m] by (simp add: power_add y algebra_simps)
    qed
    then show ?thesis
      unfolding valc valf k floor_to_small [OF v] floor_to_top [OF v] if_not_P [OF ifs] if_P [OF 2(2)] c f by simp
  next
    case 3
    then have k: "m + 8 - (p - 8 * i) = m - (p - 8 * (i + 1))" by simp
    have ifs: "\<not> p \<le> i * 8" "\<not> p < (i + 1) * 8" using 3 by simp_all
    show ?thesis
      unfolding valc valf k if_not_P [OF ifs(1)] if_not_P [OF ifs(2)] floor_to_digits [OF diff_le_self]
      by (intro conjI refl) (simp only: ac_simps)
  qed
  then show ?case
    unfolding val by (simp add: m_def add.commute)
qed (simp add: floor_to_def)

lemma v6_network_spec:
  assumes "v6_net_ok n"
  shows "v6_ok (v6_network n)" "scope_id (v6_network n) = scope_id (net_address n)"
    "v6_value (v6_network n) = floor_to (128 - prefix_length n) (v6_value (net_address n))"
  using assms loops_value [of "prefix_length n" 0 "s6_addr (net_address n)"]
  by (simp_all add: v6_net_ok_def v6_ok_def v6_network_def v6_of_bytes_def v6_to_bytes_def v6_value_def)

section \<open>Subnets\<close>

lemma floor_to_eq_iff: "floor_to k x = floor_to k y \<longleftrightarrow> x div 2 ^ k = y div 2 ^ k"
  by (simp add: floor_to_def)

text \<open>
  Property C37. A network is a subnet of another exactly if its addresses, all that agree with it in the prefix, are some
  but not all of the other's. The test, which compares canonical networks, never fails.
\<close>

theorem subnet_is_strict_subset:
  assumes "v4_net_ok n4" "v4_net_ok m4" "v6_net_ok n6" "v6_net_ok m6"
  shows "v4_is_subnet_of n4 m4 = Inr (v4_block n4 \<subset> v4_block m4)
    \<and> v6_is_subnet_of n6 m6 = Inr (v6_block n6 \<subset> v6_block m6)"
proof
  have me4: "v4_net_ok \<lparr>net_address = net_address n4, prefix_length = prefix_length m4\<rparr>"
    using assms by (simp add: v4_net_ok_def)
  have "v4_network_eq \<lparr>net_address = v4_network m4, prefix_length = prefix_length m4\<rparr>
      \<lparr>net_address = v4_network \<lparr>net_address = net_address n4, prefix_length = prefix_length m4\<rparr>,
       prefix_length = prefix_length m4\<rparr>
    \<longleftrightarrow> v4_value (net_address n4) div 2 ^ (32 - prefix_length m4) =
        v4_value (net_address m4) div 2 ^ (32 - prefix_length m4)"
    using v4_network_spec [OF assms(2)] v4_network_spec [OF me4]
    by (auto simp: v4_network_eq_def v4_order floor_to_eq_iff dest: v4_value_inj)
  then show "v4_is_subnet_of n4 m4 = Inr (v4_block n4 \<subset> v4_block m4)"
    using assms v4.block_strict_subset [of "net_address n4" "net_address m4" "prefix_length n4" "prefix_length m4"]
    by (simp add: v4_is_subnet_of_def v4_canonical_def network_v4_def v4_net_ok_def v4_block_def)
next
  have me6: "v6_net_ok \<lparr>net_address = net_address n6, prefix_length = prefix_length m6\<rparr>"
    using assms by (simp add: v6_net_ok_def)
  have "v6_network_eq \<lparr>net_address = v6_network m6, prefix_length = prefix_length m6\<rparr>
      \<lparr>net_address = v6_network \<lparr>net_address = net_address n6, prefix_length = prefix_length m6\<rparr>,
       prefix_length = prefix_length m6\<rparr>
    \<longleftrightarrow> scope_id (net_address n6) = scope_id (net_address m6)
      \<and> v6_value (net_address n6) div 2 ^ (128 - prefix_length m6) =
        v6_value (net_address m6) div 2 ^ (128 - prefix_length m6)"
    using v6_network_spec [OF assms(4)] v6_network_spec [OF me6]
    by (auto simp: v6_network_eq_def v6_order floor_to_eq_iff dest: v6_value_inj)
  then show "v6_is_subnet_of n6 m6 = Inr (v6_block n6 \<subset> v6_block m6)"
    using assms v6.block_strict_subset [of "net_address n6" "net_address m6" "prefix_length n6" "prefix_length m6"]
    by (simp add: v6_is_subnet_of_def v6_canonical_def network_v6_def v6_net_ok_def v6_block_def)
qed

text \<open>10.0.0.0 with a prefix length, and a block of documentation addresses in IPv6.\<close>

definition net_10 :: "nat \<Rightarrow> address_v4 network" where
  "net_10 p = \<lparr>net_address = v4_of_bytes [10, 0, 0, 0], prefix_length = p\<rparr>"

definition net_doc :: "nat \<Rightarrow> address_v6 network" where
  "net_doc p = \<lparr>net_address = v6_of_bytes [0x20, 0x01, 0x0d, 0xb8, 0, 0, 0, 0, 0, 0, 0, 0, 0, 0, 0, 0] 0, prefix_length = p\<rparr>"

lemma example_networks:
  "p \<le> 32 \<Longrightarrow> v4_net_ok (net_10 p)" "p \<le> 128 \<Longrightarrow> v6_net_ok (net_doc p)"
  by (simp_all add: v4_net_ok_def net_10_def v4_ok_def v4_of_bytes_def v6_net_ok_def net_doc_def v6_ok_def
      v6_of_bytes_def)

lemma subnet_is_strict_subset_witness:
  "v4_is_subnet_of (net_10 24) (net_10 8) = Inr (v4_block (net_10 24) \<subset> v4_block (net_10 8))
   \<and> v6_is_subnet_of (net_doc 48) (net_doc 32) = Inr (v6_block (net_doc 48) \<subset> v6_block (net_doc 32))"
  by (rule subnet_is_strict_subset) (simp_all add: example_networks)

section \<open>Netmasks\<close>

text \<open>The bytes of the masks: 255 as often as the length has eight bits, then the bits that are left, then 0.\<close>

fun prefix_bytes :: "nat \<Rightarrow> nat \<Rightarrow> bytes" where
  "prefix_bytes 0 p = []"
| "prefix_bytes (Suc n) p =
     (if 8 \<le> p then 255 # prefix_bytes n (p - 8) else NOT (mask (8 - p)) # prefix_bytes n 0)"

lemma nth_prefix_bytes:
  "i < n \<Longrightarrow> prefix_bytes n p ! i = NOT (mask (8 - min 8 (p - 8 * i)))"
proof (induction n p arbitrary: i rule: prefix_bytes.induct)
  case (2 n p)
  have "(255 :: u8) = NOT (mask 0)" by simp
  then show ?case
    using 2 by (cases i) (auto simp: min_def algebra_simps)
qed simp

lemma length_prefix_bytes [simp]: "length (prefix_bytes n p) = n"
  by (induction n p rule: prefix_bytes.induct) auto

lemma netmask_prefix_bytes:
  assumes "p \<le> 32"
  shows "s_addr (netmask \<lparr>net_address = a, prefix_length = p\<rparr>) = prefix_bytes 4 p"
proof (rule nth_equalityI)
  let ?n = "\<lparr>net_address = a, prefix_length = p\<rparr>"
  have "host_to_network_long (to_uint (netmask ?n)) = s_addr (netmask ?n)"
    unfolding to_uint_def by (rule network_to_host_round_trip)
      (simp add: netmask_def v4_of_uint_def host_to_network_long_def)
  then have h: "s_addr (netmask ?n) = host_to_network_long (NOT (mask (32 - p)))"
    using to_uint_netmask [of ?n] assms by simp
  show "length (s_addr (netmask ?n)) = length (prefix_bytes 4 p)"
    unfolding h by (simp add: host_to_network_long_def)
  fix i assume "i < length (s_addr (netmask ?n))"
  then have i: "i < 4" unfolding h by (simp add: host_to_network_long_def)
  show "s_addr (netmask ?n) ! i = prefix_bytes 4 p ! i"
  proof (rule bit_word_eqI)
    fix j assume "j < LENGTH(8)"
    then have j: "j < 8" by simp
    have "32 - p \<le> j + 8 * (3 - i) \<longleftrightarrow> 8 - min 8 (p - 8 * i) \<le> j"
      using assms i j by (auto simp: min_def)
    then show "bit (s_addr (netmask ?n) ! i) j = bit (prefix_bytes 4 p ! i) j"
      unfolding h bit_host_to_network_long [OF i] nth_prefix_bytes [OF i]
      using i j by (auto simp: bit_simps)
  qed
qed

text \<open>What the \<^verbatim>\<open>switch\<close> does for a byte.\<close>

definition mask_cases :: "(u8 \<times> nat) list" where
  "mask_cases = [(254, 7), (252, 6), (248, 5), (240, 4), (224, 3), (192, 2), (128, 1), (0, 0)]"

lemma switch_spec:
  "(case dropWhile (\<lambda>l. l \<noteq> b) [254, 252, 248, 240, 224, 192, 128, 0] of [] \<Rightarrow> Inl OutOfRange | _ # cases \<Rightarrow> f (length cases))
   = (case map_of mask_cases b of None \<Rightarrow> Inl OutOfRange | Some k \<Rightarrow> f k)"
  by (simp add: mask_cases_def numeral_eq_Suc)

lemma mask_cases_entries: "\<forall>(b, k)\<in>set mask_cases. k < 8 \<and> b = NOT (mask (8 - k))"
  by (simp add: mask_cases_def mask_eq_exp_minus_1 not_eq_complement)

lemma map_of_mask_cases: "map_of mask_cases b = Some k \<longleftrightarrow> k < 8 \<and> b = NOT (mask (8 - k))"
proof
  assume "map_of mask_cases b = Some k"
  then have "(b, k) \<in> set mask_cases" by (rule map_of_SomeD)
  then show "k < 8 \<and> b = NOT (mask (8 - k))" using mask_cases_entries by blast
next
  assume k: "k < 8 \<and> b = NOT (mask (8 - k))"
  have keys: "map snd mask_cases = [7, 6, 5, 4, 3, 2, 1, 0]" "distinct (map fst mask_cases)"
    by (simp_all add: mask_cases_def)
  from k have "k \<in> set (map snd mask_cases)" unfolding keys(1) by auto
  then obtain b' where b': "(b', k) \<in> set mask_cases" by auto
  then have "b' = b" using mask_cases_entries k by blast
  with b' show "map_of mask_cases b = Some k" using keys(2) by simp
qed

lemma mask_loop_finished: "mask_loop bs True n = Inr r \<longleftrightarrow> r = n \<and> bs = replicate (length bs) 0"
  by (induction bs) auto

lemma prefix_bytes_0: "prefix_bytes n 0 = replicate n 0"
proof (induction n)
  case (Suc n)
  have "(NOT (mask 8) :: u8) = 0" by (rule bit_word_eqI) (simp add: bit_simps)
  with Suc show ?case by simp
qed simp

lemma mask_loop_spec:
  "mask_loop bs False n = Inr r \<longleftrightarrow> n \<le> r \<and> r \<le> n + 8 * length bs \<and> bs = prefix_bytes (length bs) (r - n)"
proof (induction bs arbitrary: n)
  case (Cons b bs)
  have no255: "(255 :: u8) \<noteq> NOT (mask (8 - k))" if "k < 8" for k
    using map_of_mask_cases [of 255 k] that by (auto simp: mask_cases_def)
  show ?case
  proof (cases "b = 255")
    case True
    have "b # bs = prefix_bytes (Suc (length bs)) (r - n) \<longleftrightarrow> 8 \<le> r - n \<and> bs = prefix_bytes (length bs) (r - n - 8)"
      using True no255 [of "r - n"] by auto
    then show ?thesis using True Cons.IH [of "n + 8"] by (auto simp: diff_diff_left)
  next
    case False
    have "mask_loop (b # bs) False n =
        (case map_of mask_cases b of None \<Rightarrow> Inl OutOfRange | Some k \<Rightarrow> mask_loop bs True (n + k))"
      by (simp only: mask_loop.simps False if_False switch_spec [where b = b and f = "\<lambda>k. mask_loop bs True (n + k)"])
    then have "mask_loop (b # bs) False n = Inr r \<longleftrightarrow>
        (\<exists>k. map_of mask_cases b = Some k \<and> mask_loop bs True (n + k) = Inr r)"
      by (simp split: option.splits)
    also have "\<dots> \<longleftrightarrow> (\<exists>k<8. b = NOT (mask (8 - k)) \<and> r = n + k \<and> bs = replicate (length bs) 0)"
      unfolding map_of_mask_cases mask_loop_finished by auto
    also have "\<dots> \<longleftrightarrow> n \<le> r \<and> r - n < 8 \<and> b = NOT (mask (8 - (r - n))) \<and> bs = replicate (length bs) 0"
      by (metis add_diff_cancel_left' le_add1 le_add_diff_inverse)
    also have "\<dots> \<longleftrightarrow> n \<le> r \<and> r \<le> n + 8 * length (b # bs) \<and> b # bs = prefix_bytes (length (b # bs)) (r - n)"
      using False by (auto simp: prefix_bytes_0)
    finally show ?thesis .
  qed
qed auto

text \<open>
  Property C38. The constructor of a network from a mask is the inverse of \<open>netmask\<close>: it gives a prefix length, of at most
  32, exactly if the mask is the netmask of that length, and throws for every other mask.
\<close>

theorem netmask_round_trip:
  assumes "v4_ok m"
  shows "network_v4_mask a m = Inr n \<longleftrightarrow> net_address n = a \<and> prefix_length n \<le> 32 \<and> netmask n = m"
proof -
  have len: "length (s_addr m) = 4" using assms by (simp add: v4_ok_def)
  obtain a' p where n: "n = \<lparr>net_address = a', prefix_length = p\<rparr>" by (cases n) auto
  have "network_v4_mask a m = Inr n \<longleftrightarrow> a' = a \<and> p \<le> 32 \<and> s_addr m = prefix_bytes 4 p"
    using mask_loop_spec [of "s_addr m" 0 p] len unfolding network_v4_mask_def v4_to_bytes_def n
    by (auto simp: faults)
  also have "\<dots> \<longleftrightarrow> a' = a \<and> p \<le> 32 \<and> netmask n = m"
    using netmask_prefix_bytes [of p a'] unfolding n by auto
  finally show ?thesis by (simp add: n)
qed

lemma netmask_round_trip_witness:
  "network_v4_mask new_v4 (v4_of_bytes [255, 255, 240, 0]) = Inr \<lparr>net_address = new_v4, prefix_length = 20\<rparr>
   \<and> netmask \<lparr>net_address = new_v4, prefix_length = 20\<rparr> = v4_of_bytes [255, 255, 240, 0]"
proof -
  have "v4_ok (v4_of_bytes [255, 255, 240, 0])" by (simp add: v4_ok_def v4_of_bytes_def)
  moreover have "network_v4_mask new_v4 (v4_of_bytes [255, 255, 240, 0]) = Inr \<lparr>net_address = new_v4, prefix_length = 20\<rparr>"
    by (simp add: network_v4_mask_def v4_to_bytes_def v4_of_bytes_def)
  ultimately show ?thesis using netmask_round_trip by fastforce
qed

section \<open>Hosts\<close>

lemma in_v4_block:
  "x \<in> v4_block n \<longleftrightarrow> v4_ok x \<and> floor_to (32 - prefix_length n) (v4_value (net_address n)) \<le> v4_value x
    \<and> v4_value x < floor_to (32 - prefix_length n) (v4_value (net_address n)) + 2 ^ (32 - prefix_length n)"
  unfolding v4_block_def block_def by (simp add: same_block)

lemma in_v6_block:
  "x \<in> v6_block n \<longleftrightarrow> v6_ok x \<and> scope_id x = scope_id (net_address n)
    \<and> floor_to (128 - prefix_length n) (v6_value (net_address n)) \<le> v6_value x
    \<and> v6_value x < floor_to (128 - prefix_length n) (v6_value (net_address n)) + 2 ^ (128 - prefix_length n)"
  unfolding v6_block_def block_def by (simp add: same_block)

lemma v4_value_of_uint [simp]: "v4_value (v4_of_uint x) = unat x"
  by (simp add: v4_value_def)

lemma v4_hosts_visited:
  assumes "v4_net_ok n"
  shows "\<exists>as. visit v4_eq v4_inc (range_begin (v4_hosts n)) (range_end (v4_hosts n)) = Some as
    \<and> set as = (if v4_is_host n then {net_address n} else v4_block n - {v4_network n, v4_net_broadcast n})
    \<and> sorted_wrt v4_less as \<and> length as = v4_size (v4_hosts n)"
proof -
  let ?b = "range_begin (v4_hosts n)" and ?e = "range_end (v4_hosts n)"
  let ?k = "32 - prefix_length n" and ?f = "floor_to (32 - prefix_length n) (v4_value (net_address n))"
  have ok: "v4_ok (net_address n)" "prefix_length n \<le> 32" using assms by (simp_all add: v4_net_ok_def)
  have f: "?f + 2 ^ ?k \<le> 2 ^ 32" by (rule floor_to_less) (use v4_value_less in auto)
  define m where "m = (if v4_is_host n then v4_value (net_address n) + 1 else ?f + (2 ^ ?k - 1))"
  have two: "2 \<le> (2::nat) ^ ?k" if "\<not> v4_is_host n"
  proof -
    have "?k = Suc (?k - 1)" using that ok(2) by (simp add: v4_is_host_def)
    then have "(2::nat) ^ ?k = 2 * 2 ^ (?k - 1)" by (metis power_Suc)
    moreover have "(1::nat) \<le> 2 ^ (?k - 1)" by simp
    ultimately show ?thesis by linarith
  qed
  have wf: "v4_ok ?b" "v4_ok ?e"
    using ok v4_broadcast_spec [OF assms] by (simp_all add: v4_hosts_def)
  have vb: "v4_value ?b = (if v4_is_host n then v4_value (net_address n) else ?f + 1)"
  proof (cases "v4_is_host n")
    case False
    have "unat (to_uint (v4_network n)) = ?f" using v4_network_spec(2) [OF assms] by (simp add: v4_value_def)
    moreover have "?f + 1 < 2 ^ 32" using f two [OF False] by linarith
    ultimately show ?thesis using False by (simp add: v4_hosts_def unat_word_ariths)
  qed (simp add: v4_hosts_def)
  have ve: "v4_value ?e = m mod 2 ^ 32"
  proof (cases "v4_is_host n")
    case True
    then show ?thesis by (simp add: v4_hosts_def unat_word_ariths m_def v4_value_def)
  next
    case False
    have "m < 2 ^ 32" using f two [OF False] False by (simp add: m_def)
    then show ?thesis using False v4_broadcast_spec(2) [OF assms] by (simp add: v4_hosts_def m_def)
  qed
  have m: "v4_value ?b \<le> m" "m \<le> 2 ^ 32" "v4_value ?b = 0 \<longrightarrow> m < 2 ^ 32"
    using vb f two v4_value_less [of "net_address n"] by (auto simp: m_def)
  from v4.visit_list [OF wf _ m(1) m(2) ve m(3)] obtain as where as:
    "visit v4_eq v4_inc ?b ?e = Some as" "map v4_value as = [v4_value ?b..<m]"
    "set as = {x. v4_ok x \<and> v4_value ?b \<le> v4_value x \<and> v4_value x < m}" by auto
  have set: "set as = (if v4_is_host n then {net_address n} else v4_block n - {v4_network n, v4_net_broadcast n})"
  proof (cases "v4_is_host n")
    case True
    then show ?thesis unfolding as(3) using ok vb by (auto simp: m_def intro: v4_value_inj)
  next
    case False
    have ends: "x = v4_network n \<longleftrightarrow> v4_value x = ?f" "x = v4_net_broadcast n \<longleftrightarrow> v4_value x = ?f + (2 ^ ?k - 1)"
      if "v4_ok x" for x
      using that v4_network_spec [OF assms] v4_broadcast_spec [OF assms] by (metis v4_value_inj)+
    have "x \<in> v4_block n - {v4_network n, v4_net_broadcast n} \<longleftrightarrow>
        v4_ok x \<and> ?f + 1 \<le> v4_value x \<and> v4_value x < ?f + (2 ^ ?k - 1)" for x
    proof (cases "v4_ok x")
      case True
      define P where "P = (2 :: nat) ^ ?k"
      have "2 \<le> P" using two [OF False] by (simp add: P_def)
      then show ?thesis
        unfolding Diff_iff insert_iff in_v4_block ends [OF True] P_def [symmetric] using True by auto
    qed (simp add: in_v4_block)
    then have "x \<in> set as \<longleftrightarrow> x \<in> v4_block n - {v4_network n, v4_net_broadcast n}" for x
      using False unfolding as(3) by (simp add: vb m_def)
    then show ?thesis using False by auto
  qed
  have "sorted_wrt (<) (map v4_value as)" unfolding as(2) by simp
  then have sorted: "sorted_wrt v4_less as"
    by (simp add: sorted_wrt_map v4_less_def [abs_def] v4_value_def word_less_nat_alt)
  have "length as = m - v4_value ?b" using arg_cong [OF as(2), of length] by simp
  also have "\<dots> = v4_size (v4_hosts n)"
  proof (cases "v4_is_host n")
    case True
    then show ?thesis using vb by (simp add: m_def v4_size_def v4_hosts_def)
  next
    case False
    then have "m < 2 ^ 32" using f two [OF False] by (simp add: m_def)
    then have "v4_value ?e = m" using ve by simp
    moreover have "to_uint ?b \<le> to_uint ?e"
      using m(1) calculation by (simp add: word_le_nat_alt v4_value_def)
    ultimately show ?thesis by (simp add: v4_size_def unat_sub v4_value_def)
  qed
  finally show ?thesis using as(1) set sorted by blast
qed

text \<open>The range of an IPv6 network: it begins with the first address and ends after the last, or at 0 if that is the last of all.\<close>

lemma v6_hosts_range:
  assumes "v6_net_ok n"
  defines "f \<equiv> floor_to (128 - prefix_length n) (v6_value (net_address n))"
    and "k \<equiv> 128 - prefix_length n"
  shows "v6_ok (range_begin (v6_hosts n))" "v6_ok (range_end (v6_hosts n))"
    "scope_id (range_begin (v6_hosts n)) = scope_id (net_address n)"
    "scope_id (range_end (v6_hosts n)) = scope_id (net_address n)"
    "v6_value (range_begin (v6_hosts n)) = f"
    "v6_value (range_end (v6_hosts n)) = (f + 2 ^ k) mod 2 ^ 128"
    "f + 2 ^ k \<le> 2 ^ 128"
proof -
  let ?l = "v6_of_bytes (fill_loop (prefix_length n) 0 (v6_to_bytes (net_address n))) (scope_id (net_address n))"
  have ok: "v6_ok (net_address n)" "prefix_length n \<le> 128" using assms(1) by (simp_all add: v6_net_ok_def)
  have v: "v6_value ?l = f + (2 ^ k - 1)"
    using loops_value [of "prefix_length n" 0 "s6_addr (net_address n)"] ok
    by (simp add: v6_ok_def v6_value_def v6_of_bytes_def v6_to_bytes_def f_def k_def)
  have l: "v6_ok ?l" "scope_id ?l = scope_id (net_address n)"
    using ok by (simp_all add: v6_ok_def v6_of_bytes_def v6_to_bytes_def)
  have e: "range_end (v6_hosts n) = v6_inc ?l" by (simp add: v6_hosts_def)
  have b: "range_begin (v6_hosts n) = v6_network n" by (simp add: v6_hosts_def v6_network_def)
  show "f + 2 ^ k \<le> 2 ^ 128"
    unfolding f_def k_def by (rule floor_to_less) (use v6_value_less ok in auto)
  have "(1::nat) \<le> 2 ^ k" by simp
  then have "f + (2 ^ k - 1) + 1 = f + 2 ^ k" by linarith
  then show "v6_value (range_end (v6_hosts n)) = (f + 2 ^ k) mod 2 ^ 128"
    using v6_inc_spec [OF l(1)] unfolding e v by metis
  show "v6_ok (range_end (v6_hosts n))" "scope_id (range_end (v6_hosts n)) = scope_id (net_address n)"
    using v6_inc_spec [OF l(1)] l(2) unfolding e by simp_all
  show "v6_ok (range_begin (v6_hosts n))" "scope_id (range_begin (v6_hosts n)) = scope_id (net_address n)"
    "v6_value (range_begin (v6_hosts n)) = f"
    using v6_network_spec [OF assms(1)] unfolding b f_def by simp_all
qed

lemma v6_hosts_visited:
  assumes "v6_net_ok n"
  shows "\<exists>as. visit v6_eq v6_inc (range_begin (v6_hosts n)) (range_end (v6_hosts n)) = Some as
    \<and> set as = (if prefix_length n = 0 then {} else v6_block n) \<and> sorted_wrt v6_less as"
proof (cases "prefix_length n = 0")
  case True
  note range = v6_hosts_range [OF assms]
  have "v6_value (net_address n) < 2 ^ 128" using assms v6_value_less by (simp add: v6_net_ok_def)
  then have f: "floor_to (128 - prefix_length n) (v6_value (net_address n)) = 0"
    unfolding True by (intro floor_to_small) simp
  have "range_begin (v6_hosts n) = range_end (v6_hosts n)"
    by (rule v6_value_inj) (simp_all only: range f, simp add: True)
  then have "v6_eq (range_begin (v6_hosts n)) (range_end (v6_hosts n))"
    using v6_order(1) range(1,2) by metis
  then show ?thesis using True by (simp add: visit.simps)
next
  case False
  note range = v6_hosts_range [OF assms]
  let ?b = "range_begin (v6_hosts n)" and ?e = "range_end (v6_hosts n)"
  let ?k = "128 - prefix_length n" and ?f = "floor_to (128 - prefix_length n) (v6_value (net_address n))"
  have "v6_value ?b = 0 \<longrightarrow> ?f + 2 ^ ?k < 2 ^ 128"
  proof
    assume "v6_value ?b = 0"
    then have "?f = 0" using range(5) by simp
    moreover have "(2::nat) ^ ?k < 2 ^ 128" using False by (intro power_strict_increasing) simp_all
    ultimately show "?f + 2 ^ ?k < 2 ^ 128" by simp
  qed
  from v6.visit_list [OF range(1,2) _ _ range(7) range(6) this] obtain as where as:
    "visit v6_eq v6_inc ?b ?e = Some as" "map v6_value as = [v6_value ?b..<?f + 2 ^ ?k]"
    "set as = {x. v6_ok x \<and> scope_id x = scope_id ?b \<and> v6_value ?b \<le> v6_value x \<and> v6_value x < ?f + 2 ^ ?k}"
    unfolding range(3-5) by auto
  have set: "set as = v6_block n"
    unfolding as(3) set_eq_iff mem_Collect_eq in_v6_block range(3,5) by blast
  have "sorted_wrt (<) (map v6_value as)" unfolding as(2) by simp
  then have "sorted_wrt (\<lambda>x y. v6_value x < v6_value y) as" by (simp add: sorted_wrt_map)
  then have "sorted_wrt v6_less as"
    by (rule sorted_wrt_mono_rel [rotated]) (use as(3) in \<open>simp add: v6_order\<close>)
  then show ?thesis using as(1) set False by auto
qed

text \<open>
  Property C39. A loop over the hosts of an IPv4 network ends and visits, in ascending order, every address of it but the
  network and the broadcast address, or the one address of a network that is a host; \<open>v4_size\<close> is how many. Over an
  IPv6 network it visits every address, but none at all if the prefix length is 0: there the end of the range wraps to its
  beginning.
\<close>

theorem hosts_visits_the_block:
  assumes "v4_net_ok n4" "v6_net_ok n6"
  shows "(\<exists>as. visit v4_eq v4_inc (range_begin (v4_hosts n4)) (range_end (v4_hosts n4)) = Some as
      \<and> set as = (if v4_is_host n4 then {net_address n4} else v4_block n4 - {v4_network n4, v4_net_broadcast n4})
      \<and> sorted_wrt v4_less as \<and> length as = v4_size (v4_hosts n4))
    \<and> (\<exists>as. visit v6_eq v6_inc (range_begin (v6_hosts n6)) (range_end (v6_hosts n6)) = Some as
      \<and> set as = (if prefix_length n6 = 0 then {} else v6_block n6) \<and> sorted_wrt v6_less as)"
  using v4_hosts_visited [OF assms(1)] v6_hosts_visited [OF assms(2)] by blast

lemma hosts_visits_the_block_witness:
  "\<exists>as. visit v6_eq v6_inc (range_begin (v6_hosts (net_doc 0))) (range_end (v6_hosts (net_doc 0))) = Some as \<and> set as = {}"
  using hosts_visits_the_block [of "net_10 24" "net_doc 0"] by (auto simp: example_networks) (auto simp: net_doc_def)

lemma word_less_inc: "y < y + 1 \<longleftrightarrow> y + 1 \<noteq> 0" for y :: u32
proof (cases "unat y + 1 = 2 ^ 32")
  case True
  then have "unat (y + 1) = 0" by (simp add: unat_word_ariths)
  then show ?thesis by (simp add: unat_eq_0)
next
  case False
  then have "unat y + 1 < 2 ^ 32" using unsigned_less [of y, where ?'a = nat] by simp
  then have "unat (y + 1) = unat y + 1" by (simp add: unat_word_ariths)
  then show ?thesis by (metis less_add_one unat_0 word_less_nat_alt add_is_0 one_neq_zero)
qed

text \<open>
  \<open>find\<close> on the hosts of a network finds every address in them, unless the range ends after the last address
  there is. Its end is then 0, nothing is less than it, and \<open>find\<close> returns the end for each address it contains.
\<close>

theorem find_fails_at_the_last_block:
  assumes "v4_net_ok n4" "v6_net_ok n6"
  shows "(\<forall>x. v4_is_host n4 \<and> x = net_address n4
        \<or> \<not> v4_is_host n4 \<and> x \<in> v4_block n4 - {v4_network n4, v4_net_broadcast n4} \<longrightarrow>
      v4_find x (v4_hosts n4) = (if v4_value (range_end (v4_hosts n4)) = 0 then range_end (v4_hosts n4) else x))
    \<and> (\<forall>x\<in>v6_block n6.
      v6_find x (v6_hosts n6) = (if v6_value (range_end (v6_hosts n6)) = 0 then range_end (v6_hosts n6) else x))"
proof
  let ?b = "range_begin (v6_hosts n6)" and ?e = "range_end (v6_hosts n6)"
  let ?k = "128 - prefix_length n6" and ?f = "floor_to (128 - prefix_length n6) (v6_value (net_address n6))"
  note range = v6_hosts_range [OF assms(2)]
  show "\<forall>x\<in>v6_block n6. v6_find x (v6_hosts n6) = (if v6_value ?e = 0 then ?e else x)"
  proof
    fix x assume "x \<in> v6_block n6"
    then have x: "v6_ok x" "scope_id x = scope_id (net_address n6)" "?f \<le> v6_value x" "v6_value x < ?f + 2 ^ ?k"
      unfolding in_v6_block by blast+
    have "\<not> v6_less x ?b" using x range by (simp add: v6_order)
    moreover have "v6_less x ?e \<longleftrightarrow> v6_value ?e \<noteq> 0"
    proof (cases "?f + 2 ^ ?k = 2 ^ 128")
      case True
      then have "v6_value ?e = 0" using range(6) by simp
      then show ?thesis using x range(2,4) by (simp add: v6_order)
    next
      case False
      then have "v6_value ?e = ?f + 2 ^ ?k" using range(6,7) by simp
      then show ?thesis using x range(2,4) by (simp add: v6_order)
    qed
    ultimately show "v6_find x (v6_hosts n6) = (if v6_value ?e = 0 then ?e else x)"
      by (simp add: v6_find_def v6_ge_def)
  qed
next
  let ?b = "range_begin (v4_hosts n4)" and ?e = "range_end (v4_hosts n4)"
  show "\<forall>x. v4_is_host n4 \<and> x = net_address n4
      \<or> \<not> v4_is_host n4 \<and> x \<in> v4_block n4 - {v4_network n4, v4_net_broadcast n4} \<longrightarrow>
    v4_find x (v4_hosts n4) = (if v4_value ?e = 0 then ?e else x)"
  proof (intro allI impI)
    fix x assume x: "v4_is_host n4 \<and> x = net_address n4
      \<or> \<not> v4_is_host n4 \<and> x \<in> v4_block n4 - {v4_network n4, v4_net_broadcast n4}"
    show "v4_find x (v4_hosts n4) = (if v4_value ?e = 0 then ?e else x)"
    proof (cases "v4_is_host n4")
      case True
      then have "x = ?b" "to_uint ?e = to_uint x + 1" using x by (auto simp: v4_hosts_def)
      moreover have "to_uint x < to_uint x + 1 \<longleftrightarrow> to_uint x + 1 \<noteq> 0"
        by (rule word_less_inc)
      ultimately show ?thesis by (simp add: v4_find_def v4_ge_def v4_less_def v4_value_def unat_eq_0)
    next
      case False
      with x have x: "x \<in> v4_block n4" "x \<noteq> v4_network n4" "x \<noteq> v4_net_broadcast n4" by auto
      have ok: "v4_ok x" "v4_ok (v4_network n4)" "v4_ok (v4_net_broadcast n4)"
        using x(1) v4_network_spec(1) [OF assms(1)] v4_broadcast_spec(1) [OF assms(1)] by (simp_all add: in_v4_block)
      have "v4_value x \<noteq> v4_value (v4_network n4)" "v4_value x \<noteq> v4_value (v4_net_broadcast n4)"
        using v4_value_inj x(2,3) ok by metis+
      then have v: "v4_value (v4_network n4) < v4_value x" "v4_value x < v4_value (v4_net_broadcast n4)"
        using x(1) unfolding in_v4_block v4_network_spec(2) [OF assms(1)] v4_broadcast_spec(2) [OF assms(1)]
        by linarith+
      then have "unat (to_uint (v4_network n4)) + 1 < 2 ^ 32"
        using v4_value_less [of x] unfolding v4_value_def by linarith
      then have "v4_value ?b = v4_value (v4_network n4) + 1"
        using False by (simp add: v4_hosts_def v4_value_def unat_word_ariths)
      moreover have "?e = v4_net_broadcast n4" using False by (simp add: v4_hosts_def)
      ultimately show ?thesis
        using v by (simp add: v4_find_def v4_ge_def v4_less_def v4_value_def word_less_nat_alt word_le_nat_alt)
    qed
  qed
qed

lemma find_fails_at_the_last_block_witness:
  "v6_find (net_address (net_doc 0)) (v6_hosts (net_doc 0)) = range_end (v6_hosts (net_doc 0))"
proof -
  have "net_address (net_doc 0) \<in> v6_block (net_doc 0)"
    using v6.block_self example_networks(2) [of 0] by (simp add: v6_block_def v6_net_ok_def)
  moreover have "v6_value (range_end (v6_hosts (net_doc 0))) = 0"
    by (simp add: v6_hosts_def net_doc_def v6_of_bytes_def v6_to_bytes_def v6_inc_def v6_value_def numeral_eq_Suc)
  ultimately show ?thesis
    using find_fails_at_the_last_block [of "net_10 24" "net_doc 0"] example_networks by simp
qed

end
