(* ===== verification/NetworkText.thy ===== *)
theory NetworkText
  imports NetworkProperties
begin

text \<open>
  The text of networks: which strings \<open>make_network_v4\<close> and \<open>make_network_v6\<close> take, with which result, and that what
  \<open>to_string\<close> prints is read back.
\<close>

section \<open>Splitting at the slash\<close>

lemma find_char_None: "find_char p s = None \<longleftrightarrow> (\<forall>c\<in>set s. \<not> p c)"
  by (induction s) auto

lemma find_char_append: "\<forall>c\<in>set s. \<not> p c \<Longrightarrow> p c \<Longrightarrow> find_char p (s @ c # ds) = Some (length s)"
  by (induction s) auto

lemma c_str_eq: "CHR 0x00 \<notin> set s \<Longrightarrow> c_str s = s"
  by (auto simp: c_str_def takeWhile_eq_all_conv)

lemma c_str_digits: "\<forall>c\<in>set ds. is_digit c \<Longrightarrow> c_str ds = ds"
  by (rule c_str_eq) (auto simp: is_digit_def)

lemma atoi_digits:
  assumes "\<forall>c\<in>set ds. is_digit c" "ds \<noteq> []"
  shows "atoi ds = (if int_max < decimal_value ds then Inl UndefinedBehaviour else Inr (int (decimal_value ds)))"
proof -
  obtain c cs where ds: "ds = c # cs" using assms(2) by (cases ds) auto
  then have digits: "takeWhile is_digit cs = cs" using assms(1) by (intro takeWhile_digits) simp
  show ?thesis using assms(1) unfolding ds by (auto simp: atoi_def Let_def digits)
qed

text \<open>The text before the slash and after it, and what the digits after it have to be.\<close>

definition network_text :: "string \<Rightarrow> string \<Rightarrow> string \<Rightarrow> bool" where
  "network_text str s ds \<longleftrightarrow>
     str = s @ ''/'' @ ds \<and> CHR ''/'' \<notin> set s \<and> ds \<noteq> [] \<and> (\<forall>c\<in>set ds. is_digit c)"

lemma network_text_unique:
  assumes "network_text str s ds" "network_text str s' ds'"
  shows "s' = s \<and> ds' = ds"
proof -
  have "find_char (\<lambda>c. c = CHR ''/'') str = Some (length s)" "find_char (\<lambda>c. c = CHR ''/'') str = Some (length s')"
    using assms find_char_append [of s "\<lambda>c. c = CHR ''/''" "CHR ''/''" ds]
      find_char_append [of s' "\<lambda>c. c = CHR ''/''" "CHR ''/''" ds']
    by (auto simp: network_text_def)
  then have "length s' = length s" by simp
  with assms show ?thesis by (auto simp: network_text_def)
qed

lemma make_network_text:
  assumes "network_text str s ds" "mx \<le> int_max"
  shows "make_network ma nw none mx str =
    and_then (ma s) (\<lambda>(addr, ec).
      if ec \<noteq> IpOk then Inr (none, ec)
      else if int_max < decimal_value ds then Inl UndefinedBehaviour
      else if mx < decimal_value ds then Inr (none, IpInvalid)
      else and_then (nw addr (decimal_value ds)) (\<lambda>n. Inr (n, IpOk)))"
proof -
  have str: "str = s @ CHR ''/'' # ds" "CHR ''/'' \<notin> set s" "ds \<noteq> []" "\<forall>c\<in>set ds. is_digit c"
    using assms(1) by (simp_all add: network_text_def)
  have "find_char (\<lambda>c. c = CHR ''/'') str = Some (length s)"
    unfolding str(1) by (rule find_char_append) (use str(2) in auto)
  moreover have "find_char (\<lambda>c. \<not> is_digit c) ds = None" using str(4) by (simp add: find_char_None)
  ultimately show ?thesis
    using str(3) unfolding make_network_def
    by (simp add: str(1) c_str_digits [OF str(4)] atoi_digits [OF str(4,3)] split_def cong: if_cong)
qed

lemma make_network_other:
  assumes "\<nexists>s ds. network_text str s ds"
  shows "make_network ma nw none mx str = Inr (none, IpInvalid)"
proof (cases "find_char (\<lambda>c. c = CHR ''/'') str")
  case None
  then show ?thesis by (simp add: make_network_def)
next
  case (Some pos)
  then have "CHR ''/'' \<in> set str" using find_char_None [of "\<lambda>c. c = CHR ''/''" str] by auto
  then obtain s ds where str: "str = s @ CHR ''/'' # ds" "CHR ''/'' \<notin> set s" by (meson split_list_first)
  have pos: "pos = length s"
    using Some find_char_append [of s "\<lambda>c. c = CHR ''/''" "CHR ''/''" ds] str by auto
  have "ds = [] \<or> \<not> (\<forall>c\<in>set ds. is_digit c)" using assms str by (auto simp: network_text_def)
  then show ?thesis
    using Some find_char_None [of "\<lambda>c. \<not> is_digit c" ds] by (auto simp: make_network_def pos str(1))
qed

section \<open>What is read\<close>

text \<open>
  Property C40. \<open>make_network_v4\<close> succeeds exactly on the text of an address, a slash and a decimal number of at most 32, and
  gives that network. It never throws; but if the address is good and the number does not fit an \<^verbatim>\<open>int\<close>, \<open>atoi\<close> has
  undefined behaviour. All other texts give an error.
\<close>

theorem make_network_v4_exactly:
  "(make_network_v4 os str = Inr (n, IpOk) \<longleftrightarrow>
      (\<exists>s ds. network_text str s ds \<and> make_address_v4 os s = (net_address n, IpOk)
        \<and> prefix_length n = decimal_value ds \<and> decimal_value ds \<le> 32))
   \<and> (make_network_v4 os str = Inl e \<longleftrightarrow> e = UndefinedBehaviour
      \<and> (\<exists>s ds a. network_text str s ds \<and> make_address_v4 os s = (a, IpOk) \<and> int_max < decimal_value ds))"
proof (cases "\<exists>s ds. network_text str s ds")
  case False
  then show ?thesis by (auto simp: make_network_v4_def make_network_other)
next
  case True
  then obtain s ds where t: "network_text str s ds" by blast
  have ex: "(\<exists>s ds. network_text str s ds \<and> P s ds) \<longleftrightarrow> P s ds" for P
    using t network_text_unique [OF t] by blast
  have ex3: "(\<exists>s ds a. network_text str s ds \<and> P s ds a) \<longleftrightarrow> (\<exists>a. P s ds a)" for P :: "string \<Rightarrow> string \<Rightarrow> address_v4 \<Rightarrow> bool"
    using t network_text_unique [OF t] by blast
  have m: "make_network_v4 os str =
    (case make_address_v4 os s of (addr, ec) \<Rightarrow>
      if ec \<noteq> IpOk then Inr (new_network_v4, ec)
      else if int_max < decimal_value ds then Inl UndefinedBehaviour
      else if 32 < decimal_value ds then Inr (new_network_v4, IpInvalid)
      else and_then (network_v4 addr (decimal_value ds)) (\<lambda>n. Inr (n, IpOk)))"
    unfolding make_network_v4_def by (subst make_network_text [OF t]) (simp_all add: int_max_def)
  obtain a ec where a: "make_address_v4 os s = (a, ec)" by (cases "make_address_v4 os s")
  obtain a' p where n: "n = \<lparr>net_address = a', prefix_length = p\<rparr>" by (cases n) auto
  show ?thesis
    unfolding m ex ex3 by (auto simp: a network_v4_def n int_max_def split: if_splits)
qed

section \<open>What is printed is read back\<close>

text \<open>
  What the round trip takes of the system, for an address: \<^verbatim>\<open>inet_pton\<close> reads what \<^verbatim>\<open>inet_ntop\<close> prints, which has none of
  the characters that end or part a text; a name printed for a scope is that of its index, and a number printed for a
  scope is no interface's name and fits an \<^verbatim>\<open>int\<close>.
\<close>

definition plain_text :: "string \<Rightarrow> bool" where
  "plain_text t \<longleftrightarrow> CHR ''/'' \<notin> set t \<and> CHR 0x00 \<notin> set t"

definition inet4_ok :: "inet_calls \<Rightarrow> address_v4 \<Rightarrow> bool" where
  "inet4_ok os a \<longleftrightarrow> (\<exists>t. ntop4 os (s_addr a) = Inr t \<and> pton4 os t = Inr (s_addr a) \<and> plain_text t)"

definition inet6_ok :: "inet_calls \<Rightarrow> address_v6 \<Rightarrow> bool" where
  "inet6_ok os a \<longleftrightarrow> (\<exists>t. ntop6 os (s6_addr a) = Inr t \<and> pton6 os t = Inr (s6_addr a) \<and> plain_text t
     \<and> CHR ''%'' \<notin> set t \<and> length t \<le> max_addr_v6_str_len)"

definition scope_ok :: "inet_calls \<Rightarrow> address_v6 \<Rightarrow> bool" where
  "scope_ok os a \<longleftrightarrow> scope_id a = 0
     \<or> (case if is_scoped (s6_addr a) then if_indextoname os (scope_id a) else None of
          Some name \<Rightarrow> if_nametoindex os name = scope_id a \<and> plain_text name
        | None \<Rightarrow> (is_scoped (s6_addr a) \<longrightarrow> if_nametoindex os (show_u32 (scope_id a)) = 0)
            \<and> unat (scope_id a) \<le> int_max)"

lemma show_u32_facts: "plain_text (show_u32 x)" "unat x \<le> int_max \<Longrightarrow> atoi (show_u32 x) = Inr (int (unat x))"
proof -
  have d: "\<forall>c\<in>set (show_u32 x). is_digit c" "show_u32 x \<noteq> []"
    by (simp_all add: show_u32_def digits_dec_nat)
  then show "plain_text (show_u32 x)" unfolding plain_text_def by (auto simp: is_digit_def)
  show "unat x \<le> int_max \<Longrightarrow> atoi (show_u32 x) = Inr (int (unat x))"
    using atoi_digits [OF d] by (simp add: show_u32_def)
qed

lemma v6_text_round_trip:
  assumes "inet6_ok os a" "scope_ok os a"
  shows "\<exists>t. v6_to_string os a = Inr t \<and> plain_text t \<and> make_address_v6 os t = Inr (a, IpOk)"
proof -
  from assms(1) obtain t where t: "ntop6 os (s6_addr a) = Inr t" "pton6 os t = Inr (s6_addr a)" "plain_text t"
    "CHR ''%'' \<notin> set t" "length t \<le> max_addr_v6_str_len"
    unfolding inet6_ok_def by blast
  have a: "v6_of_bytes (s6_addr a) (scope_id a) = a" by (simp add: v6_of_bytes_def)
  show ?thesis
  proof (cases "scope_id a = 0")
    case True
    have "find_char (\<lambda>c. c = CHR ''%'') t = None" using t(4) by (auto simp: find_char_None)
    then show ?thesis
      using True t a c_str_eq [of t]
      by (simp add: v6_to_string_def inet_ntop6_def make_address_v6_def inet_pton6_def plain_text_def)
  next
    case False
    let ?name = "if is_scoped (s6_addr a) then if_indextoname os (scope_id a) else None"
    define name where "name = (case ?name of None \<Rightarrow> show_u32 (scope_id a) | Some name \<Rightarrow> name)"
    have str: "v6_to_string os a = Inr (t @ CHR ''%'' # name)"
      using False t(1) by (simp add: v6_to_string_def inet_ntop6_def name_def)
    have plain: "plain_text name"
      using assms(2) False show_u32_facts(1) by (auto simp: name_def scope_ok_def split: option.splits)
    then have p: "plain_text (t @ CHR ''%'' # name)" using t(3) by (simp add: plain_text_def)
    have f: "find_char (\<lambda>c. c = CHR ''%'') (t @ CHR ''%'' # name) = Some (length t)"
      by (rule find_char_append) (use t(4) in auto)
    have sid: "(let sid = (if is_scoped (s6_addr a) then if_nametoindex os name else 0) in
        if sid = 0 then and_then (atoi name) (\<lambda>n. Inr (Inr (s6_addr a, of_int n))) else Inr (Inr (s6_addr a, sid)))
      = Inr (Inr (s6_addr a, scope_id a) :: ip_error + bytes \<times> u32)"
    proof (cases ?name)
      case None
      then have "unat (scope_id a) \<le> int_max" "is_scoped (s6_addr a) \<longrightarrow> if_nametoindex os name = 0"
        "name = show_u32 (scope_id a)"
        using assms(2) False by (auto simp: scope_ok_def name_def)
      then show ?thesis using show_u32_facts(2) by simp
    next
      case (Some nm)
      then have "is_scoped (s6_addr a)" "name = nm" "if_nametoindex os nm = scope_id a"
        using assms(2) False by (auto simp: scope_ok_def name_def split: if_splits)
      then show ?thesis using False by simp
    qed
    have "inet_pton6 os (t @ CHR ''%'' # name) = Inr (Inr (s6_addr a, scope_id a))"
      unfolding inet_pton6_def Let_def f using t(2,5) sid
      by (cases "is_scoped (s6_addr a)") (simp_all add: Let_def split: if_splits)
    then have "make_address_v6 os (t @ CHR ''%'' # name) = Inr (a, IpOk)"
      using p a c_str_eq [of "t @ CHR ''%'' # name"] by (simp add: make_address_v6_def plain_text_def)
    then show ?thesis using str p by blast
  qed
qed

lemma v4_text_round_trip:
  assumes "inet4_ok os a"
  shows "\<exists>t. v4_to_string os a = Inr t \<and> plain_text t \<and> make_address_v4 os t = (a, IpOk)"
proof -
  from assms obtain t where t: "ntop4 os (s_addr a) = Inr t" "pton4 os t = Inr (s_addr a)" "plain_text t"
    unfolding inet4_ok_def by blast
  then show ?thesis
    using c_str_eq [of t] by (simp add: v4_to_string_def make_address_v4_def inet_pton4_def v4_of_bytes_def plain_text_def)
qed

lemma printed_network: "plain_text t \<Longrightarrow> network_text (t @ ''/'' @ dec_nat p) t (dec_nat p)"
  by (simp add: network_text_def plain_text_def digits_dec_nat)

text \<open>
  What \<open>to_string\<close> prints for a network is read back as the same network, of either family, on a system whose
  functions print and read addresses as they should: with its scope, too, if the scope has a name or its number fits an
  \<^verbatim>\<open>int\<close>.
\<close>

theorem network_text_round_trip:
  assumes "v4_net_ok n4" "inet4_ok os (net_address n4)"
    and "v6_net_ok n6" "inet6_ok os (net_address n6)" "scope_ok os (net_address n6)"
  shows "(\<exists>str. v4_network_to_string os n4 = Inr str \<and> make_network_v4 os str = Inr (n4, IpOk))
    \<and> (\<exists>str. v6_network_to_string os n6 = Inr str \<and> make_network_v6 os str = Inr (n6, IpOk))"
proof
  from v4_text_round_trip [OF assms(2)] obtain t where t: "v4_to_string os (net_address n4) = Inr t" "plain_text t"
    "make_address_v4 os t = (net_address n4, IpOk)" by blast
  have "make_network_v4 os (t @ ''/'' @ dec_nat (prefix_length n4)) = Inr (n4, IpOk)"
    unfolding make_network_v4_def using t(3) assms(1)
    by (subst make_network_text [OF printed_network [OF t(2)]])
      (simp_all add: int_max_def network_v4_def v4_net_ok_def)
  then show "\<exists>str. v4_network_to_string os n4 = Inr str \<and> make_network_v4 os str = Inr (n4, IpOk)"
    using t(1) by (simp add: v4_network_to_string_def)
next
  from v6_text_round_trip [OF assms(4,5)] obtain t where t: "v6_to_string os (net_address n6) = Inr t" "plain_text t"
    "make_address_v6 os t = Inr (net_address n6, IpOk)" by blast
  have "make_network_v6 os (t @ ''/'' @ dec_nat (prefix_length n6)) = Inr (n6, IpOk)"
    unfolding make_network_v6_def using t(3) assms(3)
    by (subst make_network_text [OF printed_network [OF t(2)]])
      (simp_all add: int_max_def network_v6_def v6_net_ok_def)
  then show "\<exists>str. v6_network_to_string os n6 = Inr str \<and> make_network_v6 os str = Inr (n6, IpOk)"
    using t(1) by (simp add: v6_network_to_string_def)
qed

text \<open>A system that knows two addresses and the interface 3.\<close>

definition two_addresses :: inet_calls where
  "two_addresses = \<lparr>
     pton4 = \<lambda>t. if t = ''10.0.0.0'' then Inr [10, 0, 0, 0] else Inl 0,
     pton6 = \<lambda>t. if t = ''fe80::'' then Inr [0xfe, 0x80, 0, 0, 0, 0, 0, 0, 0, 0, 0, 0, 0, 0, 0, 0] else Inl 0,
     ntop4 = \<lambda>_. Inr ''10.0.0.0'', ntop6 = \<lambda>_. Inr ''fe80::'',
     if_nametoindex = \<lambda>t. if t = ''eth0'' then 3 else 0,
     if_indextoname = \<lambda>i. if i = 3 then Some ''eth0'' else None\<rparr>"

definition link_local_net :: "address_v6 network" where
  "link_local_net =
     \<lparr>net_address = v6_of_bytes [0xfe, 0x80, 0, 0, 0, 0, 0, 0, 0, 0, 0, 0, 0, 0, 0, 0] 3, prefix_length = 64\<rparr>"

lemma network_text_round_trip_witness:
  "(\<exists>str. v4_network_to_string two_addresses (net_10 8) = Inr str
     \<and> make_network_v4 two_addresses str = Inr (net_10 8, IpOk))
   \<and> (\<exists>str. v6_network_to_string two_addresses link_local_net = Inr str
     \<and> make_network_v6 two_addresses str = Inr (link_local_net, IpOk))"
proof (rule network_text_round_trip)
  show "v4_net_ok (net_10 8)" by (simp add: example_networks)
  show "inet4_ok two_addresses (net_address (net_10 8))"
    by (simp add: inet4_ok_def two_addresses_def net_10_def v4_of_bytes_def plain_text_def)
  show "v6_net_ok link_local_net" by (simp add: link_local_net_def v6_net_ok_def v6_ok_def v6_of_bytes_def)
  show "inet6_ok two_addresses (net_address link_local_net)"
    by (simp add: inet6_ok_def two_addresses_def link_local_net_def v6_of_bytes_def plain_text_def max_addr_v6_str_len_def)
  show "scope_ok two_addresses (net_address link_local_net)"
    by (simp add: scope_ok_def two_addresses_def link_local_net_def v6_of_bytes_def plain_text_def is_scoped_def)
qed

end
