(* ===== verification/Spec2Isabelle.thy ===== *)
theory Spec2Isabelle
  imports Message Tsqueue TsqueueThreads Connection Channel Server ServerInvariant ServerProperties
    Commands Client Chat OpQueue Buffers Consuming ComposedOps DynBuffers DynRead
    Scheduler SchedulerInvariant SchedulerRun
    TimeTraits Linked TimerQueue TimerQueueRefinement Strand StrandInvariant StrandProperties
    ReadUntil ReadUntilProperties
    HashMap HashMapRefinement ReactorQueue
    SelectReactor SelectReactorSpec SelectReactorTimers SelectReactorRun SelectReactorProperties
    Addresses AddressSpec Networks NetworkProperties NetworkText
begin

text \<open>
  A chat over TCP: a server, a client, the framework between them and the parts of the Asio library
  in \<^verbatim>\<open>src/Asio_lib\<close> that carry it.

  \<^bold>\<open>The program.\<close> Clients connect to one server. Each end of a connection is a \<^verbatim>\<open>connection\<close>
  (\<^verbatim>\<open>Net_chat/net_connection.h\<close>), which validates the other end by a scrambled code and then exchanges
  messages, a header with the size and a body. Messages read go to a thread-safe queue
  (\<^verbatim>\<open>net_tsqueue.h\<close>), from which the server's \<^verbatim>\<open>Update\<close> and the client's \<^verbatim>\<open>ExecuteMessages\<close> take them. The
  server (\<^verbatim>\<open>net_server.h\<close>, \<^verbatim>\<open>ChatServer/Server.cpp\<close>) gives each client a number and keeps a table of
  chats; a client asks for a chat with another, the other answers, and the texts of each go to the
  other. The client (\<^verbatim>\<open>net_client.h\<close>, \<^verbatim>\<open>ChatClient\<close>) reads commands from the console. Both run an
  \<^verbatim>\<open>io_context\<close>: a scheduler with a queue of operations, timers, strands, and the composed reads and writes.

  \<^bold>\<open>The theories and the code.\<close>

  \<^item> \<open>Prelude\<close>, \<open>Linked\<close>: machine types, outcomes (\<open>fault + 'a\<close>), object representations, decimal text;
    linked lists whose links are in the nodes.
  \<^item> \<open>Message\<close>: \<^verbatim>\<open>net_message.h\<close>. A message is its id, its declared size and the bytes of its body. The
    streaming operators are inverse to each other (locale \<open>pod\<close>, for the two types the program streams).
  \<^item> \<open>Tsqueue\<close>, \<open>TsqueueThreads\<close>: \<^verbatim>\<open>net_tsqueue.h\<close>, as functions on the deque (locale \<open>fifo\<close>) and as mutex operations
    of threads: order, exclusion, no lost wakeup, and the deadlock that is the one way to get stuck.
  \<^item> \<open>Connection\<close>, \<open>Channel\<close>: \<^verbatim>\<open>net_connection.h\<close>, one function per member and per completion handler, and one end over
    every sequence of calls, completions and failures: what it writes, what it delivers, the handshake, and two ends
    with the bytes between them. A socket that takes the code in parts may mix it with messages (\<open>shuffles\<close>).
  \<^item> \<open>Server\<close>, \<open>ServerInvariant\<close>, \<open>ServerProperties\<close>: \<^verbatim>\<open>net_server.h\<close> and \<^verbatim>\<open>Server.cpp\<close>. The invariant, then what
    each message does and sends, and exactly which inputs make a step fail. A connection lives as long as the deque
    or a message in the queue holds it; what it left pending after that uses freed memory. \<^verbatim>\<open>Update\<close> is its loop with
    the steps that the thread of the \<^verbatim>\<open>io_context\<close> makes between its tests of the queue.
  \<^item> \<open>Commands\<close>, \<open>Client\<close>, \<open>Chat\<close>: \<^verbatim>\<open>ChatClient\<close>. Reading a command, the three threads of the client as steps, and
    client and server together.
  \<^item> \<open>OpQueue\<close>: \<^verbatim>\<open>detail/op_queue.hpp\<close>, the linked queue, which is a list.
  \<^item> \<open>Buffers\<close>, \<open>Consuming\<close>, \<open>DynBuffers\<close>: \<^verbatim>\<open>buffer.hpp\<close> and \<^verbatim>\<open>detail/consuming_buffers.hpp\<close>: buffers and copies, what
    is left of a sequence (locale \<open>consuming\<close>, interpreted on the versions of the code), dynamic buffers.
  \<^item> \<open>ComposedOps\<close>, \<open>DynRead\<close>: \<^verbatim>\<open>impl/read.hpp\<close> and \<^verbatim>\<open>impl/write.hpp\<close>, synchronous and asynchronous, with the completion
    conditions: the bytes in order, each once, whatever pieces the stream takes.
  \<^item> \<open>Scheduler\<close>, \<open>SchedulerInvariant\<close>, \<open>SchedulerRun\<close>: \<^verbatim>\<open>detail/impl/scheduler.ipp\<close>. The critical sections as
    functions, their interleavings as a step relation: every operation once, the count of work, no lost wakeup
    among threads in \<^verbatim>\<open>run\<close>, and when \<^verbatim>\<open>run\<close> ends.
  \<^item> \<open>TimeTraits\<close>, \<open>TimerQueue\<close>, \<open>TimerQueueRefinement\<close>: \<^verbatim>\<open>detail/chrono_time_traits.hpp\<close> and \<^verbatim>\<open>detail/timer_queue.hpp\<close>:
    saturating arithmetic on times; the heap, the indices and the linked list, which are a table of timers.
  \<^item> \<open>Strand\<close>, \<open>StrandInvariant\<close>, \<open>StrandProperties\<close>: \<^verbatim>\<open>detail/impl/strand_executor_service\<close> and \<^verbatim>\<open>strand_service\<close>: the calls in
    progress on each thread's stack, and on all interleavings one function at a time, in order, none left behind.
  \<^item> \<open>ReadUntil\<close>, \<open>ReadUntilProperties\<close>: \<^verbatim>\<open>impl/read_until.hpp\<close>: the search that resumes where a match may have begun, in
    the synchronous and asynchronous operations (locales \<open>searcher\<close> and \<open>growing\<close>): they end at the first delimiter.
  \<^item> \<open>HashMap\<close>, \<open>HashMapRefinement\<close>, \<open>ReactorQueue\<close>: \<^verbatim>\<open>detail/hash_map.hpp\<close>, one list with the buckets as sections of
    it and erased nodes kept for reuse, which is a finite map (locale \<open>hash_values\<close>, for plain values and for queues);
    \<^verbatim>\<open>detail/reactor_op_queue.hpp\<close> and \<^verbatim>\<open>detail/reactor_op.hpp\<close>: a queue of operations for each descriptor.
  \<^item> \<open>SelectReactor\<close>, \<open>SelectReactorSpec\<close>, \<open>SelectReactorTimers\<close>, \<open>SelectReactorRun\<close>, \<open>SelectReactorProperties\<close>:
    \<^verbatim>\<open>detail/select_reactor.hpp\<close> with \<^verbatim>\<open>detail/impl/select_reactor.ipp\<close> and \<^verbatim>\<open>.hpp\<close>, \<^verbatim>\<open>detail/posix_fd_set_adapter.hpp\<close> and \<^verbatim>\<open>detail/impl/timer_queue_set.ipp\<close>.
    The critical sections as functions, then all their interleavings with a thread in \<^verbatim>\<open>run\<close>, which is a step before
    \<^verbatim>\<open>select\<close>, one for \<^verbatim>\<open>select\<close> with the reset of the interrupter, and one that dispatches: every operation is in one
    place, no waiting descriptor goes unwatched, the timer queues that were added stay well formed, and what \<^verbatim>\<open>run\<close>
    prepares, performs and collects. Shutting down is two steps, as the mutex is not held for the second.
  \<^item> \<open>Addresses\<close>, \<open>AddressSpec\<close>, \<open>Networks\<close>, \<open>NetworkProperties\<close>, \<open>NetworkText\<close>: \<^verbatim>\<open>ip/address\<close>, \<^verbatim>\<open>address_v4\<close> and \<^verbatim>\<open>address_v6\<close>,
    their iterators and ranges, and \<^verbatim>\<open>ip/network_v4\<close> and \<^verbatim>\<open>network_v6\<close>. Addresses are numbers with a scope (locale
    \<open>address_family\<close>, for both families) and networks blocks of them: subnets, netmasks, hosts, and what text is read.

  \<^bold>\<open>How effects are modelled.\<close> State is passed explicitly. Threads and asynchronous operations are step
  relations; a step is a critical section, or an access outside one. A failure is a value, \<open>Inl\<close> of a
  \<open>fault\<close>; undefined behaviour is one of them, so a theorem that gives \<open>Inr\<close> shows it does not occur. Machine
  integers are words, or numbers with the check or the wrap-around written out. Addresses are numbers.

  \<^bold>\<open>Loops.\<close> There is no fuel: structural recursion, \<open>function\<close> with a measure, or \<open>partial_function (option)\<close>, where
  not returning is \<open>None\<close> and the theorems prove \<open>Some\<close>. The streams of the composed operations are
  parameters; that a synchronous transfer returns is proved for each stream that makes progress or reports an error.

  \<^bold>\<open>What is not modelled.\<close> Of the chat, the console and the window that \<^verbatim>\<open>ConnectTo\<close> polls (their results are inputs of
  the steps), the operators that print a message (they do not compile for the chat's types), name resolution, and
  the options of sockets. Of Asio, in the modelled parts: buffer debugging, handler tracking, allocation, the
  cancellation slots beyond whether a cancellation was requested, the executors a handler is bound to; in the scheduler,
  handlers that throw and nested calls of \<^verbatim>\<open>run\<close>, and between \<^verbatim>\<open>work_finished\<close>'s decrement to zero and the lock that its
  \<^verbatim>\<open>stop\<close> takes there is no other step; for strands, an executor that destroys an invoker without calling
  it; of the reactors, only the one on \<^verbatim>\<open>select\<close> in the POSIX build, where what \<^verbatim>\<open>select\<close> and the reset of the interrupter
  return are inputs of the steps and the perform functions of operations a parameter; of addresses, the text that \<^verbatim>\<open>inet_pton\<close> and \<^verbatim>\<open>inet_ntop\<close> of the system
  read and print (parameters), hashing and streams. The rest of Asio is system calls, executors and their properties, coroutines, SSL, serial ports and
  generated overload sets; the chat sees of it the completions of socket operations, which are steps of \<open>Connection\<close>.
\<close>

end
